(* ===== verification/Prelude.thy ===== *)
theory Prelude
  imports Main "HOL-Library.Word"
begin

text \<open>
  What every component shares: the outcomes of C code that can fail (a sum type), the
  sequencing of such code, and the generic lemmas on lists and words the component
  theories rewrite with.
\<close>

unbundle bit_operations_syntax

section \<open>Outcomes\<close>

text \<open>
  A C function either returns, or
  \<^item> reads or writes memory it may not (\<open>MemFault\<close>: a NULL or freed pointer, an index or
    an offset outside its object);
  \<^item> ends the process through \<^verbatim>\<open>error_at_line(EXIT_FAILURE, ...)\<close>, \<^verbatim>\<open>exit\<close> or
    \<^verbatim>\<open>abort\<close> (\<open>ExitFailure\<close>, with what the code says);
  \<^item> waits for an event that has not happened (\<open>Blocks\<close>);
  \<^item> never leaves a loop (\<open>Diverges\<close>).
\<close>

datatype fault = MemFault | ExitFailure string | Blocks | Diverges

type_synonym 'a result = "fault + 'a"

definition bindE :: "'a result \<Rightarrow> ('a \<Rightarrow> 'b result) \<Rightarrow> 'b result" where
  "bindE r f = (case r of Inl e \<Rightarrow> Inl e | Inr x \<Rightarrow> f x)"

text \<open>Reading a table at an index: outside of it, C reads memory it may not.\<close>

definition nthE :: "'a list \<Rightarrow> int \<Rightarrow> 'a result" where
  "nthE xs i = (if 0 \<le> i \<and> i < int (length xs) then Inr (xs ! nat i) else Inl MemFault)"

definition updE :: "'a list \<Rightarrow> int \<Rightarrow> 'a \<Rightarrow> 'a list result" where
  "updE xs i x =
     (if 0 \<le> i \<and> i < int (length xs) then Inr (xs[nat i := x]) else Inl MemFault)"

text \<open>C's integer division and remainder truncate towards zero.\<close>

definition c_div :: "int \<Rightarrow> int \<Rightarrow> int" where
  "c_div a b = sgn a * sgn b * (\<bar>a\<bar> div \<bar>b\<bar>)"

definition c_mod :: "int \<Rightarrow> int \<Rightarrow> int" where
  "c_mod a b = a - c_div a b * b"

named_theorems outcome_simps \<open>evaluation of sequenced code\<close>

lemma bindE_Inl [simp, outcome_simps]: "bindE (Inl e) f = Inl e"
  by (simp add: bindE_def)

lemma bindE_Inr [simp, outcome_simps]: "bindE (Inr x) f = f x"
  by (simp add: bindE_def)

lemma bindE_assoc: "bindE (bindE r f) g = bindE r (\<lambda>x. bindE (f x) g)"
  by (cases r) simp_all

lemma bindE_cong [fundef_cong]:
  "r = r' \<Longrightarrow> (\<And>x. r' = Inr x \<Longrightarrow> f x = g x) \<Longrightarrow> bindE r f = bindE r' g"
  by (cases r') auto

lemma bindE_eq_Inr: "bindE r f = Inr y \<longleftrightarrow> (\<exists>x. r = Inr x \<and> f x = Inr y)"
  by (cases r) auto

lemma bindE_eq_Inl:
  "bindE r f = Inl e \<longleftrightarrow> r = Inl e \<or> (\<exists>x. r = Inr x \<and> f x = Inl e)"
  by (cases r) auto

lemma nthE_nat [simp]: "nthE xs (int n) = (if n < length xs then Inr (xs ! n) else Inl MemFault)"
  by (simp add: nthE_def)

lemma updE_nat [simp]:
  "updE xs (int n) x = (if n < length xs then Inr (xs[n := x]) else Inl MemFault)"
  by (simp add: updE_def)

lemma nthE_in [outcome_simps]: "0 \<le> i \<Longrightarrow> nat i < length xs \<Longrightarrow> nthE xs i = Inr (xs ! nat i)"
  by (auto simp: nthE_def)

lemma updE_in [outcome_simps]: "0 \<le> i \<Longrightarrow> nat i < length xs \<Longrightarrow> updE xs i x = Inr (xs[nat i := x])"
  by (auto simp: updE_def)

lemma nthE_out [outcome_simps]: "i < 0 \<or> int (length xs) \<le> i \<Longrightarrow> nthE xs i = Inl MemFault"
  by (auto simp: nthE_def)

lemma nthE_eq_Inr: "nthE xs i = Inr x \<longleftrightarrow> 0 \<le> i \<and> nat i < length xs \<and> x = xs ! nat i"
  by (auto simp: nthE_def)

lemma updE_eq_Inr: "updE xs i x = Inr ys \<longleftrightarrow> 0 \<le> i \<and> nat i < length xs \<and> ys = xs[nat i := x]"
  by (auto simp: updE_def)

text \<open>A loop whose body may fail, over a list.\<close>

fun foldE :: "('a \<Rightarrow> 's \<Rightarrow> 's result) \<Rightarrow> 'a list \<Rightarrow> 's \<Rightarrow> 's result" where
  "foldE f [] s = Inr s"
| "foldE f (x # xs) s = bindE (f x s) (foldE f xs)"

lemma foldE_Nil_fun [simp]: "foldE f [] = Inr"
  by (rule ext) simp

lemma foldE_Cons_fun [simp]: "foldE f (x # xs) = (\<lambda>s. bindE (f x s) (foldE f xs))"
  by (rule ext) simp

lemma foldE_append: "foldE f (xs @ ys) s = bindE (foldE f xs s) (foldE f ys)"
  by (induction xs arbitrary: s) (auto simp: bindE_def split: sum.splits)

lemma foldE_invariant:
  assumes "\<And>x s s'. x \<in> set xs \<Longrightarrow> I s \<Longrightarrow> f x s = Inr s' \<Longrightarrow> I s'" and "I s" and "foldE f xs s = Inr s'"
  shows "I s'"
  using assms by (induction xs arbitrary: s) (auto simp: bindE_eq_Inr)

lemma drop_min_length [simp]: "drop (min (length xs) n) xs = drop n xs"
  by (simp add: min_def)

text \<open>A size stored in a C \<^verbatim>\<open>int\<close>; one below \<open>2 ^ 31\<close> reads back as itself.\<close>

definition c_int :: "nat \<Rightarrow> 32 word" where
  "c_int n = word_of_nat n"

lemma sint_c_int: "n < 2 ^ 31 \<Longrightarrow> sint (c_int n) = int n"
  by (simp add: c_int_def signed_of_nat signed_take_bit_int_eq_self)

lemma uint_scast_c_int: "n < 2 ^ 31 \<Longrightarrow> uint (scast (c_int n) :: 64 word) = int n"
  by (simp add: c_int_def signed_of_nat signed_take_bit_int_eq_self unsigned_of_nat take_bit_nat_eq_self)

lemma uint_64: "0 \<le> x \<Longrightarrow> x < 2 ^ 63 \<Longrightarrow> uint (word_of_int x :: 64 word) = x"
  by (simp add: uint_word_of_int)

lemma c_mod_nonneg: "0 \<le> a \<Longrightarrow> 0 < b \<Longrightarrow> c_mod a b = a mod b"
  by (cases "a = 0") (simp_all add: c_mod_def c_div_def minus_div_mult_eq_mod)

section \<open>Bits of words\<close>

text \<open>The set of bit positions of a word.\<close>

definition bits_of :: "'a::len word \<Rightarrow> nat set" where
  "bits_of w = {n. bit w n}"

lemma in_bits_of [simp]: "n \<in> bits_of w \<longleftrightarrow> bit w n"
  by (simp add: bits_of_def)

lemma bits_of_bound: "n \<in> bits_of (w :: 'a::len word) \<Longrightarrow> n < LENGTH('a)"
  by (simp add: bit_imp_le_length)

lemma bits_of_inject: "bits_of v = bits_of w \<longleftrightarrow> v = w"
  by (metis in_bits_of bit_word_eqI)

lemma bits_of_0 [simp]: "bits_of 0 = {}"
  by (auto simp: bits_of_def)

lemma bits_of_or: "bits_of (v OR w) = bits_of v \<union> bits_of w"
  by (auto simp: bits_of_def bit_simps)

lemma bits_of_and: "bits_of (v AND w) = bits_of v \<inter> bits_of w"
  by (auto simp: bits_of_def bit_simps)

lemma bits_of_xor: "bits_of (v XOR w) = (bits_of v - bits_of w) \<union> (bits_of w - bits_of v)"
  by (auto simp: bits_of_def bit_simps)

lemma bits_of_and_not: "bits_of (v AND NOT w) = bits_of v - bits_of w"
  by (auto simp: bits_of_def bit_simps dest: bit_imp_le_length)

lemma bits_of_empty_iff: "bits_of w = {} \<longleftrightarrow> w = 0"
  using bits_of_inject [of w 0] by simp

lemma bits_of_push_bit_1: "bits_of (push_bit n (1 :: 'a::len word)) = (if n < LENGTH('a) then {n} else {})"
  by (auto simp: bits_of_def bit_simps)

lemmas bits_of_simps = bits_of_or bits_of_and bits_of_xor bits_of_and_not bits_of_push_bit_1

end
