(* ===== verification/Address.thy ===== *)
theory Address
  imports Prelude
begin

text \<open>
  Addresses of processes (\<^verbatim>\<open>src/address.c\<close>, \<^verbatim>\<open>include/address.h\<close>): an address is one
  bit of an unsigned short, a set of addresses is the union of such bits. The definitions
  follow the code; the lemmas read them as operations on sets of ranks (\<open>bits_of\<close>).
\<close>

type_synonym address = "16 word"
type_synonym addressSet = address

definition NP :: int where
  "NP = 16"

definition MAX_MEMB :: nat where
  "MAX_MEMB = 8 * 2"

definition addrIsNull :: "address \<Rightarrow> bool" where
  "addrIsNull ad \<longleftrightarrow> ad = 0"

definition addrIsEqual :: "address \<Rightarrow> address \<Rightarrow> bool" where
  "addrIsEqual a1 a2 \<longleftrightarrow> a1 = a2"

definition addrIsMember :: "address \<Rightarrow> addressSet \<Rightarrow> bool" where
  "addrIsMember ad adSet \<longleftrightarrow> ad AND adSet \<noteq> 0"

function addrToRank_loop :: "address \<Rightarrow> nat \<Rightarrow> nat" where
  "addrToRank_loop ad rank =
     (if ad AND 1 = 0 \<and> rank < MAX_MEMB then addrToRank_loop (ad div 2) (rank + 1) else rank)"
  by pat_completeness auto
termination
  by (relation "measure (\<lambda>(ad, rank). MAX_MEMB - rank)") auto

declare addrToRank_loop.simps [simp del]

definition addrToRank :: "address \<Rightarrow> int" where
  "addrToRank ad =
     (let rank = addrToRank_loop ad 0 in if rank < MAX_MEMB then int rank else - 1)"

text \<open>\<^verbatim>\<open>return 1<<rank\<close>, cut to 16 bits; the shift is defined in C for ranks 0 to 31 only,
  and the callers pass ranks 0 to 15.\<close>

definition rankToAddr :: "int \<Rightarrow> address" where
  "rankToAddr rank = push_bit (nat rank) 1"

definition addrAppendArrived :: "addressSet \<Rightarrow> address \<Rightarrow> addressSet" where
  "addrAppendArrived arrivedSet ad = arrivedSet OR ad"

definition addrAppendGone :: "addressSet \<Rightarrow> addressSet \<Rightarrow> address \<Rightarrow> addressSet \<times> addressSet" where
  "addrAppendGone arrivedSet goneSet ad =
     (if addrIsMember ad arrivedSet then (arrivedSet XOR ad, goneSet)
      else (arrivedSet, goneSet OR ad))"

definition addrUpdateCircuit ::
  "addressSet \<Rightarrow> address \<Rightarrow> addressSet \<Rightarrow> addressSet \<Rightarrow> addressSet" where
  "addrUpdateCircuit circuit ad arrivedSet goneSet = (circuit XOR goneSet) OR arrivedSet"

text \<open>The do-while loop of \<^verbatim>\<open>addrPrec\<close> goes round the 16 ranks until it meets a member; on
  an empty circuit it never ends (\<open>None\<close>).\<close>

partial_function (option) addrPrec_loop :: "int \<Rightarrow> addressSet \<Rightarrow> int option" where
  "addrPrec_loop i circuit =
     (let i' = (i + NP - 1) mod NP
      in if \<not> addrIsMember (rankToAddr i') circuit then addrPrec_loop i' circuit else Some i')"

definition addrPrec :: "address \<Rightarrow> addressSet \<Rightarrow> address result" where
  "addrPrec ad circuit =
     (let i = addrToRank ad
      in if i = - 1 then Inl (ExitFailure ''addr not found'')
         else (case addrPrec_loop i circuit of
                 None \<Rightarrow> Inl Diverges
               | Some j \<Rightarrow> Inr (rankToAddr j)))"

text \<open>\<^verbatim>\<open>sprintf(s, "#%02d", ...)\<close>: a minus sign counts as one of the two places.\<close>

definition digit_char :: "nat \<Rightarrow> char" where
  "digit_char d = char_of (48 + d mod 10)"

fun dec_digits :: "nat \<Rightarrow> string" where
  "dec_digits n = (if n < 10 then [digit_char n] else dec_digits (n div 10) @ [digit_char n])"

declare dec_digits.simps [simp del]

definition format_02d :: "int \<Rightarrow> string" where
  "format_02d i =
     (let ds = dec_digits (nat \<bar>i\<bar>)
      in if i < 0 then CHR ''-'' # ds
         else replicate (2 - length ds) (CHR ''0'') @ ds)"

definition addrToStr :: "address \<Rightarrow> string" where
  "addrToStr ad = CHR ''#'' # format_02d (addrToRank ad)"

section \<open>Ranks\<close>

lemma addrToRank_loop_odd: "bit ad 0 \<Longrightarrow> addrToRank_loop ad r = r"
  by (subst addrToRank_loop.simps) (simp add: and_one_eq bit_0 mod_2_eq_odd)

lemma addrToRank_loop_even:
  "\<not> bit ad 0 \<Longrightarrow> r < MAX_MEMB \<Longrightarrow> addrToRank_loop ad r = addrToRank_loop (drop_bit 1 ad) (Suc r)"
  by (subst addrToRank_loop.simps) (simp add: and_one_eq bit_0 drop_bit_eq_div mod_2_eq_odd)

text \<open>From rank \<open>r\<close> on, the loop stops at the lowest set bit, if it lies within the 16.\<close>

lemma addrToRank_loop_lowest:
  "bit ad k \<Longrightarrow> \<forall>j<k. \<not> bit ad j \<Longrightarrow> r + k < MAX_MEMB \<Longrightarrow> addrToRank_loop ad r = r + k"
proof (induction k arbitrary: ad r)
  case 0
  then show ?case by (simp add: addrToRank_loop_odd)
next
  case (Suc k)
  have "addrToRank_loop ad r = addrToRank_loop (drop_bit 1 ad) (Suc r)"
    using Suc.prems by (intro addrToRank_loop_even) auto
  also have "\<dots> = Suc r + k"
    using Suc.prems by (intro Suc.IH) (auto simp: bit_simps)
  finally show ?case by simp
qed

lemma addrToRank_loop_0: "r \<le> MAX_MEMB \<Longrightarrow> addrToRank_loop 0 r = MAX_MEMB"
proof (induction "MAX_MEMB - r" arbitrary: r)
  case 0
  then show ?case by (subst addrToRank_loop.simps) simp
next
  case (Suc d)
  then have "addrToRank_loop 0 (Suc r) = MAX_MEMB" by simp
  with Suc show ?case by (subst addrToRank_loop.simps) simp
qed

lemma addrToRank_0 [simp]: "addrToRank 0 = - 1"
  by (simp add: addrToRank_def addrToRank_loop_0)

lemma lowest_bit_exists:
  assumes "(ad :: address) \<noteq> 0"
  obtains k where "k < 16" "bit ad k" "\<forall>j<k. \<not> bit ad j"
proof -
  from assms obtain n where n: "bit ad n"
    by (metis bit_0_eq bot_apply bot_bool_def bit_word_eqI bit_imp_le_length)
  define k where "k = (LEAST n. bit ad n)"
  have "bit ad k" unfolding k_def using n by (rule LeastI)
  moreover have "\<forall>j<k. \<not> bit ad j" unfolding k_def using not_less_Least by blast
  moreover have "k < 16" using \<open>bit ad k\<close> bit_imp_le_length by fastforce
  ultimately show thesis using that by blast
qed

lemma addrToRank_lowest:
  "bit ad k \<Longrightarrow> \<forall>j<k. \<not> bit ad j \<Longrightarrow> addrToRank ad = int k"
  using addrToRank_loop_lowest [of ad k 0] bit_imp_le_length [of ad k]
  by (simp add: addrToRank_def MAX_MEMB_def)

lemma addrToRank_nonneg: "ad \<noteq> 0 \<Longrightarrow> 0 \<le> addrToRank ad \<and> addrToRank ad < 16"
  by (metis addrToRank_lowest lowest_bit_exists of_nat_0_le_iff of_nat_less_numeral_iff)

lemma addrToRank_eq_m1 [simp]: "addrToRank ad = - 1 \<longleftrightarrow> ad = 0"
  using addrToRank_nonneg [of ad] by force

lemma bits_of_rankToAddr: "0 \<le> r \<Longrightarrow> r < 16 \<Longrightarrow> bits_of (rankToAddr r) = {nat r}"
  unfolding rankToAddr_def by (subst bits_of_push_bit_1) auto

lemma bit_rankToAddr: "0 \<le> r \<Longrightarrow> r < 16 \<Longrightarrow> bit (rankToAddr r) n \<longleftrightarrow> n = nat r"
  by (metis bits_of_rankToAddr in_bits_of singleton_iff)

lemma rankToAddr_nonzero: "0 \<le> r \<Longrightarrow> r < 16 \<Longrightarrow> rankToAddr r \<noteq> 0"
  using bits_of_rankToAddr [of r] by auto

lemma addrToRank_rankToAddr: "0 \<le> r \<Longrightarrow> r < 16 \<Longrightarrow> addrToRank (rankToAddr r) = r"
  using addrToRank_lowest [of "rankToAddr r" "nat r"] by (simp add: bit_rankToAddr)

text \<open>The addresses proper: one bit set.\<close>

definition is_address :: "address \<Rightarrow> bool" where
  "is_address ad \<longleftrightarrow> ad = rankToAddr (addrToRank ad) \<and> ad \<noteq> 0"

lemma is_address_rankToAddr: "0 \<le> r \<Longrightarrow> r < 16 \<Longrightarrow> is_address (rankToAddr r)"
  by (simp add: is_address_def addrToRank_rankToAddr rankToAddr_nonzero)

lemma is_addressE:
  assumes "is_address ad"
  obtains r where "0 \<le> r" "r < 16" "ad = rankToAddr r" "addrToRank ad = r"
  using assms addrToRank_nonneg unfolding is_address_def by metis

section \<open>Sets of addresses\<close>

lemma addrIsMember_iff: "addrIsMember ad s \<longleftrightarrow> bits_of ad \<inter> bits_of s \<noteq> {}"
  by (metis addrIsMember_def bits_of_and bits_of_empty_iff)

lemma addrIsMember_rank: "0 \<le> r \<Longrightarrow> r < 16 \<Longrightarrow> addrIsMember (rankToAddr r) s \<longleftrightarrow> bit s (nat r)"
  by (auto simp: addrIsMember_iff bits_of_rankToAddr)

lemma addrIsMember_address:
  "is_address ad \<Longrightarrow> addrIsMember ad s \<longleftrightarrow> bits_of ad \<subseteq> bits_of s"
  by (auto simp: addrIsMember_iff bits_of_rankToAddr elim!: is_addressE)

lemma bits_of_addrAppendArrived: "bits_of (addrAppendArrived s ad) = bits_of s \<union> bits_of ad"
  by (simp add: addrAppendArrived_def bits_of_or)

lemma bits_of_addrAppendGone:
  assumes "is_address ad" and "addrAppendGone arrived gone ad = (arrived', gone')"
  shows "bits_of arrived' = bits_of arrived - bits_of ad"
    and "bits_of gone' = (if addrIsMember ad arrived then bits_of gone else bits_of gone \<union> bits_of ad)"
  using assms
  by (auto simp: addrAppendGone_def bits_of_xor bits_of_or addrIsMember_iff bits_of_rankToAddr
      split: if_splits elim!: is_addressE)

lemma bits_of_addrUpdateCircuit:
  "bits_of gone \<subseteq> bits_of circuit \<Longrightarrow>
   bits_of (addrUpdateCircuit circuit ad arrived gone) = (bits_of circuit - bits_of gone) \<union> bits_of arrived"
  by (auto simp: addrUpdateCircuit_def bits_of_xor bits_of_or)

section \<open>The predecessor on the circuit\<close>

text \<open>The rank \<open>d\<close> places before \<open>i\<close> on the ring of 16.\<close>

definition ringBack :: "int \<Rightarrow> nat \<Rightarrow> int" where
  "ringBack i d = (i - int d) mod 16"

lemma ringBack_range: "0 \<le> ringBack i d" "ringBack i d < 16"
  by (simp_all add: ringBack_def)

lemma ringBack_step: "(ringBack i d + NP - 1) mod NP = ringBack i (Suc d)"
proof -
  have "i - int d + 15 = (i - int (Suc d)) + 16" by simp
  then have "(i - int d + 15) mod 16 = (i - int (Suc d)) mod 16"
    by (metis mod_add_self2)
  then show ?thesis by (simp add: ringBack_def NP_def mod_simps algebra_simps)
qed

lemma ringBack_0: "0 \<le> i \<Longrightarrow> i < 16 \<Longrightarrow> ringBack i 0 = i"
  by (simp add: ringBack_def)

lemma addrPrec_loop_found:
  assumes "0 < d" "bit c (nat (ringBack i (e + d)))" "\<forall>k. 0 < k \<and> k < d \<longrightarrow> \<not> bit c (nat (ringBack i (e + k)))"
  shows "addrPrec_loop (ringBack i e) c = Some (ringBack i (e + d))"
  using assms
proof (induction d arbitrary: e)
  case 0
  then show ?case by simp
next
  case (Suc d)
  show ?case
  proof (cases "d = 0")
    case True
    with Suc.prems show ?thesis
      by (subst addrPrec_loop.simps)
        (simp add: ringBack_step addrIsMember_rank ringBack_range Let_def)
  next
    case False
    have nxt: "\<not> bit c (nat (ringBack i (Suc e)))"
      using Suc.prems(3) False by (metis One_nat_def add.commute less_Suc0 not_gr_zero not_less_eq plus_1_eq_Suc)
    have "addrPrec_loop (ringBack i (Suc e)) c = Some (ringBack i (Suc e + d))"
    proof (rule Suc.IH)
      show "0 < d" using False by simp
      show "bit c (nat (ringBack i (Suc e + d)))" using Suc.prems(2) by simp
      show "\<forall>k. 0 < k \<and> k < d \<longrightarrow> \<not> bit c (nat (ringBack i (Suc e + k)))"
        using Suc.prems(3) by (metis add_Suc_shift not_less_eq zero_less_Suc)
    qed
    with nxt show ?thesis
      by (subst addrPrec_loop.simps)
        (simp add: ringBack_step addrIsMember_rank ringBack_range Let_def)
  qed
qed

lemma addrPrec_loop_empty: "addrPrec_loop i 0 \<noteq> Some j"
proof
  assume "addrPrec_loop i 0 = Some j"
  then have "(0 :: addressSet) \<noteq> 0"
    by (rule addrPrec_loop.raw_induct [where P = "\<lambda>i c j. c \<noteq> (0 :: addressSet)", rotated])
      (auto simp: Let_def addrIsMember_def split: if_splits)
  then show False by simp
qed

text \<open>Sixteen steps back come round to the start, so every member is met on the way.\<close>

lemma ringBack_covers:
  assumes "r < 16"
  obtains d where "0 < d" "d \<le> 16" "ringBack i d = int r"
proof -
  define e where "e = (i - int r - 1) mod 16"
  have e: "0 \<le> e" "e < 16" by (simp_all add: e_def)
  have "(i - (e + 1)) mod 16 = (i - (i - int r - 1 + 1)) mod 16"
    unfolding e_def by (metis mod_diff_right_eq mod_add_left_eq)
  with assms e have "ringBack i (nat (e + 1)) = int r" by (simp add: ringBack_def)
  with e show thesis by (intro that [of "nat (e + 1)"]) auto
qed

lemma addrPrec_nearest:
  assumes "is_address ad" and "c \<noteq> 0"
  obtains d where "0 < d" "d \<le> 16" "bit c (nat (ringBack (addrToRank ad) d))"
    "\<forall>k. 0 < k \<and> k < d \<longrightarrow> \<not> bit c (nat (ringBack (addrToRank ad) k))"
    "addrPrec ad c = Inr (rankToAddr (ringBack (addrToRank ad) d))"
proof -
  let ?i = "addrToRank ad"
  from \<open>c \<noteq> 0\<close> obtain r where r: "r < 16" "bit c r" by (rule lowest_bit_exists)
  obtain d0 where d0: "0 < d0" "d0 \<le> 16" "ringBack ?i d0 = int r"
    using ringBack_covers [OF r(1)] by metis
  define P where "P d \<longleftrightarrow> 0 < d \<and> bit c (nat (ringBack ?i d))" for d
  have Pd0: "P d0" using d0 r by (simp add: P_def)
  define d where "d = (LEAST d. P d)"
  have d: "P d" and least: "\<forall>k<d. \<not> P k" and "d \<le> d0"
    unfolding d_def using Pd0 by (auto intro: LeastI Least_le dest: not_less_Least)
  have i: "0 \<le> ?i" "?i < 16" using assms(1) addrToRank_nonneg by (auto simp: is_address_def)
  have "addrPrec_loop (ringBack ?i 0) c = Some (ringBack ?i (0 + d))"
    using d least by (intro addrPrec_loop_found) (auto simp: P_def)
  with i have "addrPrec ad c = Inr (rankToAddr (ringBack ?i d))"
    using assms(1) by (simp add: addrPrec_def ringBack_0 is_address_def)
  with d least d0 \<open>d \<le> d0\<close> show thesis
    by (intro that [of d]) (auto simp: P_def)
qed

lemma addrPrec_empty: "ad \<noteq> 0 \<Longrightarrow> addrPrec ad 0 = Inl Diverges"
  using addrPrec_loop_empty [of "addrToRank ad"]
  by (cases "addrPrec_loop (addrToRank ad) 0") (auto simp: addrPrec_def)

end
