(* ===== verification/AddrTable.thy ===== *)
theory AddrTable
  imports Address "HOL-Library.Multiset"
begin

text \<open>
  The table of the participants (\<^verbatim>\<open>src/management_addr.c\<close>, \<^verbatim>\<open>include/management_addr.h\<close>)
  and the look-ups of \<^verbatim>\<open>src/address.c\<close> in it: for each rank a hostname, a port and up to
  two connections, each marked as one with a predecessor or not. A \<^verbatim>\<open>trComm\<close> pointer is a
  number here, NULL is \<open>None\<close>; the functions that update the table in place return it.
\<close>

type_synonym tcomm_ptr = "nat option"

record ADDR =
  ip :: string
  chan :: string
  tcomm0 :: tcomm_ptr
  tcomm1 :: tcomm_ptr
  isPred0 :: bool
  isPred1 :: bool

definition initAddrList :: "int \<Rightarrow> ADDR list" where
  "initAddrList len =
     replicate (nat (len + 1))
       \<lparr>ip = '''', chan = '''', tcomm0 = None, tcomm1 = None, isPred0 = False, isPred1 = False\<rparr>"

text \<open>\<^verbatim>\<open>stringLength\<close> accepts NULL, which \<^verbatim>\<open>strlen\<close> does not.\<close>

definition stringLength :: "string option \<Rightarrow> nat" where
  "stringLength s = (case s of None \<Rightarrow> 0 | Some cs \<Rightarrow> length cs)"

definition addTComm :: "tcomm_ptr \<Rightarrow> int \<Rightarrow> ADDR list \<Rightarrow> bool \<Rightarrow> ADDR list result" where
  "addTComm tcomm i array isPred =
     bindE (nthE array i) (\<lambda>a.
       if tcomm0 a = None then updE array i (a\<lparr>tcomm0 := tcomm, isPred0 := isPred\<rparr>)
       else if tcomm1 a = None then updE array i (a\<lparr>tcomm1 := tcomm, isPred1 := isPred\<rparr>)
       else Inl (ExitFailure ''Not enough room for another tcomm''))"

definition getTComm :: "int \<Rightarrow> bool \<Rightarrow> ADDR list \<Rightarrow> tcomm_ptr result" where
  "getTComm i isPred array =
     bindE (nthE array i) (\<lambda>a.
       if tcomm0 a \<noteq> None \<and> isPred0 a = isPred then Inr (tcomm0 a)
       else if tcomm1 a \<noteq> None \<and> isPred1 a = isPred then Inr (tcomm1 a)
       else Inr None)"

definition removeTComm :: "tcomm_ptr \<Rightarrow> int \<Rightarrow> ADDR list \<Rightarrow> ADDR list result" where
  "removeTComm tcomm i array =
     bindE (nthE array i) (\<lambda>a.
       if tcomm0 a = tcomm then updE array i (a\<lparr>tcomm0 := None\<rparr>)
       else if tcomm1 a = tcomm then updE array i (a\<lparr>tcomm1 := None\<rparr>)
       else Inr array)"

text \<open>\<^verbatim>\<open>searchTComm\<close> goes up the 16 ranks; the result is the rank (\<open>-1\<close> if there is none) and
  the value it writes to \<^verbatim>\<open>*pisPred\<close>, if it writes one.\<close>

fun searchTComm_loop :: "nat \<Rightarrow> tcomm_ptr \<Rightarrow> ADDR list \<Rightarrow> int \<Rightarrow> (int \<times> bool option) result" where
  "searchTComm_loop 0 tcomm array i = Inr (- 1, None)"
| "searchTComm_loop (Suc n) tcomm array i =
     bindE (nthE array i) (\<lambda>a.
       if tcomm0 a = tcomm then Inr (i, Some (isPred0 a))
       else if tcomm1 a = tcomm then Inr (i, Some (isPred1 a))
       else searchTComm_loop n tcomm array (i + 1))"

definition searchTComm :: "tcomm_ptr \<Rightarrow> ADDR list \<Rightarrow> (int \<times> bool option) result" where
  "searchTComm tcomm array = searchTComm_loop (nat NP) tcomm array 0"

fun addrID_loop :: "nat \<Rightarrow> string \<Rightarrow> string \<Rightarrow> ADDR list \<Rightarrow> int \<Rightarrow> int result" where
  "addrID_loop 0 ip' chan' array i = Inr (- 1)"
| "addrID_loop (Suc n) ip' chan' array i =
     bindE (nthE array i) (\<lambda>a.
       if ip a \<noteq> ip' \<or> chan a \<noteq> chan' then addrID_loop n ip' chan' array (i + 1) else Inr i)"

definition addrID :: "string \<Rightarrow> string \<Rightarrow> ADDR list \<Rightarrow> int result" where
  "addrID ip' chan' array = addrID_loop (nat NP) ip' chan' array 0"

definition addrToHostname :: "ADDR list \<Rightarrow> address \<Rightarrow> string result" where
  "addrToHostname array ad = bindE (nthE array (addrToRank ad)) (\<lambda>a. Inr (ip a))"

definition addrToPort :: "ADDR list \<Rightarrow> address \<Rightarrow> string result" where
  "addrToPort array ad = bindE (nthE array (addrToRank ad)) (\<lambda>a. Inr (chan a))"

section \<open>The connections of a rank\<close>

text \<open>The table is an array of at least 16 elements.\<close>

definition table_ok :: "ADDR list \<Rightarrow> bool" where
  "table_ok array \<longleftrightarrow> 16 \<le> length array"

lemma table_ok_init: "table_ok (initAddrList NP)"
  by (simp add: table_ok_def initAddrList_def NP_def)

text \<open>The connections of a rank, with the mark of each, in the order of the two slots.\<close>

definition conns :: "ADDR \<Rightarrow> (nat \<times> bool) list" where
  "conns a = (case tcomm0 a of None \<Rightarrow> [] | Some c \<Rightarrow> [(c, isPred0 a)]) @
             (case tcomm1 a of None \<Rightarrow> [] | Some c \<Rightarrow> [(c, isPred1 a)])"

lemma length_conns: "length (conns a) \<le> 2"
  by (simp add: conns_def split: option.splits)

lemma addTComm_conns:
  assumes "0 \<le> i" "nat i < length array" "length (conns (array ! nat i)) < 2"
  obtains array' where "addTComm (Some c) i array p = Inr array'" "length array' = length array"
    "mset (conns (array' ! nat i)) = add_mset (c, p) (mset (conns (array ! nat i)))"
    "\<And>j. j \<noteq> nat i \<Longrightarrow> array' ! j = array ! j"
proof (cases "tcomm0 (array ! nat i)")
  case None
  with assms show thesis
    by (intro that [of "array[nat i := (array ! nat i)\<lparr>tcomm0 := Some c, isPred0 := p\<rparr>]"])
      (auto simp: addTComm_def nthE_def updE_def conns_def split: option.splits)
next
  case (Some c0)
  with assms(3) have "tcomm1 (array ! nat i) = None"
    by (auto simp: conns_def split: option.splits)
  with Some assms show thesis
    by (intro that [of "array[nat i := (array ! nat i)\<lparr>tcomm1 := Some c, isPred1 := p\<rparr>]"])
      (auto simp: addTComm_def nthE_def updE_def conns_def)
qed

lemma addTComm_full:
  "0 \<le> i \<Longrightarrow> nat i < length array \<Longrightarrow> length (conns (array ! nat i)) = 2 \<Longrightarrow>
   addTComm c i array p = Inl (ExitFailure ''Not enough room for another tcomm'')"
  by (auto simp: addTComm_def nthE_def conns_def split: option.splits)

lemma getTComm_conns:
  "0 \<le> i \<Longrightarrow> nat i < length array \<Longrightarrow>
   getTComm i p array = Inr (map_of (map (\<lambda>(c, q). (q, c)) (conns (array ! nat i))) p)"
  by (auto simp: getTComm_def nthE_def conns_def split: option.splits)

lemma removeTComm_conns:
  assumes "0 \<le> i" "nat i < length array" "distinct (map fst (conns (array ! nat i)))"
  obtains array' where "removeTComm (Some c) i array = Inr array'" "length array' = length array"
    "conns (array' ! nat i) = filter (\<lambda>(d, _). d \<noteq> c) (conns (array ! nat i))"
    "\<And>j. j \<noteq> nat i \<Longrightarrow> array' ! j = array ! j"
proof -
  let ?a = "array ! nat i"
  consider "tcomm0 ?a = Some c" | "tcomm0 ?a \<noteq> Some c" "tcomm1 ?a = Some c"
    | "tcomm0 ?a \<noteq> Some c" "tcomm1 ?a \<noteq> Some c" by blast
  then show thesis
  proof cases
    case 1
    with assms show thesis
      by (intro that [of "array[nat i := ?a\<lparr>tcomm0 := None\<rparr>]"])
        (auto simp: removeTComm_def nthE_def updE_def conns_def split: option.splits)
  next
    case 2
    with assms show thesis
      by (intro that [of "array[nat i := ?a\<lparr>tcomm1 := None\<rparr>]"])
        (auto simp: removeTComm_def nthE_def updE_def conns_def split: option.splits)
  next
    case 3
    with assms show thesis
      by (intro that [of array])
        (auto simp: removeTComm_def nthE_def conns_def split: option.splits)
  qed
qed

lemma searchTComm_loop_sound:
  "searchTComm_loop n c array i = Inr (j, m) \<Longrightarrow> 0 \<le> i \<Longrightarrow>
   (j = - 1 \<and> m = None) \<or>
   (i \<le> j \<and> j < i + int n \<and> nat j < length array \<and>
     (tcomm0 (array ! nat j) = c \<and> m = Some (isPred0 (array ! nat j)) \<or>
      tcomm1 (array ! nat j) = c \<and> m = Some (isPred1 (array ! nat j))))"
proof (induction n arbitrary: i)
  case 0
  then show ?case by simp
next
  case (Suc n)
  let ?a = "array ! nat i"
  from Suc.prems have len: "nat i < length array" by (auto simp: nthE_def split: if_splits)
  show ?case
  proof (cases "tcomm0 ?a = c \<or> tcomm1 ?a = c")
    case True
    with Suc.prems len show ?thesis by (auto simp: nthE_def split: if_splits)
  next
    case False
    with Suc.prems len have "searchTComm_loop n c array (i + 1) = Inr (j, m)"
      by (simp add: nthE_in)
    from Suc.IH [OF this] Suc.prems(2) show ?thesis by auto
  qed
qed

lemma searchTComm_loop_complete:
  "0 \<le> i \<Longrightarrow> nat i + n \<le> length array \<Longrightarrow> nat i \<le> j \<Longrightarrow> j < nat i + n \<Longrightarrow>
   tcomm0 (array ! j) = c \<or> tcomm1 (array ! j) = c \<Longrightarrow>
   \<exists>k m. searchTComm_loop n c array i = Inr (k, Some m) \<and> 0 \<le> k"
proof (induction n arbitrary: i)
  case 0
  then show ?case by simp
next
  case (Suc n)
  show ?case
  proof (cases "tcomm0 (array ! nat i) = c \<or> tcomm1 (array ! nat i) = c")
    case True
    with Suc.prems show ?thesis by (auto simp: nthE_def)
  next
    case False
    with Suc.prems have "nat i \<noteq> j" by auto
    with Suc.prems have "\<exists>k m. searchTComm_loop n c array (i + 1) = Inr (k, Some m) \<and> 0 \<le> k"
      by (intro Suc.IH) auto
    with False Suc.prems show ?thesis by (auto simp: nthE_def)
  qed
qed

text \<open>Looking a hostname and a port up finds the lowest rank that has them.\<close>

lemma addrID_loop_spec:
  "0 \<le> i \<Longrightarrow> nat i + n \<le> length array \<Longrightarrow>
   addrID_loop n h p array i = Inr (
     if \<exists>j. nat i \<le> j \<and> j < nat i + n \<and> ip (array ! j) = h \<and> chan (array ! j) = p
     then int (LEAST j. nat i \<le> j \<and> j < nat i + n \<and> ip (array ! j) = h \<and> chan (array ! j) = p)
     else - 1)"
proof (induction n arbitrary: i)
  case 0
  then show ?case by auto
next
  case (Suc n)
  let ?P = "\<lambda>i n j. nat i \<le> j \<and> j < nat i + n \<and> ip (array ! j) = h \<and> chan (array ! j) = p"
  show ?case
  proof (cases "ip (array ! nat i) = h \<and> chan (array ! nat i) = p")
    case True
    then have P: "?P i (Suc n) (nat i)" by simp
    then have "(LEAST j. ?P i (Suc n) j) = nat i"
      by (intro Least_equality) auto
    moreover have "\<exists>j. ?P i (Suc n) j" using P by blast
    ultimately show ?thesis
      using True Suc.prems by (simp add: nthE_def)
  next
    case False
    have eq: "?P i (Suc n) = ?P (i + 1) n"
    proof (rule ext)
      fix j show "?P i (Suc n) j = ?P (i + 1) n j"
        using False Suc.prems(1) by (cases "j = nat i") auto
    qed
    have "addrID_loop (Suc n) h p array i = addrID_loop n h p array (i + 1)"
      using False Suc.prems by (auto simp: nthE_def)
    also have "\<dots> = Inr (if \<exists>j. ?P (i + 1) n j then int (LEAST j. ?P (i + 1) n j) else - 1)"
      using Suc.prems by (intro Suc.IH) auto
    finally show ?thesis unfolding eq .
  qed
qed

end
