(* ===== verification/Wire.thy ===== *)
theory Wire
  imports Address
begin

text \<open>
  Messages, wagons and trains as they lie in memory and on the wire
  (\<^verbatim>\<open>include/msg.h\<close>, \<^verbatim>\<open>include/wagon.h\<close>, \<^verbatim>\<open>include/applicationMessage.h\<close>, \<^verbatim>\<open>src/msg.c\<close>,
  \<^verbatim>\<open>src/wagon.c\<close>, \<^verbatim>\<open>nextWagon\<close> of \<^verbatim>\<open>src/advanced_struct.c\<close>): packed structures in a buffer
  of bytes, integers little-endian (x86-64: \<^verbatim>\<open>int\<close> 4 bytes, \<^verbatim>\<open>unsigned short\<close> 2,
  \<^verbatim>\<open>char\<close> signed). A pointer into a buffer is its offset from the start of the \<^verbatim>\<open>Msg\<close> or
  \<^verbatim>\<open>wagon\<close> the buffer holds; an access outside the buffer is a fault. The second half
  relates the pointer walks to the structured view: the bytes of a list of messages, of a
  list of wagons.
\<close>

type_synonym byte = "8 word"

section \<open>Bytes and integers\<close>

fun to_bytes :: "nat \<Rightarrow> 'a::len word \<Rightarrow> byte list" where
  "to_bytes 0 w = []"
| "to_bytes (Suc n) w = ucast w # to_bytes n (drop_bit 8 w)"

fun of_bytes :: "byte list \<Rightarrow> 'a::len word" where
  "of_bytes [] = 0"
| "of_bytes (b # bs) = ucast b OR push_bit 8 (of_bytes bs)"

lemma length_to_bytes [simp]: "length (to_bytes n w) = n"
  by (induction n arbitrary: w) auto

lemma bit_of_to_bytes: "bit (of_bytes (to_bytes n w) :: 'a::len word) k \<longleftrightarrow> k < 8 * n \<and> bit (w :: 'a word) k"
proof (induction n arbitrary: w k)
  case 0
  then show ?case by simp
next
  case (Suc n)
  then show ?case
    by (auto simp: bit_simps dest: bit_imp_le_length)
qed

lemma of_to_bytes: "LENGTH('a) \<le> 8 * n \<Longrightarrow> of_bytes (to_bytes n w) = (w :: 'a::len word)"
  by (rule bit_word_eqI) (auto simp: bit_of_to_bytes)

section \<open>Buffers\<close>

definition rd :: "byte list \<Rightarrow> int \<Rightarrow> nat \<Rightarrow> byte list result" where
  "rd buf off n =
     (if 0 \<le> off \<and> off + int n \<le> int (length buf) then Inr (take n (drop (nat off) buf)) else Inl MemFault)"

definition wr :: "byte list \<Rightarrow> int \<Rightarrow> byte list \<Rightarrow> byte list result" where
  "wr buf off bs =
     (if 0 \<le> off \<and> off + int (length bs) \<le> int (length buf)
      then Inr (take (nat off) buf @ bs @ drop (nat off + length bs) buf) else Inl MemFault)"

definition rd_int :: "byte list \<Rightarrow> int \<Rightarrow> 32 word result" where
  "rd_int buf off = bindE (rd buf off 4) (\<lambda>bs. Inr (of_bytes bs))"

definition rd_short :: "byte list \<Rightarrow> int \<Rightarrow> 16 word result" where
  "rd_short buf off = bindE (rd buf off 2) (\<lambda>bs. Inr (of_bytes bs))"

definition rd_char :: "byte list \<Rightarrow> int \<Rightarrow> 8 word result" where
  "rd_char buf off = bindE (rd buf off 1) (\<lambda>bs. Inr (of_bytes bs))"

definition wr_int :: "byte list \<Rightarrow> int \<Rightarrow> 32 word \<Rightarrow> byte list result" where
  "wr_int buf off x = wr buf off (to_bytes 4 x)"

definition wr_short :: "byte list \<Rightarrow> int \<Rightarrow> 16 word \<Rightarrow> byte list result" where
  "wr_short buf off x = wr buf off (to_bytes 2 x)"

definition wr_char :: "byte list \<Rightarrow> int \<Rightarrow> 8 word \<Rightarrow> byte list result" where
  "wr_char buf off x = wr buf off (to_bytes 1 x)"

section \<open>The structures\<close>

definition sizeof_int :: int where "sizeof_int = 4"
definition sizeof_MType :: int where "sizeof_MType = 1"
definition sizeof_stamp :: int where "sizeof_stamp = 3"
definition sizeof_addressSet :: int where "sizeof_addressSet = 2"

text \<open>\<^verbatim>\<open>messageHeader\<close>: len at 0, typ at 4.  \<^verbatim>\<open>wagonHeader\<close>: len at 0, sender at 4, round at
  6.  \<^verbatim>\<open>payloadArrivalDeparture\<close>: ad at 0, circuit at 2.\<close>

definition sizeof_messageHeader :: int where "sizeof_messageHeader = 5"
definition sizeof_wagonHeader :: int where "sizeof_wagonHeader = 7"
definition sizeof_payloadArrivalDeparture :: int where "sizeof_payloadArrivalDeparture = 4"

lemmas sizes = sizeof_int_def sizeof_MType_def sizeof_stamp_def sizeof_addressSet_def
  sizeof_messageHeader_def sizeof_wagonHeader_def sizeof_payloadArrivalDeparture_def

definition wagon_len :: "byte list \<Rightarrow> int \<Rightarrow> 32 word result" where
  "wagon_len buf w = rd_int buf w"

definition wagon_sender :: "byte list \<Rightarrow> int \<Rightarrow> address result" where
  "wagon_sender buf w = rd_short buf (w + 4)"

definition wagon_round :: "byte list \<Rightarrow> int \<Rightarrow> 8 word result" where
  "wagon_round buf w = rd_char buf (w + 6)"

definition message_len :: "byte list \<Rightarrow> int \<Rightarrow> 32 word result" where
  "message_len buf mp = rd_int buf mp"

definition message_typ :: "byte list \<Rightarrow> int \<Rightarrow> 8 word result" where
  "message_typ buf mp = rd_char buf (mp + 4)"

text \<open>\<^verbatim>\<open>stamp\<close>: id (a signed char), lc (an unsigned char), round (a signed char).\<close>

record stamp =
  stamp_id :: "8 word"
  stamp_lc :: "8 word"
  stamp_round :: "8 word"

text \<open>\<^verbatim>\<open>Msg\<close>: len at 0, type at 4, body at 5; a train has its stamp at 5, its circuit at 8
  and its wagons from 10 on; the other bodies have the sender at 5.\<close>

type_synonym MType = "8 word"

definition DEFAULT :: MType where "DEFAULT = 0"
definition TRAIN :: MType where "TRAIN = 1"
definition INSERT :: MType where "INSERT = 2"
definition ACK_INSERT :: MType where "ACK_INSERT = 3"
definition NAK_INSERT :: MType where "NAK_INSERT = 4"
definition DISCONNECT_PRED :: MType where "DISCONNECT_PRED = 5"
definition DISCONNECT_SUCC :: MType where "DISCONNECT_SUCC = 6"
definition NEWSUCC :: MType where "NEWSUCC = 7"

lemmas MType_defs = DEFAULT_def TRAIN_def INSERT_def ACK_INSERT_def NAK_INSERT_def
  DISCONNECT_PRED_def DISCONNECT_SUCC_def NEWSUCC_def

definition msg_len :: "byte list \<Rightarrow> 32 word result" where
  "msg_len buf = rd_int buf 0"

definition msg_type :: "byte list \<Rightarrow> MType result" where
  "msg_type buf = rd_char buf 4"

definition msg_sender :: "byte list \<Rightarrow> address result" where
  "msg_sender buf = rd_short buf 5"

definition train_stamp :: "byte list \<Rightarrow> stamp result" where
  "train_stamp buf =
     bindE (rd_char buf 5) (\<lambda>i. bindE (rd_char buf 6) (\<lambda>l. bindE (rd_char buf 7) (\<lambda>r.
       Inr \<lparr>stamp_id = i, stamp_lc = l, stamp_round = r\<rparr>)))"

definition train_circuit :: "byte list \<Rightarrow> addressSet result" where
  "train_circuit buf = rd_short buf 8"

section \<open>Walking messages and wagons (wagon.c, msg.c, advanced\_struct.c)\<close>

definition firstMsg :: "byte list \<Rightarrow> int \<Rightarrow> int option result" where
  "firstMsg buf w =
     bindE (wagon_len buf w) (\<lambda>len.
       if sint len = sizeof_wagonHeader then Inr None else Inr (Some (w + sizeof_wagonHeader)))"

definition nextMsg :: "byte list \<Rightarrow> int \<Rightarrow> int \<Rightarrow> int option result" where
  "nextMsg buf w mp =
     bindE (message_len buf mp) (\<lambda>mlen. bindE (wagon_len buf w) (\<lambda>wlen.
       let mp2 = mp + sint mlen
       in if mp2 - w \<ge> sint wlen then Inr None else Inr (Some mp2)))"

text \<open>The comparison with a sum of \<^verbatim>\<open>sizeof\<close> is made on unsigned longs, so a negative
  length counts as a large one.\<close>

definition firstWagon :: "byte list \<Rightarrow> int option result" where
  "firstWagon buf =
     bindE (msg_type buf) (\<lambda>typ.
       if typ = TRAIN
       then bindE (msg_len buf) (\<lambda>len.
              if uint (scast len :: 64 word) > sizeof_int + sizeof_MType + sizeof_stamp + sizeof_addressSet
              then Inr (Some (sizeof_int + sizeof_MType + sizeof_stamp + sizeof_addressSet))
              else Inr None)
       else Inl (ExitFailure ''Bad type of message given to firstWagon''))"

definition nextWagon :: "byte list \<Rightarrow> int \<Rightarrow> int option result" where
  "nextWagon buf w =
     bindE (wagon_len buf w) (\<lambda>wlen. bindE (msg_len buf) (\<lambda>mlen.
       let w2 = w + sint wlen
       in if w2 - 0 \<ge> sint mlen then Inr None else Inr (Some w2)))"

text \<open>Control messages (\<^verbatim>\<open>initMsg\<close>, \<^verbatim>\<open>newMsg\<close>): the arms of the union but the train.\<close>

datatype body =
    Default "32 word"
  | Insert address
  | AckInsert address
  | NakInsert address
  | NewSucc address
  | Disconnect address

record Msg =
  m_len :: "32 word"
  m_type :: MType
  m_body :: body

definition sizeof_Msg :: int where "sizeof_Msg = 13"

definition initMsg :: Msg where
  "initMsg = \<lparr>m_len = word_of_int sizeof_Msg, m_type = DEFAULT, m_body = Default 0\<rparr>"

definition newMsg :: "MType \<Rightarrow> address \<Rightarrow> Msg" where
  "newMsg mtype addrID =
     (let msg = initMsg;
          len = word_of_int (sizeof_int + sizeof_MType + sizeof_addressSet)
      in if mtype = DEFAULT then msg
         else if mtype = TRAIN then msg\<lparr>m_body := Default 1\<rparr>
         else if mtype = INSERT then msg\<lparr>m_type := mtype, m_body := Insert addrID, m_len := len\<rparr>
         else if mtype = ACK_INSERT then msg\<lparr>m_type := mtype, m_body := AckInsert addrID, m_len := len\<rparr>
         else if mtype = NAK_INSERT then msg\<lparr>m_type := mtype, m_body := NakInsert addrID, m_len := len\<rparr>
         else if mtype = NEWSUCC then msg\<lparr>m_type := mtype, m_body := NewSucc addrID, m_len := len\<rparr>
         else if mtype = DISCONNECT_PRED \<or> mtype = DISCONNECT_SUCC
           then msg\<lparr>m_type := mtype, m_body := Disconnect addrID, m_len := len\<rparr>
         else msg\<lparr>m_body := Default (- 1)\<rparr>)"

text \<open>The 13 bytes of the structure; the part of the union that an arm leaves unset is
  filled with 0.\<close>

fun body_bytes :: "body \<Rightarrow> byte list" where
  "body_bytes (Default p) = to_bytes 4 p @ [0, 0, 0, 0]"
| "body_bytes (Insert ad) = to_bytes 2 ad @ [0, 0, 0, 0, 0, 0]"
| "body_bytes (AckInsert ad) = to_bytes 2 ad @ [0, 0, 0, 0, 0, 0]"
| "body_bytes (NakInsert ad) = to_bytes 2 ad @ [0, 0, 0, 0, 0, 0]"
| "body_bytes (NewSucc ad) = to_bytes 2 ad @ [0, 0, 0, 0, 0, 0]"
| "body_bytes (Disconnect ad) = to_bytes 2 ad @ [0, 0, 0, 0, 0, 0]"

definition Msg_bytes :: "Msg \<Rightarrow> byte list" where
  "Msg_bytes msg = to_bytes 4 (m_len msg) @ [m_type msg] @ body_bytes (m_body msg)"

section \<open>Bytes at an offset\<close>

text \<open>\<open>holds buf off bs\<close>: the bytes \<open>bs\<close> lie in the buffer from \<open>off\<close> on.\<close>

definition holds :: "byte list \<Rightarrow> int \<Rightarrow> byte list \<Rightarrow> bool" where
  "holds buf off bs \<longleftrightarrow> 0 \<le> off \<and> rd buf off (length bs) = Inr bs"

named_theorems wire \<open>reading what lies in a buffer\<close>

lemma holds_iff:
  "holds buf off bs \<longleftrightarrow> 0 \<le> off \<and> nat off + length bs \<le> length buf \<and> take (length bs) (drop (nat off) buf) = bs"
  by (auto simp: holds_def rd_def)

lemma holds_append:
  "holds buf off (bs @ cs) \<longleftrightarrow> holds buf off bs \<and> holds buf (off + int (length bs)) cs"
proof (cases "0 \<le> off")
  case True
  then have n: "nat (off + int (length bs)) = nat off + length bs" by simp
  have "take (length bs + length cs) (drop (nat off) buf) =
      take (length bs) (drop (nat off) buf) @ take (length cs) (drop (nat off + length bs) buf)"
    by (simp add: take_add add.commute)
  with True show ?thesis by (auto simp: holds_iff n append_eq_append_conv)
qed (auto simp: holds_iff)

lemma holds_whole: "holds bs 0 bs"
  by (simp add: holds_iff)

lemma holds_middle: "off = int (length pre) \<Longrightarrow> holds (pre @ bs @ post) off bs"
  by (simp add: holds_iff)

lemma holds_rd [wire]: "holds buf off bs \<Longrightarrow> n = length bs \<Longrightarrow> rd buf off n = Inr bs"
  by (simp add: holds_def)

lemma holds_rd_int [wire]: "holds buf off (to_bytes 4 x) \<Longrightarrow> rd_int buf off = Inr x"
  by (simp add: rd_int_def holds_def of_to_bytes)

lemma holds_rd_short [wire]: "holds buf off (to_bytes 2 x) \<Longrightarrow> rd_short buf off = Inr x"
  by (simp add: rd_short_def holds_def of_to_bytes)

lemma holds_rd_char [wire]: "holds buf off [x] \<Longrightarrow> rd_char buf off = Inr x"
  by (simp add: rd_char_def holds_def)

lemma holds_Cons: "holds buf off (b # bs) \<longleftrightarrow> holds buf off [b] \<and> holds buf (off + 1) bs"
  using holds_append [of buf off "[b]" bs] by simp

lemma holds_bound: "holds buf off bs \<Longrightarrow> 0 \<le> off \<and> off + int (length bs) \<le> int (length buf)"
  by (auto simp: holds_iff)

lemma holds_Nil: "holds buf off [] \<longleftrightarrow> 0 \<le> off \<and> off \<le> int (length buf)"
  by (auto simp: holds_iff)

lemma holds_append_buf: "holds buf off bs \<Longrightarrow> holds (buf @ rest) off bs"
  by (auto simp: holds_iff)

lemma holds_take: "holds buf off bs \<Longrightarrow> off + int (length bs) \<le> int m \<Longrightarrow> holds (take m buf) off bs"
proof -
  assume h: "holds buf off bs" and le: "off + int (length bs) \<le> int m"
  then have "nat off + length bs \<le> m" by (auto simp: holds_iff)
  then show ?thesis using h by (auto simp: holds_iff drop_take min_def)
qed

text \<open>Writing: the bytes written are there, the bytes elsewhere are as before.\<close>

lemma wr_ok:
  assumes "0 \<le> off" "off + int (length bs) \<le> int (length buf)"
  obtains buf' where "wr buf off bs = Inr buf'" "length buf' = length buf" "holds buf' off bs"
    "\<And>o' cs. holds buf o' cs \<Longrightarrow> o' + int (length cs) \<le> off \<or> off + int (length bs) \<le> o' \<Longrightarrow> holds buf' o' cs"
proof -
  let ?b = "take (nat off) buf @ bs @ drop (nat off + length bs) buf"
  have len: "length ?b = length buf" using assms by simp
  have "holds ?b off bs" using assms by (intro holds_middle) simp
  moreover have "holds ?b o' cs"
    if h: "holds buf o' cs" and d: "o' + int (length cs) \<le> off \<or> off + int (length bs) \<le> o'" for o' cs
  proof -
    have "take (length cs) (drop (nat o') ?b) = take (length cs) (drop (nat o') buf)"
    proof (cases "off + int (length bs) \<le> o'")
      case True
      then have "nat off + length bs \<le> nat o'" using assms by linarith
      then show ?thesis using assms by (simp add: drop_append)
    next
      case False
      with d have "o' + int (length cs) \<le> off" by simp
      then have "nat o' + length cs \<le> nat off" using h by (auto simp: holds_iff)
      then show ?thesis
        using assms by (simp add: take_drop [symmetric] drop_take) 
    qed
    with h len show ?thesis by (simp add: holds_iff)
  qed
  ultimately show thesis
    using assms len by (intro that [of ?b]) (auto simp: wr_def)
qed

section \<open>Structured messages, wagons and trains\<close>

record amsg =
  am_typ :: "8 word"
  am_payload :: "byte list"

record awagon =
  aw_sender :: address
  aw_round :: "8 word"
  aw_msgs :: "amsg list"

definition enc_msg :: "amsg \<Rightarrow> byte list" where
  "enc_msg m = to_bytes 4 (c_int (5 + length (am_payload m))) @ [am_typ m] @ am_payload m"

definition enc_msgs :: "amsg list \<Rightarrow> byte list" where
  "enc_msgs ms = concat (map enc_msg ms)"

definition enc_wagon :: "awagon \<Rightarrow> byte list" where
  "enc_wagon w = to_bytes 4 (c_int (7 + length (enc_msgs (aw_msgs w)))) @
     to_bytes 2 (aw_sender w) @ [aw_round w] @ enc_msgs (aw_msgs w)"

definition enc_wagons :: "awagon list \<Rightarrow> byte list" where
  "enc_wagons ws = concat (map enc_wagon ws)"

definition enc_train :: "stamp \<Rightarrow> addressSet \<Rightarrow> awagon list \<Rightarrow> byte list" where
  "enc_train st c ws = to_bytes 4 (c_int (10 + length (enc_wagons ws))) @ [TRAIN] @
     [stamp_id st, stamp_lc st, stamp_round st] @ to_bytes 2 c @ enc_wagons ws"

lemma length_enc_msg: "length (enc_msg m) = 5 + length (am_payload m)"
  by (simp add: enc_msg_def)

lemma length_enc_wagon: "length (enc_wagon w) = 7 + length (enc_msgs (aw_msgs w))"
  by (simp add: enc_wagon_def)

lemma length_enc_train: "length (enc_train st c ws) = 10 + length (enc_wagons ws)"
  by (simp add: enc_train_def)

lemma enc_msgs_simps [simp]: "enc_msgs [] = []" "enc_msgs (m # ms) = enc_msg m @ enc_msgs ms"
  by (simp_all add: enc_msgs_def)

lemma enc_wagons_simps [simp]: "enc_wagons [] = []" "enc_wagons (w # ws) = enc_wagon w @ enc_wagons ws"
  by (simp_all add: enc_wagons_def)

lemma enc_msgs_append: "enc_msgs (ms @ ns) = enc_msgs ms @ enc_msgs ns"
  by (simp add: enc_msgs_def)

text \<open>What a well-formed structure gives the accessors.\<close>

lemma holds_enc_msg:
  assumes "holds buf mp (enc_msg m)"
  shows "message_len buf mp = Inr (c_int (5 + length (am_payload m)))"
    and "message_typ buf mp = Inr (am_typ m)"
    and "rd buf (mp + 5) (length (am_payload m)) = Inr (am_payload m)"
  using assms unfolding enc_msg_def holds_append
  by (simp_all add: message_len_def message_typ_def wire add.assoc)

lemma holds_enc_wagon:
  assumes "holds buf w (enc_wagon wg)"
  shows "wagon_len buf w = Inr (c_int (7 + length (enc_msgs (aw_msgs wg))))"
    and "wagon_sender buf w = Inr (aw_sender wg)"
    and "wagon_round buf w = Inr (aw_round wg)"
    and "holds buf (w + 7) (enc_msgs (aw_msgs wg))"
  using assms unfolding enc_wagon_def holds_append
  by (simp_all add: wagon_len_def wagon_sender_def wagon_round_def wire add.assoc)

lemma holds_enc_train:
  assumes "holds buf 0 (enc_train st c ws)"
  shows "msg_len buf = Inr (c_int (10 + length (enc_wagons ws)))"
    and "msg_type buf = Inr TRAIN"
    and "train_stamp buf = Inr st"
    and "train_circuit buf = Inr c"
    and "holds buf 10 (enc_wagons ws)"
proof -
  from assms have "holds buf 0 (to_bytes 4 (c_int (10 + length (enc_wagons ws))) @ [TRAIN] @
     [stamp_id st] @ [stamp_lc st] @ [stamp_round st] @ to_bytes 2 c @ enc_wagons ws)"
    by (simp add: enc_train_def)
  then have h: "holds buf 0 (to_bytes 4 (c_int (10 + length (enc_wagons ws))))" "holds buf 4 [TRAIN]"
    "holds buf 5 [stamp_id st]" "holds buf 6 [stamp_lc st]" "holds buf 7 [stamp_round st]"
    "holds buf 8 (to_bytes 2 c)" "holds buf 10 (enc_wagons ws)"
    unfolding holds_append by simp_all
  show "msg_len buf = Inr (c_int (10 + length (enc_wagons ws)))"
    using h(1) by (simp add: msg_len_def wire)
  show "msg_type buf = Inr TRAIN"
    using h(2) by (simp add: msg_type_def wire)
  show "train_stamp buf = Inr st"
    using holds_rd_char [OF h(3)] holds_rd_char [OF h(4)] holds_rd_char [OF h(5)]
    by (simp add: train_stamp_def)
  show "train_circuit buf = Inr c"
    using h(6) by (simp add: train_circuit_def wire)
  show "holds buf 10 (enc_wagons ws)" by (rule h(7))
qed

section \<open>The loops over messages and over wagons\<close>

text \<open>The two \<^verbatim>\<open>for\<close> loops of the middleware, over the messages of a wagon and over the
  wagons of a train. The bodies never write the buffer they walk, so the loop visits
  offsets that depend on the buffer alone: one more step than there are bytes means an
  offset was met twice, and the loop never ends.\<close>

fun for_msgs ::
  "nat \<Rightarrow> byte list \<Rightarrow> int \<Rightarrow> (int \<Rightarrow> 's \<Rightarrow> 's result) \<Rightarrow> int option \<Rightarrow> 's \<Rightarrow> 's result" where
  "for_msgs n buf w f None s = Inr s"
| "for_msgs 0 buf w f (Some mp) s = Inl Diverges"
| "for_msgs (Suc n) buf w f (Some mp) s =
     bindE (f mp s) (\<lambda>s'. bindE (nextMsg buf w mp) (\<lambda>nxt. for_msgs n buf w f nxt s'))"

fun for_wagons ::
  "nat \<Rightarrow> byte list \<Rightarrow> (int \<Rightarrow> 's \<Rightarrow> 's result) \<Rightarrow> int option \<Rightarrow> 's \<Rightarrow> 's result" where
  "for_wagons n buf f None s = Inr s"
| "for_wagons 0 buf f (Some w) s = Inl Diverges"
| "for_wagons (Suc n) buf f (Some w) s =
     bindE (f w s) (\<lambda>s'. bindE (nextWagon buf w) (\<lambda>nxt. for_wagons n buf f nxt s'))"

definition each_msg :: "byte list \<Rightarrow> int \<Rightarrow> (int \<Rightarrow> 's \<Rightarrow> 's result) \<Rightarrow> 's \<Rightarrow> 's result" where
  "each_msg buf w f s =
     bindE (firstMsg buf w) (\<lambda>mp. for_msgs (Suc (length buf)) buf w f mp s)"

definition each_wagon :: "byte list \<Rightarrow> (int \<Rightarrow> 's \<Rightarrow> 's result) \<Rightarrow> 's \<Rightarrow> 's result" where
  "each_wagon buf f s =
     bindE (firstWagon buf) (\<lambda>w. for_wagons (Suc (length buf)) buf f w s)"

text \<open>Where consecutive pieces of given sizes start.\<close>

fun starts :: "int \<Rightarrow> nat list \<Rightarrow> int list" where
  "starts b [] = []"
| "starts b (n # ns) = b # starts (b + int n) ns"

lemma for_msgs_enc:
  assumes "wagon_len buf w = Inr (c_int (7 + tot))" "7 + tot < 2 ^ 31"
    "holds buf mp (enc_msgs (m # ms))" "mp - w + int (length (enc_msgs (m # ms))) = 7 + int tot"
    "length ms < n" "w \<le> mp"
  shows "for_msgs n buf w f (Some mp) s =
    foldE f (starts mp (map (\<lambda>x. length (enc_msg x)) (m # ms))) s"
  using assms(3-)
proof (induction ms arbitrary: m mp n s)
  case Nil
  then obtain n' where n: "n = Suc n'" by (cases n) auto
  have "5 + length (am_payload m) < 2 ^ 31"
    using Nil.prems(2,4) assms(2) by (simp add: length_enc_msg)
  then have "nextMsg buf w mp = Inr None"
    using Nil.prems assms(1,2) holds_enc_msg(1) [of buf mp m]
    by (simp add: nextMsg_def sint_c_int length_enc_msg Let_def)
  then show ?case by (simp add: n)
next
  case (Cons m' ms)
  then obtain n' where n: "n = Suc n'" "length ms < n'" by (cases n) auto
  let ?mp' = "mp + int (length (enc_msg m))"
  from Cons.prems(1) have h: "holds buf mp (enc_msg m)" "holds buf ?mp' (enc_msgs (m' # ms))"
    by (auto simp: holds_append)
  have pos: "0 < length (enc_msgs (m' # ms))" by (simp add: length_enc_msg)
  have "5 + length (am_payload m) < 2 ^ 31" "?mp' - w < 7 + int tot"
    using Cons.prems(2,4) assms(2) pos by (auto simp: length_enc_msg)
  then have "nextMsg buf w mp = Inr (Some ?mp')"
    using assms(1,2) holds_enc_msg(1) [OF h(1)]
    by (simp add: nextMsg_def sint_c_int length_enc_msg Let_def)
  moreover have "for_msgs n' buf w f (Some ?mp') s' = foldE f (starts ?mp' (map (\<lambda>x. length (enc_msg x)) (m' # ms))) s'"
    for s'
    using h(2) n(2) Cons.prems(2,4) by (intro Cons.IH) auto
  ultimately show ?case by (simp add: n(1))
qed

lemma enc_msgs_length_ge: "length ms \<le> length (enc_msgs ms)"
  by (induction ms) (auto simp: length_enc_msg)

text \<open>The messages of a well-formed wagon are visited one by one, in order.\<close>

lemma each_msg_enc_wagon:
  assumes "holds buf w (enc_wagon wg)" "length (enc_wagon wg) < 2 ^ 31"
  shows "each_msg buf w f s = foldE f (starts (w + 7) (map (\<lambda>x. length (enc_msg x)) (aw_msgs wg))) s"
proof -
  note h = holds_enc_wagon [OF assms(1)]
  have len: "7 + length (enc_msgs (aw_msgs wg)) < 2 ^ 31"
    using assms(2) by (simp add: length_enc_wagon)
  show ?thesis
  proof (cases "aw_msgs wg")
    case Nil
    then show ?thesis
      using h(1) by (simp add: each_msg_def firstMsg_def sizeof_wagonHeader_def sint_c_int)
  next
    case (Cons m ms)
    have "length ms < Suc (length buf)"
      using holds_bound [OF h(4)] enc_msgs_length_ge [of ms] Cons by simp
    then have "for_msgs (Suc (length buf)) buf w f (Some (w + 7)) s =
        foldE f (starts (w + 7) (map (\<lambda>x. length (enc_msg x)) (m # ms))) s"
      using h(1,4) len Cons
      by (intro for_msgs_enc [where tot = "length (enc_msgs (m # ms))"]) simp_all
    moreover have "firstMsg buf w = Inr (Some (w + 7))"
      using h(1) len Cons
      by (simp add: firstMsg_def sizeof_wagonHeader_def sint_c_int length_enc_msg)
    ultimately show ?thesis
      using Cons by (simp add: each_msg_def)
  qed
qed

lemma for_wagons_enc:
  assumes "msg_len buf = Inr (c_int tot)" "tot < 2 ^ 31"
    "holds buf w (enc_wagons (g # gs))" "w + int (length (enc_wagons (g # gs))) = int tot"
    "length gs < n"
  shows "for_wagons n buf f (Some w) s =
    foldE f (starts w (map (\<lambda>x. length (enc_wagon x)) (g # gs))) s"
  using assms(3-)
proof (induction gs arbitrary: g w n s)
  case Nil
  then obtain n' where n: "n = Suc n'" by (cases n) auto
  have "0 \<le> w" using holds_bound [OF Nil.prems(1)] by simp
  then have "7 + length (enc_msgs (aw_msgs g)) < 2 ^ 31"
    using Nil.prems(2) assms(2) by (simp add: length_enc_wagon)
  then have "nextWagon buf w = Inr None"
    using Nil.prems assms(1,2) holds_enc_wagon(1) [of buf w g]
    by (simp add: nextWagon_def sint_c_int length_enc_wagon Let_def)
  then show ?case by (simp add: n)
next
  case (Cons g' gs)
  then obtain n' where n: "n = Suc n'" "length gs < n'" by (cases n) auto
  let ?w' = "w + int (length (enc_wagon g))"
  from Cons.prems(1) have h: "holds buf w (enc_wagon g)" "holds buf ?w' (enc_wagons (g' # gs))"
    by (auto simp: holds_append)
  have "0 \<le> w" using holds_bound [OF h(1)] by simp
  have pos: "0 < length (enc_wagons (g' # gs))" by (simp add: length_enc_wagon)
  have "7 + length (enc_msgs (aw_msgs g)) < 2 ^ 31" "?w' < int tot"
    using Cons.prems(2) assms(2) pos \<open>0 \<le> w\<close> by (auto simp: length_enc_wagon)
  then have "nextWagon buf w = Inr (Some ?w')"
    using assms(1,2) holds_enc_wagon(1) [OF h(1)]
    by (simp add: nextWagon_def sint_c_int length_enc_wagon Let_def)
  moreover have "for_wagons n' buf f (Some ?w') s' = foldE f (starts ?w' (map (\<lambda>x. length (enc_wagon x)) (g' # gs))) s'"
    for s'
    using h(2) n(2) Cons.prems(2) by (intro Cons.IH) auto
  ultimately show ?case by (simp add: n(1))
qed

lemma enc_wagons_length_ge: "length ws \<le> length (enc_wagons ws)"
  by (induction ws) (auto simp: length_enc_wagon)

lemma firstWagon_enc_train:
  assumes "holds buf 0 (enc_train st c ws)" "length (enc_train st c ws) < 2 ^ 31"
  shows "firstWagon buf = Inr (if ws = [] then None else Some 10)"
proof -
  have "10 + length (enc_wagons ws) < 2 ^ 31" using assms(2) by (simp add: length_enc_train)
  then have "uint (scast (c_int (10 + length (enc_wagons ws))) :: 64 word) =
      int (10 + length (enc_wagons ws))"
    by (rule uint_scast_c_int)
  moreover have "ws \<noteq> [] \<Longrightarrow> 0 < length (enc_wagons ws)"
    using enc_wagons_length_ge [of ws] by (cases ws) auto
  ultimately show ?thesis
    using holds_enc_train(1,2) [OF assms(1)] by (auto simp: firstWagon_def sizes)
qed

text \<open>The wagons of a well-formed train are visited one by one, in order.\<close>

lemma each_wagon_enc_train:
  assumes "holds buf 0 (enc_train st c ws)" "length (enc_train st c ws) < 2 ^ 31"
  shows "each_wagon buf f s = foldE f (starts 10 (map (\<lambda>x. length (enc_wagon x)) ws)) s"
proof (cases ws)
  case Nil
  with firstWagon_enc_train [OF assms] show ?thesis by (simp add: each_wagon_def)
next
  case (Cons g gs)
  note h = holds_enc_train [OF assms(1)]
  have "length gs < Suc (length buf)"
    using holds_bound [OF h(5)] enc_wagons_length_ge [of gs] Cons by simp
  then have "for_wagons (Suc (length buf)) buf f (Some 10) s =
      foldE f (starts 10 (map (\<lambda>x. length (enc_wagon x)) (g # gs))) s"
    using h(1,5) assms(2) Cons
    by (intro for_wagons_enc [where tot = "10 + length (enc_wagons ws)"]) (simp_all add: length_enc_train)
  with firstWagon_enc_train [OF assms] Cons show ?thesis by (simp add: each_wagon_def)
qed

lemma starts_enc_holds:
  "holds buf off (enc_wagons ws) \<Longrightarrow>
   list_all2 (\<lambda>o' g. holds buf o' (enc_wagon g)) (starts off (map (\<lambda>x. length (enc_wagon x)) ws)) ws"
  by (induction ws arbitrary: off) (auto simp: holds_append)

lemma starts_enc_holds_msgs:
  "holds buf off (enc_msgs ms) \<Longrightarrow>
   list_all2 (\<lambda>o' m. holds buf o' (enc_msg m)) (starts off (map (\<lambda>x. length (enc_msg x)) ms)) ms"
  by (induction ms arbitrary: off) (auto simp: holds_append)

end
