(* ===== verification/Comm.thy ===== *)
theory Comm
  imports Wire
begin

text \<open>
  The communication module (\<^verbatim>\<open>src/comm.c\<close>): reads, writes and connects that retry when a
  signal interrupts them, and that another thread can abort. The operating system is not
  part of the program: the answers of its slow system calls are a script, one element per
  call, each with what the call returns and whether \<^verbatim>\<open>commAbort\<close> (or the timer) has set
  \<^verbatim>\<open>aborted\<close> by then; a script that runs out means the call has not returned.
\<close>

datatype errno = EINTR | EOTHER nat

datatype 'a sysret = Done 'a | Fail errno

type_synonym 'a script = "('a sysret \<times> bool) list"

record trComm =
  fd :: int
  ownerMutexForSynch :: "nat option"
  aborted :: bool

record t_counters =
  messages_delivered :: "64 word"
  messages_bytes_delivered :: "64 word"
  trains_bytes_received :: "64 word"
  trains_received :: "64 word"
  recent_trains_bytes_received :: "64 word"
  recent_trains_received :: "64 word"
  wagons_delivered :: "64 word"
  wait_states :: "64 word"
  comm_read :: "64 word"
  comm_read_bytes :: "64 word"
  comm_readFully :: "64 word"
  comm_readFully_bytes :: "64 word"
  comm_write :: "64 word"
  comm_write_bytes :: "64 word"
  comm_writev :: "64 word"
  comm_writev_bytes :: "64 word"
  newmsg_calls :: "64 word"
  flowControl :: "64 word"

definition counters0 :: t_counters where
  "counters0 = \<lparr>messages_delivered = 0, messages_bytes_delivered = 0, trains_bytes_received = 0,
     trains_received = 0, recent_trains_bytes_received = 0, recent_trains_received = 0,
     wagons_delivered = 0, wait_states = 0, comm_read = 0, comm_read_bytes = 0, comm_readFully = 0,
     comm_readFully_bytes = 0, comm_write = 0, comm_write_bytes = 0, comm_writev = 0,
     comm_writev_bytes = 0, newmsg_calls = 0, flowControl = 0\<rparr>"

definition commAlloc :: "int \<Rightarrow> trComm" where
  "commAlloc d = \<lparr>fd = d, ownerMutexForSynch = None, aborted = False\<rparr>"

definition commLongIOBegin :: "nat \<Rightarrow> trComm \<Rightarrow> trComm" where
  "commLongIOBegin self c = c\<lparr>ownerMutexForSynch := Some self\<rparr>"

definition commLongIOEnd :: "trComm \<Rightarrow> trComm" where
  "commLongIOEnd c = c\<lparr>ownerMutexForSynch := None\<rparr>"

text \<open>\<^verbatim>\<open>do { nb = call(...); } while ((nb < 0) && (errno == EINTR) && !aComm->aborted)\<close>:
  the last answer, the flag and what is left of the script.\<close>

fun retry :: "'a script \<Rightarrow> bool \<Rightarrow> ('a sysret \<times> bool \<times> 'a script) result" where
  "retry [] ab = Inl Blocks"
| "retry ((r, b) # sc) ab =
     (if r = Fail EINTR \<and> \<not> (ab \<or> b) then retry sc (ab \<or> b) else Inr (r, ab \<or> b, sc))"

section \<open>Reading\<close>

text \<open>What a socket delivers: the bytes the peer sends before it closes, and the script of
  the calls to \<^verbatim>\<open>read\<close>. A call that is granted \<open>k\<close> returns at least one byte (0 is end
  of file), and never more than \<open>k + 1\<close> or what was asked for.\<close>

record inbound =
  stream :: "byte list"
  reads :: "nat script"

definition sys_read :: "nat \<Rightarrow> nat \<Rightarrow> byte list \<Rightarrow> byte list" where
  "sys_read k count s = take (min count (Suc k)) s"

text \<open>\<^verbatim>\<open>commRead\<close>: the return value, the bytes put into the buffer, the handle, the socket
  and the counters. When the handle is aborted, \<^verbatim>\<open>nb\<close> is not used.\<close>

definition commRead ::
  "nat \<Rightarrow> trComm \<Rightarrow> nat \<Rightarrow> inbound \<Rightarrow> t_counters \<Rightarrow>
   (int \<times> byte list \<times> trComm \<times> inbound \<times> t_counters) result" where
  "commRead self c count inb cnt =
     (let c1 = commLongIOBegin self c in
      bindE (if \<not> aborted c1 then retry (reads inb) (aborted c1)
             else Inr (Fail EINTR, True, reads inb)) (\<lambda>(r, ab, sc).
        let bs = (case r of Done k \<Rightarrow> sys_read k count (stream inb) | Fail e \<Rightarrow> []);
            nb = (case r of Done k \<Rightarrow> int (length bs) | Fail e \<Rightarrow> - 1);
            inb' = \<lparr>stream = drop (length bs) (stream inb), reads = sc\<rparr>;
            c2 = commLongIOEnd (c1\<lparr>aborted := ab\<rparr>)
        in if ab then Inr (- 1, bs, c2, inb', cnt)
           else Inr (nb, bs, c2, inb',
             cnt\<lparr>comm_read := comm_read cnt + 1, comm_read_bytes := comm_read_bytes cnt + word_of_int nb\<rparr>)))"

lemma retry_shorter: "retry sc ab = Inr (r, ab', sc') \<Longrightarrow> length sc' < length sc"
  by (induction sc ab rule: retry.induct) (auto split: if_splits)

lemma commRead_shorter:
  "commRead self c count inb cnt = Inr (nb, bs, c', inb', cnt') \<Longrightarrow> 0 \<le> nb \<Longrightarrow>
   length (reads inb') < length (reads inb)"
  by (auto simp: commRead_def bindE_eq_Inr Let_def commLongIOBegin_def split: if_splits
      dest!: retry_shorter)

text \<open>The loop of \<^verbatim>\<open>commReadFully\<close>; every turn but the last uses up an answer.\<close>

function commReadFully_loop ::
  "nat \<Rightarrow> trComm \<Rightarrow> nat \<Rightarrow> byte list \<Rightarrow> inbound \<Rightarrow> t_counters \<Rightarrow>
   (byte list \<times> trComm \<times> inbound \<times> t_counters) result" where
  "commReadFully_loop self c count buf inb cnt =
     bindE (commRead self c (count - length buf) inb cnt) (\<lambda>(nb, bs, c', inb', cnt').
       if nb < 0 then Inr (buf, c', inb', cnt')
       else let buf' = buf @ bs in
         if nb > 0 \<and> length buf' < count \<and> \<not> aborted c'
         then commReadFully_loop self c' count buf' inb' cnt'
         else Inr (buf', c', inb', cnt'))"
  by pat_completeness auto
termination
  by (relation "measure (\<lambda>(self, c, count, buf, inb, cnt). length (reads inb))")
    (auto dest: commRead_shorter)

declare commReadFully_loop.simps [simp del]

definition commReadFully ::
  "nat \<Rightarrow> trComm \<Rightarrow> nat \<Rightarrow> inbound \<Rightarrow> t_counters \<Rightarrow>
   (int \<times> byte list \<times> trComm \<times> inbound \<times> t_counters) result" where
  "commReadFully self c count inb cnt =
     (if aborted c then Inr (- 1, [], c\<lparr>aborted := False\<rparr>, inb, cnt)
      else bindE (commReadFully_loop self c count [] inb cnt) (\<lambda>(buf, c', inb', cnt').
        Inr (int (length buf), buf, c', inb',
          cnt'\<lparr>comm_readFully := comm_readFully cnt' + 1,
               comm_readFully_bytes := comm_readFully_bytes cnt' + word_of_nat (length buf)\<rparr>)))"

section \<open>Writing\<close>

text \<open>A call to \<^verbatim>\<open>write\<close> or \<^verbatim>\<open>writev\<close> granted \<open>k\<close> takes the first \<open>k\<close> bytes, or all
  of them if they are fewer. The results: the return value and the bytes on the wire.\<close>

definition commWrite ::
  "nat \<Rightarrow> trComm \<Rightarrow> byte list \<Rightarrow> nat script \<Rightarrow> t_counters \<Rightarrow>
   (int \<times> byte list \<times> trComm \<times> t_counters) result" where
  "commWrite self c buf sc cnt =
     (let c1 = commLongIOBegin self c in
      bindE (if \<not> aborted c1 then retry sc (aborted c1) else Inr (Fail EINTR, True, sc)) (\<lambda>(r, ab, sc').
        let bs = (case r of Done k \<Rightarrow> take k buf | Fail e \<Rightarrow> []);
            nb = (case r of Done k \<Rightarrow> int (length bs) | Fail e \<Rightarrow> - 1);
            c2 = commLongIOEnd (c1\<lparr>aborted := ab\<rparr>)
        in if ab then Inr (- 1, bs, c2, cnt)
           else Inr (nb, bs, c2,
             cnt\<lparr>comm_write := comm_write cnt + 1, comm_write_bytes := comm_write_bytes cnt + word_of_int nb\<rparr>)))"

definition commWritev ::
  "trComm \<Rightarrow> byte list list \<Rightarrow> nat script \<Rightarrow> t_counters \<Rightarrow>
   (int \<times> byte list \<times> trComm \<times> t_counters) result" where
  "commWritev c iov sc cnt =
     (if aborted c then Inr (- 1, [], c\<lparr>aborted := False\<rparr>, cnt)
      else bindE (retry sc (aborted c)) (\<lambda>(r, ab, sc').
        let bs = (case r of Done k \<Rightarrow> take k (concat iov) | Fail e \<Rightarrow> []);
            nb = (case r of Done k \<Rightarrow> int (length bs) | Fail e \<Rightarrow> - 1)
        in Inr (nb, bs, c\<lparr>aborted := ab\<rparr>,
             cnt\<lparr>comm_writev := comm_writev cnt + 1, comm_writev_bytes := comm_writev_bytes cnt + word_of_int nb\<rparr>)))"

section \<open>Aborting, accepting, connecting\<close>

text \<open>\<^verbatim>\<open>commAbort\<close> of a handle no thread is using leaves \<^verbatim>\<open>aborted\<close> set; otherwise it signals
  the owner, waits for the end of its call on the mutex, and clears the flag.\<close>

definition commAbort :: "nat \<Rightarrow> trComm \<Rightarrow> trComm" where
  "commAbort self c =
     (let c1 = c\<lparr>aborted := True\<rparr>
      in if ownerMutexForSynch c1 \<noteq> None
         then (commLongIOEnd (commLongIOBegin self c1))\<lparr>aborted := False\<rparr>
         else c1)"

text \<open>\<^verbatim>\<open>commAbortWhenIT\<close>, called from the signal thread on the handle that is connecting.\<close>

definition commAbortWhenIT :: "trComm option \<Rightarrow> trComm option" where
  "commAbortWhenIT commDoingConnect = map_option (\<lambda>c. c\<lparr>aborted := True\<rparr>) commDoingConnect"

definition commAccept ::
  "nat \<Rightarrow> trComm \<Rightarrow> int script \<Rightarrow> bool \<Rightarrow> (trComm option \<times> trComm) result" where
  "commAccept self c sc nodelay_ok =
     (let c1 = commLongIOBegin self c in
      bindE (retry sc (aborted c1)) (\<lambda>(r, ab, sc').
        let c2 = commLongIOEnd (c1\<lparr>aborted := ab\<rparr>)
        in case r of
             Fail e \<Rightarrow> Inr (None, c2)
           | Done connection \<Rightarrow> if \<not> nodelay_ok then Inr (None, c2) else Inr (Some (commAlloc connection), c2)))"

text \<open>\<^verbatim>\<open>commNewAndConnect\<close>: what \<^verbatim>\<open>getaddrinfo\<close> finds is a list of addresses, each with the
  descriptor \<^verbatim>\<open>socket\<close> returns (\<open>None\<close> for -1) and the script of its calls to
  \<^verbatim>\<open>connect\<close>; the timer that fires is the flag of the script. \<open>busy\<close> says that
  \<^verbatim>\<open>commDoingConnect\<close> is set by another thread.\<close>

type_synonym candidate = "int option \<times> unit script"

fun connect_loop :: "nat \<Rightarrow> bool \<Rightarrow> int \<Rightarrow> candidate list \<Rightarrow> trComm \<Rightarrow> trComm option result" where
  "connect_loop self busy timeout [] c = Inr None"
| "connect_loop self busy timeout ((None, sc) # cands) c = connect_loop self busy timeout cands c"
| "connect_loop self busy timeout ((Some d, sc) # cands) c =
     (let c1 = commLongIOBegin self (c\<lparr>fd := d\<rparr>) in
      if timeout \<noteq> 0 \<and> busy
      then Inl (ExitFailure ''Comm module does not know to kandle simultaneous calls to comm_newAndConnect'')
      else bindE (retry sc (aborted c1)) (\<lambda>(r, ab, sc').
        let c2 = commLongIOEnd (c1\<lparr>aborted := ab\<rparr>)
        in case r of
             Done _ \<Rightarrow> Inr (Some c2)
           | Fail e \<Rightarrow> connect_loop self busy timeout cands c2))"

definition commNewAndConnect ::
  "nat \<Rightarrow> bool \<Rightarrow> candidate list option \<Rightarrow> int \<Rightarrow> bool \<Rightarrow> trComm option result" where
  "commNewAndConnect self busy found connectTimeout nodelay_ok =
     (case found of
        None \<Rightarrow> Inl (ExitFailure ''getaddrinfo'')
      | Some cands \<Rightarrow>
          bindE (connect_loop self busy connectTimeout cands (commAlloc (- 1))) (\<lambda>oc.
            case oc of
              None \<Rightarrow> Inr None
            | Some c \<Rightarrow> if \<not> nodelay_ok then Inl (ExitFailure ''setsockopt'') else Inr (Some c)))"

text \<open>\<^verbatim>\<open>commNewForAccept\<close>: for each address the descriptor, and whether
  \<^verbatim>\<open>setsockopt\<close> and \<^verbatim>\<open>bind\<close> succeed.\<close>

type_synonym bind_candidate = "int option \<times> bool \<times> bool"

fun bind_loop :: "bind_candidate list \<Rightarrow> int option" where
  "bind_loop [] = None"
| "bind_loop ((None, so, bd) # cands) = bind_loop cands"
| "bind_loop ((Some d, so, bd) # cands) = (if so \<and> bd then Some d else bind_loop cands)"

definition commNewForAccept :: "bind_candidate list option \<Rightarrow> bool \<Rightarrow> trComm option result" where
  "commNewForAccept found listen_ok =
     (case found of
        None \<Rightarrow> Inl (ExitFailure ''getaddrinfo'')
      | Some cands \<Rightarrow>
          (case bind_loop cands of
             None \<Rightarrow> Inl (ExitFailure ''Could not bind'')
           | Some d \<Rightarrow> Inr (if listen_ok then Some (commAlloc d) else None)))"

section \<open>What a read delivers\<close>

lemma retry_not_EINTR: "retry sc ab = Inr (r, ab', sc') \<Longrightarrow> \<not> ab' \<Longrightarrow> r \<noteq> Fail EINTR \<and> \<not> ab"
  by (induction sc ab rule: retry.induct) (auto split: if_splits)

lemma commRead_stream:
  assumes "commRead self c count inb cnt = Inr (nb, bs, c', inb', cnt')" and "0 \<le> nb"
  shows "stream inb = bs @ stream inb'" and "length bs \<le> count" and "nb = int (length bs)"
    and "\<not> aborted c'" and "bs = [] \<Longrightarrow> count = 0 \<or> stream inb = []"
  using assms
  by (auto simp: commRead_def bindE_eq_Inr Let_def commLongIOBegin_def commLongIOEnd_def sys_read_def
      split: if_splits sysret.splits)

lemma commRead_failed:
  assumes "commRead self c count inb cnt = Inr (nb, bs, c', inb', cnt')" and "nb < 0"
  shows "aborted c' \<or> stream inb' = stream inb"
proof (cases "aborted c")
  case True
  with assms show ?thesis
    by (auto simp: commRead_def Let_def commLongIOBegin_def commLongIOEnd_def)
next
  case False
  show ?thesis
  proof (cases "retry (reads inb) False")
    case (Inl e)
    with assms False show ?thesis by (simp add: commRead_def Let_def commLongIOBegin_def)
  next
    case (Inr x)
    obtain r ab sc where x: "x = (r, ab, sc)" by (cases x)
    show ?thesis
      using assms False Inr x
      by (cases r) (auto simp: commRead_def Let_def commLongIOBegin_def commLongIOEnd_def split: if_splits)
  qed
qed

lemma commReadFully_loop_stream:
  "commReadFully_loop self c count buf inb cnt = Inr (buf', c', inb', cnt') \<Longrightarrow>
   \<not> aborted c' \<Longrightarrow> length buf \<le> count \<Longrightarrow>
   buf @ stream inb = buf' @ stream inb' \<and> length buf' \<le> count"
proof (induction self c count buf inb cnt rule: commReadFully_loop.induct)
  case (1 self c count buf inb cnt)
  note unf = commReadFully_loop.simps [of self c count buf inb cnt]
  from "1.prems"(1) obtain nb bs c1 inb1 cnt1 where
    rd: "commRead self c (count - length buf) inb cnt = Inr (nb, bs, c1, inb1, cnt1)"
    unfolding unf by (auto simp: bindE_eq_Inr)
  define go where "go \<longleftrightarrow> nb > 0 \<and> length (buf @ bs) < count \<and> \<not> aborted c1"
  have res: "(if nb < 0 then Inr (buf, c1, inb1, cnt1)
       else if go then commReadFully_loop self c1 count (buf @ bs) inb1 cnt1
       else Inr (buf @ bs, c1, inb1, cnt1)) = Inr (buf', c', inb', cnt')"
    using "1.prems"(1) unfolding unf go_def rd bindE_Inr prod.case Let_def .
  show ?case
  proof (cases "nb < 0")
    case True
    with res have "buf' = buf" "c' = c1" "inb' = inb1" by simp_all
    with commRead_failed [OF rd True] "1.prems"(2,3) show ?thesis by simp
  next
    case False
    then have "0 \<le> nb" by simp
    note r = commRead_stream [OF rd this]
    show ?thesis
    proof (cases go)
      case True
      with False res have
        rec: "commReadFully_loop self c1 count (buf @ bs) inb1 cnt1 = Inr (buf', c', inb', cnt')"
        by simp
      have "length (buf @ bs) \<le> count" using True by (simp add: go_def)
      with True False have "(buf @ bs) @ stream inb1 = buf' @ stream inb' \<and> length buf' \<le> count"
        by (intro "1.IH" [OF rd refl refl refl refl _ refl _ rec "1.prems"(2)]) (auto simp: go_def)
      with r(1) show ?thesis by simp
    next
      case nxt: False
      with False res have "buf' = buf @ bs" "inb' = inb1" by simp_all
      with r(1,2) "1.prems"(3) show ?thesis by simp
    qed
  qed
qed

text \<open>Against a system that interrupts at will but reports no other error, and is never
  aborted, a full read of bytes that do arrive returns them all.\<close>

fun is_grant :: "'a sysret \<times> bool \<Rightarrow> bool" where
  "is_grant (Done k, b) = True"
| "is_grant (Fail e, b) = False"

definition calm :: "'a script \<Rightarrow> bool" where
  "calm sc \<longleftrightarrow> list_all (\<lambda>(r, b). \<not> b \<and> (is_grant (r, b) \<or> r = Fail EINTR)) sc"

definition grants :: "'a script \<Rightarrow> nat" where
  "grants sc = length (filter is_grant sc)"

lemma retry_calm:
  "calm sc \<Longrightarrow> 0 < grants sc \<Longrightarrow>
   \<exists>k sc'. retry sc False = Inr (Done k, False, sc') \<and> calm sc' \<and> grants sc = Suc (grants sc')"
proof (induction sc)
  case Nil
  then show ?case by (simp add: grants_def)
next
  case (Cons x sc)
  obtain r b where x: "x = (r, b)" by (cases x)
  with Cons show ?case
    by (cases r) (auto simp: calm_def grants_def)
qed

lemma commRead_calm:
  assumes "calm (reads inb)" "0 < grants (reads inb)" "\<not> aborted c" "0 < count" "stream inb \<noteq> []"
  obtains bs c' inb' cnt' where
    "commRead self c count inb cnt = Inr (int (length bs), bs, c', inb', cnt')"
    "\<not> aborted c'" "calm (reads inb')" "grants (reads inb) = Suc (grants (reads inb'))" "bs \<noteq> []"
    "length bs \<le> count" "stream inb = bs @ stream inb'"
proof -
  from retry_calm [OF assms(1,2)] obtain k sc' where
    rt: "retry (reads inb) False = Inr (Done k, False, sc')" "calm sc'" "grants (reads inb) = Suc (grants sc')"
    by blast
  show thesis
    by (rule that [of "sys_read k count (stream inb)" "commLongIOEnd ((commLongIOBegin self c)\<lparr>aborted := False\<rparr>)"
          "\<lparr>stream = drop (length (sys_read k count (stream inb))) (stream inb), reads = sc'\<rparr>"])
      (use rt assms(3-5) in \<open>simp_all add: commRead_def commLongIOBegin_def commLongIOEnd_def Let_def sys_read_def\<close>)
qed

lemma commReadFully_loop_complete:
  "calm (reads inb) \<Longrightarrow> \<not> aborted c \<Longrightarrow> length buf < count \<Longrightarrow> count - length buf \<le> length (stream inb) \<Longrightarrow>
   count - length buf \<le> grants (reads inb) \<Longrightarrow>
   \<exists>c' inb' cnt'. commReadFully_loop self c count buf inb cnt =
      Inr (buf @ take (count - length buf) (stream inb), c', inb', cnt') \<and> \<not> aborted c' \<and>
      stream inb' = drop (count - length buf) (stream inb) \<and> calm (reads inb') \<and>
      grants (reads inb) \<le> grants (reads inb') + (count - length buf)"
proof (induction "count - length buf" arbitrary: c buf inb cnt rule: less_induct)
  case less
  let ?n = "count - length buf"
  have "0 < grants (reads inb)" "0 < ?n" "stream inb \<noteq> []" using less.prems by auto
  from commRead_calm [OF less.prems(1) this(1) less.prems(2) this(2,3)]
  obtain bs c1 inb1 cnt1 where rd:
    "commRead self c ?n inb cnt = Inr (int (length bs), bs, c1, inb1, cnt1)"
    "\<not> aborted c1" "calm (reads inb1)" "grants (reads inb) = Suc (grants (reads inb1))" "bs \<noteq> []"
    "length bs \<le> ?n" "stream inb = bs @ stream inb1"
    by metis
  note unf = commReadFully_loop.simps [of self c count buf inb cnt]
  show ?case
  proof (cases "length (buf @ bs) < count")
    case True
    have "\<exists>c' inb' cnt'. commReadFully_loop self c1 count (buf @ bs) inb1 cnt1 =
      Inr ((buf @ bs) @ take (count - length (buf @ bs)) (stream inb1), c', inb', cnt') \<and> \<not> aborted c' \<and>
      stream inb' = drop (count - length (buf @ bs)) (stream inb1) \<and> calm (reads inb') \<and>
      grants (reads inb1) \<le> grants (reads inb') + (count - length (buf @ bs))"
      using rd less.prems True by (intro less.hyps) (auto simp: neq_Nil_conv)
    then obtain c' inb' cnt' where rec: "commReadFully_loop self c1 count (buf @ bs) inb1 cnt1 =
      Inr ((buf @ bs) @ take (count - length (buf @ bs)) (stream inb1), c', inb', cnt')" "\<not> aborted c'"
      "stream inb' = drop (count - length (buf @ bs)) (stream inb1)" "calm (reads inb')"
      "grants (reads inb1) \<le> grants (reads inb') + (count - length (buf @ bs))"
      by blast
    have "0 < length bs" using rd(5) by simp
    then have "grants (reads inb) \<le> grants (reads inb') + ?n"
      using rec(5) rd(4,6) by (simp del: length_greater_0_conv)
    then show ?thesis
      using True rd rec unfolding unf rd(7) by (simp add: Let_def)
  next
    case False
    with rd(6) have "length bs = ?n" by simp
    moreover have "0 < ?n" using less.prems(3) by simp
    ultimately show ?thesis
      using False rd unfolding unf rd(7) by (auto simp: Let_def)
  qed
qed

end
