(* ===== verification/LinkedList.thy ===== *)
theory LinkedList
  imports Prelude
begin

text \<open>
  The linked list of \<^verbatim>\<open>src/list.c\<close> at the level of its cells: a \<open>trList\<close> holds the
  LINK cells it has allocated, and the operations follow, write and free them through
  pointers. The list always ends in a cell with a NULL value. Every operation is shown to
  implement the operation of the same name on a HOL list, without touching freed memory
  and without leaking a cell. Mutual exclusion by \<^verbatim>\<open>listMutex\<close> makes each operation one
  step.
\<close>

record 'a LINK =
  value_of :: "'a option"
  next_of :: "nat option"
  previous_of :: "nat option"

text \<open>\<open>cells\<close> are the LINKs allocated and not freed; \<open>brk\<close> is where the next
  \<^verbatim>\<open>malloc\<close> goes.\<close>

record 'a trList =
  first_ptr :: "nat option"
  last_ptr :: "nat option"
  cells :: "nat \<Rightarrow> 'a LINK option"
  brk :: nat

definition load :: "(nat \<Rightarrow> 'a LINK option) \<Rightarrow> nat option \<Rightarrow> 'a LINK result" where
  "load m p =
     (case p of None \<Rightarrow> Inl MemFault
      | Some a \<Rightarrow> (case m a of None \<Rightarrow> Inl MemFault | Some l \<Rightarrow> Inr l))"

definition store ::
  "(nat \<Rightarrow> 'a LINK option) \<Rightarrow> nat option \<Rightarrow> ('a LINK \<Rightarrow> 'a LINK) \<Rightarrow> (nat \<Rightarrow> 'a LINK option) result" where
  "store m p f =
     (case p of None \<Rightarrow> Inl MemFault
      | Some a \<Rightarrow> (case m a of None \<Rightarrow> Inl MemFault | Some l \<Rightarrow> Inr (m(a \<mapsto> f l))))"

text \<open>\<^verbatim>\<open>free\<close>: freeing NULL does nothing, freeing a freed cell is a fault.\<close>

definition free_link :: "(nat \<Rightarrow> 'a LINK option) \<Rightarrow> nat option \<Rightarrow> (nat \<Rightarrow> 'a LINK option) result" where
  "free_link m p =
     (case p of None \<Rightarrow> Inr m
      | Some a \<Rightarrow> (case m a of None \<Rightarrow> Inl MemFault | Some l \<Rightarrow> Inr (m(a := None))))"

definition newList :: "'a trList" where
  "newList =
     \<lparr>first_ptr = Some 0, last_ptr = Some 0,
      cells = (\<lambda>_. None)(0 \<mapsto> \<lparr>value_of = None, next_of = None, previous_of = None\<rparr>), brk = 1\<rparr>"

definition listRemoveFirst :: "'a trList \<Rightarrow> ('a option \<times> 'a trList) result" where
  "listRemoveFirst l =
     (if first_ptr l = None then Inr (None, l)
      else bindE (load (cells l) (first_ptr l)) (\<lambda>link.
        if value_of link = None then Inr (None, l)
        else bindE (store (cells l) (next_of link) (\<lambda>c. c\<lparr>previous_of := None\<rparr>)) (\<lambda>m.
             bindE (free_link m (first_ptr l)) (\<lambda>m'.
               Inr (value_of link, l\<lparr>first_ptr := next_of link, cells := m'\<rparr>)))))"

definition listAppend :: "'a trList \<Rightarrow> 'a option \<Rightarrow> 'a trList result" where
  "listAppend l anElt =
     (if anElt = None then Inr l
      else let link = brk l; exLast = last_ptr l;
               m = (cells l)(link \<mapsto> \<lparr>value_of = None, next_of = None, previous_of = None\<rparr>)
           in bindE (store m exLast (\<lambda>c. c\<lparr>next_of := Some link\<rparr>)) (\<lambda>m.
              bindE (store m (Some link) (\<lambda>c. c\<lparr>previous_of := exLast\<rparr>)) (\<lambda>m.
              bindE (store m exLast (\<lambda>c. c\<lparr>value_of := anElt\<rparr>)) (\<lambda>m.
                Inr (l\<lparr>last_ptr := Some link, cells := m, brk := Suc (brk l)\<rparr>)))))"

text \<open>The walks along \<^verbatim>\<open>next\<close>. A walk that visits more cells than were ever allocated
  has met one of them twice, and then never ends: \<open>brk\<close> is the fuel.\<close>

fun listExtend_loop :: "nat \<Rightarrow> 'a trList \<Rightarrow> nat option \<Rightarrow> 'a trList \<Rightarrow> 'a trList result" where
  "listExtend_loop 0 aList link bList = Inl Diverges"
| "listExtend_loop (Suc n) aList link bList =
     bindE (load (cells bList) link) (\<lambda>c.
       if value_of c = None then Inr aList
       else bindE (listAppend aList (value_of c)) (\<lambda>aList'.
              listExtend_loop n aList' (next_of c) bList))"

definition listExtend :: "'a trList \<Rightarrow> 'a trList \<Rightarrow> 'a trList result" where
  "listExtend aList bList = listExtend_loop (Suc (brk bList)) aList (first_ptr bList) bList"

fun cleanList_loop ::
  "nat \<Rightarrow> (nat \<Rightarrow> 'a LINK option) \<Rightarrow> nat option \<Rightarrow> ((nat \<Rightarrow> 'a LINK option) \<times> nat option) result" where
  "cleanList_loop 0 m link = Inl Diverges"
| "cleanList_loop (Suc n) m link =
     bindE (load m link) (\<lambda>c.
       if value_of c = None then Inr (m, link)
       else bindE (free_link m link) (\<lambda>m'. cleanList_loop n m' (next_of c)))"

definition cleanList :: "'a trList \<Rightarrow> 'a trList result" where
  "cleanList l =
     bindE (cleanList_loop (Suc (brk l)) (cells l) (first_ptr l)) (\<lambda>(m, link).
       Inr (l\<lparr>first_ptr := link, last_ptr := link, cells := m\<rparr>))"

text \<open>\<^verbatim>\<open>freeList\<close> ends with no LINK left: the result is what remains allocated.\<close>

fun freeList_loop ::
  "nat \<Rightarrow> (nat \<Rightarrow> 'a LINK option) \<Rightarrow> nat option \<Rightarrow> (nat \<Rightarrow> 'a LINK option) result" where
  "freeList_loop 0 m link = Inl Diverges"
| "freeList_loop (Suc n) m link =
     bindE (load m link) (\<lambda>c.
     bindE (free_link m link) (\<lambda>m'.
       if next_of c = None then Inr m' else freeList_loop n m' (next_of c)))"

definition freeList :: "'a trList \<Rightarrow> (nat \<Rightarrow> 'a LINK option) result" where
  "freeList l = freeList_loop (Suc (brk l)) (cells l) (first_ptr l)"

section \<open>Abstraction\<close>

text \<open>\<open>chain m p as xs\<close>: from cell \<open>p\<close> the \<^verbatim>\<open>next\<close> pointers lead through the cells
  \<open>as\<close> holding the values \<open>xs\<close>, the last of \<open>as\<close> being the final cell without value.\<close>

fun chain :: "(nat \<Rightarrow> 'a LINK option) \<Rightarrow> nat \<Rightarrow> nat list \<Rightarrow> 'a list \<Rightarrow> bool" where
  "chain m p [a] [] \<longleftrightarrow> a = p \<and> (\<exists>c. m p = Some c \<and> value_of c = None \<and> next_of c = None)"
| "chain m p (a # as) (x # xs) \<longleftrightarrow>
     a = p \<and> (\<exists>c n. m p = Some c \<and> value_of c = Some x \<and> next_of c = Some n \<and> chain m n as xs)"
| "chain m p _ _ \<longleftrightarrow> False"

text \<open>\<open>lrep l xs\<close>: the list represents \<open>xs\<close>; its cells are the ones of the chain, each
  once, and no other cell is allocated.\<close>

definition lrep :: "'a trList \<Rightarrow> 'a list \<Rightarrow> bool" where
  "lrep l xs \<longleftrightarrow>
     (\<exists>as p. first_ptr l = Some p \<and> chain (cells l) p as xs \<and> last_ptr l = Some (last as) \<and>
        distinct as \<and> dom (cells l) = set as \<and> (\<forall>a\<in>set as. a < brk l))"

lemma chain_length: "chain m p as xs \<Longrightarrow> length as = Suc (length xs)"
  by (induction m p as xs rule: chain.induct) auto

lemma chain_Nil_iff:
  "chain m p as [] \<longleftrightarrow> as = [p] \<and> (\<exists>c. m p = Some c \<and> value_of c = None \<and> next_of c = None)"
  by (cases "(m, p, as, [] :: 'a list)" rule: chain.cases) auto

lemma chain_Cons_iff:
  "chain m p as (x # xs) \<longleftrightarrow>
     (\<exists>as' c n. as = p # as' \<and> m p = Some c \<and> value_of c = Some x \<and> next_of c = Some n \<and> chain m n as' xs)"
  by (cases as) auto

lemma chain_nonempty: "chain m p as xs \<Longrightarrow> as \<noteq> [] \<and> hd as = p"
  by (cases xs) (auto simp: chain_Nil_iff chain_Cons_iff)

lemma chain_cong:
  "chain m p as xs \<Longrightarrow>
   (\<And>a. a \<in> set as \<Longrightarrow> map_option (\<lambda>c. (value_of c, next_of c)) (m' a) = map_option (\<lambda>c. (value_of c, next_of c)) (m a)) \<Longrightarrow>
   chain m' p as xs"
proof (induction xs arbitrary: p as)
  case Nil
  then show ?case by (force simp: chain_Nil_iff map_option_eq_Some)
next
  case (Cons x xs)
  then obtain as' c n where *: "as = p # as'" "m p = Some c" "value_of c = Some x"
      "next_of c = Some n" "chain m n as' xs"
    by (auto simp: chain_Cons_iff)
  with Cons have "chain m' n as' xs" by auto
  moreover from Cons.prems(2) [of p] * obtain c' where
    "m' p = Some c'" "value_of c' = Some x" "next_of c' = Some n"
    by auto
  ultimately show ?case using * by (auto simp: chain_Cons_iff)
qed

lemma chain_last: "chain m p as xs \<Longrightarrow> \<exists>c. m (last as) = Some c \<and> value_of c = None \<and> next_of c = None"
proof (induction xs arbitrary: p as)
  case Nil
  then show ?case by (auto simp: chain_Nil_iff)
next
  case (Cons x xs)
  then obtain as' n where "as = p # as'" "chain m n as' xs"
    by (auto simp: chain_Cons_iff)
  with Cons.IH show ?case using chain_nonempty by fastforce
qed

lemma lrepE:
  assumes "lrep l xs"
  obtains as p where "first_ptr l = Some p" "chain (cells l) p as xs" "last_ptr l = Some (last as)"
    "distinct as" "dom (cells l) = set as" "\<forall>a\<in>set as. a < brk l"
  using assms unfolding lrep_def by blast

lemma distinct_below_length: "distinct as \<Longrightarrow> \<forall>a\<in>set as. a < (n::nat) \<Longrightarrow> length as \<le> n"
  using card_mono [of "{..<n}" "set as"] by (auto simp: distinct_card)

lemma lrep_newList: "lrep newList []"
  by (auto simp: lrep_def newList_def chain_Nil_iff split: if_splits)

lemma lrep_removeFirst_Nil: "lrep l [] \<Longrightarrow> listRemoveFirst l = Inr (None, l)"
  by (auto simp: lrep_def chain_Nil_iff listRemoveFirst_def load_def)

lemma lrep_removeFirst_Cons:
  assumes "lrep l (x # xs)"
  obtains l' where "listRemoveFirst l = Inr (Some x, l')" "lrep l' xs"
proof -
  from assms obtain as p where l: "first_ptr l = Some p" "chain (cells l) p as (x # xs)"
    "last_ptr l = Some (last as)" "distinct as" "dom (cells l) = set as" "\<forall>a\<in>set as. a < brk l"
    by (rule lrepE)
  then obtain as' c n where as: "as = p # as'" "cells l p = Some c" "value_of c = Some x"
    "next_of c = Some n" "chain (cells l) n as' xs"
    by (auto simp: chain_Cons_iff)
  from chain_nonempty [OF as(5)] have n: "as' \<noteq> []" "hd as' = n" by auto
  then have nin: "n \<in> set as'" by (metis hd_in_set)
  with l as obtain cn where cn: "cells l n = Some cn" by (metis domD list.set_intros(2))
  have np: "n \<noteq> p" using l(4) as(1) nin by auto
  define m' where "m' = ((cells l)(n \<mapsto> cn\<lparr>previous_of := None\<rparr>))(p := None)"
  define l' where "l' = l\<lparr>first_ptr := Some n, cells := m'\<rparr>"
  have "listRemoveFirst l = Inr (Some x, l')"
    using l(1) as cn np by (simp add: listRemoveFirst_def load_def store_def free_link_def l'_def m'_def)
  moreover have "chain m' n as' xs"
    using l(4) cn unfolding m'_def as(1) by (intro chain_cong [OF as(5)]) auto
  then have "lrep l' xs"
    using l as(1) n cn nin unfolding lrep_def l'_def m'_def by auto
  ultimately show thesis using that by blast
qed

text \<open>Appending turns the final cell into the new element and adds a final cell behind it.\<close>

lemma chain_snoc:
  assumes "chain m p as xs" "distinct as" "z \<notin> set as"
    "m (last as) = Some e" "m' (last as) = Some (e\<lparr>next_of := Some z, value_of := Some x\<rparr>)"
    "m' z = Some c" "value_of c = None" "next_of c = None"
    "\<And>a. a \<in> set as \<Longrightarrow> a \<noteq> last as \<Longrightarrow> m' a = m a"
  shows "chain m' p (as @ [z]) (xs @ [x])"
  using assms(1-5,9)
proof (induction xs arbitrary: p as)
  case Nil
  with assms show ?case by (auto simp: chain_Nil_iff)
next
  case (Cons y ys)
  then obtain as' d n where as: "as = p # as'" "m p = Some d" "value_of d = Some y"
    "next_of d = Some n" "chain m n as' ys"
    by (auto simp: chain_Cons_iff)
  from chain_nonempty [OF as(5)] have ne: "as' \<noteq> []" by simp
  then have lst: "last as = last as'" and pl: "p \<noteq> last as'"
    using as(1) Cons.prems(2) by auto
  have "chain m' n (as' @ [z]) (ys @ [x])"
    using Cons.prems as lst by (intro Cons.IH) auto
  moreover have "m' p = m p"
    using Cons.prems(6) as(1) lst pl by simp
  ultimately show ?case
    using as by (auto simp: chain_Cons_iff)
qed

lemma lrep_append:
  assumes "lrep l xs"
  obtains l' where "listAppend l (Some x) = Inr l'" "lrep l' (xs @ [x])"
proof -
  from assms obtain as p where l: "first_ptr l = Some p" "chain (cells l) p as xs"
    "last_ptr l = Some (last as)" "distinct as" "dom (cells l) = set as" "\<forall>a\<in>set as. a < brk l"
    by (rule lrepE)
  from chain_nonempty [OF l(2)] have ne: "as \<noteq> []" by simp
  then have "last as \<in> set as" by simp
  with l obtain e where e: "cells l (last as) = Some e" by (metis domD)
  have z: "brk l \<notin> set as" using l(6) by auto
  then have zl: "last as \<noteq> brk l" using \<open>last as \<in> set as\<close> by metis
  define m' where "m' = (cells l)
     (brk l \<mapsto> \<lparr>value_of = None, next_of = None, previous_of = Some (last as)\<rparr>,
      last as \<mapsto> e\<lparr>next_of := Some (brk l), value_of := Some x\<rparr>)"
  define l' where "l' = l\<lparr>last_ptr := Some (brk l), cells := m', brk := Suc (brk l)\<rparr>"
  have "listAppend l (Some x) = Inr l'"
  proof -
    have "(cells l)(brk l \<mapsto> \<lparr>value_of = None, next_of = None, previous_of = None\<rparr>,
        last as \<mapsto> e\<lparr>next_of := Some (brk l)\<rparr>,
        brk l \<mapsto> \<lparr>value_of = None, next_of = None, previous_of = Some (last as)\<rparr>,
        last as \<mapsto> e\<lparr>next_of := Some (brk l), value_of := Some x\<rparr>) = m'"
      by (rule ext) (auto simp: m'_def)
    then show ?thesis
      using l(3) e zl by (simp add: listAppend_def store_def Let_def l'_def)
  qed
  moreover have "chain m' p (as @ [brk l]) (xs @ [x])"
    using l(2,4) z e zl by (intro chain_snoc [where m = "cells l" and e = e]) (auto simp: m'_def)
  then have "lrep l' (xs @ [x])"
    using l z zl e \<open>last as \<in> set as\<close> unfolding lrep_def l'_def
    by (intro exI [of _ "as @ [brk l]"] exI [of _ p]) (auto simp: m'_def less_Suc_eq)
  ultimately show thesis using that by blast
qed

lemma lrep_listExtend_loop:
  assumes "chain (cells bl) p as ys" "length ys < n" "lrep al xs"
  shows "\<exists>al'. listExtend_loop n al (Some p) bl = Inr al' \<and> lrep al' (xs @ ys)"
  using assms
proof (induction ys arbitrary: p as n al xs)
  case Nil
  then show ?case by (cases n) (auto simp: chain_Nil_iff load_def)
next
  case (Cons y ys)
  then obtain as' c q where as: "cells bl p = Some c" "value_of c = Some y"
    "next_of c = Some q" "chain (cells bl) q as' ys"
    by (auto simp: chain_Cons_iff)
  from Cons.prems(2) obtain n' where n: "n = Suc n'" "length ys < n'" by (cases n) auto
  obtain al1 where al1: "listAppend al (Some y) = Inr al1" "lrep al1 (xs @ [y])"
    using lrep_append [OF Cons.prems(3)] by metis
  from Cons.IH [OF as(4) n(2) al1(2)] show ?case
    using as n al1 by (simp add: load_def)
qed

lemma lrep_listExtend:
  assumes "lrep al xs" "lrep bl ys"
  obtains al' where "listExtend al bl = Inr al'" "lrep al' (xs @ ys)"
proof -
  from assms(2) obtain as p where bl: "first_ptr bl = Some p" "chain (cells bl) p as ys"
    "distinct as" "\<forall>a\<in>set as. a < brk bl"
    by (auto simp: lrep_def)
  have "length ys < Suc (brk bl)"
    using distinct_below_length [OF bl(3,4)] chain_length [OF bl(2)] by simp
  from lrep_listExtend_loop [OF bl(2) this assms(1)] show thesis
    using bl(1) that by (auto simp: listExtend_def)
qed

lemma cleanList_loop_chain:
  assumes "chain m p as xs" "distinct as" "length xs < n"
  shows "cleanList_loop n m (Some p) = Inr (m |` (- set (butlast as)), Some (last as))"
  using assms
proof (induction xs arbitrary: p as n m)
  case Nil
  then show ?case by (cases n) (auto simp: chain_Nil_iff load_def)
next
  case (Cons y ys)
  then obtain as' c q where as: "as = p # as'" "m p = Some c" "value_of c = Some y"
    "next_of c = Some q" "chain m q as' ys"
    by (auto simp: chain_Cons_iff)
  from Cons.prems(3) obtain n' where n: "n = Suc n'" "length ys < n'" by (cases n) auto
  have ne: "as' \<noteq> []" using chain_nonempty [OF as(5)] by simp
  have "chain (m(p := None)) q as' ys"
    using as Cons.prems(2) by (intro chain_cong [OF as(5)]) auto
  then have "cleanList_loop n' (m(p := None)) (Some q) =
      Inr ((m(p := None)) |` (- set (butlast as')), Some (last as'))"
    using Cons.prems(2) as(1) n(2) by (intro Cons.IH) (assumption | simp)+
  also have "(m(p := None)) |` (- set (butlast as')) = m |` (- set (butlast as))"
    using as(1) ne by (auto simp: restrict_map_def)
  finally have step: "cleanList_loop n' (m(p := None)) (Some q) =
      Inr (m |` (- set (butlast as)), Some (last as'))" .
  have "last as = last as'" using as(1) ne by simp
  then show ?case
    using as(2-4) by (simp add: load_def free_link_def n(1) step)
qed

lemma lrep_cleanList:
  assumes "lrep l xs"
  obtains l' where "cleanList l = Inr l'" "lrep l' []"
proof -
  from assms obtain as p where l: "first_ptr l = Some p" "chain (cells l) p as xs"
    "last_ptr l = Some (last as)" "distinct as" "dom (cells l) = set as" "\<forall>a\<in>set as. a < brk l"
    by (rule lrepE)
  have ne: "as \<noteq> []" using chain_nonempty [OF l(2)] by simp
  then obtain bs z where as: "as = bs @ [z]" by (cases as rule: rev_cases) auto
  have len: "length xs < Suc (brk l)"
    using distinct_below_length [OF l(4,6)] chain_length [OF l(2)] by simp
  define l' where "l' = l\<lparr>first_ptr := Some z, last_ptr := Some z, cells := cells l |` (- set bs)\<rparr>"
  have "cleanList l = Inr l'"
    using cleanList_loop_chain [OF l(2,4) len] l(1) as by (simp add: cleanList_def l'_def)
  moreover have "\<exists>c. cells l z = Some c \<and> value_of c = None \<and> next_of c = None"
    using chain_last [OF l(2)] as by simp
  then have "lrep l' []"
    using l as unfolding lrep_def l'_def
    by (intro exI [of _ "[z]"] exI [of _ z]) (auto simp: restrict_map_def split: if_splits)
  ultimately show thesis using that by blast
qed

lemma freeList_loop_chain:
  assumes "chain m p as xs" "distinct as" "length xs < n"
  shows "freeList_loop n m (Some p) = Inr (m |` (- set as))"
  using assms
proof (induction xs arbitrary: p as n m)
  case Nil
  then show ?case
    by (cases n) (auto simp: chain_Nil_iff load_def free_link_def restrict_map_def fun_eq_iff)
next
  case (Cons y ys)
  then obtain as' c q where as: "as = p # as'" "m p = Some c" "value_of c = Some y"
    "next_of c = Some q" "chain m q as' ys"
    by (auto simp: chain_Cons_iff)
  from Cons.prems(3) obtain n' where n: "n = Suc n'" "length ys < n'" by (cases n) auto
  have "chain (m(p := None)) q as' ys"
    using as Cons.prems(2) by (intro chain_cong [OF as(5)]) auto
  then have "freeList_loop n' (m(p := None)) (Some q) = Inr ((m(p := None)) |` (- set as'))"
    using Cons.prems(2) as(1) n(2) by (intro Cons.IH) (assumption | simp)+
  also have "(m(p := None)) |` (- set as') = m |` (- set as)"
    using as(1) by (auto simp: restrict_map_def)
  finally have step: "freeList_loop n' (m(p := None)) (Some q) = Inr (m |` (- set as))" .
  then show ?case
    using as(2-4) by (simp add: load_def free_link_def n(1) step)
qed

lemma lrep_freeList: "lrep l xs \<Longrightarrow> freeList l = Inr (\<lambda>_. None)"
proof -
  assume "lrep l xs"
  then obtain as p where l: "first_ptr l = Some p" "chain (cells l) p as xs"
    "distinct as" "dom (cells l) = set as" "\<forall>a\<in>set as. a < brk l"
    by (auto simp: lrep_def)
  have len: "length xs < Suc (brk l)"
    using distinct_below_length [OF l(3,5)] chain_length [OF l(2)] by simp
  have "cells l |` (- set as) = (\<lambda>_. None)"
    using l(4) by (auto simp: restrict_map_def fun_eq_iff)
  with freeList_loop_chain [OF l(2,3) len] l(1) show ?thesis
    by (simp add: freeList_def)
qed

section \<open>The interface of a queue\<close>

text \<open>What the rest of the middleware relies on: a representation relation between the
  queue and a HOL list that the constructor establishes and the operations follow.\<close>

locale fifo_store =
  fixes empty_q :: 'q
    and put :: "'q \<Rightarrow> 'a option \<Rightarrow> 'q result"
    and take_q :: "'q \<Rightarrow> ('a option \<times> 'q) result"
    and rep :: "'q \<Rightarrow> 'a list \<Rightarrow> bool"
  assumes rep_empty: "rep empty_q []"
    and put_null: "put q None = Inr q"
    and put_rep: "rep q xs \<Longrightarrow> \<exists>q'. put q (Some x) = Inr q' \<and> rep q' (xs @ [x])"
    and take_nil: "rep q [] \<Longrightarrow> take_q q = Inr (None, q)"
    and take_cons: "rep q (x # xs) \<Longrightarrow> \<exists>q'. take_q q = Inr (Some x, q') \<and> rep q' xs"

text \<open>Runs of a queue: a list of calls, each an append or a removal, with the removed
  values in order; and the same run on a HOL list.\<close>

datatype 'a queue_call = Put 'a | Take

fun run_queue ::
  "('q \<Rightarrow> 'a option \<Rightarrow> 'q result) \<Rightarrow> ('q \<Rightarrow> ('a option \<times> 'q) result) \<Rightarrow>
   'a queue_call list \<Rightarrow> 'q \<Rightarrow> ('a option list \<times> 'q) result" where
  "run_queue p t [] q = Inr ([], q)"
| "run_queue p t (Put x # cs) q = bindE (p q (Some x)) (run_queue p t cs)"
| "run_queue p t (Take # cs) q =
     bindE (t q) (\<lambda>(v, q'). bindE (run_queue p t cs q') (\<lambda>(vs, q''). Inr (v # vs, q'')))"

fun run_list :: "'a queue_call list \<Rightarrow> 'a list \<Rightarrow> 'a option list \<times> 'a list" where
  "run_list [] xs = ([], xs)"
| "run_list (Put x # cs) xs = run_list cs (xs @ [x])"
| "run_list (Take # cs) [] = (case run_list cs [] of (vs, ys) \<Rightarrow> (None # vs, ys))"
| "run_list (Take # cs) (x # xs) = (case run_list cs xs of (vs, ys) \<Rightarrow> (Some x # vs, ys))"

context fifo_store
begin

lemma run_refines:
  "rep q xs \<Longrightarrow> \<exists>q'. run_queue put take_q cs q = Inr (fst (run_list cs xs), q') \<and> rep q' (snd (run_list cs xs))"
proof (induction cs xs arbitrary: q rule: run_list.induct)
  case (1 xs)
  then show ?case by simp
next
  case (2 x cs xs)
  then show ?case using put_rep [OF "2.prems", of x] by auto
next
  case (3 cs)
  then show ?case using take_nil [OF "3.prems"] by (fastforce split: prod.splits)
next
  case (4 cs x xs)
  then show ?case using take_cons [OF "4.prems"] by (fastforce split: prod.splits)
qed

end

interpretation trl: fifo_store newList listAppend listRemoveFirst lrep
proof
  show "lrep newList []" by (rule lrep_newList)
  show "listAppend q None = Inr q" for q :: "'a trList" by (simp add: listAppend_def)
  show "\<exists>q'. listAppend q (Some x) = Inr q' \<and> lrep q' (xs @ [x])" if "lrep q xs" for q :: "'a trList" and x xs
    using lrep_append [OF that] by blast
  show "listRemoveFirst q = Inr (None, q)" if "lrep q []" for q :: "'a trList"
    using that by (rule lrep_removeFirst_Nil)
  show "\<exists>q'. listRemoveFirst q = Inr (Some x, q') \<and> lrep q' xs" if "lrep q (x # xs)" for q :: "'a trList" and x xs
    using lrep_removeFirst_Cons [OF that] by blast
qed

end
