(* ===== verification/Bqueue.thy ===== *)
theory Bqueue
  imports LinkedList
begin

text \<open>
  The blocking queue of \<^verbatim>\<open>src/bqueue.c\<close>: a linked list and a semaphore that counts the
  calls to enqueue not yet matched by a call to dequeue. The lemmas rest on the queue
  interface that \<open>LinkedList\<close> discharges (\<open>trl\<close>). Enqueueing NULL adds nothing to the
  list but still posts the semaphore, so a consumer gets NULL once the list is empty: the
  abstract queue is a list and a number of pending NULLs.
\<close>

record 'a trBqueue =
  bq_list :: "'a trList"
  readSem :: nat

definition newBqueue :: "'a trBqueue" where
  "newBqueue = \<lparr>bq_list = newList, readSem = 0\<rparr>"

text \<open>The loop around \<^verbatim>\<open>sem_wait\<close> retries interrupted waits, so its outcome is the one of
  a wait that is not interrupted: on 0 the caller waits.\<close>

definition bqueueDequeue :: "'a trBqueue \<Rightarrow> ('a option \<times> 'a trBqueue) result" where
  "bqueueDequeue q =
     (if readSem q = 0 then Inl Blocks
      else bindE (listRemoveFirst (bq_list q)) (\<lambda>(v, l).
        Inr (v, q\<lparr>bq_list := l, readSem := readSem q - 1\<rparr>)))"

definition bqueueEnqueue :: "'a trBqueue \<Rightarrow> 'a option \<Rightarrow> 'a trBqueue result" where
  "bqueueEnqueue q anElt =
     bindE (listAppend (bq_list q) anElt) (\<lambda>l.
       Inr (q\<lparr>bq_list := l, readSem := Suc (readSem q)\<rparr>))"

fun bqueueExtend_loop :: "nat \<Rightarrow> 'a trBqueue \<Rightarrow> nat option \<Rightarrow> 'a trList \<Rightarrow> 'a trBqueue result" where
  "bqueueExtend_loop n q None list = Inr q"
| "bqueueExtend_loop 0 q (Some a) list = Inl Diverges"
| "bqueueExtend_loop (Suc n) q (Some a) list =
     bindE (load (cells list) (Some a)) (\<lambda>c.
       if value_of c = None then Inr q
       else bindE (bqueueEnqueue q (value_of c)) (\<lambda>q'.
              bqueueExtend_loop n q' (next_of c) list))"

definition bqueueExtend :: "'a trBqueue \<Rightarrow> 'a trList \<Rightarrow> 'a trBqueue result" where
  "bqueueExtend q list = bqueueExtend_loop (Suc (brk list)) q (first_ptr list) list"

definition freeBqueue :: "'a trBqueue \<Rightarrow> (nat \<Rightarrow> 'a LINK option) result" where
  "freeBqueue q = freeList (bq_list q)"

section \<open>Abstraction\<close>

definition brep :: "'a trBqueue \<Rightarrow> 'a list \<Rightarrow> nat \<Rightarrow> bool" where
  "brep q xs k \<longleftrightarrow> lrep (bq_list q) xs \<and> readSem q = length xs + k"

lemma brep_newBqueue: "brep newBqueue [] 0"
  by (simp add: brep_def newBqueue_def trl.rep_empty)

lemma brep_enqueue:
  assumes "brep q xs k"
  obtains q' where "bqueueEnqueue q (Some x) = Inr q'" "brep q' (xs @ [x]) k"
proof -
  from assms have "lrep (bq_list q) xs" by (simp add: brep_def)
  from trl.put_rep [OF this, of x] obtain l where
    "listAppend (bq_list q) (Some x) = Inr l" "lrep l (xs @ [x])" by blast
  with assms have "bqueueEnqueue q (Some x) = Inr (q\<lparr>bq_list := l, readSem := Suc (readSem q)\<rparr>)"
    "brep (q\<lparr>bq_list := l, readSem := Suc (readSem q)\<rparr>) (xs @ [x]) k"
    by (simp_all add: bqueueEnqueue_def brep_def)
  then show thesis by (rule that)
qed

lemma brep_enqueue_NULL:
  assumes "brep q xs k"
  obtains q' where "bqueueEnqueue q None = Inr q'" "brep q' xs (Suc k)"
  using assms by (auto simp: bqueueEnqueue_def trl.put_null brep_def)

lemma brep_dequeue_blocks: "brep q [] 0 \<Longrightarrow> bqueueDequeue q = Inl Blocks"
  by (simp add: brep_def bqueueDequeue_def)

lemma brep_dequeue_NULL:
  assumes "brep q [] (Suc k)"
  obtains q' where "bqueueDequeue q = Inr (None, q')" "brep q' [] k"
  using assms by (auto simp: bqueueDequeue_def trl.take_nil brep_def)

lemma brep_dequeue_Cons:
  assumes "brep q (x # xs) k"
  obtains q' where "bqueueDequeue q = Inr (Some x, q')" "brep q' xs k"
proof -
  from assms have "lrep (bq_list q) (x # xs)" by (simp add: brep_def)
  from trl.take_cons [OF this] obtain l where
    "listRemoveFirst (bq_list q) = Inr (Some x, l)" "lrep l xs" by blast
  with assms have "bqueueDequeue q = Inr (Some x, q\<lparr>bq_list := l, readSem := readSem q - 1\<rparr>)"
    "brep (q\<lparr>bq_list := l, readSem := readSem q - 1\<rparr>) xs k"
    by (simp_all add: bqueueDequeue_def brep_def)
  then show thesis by (rule that)
qed

lemma brep_extend_loop:
  assumes "chain (cells list) p as ys" "length ys < n" "brep q xs k"
  shows "\<exists>q'. bqueueExtend_loop n q (Some p) list = Inr q' \<and> brep q' (xs @ ys) k"
  using assms
proof (induction ys arbitrary: p as n q xs)
  case Nil
  then show ?case by (cases n) (auto simp: chain_Nil_iff load_def)
next
  case (Cons y ys)
  then obtain as' c r where as: "cells list p = Some c" "value_of c = Some y"
    "next_of c = Some r" "chain (cells list) r as' ys"
    by (auto simp: chain_Cons_iff)
  from Cons.prems(2) obtain n' where n: "n = Suc n'" "length ys < n'" by (cases n) auto
  obtain q1 where q1: "bqueueEnqueue q (Some y) = Inr q1" "brep q1 (xs @ [y]) k"
    using brep_enqueue [OF Cons.prems(3)] by metis
  from Cons.IH [OF as(4) n(2) q1(2)] show ?case
    using as n q1 by (simp add: load_def)
qed

lemma brep_extend:
  assumes "brep q xs k" "lrep list ys"
  obtains q' where "bqueueExtend q list = Inr q'" "brep q' (xs @ ys) k"
proof -
  from assms(2) obtain as p where l: "first_ptr list = Some p" "chain (cells list) p as ys"
    "distinct as" "\<forall>a\<in>set as. a < brk list"
    by (auto simp: lrep_def)
  have "length ys < Suc (brk list)"
    using distinct_below_length [OF l(3,4)] chain_length [OF l(2)] by simp
  from brep_extend_loop [OF l(2) this assms(1)] show thesis
    using l(1) that by (auto simp: bqueueExtend_def)
qed

lemma brep_free: "brep q xs k \<Longrightarrow> freeBqueue q = Inr (\<lambda>_. None)"
  unfolding brep_def freeBqueue_def by (blast intro: lrep_freeList)

section \<open>The interface of a blocking queue\<close>

text \<open>The contract a thread that produces and a thread that consumes share.\<close>

locale blocking_fifo =
  fixes new_q :: 'q
    and enq :: "'q \<Rightarrow> 'a option \<Rightarrow> 'q result"
    and deq :: "'q \<Rightarrow> ('a option \<times> 'q) result"
    and rep :: "'q \<Rightarrow> 'a list \<Rightarrow> nat \<Rightarrow> bool"
  assumes rep_new: "rep new_q [] 0"
    and enq_rep: "rep q xs k \<Longrightarrow> \<exists>q'. enq q (Some x) = Inr q' \<and> rep q' (xs @ [x]) k"
    and enq_null_rep: "rep q xs k \<Longrightarrow> \<exists>q'. enq q None = Inr q' \<and> rep q' xs (Suc k)"
    and deq_empty: "rep q [] 0 \<Longrightarrow> deq q = Inl Blocks"
    and deq_null: "rep q [] (Suc k) \<Longrightarrow> \<exists>q'. deq q = Inr (None, q') \<and> rep q' [] k"
    and deq_cons: "rep q (x # xs) k \<Longrightarrow> \<exists>q'. deq q = Inr (Some x, q') \<and> rep q' xs k"

fun enqueue_all :: "('q \<Rightarrow> 'a option \<Rightarrow> 'q result) \<Rightarrow> 'a option list \<Rightarrow> 'q \<Rightarrow> 'q result" where
  "enqueue_all e [] q = Inr q"
| "enqueue_all e (x # xs) q = bindE (e q x) (enqueue_all e xs)"

fun dequeue_n ::
  "('q \<Rightarrow> ('a option \<times> 'q) result) \<Rightarrow> nat \<Rightarrow> 'q \<Rightarrow> ('a option list \<times> 'q) result" where
  "dequeue_n d 0 q = Inr ([], q)"
| "dequeue_n d (Suc n) q =
     bindE (d q) (\<lambda>(v, q'). bindE (dequeue_n d n q') (\<lambda>(vs, q''). Inr (v # vs, q'')))"

context blocking_fifo
begin

lemma enqueue_all_rep:
  "rep q xs k \<Longrightarrow> \<exists>q'. enqueue_all enq (map Some ys) q = Inr q' \<and> rep q' (xs @ ys) k"
proof (induction ys arbitrary: q xs)
  case Nil
  then show ?case by simp
next
  case (Cons y ys)
  from enq_rep [OF Cons.prems, of y] obtain q1 where "enq q (Some y) = Inr q1" "rep q1 (xs @ [y]) k"
    by blast
  with Cons.IH [OF this(2)] show ?case by simp
qed

lemma dequeue_all_rep:
  "rep q xs k \<Longrightarrow> \<exists>q'. dequeue_n deq (length xs) q = Inr (map Some xs, q') \<and> rep q' [] k"
proof (induction xs arbitrary: q)
  case Nil
  then show ?case by simp
next
  case (Cons x xs)
  from deq_cons [OF Cons.prems] obtain q1 where q1: "deq q = Inr (Some x, q1)" "rep q1 xs k"
    by blast
  from Cons.IH [OF q1(2)] obtain q2 where
    "dequeue_n deq (length xs) q1 = Inr (map Some xs, q2)" "rep q2 [] k" by blast
  with q1 show ?case by simp
qed

text \<open>What was enqueued comes out first in first out; a NULL enqueued last comes out last;
  the next call waits.\<close>

lemma hand_over:
  assumes "rep q [] 0"
  shows "\<exists>q1 q2 q3 q4. enqueue_all enq (map Some xs) q = Inr q1 \<and> enq q1 None = Inr q2 \<and>
           dequeue_n deq (length xs) q2 = Inr (map Some xs, q3) \<and> deq q3 = Inr (None, q4) \<and>
           deq q4 = Inl Blocks"
proof -
  from enqueue_all_rep [OF assms, of xs] obtain q1 where
    q1: "enqueue_all enq (map Some xs) q = Inr q1" "rep q1 xs 0" by auto
  from enq_null_rep [OF q1(2)] obtain q2 where q2: "enq q1 None = Inr q2" "rep q2 xs (Suc 0)"
    by blast
  from dequeue_all_rep [OF q2(2)] obtain q3 where
    q3: "dequeue_n deq (length xs) q2 = Inr (map Some xs, q3)" "rep q3 [] (Suc 0)" by blast
  from deq_null [OF q3(2)] obtain q4 where "deq q3 = Inr (None, q4)" "rep q4 [] 0" by blast
  with q1 q2 q3 deq_empty show ?thesis by blast
qed

end

interpretation bq: blocking_fifo newBqueue bqueueEnqueue bqueueDequeue brep
proof
  show "brep newBqueue [] 0" by (rule brep_newBqueue)
next
  fix q :: "'a trBqueue" and xs k x
  assume "brep q xs k"
  then show "\<exists>q'. bqueueEnqueue q (Some x) = Inr q' \<and> brep q' (xs @ [x]) k"
    by (metis brep_enqueue)
next
  fix q :: "'a trBqueue" and xs k
  assume "brep q xs k"
  then show "\<exists>q'. bqueueEnqueue q None = Inr q' \<and> brep q' xs (Suc k)"
    by (metis brep_enqueue_NULL)
next
  show "bqueueDequeue q = Inl Blocks" if "brep q [] 0" for q :: "'a trBqueue"
    using that by (rule brep_dequeue_blocks)
next
  fix q :: "'a trBqueue" and k
  assume "brep q [] (Suc k)"
  then show "\<exists>q'. bqueueDequeue q = Inr (None, q') \<and> brep q' [] k"
    by (metis brep_dequeue_NULL)
next
  fix q :: "'a trBqueue" and x xs k
  assume "brep q (x # xs) k"
  then show "\<exists>q'. bqueueDequeue q = Inr (Some x, q') \<and> brep q' xs k"
    by (metis brep_dequeue_Cons)
qed

end
