(* ===== verification/AdvStruct.thy ===== *)
theory AdvStruct
  imports Wire Bqueue "HOL-Library.Multiset"
begin

text \<open>
  \<^verbatim>\<open>src/advanced_struct.c\<close>: the reference-counted buffers (\<^verbatim>\<open>womim\<close>: a prefix with a
  counter, then a wagon or a message), the references to wagons inside them (\<^verbatim>\<open>wiw\<close>), the
  wagon under construction, and the record of the last train sent of each id (\<^verbatim>\<open>lts\<close>).
  A buffer is known by a number; a pointer to a wagon is the number of its buffer and its
  offset after the prefix. A buffer whose counter reaches 0 is freed: every later access
  to it is a fault. The operations run under the mutex of the buffer they touch.
\<close>

section \<open>Buffers and references\<close>

record womim =
  counter :: int
  bytes :: "byte list"

record heap =
  womims :: "nat \<Rightarrow> womim option"
  next_id :: nat

record wiw =
  p_wagon :: "(nat \<times> int) option"
  p_womim :: "nat option"

text \<open>\<^verbatim>\<open>sizeof(prefix)\<close>: a 40-byte mutex and an int, aligned.\<close>

definition sizeof_prefix :: int where "sizeof_prefix = 48"

definition get_womim :: "heap \<Rightarrow> nat option \<Rightarrow> womim result" where
  "get_womim h p =
     (case p of None \<Rightarrow> Inl MemFault
      | Some a \<Rightarrow> (case womims h a of None \<Rightarrow> Inl MemFault | Some w \<Rightarrow> Inr w))"

definition set_womim :: "heap \<Rightarrow> nat \<Rightarrow> womim option \<Rightarrow> heap" where
  "set_womim h a w = h\<lparr>womims := (womims h)(a := w)\<rparr>"

text \<open>\<^verbatim>\<open>malloc(sizeof(prefix) + n)\<close>: \<open>n\<close> bytes after the prefix (what they hold is of no
  matter, here 0); a number not used before.\<close>

definition malloc_womim :: "heap \<Rightarrow> int \<Rightarrow> int \<Rightarrow> nat \<times> heap" where
  "malloc_womim h n cnt =
     (next_id h, h\<lparr>womims := (womims h)(next_id h \<mapsto> \<lparr>counter = cnt, bytes = replicate (nat n) 0\<rparr>),
                   next_id := Suc (next_id h)\<rparr>)"

text \<open>\<^verbatim>\<open>realloc\<close> may move the block: it always does here, so that a pointer into the old
  block is seen to dangle. The contents are kept up to the shorter of the two sizes.\<close>

definition realloc_womim :: "heap \<Rightarrow> nat option \<Rightarrow> int \<Rightarrow> (nat \<times> heap) result" where
  "realloc_womim h p n =
     (case p of
        None \<Rightarrow> Inr (malloc_womim h n 0)
      | Some a \<Rightarrow>
          bindE (get_womim h p) (\<lambda>w.
            let m = nat n;
                bs = take m (bytes w) @ replicate (m - length (bytes w)) 0
            in Inr (next_id h,
                 h\<lparr>womims := (womims h)(a := None, next_id h \<mapsto> w\<lparr>bytes := bs\<rparr>),
                   next_id := Suc (next_id h)\<rparr>)))"

text \<open>The wagon a pointer designates, read in its buffer.\<close>

definition with_wagon :: "heap \<Rightarrow> (nat \<times> int) option \<Rightarrow> (byte list \<Rightarrow> int \<Rightarrow> 'a result) \<Rightarrow> 'a result" where
  "with_wagon h p f =
     (case p of None \<Rightarrow> Inl MemFault
      | Some (a, off) \<Rightarrow> bindE (get_womim h (Some a)) (\<lambda>w. f (bytes w) off))"

definition newWiw :: "int \<Rightarrow> address \<Rightarrow> heap \<Rightarrow> (wiw \<times> heap) result" where
  "newWiw wagonMaxLen myAddress h =
     (let (a, h1) = malloc_womim h wagonMaxLen 1 in
      bindE (get_womim h1 (Some a)) (\<lambda>w.
      bindE (wr_int (bytes w) 0 (word_of_int sizeof_wagonHeader)) (\<lambda>b1.
      bindE (wr_short b1 4 myAddress) (\<lambda>b2.
      bindE (wr_char b2 6 0) (\<lambda>b3.
        Inr (\<lparr>p_wagon = Some (a, 0), p_womim = Some a\<rparr>, set_womim h1 a (Some (w\<lparr>bytes := b3\<rparr>))))))))"

text \<open>\<^verbatim>\<open>mallocWiw\<close> on the wagon under construction: the offset of the new message in it. The
  size passed to \<^verbatim>\<open>realloc\<close> counts the prefix.\<close>

definition mallocWiw :: "int \<Rightarrow> int \<Rightarrow> wiw \<Rightarrow> heap \<Rightarrow> (int \<times> wiw \<times> heap) result" where
  "mallocWiw wagonMaxLen payloadSize wagonToSend h =
     bindE (if payloadSize > wagonMaxLen
            then with_wagon h (p_wagon wagonToSend) (\<lambda>buf w.
                   bindE (wagon_len buf w) (\<lambda>len.
                     let newWomimLen = sizeof_prefix + sint len + sizeof_messageHeader + payloadSize in
                     bindE (realloc_womim h (p_womim wagonToSend) (newWomimLen - sizeof_prefix)) (\<lambda>(a, h').
                       Inr (wagonToSend\<lparr>p_womim := Some a\<rparr>, h'))))
            else Inr (wagonToSend, h)) (\<lambda>(wts, h1).
       (case p_womim wts of
          None \<Rightarrow> Inl MemFault
        | Some a \<Rightarrow>
            bindE (get_womim h1 (Some a)) (\<lambda>wo.
            bindE (wagon_len (bytes wo) 0) (\<lambda>len.
              let mp = sint len; mlen = word_of_int (sizeof_messageHeader + payloadSize) in
              bindE (wr_int (bytes wo) mp mlen) (\<lambda>b1.
              bindE (wr_int b1 0 (len + mlen)) (\<lambda>b2.
                Inr (mp, wts\<lparr>p_wagon := Some (a, 0)\<rparr>, set_womim h1 a (Some (wo\<lparr>bytes := b2\<rparr>)))))))))"

text \<open>The end of a reference: the counter goes down, at 0 the buffer is freed. \<^verbatim>\<open>releaseWiw\<close>
  also clears the reference; \<^verbatim>\<open>freeWiw\<close> frees it.\<close>

definition freeWomim :: "nat option \<Rightarrow> heap \<Rightarrow> heap result" where
  "freeWomim wo h =
     (case wo of None \<Rightarrow> Inl MemFault
      | Some a \<Rightarrow> bindE (get_womim h wo) (\<lambda>w.
          let w' = w\<lparr>counter := counter w - 1\<rparr>
          in Inr (set_womim h a (if counter w' = 0 then None else Some w'))))"

definition releaseWiw :: "wiw option \<Rightarrow> heap \<Rightarrow> (wiw option \<times> heap) result" where
  "releaseWiw ww h =
     (case ww of
        None \<Rightarrow> Inr (None, h)
      | Some r \<Rightarrow>
          (case p_womim r of
             None \<Rightarrow> Inr (Some r, h)
           | Some a \<Rightarrow> bindE (get_womim h (Some a)) (\<lambda>w.
               let w' = w\<lparr>counter := counter w - 1\<rparr>
               in Inr (Some \<lparr>p_wagon = None, p_womim = None\<rparr>,
                       set_womim h a (if counter w' = 0 then None else Some w')))))"

definition freeWiw :: "wiw option \<Rightarrow> heap \<Rightarrow> heap result" where
  "freeWiw ww h = bindE (releaseWiw ww h) (\<lambda>(_, h'). Inr h')"

text \<open>\<^verbatim>\<open>p_womim->pfx.counter++\<close>\<close>

definition incr_counter :: "nat option \<Rightarrow> heap \<Rightarrow> heap result" where
  "incr_counter wo h =
     (case wo of None \<Rightarrow> Inl MemFault
      | Some a \<Rightarrow> bindE (get_womim h wo) (\<lambda>w. Inr (set_womim h a (Some (w\<lparr>counter := counter w + 1\<rparr>)))))"

section \<open>Last trains sent\<close>

definition MAX_NTR :: int where "MAX_NTR = 16"

definition M_lc :: int where "M_lc = 256"

record ltsStruct =
  lts_type :: MType
  lts_stamp :: stamp
  lts_circuit :: addressSet
  lts_w :: wiw
  lts_wlen :: "32 word"
  lts_wtosend :: "wiw option"

fun isInLts_loop :: "nat \<Rightarrow> address \<Rightarrow> ltsStruct list \<Rightarrow> int \<Rightarrow> bool \<Rightarrow> bool result" where
  "isInLts_loop 0 ad lts i res = Inr res"
| "isInLts_loop (Suc n) ad lts i res =
     bindE (nthE lts i) (\<lambda>l. isInLts_loop n ad lts (i + 1) (res \<and> addrIsMember ad (lts_circuit l)))"

definition isInLts :: "int \<Rightarrow> address \<Rightarrow> ltsStruct list \<Rightarrow> bool result" where
  "isInLts ntr ad ltsarray = isInLts_loop (nat ntr) ad ltsarray 0 True"

definition isRecentTrain :: "int \<Rightarrow> stamp \<Rightarrow> ltsStruct list \<Rightarrow> 8 word \<Rightarrow> bool result" where
  "isRecentTrain ntr tr_st lts last_id =
     (let waiting_id = c_mod (sint last_id + 1) ntr in
      if sint (stamp_id tr_st) = waiting_id
      then bindE (nthE lts waiting_id) (\<lambda>l.
             let diff = uint (stamp_lc tr_st) - uint (stamp_lc (lts_stamp l))
             in if diff > 0 then Inr (diff < c_div (1 + M_lc) 2) else Inr (diff < c_div (1 - M_lc) 2))
      else Inr False)"

section \<open>Counting references\<close>

lemma get_womim_set [simp]:
  "get_womim (set_womim h a w) (Some b) =
     (if a = b then (case w of None \<Rightarrow> Inl MemFault | Some x \<Rightarrow> Inr x) else get_womim h (Some b))"
  by (simp add: get_womim_def set_womim_def)

lemma get_womim_Inr: "get_womim h (Some a) = Inr w \<longleftrightarrow> womims h a = Some w"
  by (simp add: get_womim_def split: option.splits)

lemma womims_set_womim [simp]: "womims (set_womim h a w) = (womims h)(a := w)"
  by (simp add: set_womim_def)

lemma next_id_set_womim [simp]: "next_id (set_womim h a w) = next_id h"
  by (simp add: set_womim_def)

text \<open>\<open>counts h refs\<close>: the allocated buffers are those that some reference of the multiset
  \<open>refs\<close> designates, and their counters are the numbers of these references.\<close>

definition counts :: "heap \<Rightarrow> nat multiset \<Rightarrow> bool" where
  "counts h refs \<longleftrightarrow>
     (\<forall>a. womims h a = None \<longleftrightarrow> count refs a = 0) \<and>
     (\<forall>a w. womims h a = Some w \<longrightarrow> counter w = int (count refs a)) \<and>
     (\<forall>a. next_id h \<le> a \<longrightarrow> womims h a = None)"

lemma counts_get:
  assumes "counts h refs" "a \<in># refs"
  obtains w where "womims h a = Some w" "counter w = int (count refs a)"
  using assms unfolding counts_def by (metis count_eq_zero_iff not_None_eq)

lemma counts_fresh: "counts h refs \<Longrightarrow> next_id h \<notin># refs"
  unfolding counts_def by (metis count_eq_zero_iff order_refl)

lemma counts_release:
  assumes "counts h (add_mset a refs)" "womims h a = Some w"
  shows "counts (set_womim h a (if counter w - 1 = 0 then None else Some (w\<lparr>counter := counter w - 1\<rparr>))) refs"
proof -
  have "counter w = int (Suc (count refs a))"
    using assms by (simp add: counts_def)
  then have c: "counter w - 1 = int (count refs a)" by simp
  show ?thesis
    using assms(1,2) unfolding c counts_def by (auto split: if_splits)
qed

lemma counts_incr:
  assumes "counts h refs" "womims h a = Some w" "a \<in># refs"
  shows "counts (set_womim h a (Some (w\<lparr>counter := counter w + 1\<rparr>))) (add_mset a refs)"
  using assms unfolding counts_def by auto

lemma counts_update:
  assumes "counts h refs" "womims h a = Some w" "counter w' = counter w"
  shows "counts (set_womim h a (Some w')) refs"
proof -
  have "count refs a \<noteq> 0" using assms(1,2) by (metis counts_def option.distinct(1))
  with assms show ?thesis unfolding counts_def by auto
qed

lemma counts_malloc:
  assumes "counts h refs" "malloc_womim h n 1 = (a, h')"
  shows "counts h' (add_mset a refs)" "a = next_id h" "a \<notin># refs"
    "womims h' a = Some \<lparr>counter = 1, bytes = replicate (nat n) 0\<rparr>"
proof -
  have eq: "a = next_id h" "h' = h\<lparr>womims := (womims h)(next_id h \<mapsto> \<lparr>counter = 1, bytes = replicate (nat n) 0\<rparr>),
     next_id := Suc (next_id h)\<rparr>"
    using assms(2) by (auto simp: malloc_womim_def)
  have z: "count refs (next_id h) = 0"
    using counts_fresh [OF assms(1)] by (simp add: count_eq_zero_iff)
  then show "counts h' (add_mset a refs)"
    using assms(1) unfolding eq counts_def by auto
  show "a = next_id h" "womims h' a = Some \<lparr>counter = 1, bytes = replicate (nat n) 0\<rparr>"
    by (simp_all add: eq)
  show "a \<notin># refs" using z by (simp add: eq count_eq_zero_iff)
qed

lemma freeWomim_counts:
  assumes "counts h (add_mset a refs)"
  obtains h' where "freeWomim (Some a) h = Inr h'" "counts h' refs" "next_id h' = next_id h"
    "\<And>b w. b \<in># refs \<Longrightarrow> womims h b = Some w \<Longrightarrow> \<exists>w'. womims h' b = Some w' \<and> bytes w' = bytes w"
proof -
  from counts_get [OF assms, of a] obtain w where w: "womims h a = Some w" by auto
  let ?h' = "set_womim h a (if counter w - 1 = 0 then None else Some (w\<lparr>counter := counter w - 1\<rparr>))"
  have c: "counts ?h' refs" by (rule counts_release [OF assms w])
  have "freeWomim (Some a) h = Inr ?h'"
    by (simp add: freeWomim_def get_womim_def w)
  moreover have "\<exists>w'. womims ?h' b = Some w' \<and> bytes w' = bytes v"
    if b: "b \<in># refs" "womims h b = Some v" for b v
  proof -
    from counts_get [OF c b(1)] obtain w' where "womims ?h' b = Some w'" by blast
    then show ?thesis using b w by (cases "b = a") (auto split: if_splits)
  qed
  ultimately show thesis by (intro that [OF _ c]) simp_all
qed

lemma releaseWiw_counts:
  assumes "counts h (add_mset a refs)"
  obtains h' where "releaseWiw (Some \<lparr>p_wagon = q, p_womim = Some a\<rparr>) h = Inr (Some \<lparr>p_wagon = None, p_womim = None\<rparr>, h')"
    "counts h' refs" "next_id h' = next_id h"
    "\<And>b w. b \<in># refs \<Longrightarrow> womims h b = Some w \<Longrightarrow> \<exists>w'. womims h' b = Some w' \<and> bytes w' = bytes w"
proof -
  obtain h' where h': "freeWomim (Some a) h = Inr h'" "counts h' refs" "next_id h' = next_id h"
    "\<And>b w. b \<in># refs \<Longrightarrow> womims h b = Some w \<Longrightarrow> \<exists>w'. womims h' b = Some w' \<and> bytes w' = bytes w"
    using freeWomim_counts [OF assms] by metis
  then have "releaseWiw (Some \<lparr>p_wagon = q, p_womim = Some a\<rparr>) h = Inr (Some \<lparr>p_wagon = None, p_womim = None\<rparr>, h')"
    by (auto simp: releaseWiw_def freeWomim_def bindE_eq_Inr)
  then show thesis using h'(2-) by (rule that)
qed

section \<open>Recent trains\<close>

text \<open>The circular distance from the clock of the last train sent to the clock of the
  train received, on 8 bits.\<close>

definition lc_distance :: "stamp \<Rightarrow> stamp \<Rightarrow> nat" where
  "lc_distance st st' = unat (stamp_lc st - stamp_lc st')"

lemma uint_minus_cases:
  "uint ((a :: 8 word) - b) = (if uint b \<le> uint a then uint a - uint b else uint a - uint b + 256)"
  by (simp add: uint_sub_if')

lemma window_cases:
  "0 \<le> x \<Longrightarrow> x < 256 \<Longrightarrow> 0 \<le> y \<Longrightarrow> y < 256 \<Longrightarrow> d = (if y \<le> x then x - y else x - y + 256) \<Longrightarrow>
   (if x - y > 0 then x - y < 128 else x - y < - 127) \<longleftrightarrow> 0 < d \<and> (d < 128 \<or> d = 128 \<and> x < (y::int))"
  by (auto split: if_splits)

lemma isRecentTrain_distance:
  assumes "0 \<le> l" "l < ntr" "int (length lts) \<ge> ntr" "ntr \<le> 16"
    "w = (l + 1) mod ntr"
  shows "isRecentTrain ntr st lts (word_of_int l) =
    Inr (sint (stamp_id st) = w \<and>
      (let d = lc_distance st (lts_stamp (lts ! nat w))
       in 0 < d \<and> (d < 128 \<or> d = 128 \<and> stamp_lc st < stamp_lc (lts_stamp (lts ! nat w)))))"
proof -
  have l: "sint (word_of_int l :: 8 word) = l"
    using assms by (simp add: signed_of_int signed_take_bit_int_eq_self)
  have "(l + 1) mod ntr < int (length lts)"
    using assms pos_mod_bound [of ntr "l + 1"] by linarith
  then have w: "c_mod (l + 1) ntr = w" "0 \<le> w" "nat w < length lts"
    using assms pos_mod_bound [of ntr "l + 1"] pos_mod_sign [of ntr "l + 1"]
    by (simp_all add: c_mod_nonneg nat_less_iff)
  let ?a = "stamp_lc st" and ?b = "stamp_lc (lts_stamp (lts ! nat w))"
  have d: "int (lc_distance st (lts_stamp (lts ! nat w))) = uint (?a - ?b)"
    by (simp add: lc_distance_def)
  have r: "0 \<le> uint ?a" "uint ?a < 256" "0 \<le> uint ?b" "uint ?b < 256"
    using uint_lt2p [of ?a] uint_lt2p [of ?b] by simp_all
  have "(if uint ?a - uint ?b > 0 then uint ?a - uint ?b < 128 else uint ?a - uint ?b < - 127) \<longleftrightarrow>
      0 < uint (?a - ?b) \<and> (uint (?a - ?b) < 128 \<or> uint (?a - ?b) = 128 \<and> uint ?a < uint ?b)"
    using r by (intro window_cases) (simp_all add: uint_minus_cases)
  then show ?thesis
    using w by (auto simp: isRecentTrain_def l nthE_in c_div_def M_lc_def Let_def word_less_def
        simp flip: d)
qed

end
