(* ===== verification/DataProperties.thy ===== *)
theory DataProperties
  imports AddrTable Comm AdvStruct
begin

text \<open>
  What the components below the automaton promise: addresses and circuits, the list and the
  queue, the wire format, the table of connections, the communication handles, the window of
  recent trains.
\<close>

section \<open>Addresses and circuits\<close>

text \<open>C27: on a circuit that is not empty \<^verbatim>\<open>addrPrec\<close> returns, and what it returns is the
  member met first when the 16 ranks are gone through backwards, cyclically, from the one
  before the address; on an empty circuit it never returns.\<close>

theorem addrPrec_is_nearest:
  assumes "is_address ad" "c \<noteq> 0"
  shows "(\<exists>d. 0 < d \<and> d \<le> 16 \<and> addrPrec ad c = Inr (rankToAddr ((addrToRank ad - int d) mod 16)) \<and>
      addrIsMember (rankToAddr ((addrToRank ad - int d) mod 16)) c \<and>
      (\<forall>k. 0 < k \<and> k < d \<longrightarrow> \<not> addrIsMember (rankToAddr ((addrToRank ad - int k) mod 16)) c)) \<and>
    addrPrec ad 0 = Inl Diverges"
proof
  obtain d where d: "0 < d" "d \<le> 16" "bit c (nat (ringBack (addrToRank ad) d))"
    "\<forall>k. 0 < k \<and> k < d \<longrightarrow> \<not> bit c (nat (ringBack (addrToRank ad) k))"
    "addrPrec ad c = Inr (rankToAddr (ringBack (addrToRank ad) d))"
    by (rule addrPrec_nearest [OF assms])
  then show "\<exists>d. 0 < d \<and> d \<le> 16 \<and> addrPrec ad c = Inr (rankToAddr ((addrToRank ad - int d) mod 16)) \<and>
      addrIsMember (rankToAddr ((addrToRank ad - int d) mod 16)) c \<and>
      (\<forall>k. 0 < k \<and> k < d \<longrightarrow> \<not> addrIsMember (rankToAddr ((addrToRank ad - int k) mod 16)) c)"
    by (auto simp: addrIsMember_rank ringBack_range simp flip: ringBack_def)
  show "addrPrec ad 0 = Inl Diverges" using assms(1) by (intro addrPrec_empty) (simp add: is_address_def)
qed

theorem addrPrec_is_nearest_witness:
  "(\<exists>d. 0 < d \<and> d \<le> 16 \<and> addrPrec (rankToAddr 1) 34 = Inr (rankToAddr ((addrToRank (rankToAddr 1) - int d) mod 16)) \<and>
      addrIsMember (rankToAddr ((addrToRank (rankToAddr 1) - int d) mod 16)) 34 \<and>
      (\<forall>k. 0 < k \<and> k < d \<longrightarrow> \<not> addrIsMember (rankToAddr ((addrToRank (rankToAddr 1) - int k) mod 16)) 34)) \<and>
   addrPrec (rankToAddr 1) 0 = Inl Diverges"
  by (rule addrPrec_is_nearest) (simp_all add: is_address_rankToAddr)

text \<open>An address of one of the 16 ranks is turned into its rank and back, and a set of
  addresses has the rank of its lowest member; only the empty set has none.\<close>

theorem rank_roundtrip:
  assumes "0 \<le> r" "r < 16" "s \<noteq> 0"
  shows "addrToRank (rankToAddr r) = r \<and> (\<exists>k<16. addrToRank s = int k \<and> bit s k \<and> (\<forall>j<k. \<not> bit s j)) \<and> addrToRank 0 = - 1"
proof -
  obtain k where "k < 16" "bit s k" "\<forall>j<k. \<not> bit s j" by (rule lowest_bit_exists [OF assms(3)])
  then show ?thesis using addrToRank_lowest addrToRank_rankToAddr [OF assms(1,2)] by auto
qed

theorem rank_roundtrip_witness:
  "addrToRank (rankToAddr 15) = 15 \<and> (\<exists>k<16. addrToRank 12 = int k \<and> bit (12 :: address) k \<and> (\<forall>j<k. \<not> bit (12 :: address) j)) \<and>
   addrToRank 0 = - 1"
  by (rule rank_roundtrip) simp_all

text \<open>The circuit of train 0 loses the gone processes that were in it and gains the arrived
  ones; a gone process that was not in it is added. A process that arrives and leaves
  before train 0 comes is in neither set.\<close>

theorem circuit_updates:
  assumes "is_address ad"
  shows "bits_of (addrUpdateCircuit circuit my came gone) =
      (bits_of circuit - bits_of gone) \<union> (bits_of gone - bits_of circuit) \<union> bits_of came \<and>
    bits_of (fst (addrAppendGone (addrAppendArrived came ad) gone ad)) = bits_of came - bits_of ad \<and>
    snd (addrAppendGone (addrAppendArrived came ad) gone ad) = gone \<and>
    (\<not> addrIsMember ad came \<longrightarrow> fst (addrAppendGone came gone ad) = came \<and>
       bits_of (snd (addrAppendGone came gone ad)) = bits_of gone \<union> bits_of ad)"
proof (intro conjI impI)
  show "bits_of (addrUpdateCircuit circuit my came gone) =
      (bits_of circuit - bits_of gone) \<union> (bits_of gone - bits_of circuit) \<union> bits_of came"
    by (auto simp: addrUpdateCircuit_def bits_of_xor bits_of_or)
  have mem: "addrIsMember ad (addrAppendArrived came ad)"
    using assms by (auto simp: addrIsMember_iff bits_of_addrAppendArrived bits_of_rankToAddr elim!: is_addressE)
  then show "snd (addrAppendGone (addrAppendArrived came ad) gone ad) = gone"
    by (simp add: addrAppendGone_def)
  show "bits_of (fst (addrAppendGone (addrAppendArrived came ad) gone ad)) = bits_of came - bits_of ad"
    using bits_of_addrAppendGone(1) [OF assms, of "addrAppendArrived came ad" gone]
    by (auto simp: bits_of_addrAppendArrived prod_eq_iff)
  assume "\<not> addrIsMember ad came"
  then show "fst (addrAppendGone came gone ad) = came" "bits_of (snd (addrAppendGone came gone ad)) = bits_of gone \<union> bits_of ad"
    by (auto simp: addrAppendGone_def bits_of_or)
qed

theorem circuit_updates_witness:
  "bits_of (addrUpdateCircuit 7 1 8 2) = (bits_of (7 :: address) - bits_of (2 :: address)) \<union> (bits_of (2 :: address) - bits_of (7 :: address)) \<union> bits_of (8 :: address) \<and>
   bits_of (fst (addrAppendGone (addrAppendArrived 8 (rankToAddr 2)) 2 (rankToAddr 2))) = bits_of (8 :: address) - bits_of (rankToAddr 2) \<and>
   snd (addrAppendGone (addrAppendArrived 8 (rankToAddr 2)) 2 (rankToAddr 2)) = 2 \<and>
   fst (addrAppendGone 8 2 (rankToAddr 2)) = 8 \<and>
   bits_of (snd (addrAppendGone 8 2 (rankToAddr 2))) = bits_of (2 :: address) \<union> bits_of (rankToAddr 2)"
proof -
  have "is_address (rankToAddr 2)" by (simp add: is_address_rankToAddr)
  moreover have "\<not> addrIsMember (rankToAddr 2) 8" by (simp add: addrIsMember_def rankToAddr_def)
  ultimately show ?thesis using circuit_updates [of "rankToAddr 2" 7 1 8 2] by (simp only: simp_thms)
qed

section \<open>The list and the queue\<close>

text \<open>C38: whatever the sequence of appends and removals, the linked list gives the results of
  a HOL list used first in first out, and represents its content afterwards.\<close>

theorem list_is_fifo:
  assumes "lrep l xs"
  shows "\<exists>l'. run_queue listAppend listRemoveFirst calls l = Inr (fst (run_list calls xs), l') \<and>
     lrep l' (snd (run_list calls xs))"
  by (rule trl.run_refines [OF assms])

theorem list_is_fifo_witness:
  "\<exists>l'. run_queue listAppend listRemoveFirst [Put (1::nat), Put 2, Take, Put 3, Take, Take, Take] newList =
     Inr ([Some 1, Some 2, Some 3, None], l') \<and> lrep l' []"
  using list_is_fifo [OF lrep_newList, of "[Put (1::nat), Put 2, Take, Put 3, Take, Take, Take]"] by simp

text \<open>C39: emptying a list frees every cell but the last and leaves an empty list to append to;
  extending a list by another appends its values and leaves the other alone; freeing a list
  frees every cell. No cell is freed twice and the loops end.\<close>

theorem list_cells:
  assumes "lrep l xs" "lrep l2 ys"
  shows "freeList l = Inr (\<lambda>_. None) \<and> (\<exists>l'. cleanList l = Inr l' \<and> lrep l' [] \<and> card (dom (cells l')) = 1) \<and>
    (\<exists>l'. listExtend l l2 = Inr l' \<and> lrep l' (xs @ ys))"
proof -
  obtain l' where l': "cleanList l = Inr l'" "lrep l' []" by (rule lrep_cleanList [OF assms(1)])
  moreover from l'(2) have "card (dom (cells l')) = 1" by (auto simp: chain_Nil_iff elim!: lrepE)
  moreover obtain l'' where "listExtend l l2 = Inr l''" "lrep l'' (xs @ ys)" by (rule lrep_listExtend [OF assms])
  ultimately show ?thesis using lrep_freeList [OF assms(1)] by blast
qed

theorem list_cells_witness:
  "freeList (newList :: nat trList) = Inr (\<lambda>_. None) \<and>
   (\<exists>l'. cleanList (newList :: nat trList) = Inr l' \<and> lrep l' [] \<and> card (dom (cells l')) = 1) \<and>
   (\<exists>l'. listExtend (newList :: nat trList) newList = Inr l' \<and> lrep l' ([] @ []))"
  by (rule list_cells [OF lrep_newList lrep_newList])

text \<open>C37: between one thread that enqueues values, then NULL, and one that dequeues, the queue
  hands the values over in order, then NULL, and then makes the reader wait.\<close>

theorem queue_hands_over:
  assumes "brep q [] 0"
  shows "\<exists>q1 q2 q3 q4. enqueue_all bqueueEnqueue (map Some xs) q = Inr q1 \<and> bqueueEnqueue q1 None = Inr q2 \<and>
     dequeue_n bqueueDequeue (length xs) q2 = Inr (map Some xs, q3) \<and> bqueueDequeue q3 = Inr (None, q4) \<and>
     bqueueDequeue q4 = Inl Blocks"
  by (rule bq.hand_over [OF assms])

theorem queue_hands_over_witness:
  "\<exists>q1 q2 q3 q4. enqueue_all bqueueEnqueue (map Some [5::nat, 6]) newBqueue = Inr q1 \<and> bqueueEnqueue q1 None = Inr q2 \<and>
     dequeue_n bqueueDequeue 2 q2 = Inr ([Some 5, Some 6], q3) \<and> bqueueDequeue q3 = Inr (None, q4) \<and>
     bqueueDequeue q4 = Inl Blocks"
  using queue_hands_over [OF brep_newBqueue, of "[5::nat, 6]"] by (simp add: numeral_2_eq_2)

section \<open>The table of connections\<close>

text \<open>C40: a rank keeps at most two connections: a new one joins the others and is found by its
  mark unless one with that mark is in front of it, a third ends the process, a removed one
  is gone, and no other rank changes.\<close>

theorem connection_table:
  assumes "0 \<le> i" "nat i < length array"
  shows "(length (conns (array ! nat i)) < 2 \<longrightarrow> (\<exists>array'. addTComm (Some c) i array p = Inr array' \<and>
      mset (conns (array' ! nat i)) = add_mset (c, p) (mset (conns (array ! nat i))) \<and>
      (\<forall>j. j \<noteq> nat i \<longrightarrow> array' ! j = array ! j))) \<and>
    (length (conns (array ! nat i)) = 2 \<longrightarrow> addTComm (Some c) i array p = Inl (ExitFailure ''Not enough room for another tcomm'')) \<and>
    getTComm i p array = Inr (map_of (map (\<lambda>(c, q). (q, c)) (conns (array ! nat i))) p) \<and>
    (distinct (map fst (conns (array ! nat i))) \<longrightarrow> (\<exists>array'. removeTComm (Some c) i array = Inr array' \<and>
      conns (array' ! nat i) = filter (\<lambda>(d, _). d \<noteq> c) (conns (array ! nat i)) \<and> (\<forall>j. j \<noteq> nat i \<longrightarrow> array' ! j = array ! j)))"
proof (intro conjI impI)
  show "\<exists>array'. addTComm (Some c) i array p = Inr array' \<and>
      mset (conns (array' ! nat i)) = add_mset (c, p) (mset (conns (array ! nat i))) \<and>
      (\<forall>j. j \<noteq> nat i \<longrightarrow> array' ! j = array ! j)" if "length (conns (array ! nat i)) < 2"
    using addTComm_conns [OF assms that] by metis
  show "addTComm (Some c) i array p = Inl (ExitFailure ''Not enough room for another tcomm'')"
    if "length (conns (array ! nat i)) = 2" by (rule addTComm_full [OF assms that])
  show "getTComm i p array = Inr (map_of (map (\<lambda>(c, q). (q, c)) (conns (array ! nat i))) p)"
    by (rule getTComm_conns [OF assms])
  show "\<exists>array'. removeTComm (Some c) i array = Inr array' \<and>
      conns (array' ! nat i) = filter (\<lambda>(d, _). d \<noteq> c) (conns (array ! nat i)) \<and> (\<forall>j. j \<noteq> nat i \<longrightarrow> array' ! j = array ! j)"
    if "distinct (map fst (conns (array ! nat i)))"
    using removeTComm_conns [OF assms that] by metis
qed

theorem connection_table_witness:
  "(\<exists>array'. addTComm (Some 4) 2 (initAddrList NP) True = Inr array' \<and>
      mset (conns (array' ! 2)) = {#(4, True)#} \<and> (\<forall>j. j \<noteq> 2 \<longrightarrow> array' ! j = initAddrList NP ! j)) \<and>
   getTComm 2 True (initAddrList NP) = Inr None"
  using connection_table [of 2 "initAddrList NP" 4 True] by (simp add: initAddrList_def NP_def conns_def)

section \<open>Reading a socket\<close>

text \<open>C36: a full read of bytes that do come, however the reads are cut and interrupted, returns
  exactly these bytes and their number, and leaves the following bytes in the socket.\<close>

theorem full_read:
  assumes "calm (reads inb)" "\<not> aborted c" "0 < n" "n \<le> length (stream inb)" "n \<le> grants (reads inb)"
  shows "\<exists>c' inb' cnt'. commReadFully self c n inb cnt = Inr (int n, take n (stream inb), c', inb', cnt') \<and>
     \<not> aborted c' \<and> stream inb' = drop n (stream inb)"
proof -
  obtain c' inb' cnt' where "commReadFully_loop self c n [] inb cnt = Inr (take n (stream inb), c', inb', cnt')"
    "\<not> aborted c'" "stream inb' = drop n (stream inb)"
    using commReadFully_loop_complete [of inb c "[]" n self cnt] assms by auto
  then show ?thesis using assms(2,4) by (auto simp: commReadFully_def)
qed

theorem full_read_witness:
  "\<exists>c' inb' cnt'. commReadFully 0 (commAlloc 3) 3
      \<lparr>stream = [1, 2, 3, 4], reads = [(Fail EINTR, False), (Done 0, False), (Done 0, False), (Fail EINTR, False), (Done 7, False)]\<rparr> counters0 =
     Inr (3, [1, 2, 3], c', inb', cnt') \<and> \<not> aborted c' \<and> stream inb' = [4]"
  using full_read [of "\<lparr>stream = [1, 2, 3, 4], reads = [(Fail EINTR, False), (Done 0, False), (Done 0, False), (Fail EINTR, False), (Done 7, False)]\<rparr>"
      "commAlloc 3" 3 0 counters0]
  by (simp add: calm_def grants_def commAlloc_def)

section \<open>Recent trains\<close>

text \<open>C35: a train is recent when it has the id that follows the last one sent and its clock is
  ahead, modulo 256, of the clock last sent for this id by less than 128, or by 128 when its
  clock is the smaller number: the window is not symmetric.\<close>

theorem recent_window:
  assumes "0 \<le> l" "l < ntr" "ntr \<le> int (length lts)" "ntr \<le> 16"
  shows "isRecentTrain ntr st lts (word_of_int l) =
    Inr (sint (stamp_id st) = (l + 1) mod ntr \<and>
      (let old = stamp_lc (lts_stamp (lts ! nat ((l + 1) mod ntr))); d = unat (stamp_lc st - old)
       in 0 < d \<and> (d < 128 \<or> d = 128 \<and> stamp_lc st < old)))"
  using isRecentTrain_distance [OF assms refl, of st] by (simp add: lc_distance_def Let_def)

theorem recent_window_witness:
  "isRecentTrain 2 \<lparr>stamp_id = 1, stamp_lc = 3, stamp_round = 0\<rparr>
     (replicate 2 \<lparr>lts_type = TRAIN, lts_stamp = \<lparr>stamp_id = 0, stamp_lc = 250, stamp_round = 0\<rparr>, lts_circuit = 0,
        lts_w = \<lparr>p_wagon = None, p_womim = None\<rparr>, lts_wlen = 0, lts_wtosend = None\<rparr>) (word_of_int 0) = Inr True"
  using recent_window [of 0 2 "replicate 2 \<lparr>lts_type = TRAIN, lts_stamp = \<lparr>stamp_id = 0, stamp_lc = 250, stamp_round = 0\<rparr>, lts_circuit = 0,
        lts_w = \<lparr>p_wagon = None, p_womim = None\<rparr>, lts_wlen = 0, lts_wtosend = None\<rparr>" "\<lparr>stamp_id = 1, stamp_lc = 3, stamp_round = 0\<rparr>"]
  by (simp add: Let_def)

section \<open>The wire format\<close>

text \<open>C24: in a buffer that holds the encoding of a train the code reads back the length, the
  type, the stamp and the circuit, and its iterators go through the wagons, and in each wagon
  through the messages, in order, each once, and stop.\<close>

theorem train_read_back:
  assumes "holds buf 0 (enc_train st circuit ws)" "length (enc_train st circuit ws) < 2 ^ 31"
  shows "msg_len buf = Inr (c_int (length (enc_train st circuit ws))) \<and> msg_type buf = Inr TRAIN \<and>
    train_stamp buf = Inr st \<and> train_circuit buf = Inr circuit \<and>
    each_wagon buf f s = foldE f (starts 10 (map (\<lambda>w. length (enc_wagon w)) ws)) s \<and>
    (\<forall>pre wg post w. ws = pre @ wg # post \<and> w = 10 + int (length (enc_wagons pre)) \<longrightarrow>
       wagon_sender buf w = Inr (aw_sender wg) \<and> wagon_len buf w = Inr (c_int (length (enc_wagon wg))) \<and>
       each_msg buf w h s' = foldE h (starts (w + 7) (map (\<lambda>m. length (enc_msg m)) (aw_msgs wg))) s')"
proof (intro conjI allI impI)
  note h = holds_enc_train [OF assms(1)]
  show "msg_len buf = Inr (c_int (length (enc_train st circuit ws)))" using h(1) by (simp add: length_enc_train)
  show "msg_type buf = Inr TRAIN" "train_stamp buf = Inr st" "train_circuit buf = Inr circuit" by (fact h)+
  show "each_wagon buf f s = foldE f (starts 10 (map (\<lambda>w. length (enc_wagon w)) ws)) s"
    by (rule each_wagon_enc_train [OF assms])
  fix pre wg post w assume w: "ws = pre @ wg # post \<and> w = 10 + int (length (enc_wagons pre))"
  then have ws: "enc_wagons ws = enc_wagons pre @ enc_wagon wg @ enc_wagons post" by (simp add: enc_wagons_def)
  then have hw: "holds buf w (enc_wagon wg)" using h(5) w by (simp add: holds_append)
  have "length (enc_wagon wg) < 2 ^ 31" using assms(2) by (simp add: length_enc_train ws)
  then show "each_msg buf w h s' = foldE h (starts (w + 7) (map (\<lambda>m. length (enc_msg m)) (aw_msgs wg))) s'"
    by (rule each_msg_enc_wagon [OF hw])
  show "wagon_sender buf w = Inr (aw_sender wg)" "wagon_len buf w = Inr (c_int (length (enc_wagon wg)))"
    using holds_enc_wagon [OF hw] by (simp_all add: length_enc_wagon)
qed

theorem train_read_back_witness:
  "each_wagon (enc_train \<lparr>stamp_id = 0, stamp_lc = 1, stamp_round = 2\<rparr> 3
      [\<lparr>aw_sender = 1, aw_round = 2, aw_msgs = [\<lparr>am_typ = 0, am_payload = [9]\<rparr>]\<rparr>, \<lparr>aw_sender = 2, aw_round = 2, aw_msgs = []\<rparr>])
     (\<lambda>w xs. Inr (xs @ [w])) [] = Inr [10, 23]"
  using train_read_back [of "enc_train \<lparr>stamp_id = 0, stamp_lc = 1, stamp_round = 2\<rparr> 3
      [\<lparr>aw_sender = 1, aw_round = 2, aw_msgs = [\<lparr>am_typ = 0, am_payload = [9]\<rparr>]\<rparr>, \<lparr>aw_sender = 2, aw_round = 2, aw_msgs = []\<rparr>]"
      "\<lparr>stamp_id = 0, stamp_lc = 1, stamp_round = 2\<rparr>" 3
      "[\<lparr>aw_sender = 1, aw_round = 2, aw_msgs = [\<lparr>am_typ = 0, am_payload = [9]\<rparr>]\<rparr>, \<lparr>aw_sender = 2, aw_round = 2, aw_msgs = []\<rparr>]"
      "\<lambda>w xs. Inr (xs @ [w])" "[]" "\<lambda>_ x. Inr x" "()"]
  by (simp add: holds_whole length_enc_train length_enc_wagon length_enc_msg)

end
