(* ===== verification/Globals.thy ===== *)
theory Globals
  imports AdvStruct AddrTable Comm
begin

text \<open>
  The global variables of the middleware (\<^verbatim>\<open>src/stateMachine.c\<close>, \<^verbatim>\<open>src/wagon.c\<close>,
  \<^verbatim>\<open>src/advanced_struct.c\<close>, \<^verbatim>\<open>src/management_addr.c\<close>, \<^verbatim>\<open>src/counter.c\<close>,
  \<^verbatim>\<open>src/interface.c\<close>) as one record that the handlers pass along, with a trace of what the
  process does to the outside: bytes written, connections closed, threads started, calls
  back to the application.
\<close>

datatype State =
    OFFLINE_CONNECTION_ATTEMPT
  | OFFLINE_CONFIRMATION_WAIT
  | ALONE_INSERT_WAIT
  | ALONE_CONNECTION_WAIT
  | SEVERAL
  | WAIT

record circuitView =
  cv_nmemb :: int
  cv_members :: "address list"
  cv_joined :: address
  cv_departed :: address

datatype thread = ConnectionMgt nat | AcceptMgt nat | SleepTreatment

datatype event =
    Wrote nat "byte list"
  | Closed nat
  | Spawned thread
  | CircuitChange circuitView
  | UtoDeliver address "byte list"

record globals =
  automatonState :: State
  myAddress :: address
  prec :: address
  succ :: address
  cameProc :: addressSet
  goneProc :: addressSet
  waitNb :: int
  waitNbMax :: int
  waitDefaultTime :: int
  lis :: int
  ntr :: int
  lts :: "ltsStruct list"
  unstableWagons :: "wiw trList option list list"
  wagonsToDeliver :: "wiw trBqueue option"
  wagonToSend :: "wiw option"
  wagonMaxLen :: int
  mem :: heap
  globalAddrArray :: "ADDR list"
  comms :: "nat \<Rightarrow> trComm option"
  next_comm :: nat
  commForAccept :: tcomm_ptr
  counters :: t_counters
  sem_init_done :: nat
  writes_done :: nat
  connects_done :: nat
  trace :: "event list"

text \<open>The system calls the handlers meet: the scripts of the successive writes, what the
  successive connection attempts find, the candidates for a listening socket with the
  outcome of \<^verbatim>\<open>listen\<close>, whether \<^verbatim>\<open>setsockopt(TCP_NODELAY)\<close> works, and the identity of the
  running thread.\<close>

record env =
  env_writev :: "nat \<Rightarrow> nat script"
  env_connect :: "nat \<Rightarrow> string \<Rightarrow> string \<Rightarrow> candidate list option"
  env_listen :: "string \<Rightarrow> bind_candidate list option \<times> bool"
  env_nodelay :: bool
  env_self :: nat

definition emit :: "event \<Rightarrow> globals \<Rightarrow> globals" where
  "emit e g = g\<lparr>trace := trace g @ [e]\<rparr>"

text \<open>Dereferencing a pointer variable that may still be NULL.\<close>

definition deref :: "'a option \<Rightarrow> 'a result" where
  "deref p = (case p of None \<Rightarrow> Inl MemFault | Some x \<Rightarrow> Inr x)"

lemma deref_simps [simp]: "deref None = Inl MemFault" "deref (Some x) = Inr x"
  by (simp_all add: deref_def)

definition get_unstable :: "globals \<Rightarrow> int \<Rightarrow> int \<Rightarrow> wiw trList result" where
  "get_unstable g i rnd = bindE (nthE (unstableWagons g) i) (\<lambda>row. bindE (nthE row rnd) deref)"

definition set_unstable :: "int \<Rightarrow> int \<Rightarrow> wiw trList \<Rightarrow> globals \<Rightarrow> globals result" where
  "set_unstable i rnd l g =
     bindE (nthE (unstableWagons g) i) (\<lambda>row.
     bindE (updE row rnd (Some l)) (\<lambda>row'.
     bindE (updE (unstableWagons g) i row') (\<lambda>u. Inr (g\<lparr>unstableWagons := u\<rparr>))))"

text \<open>\<^verbatim>\<open>lts[id]\<close>, read and written as a whole.\<close>

definition upd_lts :: "int \<Rightarrow> (ltsStruct \<Rightarrow> ltsStruct) \<Rightarrow> globals \<Rightarrow> globals result" where
  "upd_lts i f g =
     bindE (nthE (lts g) i) (\<lambda>l. bindE (updE (lts g) i (f l)) (\<lambda>ls. Inr (g\<lparr>lts := ls\<rparr>)))"

text \<open>The state before \<^verbatim>\<open>trInit\<close>: the initialisers of the global variables, zeros and NULLs
  elsewhere.\<close>

definition lts0 :: ltsStruct where
  "lts0 = \<lparr>lts_type = 0, lts_stamp = \<lparr>stamp_id = 0, stamp_lc = 0, stamp_round = 0\<rparr>, lts_circuit = 0,
     lts_w = \<lparr>p_wagon = None, p_womim = None\<rparr>, lts_wlen = 0, lts_wtosend = None\<rparr>"

definition NR :: int where "NR = 3"

definition globals0 :: globals where
  "globals0 = \<lparr>automatonState = OFFLINE_CONNECTION_ATTEMPT, myAddress = 0, prec = 0, succ = 0,
     cameProc = 0, goneProc = 0, waitNb = 0, waitNbMax = 10, waitDefaultTime = 2, lis = 0, ntr = 1,
     lts = replicate (nat MAX_NTR) lts0,
     unstableWagons = replicate (nat MAX_NTR) (replicate (nat NR) None),
     wagonsToDeliver = None, wagonToSend = None, wagonMaxLen = 2 ^ 15,
     mem = \<lparr>womims = (\<lambda>_. None), next_id = 0\<rparr>, globalAddrArray = [], comms = (\<lambda>_. None), next_comm = 0,
     commForAccept = None, counters = counters0, sem_init_done = 0, writes_done = 0, connects_done = 0,
     trace = []\<rparr>"

end
