(* ===== verification/AppMessage.thy ===== *)
theory AppMessage
  imports Globals
begin

text \<open>
  The application's side of the middleware: \<^verbatim>\<open>src/applicationMessage.c\<close> (allocating a
  message in the wagon under construction, uto-broadcasting it, delivering the wagons) and
  \<^verbatim>\<open>src/signalArrival.c\<close> (the messages that announce arrivals and departures). The
  functions run with \<^verbatim>\<open>mutexWagonToSend\<close> held, as in the code.
\<close>

definition AM_BROADCAST :: "8 word" where "AM_BROADCAST = 0"
definition AM_ARRIVAL :: "8 word" where "AM_ARRIVAL = 1"
definition AM_DEPARTURE :: "8 word" where "AM_DEPARTURE = 2"
definition AM_TERMINATE :: "8 word" where "AM_TERMINATE = 3"

lemmas AM_defs = AM_BROADCAST_def AM_ARRIVAL_def AM_DEPARTURE_def AM_TERMINATE_def

section \<open>Allocating and broadcasting a message\<close>

text \<open>Writing through a pointer into the wagon under construction.\<close>

definition write_wts :: "(byte list \<Rightarrow> byte list result) \<Rightarrow> globals \<Rightarrow> globals result" where
  "write_wts f g =
     bindE (deref (wagonToSend g)) (\<lambda>wts.
     bindE (deref (p_womim wts)) (\<lambda>a.
     bindE (get_womim (mem g) (Some a)) (\<lambda>w.
     bindE (f (bytes w)) (\<lambda>b. Inr (g\<lparr>mem := set_womim (mem g) a (Some (w\<lparr>bytes := b\<rparr>))\<rparr>)))))"

definition mallocWiw_g :: "int \<Rightarrow> globals \<Rightarrow> (int \<times> globals) result" where
  "mallocWiw_g payloadSize g =
     bindE (deref (wagonToSend g)) (\<lambda>wts.
     bindE (mallocWiw (wagonMaxLen g) payloadSize wts (mem g)) (\<lambda>(mp, wts', h).
       Inr (mp, g\<lparr>wagonToSend := Some wts', mem := h\<rparr>)))"

text \<open>The condition of the flow control, on unsigned longs.\<close>

definition newmsg_full :: "int \<Rightarrow> globals \<Rightarrow> bool result" where
  "newmsg_full payloadSize g =
     bindE (deref (wagonToSend g)) (\<lambda>wts.
     with_wagon (mem g) (p_wagon wts) (\<lambda>buf w.
     bindE (wagon_len buf w) (\<lambda>len.
       Inr ((scast len :: 64 word) + word_of_int sizeof_messageHeader + word_of_int payloadSize
              > word_of_int (wagonMaxLen g)
            \<and> sint len \<noteq> sizeof_wagonHeader))))"

text \<open>One turn of the loop of \<^verbatim>\<open>newmsg\<close>: the wagon is full, and the thread counts a flow
  control and waits on the condition (no message); or the message is allocated.\<close>

definition newmsg_turn :: "int \<Rightarrow> globals \<Rightarrow> (int option \<times> globals) result" where
  "newmsg_turn payloadSize g =
     bindE (newmsg_full payloadSize g) (\<lambda>full.
       if full
       then Inr (None, g\<lparr>counters := (counters g)\<lparr>flowControl := flowControl (counters g) + 1\<rparr>\<rparr>)
       else bindE (mallocWiw_g payloadSize g) (\<lambda>(mp, g').
            bindE (write_wts (\<lambda>b. wr_char b (mp + 4) AM_BROADCAST) g') (\<lambda>g''.
              Inr (Some mp, g''))))"

definition newmsg :: "int \<Rightarrow> globals \<Rightarrow> (int option \<times> globals) result" where
  "newmsg payloadSize g =
     newmsg_turn payloadSize (g\<lparr>counters := (counters g)\<lparr>newmsg_calls := newmsg_calls (counters g) + 1\<rparr>\<rparr>)"

text \<open>Handing the wagon under construction to the queue of wagons to deliver and starting a
  new one: \<^verbatim>\<open>bqueueEnqueue(wagonsToDeliver, wagonToSend); wagonToSend = newWiw();\<close>\<close>

definition deliver_wagonToSend :: "globals \<Rightarrow> globals result" where
  "deliver_wagonToSend g =
     bindE (deref (wagonsToDeliver g)) (\<lambda>q.
     bindE (bqueueEnqueue q (wagonToSend g)) (\<lambda>q'.
     bindE (newWiw (wagonMaxLen g) (myAddress g) (mem g)) (\<lambda>(wi, h).
       Inr (g\<lparr>wagonsToDeliver := Some q', wagonToSend := Some wi, mem := h\<rparr>))))"

definition utoBroadcast :: "globals \<Rightarrow> (int \<times> globals) result" where
  "utoBroadcast g =
     bindE (if automatonState g = ALONE_INSERT_WAIT then deliver_wagonToSend g else Inr g) (\<lambda>g'.
       Inr (0, g'))"

section \<open>Arrivals and departures\<close>

text \<open>\<^verbatim>\<open>for (ad = 1; ad != 0; ad <<= 1)\<close>\<close>

fun each_address :: "nat \<Rightarrow> (address \<Rightarrow> 's \<Rightarrow> 's result) \<Rightarrow> address \<Rightarrow> 's \<Rightarrow> 's result" where
  "each_address 0 f ad s = (if ad = 0 then Inr s else Inl Diverges)"
| "each_address (Suc n) f ad s =
     (if ad = 0 then Inr s else bindE (f ad s) (each_address n f (push_bit 1 ad)))"

definition signalArrivalDepartures :: "8 word \<Rightarrow> address \<Rightarrow> addressSet \<Rightarrow> globals \<Rightarrow> globals result" where
  "signalArrivalDepartures typ ad circuit g =
     bindE (deref (wagonToSend g)) (\<lambda>wts.
     bindE (with_wagon (mem g) (p_wagon wts) wagon_len) (\<lambda>len.
     bindE (if wagonMaxLen g - sint len < sizeof_payloadArrivalDeparture
            then let newWomimLen = sizeof_prefix + sint len + sizeof_messageHeader + sizeof_payloadArrivalDeparture in
                 bindE (realloc_womim (mem g) (p_womim wts) (newWomimLen - sizeof_prefix)) (\<lambda>(a, h).
                   Inr (g\<lparr>wagonToSend := Some (wts\<lparr>p_womim := Some a\<rparr>), mem := h\<rparr>))
            else Inr g) (\<lambda>g1.
     bindE (mallocWiw_g sizeof_payloadArrivalDeparture g1) (\<lambda>(mp, g2).
     bindE (write_wts (\<lambda>b. wr_char b (mp + 4) typ) g2) (\<lambda>g3.
     bindE (write_wts (\<lambda>b. wr_short b (mp + 5) ad) g3) (\<lambda>g4.
       write_wts (\<lambda>b. wr_short b (mp + 7) circuit) g4))))))"

definition signalArrival :: "address \<Rightarrow> addressSet \<Rightarrow> globals \<Rightarrow> globals result" where
  "signalArrival arrived circuit g =
     signalArrivalDepartures AM_ARRIVAL arrived (circuit OR arrived) g"

definition signalDepartures :: "addressSet \<Rightarrow> addressSet \<Rightarrow> globals \<Rightarrow> globals result" where
  "signalDepartures goneSet circuit g =
     (if goneSet \<noteq> 0
      then let circuit' = circuit AND NOT goneSet in
        each_address 16 (\<lambda>ad g'.
          if addrIsMember ad goneSet then signalArrivalDepartures AM_DEPARTURE ad circuit' g' else Inr g') 1 g
      else Inr g)"

section \<open>Delivering\<close>

text \<open>\<^verbatim>\<open>memset(cp, 0, sizeof(*cp))\<close>, then one member per bit of the circuit; writing past
  the 16 elements of \<^verbatim>\<open>cv_members\<close> would be a fault.\<close>

definition fillCv :: "addressSet \<Rightarrow> circuitView result" where
  "fillCv circuit =
     each_address 16 (\<lambda>ad cp.
       if addrIsMember ad circuit
       then bindE (updE (cv_members cp) (cv_nmemb cp) ad) (\<lambda>ms.
              Inr (cp\<lparr>cv_members := ms, cv_nmemb := cv_nmemb cp + 1\<rparr>))
       else Inr cp) 1
       \<lparr>cv_nmemb = 0, cv_members = replicate MAX_MEMB 0, cv_joined = 0, cv_departed = 0\<rparr>"

text \<open>What one message of a wagon makes \<^verbatim>\<open>utoDeliveries\<close> do: the flag that ends the thread
  and the global state. The application gets the sender and the message (header and
  payload).\<close>

definition deliver_msg :: "byte list \<Rightarrow> int \<Rightarrow> int \<Rightarrow> bool \<times> globals \<Rightarrow> (bool \<times> globals) result" where
  "deliver_msg buf w mp = (\<lambda>(terminate, g).
     bindE (message_len buf mp) (\<lambda>len.
     bindE (message_typ buf mp) (\<lambda>typ.
       let g1 = g\<lparr>counters := (counters g)\<lparr>messages_delivered := messages_delivered (counters g) + 1,
             messages_bytes_delivered := messages_bytes_delivered (counters g) +
               ((scast len :: 64 word) - word_of_int sizeof_messageHeader)\<rparr>\<rparr>
       in if typ = AM_BROADCAST
          then bindE (wagon_sender buf w) (\<lambda>sender.
                 Inr (terminate, emit (UtoDeliver sender (take (nat (sint len)) (drop (nat mp) buf))) g1))
          else if typ = AM_ARRIVAL
          then bindE (rd_short buf (mp + 7)) (\<lambda>circuit. bindE (fillCv circuit) (\<lambda>cv.
               bindE (rd_short buf (mp + 5)) (\<lambda>ad.
                 Inr (terminate, emit (CircuitChange (cv\<lparr>cv_joined := ad\<rparr>)) g1))))
          else if typ = AM_DEPARTURE
          then bindE (rd_short buf (mp + 7)) (\<lambda>circuit. bindE (fillCv circuit) (\<lambda>cv.
               bindE (rd_short buf (mp + 5)) (\<lambda>ad.
                 Inr (terminate, emit (CircuitChange (cv\<lparr>cv_departed := ad\<rparr>)) g1))))
          else if typ = AM_TERMINATE then Inr (True, g1)
          else Inr (terminate, g1))))"

text \<open>One turn of the loop of the delivering thread.\<close>

definition utoDeliveries_turn :: "bool \<Rightarrow> globals \<Rightarrow> (bool \<times> globals) result" where
  "utoDeliveries_turn terminate g =
     bindE (deref (wagonsToDeliver g)) (\<lambda>q.
     bindE (bqueueDequeue q) (\<lambda>(owi, q').
     bindE (deref owi) (\<lambda>wi.
     bindE (deref (p_wagon wi)) (\<lambda>(a, w).
     bindE (get_womim (mem g) (Some a)) (\<lambda>wo.
     bindE (each_msg (bytes wo) w (deliver_msg (bytes wo) w)
         (terminate, g\<lparr>wagonsToDeliver := Some q',
            counters := (counters g)\<lparr>wagons_delivered := wagons_delivered (counters g) + 1\<rparr>\<rparr>)) (\<lambda>(t, g1).
     bindE (freeWiw (Some wi) (mem g1)) (\<lambda>h.
       Inr (t, g1\<lparr>mem := h\<rparr>))))))))"

text \<open>The first \<open>n\<close> turns of \<^verbatim>\<open>do ... while (!terminate)\<close>.\<close>

fun utoDeliveries :: "nat \<Rightarrow> globals \<Rightarrow> (bool \<times> globals) result" where
  "utoDeliveries 0 g = Inr (False, g)"
| "utoDeliveries (Suc n) g =
     bindE (utoDeliveries_turn False g) (\<lambda>(t, g'). if t then Inr (True, g') else utoDeliveries n g')"

section \<open>The loop over the 16 addresses\<close>

lemma each_address_step:
  assumes "ad \<noteq> 0"
  shows "each_address (Suc n) f ad s = bindE (f ad s) (each_address n f (push_bit 1 ad))"
  using assms by simp

lemma each_address_from:
  "k + n = 16 \<Longrightarrow> each_address n f (push_bit k 1) s = foldE f (map (\<lambda>r. push_bit r 1) [k..<16]) s"
proof (induction n arbitrary: k s)
  case 0
  then show ?case by simp
next
  case (Suc n)
  then have k: "k < 16" "[k..<16] = k # [Suc k..<16]" by (simp_all add: upt_rec)
  have nz: "push_bit k 1 \<noteq> (0 :: address)"
    using k(1) bits_of_push_bit_1 [of k, where 'a = 16] by auto
  have nxt: "push_bit 1 (push_bit k 1) = (push_bit (Suc k) 1 :: address)"
    by (simp only: push_bit_push_bit) simp
  have "each_address n f (push_bit 1 (push_bit k 1)) = foldE f (map (\<lambda>r. push_bit r 1) [Suc k..<16])"
    unfolding nxt by (intro ext) (rule Suc.IH, use Suc.prems in simp)
  then show ?case
    unfolding each_address_step [OF nz] k(2) by simp
qed

lemma each_address_ranks:
  "each_address 16 f 1 s = foldE f (map (\<lambda>r. rankToAddr (int r)) [0..<16]) s"
  using each_address_from [of 0 16 f s] by (simp add: rankToAddr_def del: each_address.simps)

text \<open>The view of a circuit: its members in the order of the ranks.\<close>

definition members_of :: "addressSet \<Rightarrow> address list" where
  "members_of circuit = map (\<lambda>r. rankToAddr (int r)) (filter (bit circuit) [0..<16])"

definition view_of :: "addressSet \<Rightarrow> circuitView" where
  "view_of circuit = \<lparr>cv_nmemb = int (length (members_of circuit)),
     cv_members = members_of circuit @ replicate (16 - length (members_of circuit)) 0,
     cv_joined = 0, cv_departed = 0\<rparr>"

lemma length_members_of: "length (members_of circuit) \<le> 16"
  using length_filter_le [of "bit circuit" "[0..<16]"] by (simp add: members_of_def)

lemma fillCv_loop:
  assumes "k \<le> 16"
  shows "foldE (\<lambda>ad cp. if addrIsMember ad circuit
       then bindE (updE (cv_members cp) (cv_nmemb cp) ad) (\<lambda>ms.
              Inr (cp\<lparr>cv_members := ms, cv_nmemb := cv_nmemb cp + 1\<rparr>))
       else Inr cp) (map (\<lambda>r. rankToAddr (int r)) [0..<k])
       \<lparr>cv_nmemb = 0, cv_members = replicate 16 0, cv_joined = 0, cv_departed = 0\<rparr> =
     Inr (let ms = map (\<lambda>r. rankToAddr (int r)) (filter (bit circuit) [0..<k]) in
       \<lparr>cv_nmemb = int (length ms), cv_members = ms @ replicate (16 - length ms) 0,
        cv_joined = 0, cv_departed = 0\<rparr>)"
  using assms
proof (induction k)
  case 0
  then show ?case by simp
next
  case (Suc k)
  let ?ms = "map (\<lambda>r. rankToAddr (int r)) (filter (bit circuit) [0..<k])"
  have len: "length ?ms \<le> k" using length_filter_le [of "bit circuit" "[0..<k]"] by simp
  then obtain m where m: "16 - length ?ms = Suc m" using Suc.prems by (cases "16 - length ?ms") auto
  have mem: "addrIsMember (rankToAddr (int k)) circuit \<longleftrightarrow> bit circuit k"
    using Suc.prems by (subst addrIsMember_rank) auto
  show ?case
    using Suc len m
    by (auto simp: foldE_append mem Let_def list_update_append
      length_map [where f = "\<lambda>r. rankToAddr (int r)", symmetric] simp del: length_map)
qed

lemma fillCv_view: "fillCv circuit = Inr (view_of circuit)"
  unfolding fillCv_def each_address_ranks MAX_MEMB_def
  using fillCv_loop [of 16 circuit] by (simp add: view_of_def members_of_def Let_def)

section \<open>The wagon under construction\<close>

text \<open>What follows the length in the bytes of a wagon.\<close>

definition wagon_tail :: "awagon \<Rightarrow> byte list" where
  "wagon_tail wg = to_bytes 2 (aw_sender wg) @ [aw_round wg] @ enc_msgs (aw_msgs wg)"

lemma enc_wagon_tail: "enc_wagon wg = to_bytes 4 (c_int (length (enc_wagon wg))) @ wagon_tail wg"
  by (simp add: enc_wagon_def wagon_tail_def)

lemma length_wagon_tail: "length (enc_wagon wg) = 4 + length (wagon_tail wg)"
  by (subst enc_wagon_tail) simp

definition add_msg :: "amsg \<Rightarrow> awagon \<Rightarrow> awagon" where
  "add_msg m wg = wg\<lparr>aw_msgs := aw_msgs wg @ [m]\<rparr>"

lemma add_msg_simps [simp]:
  "aw_sender (add_msg m wg) = aw_sender wg" "aw_round (add_msg m wg) = aw_round wg"
  "aw_msgs (add_msg m wg) = aw_msgs wg @ [m]"
  "wagon_tail (add_msg m wg) = wagon_tail wg @ enc_msg m"
  by (simp_all add: add_msg_def wagon_tail_def enc_msgs_append)

lemma c_int_word: "word_of_int (int n) = c_int n" "c_int m + c_int n = c_int (m + n)"
  by (simp_all add: c_int_def)

lemma newWiw_ok:
  assumes "7 \<le> W"
  obtains w h' where "newWiw W my h = Inr (\<lparr>p_wagon = Some (next_id h, 0), p_womim = Some (next_id h)\<rparr>, h')"
    "womims h' = (womims h)(next_id h \<mapsto> w)" "next_id h' = Suc (next_id h)"
    "counter w = 1" "length (bytes w) = nat W"
    "holds (bytes w) 0 (enc_wagon \<lparr>aw_sender = my, aw_round = 0, aw_msgs = []\<rparr>)"
proof -
  let ?b0 = "replicate (nat W) (0 :: byte)"
  obtain b1 where b1: "wr ?b0 0 (to_bytes 4 (c_int 7)) = Inr b1" "length b1 = nat W"
    "holds b1 0 (to_bytes 4 (c_int 7))"
    using assms by (rule_tac wr_ok [of 0 "to_bytes 4 (c_int 7)" ?b0]) auto
  obtain b2 where b2: "wr b1 4 (to_bytes 2 my) = Inr b2" "length b2 = nat W" "holds b2 4 (to_bytes 2 my)"
    "\<And>o' cs. holds b1 o' cs \<Longrightarrow> o' + int (length cs) \<le> 4 \<or> 4 + int 2 \<le> o' \<Longrightarrow> holds b2 o' cs"
    using assms b1(2) by (rule_tac wr_ok [of 4 "to_bytes 2 my" b1]) auto
  obtain b3 where b3: "wr b2 6 (to_bytes 1 0) = Inr b3" "length b3 = nat W"
    "holds b3 6 (to_bytes 1 (0 :: byte))"
    "\<And>o' cs. holds b2 o' cs \<Longrightarrow> o' + int (length cs) \<le> 6 \<or> 6 + int 1 \<le> o' \<Longrightarrow> holds b3 o' cs"
    using assms b2(2) by (rule_tac wr_ok [of 6 "to_bytes 1 (0 :: byte)" b2]) auto
  have "holds b3 0 (to_bytes 4 (c_int 7))" "holds b3 4 (to_bytes 2 my)"
    using b1(3) b2(3) by (auto intro!: b2(4) b3(4))
  then have enc: "holds b3 0 (enc_wagon \<lparr>aw_sender = my, aw_round = 0, aw_msgs = []\<rparr>)"
    using b3(3) unfolding enc_wagon_def holds_append by (simp add: holds_Nil b3(2) assms) (use assms in linarith)
  show thesis
    by (rule that [of "set_womim (snd (malloc_womim h W 1)) (next_id h) (Some \<lparr>counter = 1, bytes = b3\<rparr>)"
          "\<lparr>counter = 1, bytes = b3\<rparr>"])
      (use b1(1) b2(1) b3(1,2) enc in \<open>auto simp: newWiw_def malloc_womim_def get_womim_def wr_int_def
        wr_short_def wr_char_def sizeof_wagonHeader_def c_int_def\<close>)
qed

text \<open>\<^verbatim>\<open>mallocWiw\<close> on the bytes: the header of a message of \<open>n\<close> bytes after the wagon, and the
  new length of the wagon.\<close>

lemma append_header:
  fixes wg defines "L \<equiv> length (enc_wagon wg)"
  assumes "holds b 0 (enc_wagon wg)" "L + 5 + n \<le> length b"
  obtains b1 b2 where "wr_int b (int L) (c_int (5 + n)) = Inr b1"
    "wr_int b1 0 (c_int (L + 5 + n)) = Inr b2" "length b2 = length b"
    "holds b2 0 (to_bytes 4 (c_int (L + 5 + n)))" "holds b2 4 (wagon_tail wg)"
    "holds b2 (int L) (to_bytes 4 (c_int (5 + n)))"
    "\<And>o' cs. holds b o' cs \<Longrightarrow> int L + 4 \<le> o' \<Longrightarrow> holds b2 o' cs"
proof -
  have tail: "holds b 4 (wagon_tail wg)"
    using assms(2) by (subst (asm) enc_wagon_tail) (simp add: holds_append)
  have L: "L = 4 + length (wagon_tail wg)" unfolding L_def by (rule length_wagon_tail)
  obtain b1 where b1: "wr b (int L) (to_bytes 4 (c_int (5 + n))) = Inr b1" "length b1 = length b"
    "holds b1 (int L) (to_bytes 4 (c_int (5 + n)))"
    "\<And>o' cs. holds b o' cs \<Longrightarrow> o' + int (length cs) \<le> int L \<or> int L + 4 \<le> o' \<Longrightarrow> holds b1 o' cs"
    using assms(3) by (rule_tac wr_ok [of "int L" "to_bytes 4 (c_int (5 + n))" b]) auto
  obtain b2 where b2: "wr b1 0 (to_bytes 4 (c_int (L + 5 + n))) = Inr b2" "length b2 = length b"
    "holds b2 0 (to_bytes 4 (c_int (L + 5 + n)))"
    "\<And>o' cs. holds b1 o' cs \<Longrightarrow> o' + int (length cs) \<le> 0 \<or> 4 \<le> o' \<Longrightarrow> holds b2 o' cs"
    using assms(3) b1(2) by (rule_tac wr_ok [of 0 "to_bytes 4 (c_int (L + 5 + n))" b1]) auto
  show thesis
  proof (rule that [of b1 b2])
    show "holds b2 4 (wagon_tail wg)" using tail L by (intro b2(4) b1(4)) auto
    show "holds b2 (int L) (to_bytes 4 (c_int (5 + n)))" using b1(3) L by (intro b2(4)) auto
    show "holds b2 o' cs" if "holds b o' cs" "int L + 4 \<le> o'" for o' cs
      using that by (intro b2(4) b1(4)) auto
  qed (use b1 b2 in \<open>simp_all add: wr_int_def\<close>)
qed

text \<open>The parts make a wagon with one more message.\<close>

lemma holds_add_msg:
  fixes wg defines "L \<equiv> length (enc_wagon wg)"
  assumes "holds b 0 (to_bytes 4 (c_int (L + 5 + length pl)))" "holds b 4 (wagon_tail wg)"
    "holds b (int L) (to_bytes 4 (c_int (5 + length pl)))" "holds b (int L + 4) [ty]"
    "holds b (int L + 5) pl"
  shows "holds b 0 (enc_wagon (add_msg \<lparr>am_typ = ty, am_payload = pl\<rparr> wg))"
proof -
  have L: "int L = 4 + int (length (wagon_tail wg))" unfolding L_def by (simp add: length_wagon_tail)
  have len: "length (enc_wagon (add_msg \<lparr>am_typ = ty, am_payload = pl\<rparr> wg)) = L + 5 + length pl"
    unfolding L_def by (simp add: length_wagon_tail length_enc_msg)
  have "holds b (int L) (enc_msg \<lparr>am_typ = ty, am_payload = pl\<rparr>)"
    using assms(4-6) holds_append [of b "int L + 4" "[ty]" pl]
    by (simp add: enc_msg_def holds_append add.assoc)
  then show ?thesis
    using assms(2,3) by (subst enc_wagon_tail) (simp add: len holds_append L)
qed

definition building_at :: "heap \<Rightarrow> wiw option \<Rightarrow> nat \<Rightarrow> nat \<Rightarrow> awagon \<Rightarrow> bool" where
  "building_at h wts a cap wg \<longleftrightarrow>
     wts = Some \<lparr>p_wagon = Some (a, 0), p_womim = Some a\<rparr> \<and>
     (\<exists>w. womims h a = Some w \<and> length (bytes w) = cap \<and> holds (bytes w) 0 (enc_wagon wg))"

text \<open>\<^verbatim>\<open>realloc\<close> of a buffer that one reference designates.\<close>

lemma realloc_ok:
  assumes "womims h a = Some w" "counts h (add_mset a refs)" "a \<notin># refs" "0 \<le> m"
  obtains a' h' w' where "realloc_womim h (Some a) m = Inr (a', h')" "a' = next_id h" "a' \<noteq> a"
    "counts h' (add_mset a' refs)" "a' \<notin># refs" "womims h' a' = Some w'" "length (bytes w') = nat m"
    "\<And>o' cs. holds (bytes w) o' cs \<Longrightarrow> o' + int (length cs) \<le> m \<Longrightarrow> holds (bytes w') o' cs"
    "\<And>b. b \<in># refs \<Longrightarrow> womims h' b = womims h b"
proof -
  let ?bs = "take (nat m) (bytes w) @ replicate (nat m - length (bytes w)) 0"
  let ?h' = "h\<lparr>womims := (womims h)(a := None, next_id h \<mapsto> w\<lparr>bytes := ?bs\<rparr>), next_id := Suc (next_id h)\<rparr>"
  have fresh: "next_id h \<notin># add_mset a refs" by (rule counts_fresh [OF assms(2)])
  show thesis
  proof (rule that [of "next_id h" ?h' "w\<lparr>bytes := ?bs\<rparr>"])
    show "realloc_womim h (Some a) m = Inr (next_id h, ?h')"
      using assms(1) by (simp add: realloc_womim_def get_womim_def Let_def)
    have z: "count refs (next_id h) = 0" "count refs a = 0" "next_id h \<noteq> a"
      using fresh assms(3) by (auto simp: not_in_iff)
    have "counter w = 1"
      using assms(1,2) z unfolding counts_def by simp
    then show "counts ?h' (add_mset (next_id h) refs)"
      using assms(2) z unfolding counts_def by (auto split: if_splits)
    show "holds (bytes (w\<lparr>bytes := ?bs\<rparr>)) o' cs" if "holds (bytes w) o' cs" "o' + int (length cs) \<le> m" for o' cs
      using that assms(4) by (simp add: holds_append_buf holds_take)
  qed (use fresh assms(3) in auto)
qed

text \<open>\<^verbatim>\<open>mallocWiw\<close> makes room for a message of \<open>n\<close> bytes at the end of the wagon, whose
  offset it returns; first when the buffer has the room.\<close>

lemma mallocWiw_fit:
  fixes wg defines "L \<equiv> length (enc_wagon wg)"
  assumes "p_womim wts = Some a" "womims h a = Some w" "holds (bytes w) 0 (enc_wagon wg)"
    "L + 5 + n \<le> length (bytes w)" "int n \<le> W" "L + 5 + n < 2 ^ 31"
  obtains b where "mallocWiw W (int n) wts h =
      Inr (int L, \<lparr>p_wagon = Some (a, 0), p_womim = Some a\<rparr>, set_womim h a (Some (w\<lparr>bytes := b\<rparr>)))"
    "length b = length (bytes w)" "holds b 0 (to_bytes 4 (c_int (L + 5 + n)))" "holds b 4 (wagon_tail wg)"
    "holds b (int L) (to_bytes 4 (c_int (5 + n)))"
proof -
  have len: "wagon_len (bytes w) 0 = Inr (c_int L)"
    using holds_enc_wagon(1) [OF assms(4)] by (simp add: L_def length_enc_wagon)
  have sL: "sint (c_int L) = int L" using assms(7) by (intro sint_c_int) simp
  obtain b1 b2 where b: "wr_int (bytes w) (int L) (c_int (5 + n)) = Inr b1"
    "wr_int b1 0 (c_int (L + 5 + n)) = Inr b2" "length b2 = length (bytes w)"
    "holds b2 0 (to_bytes 4 (c_int (L + 5 + n)))" "holds b2 4 (wagon_tail wg)"
    "holds b2 (int L) (to_bytes 4 (c_int (5 + n)))"
    using append_header [OF assms(4), of n] assms(5) unfolding L_def by metis
  have words: "word_of_int (sizeof_messageHeader + int n) = c_int (5 + n)"
    "c_int L + c_int (5 + n) = c_int (L + 5 + n)"
    by (simp_all add: c_int_def sizes)
  obtain q where q: "wts = \<lparr>p_wagon = q, p_womim = Some a\<rparr>" using assms(2) by (cases wts) auto
  show thesis
  proof (rule that [of b2])
    show "mallocWiw W (int n) wts h =
        Inr (int L, \<lparr>p_wagon = Some (a, 0), p_womim = Some a\<rparr>, set_womim h a (Some (w\<lparr>bytes := b2\<rparr>)))"
      using assms(3,6) len b(1,2) words sL
      by (simp add: mallocWiw_def get_womim_def q Let_def)
  qed (use b in simp_all)
qed

text \<open>The state of the wagon under construction: its only reference is
  \<^verbatim>\<open>wagonToSend\<close>, \<open>refs\<close> are the references the rest of the program holds; \<open>cap\<close> bytes are
  allocated and hold \<open>wg\<close>.\<close>

definition building :: "globals \<Rightarrow> nat multiset \<Rightarrow> nat \<Rightarrow> awagon \<Rightarrow> bool" where
  "building g refs cap wg \<longleftrightarrow>
     (\<exists>a. building_at (mem g) (wagonToSend g) a cap wg \<and> a \<notin># refs \<and> counts (mem g) (add_mset a refs))"

lemma write_wts_ok:
  assumes "wagonToSend g = Some wts" "p_womim wts = Some a" "womims (mem g) a = Some w" "f (bytes w) = Inr b"
  shows "write_wts f g = Inr (g\<lparr>mem := set_womim (mem g) a (Some (w\<lparr>bytes := b\<rparr>))\<rparr>)"
  using assms by (simp add: write_wts_def get_womim_def)

lemma set_womim_twice [simp]: "set_womim (set_womim h a x) a y = set_womim h a y"
  by (simp add: set_womim_def)

text \<open>Writing the type and the payload of an announcement in a buffer.\<close>

lemma wr_announcement:
  assumes "0 \<le> mp" "mp + 9 \<le> int (length b)"
  obtains b1 b2 b3 where "wr_char b (mp + 4) ty = Inr b1" "wr_short b1 (mp + 5) ad = Inr b2"
    "wr_short b2 (mp + 7) c = Inr b3" "length b3 = length b"
    "holds b3 (mp + 4) [ty]" "holds b3 (mp + 5) (to_bytes 2 ad @ to_bytes 2 c)"
    "\<And>o' cs. holds b o' cs \<Longrightarrow> o' + int (length cs) \<le> mp + 4 \<Longrightarrow> holds b3 o' cs"
proof -
  have c1: "to_bytes 1 ty = [ty]" by simp
  obtain b1 where b1: "wr b (mp + 4) [ty] = Inr b1" "length b1 = length b" "holds b1 (mp + 4) [ty]"
    "\<And>o' cs. holds b o' cs \<Longrightarrow> o' + int (length cs) \<le> mp + 4 \<or> 5 + mp \<le> o' \<Longrightarrow> holds b1 o' cs"
    using assms by (rule_tac wr_ok [of "mp + 4" "[ty]" b]) auto
  obtain b2 where b2: "wr b1 (mp + 5) (to_bytes 2 ad) = Inr b2" "length b2 = length b"
    "holds b2 (mp + 5) (to_bytes 2 ad)"
    "\<And>o' cs. holds b1 o' cs \<Longrightarrow> o' + int (length cs) \<le> mp + 5 \<or> 7 + mp \<le> o' \<Longrightarrow> holds b2 o' cs"
    using assms b1(2) by (rule_tac wr_ok [of "mp + 5" "to_bytes 2 ad" b1]) auto
  obtain b3 where b3: "wr b2 (mp + 7) (to_bytes 2 c) = Inr b3" "length b3 = length b"
    "holds b3 (mp + 7) (to_bytes 2 c)"
    "\<And>o' cs. holds b2 o' cs \<Longrightarrow> o' + int (length cs) \<le> mp + 7 \<or> 9 + mp \<le> o' \<Longrightarrow> holds b3 o' cs"
    using assms b2(2) by (rule_tac wr_ok [of "mp + 7" "to_bytes 2 c" b2]) auto
  show thesis
  proof (rule that [of b1 b2 b3])
    show "wr_char b (mp + 4) ty = Inr b1" using b1(1) c1 by (simp only: wr_char_def)
    show "holds b3 (mp + 4) [ty]" using b1(3) by (intro b3(4) b2(4)) auto
    show "holds b3 (mp + 5) (to_bytes 2 ad @ to_bytes 2 c)"
      unfolding holds_append using b2(3) b3(3) by (auto simp: add.commute intro: b3(4))
    show "holds b3 o' cs" if "holds b o' cs" "o' + int (length cs) \<le> mp + 4" for o' cs
      using that by (intro b3(4) b2(4) b1(4)) auto
  qed (use b2 b3 in \<open>simp_all add: wr_short_def\<close>)
qed

definition announcement :: "8 word \<Rightarrow> address \<Rightarrow> addressSet \<Rightarrow> amsg" where
  "announcement ty ad circuit = \<lparr>am_typ = ty, am_payload = to_bytes 2 ad @ to_bytes 2 circuit\<rparr>"

text \<open>An announcement goes at the end of the wagon, which is reallocated when it is full.
  The last hypothesis is what the check of the code misses: with 4 to 8 bytes left the
  wagon is not reallocated, though header and payload take 9.\<close>

lemma signalArrivalDepartures_ok:
  fixes wg defines "L \<equiv> length (enc_wagon wg)"
  assumes "building g refs cap wg" "4 \<le> wagonMaxLen g" "L + 9 < 2 ^ 31"
    and room: "wagonMaxLen g - int L < 4 \<or> L + 9 \<le> cap"
  obtains wts h where
    "signalArrivalDepartures ty ad circuit g = Inr (g\<lparr>wagonToSend := wts, mem := h\<rparr>)"
    "building (g\<lparr>wagonToSend := wts, mem := h\<rparr>) refs
       (if wagonMaxLen g - int L < 4 then L + 9 else cap) (add_msg (announcement ty ad circuit) wg)"
    "\<And>b. b \<in># refs \<Longrightarrow> womims h b = womims (mem g) b"
proof -
  let ?W = "wagonMaxLen g" and ?cap = "if wagonMaxLen g - int L < 4 then L + 9 else cap"
  from assms(2) obtain a w where wts: "wagonToSend g = Some \<lparr>p_wagon = Some (a, 0), p_womim = Some a\<rparr>"
    and w: "womims (mem g) a = Some w" "length (bytes w) = cap" "holds (bytes w) 0 (enc_wagon wg)"
    and a: "a \<notin># refs" "counts (mem g) (add_mset a refs)"
    by (auto simp: building_def building_at_def)
  have len: "wagon_len (bytes w) 0 = Inr (c_int L)"
    using holds_enc_wagon(1) [OF w(3)] by (simp add: L_def length_enc_wagon)
  have sL: "sint (c_int L) = int L" using assms(4) by (intro sint_c_int) simp
  obtain a1 h1 w1 q where one: "counts h1 (add_mset a1 refs)" "a1 \<notin># refs" "womims h1 a1 = Some w1"
    "length (bytes w1) = ?cap" "holds (bytes w1) 0 (enc_wagon wg)"
    "\<And>b. b \<in># refs \<Longrightarrow> womims h1 b = womims (mem g) b"
    and step: "signalArrivalDepartures ty ad circuit g =
      bindE (mallocWiw_g 4 (g\<lparr>wagonToSend := Some \<lparr>p_wagon = q, p_womim = Some a1\<rparr>, mem := h1\<rparr>)) (\<lambda>(mp, g2).
      bindE (write_wts (\<lambda>b. wr_char b (mp + 4) ty) g2) (\<lambda>g3.
      bindE (write_wts (\<lambda>b. wr_short b (mp + 5) ad) g3) (\<lambda>g4.
        write_wts (\<lambda>b. wr_short b (mp + 7) circuit) g4)))"
  proof (cases "?W - int L < 4")
    case True
    obtain a' h' w' where r: "realloc_womim (mem g) (Some a) (int L + 9) = Inr (a', h')"
      "counts h' (add_mset a' refs)" "a' \<notin># refs" "womims h' a' = Some w'" "length (bytes w') = nat (int L + 9)"
      "\<And>o' cs. holds (bytes w) o' cs \<Longrightarrow> o' + int (length cs) \<le> int L + 9 \<Longrightarrow> holds (bytes w') o' cs"
      "\<And>b. b \<in># refs \<Longrightarrow> womims h' b = womims (mem g) b"
      by (rule realloc_ok [OF w(1) a(2,1), of "int L + 9"]) simp_all
    have "holds (bytes w') 0 (enc_wagon wg)"
      using w(3) by (intro r(6)) (simp_all add: L_def)
    moreover have "realloc_womim (mem g) (Some a) (9 + int L) = Inr (a', h')"
      using r(1) by (simp add: add.commute)
    ultimately show thesis
      using True r(5) w len sL
      by (intro that [of h' a' w' "Some (a, 0)"] r(2-4,7))
        (simp_all add: signalArrivalDepartures_def with_wagon_def get_womim_def wts Let_def sizes
          nat_add_distrib)
  next
    case False
    have same: "g\<lparr>wagonToSend := Some \<lparr>p_wagon = Some (a, 0), p_womim = Some a\<rparr>\<rparr> = g"
      by (simp flip: wts)
    then show thesis
      using False w len sL
      by (intro that [of "mem g" a w "Some (a, 0)"] a)
        (simp_all add: signalArrivalDepartures_def with_wagon_def get_womim_def wts Let_def sizes same)
  qed
  have "L + 5 + 4 \<le> length (bytes w1)" using room one(4) by (auto split: if_splits)
  then obtain b where b: "mallocWiw ?W (int 4) \<lparr>p_wagon = q, p_womim = Some a1\<rparr> h1 =
      Inr (int L, \<lparr>p_wagon = Some (a1, 0), p_womim = Some a1\<rparr>, set_womim h1 a1 (Some (w1\<lparr>bytes := b\<rparr>)))"
    "length b = length (bytes w1)" "holds b 0 (to_bytes 4 (c_int (L + 5 + 4)))" "holds b 4 (wagon_tail wg)"
    "holds b (int L) (to_bytes 4 (c_int (5 + 4)))"
    using mallocWiw_fit [of "\<lparr>p_wagon = q, p_womim = Some a1\<rparr>" a1 h1 w1 wg 4 ?W] one assms(3,4)
    unfolding L_def by auto
  obtain b1 b2 b3 where x: "wr_char b (int L + 4) ty = Inr b1" "wr_short b1 (int L + 5) ad = Inr b2"
    "wr_short b2 (int L + 7) circuit = Inr b3" "length b3 = length b"
    "holds b3 (int L + 4) [ty]" "holds b3 (int L + 5) (to_bytes 2 ad @ to_bytes 2 circuit)"
    "\<And>o' cs. holds b o' cs \<Longrightarrow> o' + int (length cs) \<le> int L + 4 \<Longrightarrow> holds b3 o' cs"
    using \<open>L + 5 + 4 \<le> length (bytes w1)\<close> b(2)
    by (rule_tac wr_announcement [of "int L" b ty ad circuit]) auto
  let ?wts = "Some \<lparr>p_wagon = Some (a1, 0), p_womim = Some a1\<rparr>"
    and ?h = "set_womim h1 a1 (Some (w1\<lparr>bytes := b3\<rparr>))"
  have L4: "L = 4 + length (wagon_tail wg)" unfolding L_def by (rule length_wagon_tail)
  have "holds b3 0 (enc_wagon (add_msg (announcement ty ad circuit) wg))"
    unfolding announcement_def
  proof (rule holds_add_msg)
    show "holds b3 0 (to_bytes 4 (c_int (length (enc_wagon wg) + 5 + length (to_bytes 2 ad @ to_bytes 2 circuit))))"
      using x(7) [OF b(3)] by (simp add: L_def)
    show "holds b3 4 (wagon_tail wg)" using L4 by (intro x(7) b(4)) simp
    show "holds b3 (int (length (enc_wagon wg))) (to_bytes 4 (c_int (5 + length (to_bytes 2 ad @ to_bytes 2 circuit))))"
      using x(7) [OF b(5)] by (simp add: L_def)
  qed (use x(5,6) in \<open>simp_all add: L_def\<close>)
  moreover have "counts ?h (add_mset a1 refs)"
    by (rule counts_update [OF one(1,3)]) simp
  moreover have "signalArrivalDepartures ty ad circuit g = Inr (g\<lparr>wagonToSend := ?wts, mem := ?h\<rparr>)"
    using b(1) x(1-3) by (simp add: step mallocWiw_g_def write_wts_def)
  ultimately show thesis
    using one x(4) b(2) by (intro that [where wts = ?wts and h = ?h]) (auto simp: building_def building_at_def)
qed

lemma foldE_filter: "foldE (\<lambda>x s. if P x then f x s else Inr s) xs s = foldE f (filter P xs) s"
  by (induction xs arbitrary: s) (auto simp: bindE_def split: sum.splits)

text \<open>Room for \<open>n\<close> announcements in a wagon of length \<open>L\<close>: each finds either 9 bytes left, or
  less than 4.\<close>

definition announce_room :: "int \<Rightarrow> nat \<Rightarrow> nat \<Rightarrow> bool" where
  "announce_room W L n = list_all (\<lambda>k. W - int (L + 9 * k) < 4 \<or> int (L + 9 * k) + 9 \<le> W) [0..<n]"

lemma announce_room_iff:
  "announce_room W L n \<longleftrightarrow> (\<forall>k<n. W - int (L + 9 * k) < 4 \<or> int (L + 9 * k) + 9 \<le> W)"
  unfolding announce_room_def list_all_iff by auto

lemma announce_room_Suc:
  "announce_room W L (Suc n) \<longleftrightarrow> (W - int L < 4 \<or> int L + 9 \<le> W) \<and> announce_room W (L + 9) n"
proof -
  have "L + 9 + 9 * k = L + 9 * Suc k" for k by simp
  then show ?thesis unfolding announce_room_iff All_less_Suc2 by simp
qed

definition add_announcements :: "8 word \<Rightarrow> addressSet \<Rightarrow> address list \<Rightarrow> awagon \<Rightarrow> awagon" where
  "add_announcements ty circuit ads wg = wg\<lparr>aw_msgs := aw_msgs wg @ map (\<lambda>ad. announcement ty ad circuit) ads\<rparr>"

lemma add_announcements_simps:
  "add_announcements ty c [] wg = wg"
  "add_announcements ty c (ad # ads) wg = add_announcements ty c ads (add_msg (announcement ty ad c) wg)"
  by (simp_all add: add_announcements_def add_msg_def)

lemma length_add_announcement: "length (enc_wagon (add_msg (announcement ty ad c) wg)) = length (enc_wagon wg) + 9"
  by (simp add: length_wagon_tail length_enc_msg announcement_def)

lemma announcements_ok:
  assumes "building g refs cap wg" "wagonMaxLen g \<le> int cap" "4 \<le> wagonMaxLen g"
    "announce_room (wagonMaxLen g) (length (enc_wagon wg)) (length ads)"
    "length (enc_wagon wg) + 9 * length ads < 2 ^ 31"
  shows "\<exists>wts h cap'. foldE (\<lambda>ad. signalArrivalDepartures ty ad c) ads g = Inr (g\<lparr>wagonToSend := wts, mem := h\<rparr>) \<and>
    building (g\<lparr>wagonToSend := wts, mem := h\<rparr>) refs cap' (add_announcements ty c ads wg) \<and>
    wagonMaxLen g \<le> int cap' \<and> (\<forall>b \<in># refs. womims h b = womims (mem g) b)"
  using assms
proof (induction ads arbitrary: g cap wg)
  case Nil
  then show ?case
    by (intro exI [of _ "wagonToSend g"] exI [of _ "mem g"] exI [of _ cap])
      (simp add: add_announcements_simps)
next
  case (Cons ad ads)
  let ?L = "length (enc_wagon wg)" and ?wg = "add_msg (announcement ty ad c) wg"
  have room: "wagonMaxLen g - int ?L < 4 \<or> int ?L + 9 \<le> wagonMaxLen g"
    "announce_room (wagonMaxLen g) (?L + 9) (length ads)"
    using Cons.prems(4) by (simp_all add: announce_room_Suc)
  let ?cap = "if wagonMaxLen g - int ?L < 4 then ?L + 9 else cap"
  obtain wts h where one: "signalArrivalDepartures ty ad c g = Inr (g\<lparr>wagonToSend := wts, mem := h\<rparr>)"
    "building (g\<lparr>wagonToSend := wts, mem := h\<rparr>) refs ?cap ?wg"
    "\<And>b. b \<in># refs \<Longrightarrow> womims h b = womims (mem g) b"
  proof (rule signalArrivalDepartures_ok [OF Cons.prems(1,3)])
    show "?L + 9 < 2 ^ 31" using Cons.prems(5) by simp
    show "wagonMaxLen g - int ?L < 4 \<or> ?L + 9 \<le> cap" using room(1) Cons.prems(2) by linarith
  qed (rule that)
  let ?g = "g\<lparr>wagonToSend := wts, mem := h\<rparr>"
  have "\<exists>wts' h' cap'. foldE (\<lambda>ad. signalArrivalDepartures ty ad c) ads ?g = Inr (?g\<lparr>wagonToSend := wts', mem := h'\<rparr>) \<and>
    building (?g\<lparr>wagonToSend := wts', mem := h'\<rparr>) refs cap' (add_announcements ty c ads ?wg) \<and>
    wagonMaxLen ?g \<le> int cap' \<and> (\<forall>b \<in># refs. womims h' b = womims (mem ?g) b)"
  proof (rule Cons.IH [OF one(2)])
    show "wagonMaxLen ?g \<le> int ?cap" using Cons.prems(2) by simp
    show "4 \<le> wagonMaxLen ?g" using Cons.prems(3) by simp
    show "announce_room (wagonMaxLen ?g) (length (enc_wagon ?wg)) (length ads)"
      using room(2) by (simp add: length_add_announcement)
    show "length (enc_wagon ?wg) + 9 * length ads < 2 ^ 31"
      using Cons.prems(5) by (simp add: length_add_announcement)
  qed
  then obtain wts' h' cap' where
    "foldE (\<lambda>ad. signalArrivalDepartures ty ad c) ads ?g = Inr (?g\<lparr>wagonToSend := wts', mem := h'\<rparr>)"
    "building (?g\<lparr>wagonToSend := wts', mem := h'\<rparr>) refs cap' (add_announcements ty c ads ?wg)"
    "wagonMaxLen ?g \<le> int cap'" "\<forall>b \<in># refs. womims h' b = womims h b"
    by auto
  with one(1,3) show ?case
    by (intro exI [of _ wts'] exI [of _ h'] exI [of _ cap']) (simp add: add_announcements_simps)
qed

lemma filter_members: "filter (\<lambda>ad. addrIsMember ad s) (map (\<lambda>r. rankToAddr (int r)) [0..<16]) = members_of s"
proof -
  have "filter ((\<lambda>ad. addrIsMember ad s) \<circ> (\<lambda>r. rankToAddr (int r))) [0..<16] = filter (bit s) [0..<16]"
    by (rule filter_cong) (auto simp: addrIsMember_rank)
  then show ?thesis by (simp add: members_of_def filter_map)
qed

lemma signalDepartures_fold:
  "signalDepartures goneSet circuit g =
     foldE (\<lambda>ad. signalArrivalDepartures AM_DEPARTURE ad (circuit AND NOT goneSet)) (members_of goneSet) g"
proof (cases "goneSet = 0")
  case True
  then show ?thesis by (simp add: signalDepartures_def members_of_def)
next
  case False
  then show ?thesis
    unfolding signalDepartures_def Let_def each_address_ranks foldE_filter filter_members by simp
qed

section \<open>Allocating a message\<close>

lemma mallocWiw_ok:
  fixes wg defines "L \<equiv> length (enc_wagon wg)"
  assumes "building_at h (Some wts) a cap wg" "counts h (add_mset a refs)" "a \<notin># refs"
    and fits: "L + 5 + n \<le> cap \<or> W < int n" and small: "L + 5 + n < 2 ^ 31"
  obtains a' h' w' where "mallocWiw W (int n) wts h = Inr (int L, \<lparr>p_wagon = Some (a', 0), p_womim = Some a'\<rparr>, h')"
    "counts h' (add_mset a' refs)" "a' \<notin># refs" "womims h' a' = Some w'"
    "length (bytes w') = (if W < int n then L + 5 + n else cap)"
    "holds (bytes w') 0 (to_bytes 4 (c_int (L + 5 + n)))" "holds (bytes w') 4 (wagon_tail wg)"
    "holds (bytes w') (int L) (to_bytes 4 (c_int (5 + n)))"
    "\<And>b. b \<in># refs \<Longrightarrow> womims h' b = womims h b"
proof -
  from assms(2) obtain w where wts: "wts = \<lparr>p_wagon = Some (a, 0), p_womim = Some a\<rparr>"
    and w: "womims h a = Some w" "length (bytes w) = cap" "holds (bytes w) 0 (enc_wagon wg)"
    by (auto simp: building_at_def)
  have len: "wagon_len (bytes w) 0 = Inr (c_int L)"
    using holds_enc_wagon(1) [OF w(3)] by (simp add: L_def length_enc_wagon)
  have sL: "sint (c_int L) = int L" using small by (intro sint_c_int) simp
  obtain a1 h1 w1 where one: "counts h1 (add_mset a1 refs)" "a1 \<notin># refs" "womims h1 a1 = Some w1"
    "length (bytes w1) = (if W < int n then L + 5 + n else cap)" "holds (bytes w1) 0 (enc_wagon wg)"
    "\<And>b. b \<in># refs \<Longrightarrow> womims h1 b = womims h b"
    and step: "mallocWiw W (int n) wts h = mallocWiw (int n) (int n) (wts\<lparr>p_womim := Some a1\<rparr>) h1"
  proof (cases "W < int n")
    case True
    obtain a' h' w' where r: "realloc_womim h (Some a) (int L + (5 + int n)) = Inr (a', h')"
      "counts h' (add_mset a' refs)" "a' \<notin># refs" "womims h' a' = Some w'"
      "length (bytes w') = nat (int L + (5 + int n))"
      "\<And>o' cs. holds (bytes w) o' cs \<Longrightarrow> o' + int (length cs) \<le> int L + (5 + int n) \<Longrightarrow> holds (bytes w') o' cs"
      "\<And>b. b \<in># refs \<Longrightarrow> womims h' b = womims h b"
      by (rule realloc_ok [OF w(1) assms(3,4), of "int L + (5 + int n)"]) simp_all
    have "holds (bytes w') 0 (enc_wagon wg)"
      using w(3) by (intro r(6)) (simp_all add: L_def)
    moreover have "length (bytes w') = L + 5 + n" using r(5) by simp
    ultimately show thesis
      using True r(1) w len sL
      by (intro that [of h' a' w'] r(2-4,7))
        (simp_all add: mallocWiw_def with_wagon_def get_womim_def wts Let_def sizes)
  next
    case False
    then show thesis
      by (intro that [of h a w] assms w) (simp_all add: w mallocWiw_def wts)
  qed
  have "L + 5 + n \<le> length (bytes w1)" using fits one(4) by (auto split: if_splits)
  then obtain b where b: "mallocWiw (int n) (int n) (wts\<lparr>p_womim := Some a1\<rparr>) h1 =
      Inr (int L, \<lparr>p_wagon = Some (a1, 0), p_womim = Some a1\<rparr>, set_womim h1 a1 (Some (w1\<lparr>bytes := b\<rparr>)))"
    "length b = length (bytes w1)" "holds b 0 (to_bytes 4 (c_int (L + 5 + n)))" "holds b 4 (wagon_tail wg)"
    "holds b (int L) (to_bytes 4 (c_int (5 + n)))"
    using mallocWiw_fit [of "wts\<lparr>p_womim := Some a1\<rparr>" a1 h1 w1 wg n "int n"] one small
    unfolding L_def by auto
  show thesis
  proof (rule that [of a1 "set_womim h1 a1 (Some (w1\<lparr>bytes := b\<rparr>))" "w1\<lparr>bytes := b\<rparr>"])
    show "counts (set_womim h1 a1 (Some (w1\<lparr>bytes := b\<rparr>))) (add_mset a1 refs)"
      by (rule counts_update [OF one(1,3)]) simp
  qed (use one b step in auto)
qed

lemma uint_flow:
  assumes "l < 2 ^ 31" "n < 2 ^ 31" "0 \<le> W" "W < 2 ^ 31"
  shows "(scast (c_int l) :: 64 word) + word_of_int 5 + word_of_int (int n) > word_of_int W \<longleftrightarrow> W < int (l + 5 + n)"
proof -
  have "(scast (c_int l) :: 64 word) = word_of_int (int l)"
    using uint_scast_c_int [OF assms(1)] by (metis word_of_int_uint)
  then have "(scast (c_int l) :: 64 word) + word_of_int 5 + word_of_int (int n) = word_of_int (int l + 5 + int n)"
    by simp
  moreover have "uint (word_of_int (int l + 5 + int n) :: 64 word) = int l + 5 + int n" "uint (word_of_int W :: 64 word) = W"
    using assms by (intro uint_64; simp)+
  ultimately show ?thesis by (simp only: word_less_def of_nat_add) simp
qed

lemma newmsg_full_iff:
  assumes "building g refs cap wg" "length (enc_wagon wg) < 2 ^ 31" "n < 2 ^ 31"
    "0 \<le> wagonMaxLen g" "wagonMaxLen g < 2 ^ 31"
  shows "newmsg_full (int n) g = Inr (wagonMaxLen g < int (length (enc_wagon wg) + 5 + n) \<and> aw_msgs wg \<noteq> [])"
proof -
  from assms(1) obtain a w where wts: "wagonToSend g = Some \<lparr>p_wagon = Some (a, 0), p_womim = Some a\<rparr>"
    and w: "womims (mem g) a = Some w" "holds (bytes w) 0 (enc_wagon wg)"
    by (auto simp: building_def building_at_def)
  have len: "wagon_len (bytes w) 0 = Inr (c_int (length (enc_wagon wg)))"
    using holds_enc_wagon(1) [OF w(2)] by (simp add: length_enc_wagon)
  have "sint (c_int (length (enc_wagon wg))) \<noteq> 7 \<longleftrightarrow> aw_msgs wg \<noteq> []"
    using sint_c_int [OF assms(2)] by (cases "aw_msgs wg") (auto simp: length_enc_wagon length_enc_msg)
  then show ?thesis
    using len uint_flow [OF assms(2,3,4,5)] w wts
    by (simp add: newmsg_full_def with_wagon_def get_womim_def sizes)
qed

text \<open>A wagon that has no room left for the message, and already has one: the thread waits.\<close>

lemma newmsg_waits:
  assumes "building g refs cap wg" "length (enc_wagon wg) < 2 ^ 31" "n < 2 ^ 31"
    "0 \<le> wagonMaxLen g" "wagonMaxLen g < 2 ^ 31"
    "wagonMaxLen g < int (length (enc_wagon wg) + 5 + n)" "aw_msgs wg \<noteq> []"
  shows "newmsg (int n) g = Inr (None, g\<lparr>counters := (counters g)\<lparr>newmsg_calls := newmsg_calls (counters g) + 1,
     flowControl := flowControl (counters g) + 1\<rparr>\<rparr>)"
proof -
  let ?g = "g\<lparr>counters := (counters g)\<lparr>newmsg_calls := newmsg_calls (counters g) + 1\<rparr>\<rparr>"
  have "building ?g refs cap wg" using assms(1) by (simp add: building_def)
  then show ?thesis
    using newmsg_full_iff [of ?g refs cap wg n] assms(2-) by (simp add: newmsg_def newmsg_turn_def)
qed

text \<open>A wagon that can hold the message: \<^verbatim>\<open>newmsg\<close> returns its offset, and once the
  application has written the payload through it the wagon ends with this message. \<open>W < n\<close>
  is the case where the buffer is reallocated.\<close>

lemma newmsg_ok:
  fixes wg defines "L \<equiv> length (enc_wagon wg)"
  assumes "building g refs cap wg" "0 \<le> wagonMaxLen g" "wagonMaxLen g < 2 ^ 31"
    and "int (L + 5 + n) \<le> wagonMaxLen g \<or> aw_msgs wg = []"
    and fits: "L + 5 + n \<le> cap \<or> wagonMaxLen g < int n" and small: "L + 5 + n < 2 ^ 31"
  obtains g' a where "newmsg (int n) g = Inr (Some (int L), g')"
    "g' = g\<lparr>counters := (counters g)\<lparr>newmsg_calls := newmsg_calls (counters g) + 1\<rparr>,
       wagonToSend := Some \<lparr>p_wagon = Some (a, 0), p_womim = Some a\<rparr>, mem := mem g'\<rparr>"
    "\<And>pl. length pl = n \<Longrightarrow> \<exists>h. write_wts (\<lambda>b. wr b (int L + 5) pl) g' = Inr (g'\<lparr>mem := h\<rparr>) \<and>
       building (g'\<lparr>mem := h\<rparr>) refs (if wagonMaxLen g < int n then L + 5 + n else cap)
         (add_msg \<lparr>am_typ = AM_BROADCAST, am_payload = pl\<rparr> wg) \<and>
       (\<forall>b \<in># refs. womims h b = womims (mem g) b)"
proof -
  let ?W = "wagonMaxLen g"
  let ?g = "g\<lparr>counters := (counters g)\<lparr>newmsg_calls := newmsg_calls (counters g) + 1\<rparr>\<rparr>"
  let ?cap = "if ?W < int n then L + 5 + n else cap"
  obtain a wts where a: "building_at (mem g) (Some wts) a cap wg" "counts (mem g) (add_mset a refs)" "a \<notin># refs"
    and wts: "wagonToSend g = Some wts"
    using assms(2) by (auto simp: building_def building_at_def)
  have "building ?g refs cap wg" using assms(2) by (simp add: building_def)
  then have "newmsg_full (int n) ?g = Inr (?W < int (L + 5 + n) \<and> aw_msgs wg \<noteq> [])"
    using newmsg_full_iff [of ?g refs cap wg n] assms(3,4) small by (simp add: L_def)
  then have full: "newmsg_full (int n) ?g = Inr False" using assms(5) by auto
  obtain a' h' w' where m: "mallocWiw ?W (int n) wts (mem g) = Inr (int L, \<lparr>p_wagon = Some (a', 0), p_womim = Some a'\<rparr>, h')"
    "counts h' (add_mset a' refs)" "a' \<notin># refs" "womims h' a' = Some w'" "length (bytes w') = ?cap"
    "holds (bytes w') 0 (to_bytes 4 (c_int (L + 5 + n)))" "holds (bytes w') 4 (wagon_tail wg)"
    "holds (bytes w') (int L) (to_bytes 4 (c_int (5 + n)))"
    "\<And>b. b \<in># refs \<Longrightarrow> womims h' b = womims (mem g) b"
    using mallocWiw_ok [OF a, of n ?W] fits small unfolding L_def by metis
  have room: "L + 5 + n \<le> length (bytes w')" using fits m(5) by (auto split: if_splits)
  have L4: "L = 4 + length (wagon_tail wg)" unfolding L_def by (rule length_wagon_tail)
  obtain b where b: "wr (bytes w') (int L + 4) [AM_BROADCAST] = Inr b" "length b = length (bytes w')"
    "holds b (int L + 4) [AM_BROADCAST]"
    "\<And>o' cs. holds (bytes w') o' cs \<Longrightarrow> o' + int (length cs) \<le> int L + 4 \<or> 5 + int L \<le> o' \<Longrightarrow> holds b o' cs"
    using room by (rule_tac wr_ok [of "int L + 4" "[AM_BROADCAST]" "bytes w'"]) auto
  let ?wts = "Some \<lparr>p_wagon = Some (a', 0), p_womim = Some a'\<rparr>"
  let ?h = "set_womim h' a' (Some (w'\<lparr>bytes := b\<rparr>))"
  let ?g' = "?g\<lparr>wagonToSend := ?wts, mem := ?h\<rparr>"
  show thesis
  proof (rule that [of ?g' a'])
    have "wr_char (bytes w') (int L + 4) AM_BROADCAST = Inr b"
      using b(1) by (simp add: wr_char_def)
    then show "newmsg (int n) g = Inr (Some (int L), ?g')"
      using full m(1,4) wts
      by (simp add: newmsg_def newmsg_turn_def mallocWiw_g_def write_wts_def get_womim_def)
    show "\<exists>h. write_wts (\<lambda>b. wr b (int L + 5) pl) ?g' = Inr (?g'\<lparr>mem := h\<rparr>) \<and>
       building (?g'\<lparr>mem := h\<rparr>) refs ?cap (add_msg \<lparr>am_typ = AM_BROADCAST, am_payload = pl\<rparr> wg) \<and>
       (\<forall>b \<in># refs. womims h b = womims (mem g) b)" if pl: "length pl = n" for pl
    proof -
      obtain c where c: "wr b (int L + 5) pl = Inr c" "length c = length b" "holds c (int L + 5) pl"
        "\<And>o' cs. holds b o' cs \<Longrightarrow> o' + int (length cs) \<le> int L + 5 \<or> int L + 5 + int (length pl) \<le> o' \<Longrightarrow> holds c o' cs"
        using room b(2) pl by (rule_tac wr_ok [of "int L + 5" pl b]) auto
      have "holds c 0 (enc_wagon (add_msg \<lparr>am_typ = AM_BROADCAST, am_payload = pl\<rparr> wg))"
      proof (rule holds_add_msg)
        show "holds c 0 (to_bytes 4 (c_int (length (enc_wagon wg) + 5 + length pl)))"
          using m(6) pl by (intro c(4) b(4)) (simp_all add: L_def)
        show "holds c 4 (wagon_tail wg)"
          using m(7) L4 by (intro c(4) b(4)) simp_all
        show "holds c (int (length (enc_wagon wg))) (to_bytes 4 (c_int (5 + length pl)))"
          using m(8) pl by (intro c(4) b(4)) (simp_all add: L_def)
        show "holds c (int (length (enc_wagon wg)) + 4) [AM_BROADCAST]"
          using b(3) by (intro c(4)) (simp_all add: L_def)
        show "holds c (int (length (enc_wagon wg)) + 5) pl" using c(3) by (simp add: L_def)
      qed
      moreover have "counts (set_womim h' a' (Some (w'\<lparr>bytes := c\<rparr>))) (add_mset a' refs)"
        by (rule counts_update [OF m(2,4)]) simp
      ultimately show ?thesis
        using m(3,5,9) b(2) c(1,2)
        by (intro exI [of _ "set_womim h' a' (Some (w'\<lparr>bytes := c\<rparr>))"])
          (auto simp: write_wts_def get_womim_def building_def building_at_def)
    qed
  qed simp
qed

text \<open>What the test \<^verbatim>\<open>payloadSize > wagonMaxLen\<close> misses: it ignores the 12 bytes of the two
  headers. In an empty wagon of \<^verbatim>\<open>wagonMaxLen\<close> bytes, \<^verbatim>\<open>newmsg\<close> gives the application a
  message that ends after the buffer: writing its last byte is a fault.\<close>

lemma newmsg_overflow:
  assumes "building g refs cap wg" "wagonMaxLen g = int cap" "cap < 2 ^ 30" "aw_msgs wg = []"
    "n \<le> cap" "cap < n + 12" "12 \<le> cap"
  shows "\<exists>g'. newmsg (int n) g = Inr (Some 7, g') \<and> write_wts (\<lambda>b. wr b (7 + 5 + int n - 1) [x]) g' = Inl MemFault"
proof -
  let ?g = "g\<lparr>counters := (counters g)\<lparr>newmsg_calls := newmsg_calls (counters g) + 1\<rparr>\<rparr>"
  have L: "length (enc_wagon wg) = 7" using assms(4) by (simp add: length_enc_wagon)
  have full: "newmsg_full (int n) ?g = Inr False"
    using newmsg_full_iff [of ?g refs cap wg n] assms L by (simp add: building_def)
  obtain a w where wts: "wagonToSend g = Some \<lparr>p_wagon = Some (a, 0), p_womim = Some a\<rparr>"
    and w: "womims (mem g) a = Some w" "length (bytes w) = cap" "holds (bytes w) 0 (enc_wagon wg)"
    using assms(1) by (auto simp: building_def building_at_def)
  have len: "wagon_len (bytes w) 0 = Inr (c_int 7)" "sint (c_int 7) = 7"
    using holds_enc_wagon(1) [OF w(3)] assms(4) by (simp_all add: sint_c_int)
  obtain b1 where b1: "wr_int (bytes w) 7 (word_of_int (5 + int n)) = Inr b1" "length b1 = cap"
    using assms(7) w(2) unfolding wr_int_def
    by (rule_tac wr_ok [of 7 "to_bytes 4 (word_of_int (5 + int n) :: 32 word)" "bytes w"]) auto
  obtain b2 where b2: "wr_int b1 0 (c_int 7 + word_of_int (5 + int n)) = Inr b2" "length b2 = cap"
    using assms(7) b1(2) unfolding wr_int_def
    by (rule_tac wr_ok [of 0 "to_bytes 4 (c_int 7 + word_of_int (5 + int n) :: 32 word)" b1]) auto
  obtain b3 where b3: "wr_char b2 11 AM_BROADCAST = Inr b3" "length b3 = cap"
    using assms(7) b2(2) unfolding wr_char_def
    by (rule_tac wr_ok [of 11 "to_bytes 1 AM_BROADCAST" b2]) auto
  show ?thesis
    using full wts w(1) len b1(1) b2(1) b3 assms(2,5,6)
    by (simp add: newmsg_def newmsg_turn_def mallocWiw_g_def mallocWiw_def write_wts_def get_womim_def
        sizes Let_def wr_def)
qed

section \<open>What the application sees\<close>

text \<open>The calls back for one message, and the messages that \<^verbatim>\<open>utoDeliveries\<close> can read: the
  payload of an announcement has at least its four bytes.\<close>

definition upcalls :: "address \<Rightarrow> amsg \<Rightarrow> event list" where
  "upcalls sender m =
     (let ad = of_bytes (take 2 (am_payload m)); circuit = of_bytes (take 2 (drop 2 (am_payload m)))
      in if am_typ m = AM_BROADCAST then [UtoDeliver sender (enc_msg m)]
         else if am_typ m = AM_ARRIVAL then [CircuitChange ((view_of circuit)\<lparr>cv_joined := ad\<rparr>)]
         else if am_typ m = AM_DEPARTURE then [CircuitChange ((view_of circuit)\<lparr>cv_departed := ad\<rparr>)]
         else [])"

definition readable :: "amsg \<Rightarrow> bool" where
  "readable m \<longleftrightarrow> (am_typ m = AM_ARRIVAL \<or> am_typ m = AM_DEPARTURE \<longrightarrow> 4 \<le> length (am_payload m))"

text \<open>The effect of a message on the thread's flag and on the state.\<close>

definition delivered :: "address \<Rightarrow> amsg \<Rightarrow> bool \<times> globals \<Rightarrow> bool \<times> globals" where
  "delivered sender m = (\<lambda>(t, g).
     (t \<or> am_typ m = AM_TERMINATE,
      g\<lparr>counters := (counters g)\<lparr>messages_delivered := messages_delivered (counters g) + 1,
          messages_bytes_delivered := messages_bytes_delivered (counters g) + word_of_nat (length (am_payload m))\<rparr>,
        trace := trace g @ upcalls sender m\<rparr>))"

lemma scast_c_int: "n < 2 ^ 31 \<Longrightarrow> (scast (c_int n) :: 64 word) = word_of_nat n"
  by (metis uint_scast_c_int word_of_int_uint of_int_of_nat_eq)

lemma rd_in_payload:
  assumes "holds buf off pl" "k + 2 \<le> length pl"
  shows "rd_short buf (off + int k) = Inr (of_bytes (take 2 (drop k pl)))"
proof -
  have "pl = take k pl @ take 2 (drop k pl) @ drop (k + 2) pl"
    using append_take_drop_id [of 2 "drop k pl"] append_take_drop_id [of k pl] by (simp add: add.commute)
  with assms(1) have "holds buf off (take k pl @ take 2 (drop k pl) @ drop (k + 2) pl)" by simp
  then have "holds buf (off + int (length (take k pl))) (take 2 (drop k pl))"
    unfolding holds_append by simp
  then have "holds buf (off + int k) (take 2 (drop k pl))" using assms(2) by simp
  then show ?thesis
    using assms(2) holds_rd [of buf "off + int k" "take 2 (drop k pl)" 2] by (simp add: rd_short_def)
qed

lemma deliver_msg_delivered:
  assumes "holds buf mp (enc_msg m)" "wagon_sender buf w = Inr sender" "readable m"
    "length (enc_msg m) < 2 ^ 31"
  shows "deliver_msg buf w mp s = Inr (delivered sender m s)"
proof -
  obtain t g where s: "s = (t, g)" by (cases s)
  have small: "5 + length (am_payload m) < 2 ^ 31" using assms(4) by (simp add: length_enc_msg)
  have len: "(scast (c_int (5 + length (am_payload m))) :: 64 word) - word_of_int sizeof_messageHeader =
      word_of_nat (length (am_payload m))"
    unfolding scast_c_int [OF small] by (simp add: sizes)
  have bytes: "take (nat (sint (c_int (5 + length (am_payload m))))) (drop (nat mp) buf) = enc_msg m"
    using assms(1) small by (simp add: sint_c_int holds_iff length_enc_msg nat_add_distrib)
  have pl: "holds buf (mp + 5) (am_payload m)"
    using assms(1) unfolding enc_msg_def holds_append by (simp add: add.assoc)
  have ann: "rd_short buf (mp + 5) = Inr (of_bytes (take 2 (am_payload m)))"
    "rd_short buf (mp + 7) = Inr (of_bytes (take 2 (drop 2 (am_payload m))))"
    if "am_typ m = AM_ARRIVAL \<or> am_typ m = AM_DEPARTURE"
    using that assms(3) rd_in_payload [OF pl, of 0] rd_in_payload [OF pl, of 2]
    by (auto simp: readable_def add.commute)
  show ?thesis
    using holds_enc_msg(1,2) [OF assms(1)] assms(2) ann len bytes
    by (auto simp: deliver_msg_def delivered_def upcalls_def s emit_def fillCv_view Let_def AM_defs)
qed

lemma fold_delivered:
  "fold (delivered sender) ms (t, g) =
     (t \<or> (\<exists>m \<in> set ms. am_typ m = AM_TERMINATE),
      g\<lparr>counters := (counters g)\<lparr>messages_delivered := messages_delivered (counters g) + word_of_nat (length ms),
          messages_bytes_delivered := messages_bytes_delivered (counters g) +
            word_of_nat (sum_list (map (length \<circ> am_payload) ms))\<rparr>,
        trace := trace g @ concat (map (upcalls sender) ms)\<rparr>)"
  by (induction ms arbitrary: t g) (auto simp: delivered_def add_ac)

lemma foldE_deliver:
  assumes "list_all2 (\<lambda>o' m. holds buf o' (enc_msg m)) offs ms" "wagon_sender buf w = Inr sender"
    "\<forall>m \<in> set ms. readable m \<and> length (enc_msg m) < 2 ^ 31"
  shows "foldE (deliver_msg buf w) offs s = Inr (fold (delivered sender) ms s)"
  using assms(1,3)
  by (induction arbitrary: s rule: list_all2_induct) (simp_all add: deliver_msg_delivered [OF _ assms(2)])

lemma enc_msg_le: "m \<in> set ms \<Longrightarrow> length (enc_msg m) \<le> length (enc_msgs ms)"
  by (induction ms) auto

lemma each_msg_deliver:
  assumes "holds buf w (enc_wagon wg)" "length (enc_wagon wg) < 2 ^ 31" "\<forall>m \<in> set (aw_msgs wg). readable m"
  shows "each_msg buf w (deliver_msg buf w) s = Inr (fold (delivered (aw_sender wg)) (aw_msgs wg) s)"
proof -
  have "length (enc_msg m) < 2 ^ 31" if "m \<in> set (aw_msgs wg)" for m
    using enc_msg_le [OF that] assms(2) by (simp add: length_enc_wagon)
  then show ?thesis
    using starts_enc_holds_msgs [OF holds_enc_wagon(4) [OF assms(1)]] assms(3)
    by (simp add: each_msg_enc_wagon [OF assms(1,2)] foldE_deliver holds_enc_wagon(2) [OF assms(1)])
qed

text \<open>A reference to a wagon, and what it designates.\<close>

definition wagon_at :: "heap \<Rightarrow> wiw \<Rightarrow> awagon \<Rightarrow> bool" where
  "wagon_at h wi wg \<longleftrightarrow>
     (\<exists>a off w. wi = \<lparr>p_wagon = Some (a, off), p_womim = Some a\<rparr> \<and> womims h a = Some w \<and>
        holds (bytes w) off (enc_wagon wg)) \<and>
     length (enc_wagon wg) < 2 ^ 31 \<and> (\<forall>m \<in> set (aw_msgs wg). readable m)"

definition wagon_ref :: "wiw \<Rightarrow> nat" where
  "wagon_ref wi = the (p_womim wi)"

lemma wagon_at_mono:
  assumes "wagon_at h wi wg"
    "\<And>w. womims h (wagon_ref wi) = Some w \<Longrightarrow> \<exists>w'. womims h' (wagon_ref wi) = Some w' \<and> bytes w' = bytes w"
  shows "wagon_at h' wi wg"
proof -
  from assms(1) obtain a off w where a: "wi = \<lparr>p_wagon = Some (a, off), p_womim = Some a\<rparr>"
    "womims h a = Some w" "holds (bytes w) off (enc_wagon wg)"
    by (auto simp: wagon_at_def)
  with assms(2) [of w] obtain w' where "womims h' a = Some w'" "bytes w' = bytes w"
    by (auto simp: wagon_ref_def)
  with a assms(1) show ?thesis by (auto simp: wagon_at_def)
qed

text \<open>The queue of the delivering thread: references to wagons.\<close>

definition to_deliver :: "globals \<Rightarrow> wiw list \<Rightarrow> awagon list \<Rightarrow> bool" where
  "to_deliver g wis wgs \<longleftrightarrow>
     (\<exists>q. wagonsToDeliver g = Some q \<and> brep q wis 0) \<and> list_all2 (wagon_at (mem g)) wis wgs"

lemma utoDeliveries_turn_ok:
  assumes "to_deliver g (wi # wis) (wg # wgs)"
    "counts (mem g) (refs + mset (map wagon_ref (wi # wis)))"
  obtains q h where "utoDeliveries_turn False g = Inr (\<exists>m \<in> set (aw_msgs wg). am_typ m = AM_TERMINATE,
      g\<lparr>wagonsToDeliver := Some q, mem := h,
        counters := (counters g)\<lparr>wagons_delivered := wagons_delivered (counters g) + 1,
          messages_delivered := messages_delivered (counters g) + word_of_nat (length (aw_msgs wg)),
          messages_bytes_delivered := messages_bytes_delivered (counters g) +
            word_of_nat (sum_list (map (length \<circ> am_payload) (aw_msgs wg)))\<rparr>,
        trace := trace g @ concat (map (upcalls (aw_sender wg)) (aw_msgs wg))\<rparr>)"
    "brep q wis 0" "counts h (refs + mset (map wagon_ref wis))"
    "list_all2 (wagon_at h) wis wgs"
    "\<And>b w. b \<in># refs \<Longrightarrow> womims (mem g) b = Some w \<Longrightarrow> \<exists>w'. womims h b = Some w' \<and> bytes w' = bytes w"
proof -
  from assms(1) obtain q where q: "wagonsToDeliver g = Some q" "brep q (wi # wis) 0"
    and wg: "wagon_at (mem g) wi wg" "list_all2 (wagon_at (mem g)) wis wgs"
    by (auto simp: to_deliver_def)
  obtain q' where q': "bqueueDequeue q = Inr (Some wi, q')" "brep q' wis 0"
    using brep_dequeue_Cons [OF q(2)] by metis
  obtain a off w where wi: "wi = \<lparr>p_wagon = Some (a, off), p_womim = Some a\<rparr>"
    and w: "womims (mem g) a = Some w" "holds (bytes w) off (enc_wagon wg)"
    and ok: "length (enc_wagon wg) < 2 ^ 31" "\<forall>m \<in> set (aw_msgs wg). readable m"
    using wg(1) by (auto simp: wagon_at_def)
  let ?rest = "refs + mset (map wagon_ref wis)"
  have "counts (mem g) (add_mset a ?rest)" using assms(2) by (simp add: wagon_ref_def wi)
  then obtain h where h: "releaseWiw (Some wi) (mem g) = Inr (Some \<lparr>p_wagon = None, p_womim = None\<rparr>, h)"
    "counts h ?rest" "\<And>b w. b \<in># ?rest \<Longrightarrow> womims (mem g) b = Some w \<Longrightarrow> \<exists>w'. womims h b = Some w' \<and> bytes w' = bytes w"
    unfolding wi using releaseWiw_counts by metis
  have kept: "wagon_at h wi' wg'" if "wi' \<in> set wis" "wagon_at (mem g) wi' wg'" for wi' wg'
    by (rule wagon_at_mono [OF that(2) h(3)]) (use that(1) in auto)
  have rest: "list_all2 (wagon_at h) wis wgs"
    using wg(2) kept by (auto simp: list_all2_conv_all_nth)
  show thesis
  proof (rule that [where q = q' and h = h])
    show "\<exists>w'. womims h b = Some w' \<and> bytes w' = bytes w" if "b \<in># refs" "womims (mem g) b = Some w" for b w
      using that by (intro h(3)) auto
  qed (use q q' w h(1,2) rest in \<open>simp_all add: utoDeliveries_turn_def wi get_womim_def freeWiw_def
      each_msg_deliver [OF w(2) ok] fold_delivered\<close>)
qed

section \<open>Broadcasting\<close>

definition empty_wagon :: "address \<Rightarrow> awagon" where
  "empty_wagon my = \<lparr>aw_sender = my, aw_round = 0, aw_msgs = []\<rparr>"

lemma counts_new:
  assumes "counts h refs" "womims h' = (womims h)(next_id h \<mapsto> w)" "next_id h' = Suc (next_id h)" "counter w = 1"
  shows "counts h' (add_mset (next_id h) refs)"
proof -
  have "count refs (next_id h) = 0"
    using counts_fresh [OF assms(1)] by (simp add: not_in_iff)
  with assms show ?thesis unfolding counts_def by auto
qed

text \<open>A wagon handed to the delivering thread, and a new one started.\<close>

lemma deliver_wagonToSend_ok:
  assumes "building g refs cap wg" "to_deliver g wis wgs" "refs = R + mset (map wagon_ref wis)"
    "7 \<le> wagonMaxLen g" "length (enc_wagon wg) < 2 ^ 31" "\<forall>m \<in> set (aw_msgs wg). readable m"
  obtains q wi wi' h where
    "deliver_wagonToSend g = Inr (g\<lparr>wagonsToDeliver := Some q, wagonToSend := Some wi', mem := h\<rparr>)"
    "building (g\<lparr>wagonsToDeliver := Some q, wagonToSend := Some wi', mem := h\<rparr>)
       (R + mset (map wagon_ref (wis @ [wi]))) (nat (wagonMaxLen g)) (empty_wagon (myAddress g))"
    "to_deliver (g\<lparr>wagonsToDeliver := Some q, wagonToSend := Some wi', mem := h\<rparr>) (wis @ [wi]) (wgs @ [wg])"
    "\<And>b. b \<in># refs \<Longrightarrow> womims h b = womims (mem g) b" "wagonToSend g = Some wi"
proof -
  from assms(1) obtain a w where wi: "wagonToSend g = Some \<lparr>p_wagon = Some (a, 0), p_womim = Some a\<rparr>"
    and w: "womims (mem g) a = Some w" "holds (bytes w) 0 (enc_wagon wg)"
    and a: "a \<notin># refs" "counts (mem g) (add_mset a refs)"
    by (auto simp: building_def building_at_def)
  from assms(2) obtain q where q: "wagonsToDeliver g = Some q" "brep q wis 0"
    and wgs: "list_all2 (wagon_at (mem g)) wis wgs"
    by (auto simp: to_deliver_def)
  let ?wi = "\<lparr>p_wagon = Some (a, 0), p_womim = Some a\<rparr>"
  obtain q' where q': "bqueueEnqueue q (Some ?wi) = Inr q'" "brep q' (wis @ [?wi]) 0"
    using brep_enqueue [OF q(2)] by metis
  obtain v h where new: "newWiw (wagonMaxLen g) (myAddress g) (mem g) =
      Inr (\<lparr>p_wagon = Some (next_id (mem g), 0), p_womim = Some (next_id (mem g))\<rparr>, h)"
    "womims h = (womims (mem g))(next_id (mem g) \<mapsto> v)" "next_id h = Suc (next_id (mem g))"
    "counter v = 1" "length (bytes v) = nat (wagonMaxLen g)"
    "holds (bytes v) 0 (enc_wagon \<lparr>aw_sender = myAddress g, aw_round = 0, aw_msgs = []\<rparr>)"
    by (rule newWiw_ok [OF assms(4)])
  let ?n = "next_id (mem g)"
  have fresh: "?n \<notin># add_mset a refs" by (rule counts_fresh [OF a(2)])
  have refs': "R + mset (map wagon_ref (wis @ [?wi])) = add_mset a refs"
    using assms(3) by (simp add: wagon_ref_def)
  have z: "womims (mem g) ?n = None" using a(2) unfolding counts_def by blast
  have kept: "wagon_at h wi' wg'" if "wagon_at (mem g) wi' wg'" for wi' wg'
    by (rule wagon_at_mono [OF that]) (use z new(2) in auto)
  have "wagon_at h ?wi wg"
    using assms(5,6) w by (intro kept) (auto simp: wagon_at_def)
  moreover have "list_all2 (wagon_at h) wis wgs"
    using wgs kept by (auto simp: list_all2_conv_all_nth)
  ultimately have del: "list_all2 (wagon_at h) (wis @ [?wi]) (wgs @ [wg])"
    by (simp add: list_all2_appendI)
  let ?g = "g\<lparr>wagonsToDeliver := Some q', wagonToSend := Some \<lparr>p_wagon = Some (?n, 0), p_womim = Some ?n\<rparr>, mem := h\<rparr>"
  have "counts h (add_mset ?n (add_mset a refs))"
    by (rule counts_new [OF a(2) new(2,3,4)])
  then have "building ?g (add_mset a refs) (nat (wagonMaxLen g)) (empty_wagon (myAddress g))"
    using fresh new by (auto simp: building_def building_at_def empty_wagon_def)
  moreover have "to_deliver ?g (wis @ [?wi]) (wgs @ [wg])"
    using q'(2) del by (auto simp: to_deliver_def)
  moreover have "deliver_wagonToSend g = Inr ?g"
    using q(1) q'(1) wi new(1) by (simp add: deliver_wagonToSend_def)
  moreover have "womims h b = womims (mem g) b" if "b \<in># refs" for b
    using that fresh new(2) by auto
  ultimately show thesis
    using refs' wi by (intro that [where q = q' and h = h and wi = ?wi]) simp_all
qed

lemma utoBroadcast_cases:
  "utoBroadcast g = (if automatonState g = ALONE_INSERT_WAIT
     then bindE (deliver_wagonToSend g) (\<lambda>g'. Inr (0, g')) else Inr (0, g))"
  by (simp add: utoBroadcast_def)

end
