(* ===== verification/IoMsg.thy ===== *)
theory IoMsg
  imports AppMessage
begin

text \<open>
  Sending and receiving messages, opening and closing connections, and the threads that
  read a connection: \<^verbatim>\<open>src/iomsg.c\<close>, \<^verbatim>\<open>src/connect.c\<close>, \<^verbatim>\<open>freeComm\<close> of
  \<^verbatim>\<open>src/comm.c\<close>, \<^verbatim>\<open>acceptMgt\<close> and \<^verbatim>\<open>participate\<close> of \<^verbatim>\<open>src/stateMachine.c\<close>. A
  \<^verbatim>\<open>trComm\<close> is known by a number; one that was freed is no longer in \<^verbatim>\<open>comms\<close>.
\<close>

section \<open>Connections\<close>

definition CONNECT_TIMEOUT :: int where "CONNECT_TIMEOUT = 2000"

definition comm_at :: "globals \<Rightarrow> nat \<Rightarrow> trComm result" where
  "comm_at g c = (case comms g c of None \<Rightarrow> Inl MemFault | Some cm \<Rightarrow> Inr cm)"

definition set_comm :: "nat \<Rightarrow> trComm option \<Rightarrow> globals \<Rightarrow> globals" where
  "set_comm c cm g = g\<lparr>comms := (comms g)(c := cm)\<rparr>"

definition new_comm :: "trComm \<Rightarrow> globals \<Rightarrow> nat \<times> globals" where
  "new_comm cm g = (next_comm g, (set_comm (next_comm g) (Some cm) g)\<lparr>next_comm := Suc (next_comm g)\<rparr>)"

text \<open>\<^verbatim>\<open>freeComm\<close>: abort the call in progress, close the descriptor, free the handle.\<close>

definition freeComm :: "nat \<Rightarrow> tcomm_ptr \<Rightarrow> globals \<Rightarrow> globals result" where
  "freeComm self p g =
     bindE (deref p) (\<lambda>c.
     bindE (comm_at g c) (\<lambda>cm.
       let cm' = commAbort self cm
       in Inr (emit (Closed c) (set_comm c None (set_comm c (Some cm') g)))))"

definition closeConnection :: "nat \<Rightarrow> address \<Rightarrow> bool \<Rightarrow> globals \<Rightarrow> globals result" where
  "closeConnection self addr isPred g =
     (let rank = addrToRank addr in
      if rank = - 1 then Inl (ExitFailure ''Wrong address sent to closeConnection'')
      else bindE (getTComm rank isPred (globalAddrArray g)) (\<lambda>tcomm.
             if tcomm \<noteq> None
             then bindE (removeTComm tcomm rank (globalAddrArray g)) (\<lambda>array.
                    freeComm self tcomm (g\<lparr>globalAddrArray := array\<rparr>))
             else Inr g))"

definition openConnection :: "env \<Rightarrow> address \<Rightarrow> bool \<Rightarrow> globals \<Rightarrow> (int \<times> globals) result" where
  "openConnection e addr isPred g =
     (let rank = addrToRank addr in
      if rank = - 1 then Inl (ExitFailure ''Wrong address sent to openConnection'')
      else bindE (nthE (globalAddrArray g) rank) (\<lambda>a.
        if chan a = '''' then Inr (- 1, g)
        else bindE (commNewAndConnect (env_self e) False (env_connect e (connects_done g) (ip a) (chan a))
                      CONNECT_TIMEOUT (env_nodelay e)) (\<lambda>tcomm.
          let g1 = g\<lparr>connects_done := Suc (connects_done g)\<rparr> in
          case tcomm of
            None \<Rightarrow> Inr (- 1, g1)
          | Some cm \<Rightarrow>
              let (c, g2) = new_comm cm g1 in
              bindE (addTComm (Some c) rank (globalAddrArray g2) isPred) (\<lambda>array.
                Inr (1, emit (Spawned (ConnectionMgt c)) (g2\<lparr>globalAddrArray := array\<rparr>))))))"

text \<open>\<^verbatim>\<open>while (i != rank && watch)\<close>; the fuel is the number of turns left before the loop
  has gone round.\<close>

fun searchSucc_loop :: "nat \<Rightarrow> env \<Rightarrow> int \<Rightarrow> int \<Rightarrow> globals \<Rightarrow> (address option \<times> globals) result" where
  "searchSucc_loop n e rank i g =
     (if i = rank then Inr (None, g)
      else case n of
             0 \<Rightarrow> Inl Diverges
           | Suc n' \<Rightarrow> bindE (openConnection e (rankToAddr i) False g) (\<lambda>(r, g').
               if r = 1 then Inr (Some (rankToAddr i), g')
               else searchSucc_loop n' e rank (c_mod (i + 1) NP) g'))"

declare searchSucc_loop.simps [simp del]

definition searchSucc :: "env \<Rightarrow> address \<Rightarrow> globals \<Rightarrow> (address \<times> globals) result" where
  "searchSucc e ad g =
     (let rank = addrToRank ad in
      if rank = - 1 then Inl (ExitFailure ''Wrong address given to searchSucc'')
      else bindE (searchSucc_loop (nat NP) e rank (c_mod (rank + 1) NP) g) (\<lambda>(r, g').
             Inr (case r of None \<Rightarrow> myAddress g' | Some a \<Rightarrow> a, g')))"

section \<open>Sending\<close>

definition writev_comm :: "env \<Rightarrow> nat \<Rightarrow> byte list list \<Rightarrow> globals \<Rightarrow> (int \<times> globals) result" where
  "writev_comm e c iov g =
     bindE (comm_at g c) (\<lambda>cm.
     bindE (commWritev cm iov (env_writev e (writes_done g)) (counters g)) (\<lambda>(nb, bs, cm', cnt).
       Inr (nb, (emit (Wrote c bs) (set_comm c (Some cm') g))\<lparr>counters := cnt, writes_done := Suc (writes_done g)\<rparr>)))"

definition sendOther :: "env \<Rightarrow> address \<Rightarrow> bool \<Rightarrow> MType \<Rightarrow> address \<Rightarrow> globals \<Rightarrow> (int \<times> globals) result" where
  "sendOther e addr isPred typ sender g =
     (if typ = TRAIN then Inl (ExitFailure ''Wrong MType given to sendOther'')
      else let msg = newMsg typ sender; rank = addrToRank addr in
        if rank \<noteq> - 1
        then bindE (getTComm rank isPred (globalAddrArray g)) (\<lambda>aComm.
               case aComm of
                 None \<Rightarrow> Inr (- 1, g)
               | Some c \<Rightarrow> bindE (rd (Msg_bytes msg) 0 (nat (sint (m_len msg)))) (\<lambda>bs. writev_comm e c [bs] g))
        else Inl (ExitFailure ''Sending failure in sendOther''))"

text \<open>The number of bytes of an element of the vector: an \<^verbatim>\<open>int\<close> turned into a
  \<^verbatim>\<open>size_t\<close>.\<close>

definition iov_len :: "32 word \<Rightarrow> nat" where
  "iov_len n = unat (scast n :: 64 word)"

definition train_header :: "32 word \<Rightarrow> ltsStruct \<Rightarrow> byte list" where
  "train_header lng l = to_bytes 4 lng @ [lts_type l] @
     [stamp_id (lts_stamp l), stamp_lc (lts_stamp l), stamp_round (lts_stamp l)] @ to_bytes 2 (lts_circuit l)"

definition sendTrain :: "env \<Rightarrow> address \<Rightarrow> bool \<Rightarrow> ltsStruct \<Rightarrow> globals \<Rightarrow> (int \<times> globals) result" where
  "sendTrain e addr isPred l g =
     (let rank = addrToRank addr in
      if rank \<noteq> - 1
      then bindE (getTComm rank isPred (globalAddrArray g)) (\<lambda>aComm.
        case aComm of
          None \<Rightarrow> Inr (- 1, g)
        | Some c \<Rightarrow>
            let lng0 = word_of_int (sizeof_int + sizeof_MType + sizeof_stamp + sizeof_addressSet) in
            bindE (if lts_wlen l \<noteq> 0
                   then with_wagon (mem g) (p_wagon (lts_w l)) (\<lambda>buf w.
                     bindE (rd buf w (iov_len (lts_wlen l))) (\<lambda>bs. Inr (lng0 + lts_wlen l, bs)))
                   else Inr (lng0, [])) (\<lambda>(lng1, bs1).
            bindE (case lts_wtosend l of
                     None \<Rightarrow> Inr (lng1, [])
                   | Some wi \<Rightarrow> with_wagon (mem g) (p_wagon wi) (\<lambda>buf w.
                       bindE (firstMsg buf w) (\<lambda>mp.
                         if mp = None then Inr (lng1, [])
                         else bindE (wagon_len buf w) (\<lambda>n.
                              bindE (rd buf w (iov_len n)) (\<lambda>bs. Inr (lng1 + n, bs)))))) (\<lambda>(lng, bs2).
              writev_comm e c [train_header lng l, bs1, bs2] g)))
      else Inl (ExitFailure ''Sending failure in sendTrain''))"

section \<open>Receiving\<close>

text \<open>The body of a message whose length has been read. \<^verbatim>\<open>calloc\<close> of a negative size fails.
  The number of bytes to read is the difference as a \<^verbatim>\<open>size_t\<close>; bytes that do not fit
  the buffer, or a length field that does not, are a fault.\<close>

definition receive_body ::
  "nat \<Rightarrow> nat \<Rightarrow> byte list \<Rightarrow> inbound \<Rightarrow> globals \<Rightarrow> (nat option \<times> inbound \<times> globals) result" where
  "receive_body self c lenbytes inb g =
     (let length' = of_bytes lenbytes :: 32 word; n = sint length' in
      if n + sizeof_prefix < 0 then Inl (ExitFailure ''msgExt != NULL'')
      else bindE (comm_at g c) (\<lambda>cm.
           bindE (commReadFully self cm (unat (word_of_int (n - 4) :: 64 word)) inb (counters g)) (\<lambda>(nb, bs, cm', inb', cnt).
             let g1 = (set_comm c (Some cm') g)\<lparr>counters := cnt\<rparr> in
             if bs \<noteq> [] \<and> 4 + int (length bs) > n then Inl MemFault
             else if nb = n - 4
             then if n < 4 then Inl MemFault
                  else let (a, h) = malloc_womim (mem g1) n 1 in
                    Inr (Some a, inb', g1\<lparr>mem := set_womim h a (Some \<lparr>counter = 1, bytes = to_bytes 4 length' @ bs\<rparr>)\<rparr>)
             else Inr (None, inb', g1))))"

text \<open>The connection has been closed: a message that says so, and the end of the handle.\<close>

definition receive_closed :: "nat \<Rightarrow> nat \<Rightarrow> globals \<Rightarrow> (nat option \<times> globals) result" where
  "receive_closed self c g =
     bindE (searchTComm (Some c) (globalAddrArray g)) (\<lambda>(j, p).
       if j = - 1 then Inr (None, g)
       else let isPred = (p = Some True);
                disconnectType = (if isPred then DISCONNECT_PRED else DISCONNECT_SUCC);
                (a, h) = malloc_womim (mem g) sizeof_Msg 1;
                msg = newMsg disconnectType (rankToAddr j);
                g1 = g\<lparr>mem := set_womim h a (Some \<lparr>counter = 1, bytes = Msg_bytes msg\<rparr>)\<rparr>
            in bindE (closeConnection self (rankToAddr j) isPred g1) (\<lambda>g2. Inr (Some a, g2)))"

definition receive :: "nat \<Rightarrow> nat \<Rightarrow> inbound \<Rightarrow> globals \<Rightarrow> (nat option \<times> inbound \<times> globals) result" where
  "receive self c inb g =
     bindE (comm_at g c) (\<lambda>cm.
     bindE (commReadFully self cm 4 inb (counters g)) (\<lambda>(nb, bs, cm', inb1, cnt).
       let g1 = (set_comm c (Some cm') g)\<lparr>counters := cnt\<rparr> in
       bindE (if nb = 4 then receive_body self c bs inb1 g1 else Inr (None, inb1, g1)) (\<lambda>(ok, inb2, g2).
         case ok of
           Some a \<Rightarrow> Inr (Some a, inb2, g2)
         | None \<Rightarrow> bindE (receive_closed self c g2) (\<lambda>(m, g3). Inr (m, inb2, g3)))))"

section \<open>The reading thread, the accepting thread\<close>

definition msg_type_at :: "globals \<Rightarrow> nat \<Rightarrow> MType result" where
  "msg_type_at g a = bindE (get_womim (mem g) (Some a)) (\<lambda>w. msg_type (bytes w))"

text \<open>One turn of the loop of \<^verbatim>\<open>connectionMgt\<close>: whether to go on, the queue of the messages
  to treat, the socket and the state.\<close>

definition connectionMgt_turn ::
  "nat \<Rightarrow> nat \<Rightarrow> nat trBqueue \<times> inbound \<times> globals \<Rightarrow> (bool \<times> nat trBqueue \<times> inbound \<times> globals) result" where
  "connectionMgt_turn self c = (\<lambda>(msgQueue, inb, g).
     bindE (receive self c inb g) (\<lambda>(msgExt, inb', g').
     bindE (case msgExt of
              None \<Rightarrow> Inr False
            | Some a \<Rightarrow> bindE (msg_type_at g' a) (\<lambda>t. Inr (t \<noteq> DISCONNECT_PRED \<and> t \<noteq> DISCONNECT_SUCC))) (\<lambda>b.
     bindE (bqueueEnqueue msgQueue msgExt) (\<lambda>msgQueue'. Inr (b, msgQueue', inb', g')))))"

fun connectionMgt ::
  "nat \<Rightarrow> nat \<Rightarrow> nat \<Rightarrow> nat trBqueue \<times> inbound \<times> globals \<Rightarrow> (nat trBqueue \<times> inbound \<times> globals) result" where
  "connectionMgt 0 self c s = Inl Diverges"
| "connectionMgt (Suc n) self c s =
     bindE (connectionMgt_turn self c s) (\<lambda>(b, s'). if b then connectionMgt n self c s' else Inr s')"

text \<open>\<^verbatim>\<open>acceptMgt\<close>: one element per call to \<^verbatim>\<open>commAccept\<close>, what its \<^verbatim>\<open>accept\<close> calls answer
  and whether \<^verbatim>\<open>setsockopt\<close> succeeds.\<close>

fun acceptMgt :: "nat \<Rightarrow> nat \<Rightarrow> (int script \<times> bool) list \<Rightarrow> globals \<Rightarrow> globals result" where
  "acceptMgt self p [] g = Inl Blocks"
| "acceptMgt self p ((sc, ok) # calls) g =
     bindE (comm_at g p) (\<lambda>cm.
     bindE (commAccept self cm sc ok) (\<lambda>(aComm, cm').
       let g1 = set_comm p (Some cm') g in
       case aComm of
         None \<Rightarrow> Inr g1
       | Some a \<Rightarrow> let (c, g2) = new_comm a g1
                   in acceptMgt self p calls (emit (Spawned (ConnectionMgt c)) g2)))"

definition participate :: "env \<Rightarrow> bool \<Rightarrow> globals \<Rightarrow> globals result" where
  "participate e b g =
     (if b
      then bindE (nthE (globalAddrArray g) (addrToRank (myAddress g))) (\<lambda>a.
           bindE (commNewForAccept (fst (env_listen e (chan a))) (snd (env_listen e (chan a)))) (\<lambda>oc.
             case oc of
               None \<Rightarrow> Inl (ExitFailure ''commNewForAccept'')
             | Some cm \<Rightarrow> let (c, g1) = new_comm cm g
                          in Inr (emit (Spawned (AcceptMgt c)) (g1\<lparr>commForAccept := Some c\<rparr>))))
      else freeComm (env_self e) (commForAccept g) g)"

section \<open>A message received\<close>

lemma commReadFully_ok:
  assumes "calm (reads inb)" "\<not> aborted c" "0 < n" "n \<le> length (stream inb)" "n \<le> grants (reads inb)"
  obtains c' inb' cnt' where
    "commReadFully self c n inb cnt = Inr (int n, take n (stream inb), c', inb', cnt')"
    "\<not> aborted c'" "stream inb' = drop n (stream inb)" "calm (reads inb')"
    "grants (reads inb) \<le> grants (reads inb') + n"
proof -
  obtain c' inb' cnt' where "commReadFully_loop self c n [] inb cnt = Inr (take n (stream inb), c', inb', cnt')"
    "\<not> aborted c'" "stream inb' = drop n (stream inb)" "calm (reads inb')"
    "grants (reads inb) \<le> grants (reads inb') + n"
    using commReadFully_loop_complete [of inb c "[]" n self cnt] assms by auto
  then show thesis
    using assms(2,4) by (intro that) (auto simp: commReadFully_def)
qed

lemma set_comm_simps [simp]:
  "comms (set_comm c cm g) = (comms g)(c := cm)" "mem (set_comm c cm g) = mem g"
  "counters (set_comm c cm g) = counters g" "globalAddrArray (set_comm c cm g) = globalAddrArray g"
  by (simp_all add: set_comm_def)

text \<open>The bytes of a whole message, whatever the way they come, make a new buffer that
  holds them with its counter at 1, and the next bytes stay in the socket.\<close>

lemma receive_ok:
  assumes "comms g c = Some cm" "\<not> aborted cm" "calm (reads inb)"
    and m: "bs = to_bytes 4 (c_int (length bs)) @ tl'" "4 < length bs" "length bs < 2 ^ 31"
    and inb: "stream inb = bs @ rest" "length bs \<le> grants (reads inb)"
  obtains cm' inb' cnt h where
    "receive self c inb g = Inr (Some (next_id (mem g)), inb', (set_comm c (Some cm') g)\<lparr>counters := cnt, mem := h\<rparr>)"
    "\<not> aborted cm'" "stream inb' = rest" "calm (reads inb')"
    "grants (reads inb) \<le> grants (reads inb') + length bs" "next_id h = Suc (next_id (mem g))"
    "womims h = (womims (mem g))(next_id (mem g) \<mapsto> \<lparr>counter = 1, bytes = bs\<rparr>)"
proof -
  let ?n = "length bs" and ?lb = "to_bytes 4 (c_int (length bs))"
  have tl': "length tl' = ?n - 4" using arg_cong [OF m(1), of length] by simp
  have pre: "take 4 (stream inb) = ?lb" "drop 4 (stream inb) = tl' @ rest"
    unfolding inb(1) by (subst (1) m(1), simp)+
  obtain cm1 inb1 cnt1 where one: "commReadFully self cm 4 inb (counters g) = Inr (4, ?lb, cm1, inb1, cnt1)"
    "\<not> aborted cm1" "stream inb1 = tl' @ rest" "calm (reads inb1)" "grants (reads inb) \<le> grants (reads inb1) + 4"
    using commReadFully_ok [OF assms(3,2), of 4 self "counters g"] pre m(2) inb by auto
  have "?n - 4 \<le> length (stream inb1)" "?n - 4 \<le> grants (reads inb1)" "0 < ?n - 4"
    using one(3,5) tl' inb(2) m(2) by auto
  then obtain cm2 inb2 cnt2 where two:
    "commReadFully self cm1 (?n - 4) inb1 cnt1 = Inr (int (?n - 4), tl', cm2, inb2, cnt2)"
    "\<not> aborted cm2" "stream inb2 = rest" "calm (reads inb2)" "grants (reads inb1) \<le> grants (reads inb2) + (?n - 4)"
    using commReadFully_ok [OF one(4,2), of "?n - 4" self cnt1] one(3) tl' by auto
  have len: "sint (c_int ?n) = int ?n" using m(3) by (rule sint_c_int)
  have cnt: "unat (word_of_int (int ?n - 4) :: 64 word) = ?n - 4"
  proof -
    have "uint (word_of_int (int ?n - 4) :: 64 word) = int ?n - 4"
      using m(2,3) by (intro uint_64) simp_all
    then show ?thesis by (simp add: unat_eq_nat_uint nat_diff_distrib)
  qed
  then have cnt': "unat (word_of_nat ?n - 4 :: 64 word) = ?n - 4" by simp
  have "of_bytes ?lb = c_int ?n" by (rule of_to_bytes) simp
  then have "receive_body self c ?lb inb1 ((set_comm c (Some cm1) g)\<lparr>counters := cnt1\<rparr>) =
      Inr (Some (next_id (mem g)), inb2, (set_comm c (Some cm2) g)\<lparr>counters := cnt2,
        mem := set_womim (snd (malloc_womim (mem g) (int ?n) 1)) (next_id (mem g)) (Some \<lparr>counter = 1, bytes = bs\<rparr>)\<rparr>)"
    using two(1) m(2) tl'
    by (simp add: receive_body_def Let_def len cnt' comm_at_def sizeof_prefix_def set_comm_def
        malloc_womim_def int_ops flip: m(1))
  then have "receive self c inb g = Inr (Some (next_id (mem g)), inb2, (set_comm c (Some cm2) g)\<lparr>counters := cnt2,
        mem := set_womim (snd (malloc_womim (mem g) (int ?n) 1)) (next_id (mem g)) (Some \<lparr>counter = 1, bytes = bs\<rparr>)\<rparr>)"
    using one(1) assms(1) by (simp add: receive_def comm_at_def Let_def)
  then show thesis
    using two one(5) m(2) by (intro that) (auto simp: malloc_womim_def)
qed

section \<open>A train sent\<close>

text \<open>The wagons of the last train that are to be sent again, and the wagon to send.\<close>

definition region :: "heap \<Rightarrow> ltsStruct \<Rightarrow> awagon list \<Rightarrow> bool" where
  "region h l ws \<longleftrightarrow>
     (if ws = [] then lts_wlen l = 0
      else \<exists>a off w. p_wagon (lts_w l) = Some (a, off) \<and> womims h a = Some w \<and>
        holds (bytes w) off (enc_wagons ws) \<and> lts_wlen l = c_int (length (enc_wagons ws)))"

definition own_wagon :: "heap \<Rightarrow> ltsStruct \<Rightarrow> awagon list \<Rightarrow> bool" where
  "own_wagon h l ws \<longleftrightarrow>
     (case lts_wtosend l of
        None \<Rightarrow> ws = []
      | Some wi \<Rightarrow> \<exists>wg. wagon_at h wi wg \<and> ws = (if aw_msgs wg = [] then [] else [wg]))"

lemma enc_wagons_append: "enc_wagons (ws @ ws') = enc_wagons ws @ enc_wagons ws'"
  by (simp add: enc_wagons_def)

lemma iov_len_c_int: "n < 2 ^ 31 \<Longrightarrow> iov_len (c_int n) = n"
  by (simp add: iov_len_def uint_scast_c_int unat_eq_nat_uint)

lemma c_int_0: "n < 2 ^ 31 \<Longrightarrow> c_int n = 0 \<longleftrightarrow> n = 0"
  using sint_c_int [of n] by (auto simp: c_int_def)

lemma firstMsg_enc_wagon:
  assumes "holds buf w (enc_wagon wg)" "length (enc_wagon wg) < 2 ^ 31"
  shows "firstMsg buf w = Inr (if aw_msgs wg = [] then None else Some (w + 7))"
  using holds_enc_wagon(1) [OF assms(1)] assms(2)
  by (cases "aw_msgs wg") (auto simp: firstMsg_def sizes sint_c_int length_enc_wagon length_enc_msg)

lemma train_header_enc:
  assumes "lts_type l = TRAIN"
  shows "train_header (c_int (10 + length (enc_wagons ws))) l @ enc_wagons ws = enc_train (lts_stamp l) (lts_circuit l) ws"
  using assms by (simp add: train_header_def enc_train_def)

text \<open>The bytes of \<^verbatim>\<open>sendTrain\<close> are the encoding of the train: the wagons kept, then the
  wagon to send.\<close>

lemma sendTrain_bytes:
  assumes addr: "addrToRank addr \<noteq> - 1" "getTComm (addrToRank addr) isPred (globalAddrArray g) = Inr (Some c)"
    and l: "lts_type l = TRAIN" "region (mem g) l ws" "own_wagon (mem g) l ws'"
    and small: "length (enc_train (lts_stamp l) (lts_circuit l) (ws @ ws')) < 2 ^ 31"
  obtains iov where "sendTrain e addr isPred l g = writev_comm e c iov g"
    "concat iov = enc_train (lts_stamp l) (lts_circuit l) (ws @ ws')"
proof -
  let ?n1 = "length (enc_wagons ws)" and ?n2 = "length (enc_wagons ws')"
  have sm: "10 + ?n1 + ?n2 < 2 ^ 31" using small by (simp add: length_enc_train enc_wagons_append)
  have lng0: "word_of_int (sizeof_int + sizeof_MType + sizeof_stamp + sizeof_addressSet) = c_int 10"
    by (simp add: sizes c_int_def)
  have one: "(if lts_wlen l \<noteq> 0
       then with_wagon (mem g) (p_wagon (lts_w l)) (\<lambda>buf w.
         bindE (rd buf w (iov_len (lts_wlen l))) (\<lambda>bs. Inr (c_int 10 + lts_wlen l, bs)))
       else Inr (c_int 10, [])) = Inr (c_int (10 + ?n1), enc_wagons ws)"
  proof (cases "ws = []")
    case True
    then show ?thesis using l(2) by (simp add: region_def)
  next
    case False
    then obtain a off w where r: "p_wagon (lts_w l) = Some (a, off)" "womims (mem g) a = Some w"
      "holds (bytes w) off (enc_wagons ws)" "lts_wlen l = c_int ?n1"
      using l(2) by (auto simp: region_def)
    have "?n1 \<noteq> 0" using False enc_wagons_length_ge [of ws] by (cases ws) auto
    then show ?thesis
      using r sm by (simp add: with_wagon_def get_womim_def iov_len_c_int c_int_0 wire c_int_word)
  qed
  have two: "(case lts_wtosend l of
       None \<Rightarrow> Inr (c_int (10 + ?n1), [])
     | Some wi \<Rightarrow> with_wagon (mem g) (p_wagon wi) (\<lambda>buf w.
         bindE (firstMsg buf w) (\<lambda>mp.
           if mp = None then Inr (c_int (10 + ?n1), [])
           else bindE (wagon_len buf w) (\<lambda>n. bindE (rd buf w (iov_len n)) (\<lambda>bs. Inr (c_int (10 + ?n1) + n, bs)))))) =
     Inr (c_int (10 + ?n1 + ?n2), enc_wagons ws')"
  proof (cases "lts_wtosend l")
    case None
    then show ?thesis using l(3) by (simp add: own_wagon_def)
  next
    case (Some wi)
    with l(3) obtain wg where wg: "wagon_at (mem g) wi wg" "ws' = (if aw_msgs wg = [] then [] else [wg])"
      by (auto simp: own_wagon_def)
    then obtain a off w where r: "p_wagon wi = Some (a, off)" "womims (mem g) a = Some w"
      "holds (bytes w) off (enc_wagon wg)" "length (enc_wagon wg) < 2 ^ 31"
      by (auto simp: wagon_at_def)
    have len: "wagon_len (bytes w) off = Inr (c_int (length (enc_wagon wg)))"
      using holds_enc_wagon(1) [OF r(3)] by (simp add: length_enc_wagon)
    show ?thesis
      using r len wg(2) firstMsg_enc_wagon [OF r(3,4)]
      by (simp add: Some with_wagon_def get_womim_def iov_len_c_int wire c_int_word)
  qed
  have "sendTrain e addr isPred l g =
      writev_comm e c [train_header (c_int (10 + ?n1 + ?n2)) l, enc_wagons ws, enc_wagons ws'] g"
    unfolding sendTrain_def Let_def lng0
    by (simp only: one two addr bindE_Inr option.case prod.case if_True simp_thms)
  moreover have "concat [train_header (c_int (10 + ?n1 + ?n2)) l, enc_wagons ws, enc_wagons ws'] =
      enc_train (lts_stamp l) (lts_circuit l) (ws @ ws')"
    using train_header_enc [OF l(1), of "ws @ ws'"] by (simp add: enc_wagons_append add.assoc)
  ultimately show thesis by (rule that)
qed

text \<open>A write that is not interrupted and is granted all the bytes.\<close>

lemma writev_comm_all:
  assumes "comms g c = Some cm" "\<not> aborted cm" "env_writev e (writes_done g) = (Done k, False) # sc"
    "length (concat iov) \<le> k"
  shows "\<exists>cnt. writev_comm e c iov g = Inr (int (length (concat iov)),
     (emit (Wrote c (concat iov)) g)\<lparr>counters := cnt, writes_done := Suc (writes_done g)\<rparr>)"
proof -
  obtain d ow where cm: "cm = \<lparr>fd = d, ownerMutexForSynch = ow, aborted = False\<rparr>"
    using assms(2) by (cases cm) auto
  have "(comms g)(c \<mapsto> cm) = comms g" using assms(1) by auto
  then have same: "set_comm c (Some cm) g = g" by (simp add: set_comm_def)
  have "commWritev cm iov (env_writev e (writes_done g)) (counters g) =
      Inr (int (length (concat iov)), concat iov, cm, (counters g)\<lparr>comm_writev := comm_writev (counters g) + 1,
        comm_writev_bytes := comm_writev_bytes (counters g) + word_of_int (int (length (concat iov)))\<rparr>)"
    using assms(3,4) by (simp add: commWritev_def cm Let_def)
  then show ?thesis
    using assms(1) by (intro exI) (simp add: writev_comm_def comm_at_def same)
qed

text \<open>A train sent by a process and received by another: the buffer holds the stamp, the
  circuit and the wagons of the sender.\<close>

lemma enc_train_prefix:
  "enc_train st ci ws = to_bytes 4 (c_int (length (enc_train st ci ws))) @
     [TRAIN] @ [stamp_id st, stamp_lc st, stamp_round st] @ to_bytes 2 ci @ enc_wagons ws"
  by (simp add: enc_train_def)

lemma receive_train:
  assumes "comms g c = Some cm" "\<not> aborted cm" "calm (reads inb)"
    and "length (enc_train st ci ws) < 2 ^ 31"
    and "stream inb = enc_train st ci ws @ rest" "length (enc_train st ci ws) \<le> grants (reads inb)"
  obtains cm' inb' cnt h where
    "receive self c inb g = Inr (Some (next_id (mem g)), inb', (set_comm c (Some cm') g)\<lparr>counters := cnt, mem := h\<rparr>)"
    "stream inb' = rest"
    "womims h = (womims (mem g))(next_id (mem g) \<mapsto> \<lparr>counter = 1, bytes = enc_train st ci ws\<rparr>)"
proof (rule receive_ok [OF assms(1-3) enc_train_prefix _ assms(4-6)])
  show "4 < length (enc_train st ci ws)" by (simp add: length_enc_train)
qed (blast intro: that)

section \<open>Control messages\<close>

definition ctrl_bytes :: "MType \<Rightarrow> address \<Rightarrow> byte list" where
  "ctrl_bytes typ sender = to_bytes 4 (c_int 7) @ [typ] @ to_bytes 2 sender"

definition ctrl_types :: "MType list" where
  "ctrl_types = [INSERT, ACK_INSERT, NAK_INSERT, DISCONNECT_PRED, DISCONNECT_SUCC, NEWSUCC]"

lemma length_ctrl_bytes [simp]: "length (ctrl_bytes typ sender) = 7"
  by (simp add: ctrl_bytes_def)

lemma newMsg_ctrl:
  assumes "typ \<in> set ctrl_types"
  shows "m_len (newMsg typ sender) = c_int 7" "Msg_bytes (newMsg typ sender) = ctrl_bytes typ sender @ replicate 6 0"
proof -
  have zeros: "replicate 6 (0 :: byte) = [0, 0, 0, 0, 0, 0]" by (simp add: numeral_eq_Suc)
  from assms consider "typ = INSERT" | "typ = ACK_INSERT" | "typ = NAK_INSERT" | "typ = DISCONNECT_PRED"
    | "typ = DISCONNECT_SUCC" | "typ = NEWSUCC"
    by (auto simp: ctrl_types_def)
  then have "m_len (newMsg typ sender) = c_int 7 \<and>
      Msg_bytes (newMsg typ sender) = ctrl_bytes typ sender @ replicate 6 0"
    by cases (simp_all add: newMsg_def initMsg_def Msg_bytes_def ctrl_bytes_def MType_defs sizes c_int_def zeros Let_def)
  then show "m_len (newMsg typ sender) = c_int 7" "Msg_bytes (newMsg typ sender) = ctrl_bytes typ sender @ replicate 6 0"
    by simp_all
qed

lemma sendOther_bytes:
  assumes "typ \<in> set ctrl_types" "addrToRank addr \<noteq> - 1"
  shows "sendOther e addr isPred typ sender g =
    bindE (getTComm (addrToRank addr) isPred (globalAddrArray g)) (\<lambda>aComm.
      case aComm of None \<Rightarrow> Inr (- 1, g) | Some c \<Rightarrow> writev_comm e c [ctrl_bytes typ sender] g)"
proof -
  have "typ \<noteq> TRAIN" using assms(1) by (auto simp: ctrl_types_def MType_defs)
  moreover have "rd (Msg_bytes (newMsg typ sender)) 0 (nat (sint (m_len (newMsg typ sender)))) = Inr (ctrl_bytes typ sender)"
    unfolding newMsg_ctrl [OF assms(1)] by (simp add: sint_c_int rd_def)
  ultimately show ?thesis
    using assms(2) by (simp add: sendOther_def Let_def)
qed

text \<open>What the accessors of the state machine read in a received control message, also when
  6 more bytes follow in the buffer.\<close>

lemma ctrl_bytes_read:
  "msg_type (ctrl_bytes typ sender @ rest) = Inr typ" "msg_sender (ctrl_bytes typ sender @ rest) = Inr sender"
proof -
  have h: "holds (ctrl_bytes typ sender @ rest) 0 (ctrl_bytes typ sender)"
    by (simp add: holds_append_buf holds_whole)
  show "msg_type (ctrl_bytes typ sender @ rest) = Inr typ"
    using h holds_rd_char [of "ctrl_bytes typ sender @ rest" 4 "typ"]
    unfolding ctrl_bytes_def holds_append by (simp add: msg_type_def)
  show "msg_sender (ctrl_bytes typ sender @ rest) = Inr sender"
    using h holds_rd_short [of "ctrl_bytes typ sender @ rest" 5 sender]
    unfolding ctrl_bytes_def holds_append by (simp add: msg_sender_def)
qed

lemma receive_ctrl:
  assumes "comms g c = Some cm" "\<not> aborted cm" "calm (reads inb)"
    and "stream inb = ctrl_bytes typ sender @ rest" "7 \<le> grants (reads inb)"
  obtains cm' inb' cnt h where
    "receive self c inb g = Inr (Some (next_id (mem g)), inb', (set_comm c (Some cm') g)\<lparr>counters := cnt, mem := h\<rparr>)"
    "stream inb' = rest"
    "womims h = (womims (mem g))(next_id (mem g) \<mapsto> \<lparr>counter = 1, bytes = ctrl_bytes typ sender\<rparr>)"
proof (rule receive_ok [OF assms(1-3), of "ctrl_bytes typ sender" "[typ] @ to_bytes 2 sender" rest])
  show "ctrl_bytes typ sender = to_bytes 4 (c_int (length (ctrl_bytes typ sender))) @ [typ] @ to_bytes 2 sender"
    unfolding length_ctrl_bytes by (simp add: ctrl_bytes_def)
qed (use assms(4,5) in \<open>auto intro: that\<close>)

section \<open>A connection lost\<close>

lemma retry_shorter_calm:
  assumes "calm (reads inb)" "0 < grants (reads inb)" "\<not> aborted c" "0 < n" "stream inb = []"
  obtains c' inb' cnt' where "commRead self c n inb cnt = Inr (0, [], c', inb', cnt')"
    "\<not> aborted c'" "calm (reads inb')" "stream inb' = []"
proof -
  from retry_calm [OF assms(1,2)] obtain k sc' where
    rt: "retry (reads inb) False = Inr (Done k, False, sc')" "calm sc'" by blast
  show thesis
    by (rule that [of "commLongIOEnd ((commLongIOBegin self c)\<lparr>aborted := False\<rparr>)" "\<lparr>stream = [], reads = sc'\<rparr>"])
      (use rt assms(3-5) in \<open>simp_all add: commRead_def commLongIOBegin_def commLongIOEnd_def Let_def sys_read_def\<close>)
qed

text \<open>A peer that closes before the bytes asked for: the read is short.\<close>

lemma commReadFully_loop_short:
  "calm (reads inb) \<Longrightarrow> \<not> aborted c \<Longrightarrow> length buf + length (stream inb) < n \<Longrightarrow>
   length (stream inb) < grants (reads inb) \<Longrightarrow>
   \<exists>c' inb' cnt'. commReadFully_loop self c n buf inb cnt = Inr (buf @ stream inb, c', inb', cnt') \<and>
      \<not> aborted c' \<and> stream inb' = [] \<and> calm (reads inb')"
proof (induction "length (stream inb)" arbitrary: c buf inb cnt rule: less_induct)
  case less
  note unf = commReadFully_loop.simps [of self c n buf inb cnt]
  have g: "0 < grants (reads inb)" "0 < n - length buf" using less.prems by auto
  show ?case
  proof (cases "stream inb = []")
    case True
    from retry_shorter_calm [OF less.prems(1) g(1) less.prems(2) g(2) True] obtain c1 inb1 cnt1 where
      "commRead self c (n - length buf) inb cnt = Inr (0, [], c1, inb1, cnt1)" "\<not> aborted c1"
      "calm (reads inb1)" "stream inb1 = []" by metis
    then show ?thesis unfolding unf by (simp add: True)
  next
    case False
    from commRead_calm [OF less.prems(1) g(1) less.prems(2) g(2) False] obtain bs c1 inb1 cnt1 where rd:
      "commRead self c (n - length buf) inb cnt = Inr (int (length bs), bs, c1, inb1, cnt1)" "\<not> aborted c1"
      "calm (reads inb1)" "grants (reads inb) = Suc (grants (reads inb1))" "bs \<noteq> []"
      "length bs \<le> n - length buf" "stream inb = bs @ stream inb1"
      by metis
    have pos: "0 < length bs" using rd(5) by simp
    have len: "length (stream inb) = length bs + length (stream inb1)" using rd(7) by simp
    have "\<exists>c' inb' cnt'. commReadFully_loop self c1 n (buf @ bs) inb1 cnt1 = Inr ((buf @ bs) @ stream inb1, c', inb', cnt') \<and>
      \<not> aborted c' \<and> stream inb' = [] \<and> calm (reads inb')"
      by (rule less.hyps) (use pos len rd(2,3,4) less.prems(3,4) in \<open>simp_all del: length_greater_0_conv\<close>)
    then show ?thesis
      using rd(1,2,5) less.prems(3) pos len unfolding unf rd(7) by simp
  qed
qed

lemma commReadFully_short:
  assumes "calm (reads inb)" "\<not> aborted c" "length (stream inb) < n" "length (stream inb) < grants (reads inb)"
  obtains c' inb' cnt' where
    "commReadFully self c n inb cnt = Inr (int (length (stream inb)), stream inb, c', inb', cnt')" "\<not> aborted c'"
proof -
  obtain c' inb' cnt' where "commReadFully_loop self c n [] inb cnt = Inr (stream inb, c', inb', cnt')" "\<not> aborted c'"
    using commReadFully_loop_short [of inb c "[]" n self cnt] assms by auto
  then show thesis using assms(2) by (intro that) (auto simp: commReadFully_def)
qed

text \<open>A peer that goes away in the middle of a message, or between two: no message is
  built, the connection is given up.\<close>

lemma receive_cut:
  assumes "comms g c = Some cm" "\<not> aborted cm" "calm (reads inb)"
    and m: "4 < length bs" "length bs < 2 ^ 31" "bs = to_bytes 4 (c_int (length bs)) @ tl'"
    and inb: "stream inb = take k bs" "k < length bs" "length bs + 1 \<le> grants (reads inb)"
  obtains cm' inb' cnt where
    "receive self c inb g = bindE (receive_closed self c ((set_comm c (Some cm') g)\<lparr>counters := cnt\<rparr>))
       (\<lambda>(m, g'). Inr (m, inb', g'))"
proof (cases "k < 4")
  case True
  have len: "length (stream inb) = k" using inb by simp
  obtain cm1 inb1 cnt1 where
    "commReadFully self cm 4 inb (counters g) = Inr (int k, stream inb, cm1, inb1, cnt1)"
    by (rule commReadFully_short [OF assms(3,2), where n = 4 and self = self and cnt = "counters g"])
      (use len True inb(3) m(1) in auto)
  then show thesis
    using True assms(1) by (intro that [where cm' = cm1 and cnt = cnt1 and inb' = inb1]) (simp add: receive_def comm_at_def)
next
  case False
  let ?n = "length bs" and ?lb = "to_bytes 4 (c_int (length bs))"
  have tk: "take k bs = ?lb @ take (k - 4) tl'" using False by (subst m(3)) simp
  have ltl: "length tl' = ?n - 4" using arg_cong [OF m(3), of length] by simp
  obtain cm1 inb1 cnt1 where one: "commReadFully self cm 4 inb (counters g) = Inr (4, ?lb, cm1, inb1, cnt1)"
    "\<not> aborted cm1" "stream inb1 = take (k - 4) tl'" "calm (reads inb1)" "grants (reads inb) \<le> grants (reads inb1) + 4"
    using commReadFully_ok [OF assms(3,2), of 4 self "counters g"] tk False inb by auto
  have l1: "length (stream inb1) = k - 4" using one(3) ltl inb(2) by simp
  obtain cm2 inb2 cnt2 where two:
    "commReadFully self cm1 (?n - 4) inb1 cnt1 = Inr (int (k - 4), stream inb1, cm2, inb2, cnt2)"
  proof (rule commReadFully_short [OF one(4,2), where n = "?n - 4" and self = self and cnt = cnt1])
    show "length (stream inb1) < ?n - 4" "length (stream inb1) < grants (reads inb1)"
      using l1 one(5) inb(2,3) False by simp_all
  qed (use l1 in \<open>auto intro: that\<close>)
  have len: "sint (c_int ?n) = int ?n" using m(2) by (rule sint_c_int)
  have "uint (word_of_int (int ?n - 4) :: 64 word) = int ?n - 4"
    using m(1,2) by (intro uint_64) simp_all
  then have cnt: "unat (word_of_nat ?n - 4 :: 64 word) = ?n - 4"
    by (simp add: unat_eq_nat_uint nat_diff_distrib)
  have "of_bytes ?lb = c_int ?n" by (rule of_to_bytes) simp
  then have "receive_body self c ?lb inb1 ((set_comm c (Some cm1) g)\<lparr>counters := cnt1\<rparr>) =
      Inr (None, inb2, (set_comm c (Some cm2) g)\<lparr>counters := cnt2\<rparr>)"
    using two m(1) l1 inb(2) False
    by (simp add: receive_body_def Let_def len cnt comm_at_def sizeof_prefix_def set_comm_def int_ops)
  then show thesis
    using one(1) assms(1)
    by (intro that [where cm' = cm2 and cnt = cnt2 and inb' = inb2]) (simp add: receive_def comm_at_def Let_def)
qed

text \<open>What giving a connection up does: a message \<^verbatim>\<open>DISCONNECT_PRED\<close> or
  \<^verbatim>\<open>DISCONNECT_SUCC\<close> from the peer, the connection out of the table and closed.\<close>

lemma receive_closed_ok:
  assumes "searchTComm (Some c) (globalAddrArray g) = Inr (j, Some p)" "0 \<le> j" "j < 16"
    "getTComm j p (globalAddrArray g) = Inr (Some c)" "comms g c = Some cm"
  obtains array h where
    "removeTComm (Some c) j (globalAddrArray g) = Inr array"
    "receive_closed self c g = Inr (Some (next_id (mem g)),
       (emit (Closed c) (set_comm c None g))\<lparr>globalAddrArray := array, mem := h\<rparr>)"
    "womims h = (womims (mem g))(next_id (mem g) \<mapsto>
       \<lparr>counter = 1, bytes = ctrl_bytes (if p then DISCONNECT_PRED else DISCONNECT_SUCC) (rankToAddr j) @ replicate 6 0\<rparr>)"
    "next_id h = Suc (next_id (mem g))"
proof -
  have "nat j < length (globalAddrArray g)"
    using assms(4) by (auto simp: getTComm_def bindE_eq_Inr nthE_eq_Inr)
  then have "\<exists>array. removeTComm (Some c) j (globalAddrArray g) = Inr array"
    using assms(2) by (simp add: removeTComm_def nthE_in updE_in)
  then obtain array where arr: "removeTComm (Some c) j (globalAddrArray g) = Inr array" by blast
  have rank: "addrToRank (rankToAddr j) = j" "j \<noteq> - 1" using assms(2,3) by (simp_all add: addrToRank_rankToAddr)
  let ?dty = "if p then DISCONNECT_PRED else DISCONNECT_SUCC"
  have ty: "?dty \<in> set ctrl_types" by (simp add: ctrl_types_def)
  show thesis
    by (rule that [OF arr, of "set_womim (snd (malloc_womim (mem g) sizeof_Msg 1)) (next_id (mem g))
         (Some \<lparr>counter = 1, bytes = ctrl_bytes ?dty (rankToAddr j) @ replicate 6 0\<rparr>)"])
      (use assms rank arr in \<open>simp_all add: receive_closed_def malloc_womim_def closeConnection_def
         freeComm_def comm_at_def set_comm_def emit_def newMsg_ctrl(2) [OF ty] Let_def\<close>)
qed

lemma receive_closed_unknown:
  "searchTComm (Some c) (globalAddrArray g) = Inr (- 1, p) \<Longrightarrow> receive_closed self c g = Inr (None, g)"
  by (simp add: receive_closed_def)

lemma receive_eof:
  assumes "comms g c = Some cm" "\<not> aborted cm" "calm (reads inb)" "stream inb = []" "0 < grants (reads inb)"
  obtains cm' inb' cnt where
    "receive self c inb g = bindE (receive_closed self c ((set_comm c (Some cm') g)\<lparr>counters := cnt\<rparr>))
       (\<lambda>(m, g'). Inr (m, inb', g'))"
proof -
  obtain cm1 inb1 cnt1 where "commReadFully self cm 4 inb (counters g) = Inr (0, [], cm1, inb1, cnt1)"
    by (rule commReadFully_short [OF assms(3,2), where n = 4 and self = self and cnt = "counters g"])
      (use assms(4,5) in auto)
  then show thesis
    using assms(1)
    by (intro that [where cm' = cm1 and cnt = cnt1 and inb' = inb1]) (simp add: receive_def comm_at_def)
qed

section \<open>The thread that reads a connection\<close>

text \<open>A message on the wire: its length, its type (not a disconnection), its body.\<close>

definition framed :: "byte list \<Rightarrow> bool" where
  "framed bs \<longleftrightarrow> 4 < length bs \<and> length bs < 2 ^ 31 \<and> take 4 bs = to_bytes 4 (c_int (length bs)) \<and>
     bs ! 4 \<noteq> DISCONNECT_PRED \<and> bs ! 4 \<noteq> DISCONNECT_SUCC"

lemma msg_type_nth: "4 < length bs \<Longrightarrow> msg_type bs = Inr (bs ! 4)"
  by (simp add: msg_type_def rd_char_def rd_def take_Suc hd_drop_conv_nth)

text \<open>The messages a peer sends before it closes the connection are queued in the order
  they were sent, each in a buffer of its own, and after them the message that says the
  connection is lost; the thread then ends, with the connection closed.\<close>

lemma connectionMgt_stream:
  assumes "comms g c = Some cm" "\<not> aborted cm" "calm (reads inb)" "stream inb = concat ms"
    "\<forall>m \<in> set ms. framed m" "length (concat ms) < grants (reads inb)"
    "searchTComm (Some c) (globalAddrArray g) = Inr (j, Some p)" "0 \<le> j" "j < 16"
    "getTComm j p (globalAddrArray g) = Inr (Some c)" "brep q xs 0" "length ms < n"
  shows "\<exists>q' inb' g'. connectionMgt n self c (q, inb, g) = Inr (q', inb', g') \<and>
    brep q' (xs @ [next_id (mem g)..<Suc (next_id (mem g) + length ms)]) 0 \<and>
    (\<forall>i < length ms. womims (mem g') (next_id (mem g) + i) = Some \<lparr>counter = 1, bytes = ms ! i\<rparr>) \<and>
    womims (mem g') (next_id (mem g) + length ms) = Some \<lparr>counter = 1,
      bytes = ctrl_bytes (if p then DISCONNECT_PRED else DISCONNECT_SUCC) (rankToAddr j) @ replicate 6 0\<rparr> \<and>
    (\<forall>b < next_id (mem g). womims (mem g') b = womims (mem g) b) \<and>
    trace g' = trace g @ [Closed c] \<and> comms g' c = None"
  using assms
proof (induction ms arbitrary: g cm inb q xs n)
  case Nil
  then obtain n' where n: "n = Suc n'" by (cases n) auto
  obtain cm' inb' cnt where r: "receive self c inb g = bindE (receive_closed self c ((set_comm c (Some cm') g)\<lparr>counters := cnt\<rparr>))
       (\<lambda>(m, g'). Inr (m, inb', g'))"
    by (rule receive_eof [OF Nil.prems(1-3), where self = self]) (use Nil.prems(4,6) in auto)
  let ?g = "(set_comm c (Some cm') g)\<lparr>counters := cnt\<rparr>" and ?dty = "if p then DISCONNECT_PRED else DISCONNECT_SUCC"
  have a: "searchTComm (Some c) (globalAddrArray ?g) = Inr (j, Some p)"
    "getTComm j p (globalAddrArray ?g) = Inr (Some c)" "comms ?g c = Some cm'"
    using Nil.prems(7,10) by simp_all
  obtain array h where cl: "receive_closed self c ?g = Inr (Some (next_id (mem ?g)),
       (emit (Closed c) (set_comm c None ?g))\<lparr>globalAddrArray := array, mem := h\<rparr>)"
    "womims h = (womims (mem ?g))(next_id (mem ?g) \<mapsto>
       \<lparr>counter = 1, bytes = ctrl_bytes ?dty (rankToAddr j) @ replicate 6 0\<rparr>)"
    using receive_closed_ok [OF a(1) Nil.prems(8,9) a(2,3), where self = self] by metis
  obtain q' where q': "bqueueEnqueue q (Some (next_id (mem g))) = Inr q'" "brep q' (xs @ [next_id (mem g)]) 0"
    using brep_enqueue [OF Nil.prems(11)] by metis
  have "msg_type (ctrl_bytes ?dty (rankToAddr j) @ replicate 6 0) = Inr ?dty"
    by (rule ctrl_bytes_read)
  then have t: "msg_type_at ((emit (Closed c) (set_comm c None ?g))\<lparr>globalAddrArray := array, mem := h\<rparr>) (next_id (mem g)) = Inr ?dty"
    using cl(2) by (simp add: msg_type_at_def get_womim_def)
  have "connectionMgt n self c (q, inb, g) =
      Inr (q', inb', (emit (Closed c) (set_comm c None ?g))\<lparr>globalAddrArray := array, mem := h\<rparr>)"
    using q'(1) t by (simp add: n connectionMgt_turn_def r cl(1))
  then show ?case
    using q'(2) cl(2) by (intro exI conjI) (assumption | simp add: emit_def set_comm_def)+
next
  case (Cons m ms)
  then obtain n' where n: "n = Suc n'" "length ms < n'" by (cases n) auto
  have fr: "framed m" "\<forall>x \<in> set ms. framed x" using Cons.prems(5) by auto
  have m: "m = to_bytes 4 (c_int (length m)) @ drop 4 m" "4 < length m" "length m < 2 ^ 31"
    using fr(1) append_take_drop_id [of 4 m] by (auto simp: framed_def)
  have st: "stream inb = m @ concat ms" "length m \<le> grants (reads inb)" using Cons.prems(4,6) by auto
  let ?a = "next_id (mem g)"
  obtain cm' inb' cnt h where r:
    "receive self c inb g = Inr (Some ?a, inb', (set_comm c (Some cm') g)\<lparr>counters := cnt, mem := h\<rparr>)"
    "\<not> aborted cm'" "stream inb' = concat ms" "calm (reads inb')"
    "grants (reads inb) \<le> grants (reads inb') + length m" "next_id h = Suc ?a"
    "womims h = (womims (mem g))(?a \<mapsto> \<lparr>counter = 1, bytes = m\<rparr>)"
    by (rule receive_ok [OF Cons.prems(1-3) m st, where self = self])
  let ?g = "(set_comm c (Some cm') g)\<lparr>counters := cnt, mem := h\<rparr>"
  obtain q' where q': "bqueueEnqueue q (Some ?a) = Inr q'" "brep q' (xs @ [?a]) 0"
    using brep_enqueue [OF Cons.prems(11)] by metis
  have t: "msg_type_at ?g ?a = Inr (m ! 4)" "m ! 4 \<noteq> DISCONNECT_PRED" "m ! 4 \<noteq> DISCONNECT_SUCC"
    using r(7) m(2) fr(1) by (simp_all add: msg_type_at_def get_womim_def msg_type_nth framed_def)
  have turn: "connectionMgt n self c (q, inb, g) = connectionMgt n' self c (q', inb', ?g)"
    using q'(1) t by (simp add: n connectionMgt_turn_def r(1))
  have "\<exists>q'' inb'' g'. connectionMgt n' self c (q', inb', ?g) = Inr (q'', inb'', g') \<and>
    brep q'' ((xs @ [?a]) @ [next_id (mem ?g)..<Suc (next_id (mem ?g) + length ms)]) 0 \<and>
    (\<forall>i < length ms. womims (mem g') (next_id (mem ?g) + i) = Some \<lparr>counter = 1, bytes = ms ! i\<rparr>) \<and>
    womims (mem g') (next_id (mem ?g) + length ms) = Some \<lparr>counter = 1,
      bytes = ctrl_bytes (if p then DISCONNECT_PRED else DISCONNECT_SUCC) (rankToAddr j) @ replicate 6 0\<rparr> \<and>
    (\<forall>b < next_id (mem ?g). womims (mem g') b = womims (mem ?g) b) \<and>
    trace g' = trace ?g @ [Closed c] \<and> comms g' c = None"
    by (rule Cons.IH [of ?g cm' inb']) (use Cons.prems r q'(2) n(2) fr(2) in \<open>simp_all add: set_comm_def\<close>)
  then obtain q'' inb'' g' where ih: "connectionMgt n' self c (q', inb', ?g) = Inr (q'', inb'', g')"
    "brep q'' (xs @ ?a # [Suc ?a..<Suc (Suc ?a + length ms)]) 0"
    "\<forall>i < length ms. womims (mem g') (Suc ?a + i) = Some \<lparr>counter = 1, bytes = ms ! i\<rparr>"
    "womims (mem g') (Suc ?a + length ms) = Some \<lparr>counter = 1,
      bytes = ctrl_bytes (if p then DISCONNECT_PRED else DISCONNECT_SUCC) (rankToAddr j) @ replicate 6 0\<rparr>"
    "\<forall>b < Suc ?a. womims (mem g') b = womims h b" "trace g' = trace g @ [Closed c]" "comms g' c = None"
    by (auto simp: r(6) set_comm_def)
  have up: "[?a..<Suc (?a + length (m # ms))] = ?a # [Suc ?a..<Suc (Suc ?a + length ms)]"
    by (subst upt_conv_Cons) simp_all
  have "brep q'' (xs @ [?a..<Suc (?a + length (m # ms))]) 0"
    unfolding up by (rule ih(2))
  moreover have "womims (mem g') (?a + i) = Some \<lparr>counter = 1, bytes = (m # ms) ! i\<rparr>" if "i < length (m # ms)" for i
    using that ih(3,5) r(7) by (cases i) auto
  moreover have "womims (mem g') b = womims (mem g) b" if "b < ?a" for b
    using that ih(5) r(7) by auto
  ultimately show ?case
    using ih(1,4,6,7) turn
    by (intro exI [of _ q''] exI [of _ inb''] exI [of _ g']) (simp del: upt_Suc)
qed

section \<open>Looking for a successor\<close>

fun first_open :: "env \<Rightarrow> address list \<Rightarrow> globals \<Rightarrow> (address option \<times> globals) result" where
  "first_open e [] g = Inr (None, g)"
| "first_open e (a # as) g =
     bindE (openConnection e a False g) (\<lambda>(r, g'). if r = 1 then Inr (Some a, g') else first_open e as g')"

text \<open>The other addresses, going up from a rank and round.\<close>

definition others_from :: "int \<Rightarrow> address list" where
  "others_from rank = map (\<lambda>k. rankToAddr ((rank + int k) mod 16)) [1..<16]"

lemma searchSucc_loop_first:
  "1 \<le> k \<Longrightarrow> k \<le> 16 \<Longrightarrow> 16 \<le> n + k \<Longrightarrow> 0 \<le> rank \<Longrightarrow> rank < 16 \<Longrightarrow>
   searchSucc_loop n e rank ((rank + int k) mod 16) g =
     first_open e (map (\<lambda>k. rankToAddr ((rank + int k) mod 16)) [k..<16]) g"
proof (induction n arbitrary: k g)
  case 0
  then have "k = 16" by simp
  then show ?case using 0 by (simp add: searchSucc_loop.simps)
next
  case (Suc n)
  show ?case
  proof (cases "k = 16")
    case True
    then show ?thesis using Suc.prems by (simp add: searchSucc_loop.simps)
  next
    case False
    then have k: "k < 16" using Suc.prems by simp
    have ne: "(rank + int k) mod 16 \<noteq> rank"
      using k Suc.prems by (simp add: mod_int_pos_iff) presburger
    have nxt: "c_mod ((rank + int k) mod 16 + 1) NP = (rank + int (Suc k)) mod 16"
      using mod_add_left_eq [of "rank + int k" 16 1] by (simp add: c_mod_nonneg NP_def add_ac)
    have up: "[k..<16] = k # [Suc k..<16]" using k by (simp add: upt_rec)
    show ?thesis
      unfolding searchSucc_loop.simps [of "Suc n"] up nxt
      using ne k Suc.prems by (auto intro!: bindE_cong simp: Suc.IH [of "Suc k", simplified])
  qed
qed

lemma searchSucc_first:
  assumes "addrToRank ad \<noteq> - 1"
  shows "searchSucc e ad g = bindE (first_open e (others_from (addrToRank ad)) g)
     (\<lambda>(r, g'). Inr (case r of None \<Rightarrow> myAddress g' | Some a \<Rightarrow> a, g'))"
proof -
  have r: "0 \<le> addrToRank ad" "addrToRank ad < 16"
    using assms addrToRank_nonneg [of ad] by auto
  have "c_mod (addrToRank ad + 1) NP = (addrToRank ad + int 1) mod 16"
    using r by (simp add: c_mod_nonneg NP_def)
  then show ?thesis
    using searchSucc_loop_first [of 1 16 "addrToRank ad" e g] r assms
    by (simp add: searchSucc_def NP_def others_from_def Let_def)
qed

end
