(* ===== verification/TrainHandling.thy ===== *)
theory TrainHandling
  imports IoMsg
begin

text \<open>
  \<^verbatim>\<open>trainHandling\<close> of \<^verbatim>\<open>src/stateMachine.c\<close>: what a process does with a recent train. The
  wagons of round \<open>r - 2\<close> of its train become deliverable, the circuit is brought up to
  date, the wagons of the other members of the circuit are kept (unstable) and all but
  those of the successor are to be sent again, the wagon under construction joins the train.
\<close>

definition addrIsMine :: "address \<Rightarrow> globals \<Rightarrow> bool" where
  "addrIsMine ad g \<longleftrightarrow> addrIsEqual ad (myAddress g)"

text \<open>\<^verbatim>\<open>bqueueExtend(wagonsToDeliver, unstableWagons[id][round])\<close>, then \<^verbatim>\<open>cleanList\<close>.\<close>

definition deliver_round :: "int \<Rightarrow> int \<Rightarrow> globals \<Rightarrow> globals result" where
  "deliver_round tid rnd g =
     bindE (deref (wagonsToDeliver g)) (\<lambda>q.
     bindE (get_unstable g tid rnd) (\<lambda>l.
     bindE (bqueueExtend q l) (\<lambda>q'.
     bindE (cleanList l) (\<lambda>l'.
       set_unstable tid rnd l' (g\<lparr>wagonsToDeliver := Some q'\<rparr>)))))"

definition append_unstable :: "int \<Rightarrow> int \<Rightarrow> wiw \<Rightarrow> globals \<Rightarrow> globals result" where
  "append_unstable tid rnd wi g =
     bindE (get_unstable g tid rnd) (\<lambda>l.
     bindE (listAppend l (Some wi)) (\<lambda>l'. set_unstable tid rnd l' g))"

definition count_up :: "nat option \<Rightarrow> globals \<Rightarrow> globals result" where
  "count_up p g = bindE (incr_counter p (mem g)) (\<lambda>h. Inr (g\<lparr>mem := h\<rparr>))"

text \<open>The circuit of the train: brought up to date by train 0, copied from it by the others.\<close>

definition update_circuit :: "int \<Rightarrow> addressSet \<Rightarrow> globals \<Rightarrow> globals result" where
  "update_circuit tid circuit g =
     (if tid = 0
      then bindE (upd_lts 0 (\<lambda>l. l\<lparr>lts_circuit := addrUpdateCircuit circuit (myAddress g) (cameProc g) (goneProc g)\<rparr>) g) (\<lambda>g1.
           bindE (nthE (lts g1) 0) (\<lambda>l0.
           bindE (signalDepartures (goneProc g1) (lts_circuit l0) (g1\<lparr>cameProc := 0\<rparr>)) (\<lambda>g2.
             Inr (g2\<lparr>goneProc := 0\<rparr>))))
      else bindE (nthE (lts g) 0) (\<lambda>l0. upd_lts tid (\<lambda>l. l\<lparr>lts_circuit := lts_circuit l0\<rparr>) g))"

text \<open>\<^verbatim>\<open>releaseWiw(&(lts[id].w.w_w)); lts[id].w.len = 0;\<close>\<close>

definition release_lts :: "int \<Rightarrow> globals \<Rightarrow> globals result" where
  "release_lts tid g =
     bindE (nthE (lts g) tid) (\<lambda>l.
     bindE (releaseWiw (Some (lts_w l)) (mem g)) (\<lambda>(ww, h).
     bindE (deref ww) (\<lambda>w.
       upd_lts tid (\<lambda>l. l\<lparr>lts_w := w, lts_wlen := 0\<rparr>) (g\<lparr>mem := h\<rparr>))))"

text \<open>\<^verbatim>\<open>freeWiw(lts[id].p_wtosend); lts[id].p_wtosend = NULL;\<close>\<close>

definition free_wtosend :: "int \<Rightarrow> globals \<Rightarrow> globals result" where
  "free_wtosend tid g =
     bindE (nthE (lts g) tid) (\<lambda>l.
     bindE (freeWiw (lts_wtosend l) (mem g)) (\<lambda>h.
       upd_lts tid (\<lambda>l. l\<lparr>lts_wtosend := None\<rparr>) (g\<lparr>mem := h\<rparr>)))"

text \<open>The body of the loop over the wagons; \<open>p\<close> is the buffer of the train, \<open>w\<close> the wagon.\<close>

definition keep_wagon :: "nat \<Rightarrow> byte list \<Rightarrow> int \<Rightarrow> int \<Rightarrow> int \<Rightarrow> globals \<Rightarrow> globals result" where
  "keep_wagon p buf tid rnd w g =
     bindE (wagon_sender buf w) (\<lambda>sender.
     bindE (nthE (lts g) tid) (\<lambda>l.
       if addrIsMember sender (lts_circuit l) \<and> \<not> addrIsMember sender (goneProc g) \<and> \<not> addrIsMine sender g
       then let wi = \<lparr>p_wagon = Some (p, w), p_womim = Some p\<rparr> in
            bindE (count_up (Some p) g) (\<lambda>g1.
            bindE (append_unstable tid rnd wi g1) (\<lambda>g2.
              if \<not> addrIsEqual (succ g2) sender
              then bindE (if p_wagon (lts_w l) = None
                          then bindE (upd_lts tid (\<lambda>l. l\<lparr>lts_w := wi\<rparr>) g2) (count_up (Some p))
                          else Inr g2) (\<lambda>g3.
                   bindE (wagon_len buf w) (\<lambda>len.
                     upd_lts tid (\<lambda>l. l\<lparr>lts_wlen := lts_wlen l + len\<rparr>) g3))
              else Inr g2))
       else Inr g))"

text \<open>The wagon under construction, if it has a message, gets the round and joins the train.\<close>

definition take_wagonToSend :: "int \<Rightarrow> int \<Rightarrow> globals \<Rightarrow> globals result" where
  "take_wagonToSend tid rnd g =
     bindE (deref (wagonToSend g)) (\<lambda>wts.
     bindE (with_wagon (mem g) (p_wagon wts) firstMsg) (\<lambda>mp.
       if mp = None then Inr g
       else bindE (deref (p_wagon wts)) (\<lambda>(a, off).
            bindE (get_womim (mem g) (Some a)) (\<lambda>w.
            bindE (wr_char (bytes w) (off + 6) (word_of_int rnd)) (\<lambda>b.
            bindE (count_up (p_womim wts) (g\<lparr>mem := set_womim (mem g) a (Some (w\<lparr>bytes := b\<rparr>))\<rparr>)) (\<lambda>g1.
            bindE (append_unstable tid rnd wts g1) (\<lambda>g2.
            bindE (upd_lts tid (\<lambda>l. l\<lparr>lts_wtosend := Some wts\<rparr>) g2) (\<lambda>g3.
            bindE (newWiw (wagonMaxLen g3) (myAddress g3) (mem g3)) (\<lambda>(wi, h).
              Inr (g3\<lparr>wagonToSend := Some wi, mem := h\<rparr>))))))))))"

definition trainHandling :: "nat \<Rightarrow> globals \<Rightarrow> globals result" where
  "trainHandling p g =
     bindE (get_womim (mem g) (Some p)) (\<lambda>wo.
     bindE (train_stamp (bytes wo)) (\<lambda>st.
     bindE (msg_len (bytes wo)) (\<lambda>len.
     let tid = sint (stamp_id st);
         g1 = g\<lparr>counters := (counters g)\<lparr>recent_trains_received := recent_trains_received (counters g) + 1,
                recent_trains_bytes_received := recent_trains_bytes_received (counters g) + scast len\<rparr>\<rparr>
     in
     bindE (nthE (lts g1) tid) (\<lambda>l.
     let rnd = (if stamp_round st = stamp_round (lts_stamp l)
                  then c_mod (sint (stamp_round st) + 1) NR else sint (stamp_round st))
     in
     bindE (deliver_round tid (c_mod (rnd - 2 + NR) NR) g1) (\<lambda>g2.
     bindE (train_circuit (bytes wo)) (\<lambda>circuit.
     bindE (update_circuit tid circuit g2) (\<lambda>g3.
     bindE (release_lts tid g3) (\<lambda>g4.
     bindE (free_wtosend tid g4) (\<lambda>g5.
     bindE (get_womim (mem g5) (Some p)) (\<lambda>wo'.
     bindE (each_wagon (bytes wo') (keep_wagon p (bytes wo') tid rnd) g5) (\<lambda>g6.
     bindE (upd_lts tid (\<lambda>l. l\<lparr>lts_stamp := (lts_stamp l)\<lparr>stamp_round := word_of_int rnd\<rparr>\<rparr>) g6) (\<lambda>g7.
     bindE (take_wagonToSend tid rnd g7) (\<lambda>g8.
       upd_lts tid (\<lambda>l. l\<lparr>lts_stamp := (lts_stamp l)\<lparr>stamp_lc := stamp_lc st + 1\<rparr>\<rparr>) g8)))))))))))))"

end
