(* ===== verification/TrainInvariant.thy ===== *)
theory TrainInvariant
  imports TrainHandling
begin

text \<open>
  The invariant of the buffers and of the tables of the automaton, kept by every operation
  on them, and what \<^verbatim>\<open>trainHandling\<close> does with a well-formed train. A reference to a
  wagon is paired with the wagon it designates; \<open>D\<close> are the wagons to deliver, \<open>U t r\<close> the
  unstable wagons of round \<open>r\<close> of train \<open>t\<close>, \<open>lk\<close> the references that no table of the
  automaton holds (the message being treated, for instance).
\<close>

section \<open>References held\<close>

type_synonym held = "(wiw \<times> awagon) list"

definition wrefs :: "held \<Rightarrow> nat multiset" where
  "wrefs xs = mset (map (wagon_ref \<circ> fst) xs)"

definition held_ok :: "heap \<Rightarrow> held \<Rightarrow> bool" where
  "held_ok h xs \<longleftrightarrow> (\<forall>(wi, wg) \<in> set xs. wagon_at h wi wg)"

definition U_refs :: "(nat \<Rightarrow> nat \<Rightarrow> held) \<Rightarrow> nat multiset" where
  "U_refs U = (\<Sum>t<16. \<Sum>r<3. wrefs (U t r))"

definition lref :: "ltsStruct \<Rightarrow> nat multiset" where
  "lref l = (case p_womim (lts_w l) of None \<Rightarrow> {#} | Some a \<Rightarrow> {#a#}) +
            (case lts_wtosend l of None \<Rightarrow> {#} | Some wi \<Rightarrow> {#wagon_ref wi#})"

definition lts_refs :: "ltsStruct list \<Rightarrow> nat multiset" where
  "lts_refs ls = sum_list (map lref ls)"

lemma wrefs_simps [simp]:
  "wrefs [] = {#}" "wrefs (x # xs) = add_mset (wagon_ref (fst x)) (wrefs xs)" "wrefs (xs @ ys) = wrefs xs + wrefs ys"
  by (simp_all add: wrefs_def)

lemma held_ok_simps [simp]:
  "held_ok h []" "held_ok h (x # xs) \<longleftrightarrow> wagon_at h (fst x) (snd x) \<and> held_ok h xs"
  "held_ok h (xs @ ys) \<longleftrightarrow> held_ok h xs \<and> held_ok h ys"
  by (auto simp: held_ok_def)

lemma sum_fun_upd:
  fixes f :: "'i \<Rightarrow> 'a multiset"
  assumes "finite A" "i \<in> A"
  shows "(\<Sum>x\<in>A. (f(i := v)) x) + f i = (\<Sum>x\<in>A. f x) + v"
proof -
  have "(\<Sum>x\<in>A - {i}. (f(i := v)) x) = (\<Sum>x\<in>A - {i}. f x)" by (rule sum.cong) auto
  then show ?thesis
    using sum.remove [OF assms, of "f(i := v)"] sum.remove [OF assms, of f] by (simp add: ac_simps)
qed

lemma U_refs_upd:
  assumes "t < 16" "r < 3"
  shows "U_refs (U(t := (U t)(r := xs))) + wrefs (U t r) = U_refs U + wrefs xs"
proof -
  let ?f = "\<lambda>t. \<Sum>r<3. wrefs (U t r)" and ?v = "\<Sum>r<3. wrefs (((U t)(r := xs)) r)"
  have a: "(\<lambda>r'. wrefs (((U t)(r := xs)) r')) = (\<lambda>r. wrefs (U t r))(r := wrefs xs)"
    by (rule ext) simp
  have b: "(\<lambda>t'. \<Sum>r'<3. wrefs ((U(t := (U t)(r := xs))) t' r')) = ?f(t := \<Sum>r'<3. wrefs (((U t)(r := xs)) r'))"
    by (rule ext) simp
  have 1: "(\<Sum>r'<3. wrefs (((U t)(r := xs)) r')) + wrefs (U t r) = ?f t + wrefs xs"
    unfolding a by (rule sum_fun_upd) (use assms in simp_all)
  have 2: "U_refs (U(t := (U t)(r := xs))) + ?f t = U_refs U + (\<Sum>r'<3. wrefs (((U t)(r := xs)) r'))"
    unfolding U_refs_def b by (rule sum_fun_upd) (use assms in simp_all)
  have "U_refs (U(t := (U t)(r := xs))) + wrefs (U t r) + ?f t = U_refs U + wrefs xs + ?f t"
    using 1 2 by (simp add: ac_simps)
  then show ?thesis by simp
qed

lemma lts_refs_upd: "i < length ls \<Longrightarrow> lts_refs (ls[i := l]) + lref (ls ! i) = lts_refs ls + lref l"
  unfolding lts_refs_def
  by (induction ls arbitrary: i) (auto simp: ac_simps split: nat.splits)

lemma lts_refs_same: "i < length ls \<Longrightarrow> lref l = lref (ls ! i) \<Longrightarrow> lts_refs (ls[i := l]) = lts_refs ls"
  using lts_refs_upd [of i ls l] by simp

lemma in_U_refs: "x \<in> set (U t r) \<Longrightarrow> t < 16 \<Longrightarrow> r < 3 \<Longrightarrow> wagon_ref (fst x) \<in># U_refs U"
  by (force simp: U_refs_def wrefs_def set_mset_sum)

lemma in_wrefs: "x \<in> set xs \<Longrightarrow> wagon_ref (fst x) \<in># wrefs xs"
  by (auto simp: wrefs_def)

lemma in_lts_refs: "l \<in> set ls \<Longrightarrow> a \<in># lref l \<Longrightarrow> a \<in># lts_refs ls"
  unfolding lts_refs_def by (induction ls) auto

lemma lref_subset: "l \<in> set ls \<Longrightarrow> lref l \<subseteq># lts_refs ls"
proof (induction ls)
  case (Cons x ls)
  have "lref l \<subseteq># lts_refs ls \<Longrightarrow> lref l \<subseteq># lref x + lts_refs ls"
    by (rule subset_mset.add_increasing) simp_all
  with Cons show ?case by (auto simp: lts_refs_def)
qed simp

section \<open>The invariant\<close>

definition lts_ok :: "heap \<Rightarrow> ltsStruct \<Rightarrow> bool" where
  "lts_ok h l \<longleftrightarrow>
     (p_wagon (lts_w l) = None \<longrightarrow> lts_wlen l = 0) \<and>
     (\<forall>a off. p_wagon (lts_w l) = Some (a, off) \<longrightarrow> p_womim (lts_w l) = Some a \<and>
        (\<exists>w. womims h a = Some w \<and> 0 \<le> off \<and> off + int (iov_len (lts_wlen l)) \<le> int (length (bytes w)))) \<and>
     (case lts_wtosend l of None \<Rightarrow> True | Some wi \<Rightarrow> \<exists>wg. wagon_at h wi wg)"

definition tables :: "globals \<Rightarrow> (nat \<Rightarrow> nat \<Rightarrow> held) \<Rightarrow> bool" where
  "tables g U \<longleftrightarrow> length (lts g) = 16 \<and> length (unstableWagons g) = 16 \<and>
     (\<forall>t<16. length (unstableWagons g ! t) = 3) \<and> 1 \<le> ntr g \<and> ntr g \<le> 16 \<and>
     (\<forall>t<nat (ntr g). \<forall>r<3. \<exists>l. unstableWagons g ! t ! r = Some l \<and> lrep l (map fst (U t r)))"

definition all_refs :: "globals \<Rightarrow> held \<Rightarrow> (nat \<Rightarrow> nat \<Rightarrow> held) \<Rightarrow> nat multiset" where
  "all_refs g D U = wrefs D + U_refs U + lts_refs (lts g)"

definition consistent :: "globals \<Rightarrow> held \<Rightarrow> (nat \<Rightarrow> nat \<Rightarrow> held) \<Rightarrow> nat multiset \<Rightarrow> nat \<Rightarrow> awagon \<Rightarrow> bool" where
  "consistent g D U lk cap wg \<longleftrightarrow>
     tables g U \<and> (\<exists>q. wagonsToDeliver g = Some q \<and> brep q (map fst D) 0) \<and>
     building g (all_refs g D U + lk) cap wg \<and> wagonMaxLen g \<le> int cap \<and>
     held_ok (mem g) D \<and> (\<forall>t<16. \<forall>r<3. held_ok (mem g) (U t r)) \<and> (\<forall>l \<in> set (lts g). lts_ok (mem g) l)"

text \<open>Buffers whose bytes are kept.\<close>

definition keeps :: "heap \<Rightarrow> heap \<Rightarrow> nat multiset \<Rightarrow> bool" where
  "keeps h h' R \<longleftrightarrow> (\<forall>a w. a \<in># R \<longrightarrow> womims h a = Some w \<longrightarrow> (\<exists>w'. womims h' a = Some w' \<and> bytes w' = bytes w))"

lemma keepsD: "keeps h h' R \<Longrightarrow> a \<in># R \<Longrightarrow> womims h a = Some w \<Longrightarrow> \<exists>w'. womims h' a = Some w' \<and> bytes w' = bytes w"
  unfolding keeps_def by blast

lemma keeps_refl: "keeps h h R"
  by (simp add: keeps_def)

lemma keeps_trans: "keeps h h' R \<Longrightarrow> keeps h' h'' R \<Longrightarrow> keeps h h'' R"
  unfolding keeps_def by metis

lemma keeps_subset: "keeps h h' R \<Longrightarrow> R' \<subseteq># R \<Longrightarrow> keeps h h' R'"
  unfolding keeps_def by (meson mset_subset_eqD)

lemma wagon_at_keeps: "wagon_at h wi wg \<Longrightarrow> keeps h h' R \<Longrightarrow> wagon_ref wi \<in># R \<Longrightarrow> wagon_at h' wi wg"
  by (erule wagon_at_mono) (erule keepsD)

lemma held_ok_keeps:
  assumes "held_ok h xs" "keeps h h' R" "\<And>x. x \<in> set xs \<Longrightarrow> wagon_ref (fst x) \<in># R"
  shows "held_ok h' xs"
  unfolding held_ok_def
proof (intro ballI)
  fix x assume x: "x \<in> set xs"
  obtain wi wg where eq: "x = (wi, wg)" by (cases x)
  have "wagon_at h wi wg" using assms(1) x by (auto simp: held_ok_def eq)
  then have "wagon_at h' wi wg" by (rule wagon_at_keeps [OF _ assms(2)]) (use assms(3) [OF x] in \<open>simp add: eq\<close>)
  then show "case x of (wi, wg) \<Rightarrow> wagon_at h' wi wg" by (simp add: eq)
qed

lemma lts_ok_keeps:
  assumes "lts_ok h l" "keeps h h' R" "lref l \<subseteq># R"
  shows "lts_ok h' l"
proof -
  have kept: "\<exists>w'. womims h' a = Some w' \<and> bytes w' = bytes w" if "a \<in># lref l" "womims h a = Some w" for a w
    using keepsD [OF assms(2)] mset_subset_eqD [OF assms(3)] that by blast
  have region: "\<exists>w. womims h' a = Some w \<and> 0 \<le> off \<and> off + int (iov_len (lts_wlen l)) \<le> int (length (bytes w))"
    if a: "p_wagon (lts_w l) = Some (a, off)" for a off
  proof -
    from assms(1) a obtain w where w: "p_womim (lts_w l) = Some a" "womims h a = Some w" "0 \<le> off"
      "off + int (iov_len (lts_wlen l)) \<le> int (length (bytes w))"
      by (auto simp: lts_ok_def)
    then have "a \<in># lref l" by (simp add: lref_def)
    from kept [OF this w(2)] w(3,4) show ?thesis by auto
  qed
  have own: "\<exists>wg. wagon_at h' wi wg" if wi: "lts_wtosend l = Some wi" for wi
  proof -
    from assms(1) wi obtain wg where "wagon_at h wi wg" by (auto simp: lts_ok_def)
    moreover have "wagon_ref wi \<in># lref l" using wi by (simp add: lref_def)
    ultimately have "wagon_at h' wi wg" by (intro wagon_at_keeps [OF _ assms(2)]) (auto intro: mset_subset_eqD [OF assms(3)])
    then show ?thesis ..
  qed
  show ?thesis
    using assms(1) region own unfolding lts_ok_def by (auto split: option.splits)
qed

section \<open>Counting up and down\<close>

lemma buildingE:
  assumes "building g R cap wg"
  obtains a w where "wagonToSend g = Some \<lparr>p_wagon = Some (a, 0), p_womim = Some a\<rparr>"
    "womims (mem g) a = Some w" "length (bytes w) = cap" "holds (bytes w) 0 (enc_wagon wg)" "a \<notin># R"
    "counts (mem g) (add_mset a R)"
  using assms by (auto simp: building_def building_at_def)

lemma buildingI:
  assumes "wagonToSend g = Some \<lparr>p_wagon = Some (a, 0), p_womim = Some a\<rparr>"
    "womims (mem g) a = Some w" "length (bytes w) = cap" "holds (bytes w) 0 (enc_wagon wg)" "a \<notin># R"
    "counts (mem g) (add_mset a R)"
  shows "building g R cap wg"
  using assms by (auto simp: building_def building_at_def)

lemma building_incr:
  assumes "building g R cap wg" "a \<in># R"
  obtains h where "incr_counter (Some a) (mem g) = Inr h" "building (g\<lparr>mem := h\<rparr>) (add_mset a R) cap wg"
    "keeps (mem g) h R"
proof -
  obtain b w where b: "wagonToSend g = Some \<lparr>p_wagon = Some (b, 0), p_womim = Some b\<rparr>"
    "womims (mem g) b = Some w" "length (bytes w) = cap" "holds (bytes w) 0 (enc_wagon wg)" "b \<notin># R"
    "counts (mem g) (add_mset b R)"
    by (rule buildingE [OF assms(1)])
  have "a \<in># add_mset b R" using assms(2) by simp
  then obtain v where v: "womims (mem g) a = Some v" by (rule counts_get [OF b(6)])
  let ?h = "set_womim (mem g) a (Some (v\<lparr>counter := counter v + 1\<rparr>))"
  have "counts ?h (add_mset a (add_mset b R))"
    by (rule counts_incr [OF b(6) v]) (use assms(2) in simp)
  then have c: "counts ?h (add_mset b (add_mset a R))" by (simp add: add_mset_commute)
  have ne: "a \<noteq> b" using assms(2) b(5) by auto
  have "building (g\<lparr>mem := ?h\<rparr>) (add_mset a R) cap wg"
    by (rule buildingI [of _ b w]) (use b ne c in simp_all)
  moreover have "keeps (mem g) ?h R" using v by (auto simp: keeps_def)
  ultimately show thesis by (intro that [of ?h]) (simp_all add: incr_counter_def get_womim_def v)
qed

lemma building_free:
  assumes "building g (add_mset a R) cap wg"
  obtains h where "freeWomim (Some a) (mem g) = Inr h" "building (g\<lparr>mem := h\<rparr>) R cap wg" "keeps (mem g) h R"
proof -
  obtain b w where b: "wagonToSend g = Some \<lparr>p_wagon = Some (b, 0), p_womim = Some b\<rparr>"
    "womims (mem g) b = Some w" "length (bytes w) = cap" "holds (bytes w) 0 (enc_wagon wg)" "b \<notin># add_mset a R"
    "counts (mem g) (add_mset b (add_mset a R))"
    by (rule buildingE [OF assms(1)])
  then have "counts (mem g) (add_mset a (add_mset b R))" by (simp add: add_mset_commute)
  then obtain h where h: "freeWomim (Some a) (mem g) = Inr h" "counts h (add_mset b R)"
    "\<And>c w. c \<in># add_mset b R \<Longrightarrow> womims (mem g) c = Some w \<Longrightarrow> \<exists>w'. womims h c = Some w' \<and> bytes w' = bytes w"
    by (rule freeWomim_counts) metis
  from h(3) [of b w] b(2) obtain w' where w': "womims h b = Some w'" "bytes w' = bytes w" by auto
  have "building (g\<lparr>mem := h\<rparr>) R cap wg"
    by (rule buildingI [of _ b w']) (use b h(2) w' in simp_all)
  moreover have "keeps (mem g) h R" using h(3) by (auto simp: keeps_def)
  ultimately show thesis by (intro that [OF h(1)])
qed

lemma releaseWiw_free:
  "releaseWiw (Some r) h = (case p_womim r of None \<Rightarrow> Inr (Some r, h)
     | Some a \<Rightarrow> bindE (freeWomim (Some a) h) (\<lambda>h'. Inr (Some \<lparr>p_wagon = None, p_womim = None\<rparr>, h')))"
  by (simp add: releaseWiw_def freeWomim_def Let_def bindE_assoc split: option.splits)

lemma all_held_keeps:
  assumes "consistent g D U lk cap wg" "keeps (mem g) h (all_refs g D U)"
  shows "held_ok h D" "\<And>t r. t < 16 \<Longrightarrow> r < 3 \<Longrightarrow> held_ok h (U t r)" "\<And>l. l \<in> set (lts g) \<Longrightarrow> lts_ok h l"
proof -
  show "held_ok h D"
    by (rule held_ok_keeps [OF _ assms(2)]) (use assms(1) in \<open>auto simp: consistent_def all_refs_def in_wrefs\<close>)
  show "held_ok h (U t r)" if "t < 16" "r < 3" for t r
    by (rule held_ok_keeps [OF _ assms(2)])
      (use assms(1) that in \<open>auto simp: consistent_def all_refs_def intro: in_U_refs\<close>)
  show "lts_ok h l" if l: "l \<in> set (lts g)" for l
  proof (rule lts_ok_keeps [OF _ assms(2)])
    show "lts_ok (mem g) l" using assms(1) l by (simp add: consistent_def)
    have "lref l \<subseteq># lts_refs (lts g)" using l by (rule lref_subset)
    then show "lref l \<subseteq># all_refs g D U" unfolding all_refs_def by (simp add: subset_mset.add_increasing)
  qed
qed

lemma consistent_heap:
  assumes "consistent g D U lk cap wg" "building g' (all_refs g D U + lk') cap' wg'" "wagonMaxLen g \<le> int cap'"
    "keeps (mem g) (mem g') (all_refs g D U)" "lts g' = lts g" "unstableWagons g' = unstableWagons g"
    "ntr g' = ntr g" "wagonsToDeliver g' = wagonsToDeliver g" "wagonMaxLen g' = wagonMaxLen g"
  shows "consistent g' D U lk' cap' wg'"
proof -
  have refs: "all_refs g' D U = all_refs g D U" using assms(5) by (simp add: all_refs_def)
  show ?thesis
    using assms all_held_keeps [OF assms(1,4)] unfolding consistent_def refs by (simp add: tables_def)
qed

section \<open>The operations on the tables\<close>

lemma consistent_lts:
  assumes "consistent g D U lk cap wg" "t < 16" "lts_ok (mem g) l" "lref l + lk' = lref (lts g ! t) + lk"
  shows "consistent (g\<lparr>lts := (lts g)[t := l]\<rparr>) D U lk' cap wg"
proof -
  let ?g = "g\<lparr>lts := (lts g)[t := l]\<rparr>"
  have len: "t < length (lts g)" using assms(1,2) by (simp add: consistent_def tables_def)
  have "lts_refs ((lts g)[t := l]) + lk' + lref (lts g ! t) = lts_refs (lts g) + lk + lref (lts g ! t)"
    using lts_refs_upd [OF len, of l] assms(4) by (metis add.assoc add.commute)
  then have "all_refs ?g D U + lk' = all_refs g D U + lk" by (simp add: all_refs_def ac_simps)
  moreover have "lts_ok (mem g) x" if "x \<in> set ((lts g)[t := l])" for x
    using that assms(1,3) set_update_subset_insert [of "lts g" t l] by (auto simp: consistent_def)
  ultimately show ?thesis
    using assms(1) by (simp add: consistent_def tables_def building_def)
qed

lemma upd_lts_nat: "t < length (lts g) \<Longrightarrow> upd_lts (int t) f g = Inr (g\<lparr>lts := (lts g)[t := f (lts g ! t)]\<rparr>)"
  by (simp add: upd_lts_def)

lemma consistent_len: "consistent g D U lk cap wg \<Longrightarrow> length (lts g) = 16"
  by (simp add: consistent_def tables_def)

lemma tables_lt: "tables g U \<Longrightarrow> t < nat (ntr g) \<Longrightarrow> t < 16"
  unfolding tables_def by linarith

lemma swap_mem_lts: "g\<lparr>mem := h, lts := ls\<rparr> = g\<lparr>lts := ls, mem := h\<rparr>"
  by simp

lemma swap_us_lts: "g\<lparr>unstableWagons := us, lts := ls\<rparr> = g\<lparr>lts := ls, unstableWagons := us\<rparr>"
  by simp

lemma swap_mem_us: "g\<lparr>mem := h, unstableWagons := us\<rparr> = g\<lparr>unstableWagons := us, mem := h\<rparr>"
  by simp

text \<open>Reading and replacing a list of unstable wagons.\<close>

lemma get_unstable_ok:
  assumes "tables g U" "t < nat (ntr g)" "r < 3"
  obtains l where "get_unstable g (int t) (int r) = Inr l" "lrep l (map fst (U t r))"
proof -
  have t: "t < 16" by (rule tables_lt [OF assms(1,2)])
  have "\<exists>l. unstableWagons g ! t ! r = Some l \<and> lrep l (map fst (U t r))"
    using assms unfolding tables_def by blast
  then obtain l where l: "unstableWagons g ! t ! r = Some l" "lrep l (map fst (U t r))" by blast
  then have "get_unstable g (int t) (int r) = Inr l"
    using assms t by (simp add: get_unstable_def tables_def)
  then show thesis using l(2) by (rule that)
qed

lemma set_unstable_ok:
  assumes "tables g U" "t < nat (ntr g)" "r < 3" "lrep l (map fst xs)"
  obtains us where "set_unstable (int t) (int r) l g = Inr (g\<lparr>unstableWagons := us\<rparr>)"
    "tables (g\<lparr>unstableWagons := us\<rparr>) (U(t := (U t)(r := xs)))"
proof -
  have t: "t < 16" by (rule tables_lt [OF assms(1,2)])
  let ?us = "(unstableWagons g)[t := (unstableWagons g ! t)[r := Some l]]"
  have "set_unstable (int t) (int r) l g = Inr (g\<lparr>unstableWagons := ?us\<rparr>)"
    using assms(1,3) t by (simp add: set_unstable_def tables_def)
  moreover have "tables (g\<lparr>unstableWagons := ?us\<rparr>) (U(t := (U t)(r := xs)))"
    using assms t by (auto simp: tables_def nth_list_update)
  ultimately show thesis by (rule that)
qed

lemma deliver_round_ok:
  assumes "consistent g D U lk cap wg" "t < nat (ntr g)" "r < 3"
  obtains q us where "deliver_round (int t) (int r) g = Inr (g\<lparr>wagonsToDeliver := Some q, unstableWagons := us\<rparr>)"
    "consistent (g\<lparr>wagonsToDeliver := Some q, unstableWagons := us\<rparr>) (D @ U t r) (U(t := (U t)(r := []))) lk cap wg"
proof -
  let ?U = "U(t := (U t)(r := []))"
  have tab: "tables g U" using assms(1) by (simp add: consistent_def)
  then have t: "t < 16" using assms(2) by (rule tables_lt)
  obtain q where q: "wagonsToDeliver g = Some q" "brep q (map fst D) 0"
    using assms(1) by (auto simp: consistent_def)
  obtain l where l: "get_unstable g (int t) (int r) = Inr l" "lrep l (map fst (U t r))"
    by (rule get_unstable_ok [OF tab assms(2,3)])
  obtain q' where q': "bqueueExtend q l = Inr q'" "brep q' (map fst D @ map fst (U t r)) 0"
    by (rule brep_extend [OF q(2) l(2)])
  obtain l' where l': "cleanList l = Inr l'" "lrep l' []"
    by (rule lrep_cleanList [OF l(2)])
  have "tables (g\<lparr>wagonsToDeliver := Some q'\<rparr>) U" using tab by (simp add: tables_def)
  then obtain us where us: "set_unstable (int t) (int r) l' (g\<lparr>wagonsToDeliver := Some q'\<rparr>) =
      Inr (g\<lparr>wagonsToDeliver := Some q', unstableWagons := us\<rparr>)"
    "tables (g\<lparr>wagonsToDeliver := Some q', unstableWagons := us\<rparr>) ?U"
    using set_unstable_ok [of "g\<lparr>wagonsToDeliver := Some q'\<rparr>" U t r l' "[]"] assms(2,3) l'(2) by auto
  have refs: "all_refs (g\<lparr>wagonsToDeliver := Some q', unstableWagons := us\<rparr>) (D @ U t r) ?U = all_refs g D U"
    using U_refs_upd [OF t assms(3), of U "[]"] by (simp add: all_refs_def ac_simps)
  show thesis
  proof (rule that [where q = q' and us = us])
    show "deliver_round (int t) (int r) g = Inr (g\<lparr>wagonsToDeliver := Some q', unstableWagons := us\<rparr>)"
      using q(1) l(1) q'(1) l'(1) us(1) by (simp add: deliver_round_def)
    show "consistent (g\<lparr>wagonsToDeliver := Some q', unstableWagons := us\<rparr>) (D @ U t r) ?U lk cap wg"
      using assms(1,3) t us(2) q'(2) unfolding consistent_def refs by (auto simp: building_def)
  qed
qed

lemma append_unstable_ok:
  assumes "consistent g D U (add_mset (wagon_ref wi) lk) cap wg" "t < nat (ntr g)" "r < 3" "wagon_at (mem g) wi w"
  obtains us where "append_unstable (int t) (int r) wi g = Inr (g\<lparr>unstableWagons := us\<rparr>)"
    "consistent (g\<lparr>unstableWagons := us\<rparr>) D (U(t := (U t)(r := U t r @ [(wi, w)]))) lk cap wg"
proof -
  let ?U = "U(t := (U t)(r := U t r @ [(wi, w)]))"
  have tab: "tables g U" using assms(1) by (simp add: consistent_def)
  then have t: "t < 16" using assms(2) by (rule tables_lt)
  obtain l where l: "get_unstable g (int t) (int r) = Inr l" "lrep l (map fst (U t r))"
    by (rule get_unstable_ok [OF tab assms(2,3)])
  obtain l' where l': "listAppend l (Some wi) = Inr l'" "lrep l' (map fst (U t r) @ [wi])"
    by (rule lrep_append [OF l(2)])
  then have "lrep l' (map fst (U t r @ [(wi, w)]))" by simp
  then obtain us where us: "set_unstable (int t) (int r) l' g = Inr (g\<lparr>unstableWagons := us\<rparr>)"
    "tables (g\<lparr>unstableWagons := us\<rparr>) ?U"
    by (rule set_unstable_ok [OF tab assms(2,3)])
  have "U_refs ?U = add_mset (wagon_ref wi) (U_refs U)"
    using U_refs_upd [OF t assms(3), of U "U t r @ [(wi, w)]"] by (simp add: ac_simps)
  then have refs: "all_refs (g\<lparr>unstableWagons := us\<rparr>) D ?U + lk = all_refs g D U + add_mset (wagon_ref wi) lk"
    by (simp add: all_refs_def ac_simps)
  show thesis
  proof (rule that [of us])
    show "append_unstable (int t) (int r) wi g = Inr (g\<lparr>unstableWagons := us\<rparr>)"
      using l(1) l'(1) us(1) by (simp add: append_unstable_def)
    show "consistent (g\<lparr>unstableWagons := us\<rparr>) D ?U lk cap wg"
      using assms(1,3,4) t us(2) unfolding consistent_def refs by (auto simp: building_def)
  qed
qed

lemma count_up_ok:
  assumes "consistent g D U lk cap wg" "a \<in># all_refs g D U + lk"
  obtains h where "count_up (Some a) g = Inr (g\<lparr>mem := h\<rparr>)" "consistent (g\<lparr>mem := h\<rparr>) D U (add_mset a lk) cap wg"
    "keeps (mem g) h (all_refs g D U + lk)"
proof -
  have b: "building g (all_refs g D U + lk) cap wg" and W: "wagonMaxLen g \<le> int cap"
    using assms(1) by (simp_all add: consistent_def)
  obtain h where h: "incr_counter (Some a) (mem g) = Inr h"
    "building (g\<lparr>mem := h\<rparr>) (add_mset a (all_refs g D U + lk)) cap wg" "keeps (mem g) h (all_refs g D U + lk)"
    by (rule building_incr [OF b assms(2)])
  have "consistent (g\<lparr>mem := h\<rparr>) D U (add_mset a lk) cap wg"
    by (rule consistent_heap [OF assms(1) _ W]) (use h(2) keeps_subset [OF h(3)] in simp_all)
  then show thesis using h(1,3) by (intro that [of h]) (simp_all add: count_up_def)
qed

lemma free_msg_heap:
  assumes "consistent g D U (add_mset a lk) cap wg"
  obtains h where "freeWomim (Some a) (mem g) = Inr h" "consistent (g\<lparr>mem := h\<rparr>) D U lk cap wg"
    "keeps (mem g) h (all_refs g D U + lk)"
proof -
  have b: "building g (add_mset a (all_refs g D U + lk)) cap wg" and W: "wagonMaxLen g \<le> int cap"
    using assms by (simp_all add: consistent_def)
  obtain h where h: "freeWomim (Some a) (mem g) = Inr h" "building (g\<lparr>mem := h\<rparr>) (all_refs g D U + lk) cap wg"
    "keeps (mem g) h (all_refs g D U + lk)"
    by (rule building_free [OF b])
  have "consistent (g\<lparr>mem := h\<rparr>) D U lk cap wg"
    by (rule consistent_heap [OF assms(1) _ W]) (use h(2) keeps_subset [OF h(3)] in simp_all)
  then show thesis using h(1,3) by (intro that [of h])
qed

definition no_wiw :: wiw where "no_wiw = \<lparr>p_wagon = None, p_womim = None\<rparr>"

text \<open>The references of the last train are given up: what is left is a train without wagons.\<close>

lemma release_lts_ok:
  fixes t defines "l \<equiv> \<lambda>g. (lts g ! t)\<lparr>lts_w := no_wiw, lts_wlen := 0\<rparr>"
  assumes "consistent g D U lk cap wg" "t < 16"
  obtains h where "release_lts (int t) g = Inr (g\<lparr>mem := h, lts := (lts g)[t := l g]\<rparr>)"
    "consistent (g\<lparr>mem := h, lts := (lts g)[t := l g]\<rparr>) D U lk cap wg" "keeps (mem g) h lk"
proof -
  have len: "length (lts g) = 16" by (rule consistent_len [OF assms(2)])
  have ok: "lts_ok (mem g) (lts g ! t)" using assms(2,3) len by (simp add: consistent_def)
  show thesis
  proof (cases "p_womim (lts_w (lts g ! t))")
    case None
    then have w: "lts_w (lts g ! t) = no_wiw"
      using ok by (cases "p_wagon (lts_w (lts g ! t))") (auto simp: lts_ok_def no_wiw_def)
    have "consistent (g\<lparr>lts := (lts g)[t := l g]\<rparr>) D U lk cap wg"
      by (rule consistent_lts [OF assms(2,3)]) (use ok w in \<open>auto simp: lts_ok_def lref_def no_wiw_def l_def\<close>)
    moreover have "release_lts (int t) g = Inr (g\<lparr>mem := mem g, lts := (lts g)[t := l g]\<rparr>)"
      using len assms(3) None w
      by (simp add: release_lts_def upd_lts_nat releaseWiw_def l_def no_wiw_def) 
    ultimately show thesis by (intro that [of "mem g"]) (simp_all add: keeps_refl)
  next
    case (Some a)
    let ?lk = "add_mset a lk"
    have one: "consistent (g\<lparr>lts := (lts g)[t := l g]\<rparr>) D U ?lk cap wg"
      by (rule consistent_lts [OF assms(2,3)]) (use ok Some in \<open>auto simp: lts_ok_def lref_def no_wiw_def l_def\<close>)
    then obtain h where h: "freeWomim (Some a) (mem g) = Inr h"
      "consistent (g\<lparr>lts := (lts g)[t := l g], mem := h\<rparr>) D U lk cap wg"
      "keeps (mem g) h (all_refs (g\<lparr>lts := (lts g)[t := l g]\<rparr>) D U + lk)"
      by (rule free_msg_heap) auto
    have "release_lts (int t) g = Inr (g\<lparr>mem := h, lts := (lts g)[t := l g]\<rparr>)"
      using len assms(3) Some h(1)
      by (simp add: release_lts_def upd_lts_nat releaseWiw_free l_def no_wiw_def)
    moreover have "keeps (mem g) h lk" by (rule keeps_subset [OF h(3)]) simp
    ultimately show thesis using h(2) by (intro that [of h]) (simp_all add: swap_mem_lts)
  qed
qed

lemma free_wtosend_ok:
  fixes t defines "l \<equiv> \<lambda>g. (lts g ! t)\<lparr>lts_wtosend := None\<rparr>"
  assumes "consistent g D U lk cap wg" "t < 16"
  obtains h where "free_wtosend (int t) g = Inr (g\<lparr>mem := h, lts := (lts g)[t := l g]\<rparr>)"
    "consistent (g\<lparr>mem := h, lts := (lts g)[t := l g]\<rparr>) D U lk cap wg" "keeps (mem g) h lk"
proof -
  have len: "length (lts g) = 16" by (rule consistent_len [OF assms(2)])
  have ok: "lts_ok (mem g) (lts g ! t)" using assms(2,3) len by (simp add: consistent_def)
  show thesis
  proof (cases "lts_wtosend (lts g ! t)")
    case None
    have "consistent (g\<lparr>lts := (lts g)[t := l g]\<rparr>) D U lk cap wg"
      by (rule consistent_lts [OF assms(2,3)]) (use ok None in \<open>auto simp: lts_ok_def lref_def l_def\<close>)
    moreover have "free_wtosend (int t) g = Inr (g\<lparr>mem := mem g, lts := (lts g)[t := l g]\<rparr>)"
      using len assms(3) None
      by (simp add: free_wtosend_def upd_lts_nat freeWiw_def releaseWiw_def l_def)
    ultimately show thesis by (intro that [of "mem g"]) (simp_all add: keeps_refl)
  next
    case (Some wi)
    then obtain a off where wi: "wi = \<lparr>p_wagon = Some (a, off), p_womim = Some a\<rparr>"
      using ok by (auto simp: lts_ok_def wagon_at_def)
    have one: "consistent (g\<lparr>lts := (lts g)[t := l g]\<rparr>) D U (add_mset a lk) cap wg"
      by (rule consistent_lts [OF assms(2,3)]) (use ok Some wi in \<open>auto simp: lts_ok_def lref_def l_def wagon_ref_def\<close>)
    then obtain h where h: "freeWomim (Some a) (mem g) = Inr h"
      "consistent (g\<lparr>lts := (lts g)[t := l g], mem := h\<rparr>) D U lk cap wg"
      "keeps (mem g) h (all_refs (g\<lparr>lts := (lts g)[t := l g]\<rparr>) D U + lk)"
      by (rule free_msg_heap) auto
    have "free_wtosend (int t) g = Inr (g\<lparr>mem := h, lts := (lts g)[t := l g]\<rparr>)"
      using len assms(3) Some wi h(1)
      by (simp add: free_wtosend_def upd_lts_nat freeWiw_def releaseWiw_free l_def)
    moreover have "keeps (mem g) h lk" by (rule keeps_subset [OF h(3)]) simp
    ultimately show thesis using h(2) by (intro that [of h]) (simp_all add: swap_mem_lts)
  qed
qed

section \<open>The loop over the wagons\<close>

text \<open>The wagons a process keeps, and among them those that go on to its successor.\<close>

definition is_kept :: "addressSet \<Rightarrow> addressSet \<Rightarrow> address \<Rightarrow> awagon \<Rightarrow> bool" where
  "is_kept circuit gone my wg \<longleftrightarrow>
     addrIsMember (aw_sender wg) circuit \<and> \<not> addrIsMember (aw_sender wg) gone \<and> aw_sender wg \<noteq> my"

definition is_resent :: "addressSet \<Rightarrow> addressSet \<Rightarrow> address \<Rightarrow> address \<Rightarrow> awagon \<Rightarrow> bool" where
  "is_resent circuit gone my suc wg \<longleftrightarrow> is_kept circuit gone my wg \<and> suc \<noteq> aw_sender wg"

definition wagon_in :: "nat \<Rightarrow> int \<Rightarrow> wiw" where
  "wagon_in p off = \<lparr>p_wagon = Some (p, off), p_womim = Some p\<rparr>"

definition resend_lts :: "nat \<Rightarrow> int \<Rightarrow> awagon \<Rightarrow> ltsStruct \<Rightarrow> ltsStruct" where
  "resend_lts p off wg l =
     l\<lparr>lts_w := if p_wagon (lts_w l) = None then wagon_in p off else lts_w l,
       lts_wlen := lts_wlen l + c_int (length (enc_wagon wg))\<rparr>"

text \<open>Where the part to be sent again starts, and how far it goes.\<close>

definition lts_pos :: "ltsStruct \<Rightarrow> nat \<Rightarrow> int \<Rightarrow> bool" where
  "lts_pos l p off \<longleftrightarrow> (lts_w l = no_wiw \<and> lts_wlen l = 0) \<or>
     (\<exists>o1 n. lts_w l = wagon_in p o1 \<and> lts_wlen l = c_int n \<and> 0 \<le> o1 \<and> o1 + int n \<le> off)"

lemma lts_pos_mono: "lts_pos l p off \<Longrightarrow> off \<le> off' \<Longrightarrow> lts_pos l p off'"
  unfolding lts_pos_def by fastforce

lemma lts_pos_resend:
  assumes "lts_pos l p off" "0 \<le> off"
  shows "lts_pos (resend_lts p off wg l) p (off + int (length (enc_wagon wg)))"
proof -
  let ?n = "length (enc_wagon wg)"
  from assms(1) consider "lts_w l = no_wiw" "lts_wlen l = 0"
    | o1 n where "lts_w l = wagon_in p o1" "lts_wlen l = c_int n" "0 \<le> o1" "o1 + int n \<le> off"
    by (auto simp: lts_pos_def)
  then show ?thesis
  proof cases
    case 1
    then show ?thesis using assms(2) unfolding lts_pos_def
      by (intro disjI2 exI [of _ off] exI [of _ ?n]) (simp add: resend_lts_def no_wiw_def)
  next
    case 2
    then show ?thesis unfolding lts_pos_def
      by (intro disjI2 exI [of _ o1] exI [of _ "n + ?n"]) (simp add: resend_lts_def wagon_in_def c_int_word)
  qed
qed

lemma lts_ok_pos:
  assumes "lts_pos l p off" "womims h p = Some v" "off \<le> int (length (bytes v))" "length (bytes v) < 2 ^ 31"
    and "case lts_wtosend l of None \<Rightarrow> True | Some wi \<Rightarrow> \<exists>wg. wagon_at h wi wg"
  shows "lts_ok h l"
proof -
  from assms(1) consider "lts_w l = no_wiw" "lts_wlen l = 0"
    | o1 n where "lts_w l = wagon_in p o1" "lts_wlen l = c_int n" "0 \<le> o1" "o1 + int n \<le> off"
    by (auto simp: lts_pos_def)
  then show ?thesis
  proof cases
    case 1
    then show ?thesis using assms(5) by (simp add: lts_ok_def no_wiw_def)
  next
    case 2
    then have "n < 2 ^ 31" using assms(3,4) by linarith
    then have "iov_len (c_int n) = n" by (rule iov_len_c_int)
    then show ?thesis using 2 assms(2,3,5) by (simp add: lts_ok_def wagon_in_def)
  qed
qed

lemma consistent_ltsD: "consistent g D U lk cap wg \<Longrightarrow> t < 16 \<Longrightarrow> lts_ok (mem g) (lts g ! t)"
  unfolding consistent_def tables_def by (metis nth_mem)

lemma lts_ok_own: "lts_ok h l \<Longrightarrow> case lts_wtosend l of None \<Rightarrow> True | Some wi \<Rightarrow> \<exists>wg. wagon_at h wi wg"
  by (simp add: lts_ok_def)

text \<open>The last train points to the first wagon that goes on, and its length grows.\<close>

lemma resend_ok:
  fixes g t defines "l \<equiv> lts g ! t"
  assumes con: "consistent g D U (add_mset p lk) cap wg0" "t < 16"
    and buf: "womims (mem g) p = Some v" "length (bytes v) < 2 ^ 31" "holds (bytes v) off (enc_wagon wg)"
    and pos: "lts_pos l p off"
  obtains h where
    "bindE (if p_wagon (lts_w l) = None
            then bindE (upd_lts (int t) (\<lambda>l. l\<lparr>lts_w := wagon_in p off\<rparr>) g) (count_up (Some p)) else Inr g)
       (upd_lts (int t) (\<lambda>l. l\<lparr>lts_wlen := lts_wlen l + c_int (length (enc_wagon wg))\<rparr>)) =
     Inr (g\<lparr>lts := (lts g)[t := resend_lts p off wg l], mem := h\<rparr>)"
    "consistent (g\<lparr>lts := (lts g)[t := resend_lts p off wg l], mem := h\<rparr>) D U (add_mset p lk) cap wg0"
    "keeps (mem g) h (add_mset p lk)"
proof -
  let ?wi = "wagon_in p off" and ?l = "resend_lts p off wg l"
  have len: "length (lts g) = 16" by (rule consistent_len [OF con(1)])
  have bd: "0 \<le> off" "off + int (length (enc_wagon wg)) \<le> int (length (bytes v))"
    using holds_bound [OF buf(3)] by simp_all
  have own: "case lts_wtosend l of None \<Rightarrow> True | Some wi \<Rightarrow> \<exists>wg. wagon_at (mem g) wi wg"
    unfolding l_def by (rule lts_ok_own [OF consistent_ltsD [OF con]])
  have ok: "lts_ok (mem g) ?l"
    by (rule lts_ok_pos [OF lts_pos_resend [OF pos bd(1)] buf(1) bd(2) buf(2)]) (use own in \<open>simp add: resend_lts_def\<close>)
  show thesis
  proof (cases "p_wagon (lts_w l) = None")
    case False
    then obtain q where q: "p_wagon (lts_w l) = Some q" by auto
    have "consistent (g\<lparr>lts := (lts g)[t := ?l]\<rparr>) D U (add_mset p lk) cap wg0"
      by (rule consistent_lts [OF con ok]) (use q in \<open>auto simp: resend_lts_def lref_def simp flip: l_def\<close>)
    then show thesis
      using q con(2) len
      by (intro that [of "mem g"]) (simp_all add: upd_lts_nat resend_lts_def keeps_refl flip: l_def)
  next
    case True
    then have w: "lts_w l = no_wiw" using pos by (auto simp: lts_pos_def wagon_in_def)
    let ?g = "g\<lparr>lts := (lts g)[t := ?l]\<rparr>"
    have one: "consistent ?g D U lk cap wg0"
      by (rule consistent_lts [OF con ok])
        (use w in \<open>simp add: resend_lts_def lref_def wagon_in_def no_wiw_def flip: l_def\<close>)
    have "p \<in># lref ?l" using True by (simp add: resend_lts_def lref_def wagon_in_def)
    moreover have "?l \<in> set (lts ?g)" using con(2) len by (simp add: set_update_memI)
    ultimately have "p \<in># all_refs ?g D U + lk" by (auto simp: all_refs_def intro: in_lts_refs)
    then obtain h where h: "count_up (Some p) ?g = Inr (?g\<lparr>mem := h\<rparr>)"
      "consistent (?g\<lparr>mem := h\<rparr>) D U (add_mset p lk) cap wg0" "keeps (mem ?g) h (all_refs ?g D U + lk)"
      by (rule count_up_ok [OF one])
    have inc: "incr_counter (Some p) (mem g) = Inr h"
      using h(1) by (auto simp: count_up_def bindE_eq_Inr dest: arg_cong [where f = mem])
    have "keeps (mem g) h (add_mset p lk)"
      by (rule keeps_subset [where R = "all_refs ?g D U + lk"])
        (use h(3) \<open>p \<in># all_refs ?g D U + lk\<close> \<open>p \<in># lref ?l\<close> \<open>?l \<in> set (lts ?g)\<close> in
          \<open>auto simp: all_refs_def dest: in_lts_refs intro!: \<close>)
    then show thesis
      using h(2) True con(2) len inc
      by (intro that [of h]) (simp_all add: upd_lts_nat resend_lts_def count_up_def flip: l_def)
  qed
qed

lemma keep_wagon_step:
  fixes g t defines "l \<equiv> lts g ! t"
  defines "kept \<equiv> \<lambda>wg. is_kept (lts_circuit l) (goneProc g) (myAddress g) wg"
    and "resent \<equiv> \<lambda>wg. is_resent (lts_circuit l) (goneProc g) (myAddress g) (succ g) wg"
  assumes con: "consistent g D U (add_mset p lk) cap wg0" "t < nat (ntr g)" "r < 3"
    and buf: "womims (mem g) p = Some v" "length (bytes v) < 2 ^ 31"
    and wg: "holds (bytes v) off (enc_wagon wg)" "\<forall>m \<in> set (aw_msgs wg). readable m"
    and pos: "lts_pos l p off"
  obtains us h where
    "keep_wagon p (bytes v) (int t) (int r) off g = Inr (g\<lparr>lts := (lts g)[t := if resent wg then resend_lts p off wg l else l],
       unstableWagons := us, mem := h\<rparr>)"
    "consistent (g\<lparr>lts := (lts g)[t := if resent wg then resend_lts p off wg l else l], unstableWagons := us, mem := h\<rparr>)
       D (if kept wg then U(t := (U t)(r := U t r @ [(wagon_in p off, wg)])) else U) (add_mset p lk) cap wg0"
    "keeps (mem g) h (add_mset p lk)"
proof -
  let ?wi = "wagon_in p off" and ?U = "U(t := (U t)(r := U t r @ [(wagon_in p off, wg)]))"
  have t: "t < 16" using con(1,2) unfolding consistent_def by (blast intro: tables_lt)
  have len: "length (lts g) = 16" by (rule consistent_len [OF con(1)])
  have bd: "0 \<le> off" "off + int (length (enc_wagon wg)) \<le> int (length (bytes v))"
    using holds_bound [OF wg(1)] by simp_all
  have small: "length (enc_wagon wg) < 2 ^ 31" using bd buf(2) by linarith
  have at: "wagon_at h ?wi wg" if "womims h p = Some v'" "bytes v' = bytes v" for h v'
    using that wg small by (auto simp: wagon_at_def wagon_in_def)
  have rf: "wagon_ref ?wi = p" by (simp add: wagon_ref_def wagon_in_def)
  have rd: "wagon_sender (bytes v) off = Inr (aw_sender wg)" "wagon_len (bytes v) off = Inr (c_int (length (enc_wagon wg)))"
    using holds_enc_wagon(1,2) [OF wg(1)] by (simp_all add: length_enc_wagon)
  show thesis
  proof (cases "kept wg")
    case False
    then have "\<not> resent wg" by (simp add: resent_def kept_def is_resent_def)
    moreover have "keep_wagon p (bytes v) (int t) (int r) off g = Inr g"
      using False rd(1) t len by (auto simp: keep_wagon_def kept_def is_kept_def addrIsMine_def addrIsEqual_def l_def)
    ultimately show thesis
      using False con(1) by (intro that [where us = "unstableWagons g" and h = "mem g"]) (simp_all add: l_def keeps_refl)
  next
    case True
    have "p \<in># all_refs g D U + add_mset p lk" by simp
    then obtain h1 where h1: "count_up (Some p) g = Inr (g\<lparr>mem := h1\<rparr>)"
      "consistent (g\<lparr>mem := h1\<rparr>) D U (add_mset p (add_mset p lk)) cap wg0"
      "keeps (mem g) h1 (all_refs g D U + add_mset p lk)"
      by (rule count_up_ok [OF con(1)])
    obtain v1 where v1: "womims h1 p = Some v1" "bytes v1 = bytes v"
      using keepsD [OF h1(3) _ buf(1)] by auto
    let ?g1 = "g\<lparr>mem := h1\<rparr>"
    have "consistent ?g1 D U (add_mset (wagon_ref ?wi) (add_mset p lk)) cap wg0" using h1(2) by (simp add: rf)
    moreover have "t < nat (ntr ?g1)" "wagon_at (mem ?g1) ?wi wg" using con(2) at [OF v1] by simp_all
    ultimately obtain us where us: "append_unstable (int t) (int r) ?wi ?g1 = Inr (?g1\<lparr>unstableWagons := us\<rparr>)"
      "consistent (?g1\<lparr>unstableWagons := us\<rparr>) D ?U (add_mset p lk) cap wg0"
      using append_unstable_ok con(3) by metis
    let ?g2 = "?g1\<lparr>unstableWagons := us\<rparr>"
    have cond: "addrIsMember (aw_sender wg) (lts_circuit (lts g ! t))" "\<not> addrIsMember (aw_sender wg) (goneProc g)"
      "\<not> addrIsMine (aw_sender wg) g"
      using True by (auto simp: kept_def is_kept_def l_def addrIsMine_def addrIsEqual_def)
    show thesis
    proof (cases "resent wg")
      case no: False
      then have "succ g = aw_sender wg" using True by (simp add: resent_def kept_def is_resent_def)
      then have "keep_wagon p (bytes v) (int t) (int r) off g = Inr ?g2"
        using cond rd(1) t len h1(1) us(1) by (simp add: keep_wagon_def addrIsEqual_def flip: wagon_in_def)
      moreover have "keeps (mem g) h1 (add_mset p lk)" by (rule keeps_subset [OF h1(3)]) simp
      ultimately show thesis
        using True no us(2) by (intro that [where us = us and h = h1]) (simp_all add: l_def swap_mem_us)
    next
      case yes: True
      then have ne: "succ g \<noteq> aw_sender wg" by (simp add: resent_def is_resent_def)
      have l2: "lts ?g2 ! t = l" by (simp add: l_def)
      obtain h2 where h2: "bindE (if p_wagon (lts_w l) = None
            then bindE (upd_lts (int t) (\<lambda>l. l\<lparr>lts_w := ?wi\<rparr>) ?g2) (count_up (Some p)) else Inr ?g2)
          (upd_lts (int t) (\<lambda>l. l\<lparr>lts_wlen := lts_wlen l + c_int (length (enc_wagon wg))\<rparr>)) =
        Inr (?g2\<lparr>lts := (lts g)[t := resend_lts p off wg l], mem := h2\<rparr>)"
        "consistent (?g2\<lparr>lts := (lts g)[t := resend_lts p off wg l], mem := h2\<rparr>) D ?U (add_mset p lk) cap wg0"
        "keeps h1 h2 (add_mset p lk)"
        by (rule resend_ok [OF us(2) t, where v = v1 and off = off and wg = wg])
          (use v1 buf(2) wg(1) pos in \<open>simp_all flip: l_def\<close>)
      have "keep_wagon p (bytes v) (int t) (int r) off g =
          Inr (?g2\<lparr>lts := (lts g)[t := resend_lts p off wg l], mem := h2\<rparr>)"
        using cond rd t len h1(1) us(1) ne h2(1)
        by (simp add: keep_wagon_def addrIsEqual_def flip: wagon_in_def l_def)
      moreover have "keeps (mem g) h2 (add_mset p lk)"
        by (rule keeps_trans [OF keeps_subset [OF h1(3)] h2(3)]) simp
      ultimately show thesis
        using True yes h2(2) by (intro that [where us = us and h = h2]) (simp_all add: swap_us_lts)
    qed
  qed
qed

definition at_offsets :: "int \<Rightarrow> awagon list \<Rightarrow> (int \<times> awagon) list" where
  "at_offsets off ws = zip (starts off (map (\<lambda>x. length (enc_wagon x)) ws)) ws"

lemma at_offsets_simps [simp]:
  "at_offsets off [] = []"
  "at_offsets off (wg # ws) = (off, wg) # at_offsets (off + int (length (enc_wagon wg))) ws"
  by (simp_all add: at_offsets_def)

definition held_of :: "nat \<Rightarrow> (awagon \<Rightarrow> bool) \<Rightarrow> (int \<times> awagon) list \<Rightarrow> held" where
  "held_of p P ows = map (\<lambda>(off, wg). (wagon_in p off, wg)) (filter (\<lambda>(off, wg). P wg) ows)"

lemma held_of_simps [simp]:
  "held_of p P [] = []"
  "held_of p P ((off, wg) # ows) = (if P wg then (wagon_in p off, wg) # held_of p P ows else held_of p P ows)"
  by (simp_all add: held_of_def)

lemma map_snd_held_of: "map snd (held_of p P (at_offsets off ws)) = filter P ws"
  by (induction ws arbitrary: off) auto

definition resend_all :: "nat \<Rightarrow> (awagon \<Rightarrow> bool) \<Rightarrow> (int \<times> awagon) list \<Rightarrow> ltsStruct \<Rightarrow> ltsStruct" where
  "resend_all p Q ows = fold (\<lambda>(off, wg) l. if Q wg then resend_lts p off wg l else l) ows"

lemma resend_all_simps [simp]:
  "resend_all p Q [] l = l"
  "resend_all p Q ((off, wg) # ows) l = resend_all p Q ows (if Q wg then resend_lts p off wg l else l)"
  by (simp_all add: resend_all_def)

lemma resend_lts_other [simp]:
  "lts_circuit (resend_lts p off wg l) = lts_circuit l" "lts_stamp (resend_lts p off wg l) = lts_stamp l"
  "lts_type (resend_lts p off wg l) = lts_type l" "lts_wtosend (resend_lts p off wg l) = lts_wtosend l"
  by (simp_all add: resend_lts_def)

lemma resend_all_other [simp]:
  "lts_circuit (resend_all p Q ows l) = lts_circuit l" "lts_stamp (resend_all p Q ows l) = lts_stamp l"
  "lts_type (resend_all p Q ows l) = lts_type l" "lts_wtosend (resend_all p Q ows l) = lts_wtosend l"
  by (induction ows arbitrary: l) auto

text \<open>The whole loop: the wagons kept join the unstable ones, in their order in the train.\<close>

lemma keep_loop:
  fixes circuit gone my suc
  defines "kept \<equiv> is_kept circuit gone my" and "resent \<equiv> is_resent circuit gone my suc"
  assumes "consistent g D U (add_mset p lk) cap wg0" "t < nat (ntr g)" "r < 3"
    and "womims (mem g) p = Some v" "bytes v = buf" "length buf < 2 ^ 31" "holds buf off (enc_wagons ws)"
    and "\<forall>wg \<in> set ws. \<forall>m \<in> set (aw_msgs wg). readable m" "lts_pos (lts g ! t) p off"
    and "lts_circuit (lts g ! t) = circuit" "goneProc g = gone" "myAddress g = my" "succ g = suc"
  shows "\<exists>us h.
    foldE (keep_wagon p buf (int t) (int r)) (starts off (map (\<lambda>x. length (enc_wagon x)) ws)) g =
      Inr (g\<lparr>lts := (lts g)[t := resend_all p resent (at_offsets off ws) (lts g ! t)], unstableWagons := us, mem := h\<rparr>) \<and>
    consistent (g\<lparr>lts := (lts g)[t := resend_all p resent (at_offsets off ws) (lts g ! t)], unstableWagons := us, mem := h\<rparr>)
      D (U(t := (U t)(r := U t r @ held_of p kept (at_offsets off ws)))) (add_mset p lk) cap wg0 \<and>
    keeps (mem g) h (add_mset p lk)"
  using assms(3-)
proof (induction ws arbitrary: g U off v)
  case Nil
  then show ?case
    by (intro exI [of _ "unstableWagons g"] exI [of _ "mem g"]) (simp add: keeps_refl)
next
  case (Cons wg ws)
  let ?l = "lts g ! t" and ?off = "off + int (length (enc_wagon wg))"
  let ?l1 = "if resent wg then resend_lts p off wg ?l else ?l"
  let ?U = "if kept wg then U(t := (U t)(r := U t r @ [(wagon_in p off, wg)])) else U"
  have t: "t < 16" using Cons.prems(1,2) unfolding consistent_def by (blast intro: tables_lt)
  have len: "length (lts g) = 16" by (rule consistent_len [OF Cons.prems(1)])
  have h: "holds buf off (enc_wagon wg)" "holds buf ?off (enc_wagons ws)"
    using Cons.prems(7) by (simp_all add: holds_append)
  have off: "0 \<le> off" using holds_bound [OF h(1)] by simp
  have b: "length (bytes v) < 2 ^ 31" "holds (bytes v) off (enc_wagon wg)" "\<forall>m \<in> set (aw_msgs wg). readable m"
    using Cons.prems(5,6,8) h(1) by simp_all
  have k: "kept = is_kept (lts_circuit ?l) (goneProc g) (myAddress g)"
    "resent = is_resent (lts_circuit ?l) (goneProc g) (myAddress g) (succ g)"
    using Cons.prems(10-13) by (simp_all add: kept_def resent_def)
  obtain us h where one:
    "keep_wagon p buf (int t) (int r) off g = Inr (g\<lparr>lts := (lts g)[t := ?l1], unstableWagons := us, mem := h\<rparr>)"
    "consistent (g\<lparr>lts := (lts g)[t := ?l1], unstableWagons := us, mem := h\<rparr>) D ?U (add_mset p lk) cap wg0"
    "keeps (mem g) h (add_mset p lk)"
    unfolding k Cons.prems(5) [symmetric] by (rule keep_wagon_step [OF Cons.prems(1-4) b Cons.prems(9)])
  let ?g = "g\<lparr>lts := (lts g)[t := ?l1], unstableWagons := us, mem := h\<rparr>"
  obtain v' where v': "womims h p = Some v'" "bytes v' = buf"
    using keepsD [OF one(3) _ Cons.prems(4)] Cons.prems(5) by auto
  have l1: "lts ?g ! t = ?l1" using t len by simp
  have pos: "lts_pos ?l1 p ?off"
    using Cons.prems(9) lts_pos_resend [OF Cons.prems(9) off] lts_pos_mono [OF Cons.prems(9), of ?off] by simp
  have "\<exists>us' h'.
    foldE (keep_wagon p buf (int t) (int r)) (starts ?off (map (\<lambda>x. length (enc_wagon x)) ws)) ?g =
      Inr (?g\<lparr>lts := (lts ?g)[t := resend_all p resent (at_offsets ?off ws) (lts ?g ! t)], unstableWagons := us', mem := h'\<rparr>) \<and>
    consistent (?g\<lparr>lts := (lts ?g)[t := resend_all p resent (at_offsets ?off ws) (lts ?g ! t)], unstableWagons := us', mem := h'\<rparr>)
      D (?U(t := (?U t)(r := ?U t r @ held_of p kept (at_offsets ?off ws)))) (add_mset p lk) cap wg0 \<and>
    keeps (mem ?g) h' (add_mset p lk)"
    by (rule Cons.IH [OF one(2), where v = v'])
      (use Cons.prems(2,3,6,8,10-) v' h(2) pos l1 in \<open>simp_all\<close>)
  then obtain us' h' where two:
    "foldE (keep_wagon p buf (int t) (int r)) (starts ?off (map (\<lambda>x. length (enc_wagon x)) ws)) ?g =
      Inr (?g\<lparr>lts := (lts ?g)[t := resend_all p resent (at_offsets ?off ws) ?l1], unstableWagons := us', mem := h'\<rparr>)"
    "consistent (?g\<lparr>lts := (lts ?g)[t := resend_all p resent (at_offsets ?off ws) ?l1], unstableWagons := us', mem := h'\<rparr>)
      D (?U(t := (?U t)(r := ?U t r @ held_of p kept (at_offsets ?off ws)))) (add_mset p lk) cap wg0"
    "keeps h h' (add_mset p lk)"
    unfolding l1 by auto
  have U: "?U(t := (?U t)(r := ?U t r @ held_of p kept (at_offsets ?off ws))) =
      U(t := (U t)(r := U t r @ held_of p kept (at_offsets off (wg # ws))))"
    by (rule ext) (simp add: fun_eq_iff)
  have G: "?g\<lparr>lts := (lts ?g)[t := resend_all p resent (at_offsets ?off ws) ?l1], unstableWagons := us', mem := h'\<rparr> =
      g\<lparr>lts := (lts g)[t := resend_all p resent (at_offsets off (wg # ws)) ?l], unstableWagons := us', mem := h'\<rparr>"
    by simp
  show ?case
  proof (intro exI conjI)
    show "foldE (keep_wagon p buf (int t) (int r)) (starts off (map (\<lambda>x. length (enc_wagon x)) (wg # ws))) g =
      Inr (g\<lparr>lts := (lts g)[t := resend_all p resent (at_offsets off (wg # ws)) ?l], unstableWagons := us', mem := h'\<rparr>)"
      using one(1) two(1) unfolding G by simp
    show "consistent (g\<lparr>lts := (lts g)[t := resend_all p resent (at_offsets off (wg # ws)) ?l], unstableWagons := us', mem := h'\<rparr>)
      D (U(t := (U t)(r := U t r @ held_of p kept (at_offsets off (wg # ws))))) (add_mset p lk) cap wg0"
      using two(2) unfolding G U .
    show "keeps (mem g) h' (add_mset p lk)" by (rule keeps_trans [OF one(3) two(3)])
  qed
qed

lemma filter_at_offsets_Nil: "filter (\<lambda>(off, wg). Q wg) (at_offsets off ws) = [] \<longleftrightarrow> filter Q ws = []"
  by (induction ws arbitrary: off) auto

lemma resend_all_formula:
  "resend_all p Q (at_offsets off ws) l =
     l\<lparr>lts_w := if p_wagon (lts_w l) \<noteq> None then lts_w l
         else (case filter (\<lambda>(off, wg). Q wg) (at_offsets off ws) of [] \<Rightarrow> lts_w l | (o1, _) # _ \<Rightarrow> wagon_in p o1),
       lts_wlen := lts_wlen l + c_int (length (enc_wagons (filter Q ws)))\<rparr>"
proof (induction ws arbitrary: off l)
  case Nil
  then show ?case by (simp add: c_int_def)
next
  case (Cons wg ws)
  have "p_wagon (wagon_in p off) \<noteq> None" by (simp add: wagon_in_def)
  then show ?case
    by (auto simp: Cons.IH resend_lts_def c_int_word add.assoc split: list.splits)
qed

text \<open>When the wagons that go on follow each other in the train, the bytes of the last train
  are their encoding.\<close>

lemma filter_at_offsets_mid:
  assumes "\<forall>wg \<in> set pre. \<not> Q wg" "Q wg"
  shows "\<exists>rest. filter (\<lambda>(off, wg). Q wg) (at_offsets off (pre @ wg # mid)) =
     (off + int (length (enc_wagons pre)), wg) # rest"
  using assms
proof (induction pre arbitrary: off)
  case (Cons a pre)
  from Cons.IH [of "off + int (length (enc_wagon a))"] Cons.prems show ?case by (simp add: add.assoc)
qed simp

lemma region_resend_all:
  assumes "ws = pre @ mid @ post" "\<forall>wg \<in> set pre. \<not> Q wg" "\<forall>wg \<in> set mid. Q wg" "\<forall>wg \<in> set post. \<not> Q wg"
    and "lts_w l = no_wiw" "lts_wlen l = 0" "womims h p = Some v" "holds (bytes v) off (enc_wagons ws)"
  shows "region h (resend_all p Q (at_offsets off ws) l) mid"
proof -
  have f: "filter Q ws = mid" using assms(1-4) by simp
  show ?thesis
  proof (cases mid)
    case Nil
    then have "filter Q ws = []" using f by simp
    then show ?thesis using assms(5,6) Nil by (simp add: region_def resend_all_formula c_int_def)
  next
    case (Cons wg mid')
    have "Q wg" using assms(3) Cons by simp
    obtain rest where r: "filter (\<lambda>(off, wg). Q wg) (at_offsets off ws) = (off + int (length (enc_wagons pre)), wg) # rest"
      using filter_at_offsets_mid [of pre Q wg off "mid' @ post"] assms(1,2) \<open>Q wg\<close> Cons by auto
    have "holds (bytes v) (off + int (length (enc_wagons pre))) (enc_wagons mid)"
      using assms(1,8) by (simp add: enc_wagons_append holds_append)
    moreover have "resend_all p Q (at_offsets off ws) l =
        l\<lparr>lts_w := wagon_in p (off + int (length (enc_wagons pre))), lts_wlen := c_int (length (enc_wagons mid))\<rparr>"
      using assms(5,6) by (simp add: resend_all_formula r f no_wiw_def)
    ultimately show ?thesis
      using Cons assms(7) by (simp add: region_def wagon_in_def)
  qed
qed

section \<open>The wagon under construction joins the train\<close>

lemma enc_wagon_split:
  "enc_wagon (wg\<lparr>aw_round := x\<rparr>) =
     (to_bytes 4 (c_int (7 + length (enc_msgs (aw_msgs wg)))) @ to_bytes 2 (aw_sender wg)) @ [x] @ enc_msgs (aw_msgs wg)"
  by (simp add: enc_wagon_def)

lemma set_round:
  assumes "holds b 0 (enc_wagon wg)"
  obtains b' where "wr_char b 6 x = Inr b'" "length b' = length b" "holds b' 0 (enc_wagon (wg\<lparr>aw_round := x\<rparr>))"
proof -
  let ?pre = "to_bytes 4 (c_int (7 + length (enc_msgs (aw_msgs wg)))) @ to_bytes 2 (aw_sender wg)"
  have "wg\<lparr>aw_round := aw_round wg\<rparr> = wg" by simp
  then have "holds b 0 (?pre @ [aw_round wg] @ enc_msgs (aw_msgs wg))"
    using assms enc_wagon_split [where wg = wg and x = "aw_round wg"] by simp
  then have h: "holds b 0 ?pre" "holds b 6 [aw_round wg]" "holds b 7 (enc_msgs (aw_msgs wg))"
    unfolding holds_append by simp_all
  obtain b' where b': "wr b 6 [x] = Inr b'" "length b' = length b" "holds b' 6 [x]"
    "\<And>o' cs. holds b o' cs \<Longrightarrow> o' + int (length cs) \<le> 6 \<or> 7 \<le> o' \<Longrightarrow> holds b' o' cs"
    using holds_bound [OF h(2)] by (rule_tac wr_ok [of 6 "[x]" b]) auto
  have "holds b' 0 (enc_wagon (wg\<lparr>aw_round := x\<rparr>))"
    unfolding enc_wagon_split holds_append [of _ _ ?pre] holds_append [of _ _ "[x]"]
    using b'(3) b'(4) [OF h(1)] b'(4) [OF h(3)] by simp
  then show thesis using b'(1,2) by (intro that) (simp_all add: wr_char_def)
qed

definition with_round :: "nat \<Rightarrow> awagon \<Rightarrow> awagon" where
  "with_round r wg = wg\<lparr>aw_round := word_of_int (int r)\<rparr>"

lemma with_round_simps [simp]:
  "aw_msgs (with_round r wg) = aw_msgs wg" "aw_sender (with_round r wg) = aw_sender wg"
  "length (enc_wagon (with_round r wg)) = length (enc_wagon wg)"
  by (simp_all add: with_round_def length_enc_wagon)

lemma take_wagonToSend_empty:
  assumes "consistent g D U lk cap wg" "aw_msgs wg = []"
  shows "take_wagonToSend tid rnd g = Inr g"
proof -
  have "building g (all_refs g D U + lk) cap wg" using assms(1) by (simp add: consistent_def)
  then obtain a w where w: "wagonToSend g = Some \<lparr>p_wagon = Some (a, 0), p_womim = Some a\<rparr>"
    "womims (mem g) a = Some w" "holds (bytes w) 0 (enc_wagon wg)"
    by (rule buildingE)
  have "length (enc_wagon wg) < 2 ^ 31" using assms(2) by (simp add: length_enc_wagon)
  from firstMsg_enc_wagon [OF w(3) this] w(1,2) assms(2) show ?thesis
    by (simp add: take_wagonToSend_def with_wagon_def get_womim_def)
qed

lemma take_wagonToSend_ok:
  fixes g wg t r
  assumes con: "consistent g D U lk cap wg" "t < nat (ntr g)" "r < 3"
    and l: "lts_wtosend (lts g ! t) = None"
    and wg: "aw_msgs wg \<noteq> []" "\<forall>m \<in> set (aw_msgs wg). readable m" "length (enc_wagon wg) < 2 ^ 31"
    and W: "7 \<le> wagonMaxLen g"
  obtains us h a b where
    "take_wagonToSend (int t) (int r) g = Inr (g\<lparr>lts := (lts g)[t := (lts g ! t)\<lparr>lts_wtosend := Some (wagon_in a 0)\<rparr>],
       unstableWagons := us, mem := h, wagonToSend := Some (wagon_in b 0)\<rparr>)"
    "consistent (g\<lparr>lts := (lts g)[t := (lts g ! t)\<lparr>lts_wtosend := Some (wagon_in a 0)\<rparr>],
       unstableWagons := us, mem := h, wagonToSend := Some (wagon_in b 0)\<rparr>)
       D (U(t := (U t)(r := U t r @ [(wagon_in a 0, with_round r wg)]))) lk (nat (wagonMaxLen g)) (empty_wagon (myAddress g))"
    "wagon_at h (wagon_in a 0) (with_round r wg)" "keeps (mem g) h (all_refs g D U + lk)"
proof -
  let ?R = "all_refs g D U + lk"
  have tab: "tables g U" and bd: "building g ?R cap wg" using con(1) by (simp_all add: consistent_def)
  have t: "t < 16" by (rule tables_lt [OF tab con(2)])
  have len: "length (lts g) = 16" by (rule consistent_len [OF con(1)])
  obtain a w where a: "wagonToSend g = Some \<lparr>p_wagon = Some (a, 0), p_womim = Some a\<rparr>"
    "womims (mem g) a = Some w" "length (bytes w) = cap" "holds (bytes w) 0 (enc_wagon wg)" "a \<notin># ?R"
    "counts (mem g) (add_mset a ?R)"
    by (rule buildingE [OF bd])
  obtain b1 where b1: "wr_char (bytes w) 6 (word_of_int (int r)) = Inr b1" "length b1 = length (bytes w)"
    "holds b1 0 (enc_wagon (with_round r wg))"
    unfolding with_round_def by (rule set_round [OF a(4)])
  let ?w1 = "w\<lparr>bytes := b1\<rparr>"
  let ?w2 = "?w1\<lparr>counter := counter w + 1\<rparr>"
  let ?h2 = "set_womim (mem g) a (Some ?w2)"
  have c1: "counts (set_womim (mem g) a (Some ?w1)) (add_mset a ?R)"
    by (rule counts_update [OF a(6,2)]) simp
  have "counts (set_womim (set_womim (mem g) a (Some ?w1)) a (Some (?w1\<lparr>counter := counter ?w1 + 1\<rparr>))) (add_mset a (add_mset a ?R))"
    by (rule counts_incr [OF c1]) simp_all
  then have c2: "counts ?h2 (add_mset a (add_mset a ?R))" by simp
  obtain v h where new: "newWiw (wagonMaxLen g) (myAddress g) ?h2 =
      Inr (\<lparr>p_wagon = Some (next_id ?h2, 0), p_womim = Some (next_id ?h2)\<rparr>, h)"
    "womims h = (womims ?h2)(next_id ?h2 \<mapsto> v)" "next_id h = Suc (next_id ?h2)"
    "counter v = 1" "length (bytes v) = nat (wagonMaxLen g)"
    "holds (bytes v) 0 (enc_wagon \<lparr>aw_sender = myAddress g, aw_round = 0, aw_msgs = []\<rparr>)"
    by (rule newWiw_ok [OF W])
  let ?b = "next_id ?h2"
  have fresh: "?b \<notin># add_mset a (add_mset a ?R)" by (rule counts_fresh [OF c2])
  have c3: "counts h (add_mset ?b (add_mset a (add_mset a ?R)))"
    by (rule counts_new [OF c2 new(2,3,4)])
  have ha: "womims h a = Some ?w2" using fresh new(2) by simp
  have keep: "keeps (mem g) h ?R"
    using fresh new(2) a(5) by (auto simp: keeps_def)
  have at: "wagon_at h (wagon_in a 0) (with_round r wg)"
    using ha b1(3) wg(2,3) by (auto simp: wagon_at_def wagon_in_def)
  let ?g2 = "g\<lparr>mem := ?h2\<rparr>"
  have tab2: "tables ?g2 U" "t < nat (ntr ?g2)" using tab con(2) by (simp_all add: tables_def)
  obtain l0 where l0: "get_unstable ?g2 (int t) (int r) = Inr l0" "lrep l0 (map fst (U t r))"
    by (rule get_unstable_ok [OF tab2 con(3)])
  obtain l1 where l1: "listAppend l0 (Some (wagon_in a 0)) = Inr l1" "lrep l1 (map fst (U t r) @ [wagon_in a 0])"
    by (rule lrep_append [OF l0(2)])
  let ?U = "U(t := (U t)(r := U t r @ [(wagon_in a 0, with_round r wg)]))"
  have "lrep l1 (map fst (U t r @ [(wagon_in a 0, with_round r wg)]))" using l1(2) by simp
  then obtain us where us: "set_unstable (int t) (int r) l1 ?g2 = Inr (?g2\<lparr>unstableWagons := us\<rparr>)"
    "tables (?g2\<lparr>unstableWagons := us\<rparr>) ?U"
    by (rule set_unstable_ok [OF tab2 con(3)])
  let ?l = "(lts g ! t)\<lparr>lts_wtosend := Some (wagon_in a 0)\<rparr>"
  let ?g = "g\<lparr>lts := (lts g)[t := ?l], unstableWagons := us, mem := h, wagonToSend := Some (wagon_in ?b 0)\<rparr>"
  have "U_refs ?U = add_mset a (U_refs U)"
    using U_refs_upd [OF t con(3), of U "U t r @ [(wagon_in a 0, with_round r wg)]"]
    by (simp add: wagon_ref_def wagon_in_def ac_simps)
  moreover have "lref ?l = add_mset a (lref (lts g ! t))"
    using l by (simp add: lref_def wagon_ref_def wagon_in_def)
  then have "lts_refs ((lts g)[t := ?l]) = add_mset a (lts_refs (lts g))"
    using lts_refs_upd [of t "lts g" ?l] t len by simp
  ultimately have refs: "all_refs ?g D ?U + lk = add_mset a (add_mset a ?R)"
    by (simp add: all_refs_def)
  have "keeps (mem g) h (all_refs g D U)" by (rule keeps_subset [OF keep]) simp
  note held = all_held_keeps [OF con(1) this]
  have "lts_ok h (lts g ! t)" using t len by (intro held(3)) simp
  then have "lts_ok h ?l" using at by (auto simp: lts_ok_def)
  then have lts': "lts_ok h x" if "x \<in> set ((lts g)[t := ?l])" for x
    using that held(3) set_update_subset_insert [of "lts g" t ?l] by blast
  show thesis
  proof (rule that [where us = us and h = h and a = a and b = ?b, OF _ _ at keep])
    show "take_wagonToSend (int t) (int r) g = Inr ?g"
      using a(1,2) b1(1) wg(1) l0(1) l1(1) us(1) new(1) t len firstMsg_enc_wagon [OF a(4) wg(3)]
      by (simp add: take_wagonToSend_def with_wagon_def get_womim_def count_up_def incr_counter_def
          append_unstable_def upd_lts_nat wagon_in_def)
    have "building ?g (add_mset a (add_mset a ?R)) (nat (wagonMaxLen g)) (empty_wagon (myAddress g))"
      by (rule buildingI [of _ ?b v]) (use fresh new c3 in \<open>auto simp: wagon_in_def empty_wagon_def\<close>)
    then show "consistent ?g D ?U lk (nat (wagonMaxLen g)) (empty_wagon (myAddress g))"
      using con(1) us(2) lts' held at W unfolding consistent_def refs by (auto simp: tables_def)
  qed
qed

section \<open>The circuit\<close>

lemma signalDepartures_ok:
  assumes con: "consistent g D U lk cap wg" and W: "4 \<le> wagonMaxLen g"
    and room: "announce_room (wagonMaxLen g) (length (enc_wagon wg)) (length (members_of gone))"
      "length (enc_wagon wg) + 9 * length (members_of gone) < 2 ^ 31"
  obtains wts h cap' where "signalDepartures gone circuit g = Inr (g\<lparr>wagonToSend := wts, mem := h\<rparr>)"
    "consistent (g\<lparr>wagonToSend := wts, mem := h\<rparr>) D U lk cap'
       (add_announcements AM_DEPARTURE (circuit AND NOT gone) (members_of gone) wg)"
    "keeps (mem g) h (all_refs g D U + lk)"
proof -
  let ?R = "all_refs g D U + lk" and ?wg = "add_announcements AM_DEPARTURE (circuit AND NOT gone) (members_of gone) wg"
  have bd: "building g ?R cap wg" "wagonMaxLen g \<le> int cap" using con by (simp_all add: consistent_def)
  obtain wts h cap' where s: "signalDepartures gone circuit g = Inr (g\<lparr>wagonToSend := wts, mem := h\<rparr>)"
    "building (g\<lparr>wagonToSend := wts, mem := h\<rparr>) ?R cap' ?wg" "wagonMaxLen g \<le> int cap'"
    "\<forall>b \<in># ?R. womims h b = womims (mem g) b"
    using announcements_ok [OF bd W room, of AM_DEPARTURE "circuit AND NOT gone"]
    unfolding signalDepartures_fold by blast
  have k: "keeps (mem g) h ?R" using s(4) by (auto simp: keeps_def)
  have "consistent (g\<lparr>wagonToSend := wts, mem := h\<rparr>) D U lk cap' ?wg"
    by (rule consistent_heap [OF con _ s(3)]) (use s(2) keeps_subset [OF k] in simp_all)
  then show thesis using s(1) k by (intro that [where wts = wts and h = h])
qed

text \<open>The circuit a train gets, the processes announced as gone, and the wagon that announces
  them.\<close>

definition new_circuit :: "globals \<Rightarrow> nat \<Rightarrow> addressSet \<Rightarrow> addressSet" where
  "new_circuit g t circuit =
     (if t = 0 then addrUpdateCircuit circuit (myAddress g) (cameProc g) (goneProc g) else lts_circuit (lts g ! 0))"

definition announced :: "globals \<Rightarrow> nat \<Rightarrow> addressSet \<Rightarrow> awagon \<Rightarrow> awagon" where
  "announced g t circuit wg =
     (if t = 0
      then add_announcements AM_DEPARTURE (new_circuit g t circuit AND NOT (goneProc g)) (members_of (goneProc g)) wg
      else wg)"

definition depart_room :: "globals \<Rightarrow> nat \<Rightarrow> awagon \<Rightarrow> bool" where
  "depart_room g t wg \<longleftrightarrow> t = 0 \<longrightarrow>
     announce_room (wagonMaxLen g) (length (enc_wagon wg)) (length (members_of (goneProc g)))"

lemma length_members_le: "length (members_of s) \<le> 16"
  by (rule length_members_of)

lemma update_circuit_ok:
  assumes con: "consistent g D U lk cap wg" and t: "t < 16" and W: "4 \<le> wagonMaxLen g"
    and room: "depart_room g t wg" "length (enc_wagon wg) + 144 < 2 ^ 31"
  obtains wts h cap' where
    "update_circuit (int t) circuit g = Inr (g\<lparr>lts := (lts g)[t := (lts g ! t)\<lparr>lts_circuit := new_circuit g t circuit\<rparr>],
       cameProc := if t = 0 then 0 else cameProc g, wagonToSend := wts, mem := h,
       goneProc := if t = 0 then 0 else goneProc g\<rparr>)"
    "consistent (g\<lparr>lts := (lts g)[t := (lts g ! t)\<lparr>lts_circuit := new_circuit g t circuit\<rparr>],
       cameProc := if t = 0 then 0 else cameProc g, wagonToSend := wts, mem := h,
       goneProc := if t = 0 then 0 else goneProc g\<rparr>) D U lk cap' (announced g t circuit wg)"
    "keeps (mem g) h lk"
proof -
  let ?l = "(lts g ! t)\<lparr>lts_circuit := new_circuit g t circuit\<rparr>"
  have len: "length (lts g) = 16" by (rule consistent_len [OF con])
  have ok: "lts_ok (mem g) ?l" using consistent_ltsD [OF con t] by (simp add: lts_ok_def)
  have one: "consistent (g\<lparr>lts := (lts g)[t := ?l]\<rparr>) D U lk cap wg"
    by (rule consistent_lts [OF con t ok]) (simp add: lref_def)
  show thesis
  proof (cases "t = 0")
    case False
    then have "update_circuit (int t) circuit g = Inr (g\<lparr>lts := (lts g)[t := ?l]\<rparr>)"
      using t len nthE_nat [of "lts g" 0] by (simp add: update_circuit_def upd_lts_nat new_circuit_def)
    then show thesis
      using False one by (intro that [where wts = "wagonToSend g" and h = "mem g"]) (simp_all add: announced_def keeps_refl)
  next
    case True
    let ?g = "g\<lparr>lts := (lts g)[t := ?l], cameProc := 0\<rparr>"
    have two: "consistent ?g D U lk cap wg"
      using one by (simp add: consistent_def tables_def building_def all_refs_def)
    have n: "length (enc_wagon wg) + 9 * length (members_of (goneProc g)) < 2 ^ 31"
      using room(2) length_members_of [of "goneProc g"] by linarith
    have pre: "4 \<le> wagonMaxLen ?g"
      "announce_room (wagonMaxLen ?g) (length (enc_wagon wg)) (length (members_of (goneProc g)))"
      using W room(1) True by (simp_all add: depart_room_def)
    obtain wts h cap' where s:
      "signalDepartures (goneProc g) (new_circuit g t circuit) ?g = Inr (?g\<lparr>wagonToSend := wts, mem := h\<rparr>)"
      "consistent (?g\<lparr>wagonToSend := wts, mem := h\<rparr>) D U lk cap'
         (add_announcements AM_DEPARTURE (new_circuit g t circuit AND NOT (goneProc g)) (members_of (goneProc g)) wg)"
      "keeps (mem ?g) h (all_refs ?g D U + lk)"
      by (rule signalDepartures_ok [OF two pre n])
    have "update_circuit (int t) circuit g = Inr (?g\<lparr>wagonToSend := wts, mem := h, goneProc := 0\<rparr>)"
      using True len s(1) upd_lts_nat [of 0 g] nthE_nat [of "(lts g)[0 := ?l]" 0]
      by (simp add: update_circuit_def new_circuit_def)
    moreover have "consistent (?g\<lparr>wagonToSend := wts, mem := h, goneProc := 0\<rparr>) D U lk cap' (announced g t circuit wg)"
      using s(2) True by (simp add: announced_def consistent_def tables_def building_def all_refs_def)
    moreover have "keeps (mem g) h lk" using keeps_subset [OF s(3)] by simp
    ultimately show thesis
      using True by (intro that [where wts = wts and h = h and cap' = cap']) simp_all
  qed
qed

section \<open>Handling a train\<close>

text \<open>The parts of the state that \<^verbatim>\<open>trainHandling\<close> leaves as they are.\<close>

definition same_rest :: "globals \<Rightarrow> globals \<Rightarrow> bool" where
  "same_rest g g' \<longleftrightarrow> automatonState g' = automatonState g \<and> myAddress g' = myAddress g \<and> prec g' = prec g \<and>
     succ g' = succ g \<and> lis g' = lis g \<and> ntr g' = ntr g \<and> wagonMaxLen g' = wagonMaxLen g \<and>
     waitNb g' = waitNb g \<and> waitNbMax g' = waitNbMax g \<and> globalAddrArray g' = globalAddrArray g \<and>
     comms g' = comms g \<and> next_comm g' = next_comm g \<and> commForAccept g' = commForAccept g \<and>
     sem_init_done g' = sem_init_done g \<and> writes_done g' = writes_done g \<and> connects_done g' = connects_done g \<and>
     trace g' = trace g"

text \<open>The round a train gets: the one it brings, or the next one when the process has already
  sent the train in that round.\<close>

definition round_of :: "stamp \<Rightarrow> ltsStruct \<Rightarrow> nat" where
  "round_of st l = (let r0 = nat (sint (stamp_round st)) in if stamp_round st = stamp_round (lts_stamp l) then (r0 + 1) mod 3 else r0)"

definition delivered_round :: "nat \<Rightarrow> nat" where
  "delivered_round r = (r + 1) mod 3"

text \<open>The wagon under construction of \<open>wg\<close> as it joins a train (nothing when it is empty).\<close>

definition own_of :: "nat \<Rightarrow> awagon \<Rightarrow> awagon list" where
  "own_of r wg = (if aw_msgs wg = [] then [] else [with_round r wg])"

text \<open>A train in a buffer that the process can treat: an id and a round in range, wagons whose
  announcements have their four bytes.\<close>

definition train_in :: "globals \<Rightarrow> nat \<Rightarrow> stamp \<Rightarrow> addressSet \<Rightarrow> awagon list \<Rightarrow> nat \<Rightarrow> bool" where
  "train_in g p st circuit ws t \<longleftrightarrow>
     (\<exists>v. womims (mem g) p = Some v \<and> holds (bytes v) 0 (enc_train st circuit ws) \<and> length (bytes v) < 2 ^ 31) \<and>
     sint (stamp_id st) = int t \<and> t < nat (ntr g) \<and> 0 \<le> sint (stamp_round st) \<and> sint (stamp_round st) < 3 \<and>
     (\<forall>wg \<in> set ws. \<forall>m \<in> set (aw_msgs wg). readable m)"

lemma announced_readable:
  "\<forall>m \<in> set (aw_msgs wg). readable m \<Longrightarrow> \<forall>m \<in> set (aw_msgs (announced g t c wg)). readable m"
  by (auto simp: announced_def add_announcements_def announcement_def readable_def)

lemma length_add_announcements:
  "length (enc_wagon (add_announcements ty c ads wg)) = length (enc_wagon wg) + 9 * length ads"
  by (induction ads arbitrary: wg) (simp_all add: add_announcements_simps length_add_announcement)

lemma length_announced: "length (enc_wagon (announced g t c wg)) \<le> length (enc_wagon wg) + 144"
  using length_members_of [of "goneProc g"] by (simp add: announced_def length_add_announcements)

lemma round_of_bounds:
  assumes "0 \<le> sint (stamp_round st)" "sint (stamp_round st) < 3"
  shows "round_of st l < 3"
    and "(if stamp_round st = stamp_round (lts_stamp l) then c_mod (sint (stamp_round st) + 1) NR else sint (stamp_round st)) =
      int (round_of st l)"
    and "c_mod (int (round_of st l) - 2 + NR) NR = int (delivered_round (round_of st l))"
proof -
  have "nat ((sint (stamp_round st) + 1) mod 3) = (nat (sint (stamp_round st)) + 1) mod 3"
    using assms(1) by (simp add: nat_mod_distrib nat_add_distrib)
  then have "(sint (stamp_round st) + 1) mod 3 = int ((nat (sint (stamp_round st)) + 1) mod 3)"
    by (metis mod_int_pos_iff int_nat_eq pos_mod_sign zero_less_numeral)
  then have cm: "c_mod (sint (stamp_round st) + 1) NR = int ((nat (sint (stamp_round st)) + 1) mod 3)"
    using assms(1) by (simp add: NR_def c_mod_nonneg)
  show "(if stamp_round st = stamp_round (lts_stamp l) then c_mod (sint (stamp_round st) + 1) NR else sint (stamp_round st)) =
      int (round_of st l)"
    using assms(1) by (simp only: cm round_of_def Let_def int_nat_eq split: if_split) simp
  show "round_of st l < 3" using assms by (simp add: round_of_def Let_def nat_less_iff)
  have "c_mod (int (round_of st l) - 2 + NR) NR = (int (round_of st l) + 1) mod 3"
    by (simp add: NR_def c_mod_nonneg add.commute)
  then show "c_mod (int (round_of st l) - 2 + NR) NR = int (delivered_round (round_of st l))"
    by (simp add: delivered_round_def zmod_int add.commute)
qed

lemma delivered_round_less: "delivered_round r < 3" "r < 3 \<Longrightarrow> delivered_round r \<noteq> r"
  unfolding delivered_round_def by presburger+

lemma each_wagon_train:
  assumes "holds buf 0 (enc_train st c ws)" "length buf < 2 ^ 31"
  shows "each_wagon buf f s = foldE f (starts 10 (map (\<lambda>x. length (enc_wagon x)) ws)) s"
  using each_wagon_enc_train [OF assms(1)] holds_bound [OF assms(1)] assms(2) by simp

text \<open>Up to the loop: the old wagons are deliverable, the circuit is up to date, the last train
  is empty.\<close>

lemma trainHandling_before:
  fixes g t st circuit wg
  defines "l \<equiv> lts g ! t"
  defines "r \<equiv> round_of st l" and "c \<equiv> new_circuit g t circuit"
  assumes con: "consistent g D U (add_mset p lk) cap wg" and tr: "train_in g p st circuit ws t"
    and W: "7 \<le> wagonMaxLen g" and room: "depart_room g t wg" "length (enc_wagon wg) + 144 < 2 ^ 31"
  obtains g5 v cap' where
    "trainHandling p g = bindE (foldE (keep_wagon p (bytes v) (int t) (int r)) (starts 10 (map (\<lambda>x. length (enc_wagon x)) ws)) g5) (\<lambda>g6.
       bindE (upd_lts (int t) (\<lambda>l. l\<lparr>lts_stamp := (lts_stamp l)\<lparr>stamp_round := word_of_int (int r)\<rparr>\<rparr>) g6) (\<lambda>g7.
       bindE (take_wagonToSend (int t) (int r) g7) (\<lambda>g8.
         upd_lts (int t) (\<lambda>l. l\<lparr>lts_stamp := (lts_stamp l)\<lparr>stamp_lc := stamp_lc st + 1\<rparr>\<rparr>) g8)))"
    "consistent g5 (D @ U t (delivered_round r)) (U(t := (U t)(delivered_round r := []))) (add_mset p lk) cap' (announced g t circuit wg)"
    "lts g5 = (lts g)[t := l\<lparr>lts_circuit := c, lts_w := no_wiw, lts_wlen := 0, lts_wtosend := None\<rparr>]"
    "womims (mem g5) p = Some v" "holds (bytes v) 0 (enc_train st circuit ws)" "length (bytes v) < 2 ^ 31"
    "cameProc g5 = (if t = 0 then 0 else cameProc g)" "goneProc g5 = (if t = 0 then 0 else goneProc g)"
    "same_rest g g5" "keeps (mem g) (mem g5) (add_mset p lk)"
proof -
  obtain v0 where v0: "womims (mem g) p = Some v0" "holds (bytes v0) 0 (enc_train st circuit ws)" "length (bytes v0) < 2 ^ 31"
    and st: "sint (stamp_id st) = int t" "t < nat (ntr g)" "0 \<le> sint (stamp_round st)" "sint (stamp_round st) < 3"
    using tr by (auto simp: train_in_def)
  note h = holds_enc_train [OF v0(2)] and rnd = round_of_bounds [OF st(3,4), of l]
  have t: "t < 16" using con st(2) unfolding consistent_def by (blast intro: tables_lt)
  have len: "length (lts g) = 16" by (rule consistent_len [OF con])
  let ?r2 = "delivered_round r"
  let ?g1 = "g\<lparr>counters := (counters g)\<lparr>recent_trains_received := recent_trains_received (counters g) + 1,
      recent_trains_bytes_received := recent_trains_bytes_received (counters g) + scast (c_int (10 + length (enc_wagons ws)))\<rparr>\<rparr>"
  have "consistent ?g1 D U (add_mset p lk) cap wg"
    using con by (simp add: consistent_def tables_def building_def all_refs_def)
  moreover have "t < nat (ntr ?g1)" using st(2) by simp
  ultimately obtain q us where two: "deliver_round (int t) (int ?r2) ?g1 = Inr (?g1\<lparr>wagonsToDeliver := Some q, unstableWagons := us\<rparr>)"
    "consistent (?g1\<lparr>wagonsToDeliver := Some q, unstableWagons := us\<rparr>) (D @ U t ?r2) (U(t := (U t)(?r2 := []))) (add_mset p lk) cap wg"
    by (rule deliver_round_ok [OF _ _ delivered_round_less(1)])
  let ?g2 = "?g1\<lparr>wagonsToDeliver := Some q, unstableWagons := us\<rparr>"
  have W4: "4 \<le> wagonMaxLen ?g2" "depart_room ?g2 t wg" using W room(1) by (simp_all add: depart_room_def)
  have same: "new_circuit ?g2 t circuit = c" "announced ?g2 t circuit wg = announced g t circuit wg"
    by (simp_all add: new_circuit_def c_def announced_def)
  obtain wts h3 cap' where three:
    "update_circuit (int t) circuit ?g2 = Inr (?g2\<lparr>lts := (lts ?g2)[t := (lts ?g2 ! t)\<lparr>lts_circuit := new_circuit ?g2 t circuit\<rparr>],
       cameProc := if t = 0 then 0 else cameProc ?g2, wagonToSend := wts, mem := h3,
       goneProc := if t = 0 then 0 else goneProc ?g2\<rparr>)"
    "consistent (?g2\<lparr>lts := (lts ?g2)[t := (lts ?g2 ! t)\<lparr>lts_circuit := new_circuit ?g2 t circuit\<rparr>],
       cameProc := if t = 0 then 0 else cameProc ?g2, wagonToSend := wts, mem := h3,
       goneProc := if t = 0 then 0 else goneProc ?g2\<rparr>) (D @ U t ?r2) (U(t := (U t)(?r2 := []))) (add_mset p lk) cap' (announced ?g2 t circuit wg)"
    "keeps (mem ?g2) h3 (add_mset p lk)"
    by (rule update_circuit_ok [OF two(2) t W4 room(2)])
  have fields: "cameProc ?g2 = cameProc g" "goneProc ?g2 = goneProc g" "lts ?g2 = lts g" by simp_all
  let ?g3 = "?g2\<lparr>lts := (lts g)[t := l\<lparr>lts_circuit := c\<rparr>],
       cameProc := if t = 0 then 0 else cameProc g, wagonToSend := wts, mem := h3,
       goneProc := if t = 0 then 0 else goneProc g\<rparr>"
  have con3: "consistent ?g3 (D @ U t ?r2) (U(t := (U t)(?r2 := []))) (add_mset p lk) cap' (announced g t circuit wg)"
    using three(2) unfolding same fields l_def .
  obtain h4 where four: "release_lts (int t) ?g3 = Inr (?g3\<lparr>mem := h4, lts := (lts ?g3)[t := (lts ?g3 ! t)\<lparr>lts_w := no_wiw, lts_wlen := 0\<rparr>]\<rparr>)"
    "consistent (?g3\<lparr>mem := h4, lts := (lts ?g3)[t := (lts ?g3 ! t)\<lparr>lts_w := no_wiw, lts_wlen := 0\<rparr>]\<rparr>)
       (D @ U t ?r2) (U(t := (U t)(?r2 := []))) (add_mset p lk) cap' (announced g t circuit wg)"
    "keeps (mem ?g3) h4 (add_mset p lk)"
    by (rule release_lts_ok [OF con3 t])
  let ?g4 = "?g3\<lparr>mem := h4, lts := (lts g)[t := l\<lparr>lts_circuit := c, lts_w := no_wiw, lts_wlen := 0\<rparr>]\<rparr>"
  have g4: "?g3\<lparr>mem := h4, lts := (lts ?g3)[t := (lts ?g3 ! t)\<lparr>lts_w := no_wiw, lts_wlen := 0\<rparr>]\<rparr> = ?g4"
    using t len by simp
  obtain h5 where five: "free_wtosend (int t) ?g4 = Inr (?g4\<lparr>mem := h5, lts := (lts ?g4)[t := (lts ?g4 ! t)\<lparr>lts_wtosend := None\<rparr>]\<rparr>)"
    "consistent (?g4\<lparr>mem := h5, lts := (lts ?g4)[t := (lts ?g4 ! t)\<lparr>lts_wtosend := None\<rparr>]\<rparr>)
       (D @ U t ?r2) (U(t := (U t)(?r2 := []))) (add_mset p lk) cap' (announced g t circuit wg)"
    "keeps (mem ?g4) h5 (add_mset p lk)"
    using free_wtosend_ok [OF four(2)[unfolded g4] t] by metis
  let ?g5 = "?g4\<lparr>mem := h5, lts := (lts ?g4)[t := (lts ?g4 ! t)\<lparr>lts_wtosend := None\<rparr>]\<rparr>"
  have kp: "keeps (mem g) h5 (add_mset p lk)"
    using keeps_trans [OF keeps_trans [OF three(3), of h4] , of h5] four(3) five(3) by simp
  then obtain v where v: "womims h5 p = Some v" "bytes v = bytes v0"
    using keepsD [OF _ _ v0(1)] by (metis union_single_eq_member)
  have g5: "?g4\<lparr>mem := h5, lts := (lts ?g4)[t := (lts ?g4 ! t)\<lparr>lts_wtosend := None\<rparr>]\<rparr> =
      ?g4\<lparr>mem := h5, lts := (lts g)[t := l\<lparr>lts_circuit := c, lts_w := no_wiw, lts_wlen := 0, lts_wtosend := None\<rparr>]\<rparr>"
    using t len by simp
  have hv: "holds (bytes v) 0 (enc_train st circuit ws)" "length (bytes v) < 2 ^ 31" using v0 v(2) by simp_all
  have three': "update_circuit (int t) circuit ?g2 = Inr ?g3"
    using three(1) unfolding same fields l_def .
  have four': "release_lts (int t) ?g3 = Inr ?g4" using four(1) unfolding g4 .
  have e1: "get_womim (mem g) (Some p) = Inr v0" by (simp add: get_womim_def v0(1))
  have e2: "nthE (lts ?g1) (int t) = Inr l" using t len by (simp add: l_def)
  have e3: "get_womim (mem ?g5) (Some p) = Inr v" using v(1) by (simp add: get_womim_def)
  show thesis
  proof (rule that [OF _ five(2) _ _ hv])
    show "trainHandling p g = bindE (foldE (keep_wagon p (bytes v) (int t) (int r)) (starts 10 (map (\<lambda>x. length (enc_wagon x)) ws)) ?g5) (\<lambda>g6.
       bindE (upd_lts (int t) (\<lambda>l. l\<lparr>lts_stamp := (lts_stamp l)\<lparr>stamp_round := word_of_int (int r)\<rparr>\<rparr>) g6) (\<lambda>g7.
       bindE (take_wagonToSend (int t) (int r) g7) (\<lambda>g8.
         upd_lts (int t) (\<lambda>l. l\<lparr>lts_stamp := (lts_stamp l)\<lparr>stamp_lc := stamp_lc st + 1\<rparr>\<rparr>) g8)))"
      unfolding trainHandling_def
      by (simp only: e1 e2 e3 three' four' five(1) two(1) bindE_Inr Let_def st(1) rnd(2,3) [folded r_def] h(1,3,4)
          each_wagon_train [OF hv])
  qed (use v t len kp in \<open>simp_all add: same_rest_def\<close>)
qed

lemma same_rest_trans: "same_rest g g' \<Longrightarrow> same_rest g' g'' \<Longrightarrow> same_rest g g''"
  unfolding same_rest_def by metis

lemma region_keeps:
  assumes "region h l ws" "keeps h h' R" "\<And>a off. p_wagon (lts_w l) = Some (a, off) \<Longrightarrow> a \<in># R"
  shows "region h' l ws"
proof (cases "ws = []")
  case False
  with assms(1) obtain a off w where "p_wagon (lts_w l) = Some (a, off)" "womims h a = Some w"
    "holds (bytes w) off (enc_wagons ws)" "lts_wlen l = c_int (length (enc_wagons ws))"
    by (auto simp: region_def)
  moreover from keepsD [OF assms(2) assms(3) [OF this(1)] this(2)]
  obtain w' where "womims h' a = Some w'" "bytes w' = bytes w" by blast
  ultimately show ?thesis using False by (auto simp: region_def)
qed (use assms(1) in \<open>simp add: region_def\<close>)

lemma region_cong: "lts_w l' = lts_w l \<Longrightarrow> lts_wlen l' = lts_wlen l \<Longrightarrow> region h l' ws = region h l ws"
  by (simp add: region_def)

lemma resend_all_wagon:
  assumes "lts_w l = no_wiw" "p_wagon (lts_w (resend_all p Q (at_offsets off ws) l)) = Some (a, o')"
  shows "a = p"
  using assms by (auto simp: resend_all_formula no_wiw_def wagon_in_def split: list.splits prod.splits)

text \<open>The end of \<^verbatim>\<open>trainHandling\<close>: the round, the wagon under construction, the clock.\<close>

lemma train_finish:
  fixes g t r wg
  assumes con: "consistent g D U lk cap wg" and t: "t < nat (ntr g)" and r: "r < 3"
    and l: "lts_wtosend (lts g ! t) = None"
    and wg: "\<forall>m \<in> set (aw_msgs wg). readable m" "length (enc_wagon wg) < 2 ^ 31" and W: "7 \<le> wagonMaxLen g"
  obtains g' wi cap' where
    "bindE (upd_lts (int t) (\<lambda>l. l\<lparr>lts_stamp := (lts_stamp l)\<lparr>stamp_round := word_of_int (int r)\<rparr>\<rparr>) g) (\<lambda>g7.
     bindE (take_wagonToSend (int t) (int r) g7) (\<lambda>g8.
       upd_lts (int t) (\<lambda>l. l\<lparr>lts_stamp := (lts_stamp l)\<lparr>stamp_lc := lc\<rparr>\<rparr>) g8)) = Inr g'"
    "consistent g' D (U(t := (U t)(r := U t r @ map (Pair wi) (own_of r wg)))) lk cap'
       (if aw_msgs wg = [] then wg else empty_wagon (myAddress g))"
    "lts g' = (lts g)[t := lts g' ! t]"
    "lts_stamp (lts g' ! t) = (lts_stamp (lts g ! t))\<lparr>stamp_lc := lc, stamp_round := word_of_int (int r)\<rparr>"
    "lts_circuit (lts g' ! t) = lts_circuit (lts g ! t)" "lts_type (lts g' ! t) = lts_type (lts g ! t)"
    "lts_w (lts g' ! t) = lts_w (lts g ! t)" "lts_wlen (lts g' ! t) = lts_wlen (lts g ! t)"
    "own_wagon (mem g') (lts g' ! t) (own_of r wg)" "keeps (mem g) (mem g') lk" "same_rest g g'"
    "cameProc g' = cameProc g" "goneProc g' = goneProc g"
proof -
  have t16: "t < 16" using con t unfolding consistent_def by (blast intro: tables_lt)
  have len: "length (lts g) = 16" by (rule consistent_len [OF con])
  let ?l7 = "(lts g ! t)\<lparr>lts_stamp := (lts_stamp (lts g ! t))\<lparr>stamp_round := word_of_int (int r)\<rparr>\<rparr>"
  let ?g7 = "g\<lparr>lts := (lts g)[t := ?l7]\<rparr>"
  have "lts_ok (mem g) (lts g ! t)" by (rule consistent_ltsD [OF con t16])
  then have "lts_ok (mem g) ?l7" by (simp add: lts_ok_def)
  then have con7: "consistent ?g7 D U lk cap wg"
    by (rule consistent_lts [OF con t16]) (simp add: lref_def)
  have up7: "upd_lts (int t) (\<lambda>l. l\<lparr>lts_stamp := (lts_stamp l)\<lparr>stamp_round := word_of_int (int r)\<rparr>\<rparr>) g = Inr ?g7"
    using t16 len by (simp add: upd_lts_nat)
  have last: "consistent (h\<lparr>lts := (lts h)[t := (lts h ! t)\<lparr>lts_stamp := x\<rparr>]\<rparr>) D' U' lk cap' w"
    if "consistent h D' U' lk cap' w" for h D' U' cap' w x
  proof (rule consistent_lts [OF that t16])
    show "lts_ok (mem h) ((lts h ! t)\<lparr>lts_stamp := x\<rparr>)"
      using consistent_ltsD [OF that t16] by (simp add: lts_ok_def)
  qed (simp add: lref_def)
  show thesis
  proof (cases "aw_msgs wg = []")
    case True
    have "take_wagonToSend (int t) (int r) ?g7 = Inr ?g7" by (rule take_wagonToSend_empty [OF con7 True])
    moreover have "U(t := (U t)(r := U t r)) = U" by simp
    ultimately show thesis
      using True up7 t16 len last [OF con7] l
      by (intro that [where g' = "?g7\<lparr>lts := (lts ?g7)[t := (lts ?g7 ! t)\<lparr>lts_stamp := (lts_stamp (lts ?g7 ! t))\<lparr>stamp_lc := lc\<rparr>\<rparr>]\<rparr>" and wi = no_wiw])
        (simp_all add: upd_lts_nat own_of_def own_wagon_def keeps_refl same_rest_def)
  next
    case False
    have pre: "t < nat (ntr ?g7)" "lts_wtosend (lts ?g7 ! t) = None" "7 \<le> wagonMaxLen ?g7"
      using t l t16 len W by simp_all
    obtain us h a b where k:
      "take_wagonToSend (int t) (int r) ?g7 = Inr (?g7\<lparr>lts := (lts ?g7)[t := (lts ?g7 ! t)\<lparr>lts_wtosend := Some (wagon_in a 0)\<rparr>],
       unstableWagons := us, mem := h, wagonToSend := Some (wagon_in b 0)\<rparr>)"
      "consistent (?g7\<lparr>lts := (lts ?g7)[t := (lts ?g7 ! t)\<lparr>lts_wtosend := Some (wagon_in a 0)\<rparr>],
       unstableWagons := us, mem := h, wagonToSend := Some (wagon_in b 0)\<rparr>)
       D (U(t := (U t)(r := U t r @ [(wagon_in a 0, with_round r wg)]))) lk (nat (wagonMaxLen ?g7)) (empty_wagon (myAddress ?g7))"
      "wagon_at h (wagon_in a 0) (with_round r wg)" "keeps (mem ?g7) h (all_refs ?g7 D U + lk)"
      by (rule take_wagonToSend_ok [OF con7 pre(1) r pre(2) False wg pre(3)])
    let ?g8 = "?g7\<lparr>lts := (lts ?g7)[t := (lts ?g7 ! t)\<lparr>lts_wtosend := Some (wagon_in a 0)\<rparr>],
       unstableWagons := us, mem := h, wagonToSend := Some (wagon_in b 0)\<rparr>"
    have kl: "keeps (mem g) h lk" using keeps_subset [OF k(4)] by simp
    have own: "\<exists>wg'. wagon_at h (wagon_in a 0) wg' \<and> [with_round r wg] = (if aw_msgs wg' = [] then [] else [wg'])"
      using k(3) False by (intro exI [of _ "with_round r wg"]) simp
    show thesis
      using False up7 t16 len last [OF k(2)] kl own
      by (intro that [where g' = "?g8\<lparr>lts := (lts ?g8)[t := (lts ?g8 ! t)\<lparr>lts_stamp := (lts_stamp (lts ?g8 ! t))\<lparr>stamp_lc := lc\<rparr>\<rparr>]\<rparr>"
            and wi = "wagon_in a 0" and cap' = "nat (wagonMaxLen ?g7)"])
        (simp_all only: up7 k(1) bindE_Inr, simp_all add: upd_lts_nat own_of_def own_wagon_def same_rest_def)
  qed
qed


text \<open>\<^verbatim>\<open>trainHandling\<close> of a train \<open>st, circuit, ws\<close>, recent or not. With \<open>r\<close> the round it
  gets: the wagons of round \<open>r - 2\<close> follow the wagons to deliver; the wagons of the other
  members become unstable in round \<open>r\<close>, with the wagon under construction after them; the
  last train of its id has the new circuit, the round, the next clock, the wagon under
  construction, and the wagons for the successor.\<close>

lemma trainHandling_ok:
  fixes g t st circuit wg
  defines "r \<equiv> round_of st (lts g ! t)" and "c \<equiv> new_circuit g t circuit"
    and "gone \<equiv> if t = 0 then 0 else goneProc g" and "wg1 \<equiv> announced g t circuit wg"
  defines "kept \<equiv> is_kept c gone (myAddress g)" and "resent \<equiv> is_resent c gone (myAddress g) (succ g)"
  assumes con: "consistent g D U (add_mset p lk) cap wg" and tr: "train_in g p st circuit ws t"
    and W: "7 \<le> wagonMaxLen g" and room: "depart_room g t wg" "length (enc_wagon wg) + 144 < 2 ^ 31"
    and rdb: "\<forall>m \<in> set (aw_msgs wg). readable m"
  obtains g' wi cap' where
    "trainHandling p g = Inr g'"
    "consistent g' (D @ U t (delivered_round r))
       (U(t := (U t)(delivered_round r := [],
            r := U t r @ held_of p kept (at_offsets 10 ws) @ map (Pair wi) (own_of r wg1))))
       (add_mset p lk) cap' (if aw_msgs wg1 = [] then wg1 else empty_wagon (myAddress g))"
    "lts g' = (lts g)[t := lts g' ! t]"
    "lts_stamp (lts g' ! t) = (lts_stamp (lts g ! t))\<lparr>stamp_lc := stamp_lc st + 1, stamp_round := word_of_int (int r)\<rparr>"
    "lts_circuit (lts g' ! t) = c" "lts_type (lts g' ! t) = lts_type (lts g ! t)"
    "own_wagon (mem g') (lts g' ! t) (own_of r wg1)"
    "\<And>pre mid post. ws = pre @ mid @ post \<Longrightarrow> \<forall>w \<in> set pre. \<not> resent w \<Longrightarrow> \<forall>w \<in> set mid. resent w \<Longrightarrow>
       \<forall>w \<in> set post. \<not> resent w \<Longrightarrow> region (mem g') (lts g' ! t) mid"
    "cameProc g' = (if t = 0 then 0 else cameProc g)" "goneProc g' = gone" "same_rest g g'"
    "\<exists>v. womims (mem g') p = Some v \<and> holds (bytes v) 0 (enc_train st circuit ws) \<and> length (bytes v) < 2 ^ 31"
    "keeps (mem g) (mem g') (add_mset p lk)"
proof -
  have st: "t < nat (ntr g)" "\<forall>wg \<in> set ws. \<forall>m \<in> set (aw_msgs wg). readable m"
    "0 \<le> sint (stamp_round st)" "sint (stamp_round st) < 3"
    using tr by (auto simp: train_in_def)
  have r: "r < 3" unfolding r_def by (rule round_of_bounds [OF st(3,4)])
  have t: "t < 16" using con st(1) unfolding consistent_def by (blast intro: tables_lt)
  have len: "length (lts g) = 16" by (rule consistent_len [OF con])
  let ?r2 = "delivered_round r" and ?D = "D @ U t (delivered_round r)"
  let ?U5 = "U(t := (U t)(delivered_round r := []))"
  let ?l5 = "(lts g ! t)\<lparr>lts_circuit := c, lts_w := no_wiw, lts_wlen := 0, lts_wtosend := None\<rparr>"
  obtain g5 v cap5 where five:
    "trainHandling p g = bindE (foldE (keep_wagon p (bytes v) (int t) (int r)) (starts 10 (map (\<lambda>x. length (enc_wagon x)) ws)) g5) (\<lambda>g6.
       bindE (upd_lts (int t) (\<lambda>l. l\<lparr>lts_stamp := (lts_stamp l)\<lparr>stamp_round := word_of_int (int r)\<rparr>\<rparr>) g6) (\<lambda>g7.
       bindE (take_wagonToSend (int t) (int r) g7) (\<lambda>g8.
         upd_lts (int t) (\<lambda>l. l\<lparr>lts_stamp := (lts_stamp l)\<lparr>stamp_lc := stamp_lc st + 1\<rparr>\<rparr>) g8)))"
    "consistent g5 ?D ?U5 (add_mset p lk) cap5 wg1" "lts g5 = (lts g)[t := ?l5]"
    "womims (mem g5) p = Some v" "holds (bytes v) 0 (enc_train st circuit ws)" "length (bytes v) < 2 ^ 31"
    "cameProc g5 = (if t = 0 then 0 else cameProc g)" "goneProc g5 = (if t = 0 then 0 else goneProc g)"
    "same_rest g g5" "keeps (mem g) (mem g5) (add_mset p lk)"
    unfolding r_def c_def wg1_def by (rule trainHandling_before [OF con tr W room])
  have rest5: "myAddress g5 = myAddress g" "succ g5 = succ g" "ntr g5 = ntr g" "wagonMaxLen g5 = wagonMaxLen g"
    using five(9) by (simp_all add: same_rest_def)
  have l5: "lts g5 ! t = ?l5" using t len five(3) by simp
  have pos: "lts_pos (lts g5 ! t) p 10" unfolding l5 by (simp add: lts_pos_def)
  let ?res = "resend_all p resent (at_offsets 10 ws)"
  have ws: "holds (bytes v) 10 (enc_wagons ws)" by (rule holds_enc_train(5) [OF five(5)])
  obtain us6 h6 where six:
    "foldE (keep_wagon p (bytes v) (int t) (int r)) (starts 10 (map (\<lambda>x. length (enc_wagon x)) ws)) g5 =
      Inr (g5\<lparr>lts := (lts g5)[t := ?res (lts g5 ! t)], unstableWagons := us6, mem := h6\<rparr>)"
    "consistent (g5\<lparr>lts := (lts g5)[t := ?res (lts g5 ! t)], unstableWagons := us6, mem := h6\<rparr>)
      ?D (?U5(t := (?U5 t)(r := ?U5 t r @ held_of p kept (at_offsets 10 ws)))) (add_mset p lk) cap5 wg1"
    "keeps (mem g5) h6 (add_mset p lk)"
  proof -
    have "t < nat (ntr g5)" "lts_circuit (lts g5 ! t) = c" "goneProc g5 = gone"
      using st(1) rest5(3) l5 five(8) by (simp_all add: gone_def)
    from keep_loop [OF five(2) this(1) r five(4) refl five(6) ws st(2) pos this(2,3) rest5(1,2)]
    show thesis using that unfolding kept_def resent_def by blast
  qed
  let ?g6 = "g5\<lparr>lts := (lts g5)[t := ?res (lts g5 ! t)], unstableWagons := us6, mem := h6\<rparr>"
  have t6: "t < nat (ntr ?g6)" "lts_wtosend (lts ?g6 ! t) = None" "7 \<le> wagonMaxLen ?g6" "myAddress ?g6 = myAddress g"
    using st(1) rest5 W t len five(3) by simp_all
  have rd1: "\<forall>m \<in> set (aw_msgs wg1). readable m" unfolding wg1_def by (rule announced_readable [OF rdb])
  have len1: "length (enc_wagon wg1) < 2 ^ 31" using length_announced [of g t circuit wg] room(2) unfolding wg1_def by linarith
  obtain g' wi cap' where fin:
    "bindE (upd_lts (int t) (\<lambda>l. l\<lparr>lts_stamp := (lts_stamp l)\<lparr>stamp_round := word_of_int (int r)\<rparr>\<rparr>) ?g6) (\<lambda>g7.
     bindE (take_wagonToSend (int t) (int r) g7) (\<lambda>g8.
       upd_lts (int t) (\<lambda>l. l\<lparr>lts_stamp := (lts_stamp l)\<lparr>stamp_lc := stamp_lc st + 1\<rparr>\<rparr>) g8)) = Inr g'"
    "consistent g' ?D ((?U5(t := (?U5 t)(r := ?U5 t r @ held_of p kept (at_offsets 10 ws))))
        (t := ((?U5(t := (?U5 t)(r := ?U5 t r @ held_of p kept (at_offsets 10 ws)))) t)
          (r := (?U5(t := (?U5 t)(r := ?U5 t r @ held_of p kept (at_offsets 10 ws)))) t r @ map (Pair wi) (own_of r wg1))))
       (add_mset p lk) cap' (if aw_msgs wg1 = [] then wg1 else empty_wagon (myAddress ?g6))"
    "lts g' = (lts ?g6)[t := lts g' ! t]"
    "lts_stamp (lts g' ! t) = (lts_stamp (lts ?g6 ! t))\<lparr>stamp_lc := stamp_lc st + 1, stamp_round := word_of_int (int r)\<rparr>"
    "lts_circuit (lts g' ! t) = lts_circuit (lts ?g6 ! t)" "lts_type (lts g' ! t) = lts_type (lts ?g6 ! t)"
    "lts_w (lts g' ! t) = lts_w (lts ?g6 ! t)" "lts_wlen (lts g' ! t) = lts_wlen (lts ?g6 ! t)"
    "own_wagon (mem g') (lts g' ! t) (own_of r wg1)" "keeps (mem ?g6) (mem g') (add_mset p lk)" "same_rest ?g6 g'"
    "cameProc g' = cameProc ?g6" "goneProc g' = goneProc ?g6"
    by (rule train_finish [OF six(2) t6(1) r t6(2) rd1 len1 t6(3)])
  have "same_rest g5 ?g6" by (simp add: same_rest_def)
  note rest = same_rest_trans [OF same_rest_trans [OF five(9) this] fin(11)]
  have kp: "keeps (mem g5) (mem g') (add_mset p lk)" using keeps_trans [OF six(3)] fin(10) by simp
  obtain v' where v': "womims (mem g') p = Some v'" "bytes v' = bytes v"
    using keepsD [OF kp _ five(4)] by auto
  have l6: "lts ?g6 ! t = ?res ?l5" using t len five(3) by simp
  have reg: "region (mem g') (lts g' ! t) mid"
    if "ws = pre @ mid @ post" "\<forall>w \<in> set pre. \<not> resent w" "\<forall>w \<in> set mid. resent w" "\<forall>w \<in> set post. \<not> resent w" for pre mid post
  proof -
    have "region (mem g') (?res ?l5) mid"
      by (rule region_resend_all [OF that _ _ v'(1)]) (use ws v'(2) in simp_all)
    then show ?thesis using region_cong [of "lts g' ! t" "?res ?l5" "mem g'" mid] fin(7,8) unfolding l6 by simp
  qed
  have U: "(?U5(t := (?U5 t)(r := ?U5 t r @ held_of p kept (at_offsets 10 ws))))
        (t := ((?U5(t := (?U5 t)(r := ?U5 t r @ held_of p kept (at_offsets 10 ws)))) t)
          (r := (?U5(t := (?U5 t)(r := ?U5 t r @ held_of p kept (at_offsets 10 ws)))) t r @ map (Pair wi) (own_of r wg1)))
      = U(t := (U t)(?r2 := [], r := U t r @ held_of p kept (at_offsets 10 ws) @ map (Pair wi) (own_of r wg1)))"
    using delivered_round_less(2) [OF r] by (simp add: fun_eq_iff)
  have e: "(lts ?g6)[t := x] = (lts g)[t := x]" for x using five(3) by simp
  have lts': "lts g' = (lts g)[t := lts g' ! t]" by (rule trans [OF fin(3) e])
  show thesis
  proof (rule that [where g' = g' and wi = wi and cap' = cap', OF _ _ lts' _ _ _ fin(9) reg _ _ rest])
    show "trainHandling p g = Inr g'" unfolding five(1) six(1) bindE_Inr by (rule fin(1))
    show "consistent g' ?D (U(t := (U t)(?r2 := [], r := U t r @ held_of p kept (at_offsets 10 ws) @ map (Pair wi) (own_of r wg1))))
       (add_mset p lk) cap' (if aw_msgs wg1 = [] then wg1 else empty_wagon (myAddress g))"
      using fin(2) unfolding U t6(4) .
    show "lts_stamp (lts g' ! t) = (lts_stamp (lts g ! t))\<lparr>stamp_lc := stamp_lc st + 1, stamp_round := word_of_int (int r)\<rparr>"
      "lts_circuit (lts g' ! t) = c" "lts_type (lts g' ! t) = lts_type (lts g ! t)"
      using fin(4-6) unfolding l6 by simp_all
    show "cameProc g' = (if t = 0 then 0 else cameProc g)" "goneProc g' = gone"
      using fin(12,13) five(7,8) by (simp_all add: gone_def)
    show "\<exists>v. womims (mem g') p = Some v \<and> holds (bytes v) 0 (enc_train st circuit ws) \<and> length (bytes v) < 2 ^ 31"
      using v' five(5,6) by simp
    show "keeps (mem g) (mem g') (add_mset p lk)" by (rule keeps_trans [OF five(10) kp])
  qed
qed

end
