(* ===== verification/Automaton.thy ===== *)
theory Automaton
  imports TrainInvariant
begin

text \<open>
  The automaton of the protocol, \<^verbatim>\<open>src/stateMachine.c\<close>, with the threads that feed it
  (\<^verbatim>\<open>msgTreatment\<close> of \<^verbatim>\<open>src/connect.c\<close>) and \<^verbatim>\<open>trInit\<close> of \<^verbatim>\<open>src/interface.c\<close>.
  \<^verbatim>\<open>stateMachine\<close> runs with \<^verbatim>\<open>stateMachineMutex\<close> held, so it is one step here; a message is
  the number of the buffer that holds it.
\<close>

section \<open>Names\<close>

definition int_digits :: "int \<Rightarrow> string" where
  "int_digits i = (if i < 0 then CHR ''-'' # dec_digits (nat (- i)) else dec_digits (nat i))"

fun stateToStr :: "State \<Rightarrow> string" where
  "stateToStr OFFLINE_CONNECTION_ATTEMPT = ''OFFLINE_CONNECTION_ATTEMPT''"
| "stateToStr OFFLINE_CONFIRMATION_WAIT = ''OFFLINE_CONFIRMATION_WAIT''"
| "stateToStr ALONE_INSERT_WAIT = ''ALONE_INSERT_WAIT''"
| "stateToStr ALONE_CONNECTION_WAIT = ''ALONE_CONNECTION_WAIT''"
| "stateToStr SEVERAL = ''SEVERAL''"
| "stateToStr WAIT = ''WAIT''"

definition msgTypeToStr :: "MType \<Rightarrow> string" where
  "msgTypeToStr mtype =
     (if mtype = DEFAULT then ''DEFAULT''
      else if mtype = TRAIN then ''TRAIN''
      else if mtype = INSERT then ''INSERT''
      else if mtype = ACK_INSERT then ''ACK_INSERT''
      else if mtype = NAK_INSERT then ''NAK_INSERT''
      else if mtype = DISCONNECT_PRED then ''DISCONNECT_PRED''
      else if mtype = DISCONNECT_SUCC then ''DISCONNECT_SUCC''
      else if mtype = NEWSUCC then ''NEWSUCC''
      else ''Unknown (value = '' @ int_digits (sint mtype) @ '')'')"

definition unexpected :: "MType \<Rightarrow> State \<Rightarrow> 'a result" where
  "unexpected typ s =
     Inl (ExitFailure (''unexpected case : received message '' @ msgTypeToStr typ @ '' in state '' @ stateToStr s))"

section \<open>Coming in, going out\<close>

definition post_init_done :: "globals \<Rightarrow> globals" where
  "post_init_done g = g\<lparr>sem_init_done := Suc (sem_init_done g)\<rparr>"

definition offlineInit :: "env \<Rightarrow> globals \<Rightarrow> globals result" where
  "offlineInit e g =
     bindE (participate e True g) (\<lambda>g1.
     bindE (searchSucc e (myAddress g1) g1) (\<lambda>(s, g2).
       let g3 = g2\<lparr>succ := s\<rparr> in
       if addrIsMine (succ g3) g3
       then bindE (signalArrival (myAddress g3) (myAddress g3) g3) (\<lambda>g4.
            bindE (deliver_wagonToSend g4) (\<lambda>g5.
              Inr ((post_init_done (g5\<lparr>automatonState := ALONE_INSERT_WAIT\<rparr>))\<lparr>prec := myAddress g5\<rparr>)))
       else bindE (sendOther e (succ g3) False INSERT (myAddress g3) g3) (\<lambda>(_, g4).
              Inr (g4\<lparr>automatonState := OFFLINE_CONNECTION_ATTEMPT\<rparr>))))"

text \<open>\<^verbatim>\<open>randSleep\<close> of a number that \<^verbatim>\<open>rand\<close> gives.\<close>

definition randSleep :: "int \<Rightarrow> int \<Rightarrow> int result" where
  "randSleep rand maxms = (if maxms = 0 then Inl MemFault else Inr (c_mod rand maxms))"

text \<open>\<^verbatim>\<open>(1 << waitNb) * waitDefaultTime * 1000\<close> on ints of 32 bits.\<close>

definition sleep_bound :: "globals \<Rightarrow> int" where
  "sleep_bound g = sint (push_bit (nat (waitNb g)) 1 * word_of_int (waitDefaultTime g) * word_of_int 1000 :: 32 word)"

definition sleepTreatment :: "env \<Rightarrow> int \<Rightarrow> globals \<Rightarrow> (int \<times> globals) result" where
  "sleepTreatment e rand g =
     bindE (randSleep rand (sleep_bound g)) (\<lambda>sleep.
     bindE (offlineInit e (g\<lparr>waitNb := waitNb g + 1\<rparr>)) (\<lambda>g'. Inr (sleep, g')))"

definition waitBeforeConnect :: "env \<Rightarrow> globals \<Rightarrow> globals result" where
  "waitBeforeConnect e g =
     (if waitNb g > waitNbMax g then Inl (ExitFailure ''waitNbMax owerflowed'')
      else bindE (participate e False g) (\<lambda>g1.
           bindE (if prec g1 \<noteq> 0
                  then bindE (closeConnection (env_self e) (prec g1) True g1) (\<lambda>g. Inr (g\<lparr>prec := 0\<rparr>))
                  else Inr g1) (\<lambda>g2.
           bindE (if succ g2 \<noteq> 0
                  then bindE (closeConnection (env_self e) (succ g2) False g2) (\<lambda>g. Inr (g\<lparr>succ := 0\<rparr>))
                  else Inr g2) (\<lambda>g3.
             Inr (emit (Spawned SleepTreatment) g3)))))"

definition nextState :: "env \<Rightarrow> State \<Rightarrow> globals \<Rightarrow> globals result" where
  "nextState e s g =
     (case s of
        OFFLINE_CONNECTION_ATTEMPT \<Rightarrow> offlineInit e g
      | OFFLINE_CONFIRMATION_WAIT \<Rightarrow> Inr (g\<lparr>automatonState := OFFLINE_CONFIRMATION_WAIT\<rparr>)
      | WAIT \<Rightarrow> bindE (waitBeforeConnect e g) (\<lambda>g'. Inr (g'\<lparr>automatonState := WAIT\<rparr>))
      | ALONE_INSERT_WAIT \<Rightarrow>
          Inr (g\<lparr>prec := myAddress g, succ := myAddress g, automatonState := ALONE_INSERT_WAIT\<rparr>)
      | ALONE_CONNECTION_WAIT \<Rightarrow> Inr (g\<lparr>automatonState := ALONE_CONNECTION_WAIT\<rparr>)
      | SEVERAL \<Rightarrow> Inr (g\<lparr>automatonState := SEVERAL\<rparr>))"

definition init_train :: "int \<Rightarrow> ltsStruct" where
  "init_train tid = \<lparr>lts_type = TRAIN,
     lts_stamp = \<lparr>stamp_id = word_of_int tid, stamp_lc = 0, stamp_round = 0\<rparr>, lts_circuit = 0,
     lts_w = \<lparr>p_wagon = None, p_womim = None\<rparr>, lts_wlen = 0, lts_wtosend = None\<rparr>"

text \<open>\<^verbatim>\<open>for (id = 0; id < ntr; id++)\<close>; past the end of the tables the writes are faults.\<close>

fun automatonInit_loop :: "nat \<Rightarrow> int \<Rightarrow> globals \<Rightarrow> globals result" where
  "automatonInit_loop 0 tid g = Inr g"
| "automatonInit_loop (Suc n) tid g =
     bindE (updE (lts g) tid (init_train tid)) (\<lambda>ls.
     bindE (set_unstable tid 0 newList (g\<lparr>lts := ls\<rparr>)) (\<lambda>g1.
     bindE (set_unstable tid 1 newList g1) (\<lambda>g2.
     bindE (set_unstable tid 2 newList g2) (\<lambda>g3.
       automatonInit_loop n (tid + 1) g3))))"

definition automatonInit :: "env \<Rightarrow> globals \<Rightarrow> globals result" where
  "automatonInit e g =
     bindE (automatonInit_loop (nat (ntr g)) 0 (g\<lparr>lis := ntr g - 1\<rparr>)) (\<lambda>g1.
     bindE (newWiw (wagonMaxLen g1) (myAddress g1) (mem g1)) (\<lambda>(wi, h).
       nextState e OFFLINE_CONNECTION_ATTEMPT
         (g1\<lparr>cameProc := 0, goneProc := 0, wagonToSend := Some wi, mem := h,
            wagonsToDeliver := Some newBqueue, prec := 0, succ := 0\<rparr>)))"

section \<open>The automaton\<close>

definition free_msg :: "nat \<Rightarrow> globals \<Rightarrow> globals result" where
  "free_msg p g = bindE (freeWomim (Some p) (mem g)) (\<lambda>h. Inr (g\<lparr>mem := h\<rparr>))"

definition msg_at :: "nat \<Rightarrow> globals \<Rightarrow> (byte list \<Rightarrow> 'a result) \<Rightarrow> 'a result" where
  "msg_at p g f = bindE (get_womim (mem g) (Some p)) (\<lambda>w. f (bytes w))"

definition on_attempt :: "env \<Rightarrow> nat \<Rightarrow> MType \<Rightarrow> globals \<Rightarrow> globals result" where
  "on_attempt e p typ g =
     (if typ = NAK_INSERT \<or> typ = DISCONNECT_PRED \<or> typ = DISCONNECT_SUCC
      then bindE (free_msg p g) (nextState e WAIT)
      else if typ = INSERT
      then bindE (msg_at p g msg_sender) (\<lambda>sender.
           bindE (sendOther e sender True NAK_INSERT (myAddress g) (g\<lparr>prec := sender\<rparr>)) (\<lambda>(_, g1).
             free_msg p g1))
      else if typ = ACK_INSERT
      then bindE (msg_at p g msg_sender) (\<lambda>sender.
           bindE (openConnection e sender True (g\<lparr>prec := sender\<rparr>)) (\<lambda>(_, g1).
           bindE (sendOther e (prec g1) True NEWSUCC (myAddress g1) g1) (\<lambda>(_, g2).
           bindE (free_msg p g2) (nextState e OFFLINE_CONFIRMATION_WAIT))))
      else unexpected typ (automatonState g))"

text \<open>The first train: its stamp, its wagons and its circuit become those of the last train
  of its id; it goes on to the successor.\<close>

definition confirmation_train :: "env \<Rightarrow> nat \<Rightarrow> globals \<Rightarrow> globals result" where
  "confirmation_train e p g =
     bindE (get_womim (mem g) (Some p)) (\<lambda>w0.
     bindE (train_stamp (bytes w0)) (\<lambda>st0.
     let tid = sint (stamp_id st0) in
     bindE (train_circuit (bytes w0)) (\<lambda>circuit.
     bindE (if addrIsMember (myAddress g) circuit
            then bindE (wr_char (bytes w0) 6 (stamp_lc st0 + 1)) (\<lambda>b.
                   Inr (g\<lparr>mem := set_womim (mem g) p (Some (w0\<lparr>bytes := b\<rparr>))\<rparr>))
            else Inr g) (\<lambda>g1.
     bindE (release_lts tid g1) (\<lambda>g2.
     bindE (get_womim (mem g2) (Some p)) (\<lambda>w.
     bindE (firstWagon (bytes w)) (\<lambda>fw.
     bindE (case fw of
              None \<Rightarrow> Inr g2
            | Some off \<Rightarrow>
                bindE (msg_len (bytes w)) (\<lambda>len.
                bindE (upd_lts tid (\<lambda>l. l\<lparr>lts_w := \<lparr>p_wagon = Some (p, off), p_womim = Some p\<rparr>,
                    lts_wlen := len - word_of_int (sizeof_stamp + sizeof_int + sizeof_MType + sizeof_addressSet)\<rparr>) g2)
                  (count_up (Some p)))) (\<lambda>g3.
     bindE (train_stamp (bytes w)) (\<lambda>st.
     bindE (upd_lts tid (\<lambda>l. l\<lparr>lts_circuit := circuit, lts_stamp := st\<rparr>) g3) (\<lambda>g4.
     bindE (nthE (lts g4) tid) (\<lambda>l.
     bindE (sendTrain e (succ g4) False l g4) (\<lambda>(_, g5).
     bindE (isInLts (ntr g5) (myAddress g5) (lts g5)) (\<lambda>inl.
     bindE (if inl
            then let g6 = g5\<lparr>lis := sint (stamp_id st)\<rparr> in
                 bindE (nthE (lts g6) (lis g6)) (\<lambda>l.
                 bindE (signalArrival (myAddress g6) (lts_circuit l) g6) (\<lambda>g7.
                 bindE (nextState e SEVERAL g7) (\<lambda>g8. Inr (post_init_done g8))))
            else Inr g5) (free_msg p))))))))))))))"

definition on_confirmation :: "env \<Rightarrow> nat \<Rightarrow> MType \<Rightarrow> globals \<Rightarrow> globals result" where
  "on_confirmation e p typ g =
     (if typ = NEWSUCC \<or> typ = DISCONNECT_PRED \<or> typ = DISCONNECT_SUCC
      then bindE (free_msg p g) (nextState e WAIT)
      else if typ = INSERT
      then bindE (msg_at p g msg_sender) (\<lambda>sender.
           bindE (sendOther e sender True NAK_INSERT (myAddress g) g) (\<lambda>(_, g1). free_msg p g1))
      else if typ = TRAIN then confirmation_train e p g
      else unexpected typ (automatonState g))"

definition on_alone_insert :: "env \<Rightarrow> nat \<Rightarrow> MType \<Rightarrow> globals \<Rightarrow> globals result" where
  "on_alone_insert e p typ g =
     (if typ = DISCONNECT_PRED \<or> typ = DISCONNECT_SUCC then free_msg p g
      else if typ = INSERT
      then bindE (msg_at p g msg_sender) (\<lambda>sender.
           bindE (sendOther e sender True ACK_INSERT (myAddress g) g) (\<lambda>(_, g1).
           bindE (free_msg p (g1\<lparr>prec := sender\<rparr>)) (nextState e ALONE_CONNECTION_WAIT)))
      else unexpected typ (automatonState g))"

text \<open>\<^verbatim>\<open>for (i = 1; i <= ntr; i++)\<close>, from the train after the last one sent.\<close>

fun each_train :: "nat \<Rightarrow> int \<Rightarrow> (int \<Rightarrow> globals \<Rightarrow> globals result) \<Rightarrow> globals \<Rightarrow> globals result" where
  "each_train 0 i f g = Inr g"
| "each_train (Suc n) i f g =
     bindE (f (c_mod (lis g + i) (ntr g)) g) (each_train n (i + 1) f)"

definition start_train :: "env \<Rightarrow> int \<Rightarrow> globals \<Rightarrow> globals result" where
  "start_train e tid g =
     bindE (upd_lts tid (\<lambda>l. l\<lparr>lts_stamp := (lts_stamp l)\<lparr>stamp_lc := stamp_lc (lts_stamp l) + 1\<rparr>,
         lts_circuit := myAddress g OR prec g, lts_w := \<lparr>p_wagon = None, p_womim = None\<rparr>, lts_wlen := 0\<rparr>) g) (\<lambda>g1.
     bindE (nthE (lts g1) tid) (\<lambda>l.
     bindE (sendTrain e (succ g1) False l g1) (\<lambda>(_, g2). Inr g2)))"

definition on_alone_connection :: "env \<Rightarrow> nat \<Rightarrow> MType \<Rightarrow> globals \<Rightarrow> globals result" where
  "on_alone_connection e p typ g =
     (if typ = DISCONNECT_PRED then bindE (nextState e ALONE_INSERT_WAIT g) (free_msg p)
      else if typ = INSERT
      then bindE (msg_at p g msg_sender) (\<lambda>sender.
           bindE (sendOther e sender True NAK_INSERT (myAddress g) g) (\<lambda>(_, g1). free_msg p g1))
      else if typ = NEWSUCC
      then bindE (msg_at p g msg_sender) (\<lambda>sender.
           bindE (each_train (nat (ntr g)) 1 (start_train e) (g\<lparr>succ := sender\<rparr>)) (\<lambda>g1.
           bindE (free_msg p g1) (nextState e SEVERAL)))
      else unexpected typ (automatonState g))"

definition several_train :: "env \<Rightarrow> nat \<Rightarrow> globals \<Rightarrow> globals result" where
  "several_train e p g =
     bindE (msg_at p g train_circuit) (\<lambda>circuit.
       if addrIsMember (myAddress g) circuit
       then bindE (msg_at p g train_stamp) (\<lambda>st.
            bindE (isRecentTrain (ntr g) st (lts g) (word_of_int (lis g))) (\<lambda>recent.
            bindE (if recent
                   then bindE (trainHandling p g) (\<lambda>g1.
                        let g2 = g1\<lparr>lis := sint (stamp_id st)\<rparr> in
                        if succ g2 \<noteq> 0
                        then bindE (nthE (lts g2) (lis g2)) (\<lambda>l.
                             bindE (sendTrain e (succ g2) False l g2) (\<lambda>(_, g3). Inr g3))
                        else Inr g2)
                   else Inr g) (free_msg p)))
       else Inl (ExitFailure ''myAddress not in the circuit ==> Suicide''))"

text \<open>The loop after the loss of the predecessor: it looks backwards along the circuit for
  one that answers. True: it has one, which got \<^verbatim>\<open>NEWSUCC\<close>. The predecessors the loop tries
  follow from the circuit alone; 17 turns that do not meet the process itself have met one
  of the 16 addresses twice, and the loop only ends if a later attempt to connect succeeds.\<close>

fun lose_pred :: "nat \<Rightarrow> env \<Rightarrow> globals \<Rightarrow> (bool \<times> globals) result" where
  "lose_pred n e g =
     (if addrIsEqual (prec g) (myAddress g) then Inr (False, g)
      else case n of
             0 \<Rightarrow> Inl Diverges
           | Suc n' \<Rightarrow>
               bindE (openConnection e (prec g) True g) (\<lambda>(r, g1).
                 if r \<noteq> - 1
                 then bindE (sendOther e (prec g1) True NEWSUCC (myAddress g1) g1) (\<lambda>(_, g2). Inr (True, g2))
                 else let (came, gone) = addrAppendGone (cameProc g1) (goneProc g1) (prec g1) in
                      bindE (nthE (lts g1) (lis g1)) (\<lambda>l.
                      bindE (addrPrec (prec g1) (lts_circuit l)) (\<lambda>pr.
                        lose_pred n' e (g1\<lparr>cameProc := came, goneProc := gone, prec := pr\<rparr>)))))"

declare lose_pred.simps [simp del]

text \<open>All the unstable wagons become deliverable, round after round from the oldest.\<close>

definition flush_train :: "int \<Rightarrow> int \<Rightarrow> globals \<Rightarrow> globals result" where
  "flush_train aRound tid g =
     bindE (nthE (lts g) tid) (\<lambda>l.
       deliver_round tid (c_mod (sint (stamp_round (lts_stamp l)) + aRound) NR) g)"

definition flush_unstable :: "globals \<Rightarrow> globals result" where
  "flush_unstable g =
     bindE (each_train (nat (ntr g)) 1 (flush_train 1) g) (\<lambda>g1.
     bindE (each_train (nat (ntr g1)) 1 (flush_train 2) g1) (\<lambda>g2.
       each_train (nat (ntr g2)) 1 (flush_train 3) g2))"

definition several_disconnect_pred :: "env \<Rightarrow> nat \<Rightarrow> globals \<Rightarrow> globals result" where
  "several_disconnect_pred e p g =
     bindE (lose_pred 17 e g) (\<lambda>(found, g1).
       if found then bindE (free_msg p g1) (nextState e SEVERAL)
       else bindE (nthE (lts g1) (lis g1)) (\<lambda>l.
            bindE (signalDepartures (goneProc g1) (lts_circuit l) g1) (\<lambda>g2.
            bindE (flush_unstable (g2\<lparr>goneProc := 0\<rparr>)) (\<lambda>g3.
            bindE (deliver_wagonToSend g3) (\<lambda>g4.
            bindE (free_msg p g4) (nextState e ALONE_INSERT_WAIT))))))"

definition resend_train :: "env \<Rightarrow> int \<Rightarrow> globals \<Rightarrow> globals result" where
  "resend_train e tid g =
     bindE (nthE (lts g) tid) (\<lambda>l. bindE (sendTrain e (succ g) False l g) (\<lambda>(_, g'). Inr g'))"

definition on_several :: "env \<Rightarrow> nat \<Rightarrow> MType \<Rightarrow> globals \<Rightarrow> globals result" where
  "on_several e p typ g =
     (if typ = TRAIN then several_train e p g
      else if typ = INSERT
      then bindE (closeConnection (env_self e) (prec g) True g) (\<lambda>g1.
           bindE (msg_at p g1 msg_sender) (\<lambda>sender.
           bindE (sendOther e sender True ACK_INSERT (prec g1) g1) (\<lambda>(_, g2).
             free_msg p (g2\<lparr>prec := sender, cameProc := addrAppendArrived (cameProc g2) sender\<rparr>))))
      else if typ = NEWSUCC
      then bindE (if succ g \<noteq> 0 then closeConnection (env_self e) (succ g) False g else Inr g) (\<lambda>g1.
           bindE (msg_at p g1 msg_sender) (\<lambda>sender.
           bindE (each_train (nat (ntr g1)) 1 (resend_train e) (g1\<lparr>succ := sender\<rparr>)) (free_msg p)))
      else if typ = DISCONNECT_PRED then several_disconnect_pred e p g
      else if typ = DISCONNECT_SUCC then free_msg p (g\<lparr>succ := 0\<rparr>)
      else unexpected typ (automatonState g))"

definition stateMachine :: "env \<Rightarrow> nat \<Rightarrow> globals \<Rightarrow> globals result" where
  "stateMachine e p g =
     (case automatonState g of
        WAIT \<Rightarrow> free_msg p g
      | s \<Rightarrow> bindE (msg_at p g msg_type) (\<lambda>typ.
          case s of
            OFFLINE_CONNECTION_ATTEMPT \<Rightarrow> on_attempt e p typ g
          | OFFLINE_CONFIRMATION_WAIT \<Rightarrow> on_confirmation e p typ g
          | ALONE_INSERT_WAIT \<Rightarrow> on_alone_insert e p typ g
          | ALONE_CONNECTION_WAIT \<Rightarrow> on_alone_connection e p typ g
          | SEVERAL \<Rightarrow> on_several e p typ g
          | WAIT \<Rightarrow> free_msg p g))"

section \<open>The thread that treats the messages of a connection\<close>

definition treat_msg :: "env \<Rightarrow> nat \<Rightarrow> nat \<Rightarrow> globals \<Rightarrow> (bool \<times> globals) result" where
  "treat_msg e c p g =
     bindE (msg_at p g msg_type) (\<lambda>typ.
     bindE (if typ = TRAIN
            then bindE (msg_at p g msg_len) (\<lambda>len.
                   Inr (g\<lparr>counters := (counters g)\<lparr>trains_received := trains_received (counters g) + 1,
                     trains_bytes_received := trains_bytes_received (counters g) + scast len\<rparr>\<rparr>))
            else if typ = INSERT
            then bindE (msg_at p g msg_sender) (\<lambda>sender.
                 bindE (addTComm (Some c) (addrToRank sender) (globalAddrArray g) True) (\<lambda>array.
                   Inr (g\<lparr>globalAddrArray := array\<rparr>)))
            else if typ = NEWSUCC
            then bindE (msg_at p g msg_sender) (\<lambda>sender.
                 bindE (addTComm (Some c) (addrToRank sender) (globalAddrArray g) False) (\<lambda>array.
                   Inr (g\<lparr>globalAddrArray := array\<rparr>)))
            else Inr g) (\<lambda>g1.
     bindE (stateMachine e p g1) (\<lambda>g2.
       Inr (typ = DISCONNECT_PRED \<or> typ = DISCONNECT_SUCC, g2))))"

text \<open>\<^verbatim>\<open>do ... while (!theEnd)\<close>, at most \<open>n\<close> turns; NULL breaks out of the loop.\<close>

fun msgTreatment :: "nat \<Rightarrow> env \<Rightarrow> nat \<Rightarrow> nat trBqueue \<times> globals \<Rightarrow> (nat trBqueue \<times> globals) result" where
  "msgTreatment 0 e c (q, g) = Inr (q, g)"
| "msgTreatment (Suc n) e c (q, g) =
     bindE (bqueueDequeue q) (\<lambda>(m, q').
       case m of
         None \<Rightarrow> Inr (q', g)
       | Some p \<Rightarrow> bindE (treat_msg e c p g) (\<lambda>(theEnd, g').
           if theEnd then Inr (q', g') else msgTreatment n e c (q', g')))"

section \<open>Initialisation\<close>

text \<open>\<^verbatim>\<open>trInit\<close> up to the wait; \<open>array\<close> is what \<^verbatim>\<open>addrGenerator\<close> returned, \<open>host\<close> and
  \<open>port\<close> the name of the machine and \<^verbatim>\<open>TRAINS_PORT\<close>.\<close>

definition trInit ::
  "env \<Rightarrow> ADDR list \<Rightarrow> string \<Rightarrow> string option \<Rightarrow> int \<Rightarrow> int \<Rightarrow> int \<Rightarrow> int \<Rightarrow> globals \<Rightarrow> globals result" where
  "trInit e array host port trainsNumber wagonLength waitNb' waitTime g =
     (let g1 = g\<lparr>ntr := if trainsNumber > 0 then trainsNumber else ntr g,
            wagonMaxLen := if wagonLength > 0 then wagonLength else wagonMaxLen g,
            waitNbMax := if waitNb' > 0 then waitNb' else waitNbMax g,
            waitDefaultTime := if waitTime > 0 then waitTime else waitDefaultTime g,
            sem_init_done := 0, globalAddrArray := array\<rparr>
      in case port of
           None \<Rightarrow> Inl (ExitFailure ''TRAINS_PORT environment variable is not defined'')
         | Some trainsPort \<Rightarrow>
             bindE (addrID host trainsPort array) (\<lambda>rank.
               if rank < 0 then Inl (ExitFailure ''Could not find a line corresponding to TRAINS_HOST and TRAINS_PORT'')
               else automatonInit e (g1\<lparr>myAddress := rankToAddr rank\<rparr>)))"

text \<open>The wait on \<^verbatim>\<open>sem_init_done\<close>.\<close>

definition trInit_wait :: "globals \<Rightarrow> globals result" where
  "trInit_wait g =
     (if sem_init_done g = 0 then Inl Blocks else Inr (g\<lparr>sem_init_done := sem_init_done g - 1\<rparr>))"

definition trTerminate :: int where "trTerminate = 0"

end
