(* ===== verification/AutomatonInvariant.thy ===== *)
theory AutomatonInvariant
  imports Automaton
begin

text \<open>
  What the handlers of the automaton do: the train that a member of the circuit passes on,
  the messages that end a process, the invariant of buffers and tables across the handlers,
  the recovery from the loss of the predecessor, and the start of a process.
\<close>

section \<open>Passing on a train\<close>

text \<open>The last train of each id bears its id.\<close>

definition trains_named :: "globals \<Rightarrow> bool" where
  "trains_named g \<longleftrightarrow>
     (\<forall>i < nat (ntr g). lts_type (lts g ! i) = TRAIN \<and> sint (stamp_id (lts_stamp (lts g ! i))) = int i)"

text \<open>The next write on connection \<open>c\<close> takes \<open>n\<close> bytes.\<close>

definition takes_write :: "env \<Rightarrow> globals \<Rightarrow> nat \<Rightarrow> nat \<Rightarrow> bool" where
  "takes_write e g c n \<longleftrightarrow>
     (\<exists>cm k sc. comms g c = Some cm \<and> \<not> aborted cm \<and> env_writev e (writes_done g) = (Done k, False) # sc \<and> n \<le> k)"

text \<open>The wagons of a train that go on to the successor, when they follow each other in it.\<close>

definition goes_on :: "globals \<Rightarrow> nat \<Rightarrow> addressSet \<Rightarrow> awagon \<Rightarrow> bool" where
  "goes_on g t circuit = is_resent (new_circuit g t circuit) (if t = 0 then 0 else goneProc g) (myAddress g) (succ g)"

definition stays :: "globals \<Rightarrow> nat \<Rightarrow> addressSet \<Rightarrow> awagon \<Rightarrow> bool" where
  "stays g t circuit = is_kept (new_circuit g t circuit) (if t = 0 then 0 else goneProc g) (myAddress g)"

definition contiguous :: "('a \<Rightarrow> bool) \<Rightarrow> 'a list \<Rightarrow> bool" where
  "contiguous Q ws \<longleftrightarrow> (\<exists>pre mid post. ws = pre @ mid @ post \<and> (\<forall>w \<in> set pre. \<not> Q w) \<and> (\<forall>w \<in> set mid. Q w) \<and>
     (\<forall>w \<in> set post. \<not> Q w))"

text \<open>The train that leaves: the clock and the round, the circuit, the wagons that go on, the
  wagon of the process.\<close>

definition train_out :: "globals \<Rightarrow> nat \<Rightarrow> stamp \<Rightarrow> addressSet \<Rightarrow> awagon list \<Rightarrow> awagon \<Rightarrow> byte list" where
  "train_out g t st circuit ws wg =
     (let r = round_of st (lts g ! t) in
      enc_train \<lparr>stamp_id = stamp_id st, stamp_lc = stamp_lc st + 1, stamp_round = word_of_int (int r)\<rparr>
        (new_circuit g t circuit) (filter (goes_on g t circuit) ws @ own_of r (announced g t circuit wg)))"

text \<open>The unstable wagons after a train.\<close>

definition unstable_after :: "globals \<Rightarrow> (nat \<Rightarrow> nat \<Rightarrow> held) \<Rightarrow> nat \<Rightarrow> nat \<Rightarrow> stamp \<Rightarrow> addressSet \<Rightarrow> awagon list \<Rightarrow> wiw \<Rightarrow> awagon
    \<Rightarrow> nat \<Rightarrow> nat \<Rightarrow> held" where
  "unstable_after g U p t st circuit ws wi wg =
     (let r = round_of st (lts g ! t) in
      U(t := (U t)(delivered_round r := [],
          r := U t r @ held_of p (stays g t circuit) (at_offsets 10 ws) @ map (Pair wi) (own_of r (announced g t circuit wg)))))"

definition wagon_after :: "globals \<Rightarrow> nat \<Rightarrow> addressSet \<Rightarrow> awagon \<Rightarrow> awagon" where
  "wagon_after g t circuit wg =
     (if aw_msgs (announced g t circuit wg) = [] then announced g t circuit wg else empty_wagon (myAddress g))"

lemma free_msg_ok:
  assumes "consistent g D U (add_mset a lk) cap wg"
  obtains h where "free_msg a g = Inr (g\<lparr>mem := h\<rparr>)" "consistent (g\<lparr>mem := h\<rparr>) D U lk cap wg"
    "keeps (mem g) h (all_refs g D U + lk)"
proof -
  obtain h where "freeWomim (Some a) (mem g) = Inr h" "consistent (g\<lparr>mem := h\<rparr>) D U lk cap wg"
    "keeps (mem g) h (all_refs g D U + lk)"
    by (rule free_msg_heap [OF assms])
  then show thesis by (intro that [of h]) (simp_all add: free_msg_def)
qed

lemma consistent_other:
  assumes "consistent g D U lk cap wg"
    "lts g' = lts g" "unstableWagons g' = unstableWagons g" "ntr g' = ntr g" "wagonsToDeliver g' = wagonsToDeliver g"
    "wagonMaxLen g' = wagonMaxLen g" "wagonToSend g' = wagonToSend g" "mem g' = mem g"
  shows "consistent g' D U lk cap wg"
  using assms by (simp add: consistent_def tables_def building_def all_refs_def)

lemma several_train_recent:
  assumes con: "consistent g D U (add_mset p lk) cap wg" and tr: "train_in g p st circuit ws t"
    and W: "7 \<le> wagonMaxLen g" and room: "depart_room g t wg" "length (enc_wagon wg) + 144 < 2 ^ 31"
    and rdb: "\<forall>m \<in> set (aw_msgs wg). readable m" and nm: "trains_named g"
    and mem: "addrIsMember (myAddress g) circuit"
    and recent: "isRecentTrain (ntr g) st (lts g) (word_of_int (lis g)) = Inr True"
    and succ: "succ g \<noteq> 0" "getTComm (addrToRank (succ g)) False (globalAddrArray g) = Inr (Some c)"
    and contig: "contiguous (goes_on g t circuit) ws"
    and out: "takes_write e g c (length (train_out g t st circuit ws wg))" "length (train_out g t st circuit ws wg) < 2 ^ 31"
  obtains g' wi cap' where
    "several_train e p g = Inr g'"
    "consistent g' (D @ U t (delivered_round (round_of st (lts g ! t)))) (unstable_after g U p t st circuit ws wi wg)
       lk cap' (wagon_after g t circuit wg)"
    "trace g' = trace g @ [Wrote c (train_out g t st circuit ws wg)]" "lis g' = int t" "trains_named g'"
    "lts_circuit (lts g' ! t) = new_circuit g t circuit" "automatonState g' = automatonState g"
    "cameProc g' = (if t = 0 then 0 else cameProc g)" "goneProc g' = (if t = 0 then 0 else goneProc g)"
    "prec g' = prec g" "succ g' = succ g"
    "lts g' = (lts g)[t := lts g' ! t]"
    "lts_stamp (lts g' ! t) = \<lparr>stamp_id = stamp_id st, stamp_lc = stamp_lc st + 1, stamp_round = word_of_int (int (round_of st (lts g ! t)))\<rparr>"
    "ntr g' = ntr g" "wagonMaxLen g' = wagonMaxLen g" "myAddress g' = myAddress g" "globalAddrArray g' = globalAddrArray g"
    "comms g' = comms g" "keeps (mem g) (mem g') lk"
proof -
  let ?r = "round_of st (lts g ! t)" and ?c = "new_circuit g t circuit" and ?wg = "announced g t circuit wg"
  obtain v where v: "womims (mem g) p = Some v" "holds (bytes v) 0 (enc_train st circuit ws)"
    and id: "sint (stamp_id st) = int t" and t: "t < nat (ntr g)"
    using tr by (auto simp: train_in_def)
  have t16: "t < 16" using con t unfolding consistent_def by (blast intro: tables_lt)
  note h = holds_enc_train [OF v(2)]
  obtain pre mid post where ws: "ws = pre @ mid @ post" "\<forall>w \<in> set pre. \<not> goes_on g t circuit w"
    "\<forall>w \<in> set mid. goes_on g t circuit w" "\<forall>w \<in> set post. \<not> goes_on g t circuit w"
    using contig by (auto simp: contiguous_def)
  have mid: "filter (goes_on g t circuit) ws = mid" using ws by simp
  obtain g1 wi cap' where one:
    "trainHandling p g = Inr g1"
    "consistent g1 (D @ U t (delivered_round ?r)) (unstable_after g U p t st circuit ws wi wg) (add_mset p lk) cap'
       (wagon_after g t circuit wg)"
    "lts g1 = (lts g)[t := lts g1 ! t]"
    "lts_stamp (lts g1 ! t) = (lts_stamp (lts g ! t))\<lparr>stamp_lc := stamp_lc st + 1, stamp_round := word_of_int (int ?r)\<rparr>"
    "lts_circuit (lts g1 ! t) = ?c" "lts_type (lts g1 ! t) = lts_type (lts g ! t)"
    "own_wagon (mem g1) (lts g1 ! t) (own_of ?r ?wg)" "region (mem g1) (lts g1 ! t) mid"
    "cameProc g1 = (if t = 0 then 0 else cameProc g)" "goneProc g1 = (if t = 0 then 0 else goneProc g)" "same_rest g g1"
    "keeps (mem g) (mem g1) (add_mset p lk)"
  proof (rule trainHandling_ok [OF con tr W room rdb])
    fix g' wi cap'
    assume a: "trainHandling p g = Inr g'"
      "consistent g' (D @ U t (delivered_round ?r))
        (U(t := (U t)(delivered_round ?r := [],
            ?r := U t ?r @ held_of p (is_kept ?c (if t = 0 then 0 else goneProc g) (myAddress g)) (at_offsets 10 ws) @ map (Pair wi) (own_of ?r ?wg))))
        (add_mset p lk) cap' (if aw_msgs ?wg = [] then ?wg else empty_wagon (myAddress g))"
      "lts g' = (lts g)[t := lts g' ! t]"
      "lts_stamp (lts g' ! t) = (lts_stamp (lts g ! t))\<lparr>stamp_lc := stamp_lc st + 1, stamp_round := word_of_int (int ?r)\<rparr>"
      "lts_circuit (lts g' ! t) = ?c" "lts_type (lts g' ! t) = lts_type (lts g ! t)"
      "own_wagon (mem g') (lts g' ! t) (own_of ?r ?wg)"
      and reg: "\<And>pre mid post. ws = pre @ mid @ post \<Longrightarrow> \<forall>w \<in> set pre. \<not> is_resent ?c (if t = 0 then 0 else goneProc g) (myAddress g) (succ g) w \<Longrightarrow>
        \<forall>w \<in> set mid. is_resent ?c (if t = 0 then 0 else goneProc g) (myAddress g) (succ g) w \<Longrightarrow>
        \<forall>w \<in> set post. \<not> is_resent ?c (if t = 0 then 0 else goneProc g) (myAddress g) (succ g) w \<Longrightarrow> region (mem g') (lts g' ! t) mid"
      and b: "cameProc g' = (if t = 0 then 0 else cameProc g)" "goneProc g' = (if t = 0 then 0 else goneProc g)" "same_rest g g'"
      and k: "keeps (mem g) (mem g') (add_mset p lk)"
    have "region (mem g') (lts g' ! t) mid"
      by (rule reg [OF ws [unfolded goes_on_def]])
    then show thesis
      using a b k by (intro that [where ?g1.0 = g' and wi = wi and cap' = cap'])
        (simp_all only: unstable_after_def wagon_after_def stays_def Let_def)
  qed
  let ?g2 = "g1\<lparr>lis := int t\<rparr>"
  have rest: "succ g1 = succ g" "globalAddrArray g1 = globalAddrArray g" "ntr g1 = ntr g" "comms g1 = comms g"
    "writes_done g1 = writes_done g" "trace g1 = trace g" "automatonState g1 = automatonState g" "prec g1 = prec g"
    "wagonMaxLen g1 = wagonMaxLen g" "myAddress g1 = myAddress g"
    using one(11) by (simp_all add: same_rest_def)
  have l: "length (lts g1) = 16" by (rule consistent_len [OF one(2)])
  have lt: "nthE (lts ?g2) (int t) = Inr (lts g1 ! t)" using l t16 by simp
  have nmt: "lts_type (lts g ! t) = TRAIN" "stamp_id (lts_stamp (lts g ! t)) = stamp_id st"
  proof -
    show "lts_type (lts g ! t) = TRAIN" using nm t by (simp add: trains_named_def)
    have "sint (stamp_id (lts_stamp (lts g ! t))) = sint (stamp_id st)" using nm t id by (simp add: trains_named_def)
    then show "stamp_id (lts_stamp (lts g ! t)) = stamp_id st" by (rule signed_word_eqI)
  qed
  have stamp: "lts_stamp (lts g1 ! t) = \<lparr>stamp_id = stamp_id st, stamp_lc = stamp_lc st + 1, stamp_round = word_of_int (int ?r)\<rparr>"
    using one(4) nmt(2) by simp
  have enc: "enc_train (lts_stamp (lts g1 ! t)) (lts_circuit (lts g1 ! t)) (mid @ own_of ?r ?wg) = train_out g t st circuit ws wg"
    by (simp only: train_out_def Let_def stamp one(5) mid)
  have pre: "addrToRank (succ g) \<noteq> - 1" "getTComm (addrToRank (succ g)) False (globalAddrArray ?g2) = Inr (Some c)"
    "lts_type (lts g1 ! t) = TRAIN" "region (mem ?g2) (lts g1 ! t) mid" "own_wagon (mem ?g2) (lts g1 ! t) (own_of ?r ?wg)"
    using succ rest(2) one(6-8) nmt(1) by simp_all
  have sm: "length (enc_train (lts_stamp (lts g1 ! t)) (lts_circuit (lts g1 ! t)) (mid @ own_of ?r ?wg)) < 2 ^ 31"
    unfolding enc by (rule out(2))
  obtain iov where send: "sendTrain e (succ g) False (lts g1 ! t) ?g2 = writev_comm e c iov ?g2"
    "concat iov = train_out g t st circuit ws wg"
    by (rule sendTrain_bytes [OF pre sm, where e = e, unfolded enc])
  from out(1) obtain cm k sc where cm: "comms g c = Some cm" "\<not> aborted cm" "env_writev e (writes_done g) = (Done k, False) # sc"
    "length (train_out g t st circuit ws wg) \<le> k"
    unfolding takes_write_def by blast
  have cm': "comms ?g2 c = Some cm" "env_writev e (writes_done ?g2) = (Done k, False) # sc" "length (concat iov) \<le> k"
    using cm(1,3,4) rest(4,5) send(2) by simp_all
  from writev_comm_all [OF cm'(1) cm(2) cm'(2,3)]
  obtain n cnt where w: "writev_comm e c iov ?g2 = Inr (n, (emit (Wrote c (concat iov)) ?g2)\<lparr>counters := cnt, writes_done := Suc (writes_done ?g2)\<rparr>)"
    by blast
  let ?g3 = "(emit (Wrote c (concat iov)) ?g2)\<lparr>counters := cnt, writes_done := Suc (writes_done ?g2)\<rparr>"
  have con3: "consistent ?g3 (D @ U t (delivered_round ?r)) (unstable_after g U p t st circuit ws wi wg) (add_mset p lk) cap'
       (wagon_after g t circuit wg)"
    by (rule consistent_other [OF one(2)]) (simp_all add: emit_def)
  obtain h4 where four: "free_msg p ?g3 = Inr (?g3\<lparr>mem := h4\<rparr>)"
    "consistent (?g3\<lparr>mem := h4\<rparr>) (D @ U t (delivered_round ?r)) (unstable_after g U p t st circuit ws wi wg) lk cap'
       (wagon_after g t circuit wg)"
    "keeps (mem ?g3) h4 (all_refs ?g3 (D @ U t (delivered_round ?r)) (unstable_after g U p t st circuit ws wi wg) + lk)"
    by (rule free_msg_ok [OF con3])
  have kp: "keeps (mem g) h4 lk"
  proof (rule keeps_trans)
    show "keeps (mem g) (mem g1) lk" by (rule keeps_subset [OF one(12)]) simp
    have "keeps (mem ?g3) h4 lk" by (rule keeps_subset [OF four(3)]) simp
    then show "keeps (mem g1) h4 lk" by (simp add: emit_def)
  qed
  have "several_train e p g = Inr (?g3\<lparr>mem := h4\<rparr>)"
    using v(1) h(3,4) mem recent one(1) succ(1) rest(1) lt send(1) w four(1) id
    by (simp add: several_train_def msg_at_def get_womim_def)
  moreover have "trains_named (?g3\<lparr>mem := h4\<rparr>)"
    unfolding trains_named_def
  proof (intro allI impI)
    fix i assume "i < nat (ntr (?g3\<lparr>mem := h4\<rparr>))"
    then have i: "i < nat (ntr g)" using rest(3) by (simp add: emit_def)
    show "lts_type (lts (?g3\<lparr>mem := h4\<rparr>) ! i) = TRAIN \<and> sint (stamp_id (lts_stamp (lts (?g3\<lparr>mem := h4\<rparr>) ! i))) = int i"
    proof (cases "i = t")
      case True
      then show ?thesis using stamp pre(3) id by (simp add: emit_def)
    next
      case False
      have "lts g1 ! i = lts g ! i" using one(3) False by (metis nth_list_update_neq)
      then show ?thesis using nm i by (simp add: emit_def trains_named_def)
    qed
  qed
  ultimately show thesis
    using four(2) one(3,5,9,10) rest stamp send(2) kp
    by (intro that [where g' = "?g3\<lparr>mem := h4\<rparr>" and wi = wi and cap' = cap']) (simp_all add: emit_def)
qed


section \<open>What the operations leave to the automaton\<close>

text \<open>The variables that decide the behaviour of the automaton; \<open>sleeps\<close> is the number of
  threads that \<^verbatim>\<open>waitBeforeConnect\<close> has started.\<close>

definition sleeps :: "globals \<Rightarrow> nat" where
  "sleeps g = length (filter (\<lambda>ev. ev = Spawned SleepTreatment) (trace g))"

record control =
  k_state :: State
  k_me :: address
  k_prec :: address
  k_succ :: address
  k_posts :: nat
  k_wait :: int
  k_max :: int
  k_sleeps :: nat

definition control :: "globals \<Rightarrow> control" where
  "control g = \<lparr>k_state = automatonState g, k_me = myAddress g, k_prec = prec g, k_succ = succ g,
     k_posts = sem_init_done g, k_wait = waitNb g, k_max = waitNbMax g, k_sleeps = sleeps g\<rparr>"

named_theorems frames \<open>operations that leave the variables of the automaton as they are\<close>

lemma control_updates [simp]:
  "control (g\<lparr>mem := h\<rparr>) = control g" "control (g\<lparr>lts := ls\<rparr>) = control g" "control (g\<lparr>unstableWagons := us\<rparr>) = control g"
  "control (g\<lparr>wagonsToDeliver := q\<rparr>) = control g" "control (g\<lparr>wagonToSend := w\<rparr>) = control g"
  "control (g\<lparr>counters := c\<rparr>) = control g" "control (g\<lparr>comms := cs\<rparr>) = control g" "control (g\<lparr>next_comm := n\<rparr>) = control g"
  "control (g\<lparr>globalAddrArray := arr\<rparr>) = control g" "control (g\<lparr>writes_done := n\<rparr>) = control g"
  "control (g\<lparr>connects_done := n\<rparr>) = control g" "control (g\<lparr>commForAccept := p\<rparr>) = control g"
  "control (g\<lparr>cameProc := s\<rparr>) = control g" "control (g\<lparr>goneProc := s\<rparr>) = control g" "control (g\<lparr>lis := i\<rparr>) = control g"
  by (simp_all add: control_def sleeps_def)

lemma control_sets [simp]:
  "control (g\<lparr>automatonState := s\<rparr>) = (control g)\<lparr>k_state := s\<rparr>" "control (g\<lparr>prec := a\<rparr>) = (control g)\<lparr>k_prec := a\<rparr>"
  "control (g\<lparr>succ := a\<rparr>) = (control g)\<lparr>k_succ := a\<rparr>" "control (g\<lparr>waitNb := n\<rparr>) = (control g)\<lparr>k_wait := n\<rparr>"
  "control (post_init_done g) = (control g)\<lparr>k_posts := Suc (sem_init_done g)\<rparr>"
  "control (set_comm c cm g) = control g"
  "control (emit ev g) = (if ev = Spawned SleepTreatment then (control g)\<lparr>k_sleeps := Suc (sleeps g)\<rparr> else control g)"
  by (simp_all add: control_def sleeps_def post_init_done_def set_comm_def emit_def)

lemma control_reads:
  "automatonState g = k_state (control g)" "myAddress g = k_me (control g)" "prec g = k_prec (control g)"
  "succ g = k_succ (control g)" "sem_init_done g = k_posts (control g)" "waitNb g = k_wait (control g)"
  "waitNbMax g = k_max (control g)"
  "sleeps g = k_sleeps (control g)"
  by (simp_all add: control_def)

lemma freeComm_frame [frames]: "freeComm self p g = Inr g' \<Longrightarrow> control g' = control g"
  by (auto simp: freeComm_def bindE_eq_Inr Let_def)

lemma closeConnection_frame [frames]: "closeConnection self a b g = Inr g' \<Longrightarrow> control g' = control g"
  by (auto simp: closeConnection_def bindE_eq_Inr Let_def dest!: freeComm_frame split: if_splits)

lemma new_comm_frame: "control (snd (new_comm cm g)) = control g"
  by (simp add: new_comm_def)

lemma openConnection_frame [frames]:
  assumes "openConnection e a b g = Inr (r, g')"
  shows "control g' = control g"
proof -
  obtain ad where "nthE (globalAddrArray g) (addrToRank a) = Inr ad" "addrToRank a \<noteq> - 1"
    using assms by (auto simp: openConnection_def Let_def bindE_eq_Inr split: if_splits)
  moreover have "control g2 = control g"
    if "(case tcomm of None \<Rightarrow> Inr (- 1, g1) | Some cm \<Rightarrow> let (c, g2) = new_comm cm g1 in
              bindE (addTComm (Some c) rank (globalAddrArray g2) isPred) (\<lambda>array.
                Inr (1, emit (Spawned (ConnectionMgt c)) (g2\<lparr>globalAddrArray := array\<rparr>)))) = Inr (r, g2)"
      "control g1 = control g" for tcomm g1 g2 rank isPred
    using that new_comm_frame [of "the tcomm" g1]
    by (cases tcomm) (auto simp: bindE_eq_Inr Let_def split: prod.splits)
  ultimately show ?thesis
    using assms unfolding openConnection_def Let_def
    by (simp split: if_split_asm) (auto simp: bindE_eq_Inr)
qed

lemma searchSucc_loop_frame: "searchSucc_loop n e rank i g = Inr (r, g') \<Longrightarrow> control g' = control g"
proof (induction n arbitrary: i g)
  case 0
  then show ?case by (subst (asm) searchSucc_loop.simps) (simp split: if_splits)
next
  case (Suc n)
  from Suc.prems show ?case
    by (subst (asm) searchSucc_loop.simps)
      (auto simp: bindE_eq_Inr split: if_splits prod.splits dest!: openConnection_frame Suc.IH)
qed

lemma searchSucc_frame [frames]: "searchSucc e a g = Inr (r, g') \<Longrightarrow> control g' = control g"
  by (auto simp: searchSucc_def bindE_eq_Inr Let_def split: if_splits dest!: searchSucc_loop_frame)

lemma writev_comm_frame [frames]: "writev_comm e c iov g = Inr (r, g') \<Longrightarrow> control g' = control g"
  by (auto simp: writev_comm_def bindE_eq_Inr)

lemma sendOther_frame [frames]: "sendOther e a b typ s g = Inr (r, g') \<Longrightarrow> control g' = control g"
  by (auto simp: sendOther_def bindE_eq_Inr Let_def split: if_splits option.splits dest!: writev_comm_frame)

lemma sendTrain_frame [frames]: "sendTrain e a b l g = Inr (r, g') \<Longrightarrow> control g' = control g"
  by (auto simp: sendTrain_def bindE_eq_Inr Let_def split: if_splits option.splits dest!: writev_comm_frame)

lemma participate_frame [frames]: "participate e b g = Inr g' \<Longrightarrow> control g' = control g"
  by (auto simp: participate_def bindE_eq_Inr new_comm_def split: if_splits option.splits dest!: freeComm_frame)

lemma free_msg_frame [frames]: "free_msg p g = Inr g' \<Longrightarrow> control g' = control g"
  by (auto simp: free_msg_def bindE_eq_Inr)

lemma upd_lts_frame [frames]: "upd_lts t f g = Inr g' \<Longrightarrow> control g' = control g"
  by (auto simp: upd_lts_def bindE_eq_Inr)

lemma set_unstable_frame [frames]: "set_unstable t r l g = Inr g' \<Longrightarrow> control g' = control g"
  by (auto simp: set_unstable_def bindE_eq_Inr)

lemma write_wts_frame [frames]: "write_wts f g = Inr g' \<Longrightarrow> control g' = control g"
  by (auto simp: write_wts_def bindE_eq_Inr)

lemma mallocWiw_g_frame [frames]: "mallocWiw_g n g = Inr (mp, g') \<Longrightarrow> control g' = control g"
  by (auto simp: mallocWiw_g_def bindE_eq_Inr)

lemma count_up_frame [frames]: "count_up p g = Inr g' \<Longrightarrow> control g' = control g"
  by (auto simp: count_up_def bindE_eq_Inr)

lemma signalArrivalDepartures_frame [frames]:
  "signalArrivalDepartures typ a c g = Inr g' \<Longrightarrow> control g' = control g"
  by (auto simp: signalArrivalDepartures_def bindE_eq_Inr Let_def split: if_splits
      dest!: write_wts_frame mallocWiw_g_frame)

lemma signalArrival_frame [frames]: "signalArrival a c g = Inr g' \<Longrightarrow> control g' = control g"
  by (simp add: signalArrival_def signalArrivalDepartures_frame)

lemma signalDepartures_frame [frames]: "signalDepartures s c g = Inr g' \<Longrightarrow> control g' = control g"
proof (simp add: signalDepartures_def each_address_ranks Let_def split: if_splits)
  assume "foldE (\<lambda>ad g'. if addrIsMember ad s then signalArrivalDepartures AM_DEPARTURE ad (c AND NOT s) g' else Inr g')
    (map (\<lambda>r. rankToAddr (int r)) [0..<16]) g = Inr g'"
  then show "control g' = control g"
    by (rule foldE_invariant [where I = "\<lambda>x. control x = control g", rotated 2])
      (auto split: if_splits dest: signalArrivalDepartures_frame)
qed

lemma deliver_wagonToSend_frame [frames]: "deliver_wagonToSend g = Inr g' \<Longrightarrow> control g' = control g"
  by (auto simp: deliver_wagonToSend_def bindE_eq_Inr)

lemma deliver_round_frame [frames]: "deliver_round t r g = Inr g' \<Longrightarrow> control g' = control g"
  by (auto simp: deliver_round_def bindE_eq_Inr dest!: set_unstable_frame)

lemma append_unstable_frame [frames]: "append_unstable t r wi g = Inr g' \<Longrightarrow> control g' = control g"
  by (auto simp: append_unstable_def bindE_eq_Inr dest!: set_unstable_frame)

lemma update_circuit_frame [frames]: "update_circuit t c g = Inr g' \<Longrightarrow> control g' = control g"
  by (auto simp: update_circuit_def bindE_eq_Inr split: if_splits dest!: signalDepartures_frame upd_lts_frame)

lemma release_lts_frame [frames]: "release_lts t g = Inr g' \<Longrightarrow> control g' = control g"
  by (auto simp: release_lts_def bindE_eq_Inr dest!: upd_lts_frame)

lemma free_wtosend_frame [frames]: "free_wtosend t g = Inr g' \<Longrightarrow> control g' = control g"
  by (auto simp: free_wtosend_def bindE_eq_Inr dest!: upd_lts_frame)

lemma keep_wagon_frame [frames]:
  assumes "keep_wagon p buf t r w g = Inr g'"
  shows "control g' = control g"
proof -
  have up: "control g3 = control g2"
    if "(if c then bindE (upd_lts t f g2) (count_up (Some p)) else Inr g2) = Inr g3" for c f g2 g3
    using that by (auto simp: bindE_eq_Inr split: if_splits dest!: upd_lts_frame count_up_frame)
  have more: "control g3 = control g2"
    if "(if b then bindE (if c then bindE (upd_lts t f g2) (count_up (Some p)) else Inr g2) (\<lambda>g. bindE r (\<lambda>n. upd_lts t (h n) g))
      else Inr g2) = Inr g3" for b c f r h g2 g3
    using that by (auto simp: bindE_eq_Inr split: if_split_asm dest!: up upd_lts_frame count_up_frame)
  obtain sender l where "wagon_sender buf w = Inr sender" "nthE (lts g) t = Inr l"
    using assms by (auto simp: keep_wagon_def bindE_eq_Inr)
  then show ?thesis
    using assms by (simp add: keep_wagon_def Let_def split: if_split_asm)
      (auto simp: bindE_eq_Inr dest!: count_up_frame append_unstable_frame more)
qed

lemma for_wagons_invariant:
  assumes "\<And>w s s'. I s \<Longrightarrow> f w s = Inr s' \<Longrightarrow> I s'" and "I s" and "for_wagons n buf f w s = Inr s'"
  shows "I s'"
  using assms(2,3)
proof (induction n arbitrary: w s)
  case 0
  then show ?case by (cases w) simp_all
next
  case (Suc n)
  then show ?case by (cases w) (auto simp: bindE_eq_Inr dest: assms(1) Suc.IH [rotated])
qed

lemma each_wagon_invariant:
  assumes "\<And>w s s'. I s \<Longrightarrow> f w s = Inr s' \<Longrightarrow> I s'" and "I s" and "each_wagon buf f s = Inr s'"
  shows "I s'"
  using assms(3) by (auto simp: each_wagon_def bindE_eq_Inr intro: for_wagons_invariant [where I = I, OF assms(1,2)])

lemma keep_wagons_frame [frames]:
  "each_wagon buf (keep_wagon p b t r) g = Inr g' \<Longrightarrow> control g' = control g"
  by (rule each_wagon_invariant [where I = "\<lambda>x. control x = control g"]) (auto dest: keep_wagon_frame)

lemma take_wagonToSend_frame [frames]: "take_wagonToSend t r g = Inr g' \<Longrightarrow> control g' = control g"
  by (auto simp: take_wagonToSend_def bindE_eq_Inr split: if_splits
      dest!: upd_lts_frame count_up_frame append_unstable_frame)

lemma trainHandling_frame [frames]: "trainHandling p g = Inr g' \<Longrightarrow> control g' = control g"
  by (auto simp: trainHandling_def bindE_eq_Inr Let_def
      dest!: upd_lts_frame take_wagonToSend_frame keep_wagons_frame free_wtosend_frame release_lts_frame
        update_circuit_frame deliver_round_frame)

end
