(* ===== verification/AutomatonSteps.thy ===== *)
theory AutomatonSteps
  imports AutomatonInvariant
begin

text \<open>
  The automaton as a step relation on the variables that decide its behaviour: every message
  \<^verbatim>\<open>stateMachine\<close> returns from makes one of its steps, and so does the end of a sleep.
  The invariants of the states follow by induction on the steps of a process.
\<close>

section \<open>The steps\<close>

definition waiting :: "control \<Rightarrow> control" where
  "waiting k = k\<lparr>k_state := WAIT, k_prec := 0, k_succ := 0, k_sleeps := Suc (k_sleeps k)\<rparr>"

definition alone :: "control \<Rightarrow> control" where
  "alone k = k\<lparr>k_state := ALONE_INSERT_WAIT, k_prec := k_me k, k_succ := k_me k\<rparr>"

inductive k_step :: "MType \<Rightarrow> control \<Rightarrow> control \<Rightarrow> bool" where
  attempt_refused: "k_state k = OFFLINE_CONNECTION_ATTEMPT \<Longrightarrow> typ \<in> {NAK_INSERT, DISCONNECT_PRED, DISCONNECT_SUCC} \<Longrightarrow>
    k_wait k \<le> k_max k \<Longrightarrow> k_step typ k (waiting k)"
| attempt_insert: "k_state k = OFFLINE_CONNECTION_ATTEMPT \<Longrightarrow> k_step INSERT k (k\<lparr>k_prec := a\<rparr>)"
| attempt_accepted: "k_state k = OFFLINE_CONNECTION_ATTEMPT \<Longrightarrow>
    k_step ACK_INSERT k (k\<lparr>k_prec := a, k_state := OFFLINE_CONFIRMATION_WAIT\<rparr>)"
| confirmation_lost: "k_state k = OFFLINE_CONFIRMATION_WAIT \<Longrightarrow> typ \<in> {NEWSUCC, DISCONNECT_PRED, DISCONNECT_SUCC} \<Longrightarrow>
    k_wait k \<le> k_max k \<Longrightarrow> k_step typ k (waiting k)"
| confirmation_insert: "k_state k = OFFLINE_CONFIRMATION_WAIT \<Longrightarrow> k_step INSERT k k"
| confirmation_train: "k_state k = OFFLINE_CONFIRMATION_WAIT \<Longrightarrow> k_step TRAIN k k"
| confirmation_inserted: "k_state k = OFFLINE_CONFIRMATION_WAIT \<Longrightarrow>
    k_step TRAIN k (k\<lparr>k_state := SEVERAL, k_posts := Suc (k_posts k)\<rparr>)"
| wait_any: "k_state k = WAIT \<Longrightarrow> k_step typ k k"
| alone_disconnect: "k_state k = ALONE_INSERT_WAIT \<Longrightarrow> typ \<in> {DISCONNECT_PRED, DISCONNECT_SUCC} \<Longrightarrow> k_step typ k k"
| alone_insert: "k_state k = ALONE_INSERT_WAIT \<Longrightarrow>
    k_step INSERT k (k\<lparr>k_prec := a, k_state := ALONE_CONNECTION_WAIT\<rparr>)"
| connection_lost: "k_state k = ALONE_CONNECTION_WAIT \<Longrightarrow> k_step DISCONNECT_PRED k (alone k)"
| connection_insert: "k_state k = ALONE_CONNECTION_WAIT \<Longrightarrow> k_step INSERT k k"
| connection_made: "k_state k = ALONE_CONNECTION_WAIT \<Longrightarrow> k_step NEWSUCC k (k\<lparr>k_succ := a, k_state := SEVERAL\<rparr>)"
| several_train: "k_state k = SEVERAL \<Longrightarrow> k_step TRAIN k k"
| several_insert: "k_state k = SEVERAL \<Longrightarrow> k_step INSERT k (k\<lparr>k_prec := a\<rparr>)"
| several_newsucc: "k_state k = SEVERAL \<Longrightarrow> k_step NEWSUCC k (k\<lparr>k_succ := a\<rparr>)"
| several_pred: "k_state k = SEVERAL \<Longrightarrow> k_step DISCONNECT_PRED k (k\<lparr>k_prec := a\<rparr>)"
| several_alone: "k_state k = SEVERAL \<Longrightarrow> k_step DISCONNECT_PRED k (alone k)"
| several_succ: "k_state k = SEVERAL \<Longrightarrow> k_step DISCONNECT_SUCC k (k\<lparr>k_succ := 0\<rparr>)"

inductive_cases k_stepE: "k_step typ k k'"

section \<open>The handlers make these steps\<close>

lemma waitBeforeConnect_control:
  assumes "waitBeforeConnect e g = Inr g'"
  shows "control g' = (control g)\<lparr>k_prec := 0, k_succ := 0, k_sleeps := Suc (sleeps g)\<rparr>" "waitNb g \<le> waitNbMax g"
proof -
  have wn: "\<not> waitNb g > waitNbMax g" using assms by (auto simp: waitBeforeConnect_def)
  then show "waitNb g \<le> waitNbMax g" by simp
  have p: "control y = (control x)\<lparr>k_prec := 0\<rparr>"
    if "(if prec x \<noteq> 0 then bindE (closeConnection (env_self e) (prec x) True x) (\<lambda>g. Inr (g\<lparr>prec := 0\<rparr>)) else Inr x) = Inr y" for x y
    using that by (auto simp: bindE_eq_Inr split: if_split_asm dest!: closeConnection_frame) (simp add: control_def)
  have s: "control y = (control x)\<lparr>k_succ := 0\<rparr>"
    if "(if succ x \<noteq> 0 then bindE (closeConnection (env_self e) (succ x) False x) (\<lambda>g. Inr (g\<lparr>succ := 0\<rparr>)) else Inr x) = Inr y" for x y
    using that by (auto simp: bindE_eq_Inr split: if_split_asm dest!: closeConnection_frame) (simp add: control_def)
  have "\<exists>x y z. control x = control g \<and> control y = (control x)\<lparr>k_prec := 0\<rparr> \<and> control z = (control y)\<lparr>k_succ := 0\<rparr> \<and>
      g' = emit (Spawned SleepTreatment) z"
    using assms wn unfolding waitBeforeConnect_def by (auto simp: bindE_eq_Inr dest!: participate_frame p s)
  then show "control g' = (control g)\<lparr>k_prec := 0, k_succ := 0, k_sleeps := Suc (sleeps g)\<rparr>"
    by (auto simp: control_reads)
qed

lemma next_WAIT:
  assumes "nextState e WAIT g = Inr g'"
  shows "control g' = waiting (control g) \<and> k_wait (control g) \<le> k_max (control g)"
proof -
  obtain x where "waitBeforeConnect e g = Inr x" "g' = x\<lparr>automatonState := WAIT\<rparr>"
    using assms by (auto simp: nextState_def bindE_eq_Inr)
  then show ?thesis using waitBeforeConnect_control [of e g x] by (simp add: waiting_def control_reads)
qed

lemma next_simple:
  "nextState e OFFLINE_CONFIRMATION_WAIT g = Inr g' \<Longrightarrow> control g' = (control g)\<lparr>k_state := OFFLINE_CONFIRMATION_WAIT\<rparr>"
  "nextState e ALONE_CONNECTION_WAIT g = Inr g' \<Longrightarrow> control g' = (control g)\<lparr>k_state := ALONE_CONNECTION_WAIT\<rparr>"
  "nextState e SEVERAL g = Inr g' \<Longrightarrow> control g' = (control g)\<lparr>k_state := SEVERAL\<rparr>"
  "nextState e ALONE_INSERT_WAIT g = Inr g' \<Longrightarrow> control g' = alone (control g)"
  by (auto simp: nextState_def alone_def control_reads)

lemma unexpected_not [simp]: "unexpected typ s \<noteq> Inr x"
  by (simp add: unexpected_def)

lemma on_attempt_step:
  assumes "on_attempt e p typ g = Inr g'" "automatonState g = OFFLINE_CONNECTION_ATTEMPT"
  shows "k_step typ (control g) (control g')"
proof -
  have k: "k_state (control g) = OFFLINE_CONNECTION_ATTEMPT" using assms(2) by (simp add: control_def)
  consider "typ \<in> {NAK_INSERT, DISCONNECT_PRED, DISCONNECT_SUCC}" | "typ = INSERT" | "typ = ACK_INSERT"
    using assms by (auto simp: on_attempt_def split: if_split_asm)
  then show ?thesis
  proof cases
    case 1
    then have "control g' = waiting (control g) \<and> k_wait (control g) \<le> k_max (control g)"
      using assms(1) by (auto simp: on_attempt_def bindE_eq_Inr dest!: free_msg_frame next_WAIT)
    then show ?thesis using attempt_refused [OF k 1] by simp
  next
    case 2
    then have "\<exists>a. control g' = (control g)\<lparr>k_prec := a\<rparr>"
      using assms(1) by (auto simp: on_attempt_def bindE_eq_Inr MType_defs dest!: free_msg_frame sendOther_frame)
    then show ?thesis using attempt_insert [OF k] 2 by auto
  next
    case 3
    then have "\<exists>a. control g' = (control g)\<lparr>k_prec := a, k_state := OFFLINE_CONFIRMATION_WAIT\<rparr>"
      using assms(1) by (auto simp: on_attempt_def bindE_eq_Inr MType_defs
          dest!: free_msg_frame sendOther_frame openConnection_frame next_simple)
    then show ?thesis using attempt_accepted [OF k] 3 by auto
  qed
qed

lemma isInLts_train_end:
  assumes "(if inl
            then let g6 = g5\<lparr>lis := i\<rparr> in
                 bindE (nthE (lts g6) (lis g6)) (\<lambda>l.
                 bindE (signalArrival (myAddress g6) (lts_circuit l) g6) (\<lambda>g7.
                 bindE (nextState e SEVERAL g7) (\<lambda>g8. Inr (post_init_done g8))))
            else Inr g5) = Inr g'"
  shows "control g' = control g5 \<or> control g' = (control g5)\<lparr>k_state := SEVERAL, k_posts := Suc (k_posts (control g5))\<rparr>"
  using assms
  by (auto simp: bindE_eq_Inr control_reads split: if_split_asm dest!: signalArrival_frame next_simple(3))

lemma first_wagon_frame:
  assumes "(case fw of
              None \<Rightarrow> Inr g2
            | Some off \<Rightarrow> bindE r (\<lambda>len. bindE (upd_lts tid (f off len) g2) (count_up p))) = Inr g3"
  shows "control g3 = control g2"
  using assms by (auto simp: bindE_eq_Inr split: option.splits dest!: upd_lts_frame count_up_frame)

lemma confirmation_train_control:
  assumes "confirmation_train e p g = Inr g'"
  shows "control g' = control g \<or> control g' = (control g)\<lparr>k_state := SEVERAL, k_posts := Suc (k_posts (control g))\<rparr>"
proof -
  have clock: "control x = control g"
    if "(if c then bindE r (\<lambda>b. Inr (g\<lparr>mem := h b\<rparr>)) else Inr g) = Inr x" for c r x and h :: "byte list \<Rightarrow> heap"
    using that by (auto simp: bindE_eq_Inr split: if_split_asm)
  obtain g1 g5 g6 where "control g1 = control g" "control g5 = control g1"
    "control g6 = control g5 \<or> control g6 = (control g5)\<lparr>k_state := SEVERAL, k_posts := Suc (k_posts (control g5))\<rparr>"
    "control g' = control g6"
    using assms unfolding confirmation_train_def Let_def
    apply (simp only: bindE_eq_Inr split_paired_Ex case_prod_conv)
    apply (elim exE conjE)
    apply (drule clock release_lts_frame first_wagon_frame upd_lts_frame sendTrain_frame free_msg_frame
        isInLts_train_end [unfolded Let_def])+
    by metis
  then show ?thesis by auto
qed

lemma on_confirmation_step:
  assumes "on_confirmation e p typ g = Inr g'" "automatonState g = OFFLINE_CONFIRMATION_WAIT"
  shows "k_step typ (control g) (control g')"
proof -
  have k: "k_state (control g) = OFFLINE_CONFIRMATION_WAIT" using assms(2) by (simp add: control_def)
  consider "typ \<in> {NEWSUCC, DISCONNECT_PRED, DISCONNECT_SUCC}" | "typ = INSERT" | "typ = TRAIN"
    using assms by (auto simp: on_confirmation_def split: if_split_asm)
  then show ?thesis
  proof cases
    case 1
    then have "control g' = waiting (control g) \<and> k_wait (control g) \<le> k_max (control g)"
      using assms(1) by (auto simp: on_confirmation_def bindE_eq_Inr dest!: free_msg_frame next_WAIT)
    then show ?thesis using confirmation_lost [OF k 1] by simp
  next
    case 2
    then have "control g' = control g"
      using assms(1) by (auto simp: on_confirmation_def bindE_eq_Inr MType_defs dest!: free_msg_frame sendOther_frame)
    then show ?thesis using confirmation_insert [OF k] 2 by simp
  next
    case 3
    then have "confirmation_train e p g = Inr g'" using assms(1) by (simp add: on_confirmation_def MType_defs)
    then show ?thesis
      using confirmation_train_control k_step.confirmation_train [OF k] confirmation_inserted [OF k] 3 by metis
  qed
qed

lemma on_alone_insert_step:
  assumes "on_alone_insert e p typ g = Inr g'" "automatonState g = ALONE_INSERT_WAIT"
  shows "k_step typ (control g) (control g')"
proof -
  have k: "k_state (control g) = ALONE_INSERT_WAIT" using assms(2) by (simp add: control_def)
  consider "typ \<in> {DISCONNECT_PRED, DISCONNECT_SUCC}" | "typ = INSERT"
    using assms by (auto simp: on_alone_insert_def split: if_split_asm)
  then show ?thesis
  proof cases
    case 1
    then have "control g' = control g"
      using assms(1) by (auto simp: on_alone_insert_def bindE_eq_Inr dest!: free_msg_frame)
    then show ?thesis using alone_disconnect [OF k 1] by simp
  next
    case 2
    then have "\<exists>a. control g' = (control g)\<lparr>k_prec := a, k_state := ALONE_CONNECTION_WAIT\<rparr>"
      using assms(1) by (auto simp: on_alone_insert_def bindE_eq_Inr MType_defs
          dest!: free_msg_frame sendOther_frame next_simple)
    then show ?thesis using alone_insert [OF k] 2 by auto
  qed
qed

lemma start_train_frame [frames]: "start_train e t g = Inr g' \<Longrightarrow> control g' = control g"
  by (auto simp: start_train_def bindE_eq_Inr dest!: upd_lts_frame sendTrain_frame)

lemma resend_train_frame [frames]: "resend_train e t g = Inr g' \<Longrightarrow> control g' = control g"
  by (auto simp: resend_train_def bindE_eq_Inr dest!: sendTrain_frame)

lemma flush_train_frame [frames]: "flush_train r t g = Inr g' \<Longrightarrow> control g' = control g"
  by (auto simp: flush_train_def bindE_eq_Inr dest!: deliver_round_frame)

lemma each_train_invariant:
  assumes "\<And>t s s'. I s \<Longrightarrow> f t s = Inr s' \<Longrightarrow> I s'" and "I s" and "each_train n i f s = Inr s'"
  shows "I s'"
  using assms(2,3) by (induction n arbitrary: i s) (auto simp: bindE_eq_Inr dest: assms(1))

lemma each_train_frame:
  assumes "each_train n i f g = Inr g'" "\<And>t x y. f t x = Inr y \<Longrightarrow> control y = control x"
  shows "control g' = control g"
  by (rule each_train_invariant [where I = "\<lambda>x. control x = control g", OF _ refl assms(1)]) (metis assms(2))

lemmas each_train_frames = each_train_frame [OF _ start_train_frame] each_train_frame [OF _ resend_train_frame]
  each_train_frame [OF _ flush_train_frame]

lemma on_alone_connection_step:
  assumes "on_alone_connection e p typ g = Inr g'" "automatonState g = ALONE_CONNECTION_WAIT"
  shows "k_step typ (control g) (control g')"
proof -
  have k: "k_state (control g) = ALONE_CONNECTION_WAIT" using assms(2) by (simp add: control_def)
  consider "typ = DISCONNECT_PRED" | "typ = INSERT" | "typ = NEWSUCC"
    using assms by (auto simp: on_alone_connection_def split: if_split_asm)
  then show ?thesis
  proof cases
    case 1
    then have "control g' = alone (control g)"
      using assms(1) by (auto simp: on_alone_connection_def bindE_eq_Inr dest!: free_msg_frame next_simple)
    then show ?thesis using connection_lost [OF k] 1 by simp
  next
    case 2
    then have "control g' = control g"
      using assms(1) by (auto simp: on_alone_connection_def bindE_eq_Inr MType_defs dest!: free_msg_frame sendOther_frame)
    then show ?thesis using connection_insert [OF k] 2 by simp
  next
    case 3
    then have "\<exists>a. control g' = (control g)\<lparr>k_succ := a, k_state := SEVERAL\<rparr>"
      using assms(1) by (auto simp: on_alone_connection_def bindE_eq_Inr MType_defs
          dest!: free_msg_frame next_simple each_train_frames(1))
    then show ?thesis using connection_made [OF k] 3 by auto
  qed
qed

lemma lose_pred_control:
  "lose_pred n e g = Inr (found, g') \<Longrightarrow> \<exists>a. control g' = (control g)\<lparr>k_prec := a\<rparr>"
proof (induction n arbitrary: g)
  case 0
  then show ?case by (subst (asm) lose_pred.simps) (auto simp: control_def split: if_split_asm)
next
  case (Suc n)
  show ?case
  proof (cases "addrIsEqual (prec g) (myAddress g)")
    case True
    with Suc.prems show ?thesis by (subst (asm) lose_pred.simps) (auto simp: control_def)
  next
    case False
    with Suc.prems obtain r g1 where o: "openConnection e (prec g) True g = Inr (r, g1)"
      by (subst (asm) lose_pred.simps) (auto simp: bindE_eq_Inr)
    note o1 = openConnection_frame [OF o]
    show ?thesis
    proof (cases "r = - 1")
      case False
      with Suc.prems \<open>\<not> addrIsEqual (prec g) (myAddress g)\<close> o have "control g' = control g"
        using o1 by (subst (asm) lose_pred.simps) (auto simp: bindE_eq_Inr dest!: sendOther_frame)
      then show ?thesis by (intro exI [of _ "prec g"]) (simp add: control_def)
    next
      case True
      with Suc.prems \<open>\<not> addrIsEqual (prec g) (myAddress g)\<close> o obtain came gone pr where
        "lose_pred n e (g1\<lparr>cameProc := came, goneProc := gone, prec := pr\<rparr>) = Inr (found, g')"
        by (subst (asm) lose_pred.simps) (auto simp: bindE_eq_Inr split: prod.splits)
      from Suc.IH [OF this] o1 show ?thesis by auto
    qed
  qed
qed

lemma flush_unstable_frame [frames]: "flush_unstable g = Inr g' \<Longrightarrow> control g' = control g"
  by (auto simp: flush_unstable_def bindE_eq_Inr dest!: each_train_frames(3))

lemma several_disconnect_pred_control:
  assumes "several_disconnect_pred e p g = Inr g'" "automatonState g = SEVERAL"
  shows "(\<exists>a. control g' = (control g)\<lparr>k_prec := a\<rparr>) \<or> control g' = alone (control g)"
proof -
  obtain found g1 where l: "lose_pred 17 e g = Inr (found, g1)"
    using assms(1) by (auto simp: several_disconnect_pred_def bindE_eq_Inr)
  obtain a where a: "control g1 = (control g)\<lparr>k_prec := a\<rparr>" using lose_pred_control [OF l] by blast
  show ?thesis
  proof (cases found)
    case True
    with assms(1) l have "control g' = (control g1)\<lparr>k_state := SEVERAL\<rparr>"
      by (auto simp: several_disconnect_pred_def bindE_eq_Inr dest!: free_msg_frame next_simple)
    with a assms(2) have "control g' = (control g)\<lparr>k_prec := a\<rparr>" by (simp add: control_def)
    then show ?thesis by blast
  next
    case False
    with assms(1) l have "control g' = alone (control g1)"
      by (auto simp: several_disconnect_pred_def bindE_eq_Inr
          dest!: free_msg_frame next_simple signalDepartures_frame flush_unstable_frame deliver_wagonToSend_frame)
    with a show ?thesis by (simp add: alone_def)
  qed
qed

lemma several_train_frame [frames]:
  assumes "several_train e p g = Inr g'"
  shows "control g' = control g"
proof -
  have send: "control y = control x"
    if "(if succ x \<noteq> 0 then bindE (nthE (lts x) i) (\<lambda>l. bindE (sendTrain e (succ x) False l x) (\<lambda>(_, z). Inr z)) else Inr x) = Inr y"
    for x y i
    using that by (auto simp: bindE_eq_Inr split: if_split_asm dest!: sendTrain_frame)
  have handled: "control y = control g"
    if "(if b then bindE (trainHandling p g) (\<lambda>g1. let g2 = g1\<lparr>lis := i\<rparr> in
          if succ g2 \<noteq> 0 then bindE (nthE (lts g2) (lis g2)) (\<lambda>l. bindE (sendTrain e (succ g2) False l g2) (\<lambda>(_, g3). Inr g3))
          else Inr g2) else Inr g) = Inr y" for b i y
    using that unfolding Let_def by (auto simp: bindE_eq_Inr split: if_split_asm dest!: trainHandling_frame send)
      (auto dest!: sendTrain_frame)
  obtain c where "msg_at p g train_circuit = Inr c" "addrIsMember (myAddress g) c"
    using assms by (auto simp: several_train_def bindE_eq_Inr split: if_split_asm)
  with assms show ?thesis
    by (auto simp: several_train_def bindE_eq_Inr dest!: free_msg_frame handled)
qed

lemma on_several_step:
  assumes "on_several e p typ g = Inr g'" "automatonState g = SEVERAL"
  shows "k_step typ (control g) (control g')"
proof -
  have k: "k_state (control g) = SEVERAL" using assms(2) by (simp add: control_def)
  consider "typ = TRAIN" | "typ = INSERT" | "typ = NEWSUCC" | "typ = DISCONNECT_PRED" | "typ = DISCONNECT_SUCC"
    using assms by (auto simp: on_several_def split: if_split_asm)
  then show ?thesis
  proof cases
    case 1
    then have "control g' = control g" using assms(1) by (simp add: on_several_def several_train_frame)
    then show ?thesis using k_step.several_train [OF k] 1 by simp
  next
    case 2
    then have "\<exists>a. control g' = (control g)\<lparr>k_prec := a\<rparr>"
      using assms(1) by (auto simp: on_several_def bindE_eq_Inr MType_defs
          dest!: free_msg_frame sendOther_frame closeConnection_frame)
    then show ?thesis using several_insert [OF k] 2 by auto
  next
    case 3
    have close: "control y = control x"
      if "(if succ x \<noteq> 0 then closeConnection (env_self e) (succ x) False x else Inr x) = Inr y" for x y
      using that by (auto split: if_split_asm dest!: closeConnection_frame)
    from 3 have "\<exists>a. control g' = (control g)\<lparr>k_succ := a\<rparr>"
      using assms(1) unfolding on_several_def
      by (auto simp: bindE_eq_Inr MType_defs dest!: free_msg_frame each_train_frames(2) close)
    then show ?thesis using several_newsucc [OF k] 3 by auto
  next
    case 4
    then have "several_disconnect_pred e p g = Inr g'" using assms(1) by (simp add: on_several_def MType_defs)
    from several_disconnect_pred_control [OF this assms(2)] show ?thesis
      using several_pred [OF k] several_alone [OF k] 4 by auto
  next
    case 5
    then have "control g' = (control g)\<lparr>k_succ := 0\<rparr>"
      using assms(1) by (auto simp: on_several_def bindE_eq_Inr MType_defs dest!: free_msg_frame)
    then show ?thesis using several_succ [OF k] 5 by simp
  qed
qed

text \<open>A message treated is one step, with the type read in the message.\<close>

lemma stateMachine_step:
  assumes "stateMachine e p g = Inr g'"
  obtains mt where "k_step mt (control g) (control g')"
    "automatonState g \<noteq> WAIT \<Longrightarrow> msg_at p g msg_type = Inr mt"
proof (cases "automatonState g = WAIT")
  case True
  with assms have "control g' = control g" by (auto simp: stateMachine_def dest!: free_msg_frame)
  with True show thesis using wait_any [of "control g"] by (intro that [of 0]) (auto simp: control_def)
next
  case False
  with assms obtain ty where t: "msg_at p g msg_type = Inr ty"
    by (auto simp: stateMachine_def bindE_eq_Inr split: State.splits)
  have "k_step ty (control g) (control g')"
    using assms t False
    by (cases "automatonState g")
      (auto simp: stateMachine_def intro: on_attempt_step on_confirmation_step on_alone_insert_step
        on_alone_connection_step on_several_step)
  with t show thesis by (intro that)
qed


section \<open>A process from its start\<close>

text \<open>The state with the number of sleeping threads that have woken up and the number of times
  \<^verbatim>\<open>trInit\<close> went past its wait. A step is a message treated, the end of a sleep, the
  application going past the wait, or anything the other threads do, which leaves the
  variables of the automaton as they are. \<^verbatim>\<open>sleepTreatment\<close> is one step here, although the
  code runs it without \<^verbatim>\<open>stateMachineMutex\<close>.\<close>

type_synonym process = "globals \<times> nat \<times> nat"

inductive process_step :: "process \<Rightarrow> process \<Rightarrow> bool" where
  message: "stateMachine e p g = Inr g' \<Longrightarrow> process_step (g, w, n) (g', w, n)"
| wake: "w < sleeps g \<Longrightarrow> sleepTreatment e r g = Inr (ms, g') \<Longrightarrow> process_step (g, w, n) (g', Suc w, n)"
| init_wait: "trInit_wait g = Inr g' \<Longrightarrow> process_step (g, w, n) (g', w, Suc n)"
| others: "control g' = control g \<Longrightarrow> process_step (g, w, n) (g', w, n)"

inductive process_run :: "process \<Rightarrow> bool" where
  start: "automatonInit e g = Inr g' \<Longrightarrow> sleeps g = 0 \<Longrightarrow> sem_init_done g = 0 \<Longrightarrow> waitNb g = 0 \<Longrightarrow>
    0 \<le> waitNbMax g \<Longrightarrow> process_run (g', 0, 0)"
| step: "process_run s \<Longrightarrow> process_step s s' \<Longrightarrow> process_run s'"

inductive_cases process_stepE: "process_step (g, w, n) s'"
inductive_simps process_step_iff: "process_step (g, w, n) (g', w', n')"

definition in_circuit :: "State \<Rightarrow> bool" where
  "in_circuit s \<longleftrightarrow> s \<in> {ALONE_INSERT_WAIT, ALONE_CONNECTION_WAIT, SEVERAL}"

definition process_ok :: "control \<Rightarrow> nat \<Rightarrow> nat \<Rightarrow> bool" where
  "process_ok k w n \<longleftrightarrow>
     k_sleeps k = w + (if k_state k = WAIT then 1 else 0) \<and>
     k_posts k + n = (if in_circuit (k_state k) then 1 else 0) \<and>
     k_wait k = int w \<and> int w \<le> k_max k + 1 \<and>
     (k_state k = WAIT \<longrightarrow> k_prec k = 0 \<and> k_succ k = 0 \<and> k_wait k \<le> k_max k) \<and>
     (k_state k = ALONE_INSERT_WAIT \<longrightarrow> k_prec k = k_me k \<and> k_succ k = k_me k) \<and>
     (k_state k = ALONE_CONNECTION_WAIT \<longrightarrow> k_succ k = k_me k)"

lemma process_ok_k_step: "k_step ty k k' \<Longrightarrow> process_ok k w n \<Longrightarrow> process_ok k' w n"
  by (erule k_stepE) (auto simp: process_ok_def waiting_def alone_def in_circuit_def)

lemma k_step_me: "k_step ty k k' \<Longrightarrow> k_me k' = k_me k \<and> k_max k' = k_max k"
  by (erule k_stepE) (auto simp: waiting_def alone_def)

lemma k_step_stays: "k_step ty k k' \<Longrightarrow> in_circuit (k_state k) \<Longrightarrow> in_circuit (k_state k')"
  by (erule k_stepE) (auto simp: waiting_def alone_def in_circuit_def)

lemma offlineInit_control:
  assumes "offlineInit e g = Inr g'"
  obtains "control g' = (alone (control g))\<lparr>k_posts := Suc (sem_init_done g)\<rparr>"
    | a where "a \<noteq> myAddress g" "control g' = (control g)\<lparr>k_succ := a, k_state := OFFLINE_CONNECTION_ATTEMPT\<rparr>"
proof -
  obtain g1 s g2 where p: "participate e True g = Inr g1" "searchSucc e (myAddress g1) g1 = Inr (s, g2)"
    using assms by (auto simp: offlineInit_def bindE_eq_Inr)
  have c: "control g2 = control g" using participate_frame [OF p(1)] searchSucc_frame [OF p(2)] by simp
  have me: "myAddress g2 = myAddress g" using c by (simp add: control_def)
  let ?g3 = "g2\<lparr>succ := s\<rparr>"
  show thesis
  proof (cases "s = myAddress g")
    case True
    then have "addrIsMine (succ ?g3) ?g3" by (simp add: addrIsMine_def addrIsEqual_def me)
    with assms p obtain g4 g5 where
      "signalArrival (myAddress ?g3) (myAddress ?g3) ?g3 = Inr g4" "deliver_wagonToSend g4 = Inr g5"
      "g' = (post_init_done (g5\<lparr>automatonState := ALONE_INSERT_WAIT\<rparr>))\<lparr>prec := myAddress g5\<rparr>"
      by (auto simp: offlineInit_def bindE_eq_Inr Let_def)
    moreover from this have "control g5 = control ?g3" by (auto dest!: signalArrival_frame deliver_wagonToSend_frame)
    ultimately have "control g' = (alone (control g))\<lparr>k_posts := Suc (sem_init_done g)\<rparr>"
      using c True me by (simp add: control_reads alone_def)
    then show thesis by (rule that(1))
  next
    case False
    then have "\<not> addrIsMine (succ ?g3) ?g3" by (simp add: addrIsMine_def addrIsEqual_def me)
    with assms p obtain r g4 where "sendOther e (succ ?g3) False INSERT (myAddress ?g3) ?g3 = Inr (r, g4)"
      "g' = g4\<lparr>automatonState := OFFLINE_CONNECTION_ATTEMPT\<rparr>"
      by (auto simp: offlineInit_def bindE_eq_Inr Let_def)
    then have "control g' = (control g)\<lparr>k_succ := s, k_state := OFFLINE_CONNECTION_ATTEMPT\<rparr>"
      using c by (auto dest!: sendOther_frame)
    with False show thesis by (rule that(2))
  qed
qed

lemma process_ok_init:
  assumes "offlineInit e g = Inr g'" "sleeps g = w" "waitNb g = int w" "int w \<le> waitNbMax g + 1" "sem_init_done g + n = 0"
  shows "process_ok (control g') w n"
  using offlineInit_control [OF assms(1)]
proof cases
  case 1
  then show ?thesis using assms(2-) by (simp add: process_ok_def alone_def in_circuit_def control_def)
next
  case (2 a)
  then show ?thesis using assms(2-) by (simp add: process_ok_def in_circuit_def control_def)
qed

lemma process_ok_wake:
  assumes "process_ok (control g) w n" "w < sleeps g" "sleepTreatment e r g = Inr (ms, g')"
  shows "process_ok (control g') (Suc w) n"
proof -
  have "offlineInit e (g\<lparr>waitNb := waitNb g + 1\<rparr>) = Inr g'"
    using assms(3) by (auto simp: sleepTreatment_def bindE_eq_Inr)
  moreover have k: "automatonState g = WAIT" "sleeps g = Suc w" "waitNb g = int w" "int w \<le> waitNbMax g" "sem_init_done g + n = 0"
    using assms(1,2) by (auto simp: process_ok_def control_def in_circuit_def split: if_splits)
  ultimately show ?thesis
    by (intro process_ok_init [of e "g\<lparr>waitNb := waitNb g + 1\<rparr>"]) (simp_all add: sleeps_def)
qed

lemma automatonInit_loop_frame: "automatonInit_loop n i g = Inr g' \<Longrightarrow> control g' = control g"
  by (induction n arbitrary: i g) (auto simp: bindE_eq_Inr dest!: set_unstable_frame)

lemma process_ok_run: "process_run (g, w, n) \<Longrightarrow> process_ok (control g) w n"
proof (induction "(g, w, n)" arbitrary: g w n rule: process_run.induct)
  case (start e g g')
  then obtain g1 wi h where "automatonInit_loop (nat (ntr g)) 0 (g\<lparr>lis := ntr g - 1\<rparr>) = Inr g1"
    "offlineInit e (g1\<lparr>cameProc := 0, goneProc := 0, wagonToSend := Some wi, mem := h,
        wagonsToDeliver := Some newBqueue, prec := 0, succ := 0\<rparr>) = Inr g'"
    by (auto simp: automatonInit_def bindE_eq_Inr nextState_def)
  moreover from automatonInit_loop_frame [OF this(1)] have "sleeps g1 = 0" "sem_init_done g1 = 0" "waitNb g1 = 0" "0 \<le> waitNbMax g1"
    using start(2-5) by (simp_all add: control_def, simp_all add: sleeps_def)
  ultimately show ?case by (elim process_ok_init) (simp_all add: sleeps_def)
next
  case (step s)
  obtain g0 w0 n0 where s: "s = (g0, w0, n0)" by (cases s)
  note ok = step(2) [OF s]
  from step(3)[unfolded s] show ?case
  proof (rule process_stepE, goal_cases message wake init_wait others)
    case (message e p g')
    then show ?case using ok process_ok_k_step by (metis Pair_inject stateMachine_step)
  next
    case (wake e r ms g')
    then show ?case using ok process_ok_wake by blast
  next
    case (init_wait g')
    then show ?case using ok by (auto simp: trInit_wait_def process_ok_def control_def sleeps_def split: if_splits)
  next
    case (others g')
    then show ?case using ok by simp
  qed
qed

lemma process_stays:
  assumes "process_step (g, w, n) (g', w', n')" "process_ok (control g) w n" "in_circuit (automatonState g)"
  shows "in_circuit (automatonState g')"
proof -
  consider (message) e p where "stateMachine e p g = Inr g'"
    | (wake) "w < sleeps g" | (init_wait) "trInit_wait g = Inr g'" | (others) "control g' = control g"
    using assms(1) by (cases rule: process_step.cases) auto
  then show ?thesis
  proof cases
    case message
    obtain mt where "k_step mt (control g) (control g')" by (rule stateMachine_step [OF message])
    then show ?thesis using assms(3) k_step_stays [of mt "control g" "control g'"] by (simp add: control_def)
  next
    case wake
    then show ?thesis using assms(2,3) by (auto simp: process_ok_def control_def in_circuit_def split: if_splits)
  next
    case init_wait
    then show ?thesis using assms(3) by (auto simp: trInit_wait_def split: if_splits)
  next
    case others
    then show ?thesis using assms(3) by (simp add: control_def)
  qed
qed

end
