(* ===== verification/StartInvariant.thy ===== *)
theory StartInvariant
  imports AutomatonSteps
begin

text \<open>
  The start of a process: \<^verbatim>\<open>automatonInit\<close> sets up the tables in a state that satisfies
  the invariant (or writes past the tables, when there are more than 16 trains), and
  \<^verbatim>\<open>offlineInit\<close> keeps it, whether the process finds a successor or starts alone.
\<close>

section \<open>The tables\<close>

definition table_sizes :: "globals \<Rightarrow> bool" where
  "table_sizes g \<longleftrightarrow> length (lts g) = 16 \<and> length (unstableWagons g) = 16 \<and>
     (\<forall>i<16. length (unstableWagons g ! i) = 3)"

definition fresh_row :: "wiw trList option list" where
  "fresh_row = [Some newList, Some newList, Some newList]"

lemma list3_update: "length xs = 3 \<Longrightarrow> xs[0 := a, Suc 0 := b, 2 := c] = [a, b, c]"
  by (cases xs; cases "tl xs"; cases "tl (tl xs)") (auto simp: numeral_2_eq_2 numeral_3_eq_3)

lemma set_unstable_nat:
  assumes "i < length (unstableWagons g)" "r < length (unstableWagons g ! i)"
  shows "set_unstable (int i) (int r) l g =
    Inr (g\<lparr>unstableWagons := (unstableWagons g)[i := (unstableWagons g ! i)[r := Some l]]\<rparr>)"
  using assms by (simp add: set_unstable_def)

lemma automatonInit_turn:
  assumes "table_sizes g" "i < 16"
  shows "automatonInit_loop (Suc n) (int i) g =
    automatonInit_loop n (int (Suc i)) (g\<lparr>lts := (lts g)[i := init_train (int i)],
      unstableWagons := (unstableWagons g)[i := fresh_row]\<rparr>)"
proof -
  let ?g = "g\<lparr>lts := (lts g)[i := init_train (int i)]\<rparr>" and ?us = "unstableWagons g"
  have us: "i < length ?us" "length (?us ! i) = 3" using assms by (simp_all add: table_sizes_def)
  have s0: "set_unstable (int i) 0 newList ?g = Inr (?g\<lparr>unstableWagons := ?us[i := (?us ! i)[0 := Some newList]]\<rparr>)"
    using set_unstable_nat [of i ?g 0 newList] us by simp
  let ?g0 = "?g\<lparr>unstableWagons := ?us[i := (?us ! i)[0 := Some newList]]\<rparr>"
  have s1: "set_unstable (int i) 1 newList ?g0 =
      Inr (?g0\<lparr>unstableWagons := ?us[i := (?us ! i)[0 := Some newList, Suc 0 := Some newList]]\<rparr>)"
    using set_unstable_nat [of i ?g0 1 newList] us by simp
  let ?g1 = "?g0\<lparr>unstableWagons := ?us[i := (?us ! i)[0 := Some newList, Suc 0 := Some newList]]\<rparr>"
  have s2: "set_unstable (int i) 2 newList ?g1 = Inr (?g1\<lparr>unstableWagons := ?us[i := fresh_row]\<rparr>)"
    using set_unstable_nat [of i ?g1 2 newList] us list3_update [OF us(2), of "Some newList" "Some newList" "Some newList"]
    by (simp add: fresh_row_def)
  have "updE (lts g) (int i) (init_train (int i)) = Inr ((lts g)[i := init_train (int i)])"
    using assms by (simp add: table_sizes_def)
  then show ?thesis using s0 s1 s2 by (simp add: add.commute)
qed

lemma table_sizes_step:
  "table_sizes g \<Longrightarrow> i < 16 \<Longrightarrow> table_sizes (g\<lparr>lts := (lts g)[i := l], unstableWagons := (unstableWagons g)[i := fresh_row]\<rparr>)"
  by (auto simp: table_sizes_def nth_list_update fresh_row_def)

lemma automatonInit_loop_ok:
  "table_sizes g \<Longrightarrow> i + n \<le> 16 \<Longrightarrow>
   \<exists>ls us. automatonInit_loop n (int i) g = Inr (g\<lparr>lts := ls, unstableWagons := us\<rparr>) \<and>
     table_sizes (g\<lparr>lts := ls, unstableWagons := us\<rparr>) \<and>
     (\<forall>j<16. ls ! j = (if i \<le> j \<and> j < i + n then init_train (int j) else lts g ! j)) \<and>
     (\<forall>j<16. us ! j = (if i \<le> j \<and> j < i + n then fresh_row else unstableWagons g ! j))"
proof (induction n arbitrary: i g)
  case 0
  have "automatonInit_loop 0 (int i) g = Inr (g\<lparr>lts := lts g, unstableWagons := unstableWagons g\<rparr>)" by simp
  then show ?case using 0(1) by (intro exI [of _ "lts g"] exI [of _ "unstableWagons g"]) (auto simp: table_sizes_def)
next
  case (Suc n)
  let ?g = "g\<lparr>lts := (lts g)[i := init_train (int i)], unstableWagons := (unstableWagons g)[i := fresh_row]\<rparr>"
  have "table_sizes ?g" using Suc.prems by (intro table_sizes_step) simp_all
  moreover have "Suc i + n \<le> 16" using Suc.prems(2) by simp
  ultimately obtain ls us where r: "automatonInit_loop n (int (Suc i)) ?g = Inr (?g\<lparr>lts := ls, unstableWagons := us\<rparr>)"
    "table_sizes (?g\<lparr>lts := ls, unstableWagons := us\<rparr>)"
    "\<forall>j<16. ls ! j = (if Suc i \<le> j \<and> j < Suc i + n then init_train (int j) else lts ?g ! j)"
    "\<forall>j<16. us ! j = (if Suc i \<le> j \<and> j < Suc i + n then fresh_row else unstableWagons ?g ! j)"
    using Suc.IH by metis
  have "automatonInit_loop (Suc n) (int i) g = Inr (g\<lparr>lts := ls, unstableWagons := us\<rparr>)"
    using automatonInit_turn [OF Suc.prems(1), of i n] r(1) Suc.prems(2) by (simp del: automatonInit_loop.simps)
  moreover have "ls ! j = (if i \<le> j \<and> j < i + Suc n then init_train (int j) else lts g ! j)" if "j < 16" for j
    using r(3) that Suc.prems by (cases "j = i") (auto simp: table_sizes_def)
  moreover have "us ! j = (if i \<le> j \<and> j < i + Suc n then fresh_row else unstableWagons g ! j)" if "j < 16" for j
    using r(4) that Suc.prems by (cases "j = i") (auto simp: table_sizes_def)
  moreover have "table_sizes (g\<lparr>lts := ls, unstableWagons := us\<rparr>)" using r(2) by (simp add: table_sizes_def)
  ultimately show ?case by blast
qed

lemma automatonInit_loop_past:
  "table_sizes g \<Longrightarrow> i \<le> 16 \<Longrightarrow> 16 < i + n \<Longrightarrow> automatonInit_loop n (int i) g = Inl MemFault"
proof (induction n arbitrary: i g)
  case (Suc n)
  show ?case
  proof (cases "i = 16")
    case True
    have "updE (lts g) (int i) (init_train (int i)) = Inl MemFault"
      unfolding updE_nat using Suc.prems(1) True by (simp add: table_sizes_def)
    then show ?thesis by simp
  next
    case False
    with Suc.prems have "i < 16" "Suc i \<le> 16" "16 < Suc i + n" by simp_all
    then show ?thesis
      unfolding automatonInit_turn [OF Suc.prems(1) \<open>i < 16\<close>]
      by (intro Suc.IH table_sizes_step [OF Suc.prems(1)]) simp_all
  qed
qed simp

section \<open>The invariant at the start\<close>

definition no_held :: "nat \<Rightarrow> nat \<Rightarrow> held" where
  "no_held = (\<lambda>t r. [])"

lemma no_held_refs [simp]: "U_refs no_held = {#}"
  by (simp add: U_refs_def no_held_def)

definition unused :: "ltsStruct \<Rightarrow> bool" where
  "unused l \<longleftrightarrow> lts_w l = no_wiw \<and> lts_wlen l = 0 \<and> lts_wtosend l = None"

lemma unused_lref: "unused l \<Longrightarrow> lref l = {#}"
  by (simp add: unused_def lref_def no_wiw_def)

lemma unused_ok: "unused l \<Longrightarrow> lts_ok h l"
  by (simp add: unused_def lts_ok_def no_wiw_def)

lemma unused_init_train: "unused (init_train i)"
  by (simp add: unused_def init_train_def no_wiw_def)

lemma lts_refs_unused: "\<forall>l \<in> set ls. unused l \<Longrightarrow> lts_refs ls = {#}"
  by (induction ls) (auto simp: lts_refs_def unused_lref)

text \<open>The state that \<^verbatim>\<open>automatonInit\<close> hands to \<^verbatim>\<open>nextState\<close>.\<close>

definition init_state :: "globals \<Rightarrow> ltsStruct list \<Rightarrow> wiw trList option list list \<Rightarrow> heap \<Rightarrow> globals" where
  "init_state g ls us h = g\<lparr>lis := ntr g - 1, lts := ls, unstableWagons := us, cameProc := 0, goneProc := 0,
     wagonToSend := Some (wagon_in (next_id (mem g)) 0), mem := h, wagonsToDeliver := Some newBqueue, prec := 0, succ := 0\<rparr>"

lemma automatonInit_ok:
  assumes "table_sizes g" "1 \<le> ntr g" "ntr g \<le> 16" "7 \<le> wagonMaxLen g" "\<forall>l \<in> set (lts g). unused l"
    and "counts (mem g) lk"
  obtains ls us h where "automatonInit e g = offlineInit e (init_state g ls us h)"
    "consistent (init_state g ls us h) [] no_held lk (nat (wagonMaxLen g)) (empty_wagon (myAddress g))"
    "trains_named (init_state g ls us h)" "\<forall>l \<in> set ls. unused l" "\<forall>i < nat (ntr g). ls ! i = init_train (int i)"
    "keeps (mem g) h lk" "next_id (mem g) \<notin># lk"
proof -
  let ?g = "g\<lparr>lis := ntr g - 1\<rparr>"
  have "table_sizes ?g" "0 + nat (ntr g) \<le> 16" using assms(1,3) by (simp_all add: table_sizes_def)
  from automatonInit_loop_ok [OF this] obtain ls us where
    one: "automatonInit_loop (nat (ntr g)) 0 ?g = Inr (?g\<lparr>lts := ls, unstableWagons := us\<rparr>)"
    "table_sizes (?g\<lparr>lts := ls, unstableWagons := us\<rparr>)"
    "\<forall>j<16. ls ! j = (if j < nat (ntr g) then init_train (int j) else lts g ! j)"
    "\<forall>j<16. us ! j = (if j < nat (ntr g) then fresh_row else unstableWagons g ! j)"
    by auto
  obtain w h where w: "newWiw (wagonMaxLen g) (myAddress g) (mem g) =
      Inr (\<lparr>p_wagon = Some (next_id (mem g), 0), p_womim = Some (next_id (mem g))\<rparr>, h)"
    "womims h = (womims (mem g))(next_id (mem g) \<mapsto> w)" "next_id h = Suc (next_id (mem g))"
    "counter w = 1" "length (bytes w) = nat (wagonMaxLen g)"
    "holds (bytes w) 0 (enc_wagon \<lparr>aw_sender = myAddress g, aw_round = 0, aw_msgs = []\<rparr>)"
    by (rule newWiw_ok [OF assms(4)])
  let ?i = "init_state g ls us h"
  have fresh: "next_id (mem g) \<notin># lk" by (rule counts_fresh [OF assms(6)])
  have len: "length ls = 16" using one(2) by (simp add: table_sizes_def)
  have all: "\<forall>l \<in> set ls. unused l"
  proof
    fix l assume "l \<in> set ls"
    then obtain j where "j < 16" "l = ls ! j" using len by (auto simp: in_set_conv_nth)
    then show "unused l" using one(3) assms(1,5) unused_init_train by (auto simp: table_sizes_def)
  qed
  show thesis
  proof (rule that [OF _ _ _ all _ _ fresh])
    show "automatonInit e g = offlineInit e ?i"
      using one(1) w(1) by (simp add: automatonInit_def nextState_def init_state_def wagon_in_def)
    have tab: "tables ?i no_held"
      using one(2,4) assms(2,3) lrep_newList
      by (auto simp: tables_def table_sizes_def init_state_def no_held_def fresh_row_def less_Suc_eq numeral_3_eq_3)
    have "building ?i lk (nat (wagonMaxLen g)) (empty_wagon (myAddress g))"
    proof (rule buildingI)
      show "counts (mem ?i) (add_mset (next_id (mem g)) lk)"
        using counts_new [OF assms(6) w(2,3,4)] by (simp add: init_state_def)
    qed (use w fresh in \<open>simp_all add: init_state_def wagon_in_def empty_wagon_def\<close>)
    moreover have "all_refs ?i [] no_held = {#}"
      using lts_refs_unused [OF all] by (simp add: all_refs_def init_state_def)
    ultimately show "consistent ?i [] no_held lk (nat (wagonMaxLen g)) (empty_wagon (myAddress g))"
      using tab all assms(4) brep_newBqueue unused_ok
      unfolding consistent_def by (simp add: init_state_def no_held_def)
    show "trains_named ?i" unfolding trains_named_def
    proof (intro allI impI)
      fix i assume "i < nat (ntr ?i)"
      then have i: "i < nat (ntr g)" "i < 16" using assms(3) by (simp_all add: init_state_def)
      then have "sint (word_of_int (int i) :: 8 word) = int i"
        by (simp add: signed_of_nat signed_take_bit_int_eq_self)
      then show "lts_type (lts ?i ! i) = TRAIN \<and> sint (stamp_id (lts_stamp (lts ?i ! i))) = int i"
        using one(3) i by (simp add: init_state_def init_train_def)
    qed
    show "\<forall>i < nat (ntr g). ls ! i = init_train (int i)" using one(3) assms(3) by auto
    show "keeps (mem g) h lk" using w(2) fresh by (auto simp: keeps_def)
  qed
qed

lemma automatonInit_too_many:
  assumes "table_sizes g" "16 < ntr g"
  shows "automatonInit e g = Inl MemFault"
proof -
  have "table_sizes (g\<lparr>lis := ntr g - 1\<rparr>)" using assms(1) by (simp add: table_sizes_def)
  from automatonInit_loop_past [OF this, of 0 "nat (ntr g)"] show ?thesis
    using assms(2) by (simp add: automatonInit_def)
qed

end
