(* ===== verification/Samples.thy ===== *)
theory Samples
  imports StartInvariant
begin

text \<open>
  A concrete process, for the instances of the properties: the member of rank 1 of a circuit
  of three processes, with one train. It holds a wagon with one message, and its buffer 1
  contains a train that brings a wagon of the process of rank 0; it is connected to its
  successor, the process of rank 2.
\<close>

definition sample_wagon :: awagon where
  "sample_wagon = \<lparr>aw_sender = 1, aw_round = 1, aw_msgs = [\<lparr>am_typ = AM_BROADCAST, am_payload = [1, 2]\<rparr>]\<rparr>"

definition sample_own :: awagon where
  "sample_own = \<lparr>aw_sender = 2, aw_round = 0, aw_msgs = [\<lparr>am_typ = AM_BROADCAST, am_payload = [7]\<rparr>]\<rparr>"

definition sample_stamp :: stamp where
  "sample_stamp = \<lparr>stamp_id = 0, stamp_lc = 1, stamp_round = 1\<rparr>"

definition sample_train :: "byte list" where
  "sample_train = enc_train sample_stamp 7 [sample_wagon]"

definition sample_heap :: heap where
  "sample_heap = \<lparr>womims = [0 \<mapsto> \<lparr>counter = 1, bytes = enc_wagon sample_own @ replicate 51 0\<rparr>,
     1 \<mapsto> \<lparr>counter = 1, bytes = sample_train\<rparr>], next_id = 2\<rparr>"

definition sample_array :: "ADDR list" where
  "sample_array = (initAddrList NP)[2 := \<lparr>ip = ''b'', chan = ''1'', tcomm0 = Some 0, tcomm1 = None, isPred0 = False, isPred1 = False\<rparr>]"

definition sample_globals :: globals where
  "sample_globals = globals0\<lparr>automatonState := SEVERAL, myAddress := 2, prec := 1, succ := 4,
     lts := replicate 16 (init_train 0), unstableWagons := replicate 16 fresh_row,
     wagonsToDeliver := Some newBqueue, wagonToSend := Some (wagon_in 0 0), wagonMaxLen := 64, mem := sample_heap,
     globalAddrArray := sample_array, comms := [0 \<mapsto> \<lparr>fd = 3, ownerMutexForSynch = None, aborted = False\<rparr>], next_comm := 1\<rparr>"

definition sample_env :: env where
  "sample_env = \<lparr>env_writev = (\<lambda>_. [(Done 1000, False)]), env_connect = (\<lambda>_ _ _. Some []), env_listen = (\<lambda>_. (Some [(Some 5, True, True)], True)),
     env_nodelay = True, env_self = 9\<rparr>"

lemma length_sample_own: "length (enc_wagon sample_own) = 13"
  by (simp add: length_enc_wagon sample_own_def length_enc_msg)

lemma length_sample_train: "length sample_train = 24"
  by (simp add: sample_train_def length_enc_train sample_wagon_def length_enc_wagon length_enc_msg)

lemma sample_counts: "counts sample_heap {#0, 1#}"
  by (auto simp: counts_def sample_heap_def)

lemma sample_tables: "tables sample_globals no_held"
  using lrep_newList
  by (auto simp: tables_def sample_globals_def globals0_def no_held_def fresh_row_def less_Suc_eq numeral_3_eq_3)

lemma sample_unused: "\<forall>l \<in> set (lts sample_globals). unused l"
  by (simp add: sample_globals_def unused_init_train)

lemma sample_consistent: "consistent sample_globals [] no_held {#1#} 64 sample_own"
proof -
  have "building sample_globals {#1#} 64 sample_own"
    by (rule buildingI [of _ 0 "\<lparr>counter = 1, bytes = enc_wagon sample_own @ replicate 51 0\<rparr>"])
      (use sample_counts in \<open>simp_all add: sample_globals_def wagon_in_def sample_heap_def length_sample_own holds_append_buf holds_whole add_mset_commute\<close>)
  moreover have "all_refs sample_globals [] no_held = {#}"
    using lts_refs_unused [OF sample_unused] by (simp add: all_refs_def)
  moreover have "wagonsToDeliver sample_globals = Some newBqueue" "wagonMaxLen sample_globals = 64"
    by (simp_all add: sample_globals_def)
  ultimately show ?thesis
    using sample_tables sample_unused brep_newBqueue unused_ok
    unfolding consistent_def by (simp add: no_held_def)
qed

lemma sample_train_in: "train_in sample_globals 1 sample_stamp 7 [sample_wagon] 0"
proof -
  have "womims (mem sample_globals) 1 = Some \<lparr>counter = 1, bytes = sample_train\<rparr>"
    by (simp add: sample_globals_def sample_heap_def)
  moreover have "holds sample_train 0 (enc_train sample_stamp 7 [sample_wagon])"
    using holds_whole [of sample_train] by (simp add: sample_train_def)
  ultimately show ?thesis
    unfolding train_in_def
    by (auto simp: length_sample_train sample_stamp_def sample_wagon_def readable_def AM_defs sample_globals_def globals0_def)
qed

lemma sample_named: "trains_named sample_globals"
  by (simp add: trains_named_def sample_globals_def globals0_def init_train_def)

lemma sample_recent: "isRecentTrain (ntr sample_globals) sample_stamp (lts sample_globals) (word_of_int (lis sample_globals)) = Inr True"
  by (simp add: sample_globals_def globals0_def isRecentTrain_def init_train_def sample_stamp_def c_mod_def c_div_def M_lc_def nthE_def)

lemma sample_succ: "getTComm (addrToRank (succ sample_globals)) False (globalAddrArray sample_globals) = Inr (Some 0)"
proof -
  have "addrToRank (4 :: address) = 2" using addrToRank_rankToAddr [of 2] by (simp add: rankToAddr_def)
  then show ?thesis by (simp add: sample_globals_def sample_array_def initAddrList_def NP_def getTComm_def nthE_def)
qed

lemma sample_room: "depart_room sample_globals 0 sample_own"
  by (simp add: depart_room_def announce_room_def sample_globals_def globals0_def members_of_def)

lemma sample_circuit: "new_circuit sample_globals 0 7 = 7"
  by (simp add: new_circuit_def addrUpdateCircuit_def sample_globals_def globals0_def)

lemma sample_announced: "announced sample_globals 0 7 sample_own = sample_own"
  by (simp add: announced_def add_announcements_def sample_globals_def globals0_def members_of_def)

lemma sample_goes_on: "goes_on sample_globals 0 7 sample_wagon"
  by (simp only: goes_on_def sample_circuit)
    (simp add: is_resent_def is_kept_def addrIsMember_def sample_wagon_def sample_globals_def globals0_def)

lemma sample_contiguous: "contiguous (goes_on sample_globals 0 7) [sample_wagon]"
  unfolding contiguous_def using sample_goes_on by (intro exI [of _ "[]"] exI [of _ "[sample_wagon]"]) simp

lemma length_sample_out: "length (train_out sample_globals 0 sample_stamp 7 [sample_wagon] sample_own) = 37"
  using sample_goes_on
  by (simp add: train_out_def Let_def length_enc_train enc_wagons_append sample_announced own_of_def length_sample_own)
    (simp add: sample_own_def sample_wagon_def length_enc_wagon length_enc_msg with_round_def)

lemma sample_write: "n \<le> 1000 \<Longrightarrow> takes_write sample_env sample_globals 0 n"
  by (simp add: takes_write_def sample_env_def sample_globals_def)

end
