(* ===== verification/NetworkProperties.thy ===== *)
theory NetworkProperties
  imports Samples
begin

text \<open>
  What the application's side and the network's side promise: room for the messages of the
  application, the calls back, messages and trains from one process to another, connections
  that are lost, the search for a successor.
\<close>

section \<open>Messages of the application\<close>

text \<open>C23: \<^verbatim>\<open>newmsg\<close> makes the thread wait, and counts it, exactly when the wagon has a message
  already and no room for this one. Otherwise it returns the end of the wagon, and once the
  payload has been written there the wagon is the former one with this message at its end,
  every other buffer is as before, and the reference counts are exact.\<close>

theorem newmsg_flow:
  assumes "building g refs cap wg" "0 \<le> wagonMaxLen g" "wagonMaxLen g < 2 ^ 31"
    and "length (enc_wagon wg) + 5 + n < 2 ^ 31"
  shows "(if wagonMaxLen g < int (length (enc_wagon wg) + 5 + n) \<and> aw_msgs wg \<noteq> []
    then newmsg (int n) g = Inr (None, g\<lparr>counters := (counters g)\<lparr>newmsg_calls := newmsg_calls (counters g) + 1,
           flowControl := flowControl (counters g) + 1\<rparr>\<rparr>)
    else length (enc_wagon wg) + 5 + n \<le> cap \<or> wagonMaxLen g < int n \<longrightarrow>
      (\<exists>g'. newmsg (int n) g = Inr (Some (int (length (enc_wagon wg))), g') \<and>
         (\<forall>pl. length pl = n \<longrightarrow> (\<exists>h. write_wts (\<lambda>b. wr b (int (length (enc_wagon wg)) + 5) pl) g' = Inr (g'\<lparr>mem := h\<rparr>) \<and>
            building (g'\<lparr>mem := h\<rparr>) refs (if wagonMaxLen g < int n then length (enc_wagon wg) + 5 + n else cap)
              (add_msg \<lparr>am_typ = AM_BROADCAST, am_payload = pl\<rparr> wg) \<and>
            (\<forall>b \<in># refs. womims h b = womims (mem g) b)))))"
proof (cases "wagonMaxLen g < int (length (enc_wagon wg) + 5 + n) \<and> aw_msgs wg \<noteq> []")
  case True
  then show ?thesis
    using newmsg_waits [OF assms(1), of n] assms(2-4) by simp
next
  case False
  then have room: "int (length (enc_wagon wg) + 5 + n) \<le> wagonMaxLen g \<or> aw_msgs wg = []" by linarith
  show ?thesis
    unfolding if_not_P [OF False]
  proof
    assume fits: "length (enc_wagon wg) + 5 + n \<le> cap \<or> wagonMaxLen g < int n"
    show "\<exists>g'. newmsg (int n) g = Inr (Some (int (length (enc_wagon wg))), g') \<and>
         (\<forall>pl. length pl = n \<longrightarrow> (\<exists>h. write_wts (\<lambda>b. wr b (int (length (enc_wagon wg)) + 5) pl) g' = Inr (g'\<lparr>mem := h\<rparr>) \<and>
            building (g'\<lparr>mem := h\<rparr>) refs (if wagonMaxLen g < int n then length (enc_wagon wg) + 5 + n else cap)
              (add_msg \<lparr>am_typ = AM_BROADCAST, am_payload = pl\<rparr> wg) \<and>
            (\<forall>b \<in># refs. womims h b = womims (mem g) b)))"
      by (rule newmsg_ok [OF assms(1-3) room fits assms(4)]) blast
  qed
qed

theorem newmsg_flow_witness:
  "newmsg 60 sample_globals = Inr (None, sample_globals\<lparr>counters := counters0\<lparr>newmsg_calls := 1, flowControl := 1\<rparr>\<rparr>) \<and>
   (\<exists>g'. newmsg 40 sample_globals = Inr (Some 13, g') \<and>
     (\<forall>pl. length pl = 40 \<longrightarrow> (\<exists>h. write_wts (\<lambda>b. wr b 18 pl) g' = Inr (g'\<lparr>mem := h\<rparr>) \<and>
        building (g'\<lparr>mem := h\<rparr>) {#1#} 64 (add_msg \<lparr>am_typ = AM_BROADCAST, am_payload = pl\<rparr> sample_own) \<and>
        (\<forall>b \<in># {#1#}. womims h b = womims sample_heap b))))"
proof -
  have b: "building sample_globals {#1#} 64 sample_own"
    using sample_consistent lts_refs_unused [OF sample_unused] by (simp add: consistent_def all_refs_def)
  have s: "wagonMaxLen sample_globals = 64" "counters sample_globals = counters0" "mem sample_globals = sample_heap"
    "counters0\<lparr>newmsg_calls := 1, flowControl := 1\<rparr> = counters0\<lparr>newmsg_calls := newmsg_calls counters0 + 1, flowControl := flowControl counters0 + 1\<rparr>"
    "aw_msgs sample_own \<noteq> []"
    by (simp_all add: sample_globals_def globals0_def counters0_def sample_own_def)
  show ?thesis
    using newmsg_flow [OF b, of 60] newmsg_flow [OF b, of 40] by (simp add: s length_sample_own)
qed

text \<open>C33: the test that reallocates the wagon for a long message ignores the 12 bytes of the two
  headers: for a payload of the length of the wagon, or up to 11 bytes less, in an empty
  wagon, \<^verbatim>\<open>newmsg\<close> gives a message whose last byte is past the end of the buffer.\<close>

theorem newmsg_past_end:
  assumes "building g refs cap wg" "wagonMaxLen g = int cap" "cap < 2 ^ 30" "aw_msgs wg = []"
    "n \<le> cap" "cap < n + 12" "12 \<le> cap"
  shows "\<exists>g'. newmsg (int n) g = Inr (Some 7, g') \<and> write_wts (\<lambda>b. wr b (7 + 5 + int n - 1) [x]) g' = Inl MemFault"
  by (rule newmsg_overflow [OF assms])

definition empty_globals :: globals where
  "empty_globals = sample_globals\<lparr>mem := \<lparr>womims = [0 \<mapsto> \<lparr>counter = 1, bytes = enc_wagon (empty_wagon 2) @ replicate 57 0\<rparr>], next_id = 1\<rparr>\<rparr>"

lemma empty_building: "building empty_globals {#} 64 (empty_wagon 2)"
proof (rule buildingI [of _ 0 "\<lparr>counter = 1, bytes = enc_wagon (empty_wagon 2) @ replicate 57 0\<rparr>"])
  show "counts (mem empty_globals) (add_mset 0 {#})"
    by (auto simp: counts_def empty_globals_def)
qed (simp_all add: empty_globals_def sample_globals_def wagon_in_def empty_wagon_def length_enc_wagon holds_append_buf holds_whole)

theorem newmsg_past_end_witness:
  "\<exists>g'. newmsg 55 empty_globals = Inr (Some 7, g') \<and> write_wts (\<lambda>b. wr b (7 + 5 + 55 - 1) [9]) g' = Inl MemFault"
  using newmsg_past_end [OF empty_building, of 55 9]
  by (simp add: empty_globals_def sample_globals_def empty_wagon_def)

section \<open>Announcements and deliveries\<close>

lemma upcalls_announcement:
  "upcalls s (announcement AM_DEPARTURE ad c) = [CircuitChange ((view_of c)\<lparr>cv_departed := ad\<rparr>)]"
  "upcalls s (announcement AM_ARRIVAL ad c) = [CircuitChange ((view_of c)\<lparr>cv_joined := ad\<rparr>)]"
  by (simp_all add: upcalls_def announcement_def AM_defs of_to_bytes)

lemma map_upcalls_departures:
  "concat (map (upcalls s) (map (\<lambda>ad. announcement AM_DEPARTURE ad c) ads)) =
     map (\<lambda>ad. CircuitChange ((view_of c)\<lparr>cv_departed := ad\<rparr>)) ads"
  by (induction ads) (simp_all add: upcalls_announcement)

text \<open>C32: the departure of a set of processes puts one message per member at the end of the
  wagon, by increasing rank, and each becomes for the application a change of circuit that
  names the process and the members left. Each message must find 9 bytes left, or less than
  4: the test of the code is on the 4 bytes of the payload only.\<close>

theorem departures_announced:
  assumes "building g refs cap wg" "wagonMaxLen g \<le> int cap" "4 \<le> wagonMaxLen g"
    "announce_room (wagonMaxLen g) (length (enc_wagon wg)) (length (members_of gone))"
    "length (enc_wagon wg) + 9 * length (members_of gone) < 2 ^ 31"
  shows "\<exists>wts h cap' ms. signalDepartures gone circuit g = Inr (g\<lparr>wagonToSend := wts, mem := h\<rparr>) \<and>
     building (g\<lparr>wagonToSend := wts, mem := h\<rparr>) refs cap' (wg\<lparr>aw_msgs := aw_msgs wg @ ms\<rparr>) \<and>
     concat (map (upcalls s) ms) =
       map (\<lambda>ad. CircuitChange ((view_of (circuit AND NOT gone))\<lparr>cv_departed := ad\<rparr>)) (members_of gone) \<and>
     (\<forall>b \<in># refs. womims h b = womims (mem g) b)"
proof -
  obtain wts h cap' where "signalDepartures gone circuit g = Inr (g\<lparr>wagonToSend := wts, mem := h\<rparr>)"
    "building (g\<lparr>wagonToSend := wts, mem := h\<rparr>) refs cap'
       (add_announcements AM_DEPARTURE (circuit AND NOT gone) (members_of gone) wg)"
    "\<forall>b \<in># refs. womims h b = womims (mem g) b"
    unfolding signalDepartures_fold
    using announcements_ok [OF assms, of AM_DEPARTURE "circuit AND NOT gone"] by blast
  then show ?thesis
    unfolding add_announcements_def
    by (intro exI [of _ wts] exI [of _ h] exI [of _ cap']
        exI [of _ "map (\<lambda>ad. announcement AM_DEPARTURE ad (circuit AND NOT gone)) (members_of gone)"])
      (simp add: map_upcalls_departures del: map_map)
qed

lemma members_of_6: "members_of 6 = [2, 4]"
  by code_simp

theorem departures_announced_witness:
  "\<exists>wts h cap' ms. signalDepartures 6 7 empty_globals = Inr (empty_globals\<lparr>wagonToSend := wts, mem := h\<rparr>) \<and>
     building (empty_globals\<lparr>wagonToSend := wts, mem := h\<rparr>) {#} cap' ((empty_wagon 2)\<lparr>aw_msgs := aw_msgs (empty_wagon 2) @ ms\<rparr>) \<and>
     concat (map (upcalls 2) ms) =
       map (\<lambda>ad. CircuitChange ((view_of (7 AND NOT 6))\<lparr>cv_departed := ad\<rparr>)) (members_of 6) \<and>
     (\<forall>b \<in># {#}. womims h b = womims (mem empty_globals) b)"
proof (rule departures_announced [OF empty_building])
  show "announce_room (wagonMaxLen empty_globals) (length (enc_wagon (empty_wagon 2))) (length (members_of 6))"
    by (simp add: announce_room_def upt_rec numeral_eq_Suc members_of_6 empty_globals_def sample_globals_def empty_wagon_def length_enc_wagon)
qed (simp_all add: members_of_6 empty_globals_def sample_globals_def empty_wagon_def length_enc_wagon)

text \<open>The wagons of the queue are delivered one turn each.\<close>

lemma utoDeliveries_all:
  assumes "to_deliver g wis wgs" "counts (mem g) (refs + mset (map wagon_ref wis))"
    "\<forall>wg \<in> set wgs. \<forall>m \<in> set (aw_msgs wg). am_typ m \<noteq> AM_TERMINATE"
  shows "\<exists>g'. utoDeliveries (length wgs) g = Inr (False, g') \<and> to_deliver g' [] [] \<and> counts (mem g') refs \<and>
    trace g' = trace g @ concat (map (\<lambda>wg. concat (map (upcalls (aw_sender wg)) (aw_msgs wg))) wgs) \<and>
    messages_delivered (counters g') = messages_delivered (counters g) + word_of_nat (length (concat (map aw_msgs wgs)))"
  using assms
proof (induction wgs arbitrary: g wis)
  case Nil
  then have "wis = []" by (simp add: to_deliver_def)
  with Nil show ?case by simp
next
  case (Cons wg wgs)
  then obtain wi wis' where wis: "wis = wi # wis'"
    by (cases wis) (auto simp: to_deliver_def)
  have no: "\<not> (\<exists>m \<in> set (aw_msgs wg). am_typ m = AM_TERMINATE)" using Cons.prems(3) by auto
  obtain q h where one: "utoDeliveries_turn False g = Inr (\<exists>m \<in> set (aw_msgs wg). am_typ m = AM_TERMINATE,
      g\<lparr>wagonsToDeliver := Some q, mem := h,
        counters := (counters g)\<lparr>wagons_delivered := wagons_delivered (counters g) + 1,
          messages_delivered := messages_delivered (counters g) + word_of_nat (length (aw_msgs wg)),
          messages_bytes_delivered := messages_bytes_delivered (counters g) +
            word_of_nat (sum_list (map (length \<circ> am_payload) (aw_msgs wg)))\<rparr>,
        trace := trace g @ concat (map (upcalls (aw_sender wg)) (aw_msgs wg))\<rparr>)"
    "brep q wis' 0" "counts h (refs + mset (map wagon_ref wis'))" "list_all2 (wagon_at h) wis' wgs"
    by (rule utoDeliveries_turn_ok [OF Cons.prems(1,2) [unfolded wis]]) (rule that)
  let ?g = "g\<lparr>wagonsToDeliver := Some q, mem := h,
        counters := (counters g)\<lparr>wagons_delivered := wagons_delivered (counters g) + 1,
          messages_delivered := messages_delivered (counters g) + word_of_nat (length (aw_msgs wg)),
          messages_bytes_delivered := messages_bytes_delivered (counters g) +
            word_of_nat (sum_list (map (length \<circ> am_payload) (aw_msgs wg)))\<rparr>,
        trace := trace g @ concat (map (upcalls (aw_sender wg)) (aw_msgs wg))\<rparr>"
  have "to_deliver ?g wis' wgs" using one(2,4) by (simp add: to_deliver_def)
  moreover have "counts (mem ?g) (refs + mset (map wagon_ref wis'))" using one(3) by simp
  ultimately obtain g' where ih: "utoDeliveries (length wgs) ?g = Inr (False, g')" "to_deliver g' [] []" "counts (mem g') refs"
    "trace g' = trace ?g @ concat (map (\<lambda>wg. concat (map (upcalls (aw_sender wg)) (aw_msgs wg))) wgs)"
    "messages_delivered (counters g') = messages_delivered (counters ?g) + word_of_nat (length (concat (map aw_msgs wgs)))"
    using Cons.IH [of ?g wis'] Cons.prems(3) by auto
  have "utoDeliveries (length (wg # wgs)) g = Inr (False, g')"
    using one(1) no ih(1) by simp
  with ih show ?case by (intro exI [of _ g']) (simp add: add_ac)
qed

text \<open>C22: the delivering thread makes the calls back of the messages of the wagons in the queue,
  wagon after wagon and message after message in the order of the queue, each once, and gives
  up the buffer of each wagon once: after as many turns as there are wagons the queue is
  empty and the remaining references are those the rest of the program holds.\<close>

theorem deliveries_in_order:
  assumes "to_deliver g wis wgs" "counts (mem g) (refs + mset (map wagon_ref wis))"
    "\<forall>wg \<in> set wgs. \<forall>m \<in> set (aw_msgs wg). am_typ m \<noteq> AM_TERMINATE"
  shows "\<exists>g'. utoDeliveries (length wgs) g = Inr (False, g') \<and> to_deliver g' [] [] \<and> counts (mem g') refs \<and>
    trace g' = trace g @ concat (map (\<lambda>wg. concat (map (upcalls (aw_sender wg)) (aw_msgs wg))) wgs) \<and>
    messages_delivered (counters g') = messages_delivered (counters g) + word_of_nat (length (concat (map aw_msgs wgs)))"
  by (rule utoDeliveries_all [OF assms])

lemma sample_wagon_at: "wagon_at (mem sample_globals) (wagon_in 1 10) sample_wagon"
proof -
  have h: "holds sample_train 10 (enc_wagon sample_wagon)"
    using holds_enc_train(5) [of sample_train sample_stamp 7 "[sample_wagon]"] holds_whole [of sample_train]
    by (simp add: sample_train_def)
  then show ?thesis
    by (auto simp: wagon_at_def wagon_in_def sample_globals_def sample_heap_def sample_wagon_def readable_def AM_defs
        length_enc_wagon length_enc_msg)
qed

theorem deliveries_in_order_witness:
  "\<exists>q g'. brep q [wagon_in 1 10] 0 \<and> utoDeliveries 1 (sample_globals\<lparr>wagonsToDeliver := Some q\<rparr>) = Inr (False, g') \<and>
     to_deliver g' [] [] \<and> counts (mem g') {#0#} \<and>
     trace g' = [UtoDeliver 1 (enc_msg \<lparr>am_typ = AM_BROADCAST, am_payload = [1, 2]\<rparr>)] \<and> messages_delivered (counters g') = 1"
proof -
  obtain q where q: "brep q [wagon_in 1 10] 0"
    using brep_enqueue [OF brep_newBqueue, of "wagon_in 1 10"] by auto
  let ?g = "sample_globals\<lparr>wagonsToDeliver := Some q\<rparr>"
  have d: "to_deliver ?g [wagon_in 1 10] [sample_wagon]"
    using q sample_wagon_at by (simp add: to_deliver_def)
  have c: "counts (mem ?g) ({#0#} + mset (map wagon_ref [wagon_in 1 10]))"
    using sample_counts by (simp add: sample_globals_def wagon_ref_def wagon_in_def add_mset_commute)
  have n: "\<forall>wg \<in> set [sample_wagon]. \<forall>m \<in> set (aw_msgs wg). am_typ m \<noteq> AM_TERMINATE"
    by (simp add: sample_wagon_def AM_defs)
  have s: "trace ?g = []" "messages_delivered (counters ?g) = 0"
    "concat (map (\<lambda>wg. concat (map (upcalls (aw_sender wg)) (aw_msgs wg))) [sample_wagon]) =
       [UtoDeliver 1 (enc_msg \<lparr>am_typ = AM_BROADCAST, am_payload = [1, 2]\<rparr>)]"
    "length (concat (map aw_msgs [sample_wagon])) = 1"
    by (simp_all add: sample_globals_def globals0_def counters0_def upcalls_def sample_wagon_def)
  from deliveries_in_order [OF d c n] q show ?thesis unfolding s by auto
qed

section \<open>From one process to another\<close>

text \<open>A socket that has some bytes to give, however it cuts and interrupts the reads.\<close>

definition gives :: "globals \<Rightarrow> nat \<Rightarrow> inbound \<Rightarrow> byte list \<Rightarrow> bool" where
  "gives g c inb bs \<longleftrightarrow> (\<exists>cm. comms g c = Some cm \<and> \<not> aborted cm) \<and> calm (reads inb) \<and>
     (\<exists>rest. stream inb = bs @ rest) \<and> length bs < grants (reads inb)"

lemma takes_writeE:
  assumes "takes_write e g c n" "length (concat iov) = n"
  obtains cnt where "writev_comm e c iov g = Inr (int n,
     (emit (Wrote c (concat iov)) g)\<lparr>counters := cnt, writes_done := Suc (writes_done g)\<rparr>)"
proof -
  from assms(1) obtain cm k sc where "comms g c = Some cm" "\<not> aborted cm"
    "env_writev e (writes_done g) = (Done k, False) # sc" "n \<le> k"
    by (auto simp: takes_write_def)
  with writev_comm_all [of g c cm e k sc iov] assms(2) show thesis by (auto intro: that)
qed

text \<open>C20: a train that one process sends, of the wagons kept from the last train and its own
  wagon, is written in one call, as the header with the stamp and the circuit followed by
  the wagons; another process whose socket gives these bytes gets a new buffer that holds
  the same train, with its counter at 1.\<close>

theorem train_hop:
  assumes "addr \<noteq> 0" "getTComm (addrToRank addr) b (globalAddrArray g) = Inr (Some c)"
    and "lts_type l = TRAIN" "region (mem g) l ws" "own_wagon (mem g) l ws'"
    and "length (enc_train (lts_stamp l) (lts_circuit l) (ws @ ws')) < 2 ^ 31"
    and "takes_write e g c (length (enc_train (lts_stamp l) (lts_circuit l) (ws @ ws')))"
    and "gives g2 c2 inb (enc_train (lts_stamp l) (lts_circuit l) (ws @ ws'))"
  shows "(\<exists>nb g'. sendTrain e addr b l g = Inr (nb, g') \<and>
      trace g' = trace g @ [Wrote c (enc_train (lts_stamp l) (lts_circuit l) (ws @ ws'))] \<and> mem g' = mem g) \<and>
    (\<exists>inb' g2'. receive self c2 inb g2 = Inr (Some (next_id (mem g2)), inb', g2') \<and>
      womims (mem g2') = (womims (mem g2))(next_id (mem g2) \<mapsto>
        \<lparr>counter = 1, bytes = enc_train (lts_stamp l) (lts_circuit l) (ws @ ws')\<rparr>) \<and>
      stream inb = enc_train (lts_stamp l) (lts_circuit l) (ws @ ws') @ stream inb')"
proof
  have r: "addrToRank addr \<noteq> - 1" using assms(1) by simp
  obtain iov where iov: "sendTrain e addr b l g = writev_comm e c iov g"
    "concat iov = enc_train (lts_stamp l) (lts_circuit l) (ws @ ws')"
    by (rule sendTrain_bytes [OF r assms(2-6)])
  obtain cnt where "writev_comm e c iov g = Inr (int (length (enc_train (lts_stamp l) (lts_circuit l) (ws @ ws'))),
     (emit (Wrote c (concat iov)) g)\<lparr>counters := cnt, writes_done := Suc (writes_done g)\<rparr>)"
    by (rule takes_writeE [OF assms(7), of iov]) (simp_all add: iov(2))
  then show "\<exists>nb g'. sendTrain e addr b l g = Inr (nb, g') \<and>
      trace g' = trace g @ [Wrote c (enc_train (lts_stamp l) (lts_circuit l) (ws @ ws'))] \<and> mem g' = mem g"
    unfolding iov(1) by (simp add: iov(2) emit_def)
  from assms(8) obtain cm rest where g2: "comms g2 c2 = Some cm" "\<not> aborted cm" "calm (reads inb)"
    "stream inb = enc_train (lts_stamp l) (lts_circuit l) (ws @ ws') @ rest"
    "length (enc_train (lts_stamp l) (lts_circuit l) (ws @ ws')) \<le> grants (reads inb)"
    by (auto simp: gives_def)
  obtain cm' inb' cnt h where rc:
    "receive self c2 inb g2 = Inr (Some (next_id (mem g2)), inb', (set_comm c2 (Some cm') g2)\<lparr>counters := cnt, mem := h\<rparr>)"
    "stream inb' = rest"
    "womims h = (womims (mem g2))(next_id (mem g2) \<mapsto> \<lparr>counter = 1, bytes = enc_train (lts_stamp l) (lts_circuit l) (ws @ ws')\<rparr>)"
    by (rule receive_train [OF g2(1-3) assms(6) g2(4,5)])
  then show "\<exists>inb' g2'. receive self c2 inb g2 = Inr (Some (next_id (mem g2)), inb', g2') \<and>
      womims (mem g2') = (womims (mem g2))(next_id (mem g2) \<mapsto>
        \<lparr>counter = 1, bytes = enc_train (lts_stamp l) (lts_circuit l) (ws @ ws')\<rparr>) \<and>
      stream inb = enc_train (lts_stamp l) (lts_circuit l) (ws @ ws') @ stream inb'"
    using g2(4) by (intro exI conjI) (assumption | simp)+
qed

definition sample_last :: ltsStruct where
  "sample_last = (init_train 0)\<lparr>lts_stamp := sample_stamp, lts_circuit := 7, lts_w := wagon_in 1 10, lts_wlen := c_int 14\<rparr>"

definition sample_inbound :: "byte list \<Rightarrow> inbound" where
  "sample_inbound bs = \<lparr>stream = bs, reads = replicate 100 (Done 4, False)\<rparr>"

lemma sample_gives: "length bs < 100 \<Longrightarrow> gives sample_globals 0 (sample_inbound bs) bs"
  by (simp add: gives_def sample_inbound_def sample_globals_def calm_def grants_def list_all_iff)

theorem train_hop_witness:
  "(\<exists>nb g'. sendTrain sample_env 4 False sample_last sample_globals = Inr (nb, g') \<and>
      trace g' = [Wrote 0 sample_train] \<and> mem g' = sample_heap) \<and>
   (\<exists>inb' g2'. receive 9 0 (sample_inbound sample_train) sample_globals = Inr (Some 2, inb', g2') \<and>
      womims (mem g2') = (womims sample_heap)(2 \<mapsto> \<lparr>counter = 1, bytes = sample_train\<rparr>) \<and> stream inb' = [])"
proof -
  have t: "sample_train = enc_train (lts_stamp sample_last) (lts_circuit sample_last) ([sample_wagon] @ [])"
    by (simp add: sample_train_def sample_last_def)
  have h: "holds sample_train 10 (enc_wagon sample_wagon)"
    using holds_enc_train(5) [of sample_train sample_stamp 7 "[sample_wagon]"] holds_whole [of sample_train]
    by (simp add: sample_train_def)
  have r: "region (mem sample_globals) sample_last [sample_wagon]" "own_wagon (mem sample_globals) sample_last []"
    using h by (simp_all add: region_def own_wagon_def sample_last_def wagon_in_def sample_globals_def sample_heap_def
        init_train_def sample_wagon_def length_enc_wagon length_enc_msg)
  have s: "getTComm (addrToRank 4) False (globalAddrArray sample_globals) = Inr (Some 0)"
    using sample_succ by (simp add: sample_globals_def)
  have m: "mem sample_globals = sample_heap" "trace sample_globals = []" "next_id sample_heap = 2"
    "stream (sample_inbound sample_train) = sample_train" "lts_type sample_last = TRAIN"
    by (simp_all add: sample_globals_def globals0_def sample_heap_def sample_inbound_def sample_last_def init_train_def)
  have len: "length (enc_train (lts_stamp sample_last) (lts_circuit sample_last) ([sample_wagon] @ [])) = 24"
    using length_sample_train by (simp only: t)
  have small: "length (enc_train (lts_stamp sample_last) (lts_circuit sample_last) ([sample_wagon] @ [])) < 2 ^ 31"
    by (simp only: len) simp
  have w: "takes_write sample_env sample_globals 0 (length (enc_train (lts_stamp sample_last) (lts_circuit sample_last) ([sample_wagon] @ [])))"
    by (rule sample_write, unfold len) simp
  have gv: "gives sample_globals 0 (sample_inbound sample_train) (enc_train (lts_stamp sample_last) (lts_circuit sample_last) ([sample_wagon] @ []))"
    unfolding t [symmetric] by (rule sample_gives) (simp add: length_sample_train)
  show ?thesis
    using train_hop [OF _ s m(5) r small w gv, of 9] unfolding t [symmetric] by (simp add: m)
qed

text \<open>C34: a control message (\<^verbatim>\<open>INSERT\<close>, \<^verbatim>\<open>ACK_INSERT\<close>, \<^verbatim>\<open>NAK_INSERT\<close>, \<^verbatim>\<open>NEWSUCC\<close> or a
  disconnection) is sent as 7 bytes from which the automaton of the receiver reads the type
  and the sender that were given to \<^verbatim>\<open>sendOther\<close>; a train is refused.\<close>

theorem control_hop:
  assumes "typ \<in> set ctrl_types" "addr \<noteq> 0" "getTComm (addrToRank addr) b (globalAddrArray g) = Inr (Some c)"
    and "takes_write e g c 7" "gives g2 c2 inb (ctrl_bytes typ sender)"
  shows "(\<exists>nb g'. sendOther e addr b typ sender g = Inr (nb, g') \<and>
      trace g' = trace g @ [Wrote c (ctrl_bytes typ sender)] \<and> mem g' = mem g) \<and>
    (\<exists>inb' g2'. receive self c2 inb g2 = Inr (Some (next_id (mem g2)), inb', g2') \<and>
      msg_at (next_id (mem g2)) g2' msg_type = Inr typ \<and> msg_at (next_id (mem g2)) g2' msg_sender = Inr sender) \<and>
    sendOther e addr b TRAIN sender g = Inl (ExitFailure ''Wrong MType given to sendOther'')"
proof (intro conjI)
  have r: "addrToRank addr \<noteq> - 1" using assms(2) by simp
  obtain cnt where "writev_comm e c [ctrl_bytes typ sender] g = Inr (int 7,
     (emit (Wrote c (concat [ctrl_bytes typ sender])) g)\<lparr>counters := cnt, writes_done := Suc (writes_done g)\<rparr>)"
    by (rule takes_writeE [OF assms(4), of "[ctrl_bytes typ sender]"]) simp_all
  then show "\<exists>nb g'. sendOther e addr b typ sender g = Inr (nb, g') \<and>
      trace g' = trace g @ [Wrote c (ctrl_bytes typ sender)] \<and> mem g' = mem g"
    by (simp add: sendOther_bytes [OF assms(1) r] assms(3) emit_def)
  from assms(5) obtain cm rest where g2: "comms g2 c2 = Some cm" "\<not> aborted cm" "calm (reads inb)"
    "stream inb = ctrl_bytes typ sender @ rest" "7 \<le> grants (reads inb)"
    by (auto simp: gives_def)
  obtain cm' inb' cnt h where rc:
    "receive self c2 inb g2 = Inr (Some (next_id (mem g2)), inb', (set_comm c2 (Some cm') g2)\<lparr>counters := cnt, mem := h\<rparr>)"
    "womims h = (womims (mem g2))(next_id (mem g2) \<mapsto> \<lparr>counter = 1, bytes = ctrl_bytes typ sender\<rparr>)"
    by (rule receive_ctrl [OF g2])
  then show "\<exists>inb' g2'. receive self c2 inb g2 = Inr (Some (next_id (mem g2)), inb', g2') \<and>
      msg_at (next_id (mem g2)) g2' msg_type = Inr typ \<and> msg_at (next_id (mem g2)) g2' msg_sender = Inr sender"
    using ctrl_bytes_read [of "typ" sender "[]"]
    by (intro exI conjI) (assumption | simp add: msg_at_def get_womim_def)+
  show "sendOther e addr b TRAIN sender g = Inl (ExitFailure ''Wrong MType given to sendOther'')"
    by (simp add: sendOther_def)
qed

theorem control_hop_witness:
  "(\<exists>nb g'. sendOther sample_env 4 False INSERT 2 sample_globals = Inr (nb, g') \<and>
      trace g' = [Wrote 0 (ctrl_bytes INSERT 2)] \<and> mem g' = mem sample_globals) \<and>
   (\<exists>inb' g2'. receive 9 0 (sample_inbound (ctrl_bytes INSERT 2)) sample_globals = Inr (Some 2, inb', g2') \<and>
      msg_at 2 g2' msg_type = Inr INSERT \<and> msg_at 2 g2' msg_sender = Inr 2) \<and>
   sendOther sample_env 4 False TRAIN 2 sample_globals = Inl (ExitFailure ''Wrong MType given to sendOther'')"
proof -
  have s: "getTComm (addrToRank 4) False (globalAddrArray sample_globals) = Inr (Some 0)"
    using sample_succ by (simp add: sample_globals_def)
  have m: "trace sample_globals = []" "next_id (mem sample_globals) = 2" "INSERT \<in> set ctrl_types"
    by (simp_all add: sample_globals_def globals0_def sample_heap_def ctrl_types_def)
  show ?thesis
    using control_hop [OF m(3) _ s sample_write sample_gives, of 2 9] by (simp add: m)
qed

section \<open>Connections that are lost\<close>

text \<open>C21: the messages a peer sends before it closes the connection are handed to the thread that
  treats them in the order they were sent, each in a buffer of its own with its bytes, then
  the message that says that the predecessor, or the successor, of this rank is lost; the
  reading thread then ends, with the connection closed and its handle freed.\<close>

theorem stream_of_messages:
  assumes "comms g c = Some cm" "\<not> aborted cm" "calm (reads inb)" "stream inb = concat ms"
    "\<forall>m \<in> set ms. framed m" "length (concat ms) < grants (reads inb)"
    "searchTComm (Some c) (globalAddrArray g) = Inr (j, Some p)" "0 \<le> j" "j < 16"
    "getTComm j p (globalAddrArray g) = Inr (Some c)" "brep q xs 0" "length ms < n"
  shows "\<exists>q' inb' g'. connectionMgt n self c (q, inb, g) = Inr (q', inb', g') \<and>
    brep q' (xs @ [next_id (mem g)..<Suc (next_id (mem g) + length ms)]) 0 \<and>
    (\<forall>i < length ms. womims (mem g') (next_id (mem g) + i) = Some \<lparr>counter = 1, bytes = ms ! i\<rparr>) \<and>
    womims (mem g') (next_id (mem g) + length ms) = Some \<lparr>counter = 1,
      bytes = ctrl_bytes (if p then DISCONNECT_PRED else DISCONNECT_SUCC) (rankToAddr j) @ replicate 6 0\<rparr> \<and>
    (\<forall>b < next_id (mem g). womims (mem g') b = womims (mem g) b) \<and>
    trace g' = trace g @ [Closed c] \<and> comms g' c = None"
  by (rule connectionMgt_stream [OF assms])

lemma sample_framed: "framed sample_train"
  using length_sample_train enc_train_prefix [of sample_stamp 7 "[sample_wagon]"]
  by (simp add: framed_def sample_train_def nth_append MType_defs)

lemma sample_prefix: "sample_train = to_bytes 4 (c_int (length sample_train)) @ drop 4 sample_train"
  using sample_framed append_take_drop_id [of 4 sample_train] by (simp add: framed_def)

lemma sample_search: "searchTComm (Some 0) sample_array = Inr (2, Some False)"
  by code_simp

lemma sample_get: "getTComm 2 False sample_array = Inr (Some 0)"
  by code_simp

theorem stream_of_messages_witness:
  "\<exists>q' inb' g'. connectionMgt 3 9 0 (newBqueue, sample_inbound (sample_train @ ctrl_bytes INSERT 2), sample_globals) = Inr (q', inb', g') \<and>
    brep q' [2, 3, 4] 0 \<and>
    womims (mem g') 2 = Some \<lparr>counter = 1, bytes = sample_train\<rparr> \<and>
    womims (mem g') 3 = Some \<lparr>counter = 1, bytes = ctrl_bytes INSERT 2\<rparr> \<and>
    womims (mem g') 4 = Some \<lparr>counter = 1, bytes = ctrl_bytes DISCONNECT_SUCC (rankToAddr 2) @ replicate 6 0\<rparr> \<and>
    trace g' = [Closed 0] \<and> comms g' 0 = None"
proof -
  let ?ms = "[sample_train, ctrl_bytes INSERT 2]" and ?inb = "sample_inbound (sample_train @ ctrl_bytes INSERT 2)"
  have g: "comms sample_globals 0 = Some \<lparr>fd = 3, ownerMutexForSynch = None, aborted = False\<rparr>"
    "\<not> aborted \<lparr>fd = 3, ownerMutexForSynch = None, aborted = False\<rparr>" "globalAddrArray sample_globals = sample_array"
    "next_id (mem sample_globals) = 2" "trace sample_globals = []"
    by (simp_all add: sample_globals_def globals0_def sample_heap_def)
  have s: "searchTComm (Some 0) (globalAddrArray sample_globals) = Inr (2, Some False)"
    "getTComm 2 False (globalAddrArray sample_globals) = Inr (Some 0)"
    using sample_search sample_get g(3) by simp_all
  have i: "calm (reads ?inb)" "stream ?inb = concat ?ms" "length (concat ?ms) < grants (reads ?inb)"
    using length_sample_train by (simp_all add: sample_inbound_def calm_def grants_def list_all_iff)
  have f2: "framed (ctrl_bytes INSERT 2)"
    by (simp add: framed_def ctrl_bytes_def nth_append MType_defs)
  have f: "\<forall>m \<in> set ?ms. framed m" using sample_framed f2 by simp
  have nn: "length ?ms < 3" by simp
  show ?thesis
    using stream_of_messages [OF g(1,2) i(1,2) f i(3) s(1) _ _ s(2) brep_newBqueue nn, of 9]
    unfolding g(4,5) by (auto simp: numeral_eq_Suc All_less_Suc upt_rec)
qed

text \<open>C31: when a peer goes away in the middle of a message nothing of it is kept: the reading
  thread gets the message that the connection is lost, which names the rank of the peer and
  whether it was the predecessor, and the connection is out of the table and closed. This is
  what \<^verbatim>\<open>receive\<close> does; the note of \<^verbatim>\<open>iomsg.h\<close>, that a message of type DEFAULT tells of an error,
  is not true of it.\<close>

theorem cut_message:
  assumes "comms g c = Some cm" "\<not> aborted cm" "calm (reads inb)"
    and "4 < length bs" "length bs < 2 ^ 31" "bs = to_bytes 4 (c_int (length bs)) @ tl'"
    and "stream inb = take k bs" "k < length bs" "length bs + 1 \<le> grants (reads inb)"
    and "searchTComm (Some c) (globalAddrArray g) = Inr (j, Some p)" "0 \<le> j" "j < 16"
    and "getTComm j p (globalAddrArray g) = Inr (Some c)"
  shows "\<exists>inb' g'. receive self c inb g = Inr (Some (next_id (mem g)), inb', g') \<and>
    womims (mem g') = (womims (mem g))(next_id (mem g) \<mapsto>
      \<lparr>counter = 1, bytes = ctrl_bytes (if p then DISCONNECT_PRED else DISCONNECT_SUCC) (rankToAddr j) @ replicate 6 0\<rparr>) \<and>
    removeTComm (Some c) j (globalAddrArray g) = Inr (globalAddrArray g') \<and>
    trace g' = trace g @ [Closed c] \<and> comms g' c = None"
proof -
  obtain cm' inb' cnt where r: "receive self c inb g = bindE (receive_closed self c ((set_comm c (Some cm') g)\<lparr>counters := cnt\<rparr>))
       (\<lambda>(m, g'). Inr (m, inb', g'))"
    by (rule receive_cut [OF assms(1-9)])
  let ?g = "(set_comm c (Some cm') g)\<lparr>counters := cnt\<rparr>"
  have a: "searchTComm (Some c) (globalAddrArray ?g) = Inr (j, Some p)"
    "getTComm j p (globalAddrArray ?g) = Inr (Some c)" "comms ?g c = Some cm'"
    using assms(10,13) by simp_all
  obtain array h where cl: "removeTComm (Some c) j (globalAddrArray ?g) = Inr array"
    "receive_closed self c ?g = Inr (Some (next_id (mem ?g)),
       (emit (Closed c) (set_comm c None ?g))\<lparr>globalAddrArray := array, mem := h\<rparr>)"
    "womims h = (womims (mem ?g))(next_id (mem ?g) \<mapsto>
       \<lparr>counter = 1, bytes = ctrl_bytes (if p then DISCONNECT_PRED else DISCONNECT_SUCC) (rankToAddr j) @ replicate 6 0\<rparr>)"
    by (rule receive_closed_ok [OF a(1) assms(11,12) a(2,3)])
  show ?thesis
    using r cl by (intro exI [of _ inb'] exI [of _ "(emit (Closed c) (set_comm c None ?g))\<lparr>globalAddrArray := array, mem := h\<rparr>"])
      (simp add: emit_def set_comm_def)
qed

theorem cut_message_witness:
  "\<exists>inb' g'. receive 9 0 (sample_inbound (take 11 sample_train)) sample_globals = Inr (Some 2, inb', g') \<and>
    womims (mem g') = (womims sample_heap)(2 \<mapsto> \<lparr>counter = 1, bytes = ctrl_bytes DISCONNECT_SUCC (rankToAddr 2) @ replicate 6 0\<rparr>) \<and>
    removeTComm (Some 0) 2 sample_array = Inr (globalAddrArray g') \<and> trace g' = [Closed 0] \<and> comms g' 0 = None"
proof -
  let ?inb = "sample_inbound (take 11 sample_train)"
  have g: "comms sample_globals 0 = Some \<lparr>fd = 3, ownerMutexForSynch = None, aborted = False\<rparr>"
    "\<not> aborted \<lparr>fd = 3, ownerMutexForSynch = None, aborted = False\<rparr>" "globalAddrArray sample_globals = sample_array"
    "mem sample_globals = sample_heap" "next_id sample_heap = 2" "trace sample_globals = []"
    by (simp_all add: sample_globals_def globals0_def sample_heap_def)
  have s: "searchTComm (Some 0) (globalAddrArray sample_globals) = Inr (2, Some False)"
    "getTComm 2 False (globalAddrArray sample_globals) = Inr (Some 0)"
    using sample_search sample_get g(3) by simp_all
  have i: "calm (reads ?inb)" "stream ?inb = take 11 sample_train" "length sample_train + 1 \<le> grants (reads ?inb)"
    using length_sample_train by (simp_all add: sample_inbound_def calm_def grants_def list_all_iff)
  have t: "4 < length sample_train" "length sample_train < 2 ^ 31" "11 < length sample_train"
    using length_sample_train by simp_all
  show ?thesis
    using cut_message [OF g(1,2) i(1) t(1,2) sample_prefix i(2) t(3) i(3) s(1) _ _ s(2), of 9] by (simp add: g)
qed

text \<open>C28: the search for a successor tries the other 15 addresses once each, upwards from the
  process's own and round, stops at the first that a connection can be opened to, and gives
  the process itself when there is none; it is an error to start from no address.\<close>

theorem search_in_order:
  "searchSucc e ad g =
     (if ad = 0 then Inl (ExitFailure ''Wrong address given to searchSucc'')
      else bindE (first_open e (others_from (addrToRank ad)) g)
             (\<lambda>(r, g'). Inr (case r of None \<Rightarrow> myAddress g' | Some a \<Rightarrow> a, g')))"
proof (cases "ad = 0")
  case True
  then show ?thesis by (simp add: searchSucc_def)
next
  case False
  then show ?thesis using searchSucc_first [of ad e g] by simp
qed

end
