(* ===== verification/DelayLine.thy ===== *)
theory DelayLine
  imports StartInvariant
begin

text \<open>
  The unstable wagons of the trains as a delay line of two rounds: each visit of a train puts
  a batch in and takes one out, and the flush that follows the loss of the last other process
  takes all of them out, in the order they went in.
\<close>

section \<open>What the application sees\<close>

fun is_upcall :: "event \<Rightarrow> bool" where
  "is_upcall (CircuitChange cv) = True"
| "is_upcall (UtoDeliver ad bs) = True"
| "is_upcall ev = False"

definition app_events :: "event list \<Rightarrow> event list" where
  "app_events tr = filter is_upcall tr"

definition wagon_events :: "awagon \<Rightarrow> event list" where
  "wagon_events wg = concat (map (upcalls (aw_sender wg)) (aw_msgs wg))"

lemma app_events_simps [simp]:
  "app_events [] = []" "app_events (xs @ ys) = app_events xs @ app_events ys"
  "app_events (ev # xs) = (if is_upcall ev then ev # app_events xs else app_events xs)"
  by (simp_all add: app_events_def)

lemma app_events_upcalls: "app_events (upcalls s m) = upcalls s m"
  by (simp add: upcalls_def Let_def)

lemma app_events_wagon: "app_events (wagon_events wg) = wagon_events wg"
  unfolding wagon_events_def app_events_def
  by (induction "aw_msgs wg" arbitrary: wg rule: list.induct)
    (auto simp: filter_concat comp_def app_events_upcalls [unfolded app_events_def] intro!: arg_cong [of _ _ concat])

section \<open>The delay line\<close>

text \<open>The last round of a train, the trains in the order they are expected, and the batches
  held for two rounds: first those of the previous round, then those of the last one, in the
  order of the visits.\<close>

definition last_round :: "globals \<Rightarrow> nat \<Rightarrow> nat" where
  "last_round g t = nat (sint (stamp_round (lts_stamp (lts g ! t))))"

definition next_train :: "globals \<Rightarrow> nat \<Rightarrow> nat" where
  "next_train g k = (nat (lis g) + 1 + k) mod nat (ntr g)"

definition rounds_ok :: "globals \<Rightarrow> bool" where
  "rounds_ok g \<longleftrightarrow> 0 \<le> lis g \<and> lis g < ntr g \<and>
     (\<forall>t < nat (ntr g). 0 \<le> sint (stamp_round (lts_stamp (lts g ! t))) \<and> sint (stamp_round (lts_stamp (lts g ! t))) < 3)"

definition line :: "globals \<Rightarrow> (nat \<Rightarrow> nat \<Rightarrow> held) \<Rightarrow> awagon list list \<Rightarrow> bool" where
  "line g U Q \<longleftrightarrow> length Q = 2 * nat (ntr g) \<and> rounds_ok g \<and>
     (\<forall>k < nat (ntr g).
        map snd (U (next_train g k) ((last_round g (next_train g k) + 2) mod 3)) = Q ! k \<and>
        map snd (U (next_train g k) (last_round g (next_train g k))) = Q ! (nat (ntr g) + k) \<and>
        U (next_train g k) ((last_round g (next_train g k) + 1) mod 3) = [])"

text \<open>A train that keeps in step: its round is the last one, or the next.\<close>

definition in_step :: "stamp \<Rightarrow> ltsStruct \<Rightarrow> bool" where
  "in_step st l \<longleftrightarrow> stamp_round st = stamp_round (lts_stamp l) \<or>
     sint (stamp_round st) = (sint (stamp_round (lts_stamp l)) + 1) mod 3"

lemma in_step_round:
  assumes "in_step st (lts g ! t)" "rounds_ok g" "t < nat (ntr g)"
  shows "round_of st (lts g ! t) = (last_round g t + 1) mod 3"
proof -
  have r: "0 \<le> sint (stamp_round (lts_stamp (lts g ! t)))" using assms(2,3) by (simp add: rounds_ok_def)
  show ?thesis
  proof (cases "stamp_round st = stamp_round (lts_stamp (lts g ! t))")
    case True
    then show ?thesis by (simp add: round_of_def last_round_def Let_def)
  next
    case False
    then have "sint (stamp_round st) = (sint (stamp_round (lts_stamp (lts g ! t))) + 1) mod 3"
      using assms(1) by (simp add: in_step_def)
    then show ?thesis using False r by (simp add: round_of_def last_round_def Let_def nat_mod_distrib nat_add_distrib)
  qed
qed

lemma next_train_less: "0 < ntr g \<Longrightarrow> next_train g k < nat (ntr g)"
  by (simp add: next_train_def)

lemma mod_shift_le:
  assumes "(a + j) mod m = (a + k) mod m" "j \<le> k" "k < (m :: nat)"
  shows "j = k"
proof -
  have "m dvd (a + k) - (a + j)"
    using assms(1,2) by (metis mod_eq_dvd_iff_nat nat_add_left_cancel_le)
  then show ?thesis using assms(2,3) by (auto dest: dvd_imp_le)
qed

lemma next_train_inj:
  assumes "next_train g j = next_train g k" "j < nat (ntr g)" "k < nat (ntr g)"
  shows "j = k"
  using assms mod_shift_le [of "nat (lis g) + 1" j "nat (ntr g)" k] mod_shift_le [of "nat (lis g) + 1" k "nat (ntr g)" j]
  unfolding next_train_def by (cases "j \<le> k") auto

lemma next_train_onto:
  assumes "t < nat (ntr g)"
  obtains k where "k < nat (ntr g)" "t = next_train g k"
proof -
  have "next_train g ` {..<nat (ntr g)} = {..<nat (ntr g)}"
  proof (rule endo_inj_surj)
    show "next_train g ` {..<nat (ntr g)} \<subseteq> {..<nat (ntr g)}" using assms next_train_less by auto
    show "inj_on (next_train g) {..<nat (ntr g)}" by (rule inj_onI) (auto dest: next_train_inj)
  qed simp
  then show thesis using assms that by (metis imageE lessThan_iff)
qed

lemma last_round_less: "rounds_ok g \<Longrightarrow> t < nat (ntr g) \<Longrightarrow> last_round g t < 3"
  by (simp add: rounds_ok_def last_round_def nat_less_iff)

text \<open>A visit takes the oldest batch out and puts the new one in.\<close>

lemma line_visit:
  assumes ln: "line g U Q" and st: "in_step st (lts g ! t)" and t: "t = next_train g 0" "t < length (lts g)"
    and g': "lts g' = (lts g)[t := lts g' ! t]" "lis g' = int t" "ntr g' = ntr g"
      "stamp_round (lts_stamp (lts g' ! t)) = word_of_int (int (round_of st (lts g ! t)))"
    and U': "U' = U(t := (U t)(delivered_round (round_of st (lts g ! t)) := [],
        round_of st (lts g ! t) := U t (round_of st (lts g ! t)) @ X))"
  shows "line g' U' (tl Q @ [map snd X])" "map snd (U t (delivered_round (round_of st (lts g ! t)))) = hd Q"
proof -
  define m where "m = nat (ntr g)"
  define \<rho> where "\<rho> = last_round g t"
  have Q: "length Q = 2 * m" and ok: "rounds_ok g" using ln by (simp_all add: line_def m_def)
  then have m: "0 < m" "0 < ntr g" by (auto simp: rounds_ok_def m_def)
  have tm: "t < m" unfolding t(1) m_def by (rule next_train_less [OF m(2)])
  have \<rho>: "\<rho> < 3" using ok tm by (auto simp: rounds_ok_def last_round_def \<rho>_def m_def)
  have r: "round_of st (lts g ! t) = (\<rho> + 1) mod 3"
    using in_step_round [OF st ok] tm by (simp add: m_def \<rho>_def)
  have dr: "delivered_round ((\<rho> + 1) mod 3) = (\<rho> + 2) mod 3" unfolding delivered_round_def by presburger
  have at: "map snd (U (next_train g k) ((last_round g (next_train g k) + 2) mod 3)) = Q ! k"
    "map snd (U (next_train g k) (last_round g (next_train g k))) = Q ! (m + k)"
    "U (next_train g k) ((last_round g (next_train g k) + 1) mod 3) = []" if "k < m" for k
    using ln that by (simp_all add: line_def m_def)
  have at_t: "map snd (U t ((\<rho> + 2) mod 3)) = Q ! 0" "map snd (U t \<rho>) = Q ! m" "U t ((\<rho> + 1) mod 3) = []"
    using at [OF m(1)] by (simp_all add: \<rho>_def flip: t(1))
  have Q0: "Q \<noteq> []" using Q m by auto
  show "map snd (U t (delivered_round (round_of st (lts g ! t)))) = hd Q"
    unfolding r dr using at_t(1) Q0 by (simp add: hd_conv_nth)
  have s3: "sint (word_of_int (int ((\<rho> + 1) mod 3)) :: 8 word) = int ((\<rho> + 1) mod 3)"
  proof -
    have "(\<rho> + 1) mod 3 < 3" by simp
    then show ?thesis by (simp add: signed_of_nat signed_take_bit_int_eq_self)
  qed
  have lt': "last_round g' t = (\<rho> + 1) mod 3"
    unfolding last_round_def g'(4) r s3 by simp
  have other: "lts g' ! i = lts g ! i" if "i \<noteq> t" for i using g'(1) that by (metis nth_list_update_neq)
  have nxt: "next_train g' k = next_train g (Suc k)" for k
  proof -
    have "(t + 1 + k) mod m = ((nat (lis g) + 1) mod m + (1 + k)) mod m"
      by (simp add: t(1) next_train_def m_def)
    also have "\<dots> = (nat (lis g) + 1 + (1 + k)) mod m" by (rule mod_add_left_eq)
    finally show ?thesis by (simp add: next_train_def g'(2,3) m_def)
  qed
  have U't: "U' t ((\<rho> + 1) mod 3) = X" "U' t ((\<rho> + 2) mod 3) = []" "U' t \<rho> = U t \<rho>"
  proof -
    have "(\<rho> + 1) mod 3 \<noteq> (\<rho> + 2) mod 3" "\<rho> \<noteq> (\<rho> + 1) mod 3" "\<rho> \<noteq> (\<rho> + 2) mod 3" using \<rho> by presburger+
    then show "U' t ((\<rho> + 1) mod 3) = X" "U' t ((\<rho> + 2) mod 3) = []" "U' t \<rho> = U t \<rho>"
      using at_t(3) unfolding U' r dr by simp_all
  qed
  have "rounds_ok g'"
    unfolding rounds_ok_def
  proof (intro conjI allI impI)
    fix i assume i: "i < nat (ntr g')"
    show "0 \<le> sint (stamp_round (lts_stamp (lts g' ! i)))" "sint (stamp_round (lts_stamp (lts g' ! i))) < 3"
      using ok i g'(3) s3 unfolding rounds_ok_def by (cases "i = t"; simp add: g'(4) r other)+
  qed (use g'(2,3) tm m_def in auto)
  moreover have "map snd (U' (next_train g' k) ((last_round g' (next_train g' k) + 2) mod 3)) = (tl Q @ [map snd X]) ! k \<and>
      map snd (U' (next_train g' k) (last_round g' (next_train g' k))) = (tl Q @ [map snd X]) ! (m + k) \<and>
      U' (next_train g' k) ((last_round g' (next_train g' k) + 1) mod 3) = []" if k: "k < m" for k
  proof (cases "Suc k = m")
    case True
    have "next_train g' k = t"
      unfolding nxt True using t(1) mod_add_self2 [of "nat (lis g) + 1" m] by (simp add: next_train_def m_def)
    moreover have "((\<rho> + 1) mod 3 + 2) mod 3 = \<rho>" "((\<rho> + 1) mod 3 + 1) mod 3 = (\<rho> + 2) mod 3"
      using \<rho> by presburger+
    moreover note at_t(2)
    moreover have "(tl Q @ [map snd X]) ! k = Q ! m" "(tl Q @ [map snd X]) ! (m + k) = map snd X"
      using True Q m by (auto simp: nth_append nth_tl)
    ultimately show ?thesis using lt' U't by simp
  next
    case False
    then have k': "Suc k < m" using k by simp
    have ne: "next_train g (Suc k) \<noteq> t"
      using next_train_inj [of g "Suc k" 0] k' m unfolding t(1) m_def by auto
    have "last_round g' (next_train g (Suc k)) = last_round g (next_train g (Suc k))"
      by (simp add: last_round_def other [OF ne])
    moreover have "U' (next_train g (Suc k)) = U (next_train g (Suc k))" using ne unfolding U' by simp
    moreover have "(tl Q @ [map snd X]) ! k = Q ! Suc k" "(tl Q @ [map snd X]) ! (m + k) = Q ! (m + Suc k)"
      using k' Q by (auto simp: nth_append nth_tl)
    ultimately show ?thesis using at [OF k'] unfolding nxt by simp
  qed
  ultimately show "line g' U' (tl Q @ [map snd X])"
    using Q m unfolding line_def g'(3) m_def [symmetric] by simp
qed

section \<open>The flush\<close>

text \<open>When the last other process is lost everything that is unstable becomes deliverable, in
  the order of the delay line.\<close>

lemma flush_round:
  assumes "consistent g D U lk cap wg" "rounds_ok g"
    and "i + n \<le> nat (ntr g)"
  shows "\<exists>g' U'. each_train n (int (Suc i)) (flush_train (int a)) g = Inr g' \<and>
    consistent g' (D @ concat (map (\<lambda>k. U (next_train g k) ((last_round g (next_train g k) + a) mod 3)) [i..<i + n])) U' lk cap wg \<and>
    (\<forall>t r. U' t r = (if r < 3 \<and> (\<exists>k \<in> {i..<i + n}. t = next_train g k \<and> r = (last_round g t + a) mod 3) then [] else U t r)) \<and>
    lts g' = lts g \<and> ntr g' = ntr g \<and> lis g' = lis g \<and> trace g' = trace g \<and> wagonMaxLen g' = wagonMaxLen g \<and>
    myAddress g' = myAddress g"
  using assms
proof (induction n arbitrary: i g D U)
  case 0
  then show ?case by (intro exI [of _ g] exI [of _ U]) auto
next
  case (Suc n)
  let ?t = "next_train g i"
  let ?r = "(last_round g ?t + a) mod 3"
  have m: "0 < ntr g" "i < nat (ntr g)" using Suc.prems(2,3) by (auto simp: rounds_ok_def)
  have t: "?t < nat (ntr g)" by (rule next_train_less [OF m(1)])
  have len: "length (lts g) = 16" "ntr g \<le> 16" using Suc.prems(1) by (simp_all add: consistent_def tables_def)
  obtain q us where d: "deliver_round (int ?t) (int ?r) g = Inr (g\<lparr>wagonsToDeliver := Some q, unstableWagons := us\<rparr>)"
    "consistent (g\<lparr>wagonsToDeliver := Some q, unstableWagons := us\<rparr>) (D @ U ?t ?r) (U(?t := (U ?t)(?r := []))) lk cap wg"
    by (rule deliver_round_ok [OF Suc.prems(1) t, of ?r]) simp_all
  let ?g = "g\<lparr>wagonsToDeliver := Some q, unstableWagons := us\<rparr>"
  have idx: "c_mod (lis g + int (Suc i)) (ntr g) = int ?t"
    using Suc.prems(2) by (simp add: rounds_ok_def next_train_def c_mod_nonneg zmod_int add.commute add.left_commute)
  have rd: "c_mod (sint (stamp_round (lts_stamp (lts g ! ?t))) + int a) NR = int ?r"
    using Suc.prems(2) t by (simp add: rounds_ok_def last_round_def c_mod_nonneg NR_def zmod_int)
  have one: "flush_train (int a) (int ?t) g = Inr ?g"
    using d(1) t len rd by (simp add: flush_train_def)
  have ok: "rounds_ok ?g" using Suc.prems(2) by (simp add: rounds_ok_def)
  have nt: "next_train ?g k = next_train g k" "last_round ?g k = last_round g k" for k
    by (simp_all add: next_train_def last_round_def)
  have pre: "Suc i + n \<le> nat (ntr ?g)" using Suc.prems(3) by simp
  obtain g' U' where ih: "each_train n (int (Suc (Suc i))) (flush_train (int a)) ?g = Inr g'"
    "consistent g' ((D @ U ?t ?r) @ concat (map (\<lambda>k. (U(?t := (U ?t)(?r := []))) (next_train g k) ((last_round g (next_train g k) + a) mod 3)) [Suc i..<Suc i + n])) U' lk cap wg"
    "\<forall>t r. U' t r = (if r < 3 \<and> (\<exists>k \<in> {Suc i..<Suc i + n}. t = next_train g k \<and> r = (last_round g t + a) mod 3) then [] else (U(?t := (U ?t)(?r := []))) t r)"
    "lts g' = lts g" "ntr g' = ntr g" "lis g' = lis g" "trace g' = trace g" "wagonMaxLen g' = wagonMaxLen g" "myAddress g' = myAddress g"
    using Suc.IH [OF d(2) ok pre] unfolding nt by auto
  have other: "next_train g k \<noteq> ?t" if "k \<in> {Suc i..<Suc i + n}" for k
    using that next_train_inj [of g k i] m(2) Suc.prems(3) by auto
  have cat: "concat (map (\<lambda>k. (U(?t := (U ?t)(?r := []))) (next_train g k) ((last_round g (next_train g k) + a) mod 3)) [Suc i..<Suc i + n]) =
      concat (map (\<lambda>k. U (next_train g k) ((last_round g (next_train g k) + a) mod 3)) [Suc i..<Suc i + n])"
    using other by (intro arg_cong [of _ _ concat] map_cong refl) auto
  have up: "[i..<i + Suc n] = i # [Suc i..<Suc i + n]" by (simp add: upt_rec)
  show ?case
  proof (intro exI [of _ g'] exI [of _ U'] conjI)
    show "each_train (Suc n) (int (Suc i)) (flush_train (int a)) g = Inr g'"
    proof -
      have "int (Suc i) + 1 = int (Suc (Suc i))" by simp
      then show ?thesis unfolding each_train.simps(2) idx one bindE_Inr using ih(1) by simp
    qed
    show "consistent g' (D @ concat (map (\<lambda>k. U (next_train g k) ((last_round g (next_train g k) + a) mod 3)) [i..<i + Suc n])) U' lk cap wg"
      using ih(2) unfolding cat up by simp
    show "\<forall>t r. U' t r = (if r < 3 \<and> (\<exists>k \<in> {i..<i + Suc n}. t = next_train g k \<and> r = (last_round g t + a) mod 3) then [] else U t r)"
    proof (intro allI)
      fix t r
      have "{i..<i + Suc n} = insert i {Suc i..<Suc i + n}" by auto
      then show "U' t r = (if r < 3 \<and> (\<exists>k \<in> {i..<i + Suc n}. t = next_train g k \<and> r = (last_round g t + a) mod 3) then [] else U t r)"
        using ih(3) by auto
    qed
  qed (use ih in simp_all)
qed

lemma map_next_Q:
  assumes "line g U Q"
  shows "map snd (concat (map (\<lambda>k. U (next_train g k) ((last_round g (next_train g k) + 1) mod 3)) [0..<nat (ntr g)])) = []"
    "map snd (concat (map (\<lambda>k. U (next_train g k) ((last_round g (next_train g k) + 2) mod 3)) [0..<nat (ntr g)])) =
       concat (take (nat (ntr g)) Q)"
    "map snd (concat (map (\<lambda>k. U (next_train g k) ((last_round g (next_train g k) + 3) mod 3)) [0..<nat (ntr g)])) =
       concat (drop (nat (ntr g)) Q)"
proof -
  let ?m = "nat (ntr g)"
  have at: "map snd (U (next_train g k) ((last_round g (next_train g k) + 2) mod 3)) = Q ! k"
    "map snd (U (next_train g k) (last_round g (next_train g k))) = Q ! (?m + k)"
    "U (next_train g k) ((last_round g (next_train g k) + 1) mod 3) = []" if "k < ?m" for k
    using assms that by (simp_all add: line_def)
  have len: "length Q = 2 * ?m" and m: "0 < ntr g" using assms by (auto simp: line_def rounds_ok_def)
  have "rounds_ok g" using assms by (simp add: line_def)
  then have l3: "(last_round g (next_train g k) + 3) mod 3 = last_round g (next_train g k)" for k
    using last_round_less [of g "next_train g k"] next_train_less [OF m] by simp
  have q: "concat (map (\<lambda>k. map snd (f k)) [0..<?m]) = map snd (concat (map f [0..<?m]))" for f :: "nat \<Rightarrow> held"
    by (simp add: map_concat comp_def)
  have "concat (map (\<lambda>k. map snd (U (next_train g k) ((last_round g (next_train g k) + 1) mod 3))) [0..<?m]) = []"
    using at(3) by simp
  then show "map snd (concat (map (\<lambda>k. U (next_train g k) ((last_round g (next_train g k) + 1) mod 3)) [0..<?m])) = []"
    unfolding q .
  have "map (\<lambda>k. map snd (U (next_train g k) ((last_round g (next_train g k) + 2) mod 3))) [0..<?m] = take ?m Q"
    using at(1) len by (intro nth_equalityI) simp_all
  then show "map snd (concat (map (\<lambda>k. U (next_train g k) ((last_round g (next_train g k) + 2) mod 3)) [0..<?m])) = concat (take ?m Q)"
    unfolding q [symmetric] by simp
  have "map (\<lambda>k. map snd (U (next_train g k) (last_round g (next_train g k)))) [0..<?m] = drop ?m Q"
    using at(2) len by (intro nth_equalityI) simp_all
  then show "map snd (concat (map (\<lambda>k. U (next_train g k) ((last_round g (next_train g k) + 3) mod 3)) [0..<?m])) = concat (drop ?m Q)"
    unfolding q [symmetric] l3 by simp
qed

text \<open>The three passes of the loops over the trains.\<close>

lemma flush_line:
  assumes con: "consistent g D U lk cap wg" and ln: "line g U Q"
  obtains g' D' U' where "flush_unstable g = Inr g'" "consistent g' D' U' lk cap wg" "map snd D' = map snd D @ concat Q"
    "\<And>t r. t < nat (ntr g) \<Longrightarrow> r < 3 \<Longrightarrow> U' t r = []" "trace g' = trace g" "wagonMaxLen g' = wagonMaxLen g"
    "myAddress g' = myAddress g"
proof -
  let ?m = "nat (ntr g)" and ?K = "\<lambda>a g U. concat (map (\<lambda>k. U (next_train g k) ((last_round g (next_train g k) + a) mod 3)) [0..<0 + nat (ntr g)])"
  have ok: "rounds_ok g" using ln by (simp add: line_def)
  have len: "length Q = 2 * ?m" using ln by (simp add: line_def)
  have z: "0 + nat (ntr g) \<le> nat (ntr g)" by simp
  obtain g1 U1 where one: "each_train ?m 1 (flush_train 1) g = Inr g1" "consistent g1 (D @ ?K 1 g U) U1 lk cap wg"
    "\<And>t r. U1 t r = (if r < 3 \<and> (\<exists>k \<in> {0..<0 + ?m}. t = next_train g k \<and> r = (last_round g t + 1) mod 3) then [] else U t r)"
    "lts g1 = lts g" "ntr g1 = ntr g" "lis g1 = lis g" "trace g1 = trace g" "wagonMaxLen g1 = wagonMaxLen g" "myAddress g1 = myAddress g"
    using flush_round [OF con ok z, of 1] by auto
  have ok1: "rounds_ok g1" using ok one(4-6) by (simp add: rounds_ok_def)
  have nt1: "next_train g1 k = next_train g k" "last_round g1 k = last_round g k" for k
    using one(4-6) by (simp_all add: next_train_def last_round_def)
  have z1: "0 + nat (ntr g1) \<le> nat (ntr g1)" by simp
  obtain g2 U2 where two: "each_train (nat (ntr g1)) 1 (flush_train 2) g1 = Inr g2" "consistent g2 ((D @ ?K 1 g U) @ ?K 2 g1 U1) U2 lk cap wg"
    "\<And>t r. U2 t r = (if r < 3 \<and> (\<exists>k \<in> {0..<0 + ?m}. t = next_train g k \<and> r = (last_round g t + 2) mod 3) then [] else U1 t r)"
    "lts g2 = lts g" "ntr g2 = ntr g" "lis g2 = lis g" "trace g2 = trace g" "wagonMaxLen g2 = wagonMaxLen g" "myAddress g2 = myAddress g"
    using flush_round [OF one(2) ok1 z1, of 2] unfolding nt1 one(4-9) by auto
  have ok2: "rounds_ok g2" using ok two(4-6) by (simp add: rounds_ok_def)
  have nt2: "next_train g2 k = next_train g k" "last_round g2 k = last_round g k" for k
    using two(4-6) by (simp_all add: next_train_def last_round_def)
  have z2: "0 + nat (ntr g2) \<le> nat (ntr g2)" by simp
  obtain g3 U3 where three: "each_train (nat (ntr g2)) 1 (flush_train 3) g2 = Inr g3"
    "consistent g3 (((D @ ?K 1 g U) @ ?K 2 g1 U1) @ ?K 3 g2 U2) U3 lk cap wg"
    "\<And>t r. U3 t r = (if r < 3 \<and> (\<exists>k \<in> {0..<0 + ?m}. t = next_train g k \<and> r = (last_round g t + 3) mod 3) then [] else U2 t r)"
    "trace g3 = trace g" "wagonMaxLen g3 = wagonMaxLen g" "myAddress g3 = myAddress g"
    using flush_round [OF two(2) ok2 z2, of 3] unfolding nt2 two(4-9) by auto
  have m: "0 < ntr g" using ok by (auto simp: rounds_ok_def)
  have u1: "U1 (next_train g k) ((last_round g (next_train g k) + 2) mod 3) = U (next_train g k) ((last_round g (next_train g k) + 2) mod 3)" for k
  proof -
    have "(last_round g (next_train g k) + 2) mod 3 \<noteq> (last_round g (next_train g k) + 1) mod 3" by presburger
    then show ?thesis unfolding one(3) by auto
  qed
  have u2: "U2 (next_train g k) ((last_round g (next_train g k) + 3) mod 3) = U (next_train g k) ((last_round g (next_train g k) + 3) mod 3)" for k
  proof -
    have "(last_round g (next_train g k) + 3) mod 3 \<noteq> (last_round g (next_train g k) + 1) mod 3"
      "(last_round g (next_train g k) + 3) mod 3 \<noteq> (last_round g (next_train g k) + 2) mod 3" by presburger+
    then show ?thesis unfolding one(3) two(3) by auto
  qed
  have K2: "?K 2 g1 U1 = ?K 2 g U" and K3: "?K 3 g2 U2 = ?K 3 g U"
    unfolding nt1 nt2 one(5) two(5) u1 u2 by simp_all
  have D: "map snd (((D @ ?K 1 g U) @ ?K 2 g1 U1) @ ?K 3 g2 U2) = map snd D @ concat Q"
  proof -
    have "concat (take ?m Q) @ concat (drop ?m Q) = concat Q" by (metis append_take_drop_id concat_append)
    then show ?thesis unfolding K2 K3 unfolding map_append add_0 map_next_Q [OF ln] by simp
  qed
  show thesis
  proof (rule that [OF _ three(2) D _ three(4-6)])
    show "flush_unstable g = Inr g3" using one(1) two(1) three(1) one(5) by (simp add: flush_unstable_def)
    show "U3 t r = []" if tr: "t < nat (ntr g)" "r < 3" for t r
    proof -
      obtain k where "k < ?m" "t = next_train g k" by (rule next_train_onto [OF tr(1)])
      moreover have "r = (last_round g t + 1) mod 3 \<or> r = (last_round g t + 2) mod 3 \<or> r = (last_round g t + 3) mod 3"
        using tr(2) by presburger
      ultimately show ?thesis using tr(2) unfolding three(3) two(3) one(3) by auto
    qed
  qed
qed

end
