(* ===== verification/Life.thy ===== *)
theory Life
  imports DelayLine
begin

text \<open>
  The life of a member of a circuit: the operations that run in the state \<^verbatim>\<open>SEVERAL\<close>
  (trains, the other messages, the application's allocations, the deliveries, the arrival of
  messages) as the steps of a relation, the invariant of its runs, and what becomes of the
  process when it is alone again.
\<close>

section \<open>Operations that leave the tables as they are\<close>

definition core :: "globals \<Rightarrow>
    (ltsStruct list \<times> wiw trList option list list \<times> int \<times> int) \<times>
    (wiw trBqueue option \<times> int \<times> wiw option \<times> heap) \<times> address \<times> event list" where
  "core g = ((lts g, unstableWagons g, ntr g, lis g), (wagonsToDeliver g, wagonMaxLen g, wagonToSend g, mem g),
     myAddress g, app_events (trace g))"

lemma core_eq:
  "core g' = core g \<longleftrightarrow> lts g' = lts g \<and> unstableWagons g' = unstableWagons g \<and> ntr g' = ntr g \<and> lis g' = lis g \<and>
     wagonsToDeliver g' = wagonsToDeliver g \<and> wagonMaxLen g' = wagonMaxLen g \<and> wagonToSend g' = wagonToSend g \<and>
     mem g' = mem g \<and> myAddress g' = myAddress g \<and> app_events (trace g') = app_events (trace g)"
  by (simp add: core_def)

lemma core_updates [simp]:
  "core (g\<lparr>counters := cnt\<rparr>) = core g" "core (g\<lparr>comms := cs\<rparr>) = core g" "core (g\<lparr>next_comm := n\<rparr>) = core g"
  "core (g\<lparr>globalAddrArray := arr\<rparr>) = core g" "core (g\<lparr>writes_done := n\<rparr>) = core g"
  "core (g\<lparr>connects_done := n\<rparr>) = core g" "core (g\<lparr>prec := a\<rparr>) = core g" "core (g\<lparr>succ := a\<rparr>) = core g"
  "core (g\<lparr>cameProc := s\<rparr>) = core g" "core (g\<lparr>goneProc := s\<rparr>) = core g" "core (g\<lparr>automatonState := st\<rparr>) = core g"
  "core (set_comm c cm g) = core g" "\<not> is_upcall ev \<Longrightarrow> core (emit ev g) = core g"
  by (simp_all add: core_def set_comm_def emit_def)

named_theorems cores \<open>operations that leave the tables as they are\<close>

lemma freeComm_core [cores]: "freeComm self p g = Inr g' \<Longrightarrow> core g' = core g"
  by (auto simp: freeComm_def bindE_eq_Inr Let_def)

lemma closeConnection_core [cores]: "closeConnection self a b g = Inr g' \<Longrightarrow> core g' = core g"
  by (auto simp: closeConnection_def bindE_eq_Inr Let_def dest!: freeComm_core split: if_splits)

lemma openConnection_core [cores]:
  assumes "openConnection e a b g = Inr (r, g')"
  shows "core g' = core g"
proof -
  obtain ad where "nthE (globalAddrArray g) (addrToRank a) = Inr ad" "addrToRank a \<noteq> - 1"
    using assms by (auto simp: openConnection_def Let_def bindE_eq_Inr split: if_splits)
  moreover have "core g2 = core g"
    if "(case tcomm of None \<Rightarrow> Inr (- 1, g1) | Some cm \<Rightarrow> let (c, g2) = new_comm cm g1 in
              bindE (addTComm (Some c) rank (globalAddrArray g2) isPred) (\<lambda>array.
                Inr (1, emit (Spawned (ConnectionMgt c)) (g2\<lparr>globalAddrArray := array\<rparr>)))) = Inr (r, g2)"
      "core g1 = core g" for tcomm g1 g2 rank isPred
    using that by (cases tcomm) (auto simp: bindE_eq_Inr Let_def new_comm_def)
  ultimately show ?thesis
    using assms unfolding openConnection_def Let_def
    by (simp split: if_split_asm) (auto simp: bindE_eq_Inr)
qed

lemma writev_comm_core [cores]: "writev_comm e c iov g = Inr (r, g') \<Longrightarrow> core g' = core g"
  by (auto simp: writev_comm_def bindE_eq_Inr)

lemma sendOther_core [cores]: "sendOther e a b mt s g = Inr (r, g') \<Longrightarrow> core g' = core g"
  by (auto simp: sendOther_def bindE_eq_Inr Let_def split: if_splits option.splits dest!: writev_comm_core)

lemma sendTrain_core [cores]: "sendTrain e a b l g = Inr (r, g') \<Longrightarrow> core g' = core g"
  by (auto simp: sendTrain_def bindE_eq_Inr Let_def split: if_splits option.splits dest!: writev_comm_core)

lemma resend_train_core [cores]: "resend_train e t g = Inr g' \<Longrightarrow> core g' = core g"
  by (auto simp: resend_train_def bindE_eq_Inr dest!: sendTrain_core)

lemma resend_trains_core [cores]: "each_train n i (resend_train e) g = Inr g' \<Longrightarrow> core g' = core g"
  by (rule each_train_invariant [where I = "\<lambda>x. core x = core g"]) (auto dest: resend_train_core)

lemma lose_pred_core [cores]: "lose_pred n e g = Inr (found, g') \<Longrightarrow> core g' = core g"
proof (induction n arbitrary: g)
  case 0
  then show ?case by (subst (asm) lose_pred.simps) (auto split: if_split_asm)
next
  case (Suc n)
  show ?case
  proof (cases "addrIsEqual (prec g) (myAddress g)")
    case True
    with Suc.prems show ?thesis by (subst (asm) lose_pred.simps) auto
  next
    case False
    with Suc.prems obtain r g1 where o: "openConnection e (prec g) True g = Inr (r, g1)"
      by (subst (asm) lose_pred.simps) (auto simp: bindE_eq_Inr)
    note o1 = openConnection_core [OF o]
    show ?thesis
    proof (cases "r = - 1")
      case False
      with Suc.prems \<open>\<not> addrIsEqual (prec g) (myAddress g)\<close> o show ?thesis
        using o1 by (subst (asm) lose_pred.simps) (auto simp: bindE_eq_Inr dest!: sendOther_core)
    next
      case True
      with Suc.prems \<open>\<not> addrIsEqual (prec g) (myAddress g)\<close> o obtain came gone pr where
        "lose_pred n e (g1\<lparr>cameProc := came, goneProc := gone, prec := pr\<rparr>) = Inr (found, g')"
        by (subst (asm) lose_pred.simps) (auto simp: bindE_eq_Inr split: prod.splits)
      from Suc.IH [OF this] o1 show ?thesis by simp
    qed
  qed
qed

text \<open>A message other than a train, in a circuit: the message is given up.\<close>

lemma other_message_core:
  assumes "stateMachine e p g = Inr g'" "automatonState g = SEVERAL" "automatonState g' = SEVERAL"
    "msg_at p g msg_type = Inr mt" "mt \<noteq> TRAIN"
  obtains g1 g2 where "core g1 = core g" "free_msg p g1 = Inr g2" "core g' = core g2"
proof -
  have os: "on_several e p mt g = Inr g'" using assms by (simp add: stateMachine_def)
  consider "mt = INSERT" | "mt = NEWSUCC" | "mt = DISCONNECT_PRED" | "mt = DISCONNECT_SUCC"
    using os assms(2,5) by (auto simp: on_several_def split: if_split_asm)
  then show thesis
  proof cases
    case 1
    then obtain g1 sender r g2 where "closeConnection (env_self e) (prec g) True g = Inr g1"
      "sendOther e sender True ACK_INSERT (prec g1) g1 = Inr (r, g2)"
      "free_msg p (g2\<lparr>prec := sender, cameProc := addrAppendArrived (cameProc g2) sender\<rparr>) = Inr g'"
      using os by (auto simp: on_several_def bindE_eq_Inr MType_defs)
    then show thesis
      by (intro that [of "g2\<lparr>prec := sender, cameProc := addrAppendArrived (cameProc g2) sender\<rparr>" g'])
        (auto dest!: closeConnection_core sendOther_core)
  next
    case 2
    then obtain g1 sender g2 where x: "(if succ g \<noteq> 0 then closeConnection (env_self e) (succ g) False g else Inr g) = Inr g1"
      "each_train (nat (ntr g1)) 1 (resend_train e) (g1\<lparr>succ := sender\<rparr>) = Inr g2" "free_msg p g2 = Inr g'"
      using os by (auto simp: on_several_def bindE_eq_Inr MType_defs)
    then have "core g1 = core g" by (auto split: if_split_asm dest!: closeConnection_core)
    with resend_trains_core [OF x(2)] x(3) show thesis by (intro that [of g2 g']) simp_all
  next
    case 3
    then have sp: "several_disconnect_pred e p g = Inr g'" using os by (simp add: on_several_def MType_defs)
    then obtain found g1 where l: "lose_pred 17 e g = Inr (found, g1)"
      by (auto simp: several_disconnect_pred_def bindE_eq_Inr)
    have "found"
    proof (rule ccontr)
      assume "\<not> found"
      with sp l obtain g5 where "nextState e ALONE_INSERT_WAIT g5 = Inr g'"
        by (auto simp: several_disconnect_pred_def bindE_eq_Inr)
      then show False using assms(3) by (auto simp: nextState_def)
    qed
    with sp l obtain g2 where "free_msg p g1 = Inr g2" "nextState e SEVERAL g2 = Inr g'"
      by (auto simp: several_disconnect_pred_def bindE_eq_Inr)
    with lose_pred_core [OF l] show thesis by (intro that [of g1 g2]) (auto simp: nextState_def)
  next
    case 4
    then have "free_msg p (g\<lparr>succ := 0\<rparr>) = Inr g'"
      using os by (simp add: on_several_def MType_defs)
    then show thesis by (intro that [of "g\<lparr>succ := 0\<rparr>" g']) simp_all
  qed
qed

text \<open>A recent train, whatever becomes of the write to the successor.\<close>

definition batch :: "globals \<Rightarrow> nat \<Rightarrow> stamp \<Rightarrow> addressSet \<Rightarrow> awagon list \<Rightarrow> awagon \<Rightarrow> awagon list" where
  "batch g t st circuit ws wg =
     filter (stays g t circuit) ws @ own_of (round_of st (lts g ! t)) (announced g t circuit wg)"

lemma consistent_core: "consistent g D U lk cap wg \<Longrightarrow> core g' = core g \<Longrightarrow> consistent g' D U lk cap wg"
  by (rule consistent_other) (simp_all add: core_eq)

lemma trains_named_core: "trains_named g \<Longrightarrow> core g' = core g \<Longrightarrow> trains_named g'"
  by (simp add: trains_named_def core_eq)

lemma line_core: "line g U Q \<Longrightarrow> core g' = core g \<Longrightarrow> line g' U Q"
  by (simp add: line_def rounds_ok_def next_train_def last_round_def core_eq)

lemma recent_train_kept:
  assumes con: "consistent g D U (add_mset p lk) cap wg" and tr: "train_in g p st circuit ws t"
    and W: "7 \<le> wagonMaxLen g" and room: "depart_room g t wg" "length (enc_wagon wg) + 144 < 2 ^ 31"
    and rdb: "\<forall>m \<in> set (aw_msgs wg). readable m" and nm: "trains_named g"
    and recent: "isRecentTrain (ntr g) st (lts g) (word_of_int (lis g)) = Inr True"
    and run: "stateMachine e p g = Inr g'" "automatonState g = SEVERAL"
  obtains X cap' where
    "consistent g' (D @ U t (delivered_round (round_of st (lts g ! t))))
       (U(t := (U t)(delivered_round (round_of st (lts g ! t)) := [],
            round_of st (lts g ! t) := U t (round_of st (lts g ! t)) @ X))) lk cap' (wagon_after g t circuit wg)"
    "map snd X = batch g t st circuit ws wg" "lis g' = int t" "trains_named g'" "ntr g' = ntr g"
    "lts g' = (lts g)[t := lts g' ! t]"
    "stamp_round (lts_stamp (lts g' ! t)) = word_of_int (int (round_of st (lts g ! t)))"
    "wagonMaxLen g' = wagonMaxLen g" "app_events (trace g') = app_events (trace g)" "myAddress g' = myAddress g"
    "automatonState g' = SEVERAL"
proof -
  let ?r = "round_of st (lts g ! t)"
  obtain v where v: "womims (mem g) p = Some v" "holds (bytes v) 0 (enc_train st circuit ws)"
    and id: "sint (stamp_id st) = int t" and t: "t < nat (ntr g)"
    using tr by (auto simp: train_in_def)
  have m: "msg_at p g msg_type = Inr TRAIN" "msg_at p g train_circuit = Inr circuit" "msg_at p g train_stamp = Inr st"
    using v by (simp_all add: msg_at_def get_womim_def holds_enc_train)
  have st: "several_train e p g = Inr g'" using run m(1) by (simp add: stateMachine_def on_several_def)
  obtain g1 wi cap' where one: "trainHandling p g = Inr g1"
    "consistent g1 (D @ U t (delivered_round ?r))
       (U(t := (U t)(delivered_round ?r := [],
            ?r := U t ?r @ held_of p (is_kept (new_circuit g t circuit) (if t = 0 then 0 else goneProc g) (myAddress g)) (at_offsets 10 ws)
                @ map (Pair wi) (own_of ?r (announced g t circuit wg)))))
       (add_mset p lk) cap' (if aw_msgs (announced g t circuit wg) = [] then announced g t circuit wg else empty_wagon (myAddress g))"
    "lts g1 = (lts g)[t := lts g1 ! t]"
    "lts_stamp (lts g1 ! t) = (lts_stamp (lts g ! t))\<lparr>stamp_lc := stamp_lc st + 1, stamp_round := word_of_int (int ?r)\<rparr>"
    "lts_type (lts g1 ! t) = lts_type (lts g ! t)" "same_rest g g1"
    using trainHandling_ok [OF con tr W room rdb] by metis
  define X where "X = held_of p (stays g t circuit) (at_offsets 10 ws) @ map (Pair wi) (own_of ?r (announced g t circuit wg))"
  have X: "map snd X = batch g t st circuit ws wg"
    by (simp add: X_def batch_def map_snd_held_of comp_def)
  obtain g3 where three: "core g3 = core (g1\<lparr>lis := int t\<rparr>)" "control g3 = control g1" "free_msg p g3 = Inr g'"
  proof (cases "succ g1 = 0")
    case True
    with st m recent one(1) id have "free_msg p (g1\<lparr>lis := int t\<rparr>) = Inr g'"
      by (auto simp: several_train_def split: if_split_asm)
    then show thesis by (intro that [of "g1\<lparr>lis := int t\<rparr>"]) simp_all
  next
    case False
    with st m recent one(1) id obtain l nb g3 where
      s: "sendTrain e (succ g1) False l (g1\<lparr>lis := int t\<rparr>) = Inr (nb, g3)" "free_msg p g3 = Inr g'"
      by (auto simp: several_train_def bindE_eq_Inr split: if_split_asm)
    show thesis using sendTrain_core [OF s(1)] sendTrain_frame [OF s(1)] s(2) by (intro that [of g3]) simp_all
  qed
  have "consistent (g1\<lparr>lis := int t\<rparr>) (D @ U t (delivered_round ?r)) (U(t := (U t)(delivered_round ?r := [], ?r := U t ?r @ X)))
      (add_mset p lk) cap' (wagon_after g t circuit wg)"
    by (rule consistent_other [of g1])
      (use one(2) in \<open>simp_all only: X_def stays_def wagon_after_def, simp_all\<close>)
  from consistent_core [OF this three(1)]
  obtain h where h: "free_msg p g3 = Inr (g3\<lparr>mem := h\<rparr>)"
    "consistent (g3\<lparr>mem := h\<rparr>) (D @ U t (delivered_round ?r)) (U(t := (U t)(delivered_round ?r := [], ?r := U t ?r @ X)))
      lk cap' (wagon_after g t circuit wg)"
    by (rule free_msg_ok)
  have g': "g' = g3\<lparr>mem := h\<rparr>" using three(3) h(1) by simp
  have rest: "ntr g1 = ntr g" "wagonMaxLen g1 = wagonMaxLen g" "trace g1 = trace g" "myAddress g1 = myAddress g"
    "automatonState g1 = automatonState g"
    using one(6) by (simp_all add: same_rest_def)
  have c3: "lts g3 = lts g1" "lis g3 = int t" "ntr g3 = ntr g" "wagonMaxLen g3 = wagonMaxLen g"
    "app_events (trace g3) = app_events (trace g)" "myAddress g3 = myAddress g"
    using three(1) rest by (simp_all add: core_eq)
  have a3: "automatonState g3 = SEVERAL" using three(2) rest(5) run(2) by (simp add: control_def)
  have nm': "trains_named g'"
    unfolding trains_named_def
  proof (intro allI impI)
    fix i assume "i < nat (ntr g')"
    then have i: "i < nat (ntr g)" using c3(3) by (simp add: g')
    show "lts_type (lts g' ! i) = TRAIN \<and> sint (stamp_id (lts_stamp (lts g' ! i))) = int i"
    proof (cases "i = t")
      case True
      then show ?thesis using one(4,5) nm t by (simp add: g' c3(1) trains_named_def)
    next
      case False
      have "lts g1 ! i = lts g ! i" using one(3) False by (metis nth_list_update_neq)
      then show ?thesis using nm i by (simp add: g' c3(1) trains_named_def)
    qed
  qed
  show thesis
    by (rule that [of X cap'])
      (use h(2) X nm' c3 a3 one(3,4) in \<open>simp_all add: g'\<close>)
qed

section \<open>The operations of the other threads\<close>

lemma tables_same:
  "tables g U \<Longrightarrow> lts g' = lts g \<Longrightarrow> unstableWagons g' = unstableWagons g \<Longrightarrow> ntr g' = ntr g \<Longrightarrow> tables g' U"
  by (simp add: tables_def)

lemma held_ok_zip: "held_ok h D \<longleftrightarrow> list_all2 (wagon_at h) (map fst D) (map snd D)"
  by (induction D) auto

lemma consistent_to_deliver: "consistent g D U lk cap wg \<Longrightarrow> to_deliver g (map fst D) (map snd D)"
  by (auto simp: consistent_def to_deliver_def held_ok_zip)

text \<open>The connections and what \<^verbatim>\<open>trainHandling\<close> has to report.\<close>

definition links :: "globals \<Rightarrow> address \<times> addressSet \<times> addressSet \<times> (nat \<Rightarrow> trComm option) \<times> ADDR list" where
  "links g = (succ g, cameProc g, goneProc g, comms g, globalAddrArray g)"

text \<open>A turn of the delivering thread.\<close>

lemma deliver_runs:
  assumes con: "consistent g ((wi, w) # D') U lk cap wg"
  obtains b g' where "utoDeliveries_turn False g = Inr (b, g')" "consistent g' D' U lk cap wg" "links g' = links g"
    "trace g' = trace g @ concat (map (upcalls (aw_sender w)) (aw_msgs w))"
    "app_events (trace g') = app_events (trace g) @ wagon_events w"
    "lts g' = lts g" "ntr g' = ntr g" "lis g' = lis g" "wagonMaxLen g' = wagonMaxLen g" "myAddress g' = myAddress g"
    "automatonState g' = automatonState g" "keeps (mem g) (mem g') lk"
proof -
  define D where D: "D = (wi, w) # D'"
  note con = con [folded D]
  obtain q where q: "wagonsToDeliver g = Some q" "brep q (map fst D) 0"
    using con by (auto simp: consistent_def)
  have bd: "building g (all_refs g D U + lk) cap wg" using con by (simp add: consistent_def)
  obtain a v where a: "wagonToSend g = Some \<lparr>p_wagon = Some (a, 0), p_womim = Some a\<rparr>" "womims (mem g) a = Some v"
    "length (bytes v) = cap" "holds (bytes v) 0 (enc_wagon wg)" "a \<notin># all_refs g D U + lk"
    "counts (mem g) (add_mset a (all_refs g D U + lk))"
    by (rule buildingE [OF bd])
  define R where "R = add_mset a (U_refs U + lts_refs (lts g) + lk)"
  have "held_ok (mem g) D" using con by (simp add: consistent_def)
  then have td: "to_deliver g (wi # map fst D') (w # map snd D')"
    using q D by (simp add: to_deliver_def held_ok_zip)
  have "add_mset a (all_refs g D U + lk) = R + mset (map wagon_ref (wi # map fst D'))"
    by (simp add: D R_def all_refs_def wrefs_def comp_def ac_simps)
  then have cs: "counts (mem g) (R + mset (map wagon_ref (wi # map fst D')))" using a(6) by simp
  obtain q' h where one: "utoDeliveries_turn False g = Inr (\<exists>m \<in> set (aw_msgs w). am_typ m = AM_TERMINATE,
      g\<lparr>wagonsToDeliver := Some q', mem := h,
        counters := (counters g)\<lparr>wagons_delivered := wagons_delivered (counters g) + 1,
          messages_delivered := messages_delivered (counters g) + word_of_nat (length (aw_msgs w)),
          messages_bytes_delivered := messages_bytes_delivered (counters g) +
            word_of_nat (sum_list (map (length \<circ> am_payload) (aw_msgs w)))\<rparr>,
        trace := trace g @ concat (map (upcalls (aw_sender w)) (aw_msgs w))\<rparr>)"
    "brep q' (map fst D') 0" "counts h (R + mset (map wagon_ref (map fst D')))"
    "list_all2 (wagon_at h) (map fst D') (map snd D')"
    "\<And>b w. b \<in># R \<Longrightarrow> womims (mem g) b = Some w \<Longrightarrow> \<exists>w'. womims h b = Some w' \<and> bytes w' = bytes w"
    by (rule utoDeliveries_turn_ok [OF td cs]) (rule that)
  let ?g = "g\<lparr>wagonsToDeliver := Some q', mem := h,
        counters := (counters g)\<lparr>wagons_delivered := wagons_delivered (counters g) + 1,
          messages_delivered := messages_delivered (counters g) + word_of_nat (length (aw_msgs w)),
          messages_bytes_delivered := messages_bytes_delivered (counters g) +
            word_of_nat (sum_list (map (length \<circ> am_payload) (aw_msgs w)))\<rparr>,
        trace := trace g @ concat (map (upcalls (aw_sender w)) (aw_msgs w))\<rparr>"
  have kp: "keeps (mem g) h R" using one(5) by (auto simp: keeps_def)
  obtain v' where v': "womims h a = Some v'" "bytes v' = bytes v"
    using keepsD [OF kp _ a(2)] by (auto simp: R_def)
  have refs: "R + mset (map wagon_ref (map fst D')) = add_mset a (all_refs ?g D' U + lk)"
    by (simp add: R_def all_refs_def wrefs_def comp_def ac_simps)
  have bd': "building ?g (all_refs ?g D' U + lk) cap wg"
  proof (rule buildingI [of _ a v'])
    show "counts (mem ?g) (add_mset a (all_refs ?g D' U + lk))" using one(3) unfolding refs by simp
    show "a \<notin># all_refs ?g D' U + lk" using a(5) by (auto simp: all_refs_def D)
  qed (use a v' in simp_all)
  have U: "held_ok h (U t r)" if tr: "t < 16" "r < 3" for t r
  proof (rule held_ok_keeps [OF _ kp])
    show "held_ok (mem g) (U t r)" using con tr by (simp add: consistent_def)
    show "wagon_ref (fst x) \<in># R" if "x \<in> set (U t r)" for x
      using in_U_refs [of x U t r] that tr by (simp add: R_def)
  qed
  have L: "lts_ok h l" if "l \<in> set (lts g)" for l
  proof (rule lts_ok_keeps [OF _ kp])
    show "lts_ok (mem g) l" using con that by (simp add: consistent_def)
    have "lref l \<subseteq># lts_refs (lts g)" using that by (rule lref_subset)
    then have "lref l \<subseteq># U_refs U + (lts_refs (lts g) + lk)"
      by (intro subset_mset.add_increasing subset_mset.add_increasing2) simp_all
    then show "lref l \<subseteq># R" unfolding R_def by (metis add.assoc add_mset_add_single subset_mset.add_increasing2 subset_mset.zero_le)
  qed
  have D'ok: "held_ok h D'" using one(4) by (simp add: held_ok_zip)
  have "consistent ?g D' U lk cap wg"
    unfolding consistent_def
    using con one(2) bd' D'ok U L by (auto simp: consistent_def intro: tables_same [of g U])
  moreover have "keeps (mem g) h lk" by (rule keeps_subset [OF kp]) (simp add: R_def subset_mset.add_increasing)
  ultimately show thesis
    using one(1) app_events_wagon [of w] by (intro that [of "\<exists>m \<in> set (aw_msgs w). am_typ m = AM_TERMINATE" ?g]) (simp_all add: wagon_events_def links_def)
qed

lemma deliver_turn_ok:
  assumes con: "consistent g D U lk cap wg" and run: "utoDeliveries_turn False g = Inr (b, g')"
  obtains wi w D' where "D = (wi, w) # D'" "consistent g' D' U lk cap wg"
    "app_events (trace g') = app_events (trace g) @ wagon_events w"
    "lts g' = lts g" "ntr g' = ntr g" "lis g' = lis g" "wagonMaxLen g' = wagonMaxLen g" "myAddress g' = myAddress g"
    "automatonState g' = automatonState g" "keeps (mem g) (mem g') lk"
proof -
  obtain q where q: "wagonsToDeliver g = Some q" "brep q (map fst D) 0"
    using con by (auto simp: consistent_def)
  have "D \<noteq> []"
  proof
    assume "D = []"
    then have "bqueueDequeue q = Inl Blocks" using q(2) by (intro brep_dequeue_blocks) simp
    then show False using run q(1) by (simp add: utoDeliveries_turn_def)
  qed
  then obtain wi w D' where D: "D = (wi, w) # D'" by (cases D) auto
  show thesis
    by (rule deliver_runs [OF con [unfolded D]]) (use run D in \<open>auto intro: that\<close>)
qed

text \<open>A message of the application: allocated, written and broadcast under the mutex.\<close>

lemma alloc_runs:
  assumes con: "consistent g D U lk cap wg" and W: "0 \<le> wagonMaxLen g" "wagonMaxLen g < 2 ^ 31"
    and fits: "int (length (enc_wagon wg) + 5 + length pl) \<le> wagonMaxLen g"
  obtains mp g1 g2 where "newmsg (int (length pl)) g = Inr (Some mp, g1)" "write_wts (\<lambda>b. wr b (mp + 5) pl) g1 = Inr g2"
    "consistent g2 D U lk cap (add_msg \<lparr>am_typ = AM_BROADCAST, am_payload = pl\<rparr> wg)" "trace g2 = trace g"
    "lts g2 = lts g" "ntr g2 = ntr g" "lis g2 = lis g" "wagonMaxLen g2 = wagonMaxLen g" "myAddress g2 = myAddress g"
    "automatonState g2 = automatonState g" "keeps (mem g) (mem g2) lk" "links g2 = links g"
proof -
  let ?R = "all_refs g D U + lk" and ?L = "length (enc_wagon wg)"
  have bd: "building g ?R cap wg" and cap: "wagonMaxLen g \<le> int cap" using con by (simp_all add: consistent_def)
  have f: "?L + 5 + length pl \<le> cap \<or> wagonMaxLen g < int (length pl)" using fits cap by linarith
  have "int (?L + 5 + length pl) < 2 ^ 31" using fits W(2) by (rule le_less_trans)
  then have s: "?L + 5 + length pl < 2 ^ 31" by simp
  have nl: "\<not> wagonMaxLen g < int (length pl)" using fits by linarith
  obtain g1' a h where n: "newmsg (int (length pl)) g = Inr (Some (int ?L), g1')"
    "g1' = g\<lparr>counters := (counters g)\<lparr>newmsg_calls := newmsg_calls (counters g) + 1\<rparr>,
       wagonToSend := Some \<lparr>p_wagon = Some (a, 0), p_womim = Some a\<rparr>, mem := mem g1'\<rparr>"
    "write_wts (\<lambda>b. wr b (int ?L + 5) pl) g1' = Inr (g1'\<lparr>mem := h\<rparr>)"
    "building (g1'\<lparr>mem := h\<rparr>) ?R cap (add_msg \<lparr>am_typ = AM_BROADCAST, am_payload = pl\<rparr> wg)"
    "\<forall>b \<in># ?R. womims h b = womims (mem g) b"
  proof (rule newmsg_ok [OF bd W disjI1 [OF fits] f s])
    fix g' a
    assume x: "newmsg (int (length pl)) g = Inr (Some (int ?L), g')"
      "g' = g\<lparr>counters := (counters g)\<lparr>newmsg_calls := newmsg_calls (counters g) + 1\<rparr>,
         wagonToSend := Some \<lparr>p_wagon = Some (a, 0), p_womim = Some a\<rparr>, mem := mem g'\<rparr>"
      and y: "\<And>pl'. length pl' = length pl \<Longrightarrow> \<exists>h. write_wts (\<lambda>b. wr b (int ?L + 5) pl') g' = Inr (g'\<lparr>mem := h\<rparr>) \<and>
       building (g'\<lparr>mem := h\<rparr>) ?R (if wagonMaxLen g < int (length pl) then ?L + 5 + length pl else cap)
         (add_msg \<lparr>am_typ = AM_BROADCAST, am_payload = pl'\<rparr> wg) \<and> (\<forall>b \<in># ?R. womims h b = womims (mem g) b)"
    from y [OF refl] obtain h where "write_wts (\<lambda>b. wr b (int ?L + 5) pl) g' = Inr (g'\<lparr>mem := h\<rparr>)"
      "building (g'\<lparr>mem := h\<rparr>) ?R (if wagonMaxLen g < int (length pl) then ?L + 5 + length pl else cap)
         (add_msg \<lparr>am_typ = AM_BROADCAST, am_payload = pl\<rparr> wg)" "\<forall>b \<in># ?R. womims h b = womims (mem g) b"
      by blast
    then show thesis unfolding if_not_P [OF nl] by (intro that [OF x])
  qed
  have e: "trace g1' = trace g" "lts g1' = lts g" "ntr g1' = ntr g" "lis g1' = lis g" "wagonMaxLen g1' = wagonMaxLen g"
    "links g1' = links g" "myAddress g1' = myAddress g" "automatonState g1' = automatonState g" "unstableWagons g1' = unstableWagons g"
    "wagonsToDeliver g1' = wagonsToDeliver g"
    by (subst n(2), simp add: links_def)+
  have "consistent (g1'\<lparr>mem := h\<rparr>) D U lk cap (add_msg \<lparr>am_typ = AM_BROADCAST, am_payload = pl\<rparr> wg)"
    by (rule consistent_heap [OF con _ cap]) (use n(4,5) e in \<open>auto simp: keeps_def\<close>)
  moreover have "keeps (mem g) h lk" using n(5) by (auto simp: keeps_def)
  moreover have "links (g1'\<lparr>mem := h\<rparr>) = links g1'" by (simp add: links_def)
  ultimately show thesis using e n(1,3) by (intro that [of "int ?L" g1' "g1'\<lparr>mem := h\<rparr>"]) simp_all
qed

lemma alloc_ok:
  assumes con: "consistent g D U lk cap wg" and W: "0 \<le> wagonMaxLen g" "wagonMaxLen g < 2 ^ 31"
    and fits: "int (length (enc_wagon wg) + 5 + length pl) \<le> wagonMaxLen g"
    and run: "newmsg (int (length pl)) g = Inr (Some mp, g1)" "write_wts (\<lambda>b. wr b (mp + 5) pl) g1 = Inr g2"
  obtains "consistent g2 D U lk cap (add_msg \<lparr>am_typ = AM_BROADCAST, am_payload = pl\<rparr> wg)" "trace g2 = trace g"
    "lts g2 = lts g" "ntr g2 = ntr g" "lis g2 = lis g" "wagonMaxLen g2 = wagonMaxLen g" "myAddress g2 = myAddress g"
    "automatonState g2 = automatonState g" "keeps (mem g) (mem g2) lk"
  by (rule alloc_runs [OF con W fits]) (use run in \<open>auto intro: that\<close>)

lemma newmsg_full_same: "newmsg n g = Inr (None, g') \<Longrightarrow> core g' = core g \<and> automatonState g' = automatonState g"
  by (auto simp: newmsg_def newmsg_turn_def bindE_eq_Inr core_def split: if_split_asm)

text \<open>A message that arrives.\<close>

lemma arrival_ok:
  assumes con: "consistent g D U lk cap wg"
    and h: "womims h = (womims (mem g))(next_id (mem g) \<mapsto> \<lparr>counter = 1, bytes = bs\<rparr>)" "next_id h = Suc (next_id (mem g))"
  shows "consistent (g\<lparr>mem := h\<rparr>) D U (add_mset (next_id (mem g)) lk) cap wg"
proof (rule consistent_heap [OF con])
  let ?n = "next_id (mem g)" and ?R = "all_refs g D U + lk"
  have bd: "building g ?R cap wg" using con by (simp add: consistent_def)
  obtain a v where a: "wagonToSend g = Some \<lparr>p_wagon = Some (a, 0), p_womim = Some a\<rparr>" "womims (mem g) a = Some v"
    "length (bytes v) = cap" "holds (bytes v) 0 (enc_wagon wg)" "a \<notin># ?R" "counts (mem g) (add_mset a ?R)"
    by (rule buildingE [OF bd])
  have fresh: "?n \<notin># add_mset a ?R" by (rule counts_fresh [OF a(6)])
  have "counts h (add_mset ?n (add_mset a ?R))" by (rule counts_new [OF a(6) h]) simp
  then show "building (g\<lparr>mem := h\<rparr>) (all_refs g D U + add_mset ?n lk) cap wg"
    by (intro buildingI [of _ a v]) (use a fresh h in \<open>auto simp: add_mset_commute\<close>)
  show "keeps (mem g) (mem (g\<lparr>mem := h\<rparr>)) (all_refs g D U)"
    using fresh h(1) by (auto simp: keeps_def)
qed (use con in \<open>simp_all add: consistent_def\<close>)

section \<open>The life of a member of a circuit\<close>

text \<open>The state of the process with, as history, the buffers of the messages not treated yet,
  the content of the wagon under construction and the batch of each visit of a train.\<close>

record life =
  l_now :: globals
  l_msgs :: "nat multiset"
  l_own :: awagon
  l_batches :: "awagon list list"

text \<open>The steps: a recent train, a train that is not recent, another message that leaves the
  process in the circuit with others, a message of the application (or a wait), a turn of the
  delivering thread, a message that arrives, and what the other threads do to connections
  and counters.\<close>

inductive life_step :: "env \<Rightarrow> life \<Rightarrow> life \<Rightarrow> bool" for e where
  visit: "l_msgs s = add_mset p lk \<Longrightarrow> train_in (l_now s) p st circuit ws t \<Longrightarrow> in_step st (lts (l_now s) ! t) \<Longrightarrow>
    isRecentTrain (ntr (l_now s)) st (lts (l_now s)) (word_of_int (lis (l_now s))) = Inr True \<Longrightarrow>
    depart_room (l_now s) t (l_own s) \<Longrightarrow> length (enc_wagon (l_own s)) + 144 < 2 ^ 31 \<Longrightarrow>
    stateMachine e p (l_now s) = Inr g' \<Longrightarrow>
    life_step e s \<lparr>l_now = g', l_msgs = lk, l_own = wagon_after (l_now s) t circuit (l_own s),
      l_batches = l_batches s @ [batch (l_now s) t st circuit ws (l_own s)]\<rparr>"
| stale: "l_msgs s = add_mset p lk \<Longrightarrow> train_in (l_now s) p st circuit ws t \<Longrightarrow>
    isRecentTrain (ntr (l_now s)) st (lts (l_now s)) (word_of_int (lis (l_now s))) = Inr False \<Longrightarrow>
    stateMachine e p (l_now s) = Inr g' \<Longrightarrow> life_step e s (s\<lparr>l_now := g', l_msgs := lk\<rparr>)"
| other: "l_msgs s = add_mset p lk \<Longrightarrow> msg_at p (l_now s) msg_type = Inr mt \<Longrightarrow> mt \<noteq> TRAIN \<Longrightarrow>
    stateMachine e p (l_now s) = Inr g' \<Longrightarrow> automatonState g' = SEVERAL \<Longrightarrow> life_step e s (s\<lparr>l_now := g', l_msgs := lk\<rparr>)"
| alloc: "newmsg (int (length pl)) (l_now s) = Inr (Some mp, g1) \<Longrightarrow> write_wts (\<lambda>b. wr b (mp + 5) pl) g1 = Inr g2 \<Longrightarrow>
    utoBroadcast g2 = Inr (rc, g') \<Longrightarrow> int (length (enc_wagon (l_own s)) + 5 + length pl) \<le> wagonMaxLen (l_now s) \<Longrightarrow>
    life_step e s (s\<lparr>l_now := g', l_own := add_msg \<lparr>am_typ = AM_BROADCAST, am_payload = pl\<rparr> (l_own s)\<rparr>)"
| full: "newmsg n (l_now s) = Inr (None, g') \<Longrightarrow> life_step e s (s\<lparr>l_now := g'\<rparr>)"
| deliver: "utoDeliveries_turn False (l_now s) = Inr (b, g') \<Longrightarrow> life_step e s (s\<lparr>l_now := g'\<rparr>)"
| arrival: "comms (l_now s) c = Some cm \<Longrightarrow> \<not> aborted cm \<Longrightarrow> calm (reads inb) \<Longrightarrow>
    bs = to_bytes 4 (c_int (length bs)) @ tl' \<Longrightarrow> 4 < length bs \<Longrightarrow> length bs < 2 ^ 31 \<Longrightarrow>
    stream inb = bs @ rest \<Longrightarrow> length bs \<le> grants (reads inb) \<Longrightarrow>
    receive self c inb (l_now s) = Inr (Some a, inb', g') \<Longrightarrow> life_step e s (s\<lparr>l_now := g', l_msgs := add_mset a (l_msgs s)\<rparr>)"
| net: "core g' = core (l_now s) \<Longrightarrow> automatonState g' = SEVERAL \<Longrightarrow> life_step e s (s\<lparr>l_now := g'\<rparr>)"

text \<open>All batches that went through the delay line, which starts empty: two rounds of nothing.\<close>

definition through :: "life \<Rightarrow> awagon list list" where
  "through s = replicate (2 * nat (ntr (l_now s))) [] @ l_batches s"

definition life_ok :: "event list \<Rightarrow> awagon list \<Rightarrow> life \<Rightarrow> bool" where
  "life_ok E0 W0 s \<longleftrightarrow>
     automatonState (l_now s) = SEVERAL \<and> trains_named (l_now s) \<and> 7 \<le> wagonMaxLen (l_now s) \<and> wagonMaxLen (l_now s) < 2 ^ 31 \<and>
     (\<forall>m \<in> set (aw_msgs (l_own s)). readable m) \<and>
     (\<exists>D U cap told. consistent (l_now s) D U (l_msgs s) cap (l_own s) \<and>
        line (l_now s) U (drop (length (l_batches s)) (through s)) \<and>
        told @ map snd D = W0 @ concat (take (length (l_batches s)) (through s)) \<and>
        app_events (trace (l_now s)) = E0 @ concat (map wagon_events told))"

lemma life_okI:
  assumes "automatonState (l_now s) = SEVERAL" "trains_named (l_now s)" "7 \<le> wagonMaxLen (l_now s)" "wagonMaxLen (l_now s) < 2 ^ 31"
    "\<forall>m \<in> set (aw_msgs (l_own s)). readable m" "consistent (l_now s) D U (l_msgs s) cap (l_own s)"
    "line (l_now s) U (drop (length (l_batches s)) (through s))"
    "told @ map snd D = W0 @ concat (take (length (l_batches s)) (through s))"
    "app_events (trace (l_now s)) = E0 @ concat (map wagon_events told)"
  shows "life_ok E0 W0 s"
  using assms unfolding life_ok_def by blast

lemma line_same:
  "line g U Q \<Longrightarrow> lts g' = lts g \<Longrightarrow> ntr g' = ntr g \<Longrightarrow> lis g' = lis g \<Longrightarrow> line g' U Q"
  by (simp add: line_def rounds_ok_def next_train_def last_round_def)

lemma trains_named_same: "trains_named g \<Longrightarrow> lts g' = lts g \<Longrightarrow> ntr g' = ntr g \<Longrightarrow> trains_named g'"
  by (simp add: trains_named_def)

lemma isRecentTrain_id:
  assumes "isRecentTrain (ntr g) st (lts g) (word_of_int (lis g)) = Inr True" "rounds_ok g" "ntr g \<le> 16" "ntr g \<le> int (length (lts g))"
    "sint (stamp_id st) = int t"
  shows "t = next_train g 0"
proof -
  have l: "0 \<le> lis g" "lis g < ntr g" using assms(2) by (simp_all add: rounds_ok_def)
  have "sint (stamp_id st) = (lis g + 1) mod ntr g"
    using assms(1) isRecentTrain_distance [OF l assms(4,3) refl, of st] by simp
  then have "int t = (lis g + 1) mod ntr g" using assms(5) by simp
  also have "\<dots> = int (next_train g 0)" using l by (simp add: next_train_def zmod_int add.commute)
  finally show ?thesis by simp
qed

lemma wagon_after_readable:
  "\<forall>m \<in> set (aw_msgs wg). readable m \<Longrightarrow> \<forall>m \<in> set (aw_msgs (wagon_after g t c wg)). readable m"
  by (simp add: wagon_after_def empty_wagon_def announced_readable)

text \<open>What a step that leaves the trains and the history as they are has to keep.\<close>

lemma life_ok_kept:
  assumes ok: "life_ok E0 W0 s" and s': "l_batches s' = l_batches s" "ntr (l_now s') = ntr (l_now s)" "lts (l_now s') = lts (l_now s)"
      "lis (l_now s') = lis (l_now s)" "wagonMaxLen (l_now s') = wagonMaxLen (l_now s)" "automatonState (l_now s') = SEVERAL"
      "app_events (trace (l_now s')) = app_events (trace (l_now s))" "\<forall>m \<in> set (aw_msgs (l_own s')). readable m"
    and con: "\<And>D U cap. consistent (l_now s) D U (l_msgs s) cap (l_own s) \<Longrightarrow>
      \<exists>cap'. consistent (l_now s') D U (l_msgs s') cap' (l_own s')"
  shows "life_ok E0 W0 s'"
proof -
  obtain D U cap told where *: "consistent (l_now s) D U (l_msgs s) cap (l_own s)"
    "line (l_now s) U (drop (length (l_batches s)) (through s))"
    "told @ map snd D = W0 @ concat (take (length (l_batches s)) (through s))"
    "app_events (trace (l_now s)) = E0 @ concat (map wagon_events told)"
    using ok by (auto simp: life_ok_def)
  have th: "through s' = through s" using s'(1,2) by (simp add: through_def)
  obtain cap' where c: "consistent (l_now s') D U (l_msgs s') cap' (l_own s')" using con [OF *(1)] by blast
  show ?thesis
    by (rule life_okI [where D = D and U = U and cap = cap' and told = told])
      (use ok s' c * th line_same [OF *(2)] trains_named_same [of "l_now s" "l_now s'"] in \<open>auto simp: life_ok_def\<close>)
qed

lemma life_ok_core:
  assumes "life_ok E0 W0 s" "core g' = core (l_now s)" "automatonState g' = SEVERAL"
  shows "life_ok E0 W0 (s\<lparr>l_now := g'\<rparr>)"
proof (rule life_ok_kept [OF assms(1)])
  show "\<exists>cap'. consistent (l_now (s\<lparr>l_now := g'\<rparr>)) D U (l_msgs (s\<lparr>l_now := g'\<rparr>)) cap' (l_own (s\<lparr>l_now := g'\<rparr>))"
    if "consistent (l_now s) D U (l_msgs s) cap (l_own s)" for D U cap
    using consistent_core [OF that assms(2)] by (intro exI [of _ cap]) simp
qed (use assms in \<open>simp_all add: core_eq life_ok_def\<close>)

lemma life_ok_visit:
  assumes ok: "life_ok E0 W0 s" and lk: "l_msgs s = add_mset p lk" and tr: "train_in (l_now s) p st circuit ws t"
    and st: "in_step st (lts (l_now s) ! t)"
    and recent: "isRecentTrain (ntr (l_now s)) st (lts (l_now s)) (word_of_int (lis (l_now s))) = Inr True"
    and room: "depart_room (l_now s) t (l_own s)" "length (enc_wagon (l_own s)) + 144 < 2 ^ 31"
    and run: "stateMachine e p (l_now s) = Inr g'"
  shows "life_ok E0 W0 \<lparr>l_now = g', l_msgs = lk, l_own = wagon_after (l_now s) t circuit (l_own s),
      l_batches = l_batches s @ [batch (l_now s) t st circuit ws (l_own s)]\<rparr>"
proof -
  let ?g = "l_now s" and ?n = "length (l_batches s)" and ?b = "batch (l_now s) t st circuit ws (l_own s)"
  let ?r = "round_of st (lts ?g ! t)" and ?th = "through s"
  obtain D U cap told where *: "consistent ?g D U (add_mset p lk) cap (l_own s)"
    "line ?g U (drop ?n ?th)" "told @ map snd D = W0 @ concat (take ?n ?th)"
    "app_events (trace ?g) = E0 @ concat (map wagon_events told)"
    using ok lk by (auto simp: life_ok_def)
  have a: "automatonState ?g = SEVERAL" "trains_named ?g" "7 \<le> wagonMaxLen ?g" "wagonMaxLen ?g < 2 ^ 31"
    "\<forall>m \<in> set (aw_msgs (l_own s)). readable m"
    using ok by (simp_all add: life_ok_def)
  obtain X cap' where v: "consistent g' (D @ U t (delivered_round ?r))
       (U(t := (U t)(delivered_round ?r := [], ?r := U t ?r @ X))) lk cap' (wagon_after ?g t circuit (l_own s))"
    "map snd X = ?b" "lis g' = int t" "trains_named g'" "ntr g' = ntr ?g" "lts g' = (lts ?g)[t := lts g' ! t]"
    "stamp_round (lts_stamp (lts g' ! t)) = word_of_int (int ?r)" "wagonMaxLen g' = wagonMaxLen ?g"
    "app_events (trace g') = app_events (trace ?g)" "myAddress g' = myAddress ?g" "automatonState g' = SEVERAL"
    by (rule recent_train_kept [OF *(1) tr a(3) room a(5,2) recent run a(1)])
  have len: "length (lts ?g) = 16" and n16: "1 \<le> ntr ?g" "ntr ?g \<le> 16"
    using *(1) by (simp_all add: consistent_def tables_def)
  have id: "sint (stamp_id st) = int t" "t < nat (ntr ?g)" using tr by (auto simp: train_in_def)
  have t: "t = next_train ?g 0"
    by (rule isRecentTrain_id [OF recent _ n16(2) _ id(1)]) (use *(2) n16 len in \<open>simp_all add: line_def\<close>)
  have t16: "t < length (lts ?g)" using id(2) n16(2) len by simp
  note lv = line_visit [OF *(2) st t t16 v(6,3,5,7) refl]
  let ?s = "\<lparr>l_now = g', l_msgs = lk, l_own = wagon_after ?g t circuit (l_own s), l_batches = l_batches s @ [?b]\<rparr>"
  have th: "through ?s = ?th @ [?b]" using v(5) by (simp add: through_def)
  have lt: "?n < length ?th" using n16 by (simp add: through_def)
  have dr: "drop (Suc ?n) ?th = tl (drop ?n ?th)" by (simp add: drop_Suc drop_tl)
  have hd: "take (Suc ?n) ?th = take ?n ?th @ [hd (drop ?n ?th)]"
    using lt by (simp add: take_Suc_conv_app_nth hd_drop_conv_nth)
  show ?thesis
  proof (rule life_okI [where D = "D @ U t (delivered_round ?r)" and cap = cap' and told = told
        and U = "U(t := (U t)(delivered_round ?r := [], ?r := U t ?r @ X))"])
    show "line (l_now ?s) (U(t := (U t)(delivered_round ?r := [], ?r := U t ?r @ X))) (drop (length (l_batches ?s)) (through ?s))"
      using lv(1) [of X] lt v(2) by (simp add: th dr)
    have "told @ map snd (D @ U t (delivered_round ?r)) = (W0 @ concat (take ?n ?th)) @ hd (drop ?n ?th)"
      using lv(2) *(3) by simp
    also have "\<dots> = W0 @ concat (take (Suc ?n) ?th)" by (simp add: hd)
    finally show "told @ map snd (D @ U t (delivered_round ?r)) = W0 @ concat (take (length (l_batches ?s)) (through ?s))"
      unfolding th using lt by simp
  qed (use v(1,4,8,9,11) a wagon_after_readable *(4) in simp_all)
qed

lemma life_ok_step:
  assumes "life_step e s s'" "life_ok E0 W0 s"
  shows "life_ok E0 W0 s'"
  using assms(1)
proof (cases rule: life_step.cases)
  case (visit p lk st circuit ws t g')
  then show ?thesis using life_ok_visit [OF assms(2)] by simp
next
  case (stale p lk st circuit ws t g')
  obtain v where v: "womims (mem (l_now s)) p = Some v" "holds (bytes v) 0 (enc_train st circuit ws)"
    using stale(3) by (auto simp: train_in_def)
  have m: "msg_at p (l_now s) msg_type = Inr TRAIN" "msg_at p (l_now s) train_circuit = Inr circuit"
    "msg_at p (l_now s) train_stamp = Inr st"
    using v by (simp_all add: msg_at_def get_womim_def holds_enc_train)
  have a: "automatonState (l_now s) = SEVERAL" using assms(2) by (simp add: life_ok_def)
  have fr: "free_msg p (l_now s) = Inr g'"
    using stale(4,5) a m by (auto simp: stateMachine_def on_several_def several_train_def split: if_split_asm)
  then obtain h where h: "g' = (l_now s)\<lparr>mem := h\<rparr>" by (auto simp: free_msg_def bindE_eq_Inr)
  show ?thesis
    unfolding stale(1)
  proof (rule life_ok_kept [OF assms(2)])
    show "\<exists>cap'. consistent (l_now (s\<lparr>l_now := g', l_msgs := lk\<rparr>)) D U (l_msgs (s\<lparr>l_now := g', l_msgs := lk\<rparr>)) cap'
        (l_own (s\<lparr>l_now := g', l_msgs := lk\<rparr>))"
      if "consistent (l_now s) D U (l_msgs s) cap (l_own s)" for D U cap
    proof -
      from that stale(2) have "consistent (l_now s) D U (add_mset p lk) cap (l_own s)" by simp
      then show ?thesis using fr by (elim free_msg_ok) auto
    qed
  qed (use assms(2) a in \<open>simp_all add: h life_ok_def\<close>)
next
  case (other p lk mt g')
  have a: "automatonState (l_now s) = SEVERAL" using assms(2) by (simp add: life_ok_def)
  obtain g1 g2 where g: "core g1 = core (l_now s)" "free_msg p g1 = Inr g2" "core g' = core g2"
    by (rule other_message_core [OF other(5) a other(6,3,4)])
  then obtain h where h: "g2 = g1\<lparr>mem := h\<rparr>" by (auto simp: free_msg_def bindE_eq_Inr)
  show ?thesis
    unfolding other(1)
  proof (rule life_ok_kept [OF assms(2)])
    show "\<exists>cap'. consistent (l_now (s\<lparr>l_now := g', l_msgs := lk\<rparr>)) D U (l_msgs (s\<lparr>l_now := g', l_msgs := lk\<rparr>)) cap'
        (l_own (s\<lparr>l_now := g', l_msgs := lk\<rparr>))"
      if "consistent (l_now s) D U (l_msgs s) cap (l_own s)" for D U cap
    proof -
      from that other(2) have "consistent g1 D U (add_mset p lk) cap (l_own s)" by (simp add: consistent_core [OF _ g(1)])
      then have "consistent g2 D U lk cap (l_own s)" using g(2) by (elim free_msg_ok) auto
      then have "consistent g' D U lk cap (l_own s)" by (rule consistent_core [OF _ g(3)])
      then show ?thesis by auto
    qed
  qed (use assms(2) g other(6) in \<open>simp_all add: h life_ok_def core_eq\<close>)
next
  case (alloc pl mp g1 g2 rc g')
  have a: "automatonState (l_now s) = SEVERAL" and W: "0 \<le> wagonMaxLen (l_now s)" "wagonMaxLen (l_now s) < 2 ^ 31"
    using assms(2) by (simp_all add: life_ok_def)
  obtain D0 U0 cap0 where c0: "consistent (l_now s) D0 U0 (l_msgs s) cap0 (l_own s)"
    using assms(2) by (auto simp: life_ok_def)
  have same: "lts g2 = lts (l_now s)" "ntr g2 = ntr (l_now s)" "lis g2 = lis (l_now s)" "wagonMaxLen g2 = wagonMaxLen (l_now s)"
    "automatonState g2 = SEVERAL" "trace g2 = trace (l_now s)"
    by (rule alloc_ok [OF c0 W alloc(5,2,3)]; use a in simp)+
  have g': "g' = g2" using alloc(4) same(5) by (simp add: utoBroadcast_def)
  show ?thesis
    unfolding alloc(1)
  proof (rule life_ok_kept [OF assms(2)])
    show "\<exists>cap'. consistent (l_now (s\<lparr>l_now := g', l_own := add_msg \<lparr>am_typ = AM_BROADCAST, am_payload = pl\<rparr> (l_own s)\<rparr>)) D U
        (l_msgs (s\<lparr>l_now := g', l_own := add_msg \<lparr>am_typ = AM_BROADCAST, am_payload = pl\<rparr> (l_own s)\<rparr>)) cap'
        (l_own (s\<lparr>l_now := g', l_own := add_msg \<lparr>am_typ = AM_BROADCAST, am_payload = pl\<rparr> (l_own s)\<rparr>))"
      if "consistent (l_now s) D U (l_msgs s) cap (l_own s)" for D U cap
      by (rule alloc_ok [OF that W alloc(5,2,3)]) (auto simp: g')
  qed (use assms(2) same in \<open>auto simp: g' life_ok_def readable_def AM_defs\<close>)
next
  case (full n g')
  have c: "core g' = core (l_now s)" "automatonState g' = SEVERAL"
    using newmsg_full_same [OF full(2)] assms(2) by (simp_all add: life_ok_def)
  show ?thesis unfolding full(1) by (rule life_ok_core [OF assms(2) c])
next
  case (deliver b g')
  obtain D U cap told where *: "consistent (l_now s) D U (l_msgs s) cap (l_own s)"
    "line (l_now s) U (drop (length (l_batches s)) (through s))"
    "told @ map snd D = W0 @ concat (take (length (l_batches s)) (through s))"
    "app_events (trace (l_now s)) = E0 @ concat (map wagon_events told)"
    using assms(2) by (auto simp: life_ok_def)
  obtain wi w D' where d: "D = (wi, w) # D'" "consistent g' D' U (l_msgs s) cap (l_own s)"
    "app_events (trace g') = app_events (trace (l_now s)) @ wagon_events w"
    "lts g' = lts (l_now s)" "ntr g' = ntr (l_now s)" "lis g' = lis (l_now s)" "wagonMaxLen g' = wagonMaxLen (l_now s)"
    "myAddress g' = myAddress (l_now s)" "automatonState g' = automatonState (l_now s)"
    by (rule deliver_turn_ok [OF *(1) deliver(2)])
  have th: "through (s\<lparr>l_now := g'\<rparr>) = through s" using d(5) by (simp add: through_def)
  show ?thesis
    unfolding deliver(1)
    by (rule life_okI [where D = D' and U = U and cap = cap and told = "told @ [w]"])
      (use assms(2) d * th line_same [OF *(2)] trains_named_same [of "l_now s" g'] in \<open>simp_all add: life_ok_def\<close>)
next
  case (arrival c cm inb bs tl' rest self a inb' g')
  let ?n = "next_id (mem (l_now s))"
  obtain cm' inb'' cnt h where r:
    "receive self c inb (l_now s) = Inr (Some ?n, inb'', (set_comm c (Some cm') (l_now s))\<lparr>counters := cnt, mem := h\<rparr>)"
    "next_id h = Suc ?n" "womims h = (womims (mem (l_now s)))(?n \<mapsto> \<lparr>counter = 1, bytes = bs\<rparr>)"
    by (rule receive_ok [OF arrival(2-9), where self = self]) (rule that)
  let ?g = "(set_comm c (Some cm') (l_now s))\<lparr>counters := cnt\<rparr>"
  have g': "g' = ?g\<lparr>mem := h\<rparr>" "a = ?n" using arrival(10) r(1) by simp_all
  have ac: "automatonState g' = SEVERAL" using assms(2) by (simp add: g' life_ok_def set_comm_def)
  have cg: "core ?g = core (l_now s)" by simp
  show ?thesis
    unfolding arrival(1)
  proof (rule life_ok_kept [OF assms(2)])
    show "\<exists>cap'. consistent (l_now (s\<lparr>l_now := g', l_msgs := add_mset a (l_msgs s)\<rparr>)) D U
        (l_msgs (s\<lparr>l_now := g', l_msgs := add_mset a (l_msgs s)\<rparr>)) cap' (l_own (s\<lparr>l_now := g', l_msgs := add_mset a (l_msgs s)\<rparr>))"
      if "consistent (l_now s) D U (l_msgs s) cap (l_own s)" for D U cap
      using arrival_ok [OF consistent_core [OF that cg], of h bs] r(2,3) by (auto simp: g')
  qed (use assms(2) ac in \<open>simp_all add: g' set_comm_def life_ok_def\<close>)
next
  case (net g')
  show ?thesis unfolding net(1) by (rule life_ok_core [OF assms(2) net(2,3)])
qed

text \<open>A run, and the state it starts from: nothing unstable yet, some wagons \<open>W0\<close> to deliver.\<close>

definition life_run :: "env \<Rightarrow> life \<Rightarrow> life \<Rightarrow> bool" where
  "life_run e = (life_step e)\<^sup>*\<^sup>*"

definition life_start :: "life \<Rightarrow> awagon list \<Rightarrow> bool" where
  "life_start s W0 \<longleftrightarrow>
     automatonState (l_now s) = SEVERAL \<and> trains_named (l_now s) \<and> 7 \<le> wagonMaxLen (l_now s) \<and> wagonMaxLen (l_now s) < 2 ^ 31 \<and>
     (\<forall>m \<in> set (aw_msgs (l_own s)). readable m) \<and> rounds_ok (l_now s) \<and> l_batches s = [] \<and>
     (\<exists>D cap. consistent (l_now s) D no_held (l_msgs s) cap (l_own s) \<and> map snd D = W0)"

lemma life_ok_start:
  assumes "life_start s W0"
  shows "life_ok (app_events (trace (l_now s))) W0 s"
proof -
  obtain D cap where *: "consistent (l_now s) D no_held (l_msgs s) cap (l_own s)" "map snd D = W0"
    using assms by (auto simp: life_start_def)
  have "line (l_now s) no_held (replicate (2 * nat (ntr (l_now s))) [])"
    using assms by (simp add: line_def no_held_def life_start_def)
  then show ?thesis
    by (intro life_okI [where D = D and U = no_held and cap = cap and told = "[]"])
      (use assms * in \<open>simp_all add: life_start_def through_def\<close>)
qed

lemma life_ok_run: "life_run e s s' \<Longrightarrow> life_ok E0 W0 s \<Longrightarrow> life_ok E0 W0 s'"
  unfolding life_run_def by (induction rule: rtranclp_induct) (auto dest: life_ok_step)

lemma through_take: "concat (take (length (l_batches s)) (through s)) =
    concat (take (length (l_batches s) - 2 * nat (ntr (l_now s))) (l_batches s))"
proof -
  have "concat (take n (replicate k [] @ bs)) = concat (take (n - k) bs)" for n k and bs :: "awagon list list"
    by (simp add: take_replicate)
  then show ?thesis unfolding through_def by blast
qed

end
