(* ===== verification/LostPred.thy ===== *)
theory LostPred
  imports Life
begin

text \<open>
  The loss of the predecessor: the loop of \<^verbatim>\<open>stateMachine\<close> that looks backwards along the
  circuit for one that answers, as a search over the list of the members met before the
  process itself, and what becomes of a process that finds nobody.
\<close>

section \<open>The members between two ranks\<close>

text \<open>The members strictly between the ranks \<open>i\<close> and \<open>i - d\<close>, from \<open>i\<close> backwards.\<close>

definition members_back :: "addressSet \<Rightarrow> int \<Rightarrow> nat \<Rightarrow> address list" where
  "members_back c i d = filter (\<lambda>a. addrIsMember a c) (map (\<lambda>k. rankToAddr (ringBack i k)) [1..<d])"

lemma ringBack_ringBack: "ringBack (ringBack i k) j = ringBack i (k + j)"
  by (simp add: ringBack_def mod_simps algebra_simps)

lemma members_back_nearest:
  assumes "0 < k" "k \<le> d" "\<forall>j. 0 < j \<and> j < k \<longrightarrow> \<not> bit c (nat (ringBack i j))" "bit c (nat (ringBack i k))"
  shows "members_back c i d = (if k = d then [] else rankToAddr (ringBack i k) # members_back c (ringBack i k) (d - k))"
proof -
  have mem: "addrIsMember (rankToAddr (ringBack i j)) c \<longleftrightarrow> bit c (nat (ringBack i j))" for j
    by (simp add: addrIsMember_rank ringBack_range)
  have none: "filter (\<lambda>a. addrIsMember a c) (map (\<lambda>k. rankToAddr (ringBack i k)) [1..<k]) = []"
    using assms(3) by (auto simp: filter_empty_conv mem)
  show ?thesis
  proof (cases "k = d")
    case True
    then show ?thesis using none by (simp add: members_back_def)
  next
    case False
    then have kd: "k < d" using assms(2) by simp
    have "[1..<d] = [1..<k] @ [k..<d]" using kd assms(1) upt_add_eq_append [of 1 k "d - k"] by simp
    moreover have "[Suc k..<d] = map (\<lambda>j. j + k) [1..<d - k]" by (rule nth_equalityI) simp_all
    ultimately have "[1..<d] = [1..<k] @ k # map (\<lambda>j. j + k) [1..<d - k]" using kd by (simp add: upt_conv_Cons)
    then show ?thesis
      using False none assms(4) by (simp add: members_back_def mem ringBack_ringBack comp_def add.commute)
  qed
qed

text \<open>The addresses the loop tries.\<close>

definition tried :: "addressSet \<Rightarrow> address \<Rightarrow> address \<Rightarrow> address list" where
  "tried c pr me = (if pr = me then [] else pr # members_back c (addrToRank pr) (nat ((addrToRank pr - addrToRank me) mod 16)))"

fun try_preds :: "env \<Rightarrow> address \<Rightarrow> address list \<Rightarrow> globals \<Rightarrow> (bool \<times> globals) result" where
  "try_preds e me [] g = Inr (False, g)"
| "try_preds e me (a # as) g =
     bindE (openConnection e a True g) (\<lambda>(r, g1).
       if r \<noteq> - 1
       then bindE (sendOther e a True NEWSUCC (myAddress g1) g1) (\<lambda>(_, g2). Inr (True, g2))
       else let (came, gone) = addrAppendGone (cameProc g1) (goneProc g1) a in
            try_preds e me as (g1\<lparr>cameProc := came, goneProc := gone, prec := (case as of [] \<Rightarrow> me | b # _ \<Rightarrow> b)\<rparr>))"

lemma openConnection_same:
  assumes "openConnection e a b g = Inr (r, g')"
  shows "myAddress g' = myAddress g" "lts g' = lts g" "lis g' = lis g" "prec g' = prec g"
  using openConnection_frame [OF assms] openConnection_core [OF assms] by (simp_all add: control_def core_eq)

text \<open>The loop is the search over the list, and it ends: each turn goes back at least one rank
  and cannot go past the process, which is a member of its circuit.\<close>

lemma lose_pred_search:
  assumes "0 \<le> lis g" "nat (lis g) < length (lts g)" "c = lts_circuit (lts g ! nat (lis g))" "bit c (nat m)"
    and "0 \<le> m" "m < 16" "myAddress g = rankToAddr m" "0 \<le> i" "i < 16" "prec g = rankToAddr i" "m = ringBack i d" "d < 16" "d \<le> n"
  shows "lose_pred n e g = try_preds e (myAddress g) (if d = 0 then [] else prec g # members_back c i d) g"
  using assms
proof (induction d arbitrary: n g i rule: less_induct)
  case (less d)
  have me: "addrIsEqual (prec g) (myAddress g) \<longleftrightarrow> d = 0"
  proof -
    have "i = m \<longleftrightarrow> d = 0"
    proof
      assume "i = m"
      then have "(i - int d) mod 16 = i" using less.prems(11) by (simp add: ringBack_def)
      then show "d = 0" using less.prems(8,9,12) by presburger
    qed (use less.prems in \<open>simp add: ringBack_def\<close>)
    moreover have "rankToAddr i = rankToAddr m \<longleftrightarrow> i = m"
      using addrToRank_rankToAddr less.prems(5,6,8,9) by metis
    ultimately show ?thesis using less.prems(7,10) by (simp add: addrIsEqual_def)
  qed
  show ?case
  proof (cases "d = 0")
    case True
    then show ?thesis using me by (subst lose_pred.simps) simp
  next
    case False
    then obtain n' where n: "n = Suc n'" using less.prems(13) by (cases n) auto
    have step: "bindE (nthE (lts g1) (lis g1)) (\<lambda>l. bindE (addrPrec (prec g) (lts_circuit l)) (\<lambda>pr.
          lose_pred n' e (g1\<lparr>cameProc := came, goneProc := gone, prec := pr\<rparr>))) =
        try_preds e (myAddress g) (members_back c i d)
          (g1\<lparr>cameProc := came, goneProc := gone, prec := (case members_back c i d of [] \<Rightarrow> myAddress g | b # _ \<Rightarrow> b)\<rparr>)"
      if o: "openConnection e (prec g) True g = Inr (r, g1)" for r g1 came gone
    proof -
      note o1 = openConnection_same [OF o]
      have l: "nthE (lts g1) (lis g1) = Inr (lts g ! nat (lis g))" using o1 less.prems(1,2) by (simp add: nthE_in)
      have ad: "is_address (prec g)" using less.prems(8-10) by (simp add: is_address_rankToAddr)
      have rk: "addrToRank (prec g) = i" using less.prems(8-10) by (simp add: addrToRank_rankToAddr)
      have "c \<noteq> 0" using less.prems(4) by auto
      then obtain k where k: "0 < k" "k \<le> 16" "bit c (nat (ringBack i k))"
        "\<forall>j. 0 < j \<and> j < k \<longrightarrow> \<not> bit c (nat (ringBack i j))" "addrPrec (prec g) c = Inr (rankToAddr (ringBack i k))"
        using addrPrec_nearest [OF ad] unfolding rk by metis
      have kd: "k \<le> d" using k(4) less.prems(4,11) False by (metis linorder_not_le neq0_conv)
      let ?g = "g1\<lparr>cameProc := came, goneProc := gone, prec := rankToAddr (ringBack i k)\<rparr>"
      have mb: "members_back c i d = (if k = d then [] else rankToAddr (ringBack i k) # members_back c (ringBack i k) (d - k))"
        by (rule members_back_nearest [OF k(1) kd k(4,3)])
      have "lose_pred n' e ?g = try_preds e (myAddress ?g) (if d - k = 0 then [] else prec ?g # members_back c (ringBack i k) (d - k)) ?g"
      proof (rule less.IH)
        show "m = ringBack (ringBack i k) (d - k)" using kd less.prems(11) by (simp add: ringBack_ringBack)
        show "d - k \<le> n'" using less.prems(13) k(1) n by simp
      qed (use less.prems k(1) kd False o1 in \<open>simp_all add: ringBack_range\<close>)
      moreover have "rankToAddr (ringBack i d) = myAddress g" using less.prems(7,11) by simp
      ultimately show ?thesis
        using kd mb less.prems(3) k(5) o1 l by auto
    qed
    show ?thesis
      using me False less.prems(13)
      unfolding n lose_pred.simps [of "Suc n'"]
      by (auto intro!: bindE_cong simp: step openConnection_same(4) split: prod.splits)
  qed
qed

lemma lose_pred_tried:
  assumes "0 \<le> lis g" "nat (lis g) < length (lts g)" "is_address (prec g)" "is_address (myAddress g)"
    and "addrIsMember (myAddress g) (lts_circuit (lts g ! nat (lis g)))"
  shows "lose_pred 17 e g =
     try_preds e (myAddress g) (tried (lts_circuit (lts g ! nat (lis g))) (prec g) (myAddress g)) g"
proof -
  obtain i where i: "prec g = rankToAddr i" "0 \<le> i" "i < 16" using assms(3) by (rule is_addressE)
  obtain m where m: "myAddress g = rankToAddr m" "0 \<le> m" "m < 16" using assms(4) by (rule is_addressE)
  let ?d = "nat ((i - m) mod 16)"
  have r: "addrToRank (prec g) = i" "addrToRank (myAddress g) = m" using i m by (simp_all add: addrToRank_rankToAddr)
  have d: "m = ringBack i ?d" "?d < 16" "?d \<le> 17"
    using m(2,3) by (auto simp: ringBack_def mod_simps)
  have z: "?d = 0 \<longleftrightarrow> prec g = myAddress g"
  proof -
    have "(i - m) mod 16 = 0 \<longleftrightarrow> i = m" "0 \<le> (i - m) mod 16" using i(2,3) m(2,3) by presburger+
    then have "i = m \<longleftrightarrow> ?d = 0" by auto
    then show ?thesis using r i(1) m(1) by auto
  qed
  have "bit (lts_circuit (lts g ! nat (lis g))) (nat m)" using assms(5) m by (simp add: addrIsMember_rank)
  from lose_pred_search [OF assms(1,2) refl this m(2,3,1) i(2,3,1) d, of e] show ?thesis
    unfolding z tried_def r .
qed

text \<open>An address that no connection can be opened to.\<close>

definition no_answer :: "env \<Rightarrow> ADDR list \<Rightarrow> address \<Rightarrow> bool" where
  "no_answer e array a \<longleftrightarrow> a \<noteq> 0 \<and> nat (addrToRank a) < length array \<and>
     (let l = array ! nat (addrToRank a) in chan l = '''' \<or>
        (\<forall>n. \<exists>cands. env_connect e n (ip l) (chan l) = Some cands \<and>
           connect_loop (env_self e) False CONNECT_TIMEOUT cands (commAlloc (- 1)) = Inr None))"

lemma openConnection_no_answer:
  assumes "no_answer e (globalAddrArray g) a"
  obtains n where "openConnection e a b g = Inr (- 1, g\<lparr>connects_done := n\<rparr>)"
proof -
  let ?l = "globalAddrArray g ! nat (addrToRank a)"
  have r: "addrToRank a \<noteq> - 1" "0 \<le> addrToRank a" "nthE (globalAddrArray g) (addrToRank a) = Inr ?l"
    using assms addrToRank_nonneg [of a] by (auto simp: no_answer_def nthE_in)
  show thesis
  proof (cases "chan ?l = ''''")
    case True
    then show ?thesis using r by (intro that [of "connects_done g"]) (simp add: openConnection_def)
  next
    case False
    then obtain cands where "env_connect e (connects_done g) (ip ?l) (chan ?l) = Some cands"
      "connect_loop (env_self e) False CONNECT_TIMEOUT cands (commAlloc (- 1)) = Inr None"
      using assms unfolding no_answer_def Let_def by blast
    then show ?thesis
      using r False by (intro that [of "Suc (connects_done g)"]) (simp add: openConnection_def commNewAndConnect_def)
  qed
qed

text \<open>The sets of arrived and gone processes after a list of losses.\<close>

definition after_losses :: "address list \<Rightarrow> addressSet \<times> addressSet \<Rightarrow> addressSet \<times> addressSet" where
  "after_losses = fold (\<lambda>a (came, gone). addrAppendGone came gone a)"

lemma try_preds_nobody:
  assumes "\<forall>a \<in> set as. no_answer e (globalAddrArray g) a"
  shows "\<exists>n. try_preds e me as g = Inr (False, g\<lparr>prec := (if as = [] then prec g else me),
     cameProc := fst (after_losses as (cameProc g, goneProc g)), goneProc := snd (after_losses as (cameProc g, goneProc g)),
     connects_done := n\<rparr>)"
  using assms
proof (induction as arbitrary: g)
  case Nil
  show ?case by (intro exI [of _ "connects_done g"]) (simp add: after_losses_def)
next
  case (Cons a as)
  have "no_answer e (globalAddrArray g) a" using Cons.prems by simp
  then obtain n where o: "openConnection e a True g = Inr (- 1, g\<lparr>connects_done := n\<rparr>)"
    by (rule openConnection_no_answer)
  obtain came gone where cg: "addrAppendGone (cameProc g) (goneProc g) a = (came, gone)" by fastforce
  let ?g = "g\<lparr>connects_done := n, cameProc := came, goneProc := gone, prec := (case as of [] \<Rightarrow> me | b # _ \<Rightarrow> b)\<rparr>"
  obtain n' where ih: "try_preds e me as ?g = Inr (False, ?g\<lparr>prec := (if as = [] then prec ?g else me),
     cameProc := fst (after_losses as (cameProc ?g, goneProc ?g)), goneProc := snd (after_losses as (cameProc ?g, goneProc ?g)),
     connects_done := n'\<rparr>)"
    using Cons.IH [of ?g] Cons.prems by auto
  have "try_preds e me (a # as) g = try_preds e me as ?g" using o cg by simp
  then show ?case
    using ih cg by (intro exI [of _ n']) (simp add: after_losses_def split: list.splits)
qed

section \<open>Alone again\<close>

lemma deliver_own_ok:
  assumes con: "consistent g D U lk cap wg" and W: "7 \<le> wagonMaxLen g"
    and wg: "length (enc_wagon wg) < 2 ^ 31" "\<forall>m \<in> set (aw_msgs wg). readable m"
  obtains q wi wi' h where
    "deliver_wagonToSend g = Inr (g\<lparr>wagonsToDeliver := Some q, wagonToSend := Some wi', mem := h\<rparr>)"
    "consistent (g\<lparr>wagonsToDeliver := Some q, wagonToSend := Some wi', mem := h\<rparr>) (D @ [(wi, wg)]) U lk
       (nat (wagonMaxLen g)) (empty_wagon (myAddress g))"
proof -
  let ?R = "U_refs U + lts_refs (lts g) + lk"
  have bd: "building g (all_refs g D U + lk) cap wg" using con by (simp add: consistent_def)
  note td = consistent_to_deliver [OF con]
  have refs: "all_refs g D U + lk = ?R + mset (map wagon_ref (map fst D))"
    by (simp add: all_refs_def wrefs_def comp_def ac_simps)
  obtain q wi wi' h where d:
    "deliver_wagonToSend g = Inr (g\<lparr>wagonsToDeliver := Some q, wagonToSend := Some wi', mem := h\<rparr>)"
    "building (g\<lparr>wagonsToDeliver := Some q, wagonToSend := Some wi', mem := h\<rparr>)
       (?R + mset (map wagon_ref (map fst D @ [wi]))) (nat (wagonMaxLen g)) (empty_wagon (myAddress g))"
    "to_deliver (g\<lparr>wagonsToDeliver := Some q, wagonToSend := Some wi', mem := h\<rparr>) (map fst D @ [wi]) (map snd D @ [wg])"
    "\<And>b. b \<in># all_refs g D U + lk \<Longrightarrow> womims h b = womims (mem g) b"
    by (rule deliver_wagonToSend_ok [OF bd td refs W wg]) (rule that)
  let ?g = "g\<lparr>wagonsToDeliver := Some q, wagonToSend := Some wi', mem := h\<rparr>" and ?D = "D @ [(wi, wg)]"
  have kp: "keeps (mem g) h (all_refs g D U)" using d(4) by (auto simp: keeps_def)
  note hk = all_held_keeps [OF con kp]
  have refs': "?R + mset (map wagon_ref (map fst D @ [wi])) = all_refs ?g ?D U + lk"
    by (simp add: all_refs_def wrefs_def comp_def ac_simps)
  have held: "held_ok h ?D" using d(3) held_ok_zip [of h ?D] by (simp add: to_deliver_def)
  have "\<exists>q'. wagonsToDeliver ?g = Some q' \<and> brep q' (map fst ?D) 0" using d(3) by (simp add: to_deliver_def)
  then have "consistent ?g ?D U lk (nat (wagonMaxLen g)) (empty_wagon (myAddress g))"
    using con d(2) held hk(2,3) W unfolding refs' consistent_def by (auto intro: tables_same [of g U])
  then show thesis using d(1) by (intro that)
qed

text \<open>The predecessor is lost and nobody else answers: the process is alone, all that was
  unstable is deliverable in order, then its own wagon with the departures it has noticed.\<close>

lemma alone_again:
  assumes con: "consistent g D U (add_mset p lk) cap wg" and ln: "line g U Q" and W: "7 \<le> wagonMaxLen g" "wagonMaxLen g < 2 ^ 31"
    and rdb: "\<forall>m \<in> set (aw_msgs wg). readable m" and room: "int (length (enc_wagon wg)) + 144 \<le> wagonMaxLen g"
    and run: "automatonState g = SEVERAL" "msg_at p g msg_type = Inr DISCONNECT_PRED"
    and l: "lose_pred 17 e g = Inr (False, g1)"
  obtains g' D' U' cap' where "stateMachine e p g = Inr g'"
    "consistent g' D' U' lk cap' (empty_wagon (myAddress g))"
    "map snd D' = map snd D @ concat Q @
       [add_announcements AM_DEPARTURE (lts_circuit (lts g ! nat (lis g)) AND NOT (goneProc g1)) (members_of (goneProc g1)) wg]"
    "\<And>t r. t < nat (ntr g) \<Longrightarrow> r < 3 \<Longrightarrow> U' t r = []" "app_events (trace g') = app_events (trace g)"
    "prec g' = myAddress g" "succ g' = myAddress g" "automatonState g' = ALONE_INSERT_WAIT"
proof -
  have sp: "stateMachine e p g = several_disconnect_pred e p g"
    using run by (simp add: stateMachine_def on_several_def MType_defs)
  note l1 = lose_pred_core [OF l]
  define ll where "ll = lts g ! nat (lis g)"
  let ?gone = "goneProc g1" and ?wg = "add_announcements AM_DEPARTURE (lts_circuit ll AND NOT (goneProc g1)) (members_of (goneProc g1)) wg"
  have c1: "lts g1 = lts g" "ntr g1 = ntr g" "lis g1 = lis g" "wagonMaxLen g1 = wagonMaxLen g" "myAddress g1 = myAddress g"
    "app_events (trace g1) = app_events (trace g)"
    using l1 by (simp_all add: core_eq)
  have le: "length (members_of ?gone) \<le> 16" by (rule length_members_of)
  have len: "int (length (enc_wagon wg) + 9 * length (members_of ?gone)) \<le> wagonMaxLen g" using room le by simp
  then have "int (length (enc_wagon wg) + 9 * length (members_of ?gone)) < 2 ^ 31" using W(2) by (rule le_less_trans)
  then have len': "length (enc_wagon wg) + 9 * length (members_of ?gone) < 2 ^ 31" by simp
  have ar: "announce_room (wagonMaxLen g1) (length (enc_wagon wg)) (length (members_of ?gone))"
    unfolding announce_room_iff c1(4)
  proof (intro allI impI disjI2)
    fix k assume "k < length (members_of ?gone)"
    then have "k < 16" using le by linarith
    then show "int (length (enc_wagon wg) + 9 * k) + 9 \<le> wagonMaxLen g" using room by simp
  qed
  have W1: "4 \<le> wagonMaxLen g1" using W c1(4) by simp
  obtain wts h cap2 where two: "signalDepartures ?gone (lts_circuit ll) g1 = Inr (g1\<lparr>wagonToSend := wts, mem := h\<rparr>)"
    "consistent (g1\<lparr>wagonToSend := wts, mem := h\<rparr>) D U (add_mset p lk) cap2 ?wg"
    by (rule signalDepartures_ok [OF consistent_core [OF con l1] W1 ar len'])
  define g2 where g2: "g2 = g1\<lparr>wagonToSend := wts, mem := h\<rparr>"
  have con2: "consistent (g2\<lparr>goneProc := 0\<rparr>) D U (add_mset p lk) cap2 ?wg"
    by (rule consistent_other [OF two(2)]) (simp_all add: g2)
  have ln2: "line (g2\<lparr>goneProc := 0\<rparr>) U Q" by (rule line_same [OF ln]) (simp_all add: g2 c1)
  obtain g3 D3 U3 where three: "flush_unstable (g2\<lparr>goneProc := 0\<rparr>) = Inr g3" "consistent g3 D3 U3 (add_mset p lk) cap2 ?wg" "map snd D3 = map snd D @ concat Q"
    "\<And>t r. t < nat (ntr g) \<Longrightarrow> r < 3 \<Longrightarrow> U3 t r = []" "trace g3 = trace g1" "wagonMaxLen g3 = wagonMaxLen g" "myAddress g3 = myAddress g"
  proof (rule flush_line [OF con2 ln2])
    fix g3 D' U'
    assume x: "flush_unstable (g2\<lparr>goneProc := 0\<rparr>) = Inr g3" "consistent g3 D' U' (add_mset p lk) cap2 ?wg"
      "map snd D' = map snd D @ concat Q" and y: "\<And>t r. t < nat (ntr (g2\<lparr>goneProc := 0\<rparr>)) \<Longrightarrow> r < 3 \<Longrightarrow> U' t r = []"
      and z: "trace g3 = trace (g2\<lparr>goneProc := 0\<rparr>)" "wagonMaxLen g3 = wagonMaxLen (g2\<lparr>goneProc := 0\<rparr>)"
      "myAddress g3 = myAddress (g2\<lparr>goneProc := 0\<rparr>)"
    show thesis
    proof (rule that [OF x])
      show "U' t r = []" if "t < nat (ntr g)" "r < 3" for t r using y [of t r] that by (simp add: g2 c1)
    qed (use z in \<open>simp_all add: g2 c1\<close>)
  qed
  have rd: "\<forall>m \<in> set (aw_msgs ?wg). readable m"
    using rdb by (auto simp: add_announcements_def announcement_def readable_def)
  have wl: "length (enc_wagon ?wg) < 2 ^ 31" using len' by (simp add: length_add_announcements)
  obtain q wi wi' h4 where four:
    "deliver_wagonToSend g3 = Inr (g3\<lparr>wagonsToDeliver := Some q, wagonToSend := Some wi', mem := h4\<rparr>)"
    "consistent (g3\<lparr>wagonsToDeliver := Some q, wagonToSend := Some wi', mem := h4\<rparr>) (D3 @ [(wi, ?wg)]) U3 (add_mset p lk)
       (nat (wagonMaxLen g3)) (empty_wagon (myAddress g3))"
    by (rule deliver_own_ok [OF three(2) _ wl rd]) (use W three(6) in simp_all)
  let ?g4 = "g3\<lparr>wagonsToDeliver := Some q, wagonToSend := Some wi', mem := h4\<rparr>"
  obtain h5 where five: "free_msg p ?g4 = Inr (?g4\<lparr>mem := h5\<rparr>)"
    "consistent (?g4\<lparr>mem := h5\<rparr>) (D3 @ [(wi, ?wg)]) U3 lk (nat (wagonMaxLen g3)) (empty_wagon (myAddress g3))"
    using free_msg_ok [OF four(2)] by metis
  let ?g' = "?g4\<lparr>mem := h5, prec := myAddress g3, succ := myAddress g3, automatonState := ALONE_INSERT_WAIT\<rparr>"
  have lis: "nthE (lts g1) (lis g1) = Inr ll"
  proof -
    have "0 \<le> lis g" "lis g < ntr g" "ntr g \<le> 16" "length (lts g) = 16"
      using ln con by (simp_all add: line_def rounds_ok_def consistent_def tables_def)
    then show ?thesis using c1 by (simp add: ll_def nthE_in)
  qed
  show thesis
  proof (rule that [of ?g' "D3 @ [(wi, ?wg)]" U3 "nat (wagonMaxLen g3)"])
    show "stateMachine e p g = Inr ?g'"
      unfolding sp several_disconnect_pred_def
      using l lis two(1) three(1) four(1) five(1) by (simp add: nextState_def flip: g2)
    show "consistent ?g' (D3 @ [(wi, ?wg)]) U3 lk (nat (wagonMaxLen g3)) (empty_wagon (myAddress g))"
      by (rule consistent_other [OF five(2) [unfolded three(7)]]) simp_all
    show "map snd (D3 @ [(wi, ?wg)]) = map snd D @ concat Q @
       [add_announcements AM_DEPARTURE (lts_circuit (lts g ! nat (lis g)) AND NOT (goneProc g1)) (members_of (goneProc g1)) wg]"
      using three(3) by (simp add: ll_def)
    show "app_events (trace ?g') = app_events (trace g)" using three(5) c1(6) by simp
  qed (use three(4,7) in simp_all)
qed

end
