(* ===== verification/AutomatonProperties.thy ===== *)
theory AutomatonProperties
  imports Samples LostPred
begin

text \<open>
  What the automaton promises: the steps it makes on its states, the errors that end a
  process, the trains that are not recent, the invariants of a process from its start, and
  the loss of the predecessor.
\<close>

section \<open>The steps of the automaton\<close>

text \<open>C9: every message that \<^verbatim>\<open>stateMachine\<close> returns from makes one of the steps of the
  abstract automaton on the state, the neighbours, the semaphore of \<^verbatim>\<open>trInit\<close> and the
  attempts to connect, with the type that the code reads in the message.\<close>

theorem automaton_refines_steps:
  assumes "stateMachine e p g = Inr g'"
  shows "\<exists>mt. k_step mt (control g) (control g') \<and> (automatonState g \<noteq> WAIT \<longrightarrow> msg_at p g msg_type = Inr mt)"
  using stateMachine_step [OF assms] by blast

definition waiting_globals :: globals where
  "waiting_globals = sample_globals\<lparr>automatonState := WAIT\<rparr>"

lemma waiting_frees: "stateMachine e 1 waiting_globals = Inr (waiting_globals\<lparr>mem := set_womim sample_heap 1 None\<rparr>)"
  by (simp add: stateMachine_def waiting_globals_def sample_globals_def free_msg_def freeWomim_def get_womim_def
      sample_heap_def set_womim_def)

theorem automaton_refines_steps_witness:
  "\<exists>mt. k_step mt (control waiting_globals) (control (waiting_globals\<lparr>mem := set_womim sample_heap 1 None\<rparr>)) \<and>
     (automatonState waiting_globals \<noteq> WAIT \<longrightarrow> msg_at 1 waiting_globals msg_type = Inr mt)"
  by (rule automaton_refines_steps [OF waiting_frees])

section \<open>Messages that end the process\<close>

text \<open>The types each state has a handler for.\<close>

definition expected :: "State \<Rightarrow> MType list" where
  "expected s =
     (case s of
        OFFLINE_CONNECTION_ATTEMPT \<Rightarrow> [NAK_INSERT, DISCONNECT_PRED, DISCONNECT_SUCC, INSERT, ACK_INSERT]
      | OFFLINE_CONFIRMATION_WAIT \<Rightarrow> [NEWSUCC, DISCONNECT_PRED, DISCONNECT_SUCC, INSERT, TRAIN]
      | ALONE_INSERT_WAIT \<Rightarrow> [DISCONNECT_PRED, DISCONNECT_SUCC, INSERT]
      | ALONE_CONNECTION_WAIT \<Rightarrow> [DISCONNECT_PRED, INSERT, NEWSUCC]
      | SEVERAL \<Rightarrow> [TRAIN, INSERT, NEWSUCC, DISCONNECT_PRED, DISCONNECT_SUCC]
      | WAIT \<Rightarrow> [])"

text \<open>C25: a message of a type that the state does not expect ends the process with an error that
  names both, and so does a train whose circuit the process is no longer in; a process that
  waits for another attempt gives every message up instead.\<close>

theorem messages_that_exit:
  assumes "msg_at p g msg_type = Inr mt"
  shows "(automatonState g \<noteq> WAIT \<and> mt \<notin> set (expected (automatonState g)) \<longrightarrow>
      stateMachine e p g = Inl (ExitFailure (''unexpected case : received message '' @ msgTypeToStr mt @
        '' in state '' @ stateToStr (automatonState g)))) \<and>
    (automatonState g = SEVERAL \<and> mt = TRAIN \<longrightarrow> (\<forall>circuit. msg_at p g train_circuit = Inr circuit \<and>
      \<not> addrIsMember (myAddress g) circuit \<longrightarrow>
      stateMachine e p g = Inl (ExitFailure ''myAddress not in the circuit ==> Suicide''))) \<and>
    (automatonState g = WAIT \<longrightarrow> stateMachine e p g = free_msg p g)"
proof (intro conjI impI allI)
  assume "automatonState g \<noteq> WAIT \<and> mt \<notin> set (expected (automatonState g))"
  then show "stateMachine e p g = Inl (ExitFailure (''unexpected case : received message '' @ msgTypeToStr mt @
      '' in state '' @ stateToStr (automatonState g)))"
    using assms by (cases "automatonState g") (auto simp: stateMachine_def expected_def on_attempt_def on_confirmation_def
        on_alone_insert_def on_alone_connection_def on_several_def unexpected_def)
next
  fix circuit
  assume "automatonState g = SEVERAL \<and> mt = TRAIN" "msg_at p g train_circuit = Inr circuit \<and> \<not> addrIsMember (myAddress g) circuit"
  then show "stateMachine e p g = Inl (ExitFailure ''myAddress not in the circuit ==> Suicide'')"
    using assms by (simp add: stateMachine_def on_several_def several_train_def)
qed (simp add: stateMachine_def)

definition attempt_globals :: globals where
  "attempt_globals = sample_globals\<lparr>automatonState := OFFLINE_CONNECTION_ATTEMPT\<rparr>"

lemma sample_msg: "msg_at 1 sample_globals msg_type = Inr TRAIN" "msg_at 1 sample_globals train_circuit = Inr 7"
  "msg_at 1 sample_globals train_stamp = Inr sample_stamp"
  using holds_enc_train [of sample_train sample_stamp 7 "[sample_wagon]"] holds_whole [of sample_train]
  by (simp_all add: msg_at_def get_womim_def sample_globals_def sample_heap_def sample_train_def)

theorem messages_that_exit_witness:
  "stateMachine sample_env 1 attempt_globals =
     Inl (ExitFailure ''unexpected case : received message TRAIN in state OFFLINE_CONNECTION_ATTEMPT'')"
proof -
  have t: "msg_at 1 attempt_globals msg_type = Inr TRAIN"
    using sample_msg(1) by (simp add: attempt_globals_def msg_at_def)
  show ?thesis
    using messages_that_exit [OF t, of sample_env]
    by (simp add: attempt_globals_def expected_def MType_defs msgTypeToStr_def)
qed

section \<open>Trains that are not recent\<close>

text \<open>C26: a train that is not the one expected, or not newer than the last one sent, changes
  nothing but the message, which is given up: no wagon is kept, delivered or sent, the
  circuit and the stamps stay, and the reference counts stay exact.\<close>

theorem stale_train_ignored:
  assumes "automatonState g = SEVERAL" "consistent g D U (add_mset p lk) cap wg" "train_in g p st circuit ws t"
    and "addrIsMember (myAddress g) circuit"
    and "isRecentTrain (ntr g) st (lts g) (word_of_int (lis g)) = Inr False"
  shows "\<exists>h. stateMachine e p g = Inr (g\<lparr>mem := h\<rparr>) \<and> consistent (g\<lparr>mem := h\<rparr>) D U lk cap wg"
proof -
  obtain v where v: "womims (mem g) p = Some v" "holds (bytes v) 0 (enc_train st circuit ws)"
    using assms(3) by (auto simp: train_in_def)
  have m: "msg_at p g msg_type = Inr TRAIN" "msg_at p g train_circuit = Inr circuit" "msg_at p g train_stamp = Inr st"
    using v by (simp_all add: msg_at_def get_womim_def holds_enc_train)
  obtain h where "free_msg p g = Inr (g\<lparr>mem := h\<rparr>)" "consistent (g\<lparr>mem := h\<rparr>) D U lk cap wg"
    by (rule free_msg_ok [OF assms(2)])
  then show ?thesis
    using assms(1,4,5) m by (intro exI [of _ h]) (simp add: stateMachine_def on_several_def several_train_def)
qed

definition stale_globals :: globals where
  "stale_globals = sample_globals\<lparr>lts := (lts sample_globals)[0 := (init_train 0)\<lparr>lts_stamp := sample_stamp\<rparr>]\<rparr>"

theorem stale_train_ignored_witness:
  "\<exists>h. stateMachine sample_env 1 stale_globals = Inr (stale_globals\<lparr>mem := h\<rparr>) \<and>
     consistent (stale_globals\<lparr>mem := h\<rparr>) [] no_held {#} 64 sample_own"
proof -
  have u: "\<forall>l \<in> set (lts stale_globals). unused l"
    using sample_unused set_update_subset_insert [of "lts sample_globals" 0 "(init_train 0)\<lparr>lts_stamp := sample_stamp\<rparr>"]
    by (auto simp: stale_globals_def unused_def init_train_def no_wiw_def)
  have c: "consistent stale_globals [] no_held {#1#} 64 sample_own"
    using sample_consistent lts_refs_unused [OF u] lts_refs_unused [OF sample_unused] u unused_ok
    unfolding consistent_def tables_def building_def all_refs_def by (simp add: stale_globals_def)
  have t: "train_in stale_globals 1 sample_stamp 7 [sample_wagon] 0"
    using sample_train_in by (simp add: train_in_def stale_globals_def)
  have r: "isRecentTrain (ntr stale_globals) sample_stamp (lts stale_globals) (word_of_int (lis stale_globals)) = Inr False"
    by (simp add: stale_globals_def sample_globals_def globals0_def isRecentTrain_def sample_stamp_def c_mod_def c_div_def M_lc_def nthE_def)
  have s: "automatonState stale_globals = SEVERAL" "addrIsMember (myAddress stale_globals) 7"
    by (simp_all add: stale_globals_def sample_globals_def addrIsMember_def)
  show ?thesis by (rule stale_train_ignored [OF s(1) _ t s(2) r]) (use c in simp)
qed

section \<open>The loss of the predecessor\<close>

text \<open>C12: when its predecessor is lost a member of the circuit tries the members before it, one
  after the other and backwards along the circuit, until one answers (it gets \<^verbatim>\<open>NEWSUCC\<close>) or
  the search comes to the process itself; those that do not answer are counted as gone. The
  search always ends.\<close>

theorem predecessors_tried:
  assumes "0 \<le> lis g" "nat (lis g) < length (lts g)" "is_address (prec g)" "is_address (myAddress g)"
    and "addrIsMember (myAddress g) (lts_circuit (lts g ! nat (lis g)))"
  shows "lose_pred 17 e g =
     try_preds e (myAddress g) (tried (lts_circuit (lts g ! nat (lis g))) (prec g) (myAddress g)) g"
  by (rule lose_pred_tried [OF assms])

definition ring_globals :: globals where
  "ring_globals = sample_globals\<lparr>prec := 16, lts := (lts sample_globals)[0 := (init_train 0)\<lparr>lts_circuit := 31\<rparr>]\<rparr>"

theorem predecessors_tried_witness:
  "lose_pred 17 sample_env ring_globals = try_preds sample_env 2 [16, 8, 4] ring_globals"
proof -
  have a: "is_address 16" "is_address 2"
    using is_address_rankToAddr [of 4] is_address_rankToAddr [of 1] by (simp_all add: rankToAddr_def)
  have g: "lis ring_globals = 0" "length (lts ring_globals) = 16" "prec ring_globals = 16" "myAddress ring_globals = 2"
    "lts_circuit (lts ring_globals ! 0) = 31" "addrIsMember 2 31"
    by (simp_all add: ring_globals_def sample_globals_def globals0_def addrIsMember_def)
  have t: "tried 31 16 2 = [16, 8, 4]" by code_simp
  show ?thesis
    using predecessors_tried [of ring_globals sample_env] a by (simp add: g t)
qed

section \<open>A process from its start\<close>

text \<open>C10: in every run from the start of a process, whatever the messages, the ends of the sleeps
  and the other threads do: at most one thread sleeps, and exactly when the process waits for
  another attempt, then it has no neighbours; the semaphore of \<^verbatim>\<open>trInit\<close> has been posted
  exactly once when the process is in a circuit and never before; each attempt counts once;
  a process that is alone is its own successor.\<close>

theorem process_invariant:
  assumes "process_run (g, w, n)"
  shows "sleeps g = w + (if automatonState g = WAIT then 1 else 0) \<and> waitNb g = int w \<and> waitNb g \<le> waitNbMax g + 1 \<and>
    sem_init_done g + n = (if in_circuit (automatonState g) then 1 else 0) \<and>
    (automatonState g = WAIT \<longrightarrow> prec g = 0 \<and> succ g = 0 \<and> waitNb g \<le> waitNbMax g) \<and>
    (automatonState g = ALONE_INSERT_WAIT \<longrightarrow> prec g = myAddress g \<and> succ g = myAddress g) \<and>
    (automatonState g = ALONE_CONNECTION_WAIT \<longrightarrow> succ g = myAddress g)"
  using process_ok_run [OF assms] by (auto simp: process_ok_def control_def)

text \<open>The start of a process that finds nobody.\<close>

definition listens :: "env \<Rightarrow> ADDR list \<Rightarrow> address \<Rightarrow> bool" where
  "listens e array a \<longleftrightarrow> is_address a \<and> nat (addrToRank a) < length array \<and>
     (\<exists>cands d. env_listen e (chan (array ! nat (addrToRank a))) = (Some cands, True) \<and> bind_loop cands = Some d)"

lemma first_open_nobody:
  assumes "\<forall>a \<in> set as. no_answer e (globalAddrArray g) a"
  shows "\<exists>n. first_open e as g = Inr (None, g\<lparr>connects_done := n\<rparr>)"
  using assms
proof (induction as arbitrary: g)
  case Nil
  show ?case by (intro exI [of _ "connects_done g"]) simp
next
  case (Cons a as)
  have "no_answer e (globalAddrArray g) a" using Cons.prems by simp
  then obtain n where "openConnection e a False g = Inr (- 1, g\<lparr>connects_done := n\<rparr>)"
    by (rule openConnection_no_answer)
  moreover obtain n' where "first_open e as (g\<lparr>connects_done := n\<rparr>) = Inr (None, g\<lparr>connects_done := n\<rparr>\<lparr>connects_done := n'\<rparr>)"
    using Cons.IH [of "g\<lparr>connects_done := n\<rparr>"] Cons.prems by auto
  ultimately show ?case by (intro exI [of _ n']) simp
qed

lemma participate_listens:
  assumes "listens e (globalAddrArray g) (myAddress g)"
  obtains g1 where "participate e True g = Inr g1" "core g1 = core g" "globalAddrArray g1 = globalAddrArray g"
    "sem_init_done g1 = sem_init_done g"
proof -
  from assms obtain cands d where l: "env_listen e (chan (globalAddrArray g ! nat (addrToRank (myAddress g)))) = (Some cands, True)"
    "bind_loop cands = Some d" "myAddress g \<noteq> 0" "nat (addrToRank (myAddress g)) < length (globalAddrArray g)"
    by (auto simp: listens_def is_address_def)
  then have "nthE (globalAddrArray g) (addrToRank (myAddress g)) = Inr (globalAddrArray g ! nat (addrToRank (myAddress g)))"
    using addrToRank_nonneg [of "myAddress g"] by (simp add: nthE_in)
  then have "\<exists>g1. participate e True g = Inr g1"
    using l by (simp add: participate_def commNewForAccept_def new_comm_def)
  then obtain g1 where g1: "participate e True g = Inr g1" ..
  then have "core g1 = core g \<and> globalAddrArray g1 = globalAddrArray g \<and> sem_init_done g1 = sem_init_done g"
    by (auto simp: participate_def bindE_eq_Inr new_comm_def core_eq emit_def set_comm_def split: option.splits)
  with g1 show thesis by (intro that [of g1]) simp_all
qed

lemma signal_ok:
  assumes con: "consistent g D U lk cap wg" and W: "4 \<le> wagonMaxLen g" and room: "int (length (enc_wagon wg)) + 9 \<le> wagonMaxLen g"
    and small: "length (enc_wagon wg) + 9 < 2 ^ 31"
  obtains wts h where "signalArrivalDepartures ty ad circuit g = Inr (g\<lparr>wagonToSend := wts, mem := h\<rparr>)"
    "consistent (g\<lparr>wagonToSend := wts, mem := h\<rparr>) D U lk cap (add_msg (announcement ty ad circuit) wg)"
proof -
  have bd: "building g (all_refs g D U + lk) cap wg" and cap: "wagonMaxLen g \<le> int cap" using con by (simp_all add: consistent_def)
  have fits: "wagonMaxLen g - int (length (enc_wagon wg)) < 4 \<or> length (enc_wagon wg) + 9 \<le> cap" using room cap by linarith
  have nl: "\<not> wagonMaxLen g - int (length (enc_wagon wg)) < 4" using room by linarith
  obtain wts h where s: "signalArrivalDepartures ty ad circuit g = Inr (g\<lparr>wagonToSend := wts, mem := h\<rparr>)"
    "building (g\<lparr>wagonToSend := wts, mem := h\<rparr>) (all_refs g D U + lk)
       (if wagonMaxLen g - int (length (enc_wagon wg)) < 4 then length (enc_wagon wg) + 9 else cap) (add_msg (announcement ty ad circuit) wg)"
    "\<And>b. b \<in># all_refs g D U + lk \<Longrightarrow> womims h b = womims (mem g) b"
    by (rule signalArrivalDepartures_ok [OF bd W small fits]) (rule that)
  have "consistent (g\<lparr>wagonToSend := wts, mem := h\<rparr>) D U lk cap (add_msg (announcement ty ad circuit) wg)"
    by (rule consistent_heap [OF con _ cap]) (use s(2,3) nl in \<open>auto simp: keeps_def\<close>)
  then show thesis using s(1) by (rule that [rotated])
qed

lemma offlineInit_alone:
  assumes con: "consistent g D U lk cap wg" and W: "7 \<le> wagonMaxLen g" "int (length (enc_wagon wg)) + 9 \<le> wagonMaxLen g"
    and wg: "length (enc_wagon wg) + 9 < 2 ^ 31" "\<forall>m \<in> set (aw_msgs wg). readable m"
    and listens: "listens e (globalAddrArray g) (myAddress g)"
    and nobody: "\<forall>a \<in> set (others_from (addrToRank (myAddress g))). no_answer e (globalAddrArray g) a"
  obtains g' wi where "offlineInit e g = Inr g'" "automatonState g' = ALONE_INSERT_WAIT" "prec g' = myAddress g" "succ g' = myAddress g"
    "sem_init_done g' = Suc (sem_init_done g)"
    "consistent g' (D @ [(wi, add_msg (announcement AM_ARRIVAL (myAddress g) (myAddress g)) wg)]) U lk (nat (wagonMaxLen g))
       (empty_wagon (myAddress g))"
proof -
  let ?me = "myAddress g" and ?wg = "add_msg (announcement AM_ARRIVAL (myAddress g) (myAddress g)) wg"
  obtain g1 where p: "participate e True g = Inr g1" "core g1 = core g" "globalAddrArray g1 = globalAddrArray g" "sem_init_done g1 = sem_init_done g"
    by (rule participate_listens [OF listens])
  have e1: "myAddress g1 = ?me" "wagonMaxLen g1 = wagonMaxLen g" using p(2) by (simp_all add: core_eq)
  have ad: "addrToRank ?me \<noteq> - 1" using listens by (auto simp: listens_def is_address_def)
  obtain n where "first_open e (others_from (addrToRank ?me)) g1 = Inr (None, g1\<lparr>connects_done := n\<rparr>)"
    using first_open_nobody [of "others_from (addrToRank ?me)" e g1] nobody p(3) by auto
  then have s: "searchSucc e (myAddress g1) g1 = Inr (?me, g1\<lparr>connects_done := n\<rparr>)"
    using ad e1 by (simp add: searchSucc_first)
  define g3 where "g3 = g1\<lparr>connects_done := n, succ := ?me\<rparr>"
  have e3: "myAddress g3 = ?me" "wagonMaxLen g3 = wagonMaxLen g" "sem_init_done g3 = sem_init_done g" "succ g3 = ?me" "core g3 = core g"
    using e1 p(2,4) by (simp_all add: g3_def)
  have W3: "4 \<le> wagonMaxLen g3" "int (length (enc_wagon wg)) + 9 \<le> wagonMaxLen g3" using W e3(2) by simp_all
  obtain wts h4 where f: "signalArrivalDepartures AM_ARRIVAL ?me ?me g3 = Inr (g3\<lparr>wagonToSend := wts, mem := h4\<rparr>)"
    "consistent (g3\<lparr>wagonToSend := wts, mem := h4\<rparr>) D U lk cap ?wg"
    by (rule signal_ok [OF consistent_core [OF con e3(5)] W3 wg(1)])
  define g4 where "g4 = g3\<lparr>wagonToSend := wts, mem := h4\<rparr>"
  have e4: "wagonMaxLen g4 = wagonMaxLen g" "myAddress g4 = ?me" "sem_init_done g4 = sem_init_done g" "succ g4 = ?me"
    using e3 by (simp_all add: g4_def)
  have wl: "length (enc_wagon ?wg) < 2 ^ 31" "\<forall>m \<in> set (aw_msgs ?wg). readable m" "7 \<le> wagonMaxLen g4"
  proof -
    show "length (enc_wagon ?wg) < 2 ^ 31" using wg(1) by (simp add: length_add_announcement)
    show "\<forall>m \<in> set (aw_msgs ?wg). readable m" using wg(2) by (auto simp: announcement_def readable_def)
    show "7 \<le> wagonMaxLen g4" using W(1) e4(1) by simp
  qed
  obtain q wi wi' h5 where v: "deliver_wagonToSend g4 = Inr (g4\<lparr>wagonsToDeliver := Some q, wagonToSend := Some wi', mem := h5\<rparr>)"
    "consistent (g4\<lparr>wagonsToDeliver := Some q, wagonToSend := Some wi', mem := h5\<rparr>) (D @ [(wi, ?wg)]) U lk
       (nat (wagonMaxLen g4)) (empty_wagon (myAddress g4))"
    by (rule deliver_own_ok [OF f(2) [folded g4_def] wl(3,1,2)])
  define g5 where "g5 = g4\<lparr>wagonsToDeliver := Some q, wagonToSend := Some wi', mem := h5\<rparr>"
  have e5: "myAddress g5 = ?me" "sem_init_done g5 = sem_init_done g" "succ g5 = ?me" using e4 by (simp_all add: g5_def)
  let ?g6 = "(post_init_done (g5\<lparr>automatonState := ALONE_INSERT_WAIT\<rparr>))\<lparr>prec := myAddress g5\<rparr>"
  have "g1\<lparr>connects_done := n, succ := ?me\<rparr> = g3" "addrIsMine ?me g3" "succ g3 = ?me"
    using e3 by (simp_all add: g3_def addrIsMine_def addrIsEqual_def)
  then have "offlineInit e g = Inr ?g6"
    using p(1) s f(1) v(1) e3(1) by (simp add: offlineInit_def signalArrival_def g4_def [symmetric] g5_def [symmetric])
  moreover have "consistent ?g6 (D @ [(wi, ?wg)]) U lk (nat (wagonMaxLen g)) (empty_wagon ?me)"
    using v(2) [folded g5_def, unfolded e4] by (rule consistent_other) (simp_all add: post_init_done_def)
  ultimately show thesis
    using e5 by (intro that [of ?g6 wi]) (simp_all add: post_init_done_def)
qed

lemma automatonInit_alone:
  assumes "table_sizes g" "1 \<le> ntr g" "ntr g \<le> 16" "16 \<le> wagonMaxLen g" "\<forall>l \<in> set (lts g). unused l" "counts (mem g) lk"
    and "listens e (globalAddrArray g) (myAddress g)"
    and "\<forall>a \<in> set (others_from (addrToRank (myAddress g))). no_answer e (globalAddrArray g) a"
  obtains g' wi wg where "automatonInit e g = Inr g'" "automatonState g' = ALONE_INSERT_WAIT"
    "prec g' = myAddress g" "succ g' = myAddress g" "sem_init_done g' = Suc (sem_init_done g)"
    "consistent g' [(wi, wg)] no_held lk (nat (wagonMaxLen g)) (empty_wagon (myAddress g))"
    "wagon_events wg = [CircuitChange ((view_of (myAddress g))\<lparr>cv_joined := myAddress g\<rparr>)]"
proof -
  let ?me = "myAddress g" and ?wg = "add_msg (announcement AM_ARRIVAL (myAddress g) (myAddress g)) (empty_wagon (myAddress g))"
  have W7: "7 \<le> wagonMaxLen g" using assms(4) by simp
  obtain ls us h where i: "automatonInit e g = offlineInit e (init_state g ls us h)"
    "consistent (init_state g ls us h) [] no_held lk (nat (wagonMaxLen g)) (empty_wagon ?me)"
    by (rule automatonInit_ok [OF assms(1-3) W7 assms(5,6)])
  let ?g0 = "init_state g ls us h"
  have e0: "globalAddrArray ?g0 = globalAddrArray g" "myAddress ?g0 = ?me" "wagonMaxLen ?g0 = wagonMaxLen g" "sem_init_done ?g0 = sem_init_done g"
    by (simp_all add: init_state_def)
  have len: "length (enc_wagon (empty_wagon ?me)) = 7" "aw_msgs (empty_wagon ?me) = []" by (simp_all add: empty_wagon_def length_enc_wagon)
  obtain g' wi where o: "offlineInit e ?g0 = Inr g'" "automatonState g' = ALONE_INSERT_WAIT" "prec g' = myAddress ?g0" "succ g' = myAddress ?g0"
    "sem_init_done g' = Suc (sem_init_done ?g0)"
    "consistent g' ([] @ [(wi, add_msg (announcement AM_ARRIVAL (myAddress ?g0) (myAddress ?g0)) (empty_wagon ?me))]) no_held lk
       (nat (wagonMaxLen ?g0)) (empty_wagon (myAddress ?g0))"
    by (rule offlineInit_alone [OF i(2)]) (use assms(4,7,8) len e0 in simp_all)
  have "wagon_events ?wg = [CircuitChange ((view_of ?me)\<lparr>cv_joined := ?me\<rparr>)]"
    by (simp add: wagon_events_def empty_wagon_def upcalls_def announcement_def AM_defs of_to_bytes)
  then show thesis using i(1) o by (intro that [of g' wi ?wg]) (simp_all add: e0)
qed

text \<open>C11: a process that can listen and reaches none of the other 15 addresses starts alone: it
  is its own neighbour, \<^verbatim>\<open>trInit\<close> is told, the wagon that announces its arrival in a
  circuit of itself is the only one to deliver, the tables are empty and the reference
  counts exact. With more than 16 trains the start writes past the tables.\<close>

theorem starts_alone:
  assumes "table_sizes g" "1 \<le> ntr g" "16 \<le> wagonMaxLen g" "\<forall>l \<in> set (lts g). unused l" "counts (mem g) lk"
    and "listens e (globalAddrArray g) (myAddress g)"
    and "\<forall>a \<in> set (others_from (addrToRank (myAddress g))). no_answer e (globalAddrArray g) a"
  shows "if ntr g \<le> 16
    then \<exists>g' wi wg. automatonInit e g = Inr g' \<and> automatonState g' = ALONE_INSERT_WAIT \<and>
      prec g' = myAddress g \<and> succ g' = myAddress g \<and> sem_init_done g' = Suc (sem_init_done g) \<and>
      consistent g' [(wi, wg)] no_held lk (nat (wagonMaxLen g)) (empty_wagon (myAddress g)) \<and>
      wagon_events wg = [CircuitChange ((view_of (myAddress g))\<lparr>cv_joined := myAddress g\<rparr>)]
    else automatonInit e g = Inl MemFault"
proof (cases "ntr g \<le> 16")
  case False
  then show ?thesis using automatonInit_too_many [OF assms(1)] by simp
next
  case True
  show ?thesis
    unfolding if_P [OF True]
    by (rule automatonInit_alone [OF assms(1,2) True assms(3-7)]) blast
qed

definition start_globals :: globals where
  "start_globals = globals0\<lparr>myAddress := 2, globalAddrArray := (initAddrList NP)[1 := \<lparr>ip = ''a'', chan = ''1'', tcomm0 = None, tcomm1 = None, isPred0 = False, isPred1 = False\<rparr>]\<rparr>"

lemma start_alone:
  "table_sizes start_globals" "\<forall>l \<in> set (lts start_globals). unused l" "counts (mem start_globals) {#}"
  "listens sample_env (globalAddrArray start_globals) (myAddress start_globals)"
  "\<forall>a \<in> set (others_from (addrToRank (myAddress start_globals))). no_answer sample_env (globalAddrArray start_globals) a"
proof -
  have r: "addrToRank 2 = 1" "is_address 2"
    using addrToRank_rankToAddr [of 1] is_address_rankToAddr [of 1] by (simp_all add: rankToAddr_def)
  show "table_sizes start_globals" by (simp add: start_globals_def globals0_def table_sizes_def MAX_NTR_def NR_def)
  show "\<forall>l \<in> set (lts start_globals). unused l"
    by (simp add: start_globals_def globals0_def unused_def lts0_def no_wiw_def)
  show "counts (mem start_globals) {#}" by (simp add: start_globals_def globals0_def counts_def)
  show "listens sample_env (globalAddrArray start_globals) (myAddress start_globals)"
    using r by (simp add: listens_def start_globals_def initAddrList_def NP_def sample_env_def)
  show "\<forall>a \<in> set (others_from (addrToRank (myAddress start_globals))). no_answer sample_env (globalAddrArray start_globals) a"
  proof
    fix a assume "a \<in> set (others_from (addrToRank (myAddress start_globals)))"
    then obtain k where k: "1 \<le> k" "k < 16" "a = rankToAddr ((1 + int k) mod 16)"
      using r by (auto simp: others_from_def start_globals_def)
    have "(1 + int k) mod 16 \<noteq> 1" using k(1,2) by presburger
    then have "nat ((1 + int k) mod 16) \<noteq> 1" by simp
    then show "no_answer sample_env (globalAddrArray start_globals) a"
      using k(3) by (simp add: no_answer_def addrToRank_rankToAddr rankToAddr_nonzero start_globals_def initAddrList_def NP_def nat_less_iff)
  qed
qed

lemma start_alone_run:
  obtains g where "automatonInit sample_env start_globals = Inr g" "automatonState g = ALONE_INSERT_WAIT" "prec g = 2" "sem_init_done g = 1"
    "process_run (g, 0, 0)"
proof (rule automatonInit_alone [OF start_alone(1) _ _ _ start_alone(2-5)])
  fix g assume g: "automatonInit sample_env start_globals = Inr g" "automatonState g = ALONE_INSERT_WAIT"
    "prec g = myAddress start_globals" "sem_init_done g = Suc (sem_init_done start_globals)"
  have "process_run (g, 0, 0)"
    by (rule process_run.start [OF g(1)]) (simp_all add: start_globals_def globals0_def sleeps_def)
  with g show thesis by (intro that [of g]) (simp_all add: start_globals_def globals0_def)
qed (simp_all add: start_globals_def globals0_def)

theorem starts_alone_witness:
  "\<exists>g' wi wg. automatonInit sample_env start_globals = Inr g' \<and> automatonState g' = ALONE_INSERT_WAIT \<and>
      prec g' = 2 \<and> succ g' = 2 \<and> sem_init_done g' = 1 \<and>
      consistent g' [(wi, wg)] no_held {#} 32768 (empty_wagon 2) \<and>
      wagon_events wg = [CircuitChange ((view_of 2)\<lparr>cv_joined := 2\<rparr>)]"
  using starts_alone [OF start_alone(1) _ _ start_alone(2-5)]
  by (simp add: start_globals_def globals0_def)

theorem process_invariant_witness:
  "\<exists>g. process_run (g, 0, 0) \<and> automatonState g = ALONE_INSERT_WAIT \<and> sleeps g = 0 \<and> sem_init_done g = 1 \<and> prec g = 2"
proof -
  obtain g where g: "automatonState g = ALONE_INSERT_WAIT" "prec g = 2" "process_run (g, 0, 0)"
    by (rule start_alone_run)
  then show ?thesis using process_invariant [OF g(3)] by (intro exI [of _ g]) (simp add: in_circuit_def)
qed

text \<open>C13: a process that is in a circuit stays in one, alone or with others, whatever message it
  treats and whatever the other threads do: no handler takes it back to the states of a
  process that is not connected.\<close>

theorem never_offline_again:
  assumes "process_run (g, w, n)" "process_step (g, w, n) (g', w', n')" "in_circuit (automatonState g)"
  shows "in_circuit (automatonState g')"
  using process_stays [OF assms(2) process_ok_run [OF assms(1)] assms(3)] .

theorem never_offline_again_witness:
  "\<exists>g g'. process_step (g, 0, 0) (g', 0, 1) \<and> automatonState g = ALONE_INSERT_WAIT \<and> in_circuit (automatonState g')"
proof -
  obtain g where g: "process_run (g, 0, 0)" "automatonState g = ALONE_INSERT_WAIT" "sem_init_done g = 1"
    by (rule start_alone_run) (rule that)
  have s: "process_step (g, 0, 0) (g\<lparr>sem_init_done := 0\<rparr>, 0, Suc 0)"
    by (rule process_step.init_wait) (simp add: trInit_wait_def g(3))
  show ?thesis
    using never_offline_again [OF g(1) s] s g(2) by (intro exI conjI) (auto simp: in_circuit_def)
qed

end
