(* ===== verification/RingOrder.thy ===== *)
theory RingOrder
  imports Prelude "HOL-Library.Sublist"
begin

text \<open>
  The abstract circulation of trains in a circuit of \<open>n\<close> processes with \<open>m\<close> trains: which
  wagons a train carries when it comes to a process, what the process then keeps, and the
  order that results for all processes when there is one train. The \<open>k\<close>-th train a process
  gets is the train \<open>k mod m\<close> on its lap \<open>k div m\<close>; \<open>h i k\<close> are the wagons (one or none)
  that the process \<open>i\<close> puts in it.
\<close>

definition carried :: "nat \<Rightarrow> nat \<Rightarrow> (nat \<Rightarrow> nat \<Rightarrow> 'a list) \<Rightarrow> nat \<Rightarrow> nat \<Rightarrow> 'a list" where
  "carried n m h i k =
     (if m \<le> k then concat (map (\<lambda>j. h j (k - m)) [Suc i..<n]) else []) @ concat (map (\<lambda>j. h j k) [0..<i])"

definition visit_batch :: "nat \<Rightarrow> nat \<Rightarrow> (nat \<Rightarrow> nat \<Rightarrow> 'a list) \<Rightarrow> nat \<Rightarrow> nat \<Rightarrow> 'a list" where
  "visit_batch n m h i k = carried n m h i k @ h i k"

text \<open>How often the train \<open>t\<close> is among the first \<open>b\<close> trains of a process.\<close>

definition laps :: "nat \<Rightarrow> nat \<Rightarrow> nat \<Rightarrow> nat" where
  "laps m b t = b div m + (if t < b mod m then 1 else 0)"

lemma laps_Suc:
  assumes "t < m"
  shows "laps m (Suc b) t = laps m b t + (if b mod m = t then 1 else 0)"
proof (cases "Suc (b mod m) = m")
  case True
  then have "Suc b mod m = 0" "Suc b div m = Suc (b div m)" by (simp_all add: mod_Suc div_Suc)
  then show ?thesis using True assms by (auto simp: laps_def)
next
  case False
  then have "Suc b mod m = Suc (b mod m)" "Suc b div m = b div m" by (simp_all add: mod_Suc div_Suc)
  then show ?thesis by (simp add: laps_def)
qed

lemma laps_mod: "laps m b (b mod m) = b div m"
  by (simp add: laps_def)

lemma laps_0 [simp]: "laps m 0 t = 0"
  by (simp add: laps_def)

section \<open>What a train carries\<close>

text \<open>The next process finds the train without its own wagon of the last lap.\<close>

lemma carried_next:
  assumes "Suc i < n"
  shows "carried n m h (Suc i) k =
     (if m \<le> k then concat (map (\<lambda>j. h j (k - m)) [Suc (Suc i)..<n]) else []) @ concat (map (\<lambda>j. h j k) [0..<i]) @ h i k"
  by (simp add: carried_def)

lemma carried_split:
  assumes "Suc i < n"
  shows "carried n m h i k = (if m \<le> k then h (Suc i) (k - m) else []) @
     (if m \<le> k then concat (map (\<lambda>j. h j (k - m)) [Suc (Suc i)..<n]) else []) @ concat (map (\<lambda>j. h j k) [0..<i])"
  using assms by (simp add: carried_def upt_conv_Cons)

lemma carried_last:
  assumes "0 < i" "Suc i = n"
  shows "carried n m h i k = h 0 k @ concat (map (\<lambda>j. h j k) [Suc 0..<i])"
    and "carried n m h 0 (k + m) = concat (map (\<lambda>j. h j k) [Suc 0..<i]) @ h i k"
proof -
  have n: "n = Suc i" using assms(2) by simp
  show "carried n m h i k = h 0 k @ concat (map (\<lambda>j. h j k) [Suc 0..<i])"
    using assms(1) by (simp add: carried_def n upt_conv_Cons)
  show "carried n m h 0 (k + m) = concat (map (\<lambda>j. h j k) [Suc 0..<i]) @ h i k"
    using assms(1) by (simp add: carried_def n)
qed

lemma carried_cong:
  assumes "\<And>j. i < j \<Longrightarrow> j < n \<Longrightarrow> m \<le> k \<Longrightarrow> h j (k - m) = h' j (k - m)" "\<And>j. j < i \<Longrightarrow> h j k = h' j k"
  shows "carried n m h i k = carried n m h' i k"
proof -
  have "map (\<lambda>j. h j k) [0..<i] = map (\<lambda>j. h' j k) [0..<i]" using assms(2) by simp
  moreover have "map (\<lambda>j. h j (k - m)) [Suc i..<n] = map (\<lambda>j. h' j (k - m)) [Suc i..<n]" if "m \<le> k" using assms(1) that by simp
  ultimately show ?thesis unfolding carried_def by (auto simp del: map_eq_conv)
qed

lemma set_carried:
  "w \<in> set (carried n m h i k) \<longleftrightarrow>
     (\<exists>j. i < j \<and> j < n \<and> m \<le> k \<and> w \<in> set (h j (k - m))) \<or> (\<exists>j < i. w \<in> set (h j k))"
  by (auto simp: carried_def Suc_le_eq)

section \<open>The order of one train\<close>

definition lap_order :: "nat \<Rightarrow> (nat \<Rightarrow> nat \<Rightarrow> 'a list) \<Rightarrow> nat \<Rightarrow> 'a list" where
  "lap_order n h K = concat (map (\<lambda>k. concat (map (\<lambda>j. h j k) [0..<n])) [0..<K])"

lemma lap_order_Suc: "lap_order n h (Suc K) = lap_order n h K @ concat (map (\<lambda>j. h j K) [0..<n])"
  by (simp add: lap_order_def)

lemma lap_order_prefix: "K \<le> K' \<Longrightarrow> prefix (lap_order n h K) (lap_order n h K')"
  by (induction rule: dec_induct) (auto simp: lap_order_Suc intro: prefix_order.trans)

text \<open>With one train the batches of a process, one after the other, are the order of the laps up
  to its last visit.\<close>

lemma one_train_batches:
  assumes "i < n"
  shows "concat (map (visit_batch n 1 h i) [0..<Suc N]) = lap_order n h N @ concat (map (\<lambda>j. h j N) [0..<Suc i])"
proof (induction N)
  case 0
  show ?case by (simp add: visit_batch_def carried_def lap_order_def)
next
  case (Suc N)
  have "[0..<n] = [0..<Suc i] @ [Suc i..<n]" using assms by (metis Suc_leI le0 le_Suc_ex upt_add_eq_append)
  then have "lap_order n h (Suc N) = lap_order n h N @ concat (map (\<lambda>j. h j N) [0..<Suc i]) @ concat (map (\<lambda>j. h j N) [Suc i..<n])"
    by (simp add: lap_order_Suc del: upt_Suc)
  moreover have "visit_batch n 1 h i (Suc N) = concat (map (\<lambda>j. h j N) [Suc i..<n]) @ concat (map (\<lambda>j. h j (Suc N)) [0..<Suc i])"
    by (simp add: visit_batch_def carried_def)
  ultimately show ?case using Suc by (simp del: upt_Suc add: upt_Suc_append)
qed

lemma one_train_prefixes:
  assumes "i < n"
  shows "prefix (concat (map (visit_batch n 1 h i) [0..<N])) (lap_order n h N)"
    and "prefix (lap_order n h N) (concat (map (visit_batch n 1 h i) [0..<Suc N]))"
proof -
  show "prefix (concat (map (visit_batch n 1 h i) [0..<N])) (lap_order n h N)"
  proof (cases N)
    case (Suc M)
    have "[0..<n] = [0..<Suc i] @ [Suc i..<n]" using assms by (metis Suc_leI le0 le_Suc_ex upt_add_eq_append)
    then show ?thesis unfolding Suc one_train_batches [OF assms] lap_order_Suc by (simp del: upt_Suc)
  qed simp
  show "prefix (lap_order n h N) (concat (map (visit_batch n 1 h i) [0..<Suc N]))"
    unfolding one_train_batches [OF assms] by simp
qed

end
