(* ===== verification/Encoding.thy ===== *)
theory Encoding
  imports Wire
begin

text \<open>
  The encodings of messages, wagons and trains are prefix codes: bytes that start with the
  encoding of a train start with that of no other.
\<close>

lemma c_int_eq: "m < 2 ^ 31 \<Longrightarrow> n < 2 ^ 31 \<Longrightarrow> c_int m = c_int n \<longleftrightarrow> m = n"
  by (auto dest!: arg_cong [of _ _ sint] simp: sint_c_int)

lemma to_bytes_eq: "LENGTH('a) \<le> 8 * n \<Longrightarrow> to_bytes n x = to_bytes n y \<longleftrightarrow> x = (y :: 'a::len word)"
  using of_to_bytes [where 'a = 'a, of n] by metis

lemma enc_msg_prefix:
  assumes "enc_msg m @ x = enc_msg m' @ y" "length (enc_msg m) < 2 ^ 31" "length (enc_msg m') < 2 ^ 31"
  shows "m = m' \<and> x = y"
proof -
  have "5 + length (am_payload m) < 2 ^ 31" "5 + length (am_payload m') < 2 ^ 31"
    using assms(2,3) by (simp_all add: length_enc_msg)
  moreover have e: "to_bytes 4 (c_int (5 + length (am_payload m))) = to_bytes 4 (c_int (5 + length (am_payload m')))"
    "am_typ m = am_typ m'" "am_payload m @ x = am_payload m' @ y"
    using assms(1) by (simp_all add: enc_msg_def append_eq_append_conv)
  ultimately have "length (am_payload m) = length (am_payload m')"
    by (simp add: to_bytes_eq c_int_eq)
  then show ?thesis using e by (simp add: append_eq_append_conv amsg.equality)
qed

lemma enc_msgs_inj:
  "enc_msgs ms = enc_msgs ms' \<Longrightarrow> length (enc_msgs ms) < 2 ^ 31 \<Longrightarrow> ms = ms'"
proof (induction ms arbitrary: ms')
  case Nil
  then show ?case using length_enc_msg by (cases ms') (auto dest!: arg_cong [of _ _ length] simp: length_enc_msg)
next
  case (Cons m ms)
  obtain m' ns where ms': "ms' = m' # ns"
    using Cons.prems(1) by (cases ms') (auto dest!: arg_cong [of _ _ length] simp: length_enc_msg)
  have "length (enc_msg m' @ enc_msgs ns) < 2 ^ 31" using Cons.prems unfolding ms' by (metis enc_msgs_simps(2))
  moreover have "length (enc_msg m @ enc_msgs ms) < 2 ^ 31" using Cons.prems(2) by simp
  ultimately have "m = m' \<and> enc_msgs ms = enc_msgs ns"
    using Cons.prems by (intro enc_msg_prefix) (simp_all add: ms')
  then show ?case using Cons by (simp add: ms')
qed

lemma enc_wagon_prefix:
  assumes "enc_wagon w @ x = enc_wagon w' @ y" "length (enc_wagon w) < 2 ^ 31" "length (enc_wagon w') < 2 ^ 31"
  shows "w = w' \<and> x = y"
proof -
  have l: "7 + length (enc_msgs (aw_msgs w)) < 2 ^ 31" "7 + length (enc_msgs (aw_msgs w')) < 2 ^ 31"
    using assms(2,3) by (simp_all add: length_enc_wagon)
  moreover have e: "to_bytes 4 (c_int (7 + length (enc_msgs (aw_msgs w)))) = to_bytes 4 (c_int (7 + length (enc_msgs (aw_msgs w'))))"
    "to_bytes 2 (aw_sender w) = to_bytes 2 (aw_sender w')" "aw_round w = aw_round w'"
    "enc_msgs (aw_msgs w) @ x = enc_msgs (aw_msgs w') @ y"
    using assms(1) by (simp_all add: enc_wagon_def append_eq_append_conv)
  ultimately have "length (enc_msgs (aw_msgs w)) = length (enc_msgs (aw_msgs w'))"
    by (simp add: to_bytes_eq c_int_eq)
  then have "enc_msgs (aw_msgs w) = enc_msgs (aw_msgs w')" "x = y"
    using e(4) by (simp_all add: append_eq_append_conv)
  moreover have "aw_sender w = aw_sender w'" using e(2) by (simp add: to_bytes_eq)
  ultimately show ?thesis using e(3) l enc_msgs_inj [of "aw_msgs w" "aw_msgs w'"] by (simp add: awagon.equality)
qed

lemma enc_wagons_inj:
  "enc_wagons ws = enc_wagons ws' \<Longrightarrow> length (enc_wagons ws) < 2 ^ 31 \<Longrightarrow> ws = ws'"
proof (induction ws arbitrary: ws')
  case Nil
  then show ?case by (cases ws') (auto dest!: arg_cong [of _ _ length] simp: length_enc_wagon)
next
  case (Cons w ws)
  obtain w' vs where ws': "ws' = w' # vs"
    using Cons.prems(1) by (cases ws') (auto dest!: arg_cong [of _ _ length] simp: length_enc_wagon)
  have "length (enc_wagon w' @ enc_wagons vs) < 2 ^ 31" using Cons.prems unfolding ws' by (metis enc_wagons_simps(2))
  moreover have "length (enc_wagon w @ enc_wagons ws) < 2 ^ 31" using Cons.prems(2) by simp
  ultimately have "w = w' \<and> enc_wagons ws = enc_wagons vs"
    using Cons.prems by (intro enc_wagon_prefix) (simp_all add: ws')
  then show ?case using Cons by (simp add: ws')
qed

lemma encodings_apart:
  assumes "enc_train st c ws @ x = enc_train st' c' ws' @ y"
    and "length (enc_train st c ws) < 2 ^ 31" "length (enc_train st' c' ws') < 2 ^ 31"
  shows "st = st' \<and> c = c' \<and> ws = ws' \<and> x = y"
proof -
  have l: "10 + length (enc_wagons ws) < 2 ^ 31" "10 + length (enc_wagons ws') < 2 ^ 31"
    using assms(2,3) by (simp_all add: length_enc_train)
  moreover have e: "to_bytes 4 (c_int (10 + length (enc_wagons ws))) = to_bytes 4 (c_int (10 + length (enc_wagons ws')))"
    "stamp_id st = stamp_id st'" "stamp_lc st = stamp_lc st'" "stamp_round st = stamp_round st'"
    "to_bytes 2 c = to_bytes 2 c'" "enc_wagons ws @ x = enc_wagons ws' @ y"
    using assms(1) by (simp_all add: enc_train_def append_eq_append_conv)
  ultimately have "length (enc_wagons ws) = length (enc_wagons ws')"
    by (simp add: to_bytes_eq c_int_eq)
  then have "enc_wagons ws = enc_wagons ws'" "x = y" using e(6) by (simp_all add: append_eq_append_conv)
  then show ?thesis using e(2-5) l enc_wagons_inj [of ws ws'] by (simp add: to_bytes_eq stamp.equality)
qed

text \<open>A buffer of the right length holds only one train.\<close>

lemma holds_train_inj:
  assumes "holds buf 0 (enc_train st c ws)" "holds buf 0 (enc_train st' c' ws')" "length buf < 2 ^ 31"
  shows "st = st'" "c = c'" "ws = ws'"
proof -
  have p: "\<exists>x. buf = bs @ x" if "holds buf 0 bs" for bs
    using that by (auto simp: holds_def rd_def split: if_splits) (metis append_take_drop_id)
  obtain x y where "buf = enc_train st c ws @ x" "buf = enc_train st' c' ws' @ y"
    using p [OF assms(1)] p [OF assms(2)] by blast
  moreover from this have "length (enc_train st c ws) + length x = length buf" "length (enc_train st' c' ws') + length y = length buf"
    by (metis length_append)+
  ultimately have "st = st' \<and> c = c' \<and> ws = ws' \<and> x = y"
    using assms(3) by (intro encodings_apart) auto
  then show "st = st'" "c = c'" "ws = ws'" by simp_all
qed

end
