(* ===== verification/Ring.thy ===== *)
theory Ring
  imports LostPred RingOrder Encoding
begin

text \<open>
  A circuit of processes that nobody joins or leaves: the processes of \<open>Life\<close>, each with the
  queue of the messages that have arrived, and between a process and its successor the
  messages that have been written and not read yet. The trains go round, the processes treat
  them in the order they come, and their other threads run in between.
\<close>

record ring =
  nodes :: "life list"
  inbox :: "nat list list"
  wires :: "byte list list list"

text \<open>What the events of a step write to connections.\<close>

fun written :: "event list \<Rightarrow> byte list list" where
  "written [] = []"
| "written (Wrote c bs # evs) = bs # written evs"
| "written (ev # evs) = written evs"

text \<open>The connection to the successor is there; nobody has come or gone.\<close>

definition linked :: "globals \<Rightarrow> bool" where
  "linked g \<longleftrightarrow> succ g \<noteq> 0 \<and> cameProc g = 0 \<and> goneProc g = 0 \<and>
     (\<exists>c cm. getTComm (addrToRank (succ g)) False (globalAddrArray g) = Inr (Some c) \<and> comms g c = Some cm \<and> \<not> aborted cm)"

text \<open>The steps: a process treats the first message of its queue, a train (\<open>train_in\<close> says what
  the buffer holds), and what it writes goes to its successor; a process reads a message its
  predecessor has written; an operation of another thread.\<close>

inductive ring_step :: "env list \<Rightarrow> ring \<Rightarrow> ring \<Rightarrow> bool" for es where
  treat: "i < length (nodes R) \<Longrightarrow> s = nodes R ! i \<Longrightarrow> inbox R ! i = p # q \<Longrightarrow>
    train_in (l_now s) p st circuit ws t \<Longrightarrow>
    (\<forall>v. womims (mem (l_now s)) p = Some v \<longrightarrow> length (bytes v) + length (enc_wagon (l_own s)) + 144 < 2 ^ 31) \<Longrightarrow>
    stateMachine (es ! i) p (l_now s) = Inr g' \<Longrightarrow> trace g' = trace (l_now s) @ evs \<Longrightarrow>
    ring_step es R (R\<lparr>nodes := (nodes R)[i := \<lparr>l_now = g', l_msgs = mset q, l_own = wagon_after (l_now s) t circuit (l_own s),
        l_batches = l_batches s @ [batch (l_now s) t st circuit ws (l_own s)]\<rparr>],
      inbox := (inbox R)[i := q], wires := (wires R)[i := wires R ! i @ written evs]\<rparr>)"
| hop: "i < length (nodes R) \<Longrightarrow> s = nodes R ! i \<Longrightarrow> j = (i + length (nodes R) - 1) mod length (nodes R) \<Longrightarrow>
    wires R ! j = bs # rest \<Longrightarrow> comms (l_now s) c = Some cm \<Longrightarrow> \<not> aborted cm \<Longrightarrow> calm (reads inb) \<Longrightarrow>
    stream inb = bs @ later \<Longrightarrow> length bs \<le> grants (reads inb) \<Longrightarrow>
    receive self c inb (l_now s) = Inr (Some a, inb', g') \<Longrightarrow>
    ring_step es R (R\<lparr>nodes := (nodes R)[i := s\<lparr>l_now := g', l_msgs := add_mset a (l_msgs s)\<rparr>],
      inbox := (inbox R)[i := inbox R ! i @ [a]], wires := (wires R)[j := rest]\<rparr>)"
| thread: "i < length (nodes R) \<Longrightarrow> s = nodes R ! i \<Longrightarrow> life_step (es ! i) s s' \<Longrightarrow> l_msgs s' = l_msgs s \<Longrightarrow>
    l_batches s' = l_batches s \<Longrightarrow> links (l_now s') = links (l_now s) \<Longrightarrow>
    written (trace (l_now s')) = written (trace (l_now s)) \<Longrightarrow>
    ring_step es R (R\<lparr>nodes := (nodes R)[i := s']\<rparr>)"

definition ring_run :: "env list \<Rightarrow> ring \<Rightarrow> ring \<Rightarrow> bool" where
  "ring_run es = (ring_step es)\<^sup>*\<^sup>*"

text \<open>The system takes what is written in one go.\<close>

definition sockets :: "env list \<Rightarrow> nat \<Rightarrow> bool" where
  "sockets es n \<longleftrightarrow> (\<forall>i < n. \<forall>k. \<exists>m sc. env_writev (es ! i) k = (Done m, False) # sc \<and> 2 ^ 31 \<le> m)"

text \<open>The parameters of a circuit: its members in order, the number of trains, their clocks
  when they come to the first process.\<close>

record circuit =
  ads :: "address list"
  trains :: nat
  members :: addressSet
  clock :: "nat \<Rightarrow> byte"

definition circuit_ok :: "circuit \<Rightarrow> bool" where
  "circuit_ok C \<longleftrightarrow> 2 \<le> length (ads C) \<and> length (ads C) \<le> 16 \<and> 1 \<le> trains C \<and> trains C \<le> 16 \<and> distinct (ads C) \<and>
     (\<forall>ad \<in> set (ads C). addrIsMember ad (members C))"

text \<open>The \<open>k\<close>-th train that comes to the process \<open>i\<close>, and the stamps the process keeps after \<open>b\<close>
  trains.\<close>

definition stamp_at :: "circuit \<Rightarrow> nat \<Rightarrow> nat \<Rightarrow> stamp" where
  "stamp_at C i k = (let m = trains C in
     \<lparr>stamp_id = word_of_nat (k mod m), stamp_lc = clock C (k mod m) + word_of_nat (length (ads C) * (k div m) + i),
      stamp_round = word_of_nat ((k div m + (if i = 0 then 0 else 1)) mod 3)\<rparr>)"

definition stamps_ok :: "circuit \<Rightarrow> nat \<Rightarrow> nat \<Rightarrow> globals \<Rightarrow> bool" where
  "stamps_ok C i b g \<longleftrightarrow> (\<forall>t < trains C.
     stamp_lc (lts_stamp (lts g ! t)) + word_of_nat (length (ads C)) =
       clock C t + word_of_nat (length (ads C) * laps (trains C) b t + i + 1) \<and>
     stamp_round (lts_stamp (lts g ! t)) = word_of_nat (laps (trains C) b t mod 3))"

definition train_at :: "circuit \<Rightarrow> (nat \<Rightarrow> nat \<Rightarrow> awagon list) \<Rightarrow> nat \<Rightarrow> nat \<Rightarrow> byte list" where
  "train_at C h i k = enc_train (stamp_at C i k) (members C) (carried (length (ads C)) (trains C) h i k)"

definition visits :: "ring \<Rightarrow> nat \<Rightarrow> nat" where
  "visits R i = length (l_batches (nodes R ! i))"

text \<open>How many trains have been written to a process; the first gets those of the start.\<close>

definition available :: "circuit \<Rightarrow> ring \<Rightarrow> nat \<Rightarrow> nat" where
  "available C R i = (if i = 0 then visits R (length (ads C) - 1) + trains C else visits R (i - 1))"

definition pred_of :: "circuit \<Rightarrow> nat \<Rightarrow> nat" where
  "pred_of C i = (i + length (ads C) - 1) mod length (ads C)"

definition member_ok :: "circuit \<Rightarrow> event list \<Rightarrow> nat \<Rightarrow> life \<Rightarrow> bool" where
  "member_ok C E0 i s \<longleftrightarrow> life_ok E0 [] s \<and>
     (let g = l_now s in ntr g = int (trains C) \<and> myAddress g = ads C ! i \<and> succ g = ads C ! (Suc i mod length (ads C)) \<and>
        linked g \<and> lts_circuit (lts g ! 0) = members C \<and> aw_sender (l_own s) = ads C ! i \<and>
        lis g = int ((length (l_batches s) + trains C - 1) mod trains C) \<and> stamps_ok C i (length (l_batches s)) g)"

text \<open>A channel: of the \<open>av\<close> trains written to the process \<open>i\<close> it has treated \<open>b\<close>, the next ones
  are in the buffers \<open>q\<close> of its queue, the others on the wire.\<close>

definition channel :: "circuit \<Rightarrow> (nat \<Rightarrow> nat \<Rightarrow> awagon list) \<Rightarrow> nat \<Rightarrow> nat \<Rightarrow> nat \<Rightarrow> nat list \<Rightarrow> byte list list \<Rightarrow> life \<Rightarrow> bool" where
  "channel C h i b av q w s \<longleftrightarrow>
     b + length q + length w = av \<and> l_msgs s = mset q \<and>
     (\<forall>x < length q. \<exists>v. womims (mem (l_now s)) (q ! x) = Some v \<and> bytes v = train_at C h i (b + x)) \<and>
     (\<forall>y < length w. w ! y = train_at C h i (b + length q + y)) \<and>
     (\<forall>k < av. length (train_at C h i k) < 2 ^ 31)"

definition channel_ok :: "circuit \<Rightarrow> (nat \<Rightarrow> nat \<Rightarrow> awagon list) \<Rightarrow> ring \<Rightarrow> nat \<Rightarrow> bool" where
  "channel_ok C h R i \<longleftrightarrow>
     channel C h i (visits R i) (available C R i) (inbox R ! i) (wires R ! pred_of C i) (nodes R ! i)"

definition history_ok :: "circuit \<Rightarrow> (nat \<Rightarrow> nat \<Rightarrow> awagon list) \<Rightarrow> ring \<Rightarrow> nat \<Rightarrow> bool" where
  "history_ok C h R i \<longleftrightarrow>
     (\<forall>k < visits R i. l_batches (nodes R ! i) ! k = visit_batch (length (ads C)) (trains C) h i k \<and>
        (\<forall>w \<in> set (h i k). aw_sender w = ads C ! i \<and> (\<forall>a \<in> set (aw_msgs w). readable a)))"

definition ring_ok :: "circuit \<Rightarrow> (nat \<Rightarrow> event list) \<Rightarrow> (nat \<Rightarrow> nat \<Rightarrow> awagon list) \<Rightarrow> ring \<Rightarrow> bool" where
  "ring_ok C E0 h R \<longleftrightarrow>
     length (nodes R) = length (ads C) \<and> length (inbox R) = length (ads C) \<and> length (wires R) = length (ads C) \<and>
     (\<forall>i < length (ads C). member_ok C (E0 i) i (nodes R ! i) \<and> channel_ok C h R i \<and> history_ok C h R i)"

text \<open>The start: nothing unstable, the trains empty on their way to the first process.\<close>

definition ring_start :: "circuit \<Rightarrow> ring \<Rightarrow> bool" where
  "ring_start C R \<longleftrightarrow>
     length (nodes R) = length (ads C) \<and> inbox R = replicate (length (ads C)) [] \<and>
     wires R = (replicate (length (ads C)) [])[length (ads C) - 1 := map (train_at C (\<lambda>_ _. []) 0) [0..<trains C]] \<and>
     (\<forall>i < length (ads C). let s = nodes R ! i; g = l_now s in
        life_start s [] \<and> l_msgs s = {#} \<and> ntr g = int (trains C) \<and> myAddress g = ads C ! i \<and>
        succ g = ads C ! (Suc i mod length (ads C)) \<and> linked g \<and> lts_circuit (lts g ! 0) = members C \<and>
        aw_sender (l_own s) = ads C ! i \<and> lis g = int (trains C) - 1 \<and> stamps_ok C i 0 g)"

end
