(* ===== verification/RingInvariant.thy ===== *)
theory RingInvariant
  imports Ring
begin

text \<open>
  The invariant of a circuit that nobody joins or leaves: each channel contains exactly the
  trains that its writer has treated and its reader has not, with the wagons of the last
  visits of the other processes; each process has kept what the trains brought.
\<close>

section \<open>What a step of a process keeps\<close>

lemma thread_kept:
  assumes step: "life_step e s s'" and same: "l_msgs s' = l_msgs s" "l_batches s' = l_batches s" and ok: "life_ok E0 W0 s"
  shows "lts (l_now s') = lts (l_now s) \<and> ntr (l_now s') = ntr (l_now s) \<and> lis (l_now s') = lis (l_now s) \<and>
    myAddress (l_now s') = myAddress (l_now s) \<and> aw_sender (l_own s') = aw_sender (l_own s) \<and>
    keeps (mem (l_now s)) (mem (l_now s')) (l_msgs s)"
proof -
  obtain D U cap where con: "consistent (l_now s) D U (l_msgs s) cap (l_own s)" and W: "0 \<le> wagonMaxLen (l_now s)" "wagonMaxLen (l_now s) < 2 ^ 31"
    using ok by (auto simp: life_ok_def)
  show ?thesis
    using step
  proof (cases rule: life_step.cases)
    case (alloc pl mp g1 g2 rc g')
    have k: "lts g2 = lts (l_now s)" "ntr g2 = ntr (l_now s)" "lis g2 = lis (l_now s)" "myAddress g2 = myAddress (l_now s)"
      "keeps (mem (l_now s)) (mem g2) (l_msgs s)" "automatonState g2 = SEVERAL"
      by (rule alloc_ok [OF con W alloc(5,2,3)]; use ok in \<open>simp add: life_ok_def\<close>)+
    have "g' = g2" using alloc(4) k(6) by (simp add: utoBroadcast_def)
    then show ?thesis using k alloc(1) by simp
  next
    case (full n g')
    then show ?thesis using newmsg_full_same [OF full(2)] by (simp add: core_eq keeps_refl)
  next
    case (deliver b g')
    show ?thesis
      by (rule deliver_turn_ok [OF con deliver(2)]) (simp add: deliver(1))
  next
    case (net g')
    then show ?thesis by (simp add: core_eq keeps_refl)
  qed (use same in auto)
qed

section \<open>Stamps\<close>

lemma small_word: "n < 128 \<Longrightarrow> sint (word_of_nat n :: byte) = int n"
  by (simp add: signed_of_nat signed_take_bit_int_eq_self)

lemma small_unat: "n < 128 \<Longrightarrow> unat (word_of_nat n :: byte) = n"
  by (simp add: unsigned_of_nat take_bit_nat_eq_self)

lemma mod3_word: "sint (word_of_nat (x mod 3) :: byte) = int (x mod 3)"
  by (rule small_word) (rule less_trans [of _ 3], simp_all)

lemma mod3_word_eq: "word_of_nat (x mod 3) = (word_of_nat (y mod 3) :: byte) \<longleftrightarrow> x mod 3 = y mod 3"
  by (metis mod3_word of_nat_eq_iff)


lemma stamp_at_id:
  assumes "circuit_ok C"
  shows "sint (stamp_id (stamp_at C i k)) = int (k mod trains C)"
proof -
  have "k mod trains C < 16" using assms by (auto simp: circuit_ok_def intro: less_le_trans [of _ "trains C"])
  then show ?thesis by (simp add: stamp_at_def Let_def small_word)
qed

lemma stamp_at_round: "sint (stamp_round (stamp_at C i k)) = int ((k div trains C + (if i = 0 then 0 else 1)) mod 3)"
  by (simp add: stamp_at_def Let_def mod3_word)

text \<open>The train a process expects next is recent, in step, and leaves with the stamp that the next
  process expects.\<close>

lemma train_comes:
  fixes C i b g
  defines "t \<equiv> b mod trains C" and "st \<equiv> stamp_at C i b"
  assumes C: "circuit_ok C" and i: "i < length (ads C)" and g: "stamps_ok C i b g" "ntr g = int (trains C)"
    "lis g = int ((b + trains C - 1) mod trains C)" "length (lts g) = 16"
  shows "isRecentTrain (ntr g) st (lts g) (word_of_int (lis g)) = Inr True" "in_step st (lts g ! t)"
    "round_of st (lts g ! t) = Suc (b div trains C) mod 3"
proof -
  let ?m = "trains C" and ?n = "length (ads C)"
  have m: "0 < ?m" "?m \<le> 16" and n: "2 \<le> ?n" "?n \<le> 16" using C by (simp_all add: circuit_ok_def)
  have t: "t < ?m" using m by (simp add: t_def)
  have lap: "laps ?m b t = b div ?m" by (simp add: t_def laps_mod)
  have r: "stamp_round (lts_stamp (lts g ! t)) = word_of_nat (b div ?m mod 3)"
    and lc: "stamp_lc (lts_stamp (lts g ! t)) + word_of_nat ?n = clock C t + word_of_nat (?n * (b div ?m) + i + 1)"
    using g(1) t lap by (simp_all add: stamps_ok_def)
  have st: "stamp_lc st = clock C t + word_of_nat (?n * (b div ?m) + i)" "sint (stamp_id st) = int t"
    "stamp_round st = word_of_nat ((b div ?m + (if i = 0 then 0 else 1)) mod 3)"
    using stamp_at_id [OF C] by (simp_all add: st_def stamp_at_def t_def Let_def)
  have "stamp_lc st + 1 = stamp_lc (lts_stamp (lts g ! t)) + word_of_nat ?n"
    unfolding lc st(1) by simp
  then have "stamp_lc st - stamp_lc (lts_stamp (lts g ! t)) = word_of_nat ?n - 1"
    by (simp add: algebra_simps)
  also have "\<dots> = word_of_nat (?n - 1)" using n by (simp add: of_nat_diff)
  finally have d: "lc_distance st (lts_stamp (lts g ! t)) = ?n - 1"
    unfolding lc_distance_def using small_unat [of "?n - 1"] n by (simp del: of_nat_diff)
  have small: "?n - Suc 0 < 128" using n by linarith
  have l: "0 \<le> lis g" "lis g < ntr g" using g m by simp_all
  have "(lis g + 1) mod ntr g = int ((b + ?m - 1 + 1) mod ?m)"
    unfolding g(2,3) by (simp add: zmod_int mod_simps del: One_nat_def)
  then have w: "(lis g + 1) mod ntr g = int t" using m by (simp add: t_def)
  have "ntr g \<le> int (length (lts g))" "ntr g \<le> 16" using g m by simp_all
  then have "isRecentTrain (ntr g) st (lts g) (word_of_int (lis g)) = Inr (sint (stamp_id st) = int t \<and>
      (let d = lc_distance st (lts_stamp (lts g ! t)) in 0 < d \<and> (d < 128 \<or> d = 128 \<and> stamp_lc st < stamp_lc (lts_stamp (lts g ! t)))))"
    using isRecentTrain_distance [OF l, of "lts g" "int t" st] w by simp
  then show "isRecentTrain (ntr g) st (lts g) (word_of_int (lis g)) = Inr True"
    using d n st(2) small by (simp add: Let_def)
  show "in_step st (lts g ! t)"
    unfolding in_step_def r st(3) mod3_word mod3_word_eq by (simp add: mod_simps zmod_int)
  have ne: "Suc x mod 3 \<noteq> x mod 3" for x :: nat by presburger
  show "round_of st (lts g ! t) = Suc (b div ?m) mod 3"
    unfolding round_of_def Let_def r st(3) mod3_word mod3_word_eq using ne by (auto simp: mod_simps)
qed

lemma stamp_leaves:
  fixes C i b g
  defines "st \<equiv> stamp_at C i b"
  assumes C: "circuit_ok C" and i: "i < length (ads C)"
  shows "\<lparr>stamp_id = stamp_id st, stamp_lc = stamp_lc st + 1, stamp_round = word_of_int (int (Suc (b div trains C) mod 3))\<rparr> =
    stamp_at C (Suc i mod length (ads C)) (if Suc i = length (ads C) then b + trains C else b)"
proof -
  have m: "0 < trains C" using C by (simp add: circuit_ok_def)
  show ?thesis
  proof (cases "Suc i = length (ads C)")
    case True
    have lap: "(b + trains C) div trains C = Suc (b div trains C)" using div_add_self2 [of "trains C" b] m by simp
    have lc: "length (ads C) * (b div trains C) + Suc i = length (ads C) * Suc (b div trains C)" using True by simp
    have "word_of_nat (length (ads C) * (b div trains C) + i) + 1 = (word_of_nat (length (ads C) * (b div trains C) + Suc i) :: byte)"
      by simp
    also have "\<dots> = word_of_nat (length (ads C) * ((b + trains C) div trains C))"
      unfolding lc lap ..
    finally show ?thesis
      using True lap by (simp add: st_def stamp_at_def Let_def algebra_simps)
  next
    case False
    then have "Suc i mod length (ads C) = Suc i" using i by simp
    then show ?thesis using False by (simp add: st_def stamp_at_def Let_def)
  qed
qed

lemma stamps_after:
  assumes C: "circuit_ok C" and i: "i < length (ads C)" and g: "stamps_ok C i b g" "length (lts g) = 16"
    and g': "lts g' = (lts g)[b mod trains C := l]"
      "lts_stamp l = \<lparr>stamp_id = k, stamp_lc = stamp_lc (stamp_at C i b) + 1, stamp_round = word_of_int (int (Suc (b div trains C) mod 3))\<rparr>"
  shows "stamps_ok C i (Suc b) g'"
  unfolding stamps_ok_def
proof (intro allI impI)
  fix t assume t: "t < trains C"
  let ?m = "trains C" and ?n = "length (ads C)"
  have m: "0 < ?m" "?m \<le> 16" using C by (simp_all add: circuit_ok_def)
  show "stamp_lc (lts_stamp (lts g' ! t)) + word_of_nat ?n = clock C t + word_of_nat (?n * laps ?m (Suc b) t + i + 1) \<and>
     stamp_round (lts_stamp (lts g' ! t)) = word_of_nat (laps ?m (Suc b) t mod 3)"
  proof (cases "b mod ?m = t")
    case True
    have "lts g' ! t = l" using g' g(2) True t m by simp
    moreover have "laps ?m (Suc b) t = Suc (b div ?m)" using laps_Suc [OF t, of b] laps_mod [of ?m b] True by simp
    ultimately show ?thesis
      using g'(2) True by (simp add: stamp_at_def Let_def algebra_simps)
  next
    case False
    have "lts g' ! t = lts g ! t" using g'(1) False by simp
    moreover have "laps ?m (Suc b) t = laps ?m b t" using laps_Suc [OF t, of b] False by simp
    ultimately show ?thesis using g(1) t by (simp add: stamps_ok_def)
  qed
qed

section \<open>A process treats its next train\<close>

definition next_of :: "circuit \<Rightarrow> nat \<Rightarrow> nat" where
  "next_of C i = Suc i mod length (ads C)"

text \<open>What the process \<open>i\<close> writes after \<open>b\<close> visits is the next train of its successor with this
  number.\<close>

definition number_of :: "circuit \<Rightarrow> nat \<Rightarrow> nat \<Rightarrow> nat" where
  "number_of C i b = (if Suc i = length (ads C) then b + trains C else b)"

definition wagon_ok :: "address \<Rightarrow> awagon \<Rightarrow> bool" where
  "wagon_ok ad w \<longleftrightarrow> aw_sender w = ad \<and> (\<forall>a \<in> set (aw_msgs w). readable a)"

definition senders_ok :: "circuit \<Rightarrow> (nat \<Rightarrow> nat \<Rightarrow> awagon list) \<Rightarrow> nat \<Rightarrow> nat \<Rightarrow> bool" where
  "senders_ok C h i b \<longleftrightarrow> (\<forall>j < i. \<forall>w \<in> set (h j b). wagon_ok (ads C ! j) w) \<and>
     (\<forall>j. i < j \<and> j < length (ads C) \<and> trains C \<le> b \<longrightarrow> (\<forall>w \<in> set (h j (b - trains C)). wagon_ok (ads C ! j) w))"

lemma carried_wagon:
  assumes "senders_ok C h i b" "w \<in> set (carried (length (ads C)) (trains C) h i b)"
  obtains ad where "wagon_ok ad w"
  using assms unfolding set_carried senders_ok_def by blast

text \<open>The next train of a process is one that it can read.\<close>

lemma train_arrives:
  assumes C: "circuit_ok C" and v: "womims (mem g) p = Some v" "bytes v = train_at C h i b" "length (bytes v) < 2 ^ 31"
    and snd: "senders_ok C h i b" and g: "ntr g = int (trains C)"
  shows "train_in g p (stamp_at C i b) (members C) (carried (length (ads C)) (trains C) h i b) (b mod trains C)"
proof -
  have m: "0 < trains C" using C by (simp add: circuit_ok_def)
  have "holds (bytes v) 0 (enc_train (stamp_at C i b) (members C) (carried (length (ads C)) (trains C) h i b))"
    unfolding v(2) train_at_def by (rule holds_whole)
  moreover have "\<forall>a \<in> set (aw_msgs w). readable a" if w: "w \<in> set (carried (length (ads C)) (trains C) h i b)" for w
    by (rule carried_wagon [OF snd w]) (simp add: wagon_ok_def)
  ultimately show ?thesis
    using v(1,3) m by (auto simp: train_in_def g stamp_at_id [OF C] stamp_at_round)
qed

text \<open>The train that comes: first the wagon of the successor, which is not sent again.\<close>

lemma carried_parts:
  fixes C h i b X
  defines "n \<equiv> length (ads C)" and "m \<equiv> trains C" and "h' \<equiv> h(i := (h i)(b := X))"
  assumes C: "circuit_ok C" and i: "i < n" and snd: "senders_ok C h i b"
  obtains A B where "carried n m h i b = A @ B" "\<forall>w \<in> set A. aw_sender w = ads C ! next_of C i"
    "\<forall>w \<in> set B. aw_sender w \<noteq> ads C ! next_of C i"
    "\<forall>w \<in> set (A @ B). aw_sender w \<in> set (ads C) \<and> aw_sender w \<noteq> ads C ! i"
    "carried n m h' (next_of C i) (number_of C i b) = B @ X"
proof -
  have n: "2 \<le> n" and d: "distinct (ads C)" using C by (simp_all add: circuit_ok_def n_def)
  have eq: "ads C ! j = ads C ! k \<longleftrightarrow> j = k" if "j < n" "k < n" for j k
    using that d by (simp add: nth_eq_iff_index_eq n_def)
  have s1: "aw_sender w = ads C ! j" if "j < i" "w \<in> set (h j b)" for j w
    using snd that by (simp add: senders_ok_def wagon_ok_def)
  have s2: "aw_sender w = ads C ! j" if "i < j" "j < n" "m \<le> b" "w \<in> set (h j (b - m))" for j w
    using snd that by (auto simp: senders_ok_def wagon_ok_def n_def m_def)
  have all: "\<forall>w \<in> set (carried n m h i b). aw_sender w \<in> set (ads C) \<and> aw_sender w \<noteq> ads C ! i"
  proof
    fix w assume "w \<in> set (carried n m h i b)"
    then consider j where "i < j" "j < n" "m \<le> b" "w \<in> set (h j (b - m))" | j where "j < i" "w \<in> set (h j b)"
      unfolding set_carried by blast
    then show "aw_sender w \<in> set (ads C) \<and> aw_sender w \<noteq> ads C ! i"
    proof cases
      case (1 j)
      then show ?thesis using s2 [OF 1] eq [of j i] i by (auto simp: n_def)
    next
      case (2 j)
      then show ?thesis using s1 [OF 2] eq [of j i] i by (auto simp: n_def)
    qed
  qed
  show thesis
  proof (cases "Suc i = n")
    case True
    then have i0: "0 < i" and nx: "next_of C i = 0" "number_of C i b = b + m"
      using n by (auto simp: next_of_def number_of_def n_def m_def)
    let ?B = "concat (map (\<lambda>j. h j b) [Suc 0..<i])"
    have h': "map (\<lambda>j. h' j b) [Suc 0..<i] = map (\<lambda>j. h j b) [Suc 0..<i]" by (simp add: h'_def)
    show thesis
    proof (rule that [of "h 0 b" ?B])
      show "\<forall>w \<in> set (h 0 b). aw_sender w = ads C ! next_of C i" using s1 [OF i0] nx by simp
      show "\<forall>w \<in> set ?B. aw_sender w \<noteq> ads C ! next_of C i"
        using s1 eq [of _ 0] i unfolding nx by auto
      have "carried n m h' 0 (b + m) = concat (map (\<lambda>j. h' j b) [Suc 0..<i]) @ h' i b"
        by (rule carried_last(2) [OF i0 True])
      then show "carried n m h' (next_of C i) (number_of C i b) = ?B @ X"
        unfolding nx h' by (simp add: h'_def)
      show e: "carried n m h i b = h 0 b @ ?B" by (rule carried_last(1) [OF i0 True])
      show "\<forall>w \<in> set (h 0 b @ ?B). aw_sender w \<in> set (ads C) \<and> aw_sender w \<noteq> ads C ! i"
        using all unfolding e .
    qed
  next
    case False
    then have si: "Suc i < n" and nx: "next_of C i = Suc i" "number_of C i b = b"
      using i by (auto simp: next_of_def number_of_def n_def m_def)
    let ?A = "if m \<le> b then h (Suc i) (b - m) else []"
    let ?B1 = "if m \<le> b then concat (map (\<lambda>j. h j (b - m)) [Suc (Suc i)..<n]) else []"
    let ?B2 = "concat (map (\<lambda>j. h j b) [0..<i])"
    have h': "map (\<lambda>j. h' j b) [0..<i] = map (\<lambda>j. h j b) [0..<i]"
      "map (\<lambda>j. h' j (b - m)) [Suc (Suc i)..<n] = map (\<lambda>j. h j (b - m)) [Suc (Suc i)..<n]"
      by (simp_all add: h'_def)
    have o1: "aw_sender w \<noteq> ads C ! Suc i" if "j < i" "w \<in> set (h j b)" for j w
      using s1 [OF that] eq [of j "Suc i"] that si by simp
    have o2: "aw_sender w \<noteq> ads C ! Suc i" if "Suc i < j" "j < n" "m \<le> b" "w \<in> set (h j (b - m))" for j w
      using s2 [of j w] eq [of j "Suc i"] that si by simp
    show thesis
    proof (rule that [of ?A "?B1 @ ?B2"])
      show "\<forall>w \<in> set ?A. aw_sender w = ads C ! next_of C i" using s2 si unfolding nx by simp
      show "\<forall>w \<in> set (?B1 @ ?B2). aw_sender w \<noteq> ads C ! next_of C i"
        using o1 o2 unfolding nx by (auto simp: Suc_le_eq split: if_splits)
      show "carried n m h' (next_of C i) (number_of C i b) = (?B1 @ ?B2) @ X"
        unfolding nx carried_next [OF si] h' by (simp add: h'_def)
      show e: "carried n m h i b = ?A @ ?B1 @ ?B2" by (rule carried_split [OF si])
      show "\<forall>w \<in> set (?A @ ?B1 @ ?B2). aw_sender w \<in> set (ads C) \<and> aw_sender w \<noteq> ads C ! i"
        using all unfolding e .
    qed
  qed
qed

lemma member_consistent:
  assumes "member_ok C E0 i s"
  obtains D U cap where "consistent (l_now s) D U (l_msgs s) cap (l_own s)" "length (lts (l_now s)) = 16"
proof -
  obtain D U cap where c: "consistent (l_now s) D U (l_msgs s) cap (l_own s)"
    using assms by (auto simp: member_ok_def life_ok_def)
  then show thesis using consistent_len [OF c] by (rule that)
qed

text \<open>The buffer at the head of the queue is the train that \<open>train_in\<close> reads.\<close>

lemma train_known:
  assumes C: "circuit_ok C" and tr: "train_in g p st circuit ws t" and v: "womims (mem g) p = Some v" "bytes v = train_at C h i b"
  shows "st = stamp_at C i b" "circuit = members C" "ws = carried (length (ads C)) (trains C) h i b" "t = b mod trains C"
proof -
  have hv: "holds (bytes v) 0 (enc_train st circuit ws)" "length (bytes v) < 2 ^ 31" using tr v(1) by (auto simp: train_in_def)
  have w: "holds (bytes v) 0 (enc_train (stamp_at C i b) (members C) (carried (length (ads C)) (trains C) h i b))"
    unfolding v(2) train_at_def by (rule holds_whole)
  note inj = holds_train_inj [OF hv(1) w hv(2)]
  show "st = stamp_at C i b" "circuit = members C" "ws = carried (length (ads C)) (trains C) h i b" by (rule inj)+
  have "sint (stamp_id st) = int t" using tr by (simp add: train_in_def)
  then show "t = b mod trains C" using stamp_at_id [OF C, of i b] inj(1) by simp
qed

lemma no_change:
  assumes "cameProc g = 0" "goneProc g = 0" "lts_circuit (lts g ! 0) = c"
  shows "new_circuit g t c = c" "announced g t c wg = wg" "depart_room g t wg"
    "goes_on g t c w \<longleftrightarrow> addrIsMember (aw_sender w) c \<and> aw_sender w \<noteq> myAddress g \<and> aw_sender w \<noteq> succ g"
    "stays g t c w \<longleftrightarrow> addrIsMember (aw_sender w) c \<and> aw_sender w \<noteq> myAddress g"
proof -
  show n: "new_circuit g t c = c" using assms by (simp add: new_circuit_def addrUpdateCircuit_def)
  have none: "members_of 0 = []" by (simp add: members_of_def)
  show "announced g t c wg = wg" using assms(2) none by (simp add: announced_def add_announcements_def)
  show "depart_room g t wg" using assms(2) none by (simp add: depart_room_def announce_room_def)
  show "goes_on g t c w \<longleftrightarrow> addrIsMember (aw_sender w) c \<and> aw_sender w \<noteq> myAddress g \<and> aw_sender w \<noteq> succ g"
    using assms(2) n by (auto simp: goes_on_def is_resent_def is_kept_def addrIsMember_def)
  show "stays g t c w \<longleftrightarrow> addrIsMember (aw_sender w) c \<and> aw_sender w \<noteq> myAddress g"
    using assms(2) n by (auto simp: stays_def is_kept_def addrIsMember_def)
qed

lemma treat_node:
  fixes C h i s
  defines "g \<equiv> l_now s" and "b \<equiv> length (l_batches s)" and "n \<equiv> length (ads C)" and "m \<equiv> trains C"
  defines "X \<equiv> own_of (Suc (b div m) mod 3) (l_own s)"
  defines "h' \<equiv> h(i := (h i)(b := X))"
  assumes C: "circuit_ok C" and i: "i < n" and ok: "member_ok C E0 i s" and lk: "l_msgs s = add_mset p lk"
    and v: "womims (mem g) p = Some v" "bytes v = train_at C h i b" and snd: "senders_ok C h i b"
    and tr: "train_in g p st circuit ws t" and small: "length (bytes v) + length (enc_wagon (l_own s)) + 144 < 2 ^ 31"
    and env: "\<forall>k. \<exists>c sc. env_writev e k = (Done c, False) # sc \<and> 2 ^ 31 \<le> c"
  obtains g' c where "stateMachine e p g = Inr g'"
    "member_ok C E0 i \<lparr>l_now = g', l_msgs = lk, l_own = wagon_after g t circuit (l_own s),
       l_batches = l_batches s @ [batch g t st circuit ws (l_own s)]\<rparr>"
    "trace g' = trace g @ [Wrote c (train_at C h' (next_of C i) (number_of C i b))]"
    "length (train_at C h' (next_of C i) (number_of C i b)) < 2 ^ 31"
    "batch g t st circuit ws (l_own s) = visit_batch n m h' i b"
    "keeps (mem g) (mem g') lk" "\<forall>w \<in> set X. wagon_ok (ads C ! i) w" "wagonMaxLen g' = wagonMaxLen g"
proof -
  obtain D U cap where con: "consistent g D U (add_mset p lk) cap (l_own s)" and len: "length (lts g) = 16"
    using member_consistent [OF ok] unfolding lk g_def by metis
  have L: "life_ok E0 [] s" and M: "ntr g = int m" "myAddress g = ads C ! i" "succ g = ads C ! next_of C i" "linked g"
    "lts_circuit (lts g ! 0) = members C" "aw_sender (l_own s) = ads C ! i" "lis g = int ((b + m - 1) mod m)" "stamps_ok C i b g"
    using ok by (simp_all add: member_ok_def Let_def g_def b_def n_def m_def next_of_def)
  have S: "automatonState g = SEVERAL" "trains_named g" "7 \<le> wagonMaxLen g" "\<forall>a \<in> set (aw_msgs (l_own s)). readable a"
    using L by (simp_all add: life_ok_def g_def)
  have nn: "2 \<le> n" and m0: "0 < m" using C by (simp_all add: circuit_ok_def n_def m_def)
  note kn = train_known [OF C tr v]
  note kn' = kn(1-3) [folded n_def m_def] kn(4) [folded m_def]
  have lk0: "cameProc g = 0" "goneProc g = 0" "succ g \<noteq> 0" using M(4) by (simp_all add: linked_def)
  note nc = no_change [OF lk0(1,2) M(5)]
  note cm = train_comes [OF C i [unfolded n_def] M(8) M(1) [unfolded m_def] M(7) [unfolded m_def] len, folded kn(1) kn(4)]
  obtain A B where AB: "carried n m h i b = A @ B" "\<forall>w \<in> set A. aw_sender w = ads C ! next_of C i"
    "\<forall>w \<in> set B. aw_sender w \<noteq> ads C ! next_of C i"
    "\<forall>w \<in> set (A @ B). aw_sender w \<in> set (ads C) \<and> aw_sender w \<noteq> ads C ! i"
    "carried n m h' (next_of C i) (number_of C i b) = B @ X"
    unfolding n_def m_def h'_def by (rule carried_parts [OF C i [unfolded n_def] snd])
  have mem: "addrIsMember ad (members C)" if "ad \<in> set (ads C)" for ad using C that by (simp add: circuit_ok_def)
  have ga: "goes_on g t circuit w \<longleftrightarrow> aw_sender w \<noteq> ads C ! next_of C i" "stays g t circuit w" if "w \<in> set (A @ B)" for w
    using AB(4) that mem M(2,3) unfolding kn'(2) nc(4,5) by auto
  have fA: "\<forall>w \<in> set A. \<not> goes_on g t circuit w" using ga(1) AB(2) by simp
  have fB: "\<forall>w \<in> set B. goes_on g t circuit w" using ga(1) AB(3) by simp
  have flt: "filter (goes_on g t circuit) ws = B"
    unfolding kn'(3) AB(1) using fA fB by (simp add: filter_empty_conv filter_id_conv)
  have fst: "filter (stays g t circuit) ws = ws"
    unfolding kn'(3) AB(1) using ga(2) by (simp add: filter_id_conv)
  have contig: "contiguous (goes_on g t circuit) ws"
    unfolding contiguous_def kn'(3) AB(1) using fA fB by (intro exI [of _ A] exI [of _ B] exI [of _ "[]"]) simp
  have own: "own_of (round_of st (lts g ! t)) (announced g t circuit (l_own s)) = X"
    unfolding kn'(2) nc(2) cm(3) X_def m_def ..
  have out: "train_out g t st circuit ws (l_own s) = train_at C h' (next_of C i) (number_of C i b)"
  proof -
    have "filter (goes_on g t circuit) ws @ own_of (round_of st (lts g ! t)) (announced g t circuit (l_own s)) =
        carried (length (ads C)) (trains C) h' (next_of C i) (number_of C i b)"
      unfolding flt own AB(5) [unfolded n_def m_def] ..
    moreover have "\<lparr>stamp_id = stamp_id st, stamp_lc = stamp_lc st + 1, stamp_round = word_of_int (int (round_of st (lts g ! t)))\<rparr> =
        stamp_at C (next_of C i) (number_of C i b)"
      using stamp_leaves [OF C i [unfolded n_def], of b] unfolding cm(3) next_of_def number_of_def kn(1) [symmetric] .
    moreover have "new_circuit g t circuit = members C" using nc(1) kn'(2) by simp
    ultimately show ?thesis unfolding train_out_def Let_def train_at_def by simp
  qed
  have lb: "length (enc_train st circuit ws) \<le> length (bytes v)"
    using tr v(1) by (auto simp: train_in_def holds_def rd_def split: if_splits)
  have "length (enc_wagons B) \<le> length (enc_wagons ws)"
    unfolding kn'(3) AB(1) by (simp add: enc_wagons_def)
  moreover have "length (enc_wagons X) \<le> length (enc_wagon (l_own s))" by (simp add: X_def own_of_def)
  ultimately have lo: "length (train_at C h' (next_of C i) (number_of C i b)) < 2 ^ 31"
    using lb small unfolding train_at_def AB(5) [unfolded n_def m_def] length_enc_train by (simp add: enc_wagons_append)
  obtain c ch where c: "getTComm (addrToRank (succ g)) False (globalAddrArray g) = Inr (Some c)" "comms g c = Some ch" "\<not> aborted ch"
    using M(4) by (auto simp: linked_def)
  obtain k sc where k: "env_writev e (writes_done g) = (Done k, False) # sc" "2 ^ 31 \<le> k" using env by blast
  have tw: "takes_write e g c (length (train_out g t st circuit ws (l_own s)))"
    using c(2,3) k lo unfolding out takes_write_def by auto
  have me: "addrIsMember (myAddress g) circuit" using mem [of "ads C ! i"] i M(2) unfolding kn'(2) n_def by simp
  have room: "depart_room g t (l_own s)" using nc(3) .
  have sm: "length (enc_wagon (l_own s)) + 144 < 2 ^ 31" using small by linarith
  obtain g1 wi cap' where one: "several_train e p g = Inr g1"
    "trace g1 = trace g @ [Wrote c (train_out g t st circuit ws (l_own s))]" "lis g1 = int t"
    "lts_circuit (lts g1 ! t) = new_circuit g t circuit"
    "cameProc g1 = (if t = 0 then 0 else cameProc g)" "goneProc g1 = (if t = 0 then 0 else goneProc g)"
    "succ g1 = succ g" "lts g1 = (lts g)[t := lts g1 ! t]"
    "lts_stamp (lts g1 ! t) = \<lparr>stamp_id = stamp_id st, stamp_lc = stamp_lc st + 1, stamp_round = word_of_int (int (round_of st (lts g ! t)))\<rparr>"
    "ntr g1 = ntr g" "myAddress g1 = myAddress g" "globalAddrArray g1 = globalAddrArray g" "comms g1 = comms g" "keeps (mem g) (mem g1) lk"
    "wagonMaxLen g1 = wagonMaxLen g"
    by (rule several_train_recent [OF con tr S(3) room sm S(4,2) me cm(1) lk0(3) c(1) contig tw lo [folded out]]) (rule that)
  have "msg_at p g msg_type = Inr TRAIN"
    using tr v(1) by (auto simp: train_in_def msg_at_def get_womim_def holds_enc_train)
  then have run: "stateMachine e p g = Inr g1" using one(1) S(1) by (simp add: stateMachine_def on_several_def)
  have life: "life_ok E0 [] \<lparr>l_now = g1, l_msgs = lk, l_own = wagon_after g t circuit (l_own s),
       l_batches = l_batches s @ [batch g t st circuit ws (l_own s)]\<rparr>"
    using life_ok_visit [OF L lk, folded g_def, OF tr cm(2,1) room sm run] .
  have lnk: "linked g1"
    using c lk0 one(5-7,12,13) by (simp add: linked_def)
  have st: "stamps_ok C i (Suc b) g1"
  proof (rule stamps_after [OF C i [unfolded n_def] M(8) len])
    show "lts g1 = (lts g)[b mod trains C := lts g1 ! t]" using one(8) kn(4) by simp
    show "lts_stamp (lts g1 ! t) = \<lparr>stamp_id = stamp_id st, stamp_lc = stamp_lc (stamp_at C i b) + 1,
        stamp_round = word_of_int (int (Suc (b div trains C) mod 3))\<rparr>"
      using one(9) kn(1) unfolding cm(3) by simp
  qed
  have t16: "t < 16" using kn'(4) m0 C by (auto simp: circuit_ok_def m_def intro: less_le_trans [of _ m])
  have circ: "lts_circuit (lts g1 ! 0) = members C"
  proof (cases "t = 0")
    case True
    then show ?thesis using one(4) nc(1) kn'(2) by simp
  next
    case False
    have "lts g1 ! 0 = lts g ! 0" using one(8) False by (metis nth_list_update_neq)
    then show ?thesis using M(5) by simp
  qed
  have snd': "aw_sender (wagon_after g t circuit (l_own s)) = ads C ! i"
    using M(2,6) nc(2) by (simp add: wagon_after_def kn'(2) empty_wagon_def)
  have member: "member_ok C E0 i \<lparr>l_now = g1, l_msgs = lk, l_own = wagon_after g t circuit (l_own s),
       l_batches = l_batches s @ [batch g t st circuit ws (l_own s)]\<rparr>"
    unfolding member_ok_def
    using life lnk circ snd' st one(3,7,10,11) M(1-3) kn'(4) m0
    by (simp add: m_def b_def n_def next_of_def Let_def)
  have hi: "carried n m h' i b = carried n m h i b"
    by (rule carried_cong) (simp_all add: h'_def)
  have bt: "batch g t st circuit ws (l_own s) = visit_batch n m h' i b"
    unfolding batch_def fst own visit_batch_def hi by (simp add: kn'(3) h'_def)
  have Xs: "\<forall>w \<in> set X. wagon_ok (ads C ! i) w"
    using M(6) S(4) by (simp add: X_def own_of_def wagon_ok_def)
  show thesis
    by (rule that [OF run member _ lo bt one(14) Xs one(15)]) (use one(2) out in simp)
qed

end
