(* ===== verification/RingRun.thy ===== *)
theory RingRun
  imports RingInvariant
begin

text \<open>
  Every step of a circuit keeps its invariant, and what follows for the order in which the
  processes tell their applications the wagons.
\<close>

section \<open>Channels\<close>

lemma channel_cong:
  assumes "channel C h i b av q w s" "\<And>k. k < av \<Longrightarrow> train_at C h' i k = train_at C h i k"
  shows "channel C h' i b av q w s"
  using assms by (auto simp: channel_def)

lemma channel_keeps:
  assumes "channel C h i b av q w s" "l_msgs s' = l_msgs s" "keeps (mem (l_now s)) (mem (l_now s')) (l_msgs s)"
  shows "channel C h i b av q w s'"
proof -
  have "\<exists>v. womims (mem (l_now s')) (q ! x) = Some v \<and> bytes v = train_at C h i (b + x)" if x: "x < length q" for x
  proof -
    obtain v where v: "womims (mem (l_now s)) (q ! x) = Some v" "bytes v = train_at C h i (b + x)"
      using assms(1) x by (auto simp: channel_def)
    have "q ! x \<in># l_msgs s" using assms(1) x by (simp add: channel_def)
    from keepsD [OF assms(3) this v(1)] show ?thesis using v(2) by auto
  qed
  then show ?thesis using assms(1,2) by (simp add: channel_def)
qed

lemma channel_take:
  assumes "channel C h i b av (p # q) w s" "l_msgs s' = mset q" "keeps (mem (l_now s)) (mem (l_now s')) (mset q)"
  shows "channel C h i (Suc b) av q w s'"
proof -
  have "\<exists>v. womims (mem (l_now s')) (q ! x) = Some v \<and> bytes v = train_at C h i (Suc b + x)" if "x < length q" for x
  proof -
    have "Suc x < length (p # q)" using that by simp
    then obtain v where v: "womims (mem (l_now s)) ((p # q) ! Suc x) = Some v" "bytes v = train_at C h i (b + Suc x)"
      using assms(1) unfolding channel_def by blast
    have "q ! x \<in># mset q" using that by simp
    from keepsD [OF assms(3) this, of v] show ?thesis using v by auto
  qed
  then show ?thesis using assms(1,2) by (auto simp: channel_def)
qed

lemma channel_push:
  assumes "channel C h i b av q w s" "length (train_at C h i av) < 2 ^ 31"
  shows "channel C h i b (Suc av) q (w @ [train_at C h i av]) s"
  using assms by (auto simp: channel_def nth_append less_Suc_eq)

lemma channel_hop:
  assumes "channel C h i b av q (bs # w) s" "womims (mem (l_now s')) = (womims (mem (l_now s)))(a \<mapsto> \<lparr>counter = 1, bytes = bs\<rparr>)"
    "a \<notin> set q" "l_msgs s' = add_mset a (l_msgs s)"
  shows "channel C h i b av (q @ [a]) w s'" "bs = train_at C h i (b + length q)" "length bs < 2 ^ 31"
proof -
  have "(bs # w) ! 0 = train_at C h i (b + length q + 0)" using assms(1) unfolding channel_def by blast
  then show bs: "bs = train_at C h i (b + length q)" by simp
  have "b + length q < av" using assms(1) by (simp add: channel_def)
  then show "length bs < 2 ^ 31" using assms(1) unfolding bs by (simp add: channel_def)
  have "w ! y = train_at C h i (b + Suc (length q) + y)" if "y < length w" for y
  proof -
    have "Suc y < length (bs # w)" using that by simp
    then have "(bs # w) ! Suc y = train_at C h i (b + length q + Suc y)" using assms(1) unfolding channel_def by blast
    then show ?thesis by simp
  qed
  moreover have "\<exists>v. womims (mem (l_now s')) ((q @ [a]) ! x) = Some v \<and> bytes v = train_at C h i (b + x)" if "x < Suc (length q)" for x
  proof (cases "x < length q")
    case True
    then have "q ! x \<noteq> a" using assms(3) nth_mem by blast
    moreover obtain v where "womims (mem (l_now s)) (q ! x) = Some v" "bytes v = train_at C h i (b + x)"
      using assms(1) True by (auto simp: channel_def)
    ultimately show ?thesis using True assms(2) by (auto simp: nth_append)
  next
    case False
    then have "x = length q" using that by simp
    then show ?thesis using bs assms(2) by simp
  qed
  ultimately show "channel C h i b av (q @ [a]) w s'"
    using assms(1,4) by (simp add: channel_def)
qed

section \<open>How far the processes are from each other\<close>

lemma pred_of_eq:
  assumes "j < length (ads C)"
  shows "pred_of C j = (if j = 0 then length (ads C) - 1 else j - 1)"
proof (cases "j = 0")
  case False
  then have "j + length (ads C) - 1 = (j - 1) + length (ads C)" by simp
  then show ?thesis using False assms unfolding pred_of_def by (simp del: add_diff_assoc2)
qed (use assms in \<open>simp add: pred_of_def\<close>)

lemma next_pred:
  assumes "i < length (ads C)" "j < length (ads C)"
  shows "pred_of C j = i \<longleftrightarrow> j = next_of C i" "next_of C i < length (ads C)" "pred_of C j < length (ads C)"
proof -
  let ?n = "length (ads C)"
  have p: "pred_of C j = (if j = 0 then ?n - 1 else j - 1)" by (rule pred_of_eq [OF assms(2)])
  have q: "next_of C i = (if Suc i = ?n then 0 else Suc i)"
    using assms(1) by (simp add: next_of_def)
  show "pred_of C j = i \<longleftrightarrow> j = next_of C i" unfolding p q using assms by auto
  show "next_of C i < ?n" unfolding q using assms by auto
  show "pred_of C j < ?n" unfolding p using assms by auto
qed

lemma next_neq: "circuit_ok C \<Longrightarrow> i < length (ads C) \<Longrightarrow> next_of C i \<noteq> i"
  by (auto simp: next_of_def circuit_ok_def mod_Suc)

lemma visits_available: "ring_ok C E0 h R \<Longrightarrow> i < length (ads C) \<Longrightarrow> visits R i \<le> available C R i"
  unfolding ring_ok_def channel_ok_def channel_def by (metis le_add1 add.assoc)

lemma visits_mono:
  assumes "ring_ok C E0 h R" "i \<le> j" "j < length (ads C)"
  shows "visits R j \<le> visits R i"
  using assms(2,3)
proof (induction j rule: dec_induct)
  case (step j)
  have "visits R (Suc j) \<le> available C R (Suc j)" by (rule visits_available [OF assms(1)]) (use step in simp)
  then show ?case using step by (simp add: available_def)
qed simp

lemma available_ahead:
  assumes "ring_ok C E0 h R" "i < j" "j < length (ads C)"
  shows "available C R j \<le> visits R i"
  using visits_mono [OF assms(1), of i "j - 1"] assms(2,3) by (simp add: available_def)

lemma available_lap:
  assumes "ring_ok C E0 h R" "i < length (ads C)" "j < length (ads C)"
  shows "available C R j \<le> visits R i + trains C"
proof -
  let ?n = "length (ads C)"
  have last: "visits R (?n - 1) \<le> visits R i" by (rule visits_mono [OF assms(1)]) (use assms(2) in linarith)+
  show ?thesis
  proof (cases "j = 0")
    case True
    then show ?thesis using last by (simp add: available_def)
  next
    case False
    have "visits R (j - 1) \<le> visits R 0" by (rule visits_mono [OF assms(1)]) (use assms in simp_all)
    also have "\<dots> \<le> available C R 0" by (rule visits_available [OF assms(1)]) (use assms(2) in linarith)
    finally show ?thesis using last False by (simp add: available_def)
  qed
qed

section \<open>The steps\<close>

lemma ring_okD:
  assumes "ring_ok C E0 h R" "i < length (ads C)"
  shows "member_ok C (E0 i) i (nodes R ! i)" "channel_ok C h R i" "history_ok C h R i"
  using assms by (simp_all add: ring_ok_def)

lemma ring_lengths:
  assumes "ring_ok C E0 h R"
  shows "length (nodes R) = length (ads C)" "length (inbox R) = length (ads C)" "length (wires R) = length (ads C)"
  using assms by (simp_all add: ring_ok_def)

text \<open>A wagon more in the history changes no train that is on its way or has been treated.\<close>

lemma history_frame:
  assumes ok: "ring_ok C E0 h R" and i: "i < length (ads C)" and j: "j < length (ads C)" "k < available C R j"
  shows "carried (length (ads C)) (trains C) (h(i := (h i)(visits R i := X))) j k = carried (length (ads C)) (trains C) h j k"
proof (rule carried_cong)
  fix j' assume *: "j < j'" "j' < length (ads C)" "trains C \<le> k"
  have "k < visits R i + trains C" using available_lap [OF ok i j(1)] j(2) by simp
  then show "(h(i := (h i)(visits R i := X))) j' (k - trains C) = h j' (k - trains C)" using *(3) by auto
next
  fix j' assume "j' < j"
  then show "(h(i := (h i)(visits R i := X))) j' k = h j' k"
    using available_ahead [OF ok _ j(1), of i] j(2) by auto
qed

lemma treat_senders:
  assumes ok: "ring_ok C E0 h R" and i: "i < length (ads C)" and b: "visits R i < available C R i"
  shows "senders_ok C h i (visits R i)"
proof -
  have sender: "wagon_ok (ads C ! j) w" if "j < length (ads C)" "k < visits R j" "w \<in> set (h j k)" for j k w
    using ring_okD(3) [OF ok that(1)] that(2,3) by (simp add: history_ok_def wagon_ok_def)
  show ?thesis
    unfolding senders_ok_def
  proof (intro conjI allI impI ballI)
    fix j w assume *: "j < i" "w \<in> set (h j (visits R i))"
    have "visits R i < visits R j" using available_ahead [OF ok *(1) i] b by simp
    then show "wagon_ok (ads C ! j) w" using sender [of j] * i by simp
  next
    fix j w assume *: "i < j \<and> j < length (ads C) \<and> trains C \<le> visits R i" "w \<in> set (h j (visits R i - trains C))"
    have "visits R i < visits R j + trains C" using available_lap [OF ok _ i, of j] * b by simp
    then have "visits R i - trains C < visits R j" using *(1) by linarith
    then show "wagon_ok (ads C ! j) w" using sender [of j "visits R i - trains C" w] * by simp
  qed
qed

text \<open>The first message of a queue is a train that the process can treat, and it can.\<close>

lemma head_is_train:
  assumes C: "circuit_ok C" and ok: "ring_ok C E0 h R" and i: "i < length (ads C)" and q: "inbox R ! i = p # q"
  obtains v where "womims (mem (l_now (nodes R ! i))) p = Some v" "bytes v = train_at C h i (visits R i)" "length (bytes v) < 2 ^ 31"
    "l_msgs (nodes R ! i) = add_mset p (mset q)" "senders_ok C h i (visits R i)"
    "train_in (l_now (nodes R ! i)) p (stamp_at C i (visits R i)) (members C)
       (carried (length (ads C)) (trains C) h i (visits R i)) (visits R i mod trains C)"
proof -
  have ch: "channel C h i (visits R i) (available C R i) (p # q) (wires R ! pred_of C i) (nodes R ! i)"
    using ring_okD(2) [OF ok i] by (simp add: channel_ok_def q)
  have "\<exists>v. womims (mem (l_now (nodes R ! i))) ((p # q) ! 0) = Some v \<and> bytes v = train_at C h i (visits R i + 0)"
    using ch unfolding channel_def by blast
  then obtain v where v: "womims (mem (l_now (nodes R ! i))) p = Some v" "bytes v = train_at C h i (visits R i)" by auto
  have av: "visits R i < available C R i" using ch by (simp add: channel_def)
  note snd = treat_senders [OF ok i av]
  have len: "length (bytes v) < 2 ^ 31" using ch av unfolding v(2) channel_def by blast
  have "ntr (l_now (nodes R ! i)) = int (trains C)" using ring_okD(1) [OF ok i] by (simp add: member_ok_def Let_def)
  from train_arrives [OF C v len snd this] show thesis
    using ch by (intro that [OF v len _ snd]) (simp_all add: channel_def)
qed

lemma ring_ok_treat:
  assumes C: "circuit_ok C" and sk: "sockets es (length (ads C))" and ok: "ring_ok C E0 h R"
    and i: "i < length (ads C)" and s: "s = nodes R ! i" and q: "inbox R ! i = p # q"
    and tr: "train_in (l_now s) p st circuit ws t"
    and small: "\<forall>v. womims (mem (l_now s)) p = Some v \<longrightarrow> length (bytes v) + length (enc_wagon (l_own s)) + 144 < 2 ^ 31"
  obtains g' evs c bs where "stateMachine (es ! i) p (l_now s) = Inr g'" "trace g' = trace (l_now s) @ evs" "evs = [Wrote c bs]"
    "wagonMaxLen g' = wagonMaxLen (l_now s)" "ring_ok C E0 (h(i := (h i)(visits R i := own_of (Suc (visits R i div trains C) mod 3) (l_own s))))
      (R\<lparr>nodes := (nodes R)[i := \<lparr>l_now = g', l_msgs = mset q, l_own = wagon_after (l_now s) t circuit (l_own s),
        l_batches = l_batches s @ [batch (l_now s) t st circuit ws (l_own s)]\<rparr>],
      inbox := (inbox R)[i := q], wires := (wires R)[i := wires R ! i @ written evs]\<rparr>)"
proof -
  let ?n = "length (ads C)" and ?m = "trains C" and ?b = "visits R i"
  define X where "X = own_of (Suc (?b div ?m) mod 3) (l_own s)"
  define h' where "h' = h(i := (h i)(?b := X))"
  note len = ring_lengths [OF ok] and m = ring_okD(1) [OF ok i, folded s]
  have b: "?b = length (l_batches s)" by (simp add: visits_def s)
  obtain v where v: "womims (mem (l_now s)) p = Some v" "bytes v = train_at C h i ?b"
    and lk: "l_msgs s = add_mset p (mset q)" and snd: "senders_ok C h i ?b"
    by (rule head_is_train [OF C ok i q, folded s]) (rule that)
  have env: "\<forall>k. \<exists>c sc. env_writev (es ! i) k = (Done c, False) # sc \<and> 2 ^ 31 \<le> c" using sk i by (simp add: sockets_def)
  have sm: "length (bytes v) + length (enc_wagon (l_own s)) + 144 < 2 ^ 31" using small v(1) by blast
  obtain g' c where one: "stateMachine (es ! i) p (l_now s) = Inr g'"
    "member_ok C (E0 i) i \<lparr>l_now = g', l_msgs = mset q, l_own = wagon_after (l_now s) t circuit (l_own s),
        l_batches = l_batches s @ [batch (l_now s) t st circuit ws (l_own s)]\<rparr>"
    "trace g' = trace (l_now s) @ [Wrote c (train_at C h' (next_of C i) (number_of C i ?b))]"
    "length (train_at C h' (next_of C i) (number_of C i ?b)) < 2 ^ 31"
    "batch (l_now s) t st circuit ws (l_own s) = visit_batch ?n ?m h' i ?b"
    "keeps (mem (l_now s)) (mem g') (mset q)" "\<forall>w \<in> set X. wagon_ok (ads C ! i) w"
    "wagonMaxLen g' = wagonMaxLen (l_now s)"
    unfolding h'_def X_def b
    by (rule treat_node [OF C i m lk v [unfolded b] snd [unfolded b] tr sm env])
  define s' where "s' = \<lparr>l_now = g', l_msgs = mset q, l_own = wagon_after (l_now s) t circuit (l_own s),
        l_batches = l_batches s @ [batch (l_now s) t st circuit ws (l_own s)]\<rparr>"
  define evs where "evs = [Wrote c (train_at C h' (next_of C i) (number_of C i ?b))]"
  have wr: "written evs = [train_at C h' (next_of C i) (number_of C i ?b)]" by (simp add: evs_def)
  define R' where "R' = R\<lparr>nodes := (nodes R)[i := s'], inbox := (inbox R)[i := q], wires := (wires R)[i := wires R ! i @ written evs]\<rparr>"
  note nx = next_pred [OF i] and nn = next_neq [OF C i]
  have at: "nodes R' ! j = (if j = i then s' else nodes R ! j)" "inbox R' ! j = (if j = i then q else inbox R ! j)"
    "wires R' ! j = (if j = i then wires R ! i @ written evs else wires R ! j)" if "j < ?n" for j
    using that i len by (simp_all add: R'_def)
  have vis: "visits R' j = (if j = i then Suc ?b else visits R j)" if "j < ?n" for j
    using at(1) [OF that] by (simp add: visits_def s'_def s)
  have avl: "available C R' j = (if j = next_of C i then Suc (available C R j) else available C R j)" if j: "j < ?n" for j
  proof -
    have p: "pred_of C j < ?n" "pred_of C j = i \<longleftrightarrow> j = next_of C i" using nx [OF j] by simp_all
    then show ?thesis using vis [OF p(1)] p(2) pred_of_eq [OF j] by (auto simp: available_def)
  qed
  have num: "number_of C i ?b = available C R (next_of C i)"
  proof (cases "Suc i = ?n")
    case True
    then have "?n - 1 = i" by linarith
    then show ?thesis using True by (simp add: number_of_def next_of_def available_def)
  next
    case False
    then show ?thesis using i by (simp add: number_of_def next_of_def available_def)
  qed
  have same: "train_at C h' j k = train_at C h j k" if "j < ?n" "k < available C R j" for j k
    unfolding train_at_def h'_def by (simp only: history_frame [OF ok i that])
  have "member_ok C (E0 j) j (nodes R' ! j) \<and> channel_ok C h' R' j \<and> history_ok C h' R' j" if j: "j < ?n" for j
  proof (intro conjI)
    show "member_ok C (E0 j) j (nodes R' ! j)" using one(2) [folded s'_def] ring_okD(1) [OF ok j] at(1) [OF j] by simp
    have chj: "channel C h' j (visits R j) (available C R j) (inbox R ! j) (wires R ! pred_of C j) (nodes R ! j)"
      by (rule channel_cong [OF ring_okD(2) [OF ok j, unfolded channel_ok_def] same [OF j]])
    show "channel_ok C h' R' j"
    proof (cases "j = i")
      case True
      have "pred_of C i \<noteq> i" "i \<noteq> next_of C i" using nx(1) [OF i] nn by auto
      moreover have "channel C h' i (Suc ?b) (available C R i) q (wires R ! pred_of C i) s'"
        by (rule channel_take [of C h' i ?b _ p q _ s]) (use chj True q s one(6) in \<open>simp_all add: s'_def\<close>)
      ultimately show ?thesis
        unfolding channel_ok_def using True at i vis avl nx(3) [OF i] by simp
    next
      case False
      show ?thesis
      proof (cases "j = next_of C i")
        case True
        have "channel C h' j (visits R j) (Suc (available C R j)) (inbox R ! j) (wires R ! i @ [train_at C h' j (available C R j)]) (nodes R ! j)"
          by (rule channel_push) (use chj one(4) num True nx(1) [OF j] in simp_all)
        then show ?thesis
          unfolding channel_ok_def using True False at j i vis avl nx(1) [OF j] wr num by simp
      next
        case nj: False
        have "pred_of C j \<noteq> i" "pred_of C j < ?n" using nx [OF j] nj by auto
        then show ?thesis
          unfolding channel_ok_def using chj False nj at j vis avl by simp
      qed
    qed
    show "history_ok C h' R' j"
      unfolding history_ok_def
    proof (intro allI impI)
      fix k assume k: "k < visits R' j"
      show "l_batches (nodes R' ! j) ! k = visit_batch ?n ?m h' j k \<and> (\<forall>w \<in> set (h' j k). aw_sender w = ads C ! j \<and> (\<forall>a \<in> set (aw_msgs w). readable a))"
      proof (cases "j = i \<and> k = ?b")
        case True
        then show ?thesis using one(5,7) at(1) [OF i] by (simp add: s'_def b nth_append h'_def wagon_ok_def)
      next
        case False
        then have kj: "k < visits R j" using k vis [OF j] by (auto split: if_splits)
        then have "k < available C R j" using visits_available [OF ok j] by simp
        then have "visit_batch ?n ?m h' j k = visit_batch ?n ?m h j k" "h' j k = h j k"
          using history_frame [OF ok i j, of k X] False by (auto simp: visit_batch_def h'_def)
        moreover have "l_batches (nodes R' ! j) ! k = l_batches (nodes R ! j) ! k"
          using at(1) [OF j] kj by (auto simp: s'_def s visits_def nth_append)
        ultimately show ?thesis using ring_okD(3) [OF ok j] kj by (simp add: history_ok_def)
      qed
    qed
  qed
  then have "ring_ok C E0 h' R'" using len by (simp add: ring_ok_def R'_def)
  then show thesis using one(1,3,8) by (intro that [OF _ _ evs_def]) (simp_all add: R'_def s'_def h'_def X_def evs_def)
qed

text \<open>A step of one process that neither treats a train nor changes what the others see.\<close>

lemma ring_ok_local:
  assumes ok: "ring_ok C E0 h R" and i: "i < length (ads C)" and j: "j = pred_of C i"
    and s': "member_ok C (E0 i) i s'" "l_batches s' = l_batches (nodes R ! i)"
      "channel C h i (visits R i) (available C R i) q w s'"
  shows "ring_ok C E0 h (R\<lparr>nodes := (nodes R)[i := s'], inbox := (inbox R)[i := q], wires := (wires R)[j := w]\<rparr>)"
proof -
  let ?R = "R\<lparr>nodes := (nodes R)[i := s'], inbox := (inbox R)[i := q], wires := (wires R)[j := w]\<rparr>" and ?n = "length (ads C)"
  note len = ring_lengths [OF ok] and nx = next_pred [OF i]
  have jn: "j < ?n" using nx(3) [OF i] j by simp
  have at: "nodes ?R ! k = (if k = i then s' else nodes R ! k)" "inbox ?R ! k = (if k = i then q else inbox R ! k)"
    "wires ?R ! k = (if k = j then w else wires R ! k)" if "k < ?n" for k
    using that i jn len by simp_all
  have vis: "visits ?R k = visits R k" for k
    using i len s'(2) by (cases "k = i") (simp_all add: visits_def)
  have avl: "available C ?R k = available C R k" for k by (simp add: available_def vis)
  have "member_ok C (E0 k) k (nodes ?R ! k) \<and> channel_ok C h ?R k \<and> history_ok C h ?R k" if k: "k < ?n" for k
  proof (intro conjI)
    show "member_ok C (E0 k) k (nodes ?R ! k)" using s'(1) ring_okD(1) [OF ok k] at(1) [OF k] by simp
    have pk: "pred_of C k = j \<longleftrightarrow> k = i" "pred_of C k < ?n"
      using next_pred [OF jn k] next_pred(1) [OF jn i] j by auto
    show "channel_ok C h ?R k"
      using s'(3) ring_okD(2) [OF ok k] pk at [OF k] at(3) [OF pk(2)] by (auto simp: channel_ok_def vis avl)
    show "history_ok C h ?R k"
      using ring_okD(3) [OF ok k] at(1) [OF k] s'(2) by (auto simp: history_ok_def vis)
  qed
  then show ?thesis using len by (simp add: ring_ok_def)
qed

lemma ring_ok_hop:
  assumes ok: "ring_ok C E0 h R" and i: "i < length (ads C)" and s: "s = nodes R ! i" and j: "j = pred_of C i"
    and w: "wires R ! j = bs # rest" and cm: "comms (l_now s) c = Some cm" "\<not> aborted cm"
    and inb: "calm (reads inb)" "stream inb = bs @ later" "length bs \<le> grants (reads inb)"
    and run: "receive self c inb (l_now s) = Inr (Some a, inb', g')"
  shows "ring_ok C E0 h (R\<lparr>nodes := (nodes R)[i := s\<lparr>l_now := g', l_msgs := add_mset a (l_msgs s)\<rparr>],
      inbox := (inbox R)[i := inbox R ! i @ [a]], wires := (wires R)[j := rest]\<rparr>)"
proof -
  let ?g = "l_now s" and ?n = "next_id (mem (l_now s))"
  have ch: "channel C h i (visits R i) (available C R i) (inbox R ! i) (bs # rest) s"
    using ring_okD(2) [OF ok i] w j by (simp add: channel_ok_def s)
  note m = ring_okD(1) [OF ok i, folded s]
  have bs: "bs = train_at C h i (visits R i + length (inbox R ! i))" "length bs < 2 ^ 31"
  proof -
    have "(bs # rest) ! 0 = train_at C h i (visits R i + length (inbox R ! i) + 0)" using ch unfolding channel_def by blast
    then show "bs = train_at C h i (visits R i + length (inbox R ! i))" by simp
    have "visits R i + length (inbox R ! i) < available C R i" using ch by (simp add: channel_def)
    then show "length bs < 2 ^ 31" using ch unfolding \<open>bs = _\<close> channel_def by blast
  qed
  obtain tl' where tl: "bs = to_bytes 4 (c_int (length bs)) @ tl'" "4 < length bs"
    unfolding bs(1) train_at_def length_enc_train by (auto simp: enc_train_def)
  obtain cm' inb2 cnt h2 where r:
    "receive self c inb ?g = Inr (Some ?n, inb2, (set_comm c (Some cm') ?g)\<lparr>counters := cnt, mem := h2\<rparr>)" "\<not> aborted cm'"
    "next_id h2 = Suc ?n" "womims h2 = (womims (mem ?g))(?n \<mapsto> \<lparr>counter = 1, bytes = bs\<rparr>)"
    by (rule receive_ok [OF cm inb(1) tl bs(2) inb(2,3), where self = self]) (rule that)
  let ?g1 = "(set_comm c (Some cm') ?g)\<lparr>counters := cnt\<rparr>"
  let ?s = "s\<lparr>l_now := ?g1\<lparr>mem := h2\<rparr>, l_msgs := add_mset ?n (l_msgs s)\<rparr>"
  have g': "g' = ?g1\<lparr>mem := h2\<rparr>" "a = ?n" using run r(1) by simp_all
  obtain D U cap where con: "consistent ?g D U (l_msgs s) cap (l_own s)" using member_consistent [OF m] by metis
  have fresh: "?n \<notin># l_msgs s"
  proof -
    have "building ?g (all_refs ?g D U + l_msgs s) cap (l_own s)" using con by (simp add: consistent_def)
    then obtain b where "counts (mem ?g) (add_mset b (all_refs ?g D U + l_msgs s))" by (auto simp: building_def)
    then have "?n \<notin># add_mset b (all_refs ?g D U + l_msgs s)" by (rule counts_fresh)
    then show ?thesis by simp
  qed
  have "life_step (es ! i) s ?s"
    by (rule life_step.arrival [OF cm inb(1) tl bs(2) inb(2,3) r(1)])
  then have life: "life_ok (E0 i) [] ?s" using m by (auto simp: member_ok_def intro: life_ok_step)
  have lk: "linked ?g" using m by (simp add: member_ok_def Let_def)
  then have lk': "linked (?g1\<lparr>mem := h2\<rparr>)"
    using r(2) unfolding linked_def by (auto simp: set_comm_def)
  have mem: "member_ok C (E0 i) i ?s"
    using m life lk' unfolding member_ok_def by (simp add: set_comm_def stamps_ok_def Let_def)
  have q: "?n \<notin> set (inbox R ! i)" using fresh ch by (simp add: channel_def)
  have "channel C h i (visits R i) (available C R i) (inbox R ! i @ [?n]) rest ?s"
    by (rule channel_hop(1) [OF ch _ q]) (use r(4) in simp_all)
  then show ?thesis
    unfolding g' by (intro ring_ok_local [OF ok i j mem]) (simp_all add: s)
qed

lemma linked_links: "links g' = links g \<Longrightarrow> linked g' = linked g"
  by (simp add: linked_def links_def)

lemma ring_ok_thread:
  assumes ok: "ring_ok C E0 h R" and i: "i < length (ads C)" and s: "s = nodes R ! i" and step: "life_step e s s'"
    and same: "l_msgs s' = l_msgs s" "l_batches s' = l_batches s" "links (l_now s') = links (l_now s)"
  shows "ring_ok C E0 h (R\<lparr>nodes := (nodes R)[i := s']\<rparr>)"
proof -
  note m = ring_okD(1) [OF ok i, folded s]
  have L: "life_ok (E0 i) [] s" using m by (simp add: member_ok_def)
  note k = thread_kept [OF step same(1,2) L]
  have "life_ok (E0 i) [] s'" by (rule life_ok_step [OF step L])
  moreover have "linked (l_now s')" using m linked_links [OF same(3)] by (simp add: member_ok_def Let_def)
  ultimately have mem: "member_ok C (E0 i) i s'"
    using m k same(2,3) unfolding member_ok_def by (simp add: stamps_ok_def links_def Let_def)
  have ch: "channel C h i (visits R i) (available C R i) (inbox R ! i) (wires R ! pred_of C i) s"
    using ring_okD(2) [OF ok i] by (simp add: channel_ok_def s)
  have "channel C h i (visits R i) (available C R i) (inbox R ! i) (wires R ! pred_of C i) s'"
    by (rule channel_keeps [OF ch same(1)]) (use k in blast)
  from ring_ok_local [OF ok i refl mem _ this]
  show ?thesis using same(2) by (simp add: s)
qed

lemma ring_ok_step:
  assumes step: "ring_step es R R'" and C: "circuit_ok C" and sk: "sockets es (length (ads C))" and ok: "ring_ok C E0 h R"
  obtains h' where "ring_ok C E0 h' R'"
  using step
proof (cases rule: ring_step.cases)
  case (treat i s p q st circuit ws t g' evs)
  have i: "i < length (ads C)" using treat(2) ring_lengths(1) [OF ok] by simp
  obtain h' g2 evs2 where x: "stateMachine (es ! i) p (l_now s) = Inr g2" "trace g2 = trace (l_now s) @ evs2"
    "ring_ok C E0 h' (R\<lparr>nodes := (nodes R)[i := \<lparr>l_now = g2, l_msgs = mset q, l_own = wagon_after (l_now s) t circuit (l_own s),
        l_batches = l_batches s @ [batch (l_now s) t st circuit ws (l_own s)]\<rparr>],
      inbox := (inbox R)[i := q], wires := (wires R)[i := wires R ! i @ written evs2]\<rparr>)"
    by (rule ring_ok_treat [OF C sk ok i treat(3-6)]) (rule that)
  have "g2 = g'" "evs2 = evs" using x(1,2) treat(7,8) by simp_all
  then show thesis using that x(3) treat(1) by simp
next
  case (hop i s j bs rest c cm inb later self a inb' g')
  have i: "i < length (ads C)" using hop(2) ring_lengths(1) [OF ok] by simp
  have j: "j = pred_of C i" using hop(4) ring_lengths(1) [OF ok] by (simp add: pred_of_def)
  show thesis
    by (rule that [of h]) (simp only: hop(1) ring_ok_hop [OF ok i hop(3) j hop(5-11)])
next
  case (thread i s s')
  have i: "i < length (ads C)" using thread(2) ring_lengths(1) [OF ok] by simp
  show thesis
    by (rule that [of h]) (simp only: thread(1) ring_ok_thread [OF ok i thread(3-7)])
qed

lemma ring_ok_run:
  assumes run: "ring_run es R R'" and C: "circuit_ok C" and sk: "sockets es (length (ads C))" and ok: "ring_ok C E0 h R"
  obtains h' where "ring_ok C E0 h' R'"
proof -
  have "\<exists>h'. ring_ok C E0 h' R'"
    using run unfolding ring_run_def
    by (induction rule: rtranclp_induct) (use ok ring_ok_step [OF _ C sk] in blast)+
  then show thesis using that by blast
qed

lemma ring_ok_start:
  assumes C: "circuit_ok C" and st: "ring_start C R"
  shows "ring_ok C (\<lambda>i. app_events (trace (l_now (nodes R ! i)))) (\<lambda>_ _. []) R"
proof -
  let ?n = "length (ads C)" and ?h = "\<lambda>_ _. [] :: awagon list"
  have n: "2 \<le> ?n" and m: "0 < trains C" using C by (simp_all add: circuit_ok_def)
  have len: "length (nodes R) = ?n" "length (inbox R) = ?n" "length (wires R) = ?n" using st by (simp_all add: ring_start_def)
  have nd1: "life_start (nodes R ! i) []" "l_msgs (nodes R ! i) = {#}" if "i < ?n" for i
    using st that by (auto simp: ring_start_def Let_def)
  have nd: "life_start (nodes R ! i) []" "l_msgs (nodes R ! i) = {#}" "l_batches (nodes R ! i) = []" if "i < ?n" for i
    using nd1 [OF that] by (simp_all add: life_start_def)
  have vis: "visits R i = 0" if "i < ?n" for i using nd(3) [OF that] by (simp add: visits_def)
  have "member_ok C (app_events (trace (l_now (nodes R ! i)))) i (nodes R ! i) \<and> channel_ok C ?h R i \<and> history_ok C ?h R i"
    if i: "i < ?n" for i
  proof (intro conjI)
    show "member_ok C (app_events (trace (l_now (nodes R ! i)))) i (nodes R ! i)"
      using st i life_ok_start [OF nd(1) [OF i]] nd(3) [OF i] m
      by (simp add: member_ok_def ring_start_def Let_def of_nat_diff)
    have "carried n m ?h j k = []" for n m j k by (simp add: carried_def)
    then have small: "length (train_at C ?h j k) < 2 ^ 31" for j k
      by (simp add: train_at_def length_enc_train)
    have ib: "inbox R ! i = []" using st i by (simp add: ring_start_def)
    show "channel_ok C ?h R i"
    proof (cases "i = 0")
      case True
      have "pred_of C i = ?n - 1" using True n by (simp add: pred_of_def)
      then have "wires R ! pred_of C i = map (train_at C ?h 0) [0..<trains C]" using st n by (simp add: ring_start_def)
      moreover have "available C R i = trains C" using True vis [of "?n - 1"] n by (simp add: available_def)
      ultimately show ?thesis
        using True nd(2) [OF i] vis [OF i] ib small by (simp add: channel_ok_def channel_def)
    next
      case False
      then have p: "pred_of C i = i - 1" using i next_pred(1) [of "i - 1" C i] by (simp add: next_of_def)
      then have "wires R ! pred_of C i = []" using st i False by (simp add: ring_start_def)
      moreover have "available C R i = 0" using False vis [of "i - 1"] i by (simp add: available_def)
      ultimately show ?thesis
        using nd(2) [OF i] vis [OF i] ib by (simp add: channel_ok_def channel_def)
    qed
    show "history_ok C ?h R i" by (simp add: history_ok_def vis [OF i])
  qed
  then show ?thesis using len by (simp add: ring_ok_def)
qed

text \<open>There are always as many trains in the queues and on the wires as at the start.\<close>

lemma trains_conserved:
  assumes C: "circuit_ok C" and ok: "ring_ok C E0 h R"
  shows "(\<Sum>j<length (ads C). length (inbox R ! j) + length (wires R ! j)) = trains C"
proof -
  obtain k where n: "length (ads C) = Suc k" using C by (cases "length (ads C)") (auto simp: circuit_ok_def)
  have b: "visits R i + length (inbox R ! i) + length (wires R ! pred_of C i) = available C R i" if "i < Suc k" for i
    using ring_okD(2) [OF ok] that n by (simp add: channel_ok_def channel_def)
  have p: "pred_of C 0 = k" "pred_of C (Suc i) = i" if "i < k" for i using that by (simp_all add: pred_of_eq n)
  have p0: "pred_of C 0 = k" by (simp add: pred_of_eq n)
  have "(\<Sum>i<Suc k. visits R i) + ((\<Sum>i<Suc k. length (inbox R ! i)) + (\<Sum>i<Suc k. length (wires R ! pred_of C i))) =
      (\<Sum>i<Suc k. available C R i)"
    using b by (simp add: sum.distrib [symmetric] add.assoc [symmetric] del: sum.lessThan_Suc)
  also have "\<dots> = (\<Sum>i<Suc k. visits R i) + trains C"
    by (subst sum.lessThan_Suc_shift) (simp add: available_def n)
  finally have "(\<Sum>i<Suc k. length (inbox R ! i)) + (\<Sum>i<Suc k. length (wires R ! pred_of C i)) = trains C" by simp
  moreover have "(\<Sum>i<Suc k. length (wires R ! pred_of C i)) = (\<Sum>i<Suc k. length (wires R ! i))"
    by (subst sum.lessThan_Suc_shift) (simp add: p p0)
  ultimately show ?thesis by (simp add: n sum.distrib del: sum.lessThan_Suc)
qed

section \<open>What the members are told\<close>

lemma batches_history:
  assumes "ring_ok C E0 h R" "i < length (ads C)"
  shows "l_batches (nodes R ! i) = map (visit_batch (length (ads C)) (trains C) h i) [0..<visits R i]"
  using ring_okD(3) [OF assms] by (intro nth_equalityI) (simp_all add: history_ok_def visits_def)

lemma member_told:
  assumes ok: "ring_ok C E0 h R" and i: "i < length (ads C)"
  obtains D U cap told where "consistent (l_now (nodes R ! i)) D U (l_msgs (nodes R ! i)) cap (l_own (nodes R ! i))"
    "told @ map snd D = concat (map (visit_batch (length (ads C)) (trains C) h i) [0..<visits R i - 2 * trains C])"
    "app_events (trace (l_now (nodes R ! i))) = E0 i @ concat (map wagon_events told)"
proof -
  let ?s = "nodes R ! i"
  note m = ring_okD(1) [OF ok i]
  have nt: "nat (ntr (l_now ?s)) = trains C" using m by (simp add: member_ok_def Let_def)
  obtain D U cap told where *: "consistent (l_now ?s) D U (l_msgs ?s) cap (l_own ?s)"
    "told @ map snd D = concat (take (length (l_batches ?s)) (through ?s))"
    "app_events (trace (l_now ?s)) = E0 i @ concat (map wagon_events told)"
    using m by (auto simp: member_ok_def life_ok_def)
  have "take (visits R i - 2 * trains C) (l_batches ?s) =
      map (visit_batch (length (ads C)) (trains C) h i) [0..<visits R i - 2 * trains C]"
    unfolding batches_history [OF ok i] by (simp add: take_map)
  then have "told @ map snd D = concat (map (visit_batch (length (ads C)) (trains C) h i) [0..<visits R i - 2 * trains C])"
    using *(2) unfolding through_take nt by (simp add: visits_def)
  with *(1,3) show thesis by (intro that)
qed

end
