(* ===== verification/RingSchedule.thy ===== *)
theory RingSchedule
  imports RingRun
begin

text \<open>
  A circuit does not get stuck: the next train of a process can be read and treated, a
  message of the application added, the wagons that are ready delivered. Runs follow
  schedules, which lead to states that can be computed.
\<close>

text \<open>A quiet circuit: no message between the reading and the treating thread.\<close>

definition conf :: "circuit \<Rightarrow> (nat \<Rightarrow> event list) \<Rightarrow> (nat \<Rightarrow> nat \<Rightarrow> awagon list) \<Rightarrow> (nat \<Rightarrow> nat) \<Rightarrow> (nat \<Rightarrow> awagon) \<Rightarrow> int \<Rightarrow> ring \<Rightarrow> bool" where
  "conf C E0 h vs ow W R \<longleftrightarrow> ring_ok C E0 h R \<and>
     (\<forall>i < length (ads C). inbox R ! i = [] \<and> visits R i = vs i \<and> l_own (nodes R ! i) = ow i \<and> wagonMaxLen (l_now (nodes R ! i)) = W)"

text \<open>All wagons are short.\<close>

definition short :: "circuit \<Rightarrow> (nat \<Rightarrow> nat \<Rightarrow> awagon list) \<Rightarrow> (nat \<Rightarrow> awagon) \<Rightarrow> bool" where
  "short C h ow \<longleftrightarrow> (\<forall>i k. length (enc_wagons (h i k)) \<le> 2 ^ 20) \<and> (\<forall>i < length (ads C). length (enc_wagon (ow i)) \<le> 2 ^ 20)"

definition ready :: "circuit \<Rightarrow> (nat \<Rightarrow> nat) \<Rightarrow> nat \<Rightarrow> bool" where
  "ready C vs i \<longleftrightarrow> i < length (ads C) \<and> vs i < (if i = 0 then vs (length (ads C) - 1) + trains C else vs (i - 1))"

definition visit_h :: "circuit \<Rightarrow> (nat \<Rightarrow> nat) \<Rightarrow> (nat \<Rightarrow> awagon) \<Rightarrow> nat \<Rightarrow> (nat \<Rightarrow> nat \<Rightarrow> awagon list) \<Rightarrow> nat \<Rightarrow> nat \<Rightarrow> awagon list" where
  "visit_h C vs ow i h = h(i := (h i)(vs i := own_of (Suc (vs i div trains C) mod 3) (ow i)))"

definition visit_own :: "circuit \<Rightarrow> nat \<Rightarrow> (nat \<Rightarrow> awagon) \<Rightarrow> nat \<Rightarrow> awagon" where
  "visit_own C i ow = ow(i := if aw_msgs (ow i) = [] then ow i else empty_wagon (ads C ! i))"

lemma enc_concat: "length (enc_wagons (concat (map f xs))) = (\<Sum>x\<leftarrow>xs. length (enc_wagons (f x)))"
  by (induction xs) (simp_all add: enc_wagons_append)

lemma carried_short:
  assumes "\<And>i k. length (enc_wagons (h i k)) \<le> B" "i < n"
  shows "length (enc_wagons (carried n m h i k)) \<le> n * B"
proof -
  have s: "(\<Sum>x\<leftarrow>xs. length (enc_wagons (f x))) \<le> length xs * B" if "\<And>x. length (enc_wagons (f x)) \<le> B" for f and xs :: "nat list"
    using that by (induction xs) (simp_all add: add_mono)
  have "length (enc_wagons (carried n m h i k)) \<le> (n - Suc i) * B + i * B"
    using s [of "\<lambda>j. h j (k - m)" "[Suc i..<n]"] s [of "\<lambda>j. h j k" "[0..<i]"] assms(1)
    by (simp add: carried_def enc_wagons_append enc_concat trans_le_add2)
  also have "\<dots> = (n - 1) * B" using assms(2) by (simp flip: add_mult_distrib)
  also have "\<dots> \<le> n * B" by simp
  finally show ?thesis .
qed

lemma short_visit: "short C h ow \<Longrightarrow> i < length (ads C) \<Longrightarrow> short C (visit_h C vs ow i h) (visit_own C i ow)"
  by (auto simp: short_def visit_h_def visit_own_def own_of_def length_enc_wagon empty_wagon_def)

text \<open>Bytes on a connection that nothing interrupts.\<close>

lemma calm_inbound:
  obtains inb :: inbound where "calm (reads inb)" "stream inb = bs" "length bs \<le> grants (reads inb)"
  by (rule that [of "\<lparr>stream = bs, reads = replicate (length bs) (Done 1, False)\<rparr>"])
    (simp_all add: calm_def grants_def list_all_iff)

lemma read_possible:
  assumes C: "circuit_ok C" and cf: "conf C E0 h vs ow W R" and rd: "ready C vs i"
  obtains R1 a where "ring_step es R R1" "ring_ok C E0 h R1" "inbox R1 = (inbox R)[i := [a]]"
    "\<And>j. j < length (ads C) \<Longrightarrow> visits R1 j = vs j \<and> l_own (nodes R1 ! j) = ow j \<and> wagonMaxLen (l_now (nodes R1 ! j)) = W"
proof -
  let ?n = "length (ads C)" and ?s = "nodes R ! i"
  have ok: "ring_ok C E0 h R" and i: "i < ?n" using cf rd by (simp_all add: conf_def ready_def)
  have at: "inbox R ! j = []" "visits R j = vs j" "l_own (nodes R ! j) = ow j" "wagonMaxLen (l_now (nodes R ! j)) = W" if "j < ?n" for j
    using cf that by (simp_all add: conf_def)
  note len = ring_lengths [OF ok] and m = ring_okD(1) [OF ok i]
  have "available C R i = (if i = 0 then vs (?n - 1) + trains C else vs (i - 1))"
    using i at(2) by (simp add: available_def)
  then have av: "visits R i < available C R i" using rd at(2) [OF i] by (simp add: ready_def)
  have ch: "channel C h i (visits R i) (available C R i) [] (wires R ! pred_of C i) ?s"
    using ring_okD(2) [OF ok i] at(1) [OF i] by (simp add: channel_ok_def)
  then obtain bs rest where w: "wires R ! pred_of C i = bs # rest"
    using av by (cases "wires R ! pred_of C i") (simp_all add: channel_def)
  obtain c cm where c: "comms (l_now ?s) c = Some cm" "\<not> aborted cm"
    using m by (auto simp: member_ok_def Let_def linked_def)
  obtain inb :: inbound where inb: "calm (reads inb)" "stream inb = bs @ []" "length bs \<le> grants (reads inb)"
    by (rule calm_inbound [of bs]) simp
  have b0: "bs = train_at C h i (visits R i)"
  proof -
    have "(bs # rest) ! 0 = train_at C h i (visits R i + length ([] :: nat list) + 0)"
      using ch unfolding w channel_def by blast
    then show ?thesis by simp
  qed
  have bl: "length bs < 2 ^ 31" using ch av unfolding b0 channel_def by blast
  obtain tl' where tl: "bs = to_bytes 4 (c_int (length bs)) @ tl'" "4 < length bs"
    unfolding b0 train_at_def length_enc_train by (auto simp: enc_train_def)
  obtain cm' inb' cnt g' where r: "receive 0 c inb (l_now ?s) = Inr (Some (next_id (mem (l_now ?s))), inb', g')"
    "wagonMaxLen g' = wagonMaxLen (l_now ?s)"
    by (rule receive_ok [OF c inb(1) tl bl inb(2,3), where self = 0]) (simp add: set_comm_def)
  have j: "pred_of C i = (i + length (nodes R) - 1) mod length (nodes R)" by (simp add: pred_of_def len)
  have il: "i < length (nodes R)" using i len by simp
  note st = ring_step.hop [OF il refl j w c inb r(1), of es]
  note ok1 = ring_ok_hop [OF ok i refl refl w c inb r(1)]
  let ?R = "R\<lparr>nodes := (nodes R)[i := ?s\<lparr>l_now := g', l_msgs := add_mset (next_id (mem (l_now ?s))) (l_msgs ?s)\<rparr>],
      inbox := (inbox R)[i := inbox R ! i @ [next_id (mem (l_now ?s))]], wires := (wires R)[pred_of C i := rest]\<rparr>"
  show thesis
  proof (rule that [OF st ok1])
    show "inbox ?R = (inbox R)[i := [next_id (mem (l_now ?s))]]" using at(1) [OF i] by simp
    show "visits ?R j = vs j \<and> l_own (nodes ?R ! j) = ow j \<and> wagonMaxLen (l_now (nodes ?R ! j)) = W" if "j < ?n" for j
      using at [OF that] at [OF i] r(2) il by (cases "j = i") (simp_all add: visits_def)
  qed
qed

lemma visit_possible:
  assumes C: "circuit_ok C" and sk: "sockets es (length (ads C))" and cf: "conf C E0 h vs ow W R" and rd: "ready C vs i"
    and sh: "short C h ow"
  obtains R' where "ring_run es R R'" "conf C E0 (visit_h C vs ow i h) (vs(i := Suc (vs i))) (visit_own C i ow) W R'"
proof -
  let ?n = "length (ads C)"
  have i: "i < ?n" using rd by (simp add: ready_def)
  have ow: "length (enc_wagon (ow i)) \<le> 2 ^ 20" using sh i by (simp add: short_def)
  obtain R1 a where one: "ring_step es R R1" "ring_ok C E0 h R1" "inbox R1 = (inbox R)[i := [a]]"
    "\<And>j. j < ?n \<Longrightarrow> visits R1 j = vs j \<and> l_own (nodes R1 ! j) = ow j \<and> wagonMaxLen (l_now (nodes R1 ! j)) = W"
    by (rule read_possible [OF C cf rd, where es = es]) (rule that)
  note len = ring_lengths [OF one(2)]
  have q: "inbox R1 ! i = [a]" using one(3) i len(2) by simp
  let ?s = "nodes R1 ! i"
  obtain v where v: "womims (mem (l_now ?s)) a = Some v" "bytes v = train_at C h i (visits R1 i)"
    and tr: "train_in (l_now ?s) a (stamp_at C i (visits R1 i)) (members C) (carried ?n (trains C) h i (visits R1 i)) (visits R1 i mod trains C)"
    by (rule head_is_train [OF C one(2) i q]) (rule that)
  have n16: "?n \<le> 16" using C by (simp add: circuit_ok_def)
  have cs: "length (enc_wagons (carried ?n (trains C) h i (visits R1 i))) \<le> ?n * 2 ^ 20"
    by (rule carried_short [OF _ i]) (use sh in \<open>simp add: short_def\<close>)
  also have "\<dots> \<le> 16 * 2 ^ 20" using n16 by (rule mult_le_mono1)
  finally have small: "\<forall>v'. womims (mem (l_now ?s)) a = Some v' \<longrightarrow> length (bytes v') + length (enc_wagon (l_own ?s)) + 144 < 2 ^ 31"
    using v ow one(4) [OF i] by (simp add: train_at_def length_enc_train)
  obtain g' evs where two: "stateMachine (es ! i) a (l_now ?s) = Inr g'" "trace g' = trace (l_now ?s) @ evs"
    "wagonMaxLen g' = wagonMaxLen (l_now ?s)"
    "ring_ok C E0 (h(i := (h i)(visits R1 i := own_of (Suc (visits R1 i div trains C) mod 3) (l_own ?s))))
      (R1\<lparr>nodes := (nodes R1)[i := \<lparr>l_now = g', l_msgs = mset [],
        l_own = wagon_after (l_now ?s) (visits R1 i mod trains C) (members C) (l_own ?s),
        l_batches = l_batches ?s @ [batch (l_now ?s) (visits R1 i mod trains C) (stamp_at C i (visits R1 i)) (members C)
          (carried ?n (trains C) h i (visits R1 i)) (l_own ?s)]\<rparr>],
      inbox := (inbox R1)[i := []], wires := (wires R1)[i := wires R1 ! i @ written evs]\<rparr>)"
    by (rule ring_ok_treat [OF C sk one(2) i refl q tr small]) (rule that)
  have il: "i < length (nodes R1)" using i len by simp
  note st = ring_step.treat [OF il refl q tr small two(1,2)]
  let ?R = "R1\<lparr>nodes := (nodes R1)[i := \<lparr>l_now = g', l_msgs = mset [],
        l_own = wagon_after (l_now ?s) (visits R1 i mod trains C) (members C) (l_own ?s),
        l_batches = l_batches ?s @ [batch (l_now ?s) (visits R1 i mod trains C) (stamp_at C i (visits R1 i)) (members C)
          (carried ?n (trains C) h i (visits R1 i)) (l_own ?s)]\<rparr>],
      inbox := (inbox R1)[i := []], wires := (wires R1)[i := wires R1 ! i @ written evs]\<rparr>"
  have m: "linked (l_now ?s)" "lts_circuit (lts (l_now ?s) ! 0) = members C" "myAddress (l_now ?s) = ads C ! i"
    using ring_okD(1) [OF one(2) i] by (simp_all add: member_ok_def Let_def)
  have nc: "announced (l_now ?s) (visits R1 i mod trains C) (members C) (l_own ?s) = l_own ?s"
    by (rule no_change(2)) (use m in \<open>simp_all add: linked_def\<close>)
  have wa: "wagon_after (l_now ?s) (visits R1 i mod trains C) (members C) (l_own ?s) = visit_own C i ow i"
    unfolding wagon_after_def nc using one(4) [OF i] m(3) by (simp add: visit_own_def)
  have "conf C E0 (visit_h C vs ow i h) (vs(i := Suc (vs i))) (visit_own C i ow) W ?R"
    unfolding conf_def
  proof (intro conjI allI impI)
    show "ring_ok C E0 (visit_h C vs ow i h) ?R"
      using two(4) one(4) [OF i] by (simp add: visit_h_def)
    fix j assume j: "j < ?n"
    have cfj: "inbox R ! j = []" using cf j by (simp add: conf_def)
    show "inbox ?R ! j = []" using one(3) cfj i len(2) j by (cases "j = i") simp_all
    show "visits ?R j = (vs(i := Suc (vs i))) j" using one(4) [OF j] one(4) [OF i] il by (cases "j = i") (simp_all add: visits_def)
    show "l_own (nodes ?R ! j) = visit_own C i ow j"
      using one(4) [OF j] wa il by (cases "j = i") (simp_all add: visit_own_def)
    show "wagonMaxLen (l_now (nodes ?R ! j)) = W" using one(4) [OF j] one(4) [OF i] two(3) il by (cases "j = i") simp_all
  qed
  moreover have "ring_run es R ?R" unfolding ring_run_def
    using one(1) st by (meson converse_rtranclp_into_rtranclp r_into_rtranclp)
  ultimately show thesis using that by blast
qed

section \<open>The other threads\<close>

lemma ring_run_step: "ring_step es R R' \<Longrightarrow> ring_run es R R'"
  unfolding ring_run_def by blast

lemma ring_run_trans: "ring_run es R R' \<Longrightarrow> ring_run es R' R'' \<Longrightarrow> ring_run es R R''"
  unfolding ring_run_def by simp

text \<open>A step of another thread, seen from the circuit.\<close>

lemma thread_possible:
  assumes ok: "ring_ok C E0 h R" and i: "i < length (ads C)" and step: "life_step (es ! i) (nodes R ! i) s'"
    and same: "l_msgs s' = l_msgs (nodes R ! i)" "l_batches s' = l_batches (nodes R ! i)" "links (l_now s') = links (l_now (nodes R ! i))"
      "written (trace (l_now s')) = written (trace (l_now (nodes R ! i)))"
  shows "ring_step es R (R\<lparr>nodes := (nodes R)[i := s']\<rparr>)" "ring_ok C E0 h (R\<lparr>nodes := (nodes R)[i := s']\<rparr>)"
    "visits (R\<lparr>nodes := (nodes R)[i := s']\<rparr>) j = visits R j"
proof -
  have il: "i < length (nodes R)" using i ring_lengths [OF ok] by simp
  show "ring_step es R (R\<lparr>nodes := (nodes R)[i := s']\<rparr>)" by (rule ring_step.thread [OF il refl step same])
  show "ring_ok C E0 h (R\<lparr>nodes := (nodes R)[i := s']\<rparr>)" by (rule ring_ok_thread [OF ok i refl step same(1-3)])
  show "visits (R\<lparr>nodes := (nodes R)[i := s']\<rparr>) j = visits R j"
    using same(2) il by (cases "j = i") (simp_all add: visits_def)
qed

definition alloc_own :: "nat \<Rightarrow> byte list \<Rightarrow> (nat \<Rightarrow> awagon) \<Rightarrow> nat \<Rightarrow> awagon" where
  "alloc_own i pl ow = ow(i := add_msg \<lparr>am_typ = AM_BROADCAST, am_payload = pl\<rparr> (ow i))"

lemma alloc_possible:
  assumes cf: "conf C E0 h vs ow W R" and i: "i < length (ads C)" and fits: "int (length (enc_wagon (ow i)) + 5 + length pl) \<le> W"
  obtains R' where "ring_run es R R'" "conf C E0 h vs (alloc_own i pl ow) W R'"
proof -
  let ?s = "nodes R ! i" and ?m = "\<lparr>am_typ = AM_BROADCAST, am_payload = pl\<rparr>"
  have ok: "ring_ok C E0 h R" and cfi: "\<And>j. j < length (ads C) \<Longrightarrow> inbox R ! j = [] \<and> visits R j = vs j \<and>
      l_own (nodes R ! j) = ow j \<and> wagonMaxLen (l_now (nodes R ! j)) = W"
    using cf by (simp_all add: conf_def)
  note m = ring_okD(1) [OF ok i] and len = ring_lengths [OF ok]
  obtain D U cap where con: "consistent (l_now ?s) D U (l_msgs ?s) cap (l_own ?s)"
    using member_consistent [OF m] by metis
  have L: "0 \<le> wagonMaxLen (l_now ?s)" "wagonMaxLen (l_now ?s) < 2 ^ 31" "automatonState (l_now ?s) = SEVERAL"
    using m by (auto simp: member_ok_def life_ok_def)
  have f: "int (length (enc_wagon (l_own ?s)) + 5 + length pl) \<le> wagonMaxLen (l_now ?s)" using fits cfi [OF i] by simp
  obtain mp g1 g2 where a: "newmsg (int (length pl)) (l_now ?s) = Inr (Some mp, g1)" "write_wts (\<lambda>b. wr b (mp + 5) pl) g1 = Inr g2"
    "trace g2 = trace (l_now ?s)" "wagonMaxLen g2 = wagonMaxLen (l_now ?s)" "automatonState g2 = automatonState (l_now ?s)"
    "links g2 = links (l_now ?s)"
    by (rule alloc_runs [OF con L(1,2) f]) (rule that)
  have u: "utoBroadcast g2 = Inr (0, g2)" using a(5) L(3) by (simp add: utoBroadcast_def)
  let ?s' = "?s\<lparr>l_now := g2, l_own := add_msg ?m (l_own ?s)\<rparr>"
  have step: "life_step (es ! i) ?s ?s'" by (rule life_step.alloc [OF a(1,2) u f])
  have t: "ring_step es R (R\<lparr>nodes := (nodes R)[i := ?s']\<rparr>)" "ring_ok C E0 h (R\<lparr>nodes := (nodes R)[i := ?s']\<rparr>)"
    "\<And>j. visits (R\<lparr>nodes := (nodes R)[i := ?s']\<rparr>) j = visits R j"
    by (rule thread_possible [OF ok i step]; use a in simp)+
  have "conf C E0 h vs (alloc_own i pl ow) W (R\<lparr>nodes := (nodes R)[i := ?s']\<rparr>)"
    unfolding conf_def
  proof (intro conjI allI impI t(2))
    fix j assume j: "j < length (ads C)"
    show "visits (R\<lparr>nodes := (nodes R)[i := ?s']\<rparr>) j = vs j" using t(3) cfi [OF j] by simp
    show "l_own (nodes (R\<lparr>nodes := (nodes R)[i := ?s']\<rparr>) ! j) = alloc_own i pl ow j"
      using cfi [OF j] i len by (cases "j = i") (simp_all add: alloc_own_def)
    show "wagonMaxLen (l_now (nodes (R\<lparr>nodes := (nodes R)[i := ?s']\<rparr>) ! j)) = W"
      using cfi [OF j] a(4) i len by (cases "j = i") simp_all
  qed (use cfi in simp)
  moreover have "ring_run es R (R\<lparr>nodes := (nodes R)[i := ?s']\<rparr>)" by (rule ring_run_step [OF t(1)])
  ultimately show thesis by (rule that [rotated])
qed

lemma written_append: "written (xs @ ys) = written xs @ written ys"
  by (induction xs rule: written.induct) simp_all

lemma written_upcalls: "written (concat (map (upcalls s) ms)) = []"
  by (induction ms) (simp_all add: written_append upcalls_def Let_def)

text \<open>The delivering thread of a process tells all that is ready.\<close>

lemma tell_all:
  assumes "ring_ok C E0 h R" "i < length (ads C)"
    and "consistent (l_now (nodes R ! i)) D U (l_msgs (nodes R ! i)) cap (l_own (nodes R ! i))"
  shows "\<exists>R'. ring_run es R R' \<and> ring_ok C E0 h R' \<and> inbox R' = inbox R \<and>
    (\<forall>j. visits R' j = visits R j \<and> l_own (nodes R' ! j) = l_own (nodes R ! j) \<and>
       wagonMaxLen (l_now (nodes R' ! j)) = wagonMaxLen (l_now (nodes R ! j))) \<and>
    (\<forall>j. j \<noteq> i \<longrightarrow> nodes R' ! j = nodes R ! j) \<and>
    app_events (trace (l_now (nodes R' ! i))) = app_events (trace (l_now (nodes R ! i))) @ concat (map (\<lambda>x. wagon_events (snd x)) D)"
  using assms
proof (induction D arbitrary: R)
  case Nil
  then show ?case by (intro exI [of _ R]) (simp add: ring_run_def)
next
  case (Cons x D')
  obtain wi w where x: "x = (wi, w)" by (cases x)
  let ?s = "nodes R ! i"
  obtain b g' where d: "utoDeliveries_turn False (l_now ?s) = Inr (b, g')" "consistent g' D' U (l_msgs ?s) cap (l_own ?s)"
    "links g' = links (l_now ?s)" "trace g' = trace (l_now ?s) @ concat (map (upcalls (aw_sender w)) (aw_msgs w))"
    "app_events (trace g') = app_events (trace (l_now ?s)) @ wagon_events w" "wagonMaxLen g' = wagonMaxLen (l_now ?s)"
    by (rule deliver_runs [OF Cons.prems(3) [unfolded x]]) (rule that)
  let ?s' = "?s\<lparr>l_now := g'\<rparr>" and ?R = "R\<lparr>nodes := (nodes R)[i := (nodes R ! i)\<lparr>l_now := g'\<rparr>]\<rparr>"
  have step: "life_step (es ! i) ?s ?s'" by (rule life_step.deliver [OF d(1)])
  have t: "ring_step es R ?R" "ring_ok C E0 h ?R" "\<And>j. visits ?R j = visits R j"
    by (rule thread_possible [OF Cons.prems(1,2) step]; use d(3,4) in \<open>simp add: written_append written_upcalls\<close>)+
  have il: "i < length (nodes R)" using Cons.prems(2) ring_lengths [OF Cons.prems(1)] by simp
  have "consistent (l_now (nodes ?R ! i)) D' U (l_msgs (nodes ?R ! i)) cap (l_own (nodes ?R ! i))" using d(2) il by simp
  from Cons.IH [OF t(2) Cons.prems(2) this] obtain R' where R': "ring_run es ?R R'" "ring_ok C E0 h R'" "inbox R' = inbox R"
    "\<And>j. visits R' j = visits R j" "\<And>j. l_own (nodes R' ! j) = l_own (nodes ?R ! j)"
    "\<And>j. wagonMaxLen (l_now (nodes R' ! j)) = wagonMaxLen (l_now (nodes ?R ! j))" "\<And>j. j \<noteq> i \<Longrightarrow> nodes R' ! j = nodes R ! j"
    "app_events (trace (l_now (nodes R' ! i))) = app_events (trace g') @ concat (map (\<lambda>x. wagon_events (snd x)) D')"
    using t(3) il by auto
  have "ring_run es R R'" using t(1) R'(1) unfolding ring_run_def by (rule converse_rtranclp_into_rtranclp)
  moreover have "l_own (nodes R' ! j) = l_own (nodes R ! j)" "wagonMaxLen (l_now (nodes R' ! j)) = wagonMaxLen (l_now (nodes R ! j))" for j
    using R'(5,6) [of j] d(6) il by (cases "j = i"; simp)+
  ultimately show ?case using R'(2-4,7,8) d(5) by (intro exI [of _ R']) (simp add: x)
qed

lemma tell_possible:
  assumes cf: "conf C E0 h vs ow W R" and i: "i < length (ads C)"
  obtains R' where "ring_run es R R'" "conf C E0 h vs ow W R'"
    "app_events (trace (l_now (nodes R' ! i))) =
       E0 i @ concat (map wagon_events (concat (map (visit_batch (length (ads C)) (trains C) h i) [0..<vs i - 2 * trains C])))"
    "\<And>j. j \<noteq> i \<Longrightarrow> nodes R' ! j = nodes R ! j"
proof -
  have ok: "ring_ok C E0 h R" and vi: "visits R i = vs i" using cf i by (simp_all add: conf_def)
  let ?s = "nodes R ! i" and ?L = "concat (map (visit_batch (length (ads C)) (trains C) h i) [0..<vs i - 2 * trains C])"
  obtain D U cap told where *: "consistent (l_now ?s) D U (l_msgs ?s) cap (l_own ?s)" "told @ map snd D = ?L"
    "app_events (trace (l_now ?s)) = E0 i @ concat (map wagon_events told)"
    by (rule member_told [OF ok i, unfolded vi]) (rule that)
  obtain R' where R': "ring_run es R R'" "ring_ok C E0 h R'" "inbox R' = inbox R" "\<And>j. visits R' j = visits R j"
    "\<And>j. l_own (nodes R' ! j) = l_own (nodes R ! j)" "\<And>j. wagonMaxLen (l_now (nodes R' ! j)) = wagonMaxLen (l_now (nodes R ! j))"
    "\<And>j. j \<noteq> i \<Longrightarrow> nodes R' ! j = nodes R ! j"
    "app_events (trace (l_now (nodes R' ! i))) = app_events (trace (l_now ?s)) @ concat (map (\<lambda>x. wagon_events (snd x)) D)"
    using tell_all [OF ok i *(1), of es] by blast
  have "conf C E0 h vs ow W R'" using cf R'(2-6) by (simp add: conf_def)
  moreover have "app_events (trace (l_now (nodes R' ! i))) = E0 i @ concat (map wagon_events ?L)"
    using R'(8) *(3) unfolding *(2) [symmetric] by (simp add: comp_def)
  ultimately show thesis using R'(1,7) that by blast
qed

section \<open>Schedules\<close>

datatype action = Visit nat | Alloc nat "byte list"

type_synonym course = "(nat \<Rightarrow> nat \<Rightarrow> awagon list) \<times> (nat \<Rightarrow> nat) \<times> (nat \<Rightarrow> awagon)"

fun act :: "circuit \<Rightarrow> action \<Rightarrow> course \<Rightarrow> course" where
  "act C (Visit i) (h, vs, ow) = (visit_h C vs ow i h, vs(i := Suc (vs i)), visit_own C i ow)"
| "act C (Alloc i pl) (h, vs, ow) = (h, vs, alloc_own i pl ow)"

fun possible :: "circuit \<Rightarrow> int \<Rightarrow> action \<Rightarrow> course \<Rightarrow> bool" where
  "possible C W (Visit i) (h, vs, ow) \<longleftrightarrow> ready C vs i"
| "possible C W (Alloc i pl) (h, vs, ow) \<longleftrightarrow> i < length (ads C) \<and> int (length (enc_wagon (ow i)) + 5 + length pl) \<le> W"

fun schedule :: "circuit \<Rightarrow> int \<Rightarrow> action list \<Rightarrow> course \<Rightarrow> bool" where
  "schedule C W [] x \<longleftrightarrow> True"
| "schedule C W (a # as) x \<longleftrightarrow> possible C W a x \<and> schedule C W as (act C a x)"

lemma schedule_runs:
  assumes C: "circuit_ok C" and sk: "sockets es (length (ads C))" and W: "W \<le> 2 ^ 20"
  shows "conf C E0 (fst x) (fst (snd x)) (snd (snd x)) W R \<Longrightarrow> short C (fst x) (snd (snd x)) \<Longrightarrow> schedule C W as x \<Longrightarrow>
    fold (act C) as x = (h', vs', ow') \<Longrightarrow> \<exists>R'. ring_run es R R' \<and> conf C E0 h' vs' ow' W R'"
proof (induction as arbitrary: x R)
  case Nil
  then show ?case by (cases x) (auto simp: ring_run_def)
next
  case (Cons a as)
  obtain h vs ow where x: "x = (h, vs, ow)" by (cases x)
  have "\<exists>R1. ring_run es R R1 \<and> conf C E0 (fst (act C a x)) (fst (snd (act C a x))) (snd (snd (act C a x))) W R1 \<and>
      short C (fst (act C a x)) (snd (snd (act C a x)))"
  proof (cases a)
    case (Visit i)
    have r: "ready C vs i" "i < length (ads C)" using Cons.prems(3) by (simp_all add: Visit x ready_def)
    show ?thesis
      by (rule visit_possible [OF C sk Cons.prems(1) _ Cons.prems(2), of i])
        (use r short_visit Cons.prems(2) in \<open>auto simp: Visit x\<close>)
  next
    case (Alloc i pl)
    have r: "i < length (ads C)" "int (length (enc_wagon (ow i)) + 5 + length pl) \<le> W" using Cons.prems(3) by (simp_all add: Alloc x)
    have "length (enc_wagon (add_msg \<lparr>am_typ = AM_BROADCAST, am_payload = pl\<rparr> (ow i))) = length (enc_wagon (ow i)) + 5 + length pl"
      by (simp add: length_enc_wagon enc_msgs_append length_enc_msg)
    then have "length (enc_wagon (add_msg \<lparr>am_typ = AM_BROADCAST, am_payload = pl\<rparr> (ow i))) \<le> 2 ^ 20" using r(2) W by simp
    then have sh: "short C h (alloc_own i pl ow)" using Cons.prems(2) by (simp add: short_def alloc_own_def x)
    show ?thesis
      by (rule alloc_possible [OF Cons.prems(1), of i pl es]) (use r sh in \<open>auto simp: Alloc x\<close>)
  qed
  then obtain R1 where R1: "ring_run es R R1" "conf C E0 (fst (act C a x)) (fst (snd (act C a x))) (snd (snd (act C a x))) W R1"
    "short C (fst (act C a x)) (snd (snd (act C a x)))" by blast
  have "schedule C W as (act C a x)" using Cons.prems(3) by simp
  moreover have "fold (act C) as (act C a x) = (h', vs', ow')" using Cons.prems(4) by simp
  ultimately show ?case using Cons.IH [OF R1(2,3)] ring_run_trans [OF R1(1)] by blast
qed

end
