(* ===== verification/PairSample.thy ===== *)
theory PairSample
  imports RingSchedule Samples
begin

text \<open>
  A concrete circuit of two processes, of the ranks 1 and 2, with any number of trains, for
  the instances of the properties of circuits.
\<close>

definition pair :: "nat \<Rightarrow> circuit" where
  "pair m = \<lparr>ads = [2, 4], trains = m, members = 6, clock = (\<lambda>_. 1)\<rparr>"

definition pair_env :: env where
  "pair_env = sample_env\<lparr>env_writev := (\<lambda>_. [(Done (2 ^ 31), False)])\<rparr>"

definition pair_train :: "nat \<Rightarrow> nat \<Rightarrow> ltsStruct" where
  "pair_train i t = (init_train (int t))\<lparr>lts_circuit := 6,
     lts_stamp := \<lparr>stamp_id = word_of_nat t, stamp_lc = word_of_nat i, stamp_round = 0\<rparr>\<rparr>"

definition pair_own :: "nat \<Rightarrow> awagon" where
  "pair_own i = empty_wagon ([2, 4] ! i)"

definition pair_heap :: "nat \<Rightarrow> heap" where
  "pair_heap i = \<lparr>womims = [0 \<mapsto> \<lparr>counter = 1, bytes = enc_wagon (pair_own i) @ replicate 57 0\<rparr>], next_id = 1\<rparr>"

definition pair_array :: "ADDR list" where
  "pair_array = (initAddrList NP)
     [1 := \<lparr>ip = ''a'', chan = ''1'', tcomm0 = Some 0, tcomm1 = None, isPred0 = False, isPred1 = False\<rparr>,
      2 := \<lparr>ip = ''b'', chan = ''1'', tcomm0 = Some 0, tcomm1 = None, isPred0 = False, isPred1 = False\<rparr>]"

definition pair_globals :: "nat \<Rightarrow> nat \<Rightarrow> globals" where
  "pair_globals m i = sample_globals\<lparr>myAddress := [2, 4] ! i, prec := [4, 2] ! i, succ := [4, 2] ! i, ntr := int m, lis := int m - 1,
     lts := map (pair_train i) [0..<16], mem := pair_heap i, globalAddrArray := pair_array\<rparr>"

definition pair_life :: "nat \<Rightarrow> nat \<Rightarrow> life" where
  "pair_life m i = \<lparr>l_now = pair_globals m i, l_msgs = {#}, l_own = pair_own i, l_batches = []\<rparr>"

definition pair_ring :: "nat \<Rightarrow> ring" where
  "pair_ring m = \<lparr>nodes = map (pair_life m) [0..<2], inbox = [[], []],
     wires = [[], map (train_at (pair m) (\<lambda>_ _. []) 0) [0..<m]]\<rparr>"

lemma pair_ok: "1 \<le> m \<Longrightarrow> m \<le> 16 \<Longrightarrow> circuit_ok (pair m)"
  by (simp add: circuit_ok_def pair_def addrIsMember_def)

lemma pair_sockets: "sockets [pair_env, pair_env] (length (ads (pair m)))"
  by (auto simp: sockets_def pair_env_def pair_def less_Suc_eq)

lemma pair_globals_simps [simp]:
  "myAddress (pair_globals m i) = [2, 4] ! i" "succ (pair_globals m i) = [4, 2] ! i" "ntr (pair_globals m i) = int m"
  "lis (pair_globals m i) = int m - 1" "lts (pair_globals m i) = map (pair_train i) [0..<16]" "mem (pair_globals m i) = pair_heap i"
  "globalAddrArray (pair_globals m i) = pair_array" "automatonState (pair_globals m i) = SEVERAL" "wagonMaxLen (pair_globals m i) = 64"
  "cameProc (pair_globals m i) = 0" "goneProc (pair_globals m i) = 0" "comms (pair_globals m i) = comms sample_globals"
  "unstableWagons (pair_globals m i) = unstableWagons sample_globals" "wagonsToDeliver (pair_globals m i) = Some newBqueue"
  "wagonToSend (pair_globals m i) = Some (wagon_in 0 0)" "trace (pair_globals m i) = []"
  by (simp_all add: pair_globals_def sample_globals_def globals0_def)

lemma pair_cases: "i < 2 \<Longrightarrow> i = 0 \<or> i = (1::nat)"
  by auto

lemma pair_linked:
  assumes "i < 2"
  shows "linked (pair_globals m i)"
proof -
  have r: "addrToRank 2 = 1" "addrToRank 4 = 2"
    using addrToRank_rankToAddr [of 1] addrToRank_rankToAddr [of 2] by (simp_all add: rankToAddr_def)
  have t: "getTComm 1 False pair_array = Inr (Some 0)" "getTComm 2 False pair_array = Inr (Some 0)"
    by (simp_all add: pair_array_def getTComm_def nthE_def initAddrList_def NP_def)
  have c: "comms sample_globals 0 = Some \<lparr>fd = 3, ownerMutexForSynch = None, aborted = False\<rparr>" by (simp add: sample_globals_def)
  from pair_cases [OF assms] show ?thesis
  proof
    assume "i = 0"
    then show ?thesis using r(2) t(2) c by (simp add: linked_def)
  next
    assume "i = 1"
    then show ?thesis using r(1) t(1) c by (simp add: linked_def)
  qed
qed

lemma pair_sender: "aw_sender (pair_own i) = [2, 4] ! i" "aw_msgs (pair_own i) = []"
  by (simp_all add: pair_own_def empty_wagon_def)

lemma pair_consistent:
  assumes "1 \<le> m" "m \<le> 16"
  shows "consistent (pair_globals m i) [] no_held {#} 64 (pair_own i)"
proof -
  have u: "\<forall>l \<in> set (lts (pair_globals m i)). unused l"
    using unused_init_train by (auto simp: pair_train_def unused_def)
  have len: "length (enc_wagon (pair_own i)) = 7" by (simp add: pair_own_def empty_wagon_def length_enc_wagon)
  have "counts (pair_heap i) {#0#}" by (auto simp: counts_def pair_heap_def)
  then have "building (pair_globals m i) {#} 64 (pair_own i)"
    by (intro buildingI [of _ 0 "\<lparr>counter = 1, bytes = enc_wagon (pair_own i) @ replicate 57 0\<rparr>"])
      (simp_all add: wagon_in_def pair_heap_def len holds_append_buf holds_whole)
  moreover have "all_refs (pair_globals m i) [] no_held = {#}"
    using lts_refs_unused [OF u] by (simp add: all_refs_def)
  moreover have "tables (pair_globals m i) no_held"
    using sample_tables assms lrep_newList
    by (auto simp: tables_def sample_globals_def no_held_def fresh_row_def less_Suc_eq numeral_3_eq_3)
  ultimately show ?thesis
    using u brep_newBqueue unused_ok unfolding consistent_def by (simp add: no_held_def)
qed

lemma replicate_two: "replicate 2 x = [x, x]"
  by (simp add: numeral_2_eq_2)

lemma pair_start:
  assumes "1 \<le> m" "m \<le> 16"
  shows "ring_start (pair m) (pair_ring m)"
proof -
  have tr: "trains_named (pair_globals m i)" "rounds_ok (pair_globals m i)" for i
    using assms by (simp_all add: trains_named_def rounds_ok_def pair_train_def init_train_def small_word)
  have st: "stamps_ok (pair m) i 0 (pair_globals m i)" for i
    using assms by (simp add: stamps_ok_def pair_train_def pair_def)
  have ls: "life_start (pair_life m i) []" for i
    using pair_consistent [OF assms] tr pair_sender
    by (auto simp: life_start_def pair_life_def)
  have c: "lts_circuit (lts (pair_globals m i) ! 0) = 6" for i by (simp add: pair_train_def)
  have n: "nodes (pair_ring m) ! i = pair_life m i" if "i < 2" for i using that by (simp add: pair_ring_def)
  have l: "l_now (pair_life m i) = pair_globals m i" "l_msgs (pair_life m i) = {#}" "l_own (pair_life m i) = pair_own i" for i
    by (simp_all add: pair_life_def)
  have p: "ads (pair m) = [2, 4]" "trains (pair m) = m" "members (pair m) = 6" "length (ads (pair m)) = 2" by (simp_all add: pair_def)
  have "[4, 2] ! i = [2, 4 :: address] ! (Suc i mod 2)" if "i < 2" for i using pair_cases [OF that] by auto
  moreover have "inbox (pair_ring m) = [[], []]" "length (nodes (pair_ring m)) = 2"
    "wires (pair_ring m) = [[], map (train_at (pair m) (\<lambda>_ _. []) 0) [0..<m]]"
    by (simp_all add: pair_ring_def)
  ultimately show ?thesis
    using ls st pair_linked c unfolding ring_start_def p(4) unfolding p(1-3) by (simp add: n l Let_def pair_sender replicate_two)
qed

lemma pair_conf:
  assumes "1 \<le> m" "m \<le> 16"
  shows "conf (pair m) (\<lambda>_. []) (\<lambda>_ _. []) (\<lambda>_. 0) pair_own 64 (pair_ring m)" "short (pair m) (\<lambda>_ _. []) pair_own"
proof -
  have "app_events (trace (l_now (nodes (pair_ring m) ! i))) = []" if "i < 2" for i
    using that by (simp add: pair_ring_def pair_life_def)
  then have "ring_ok (pair m) (\<lambda>_. []) (\<lambda>_ _. []) (pair_ring m)"
    using ring_ok_start [OF pair_ok [OF assms] pair_start [OF assms]]
    by (simp add: ring_ok_def pair_def)
  then show "conf (pair m) (\<lambda>_. []) (\<lambda>_ _. []) (\<lambda>_. 0) pair_own 64 (pair_ring m)"
    by (auto simp: conf_def visits_def pair_ring_def pair_life_def pair_def less_Suc_eq numeral_2_eq_2)
  show "short (pair m) (\<lambda>_ _. []) pair_own"
    by (simp add: short_def pair_own_def empty_wagon_def length_enc_wagon)
qed

lemma pair_fresh: "i < 2 \<Longrightarrow> app_events (trace (l_now (nodes (pair_ring m) ! i))) = []"
  by (simp add: pair_ring_def pair_life_def)

text \<open>A schedule leads to a state in which both processes have told their applications what is
  ready.\<close>

definition pair_origin :: course where
  "pair_origin = ((\<lambda>_ _. []), (\<lambda>_. 0), pair_own)"

lemma pair_runs:
  assumes "1 \<le> m" "m \<le> 16" "schedule (pair m) 64 as pair_origin" "fold (act (pair m)) as pair_origin = (h, vs, ow)"
  obtains R where "ring_run [pair_env, pair_env] (pair_ring m) R" "conf (pair m) (\<lambda>_. []) h vs ow 64 R"
    "\<And>i. i < 2 \<Longrightarrow> app_events (trace (l_now (nodes R ! i))) = concat (map wagon_events (concat (map (visit_batch 2 m h i) [0..<vs i - 2 * m])))"
proof -
  let ?es = "[pair_env, pair_env]"
  have n: "length (ads (pair m)) = 2" "trains (pair m) = m" by (simp_all add: pair_def)
  obtain R1 where R1: "ring_run ?es (pair_ring m) R1" "conf (pair m) (\<lambda>_. []) h vs ow 64 R1"
    using schedule_runs [OF pair_ok [OF assms(1,2)] pair_sockets, of 64 "\<lambda>_. []" pair_origin "pair_ring m" as h vs ow]
      pair_conf [OF assms(1,2)] assms(3,4) by (auto simp: pair_origin_def)
  obtain R2 where R2: "ring_run ?es R1 R2" "conf (pair m) (\<lambda>_. []) h vs ow 64 R2"
    "app_events (trace (l_now (nodes R2 ! 0))) = concat (map wagon_events (concat (map (visit_batch 2 m h 0) [0..<vs 0 - 2 * m])))"
    by (rule tell_possible [OF R1(2), of 0 ?es]) (simp_all add: n)
  obtain R3 where R3: "ring_run ?es R2 R3" "conf (pair m) (\<lambda>_. []) h vs ow 64 R3"
    "app_events (trace (l_now (nodes R3 ! 1))) = concat (map wagon_events (concat (map (visit_batch 2 m h 1) [0..<vs 1 - 2 * m])))"
    "nodes R3 ! 0 = nodes R2 ! 0"
    by (rule tell_possible [OF R2(2), of 1 ?es]) (simp_all add: n)
  have "app_events (trace (l_now (nodes R3 ! i))) = concat (map wagon_events (concat (map (visit_batch 2 m h i) [0..<vs i - 2 * m])))" if "i < 2" for i
    using R2(3) R3(3,4) pair_cases [OF that] by auto
  then show thesis using that ring_run_trans [OF ring_run_trans [OF R1(1) R2(1)] R3(1)] R3(2) by blast
qed

text \<open>What a process then has told.\<close>

definition pair_told :: "nat \<Rightarrow> action list \<Rightarrow> nat \<Rightarrow> awagon list" where
  "pair_told m as i = (case fold (act (pair m)) as pair_origin of (h, vs, ow) \<Rightarrow> concat (map (visit_batch 2 m h i) [0..<vs i - 2 * m]))"

lemma pair_tells:
  assumes "1 \<le> m" "m \<le> 16" "schedule (pair m) 64 as pair_origin"
  obtains R where "ring_run [pair_env, pair_env] (pair_ring m) R"
    "app_events (trace (l_now (nodes R ! 0))) = concat (map wagon_events (pair_told m as 0))"
    "app_events (trace (l_now (nodes R ! 1))) = concat (map wagon_events (pair_told m as 1))"
proof -
  obtain h vs ow where f: "fold (act (pair m)) as pair_origin = (h, vs, ow)" by (metis prod_cases3)
  show thesis
    by (rule pair_runs [OF assms f]) (rule that, auto simp: pair_told_def f)
qed

text \<open>Two courses: with one train, a message of each process; with two trains, each process
  puts its message in the train that comes to it, the first process in the second train, the
  second process in the first one.\<close>

definition one_lap :: "action list" where
  "one_lap = [Alloc 0 [7], Alloc 1 [8], Visit 0, Visit 1, Visit 0, Visit 1, Visit 0, Visit 1, Visit 0, Visit 1]"

definition crossed :: "action list" where
  "crossed = [Visit 0, Alloc 0 [7], Alloc 1 [8], Visit 0, Visit 1, Visit 1, Visit 0, Visit 0, Visit 1, Visit 1,
     Visit 0, Visit 0, Visit 1, Visit 1, Visit 0, Visit 0]"

lemma one_lap_possible: "schedule (pair 1) 64 one_lap pair_origin"
  by code_simp

lemma crossed_possible: "schedule (pair 2) 64 crossed pair_origin"
  by code_simp

lemma one_lap_told:
  "concat (map wagon_events (pair_told 1 one_lap 0)) = [UtoDeliver 2 [6, 0, 0, 0, 0, 7], UtoDeliver 4 [6, 0, 0, 0, 0, 8]]"
  "concat (map wagon_events (pair_told 1 one_lap 1)) = [UtoDeliver 2 [6, 0, 0, 0, 0, 7], UtoDeliver 4 [6, 0, 0, 0, 0, 8]]"
  by code_simp+

lemma crossed_told:
  "concat (map wagon_events (pair_told 2 crossed 0)) = [UtoDeliver 2 [6, 0, 0, 0, 0, 7], UtoDeliver 4 [6, 0, 0, 0, 0, 8]]"
  "concat (map wagon_events (pair_told 2 crossed 1)) = [UtoDeliver 4 [6, 0, 0, 0, 0, 8], UtoDeliver 2 [6, 0, 0, 0, 0, 7]]"
  by code_simp+

end
