(* ===== verification/RingProperties.thy ===== *)
theory RingProperties
  imports PairSample
begin

text \<open>
  What a circuit of processes promises while nobody joins or leaves: every train is treated,
  none is lost or doubled, and with one train all processes tell their applications the same
  wagons in the same order.
\<close>

lemma concat_upto_prefix: "a \<le> b \<Longrightarrow> prefix (concat (map f [0..<a])) (concat (map f [0..<b]))"
proof -
  assume "a \<le> b"
  then have "[0..<b] = [0..<a] @ [a..<b]" by (metis le0 le_Suc_ex upt_add_eq_append)
  then show ?thesis by simp
qed

text \<open>C2: with one train all members of a circuit that nobody joins or leaves tell their
  applications wagons of one sequence, each from its beginning, so that of any two members one
  has told a beginning of what the other has; and what one member has told every member has
  received: the order is total, and uniform.\<close>

theorem total_order:
  assumes "circuit_ok C" "trains C = 1" "sockets es (length (ads C))" "ring_start C R" "ring_run es R R'"
  shows "\<exists>order. \<forall>i < length (ads C). \<exists>told.
    app_events (trace (l_now (nodes R' ! i))) = app_events (trace (l_now (nodes R ! i))) @ concat (map wagon_events told) \<and>
    prefix told order \<and> (\<forall>j < length (ads C). prefix told (concat (l_batches (nodes R' ! j))))"
proof -
  let ?n = "length (ads C)"
  obtain h where ok: "ring_ok C (\<lambda>i. app_events (trace (l_now (nodes R ! i)))) h R'"
    by (rule ring_ok_run [OF assms(5,1,3) ring_ok_start [OF assms(1,4)]])
  define K where "K = visits R' 0"
  have "\<exists>told. app_events (trace (l_now (nodes R' ! i))) = app_events (trace (l_now (nodes R ! i))) @ concat (map wagon_events told) \<and>
    prefix told (lap_order ?n h K) \<and> (\<forall>j < ?n. prefix told (concat (l_batches (nodes R' ! j))))" if i: "i < ?n" for i
  proof -
    obtain told and D :: held where t: "told @ map snd D = concat (map (visit_batch ?n (trains C) h i) [0..<visits R' i - 2 * trains C])"
      "app_events (trace (l_now (nodes R' ! i))) = app_events (trace (l_now (nodes R ! i))) @ concat (map wagon_events told)"
      by (rule member_told [OF ok i])
    let ?N = "visits R' i - 2"
    have "prefix told (concat (map (visit_batch ?n 1 h i) [0..<?N]))" using t(1) assms(2) by (metis mult.right_neutral prefixI)
    also have "prefix \<dots> (lap_order ?n h ?N)" by (rule one_train_prefixes(1) [OF i])
    finally have p: "prefix told (lap_order ?n h ?N)" .
    have "?N \<le> K" using visits_mono [OF ok, of 0 i] i by (simp add: K_def)
    then have "prefix told (lap_order ?n h K)" using p lap_order_prefix [of ?N K] prefix_order.trans by blast
    moreover have "prefix told (concat (l_batches (nodes R' ! j)))" if j: "j < ?n" for j
    proof -
      have b: "concat (l_batches (nodes R' ! j)) = concat (map (visit_batch ?n 1 h j) [0..<visits R' j])"
        using batches_history [OF ok j] assms(2) by simp
      have near: "visits R' i \<le> visits R' j + 1"
        using visits_available [OF ok i] available_lap [OF ok j i] assms(2) by simp
      show ?thesis
      proof (cases "?N = 0")
        case True
        then show ?thesis using p by (simp add: lap_order_def)
      next
        case False
        then have le: "Suc ?N \<le> visits R' j" using near by simp
        note p
        also have "prefix (lap_order ?n h ?N) (concat (map (visit_batch ?n 1 h j) [0..<Suc ?N]))" by (rule one_train_prefixes(2) [OF j])
        also have "prefix \<dots> (concat (map (visit_batch ?n 1 h j) [0..<visits R' j]))" by (rule concat_upto_prefix [OF le])
        finally show ?thesis unfolding b .
      qed
    qed
    ultimately show ?thesis using t(2) by blast
  qed
  then show ?thesis by blast
qed

theorem total_order_witness:
  "\<exists>R order told. ring_run [pair_env, pair_env] (pair_ring 1) R \<and> concat (map wagon_events told) \<noteq> [] \<and>
     app_events (trace (l_now (nodes R ! 0))) = concat (map wagon_events told) \<and> prefix told order \<and>
     prefix told (concat (l_batches (nodes R ! 1)))"
proof -
  have c: "circuit_ok (pair 1)" "ring_start (pair 1) (pair_ring 1)" "trains (pair 1) = 1" "length (ads (pair 1)) = 2"
    using pair_ok [of 1] pair_start [of 1] by (simp_all add: pair_def)
  obtain R where R: "ring_run [pair_env, pair_env] (pair_ring 1) R"
    "app_events (trace (l_now (nodes R ! 0))) = concat (map wagon_events (pair_told 1 one_lap 0))"
    by (rule pair_tells [OF _ _ one_lap_possible]) simp_all
  obtain order where "\<forall>i < 2. \<exists>told. app_events (trace (l_now (nodes R ! i))) =
       app_events (trace (l_now (nodes (pair_ring 1) ! i))) @ concat (map wagon_events told) \<and> prefix told order \<and>
       (\<forall>j < 2. prefix told (concat (l_batches (nodes R ! j))))"
    using total_order [OF c(1,3) pair_sockets c(2) R(1)] unfolding c(4) by blast
  from spec [OF this, of 0] obtain told where told: "app_events (trace (l_now (nodes R ! 0))) = concat (map wagon_events told)"
    "prefix told order" "prefix told (concat (l_batches (nodes R ! 1)))"
    by (auto simp: pair_fresh)
  then have "concat (map wagon_events told) \<noteq> []" using R(2) one_lap_told(1) by simp
  then show ?thesis using R(1) told by blast
qed

text \<open>C5: with any number of trains each member is told, batch after batch, what the trains
  carried when they came to it and what it put in them itself, the trains taking turns, up to
  the last two rounds.\<close>

theorem member_order:
  assumes "circuit_ok C" "sockets es (length (ads C))" "ring_start C R" "ring_run es R R'"
  shows "\<exists>h. \<forall>i < length (ads C).
    l_batches (nodes R' ! i) = map (visit_batch (length (ads C)) (trains C) h i) [0..<visits R' i] \<and>
    (\<forall>k < visits R' i. \<forall>w \<in> set (h i k). aw_sender w = ads C ! i) \<and>
    (\<exists>told wis wgs. to_deliver (l_now (nodes R' ! i)) wis wgs \<and>
       told @ wgs = concat (map (visit_batch (length (ads C)) (trains C) h i) [0..<visits R' i - 2 * trains C]) \<and>
       app_events (trace (l_now (nodes R' ! i))) = app_events (trace (l_now (nodes R ! i))) @ concat (map wagon_events told))"
proof -
  obtain h where ok: "ring_ok C (\<lambda>i. app_events (trace (l_now (nodes R ! i)))) h R'"
    by (rule ring_ok_run [OF assms(4,1,2) ring_ok_start [OF assms(1,3)]])
  have "\<forall>k < visits R' i. \<forall>w \<in> set (h i k). aw_sender w = ads C ! i" if "i < length (ads C)" for i
    using ring_okD(3) [OF ok that] by (simp add: history_ok_def)
  moreover have "\<exists>told wis wgs. to_deliver (l_now (nodes R' ! i)) wis wgs \<and>
       told @ wgs = concat (map (visit_batch (length (ads C)) (trains C) h i) [0..<visits R' i - 2 * trains C]) \<and>
       app_events (trace (l_now (nodes R' ! i))) = app_events (trace (l_now (nodes R ! i))) @ concat (map wagon_events told)"
    if "i < length (ads C)" for i
    by (rule member_told [OF ok that]) (use consistent_to_deliver in blast)
  ultimately show ?thesis using batches_history [OF ok] by blast
qed

theorem member_order_witness:
  "\<exists>R h told wis wgs. ring_run [pair_env, pair_env] (pair_ring 2) R \<and> to_deliver (l_now (nodes R ! 1)) wis wgs \<and>
     told @ wgs = concat (map (visit_batch 2 2 h 1) [0..<visits R 1 - 4]) \<and>
     concat (map wagon_events told) = [UtoDeliver 4 [6, 0, 0, 0, 0, 8], UtoDeliver 2 [6, 0, 0, 0, 0, 7]]"
proof -
  have c: "circuit_ok (pair 2)" "ring_start (pair 2) (pair_ring 2)" "trains (pair 2) = 2" "length (ads (pair 2)) = 2"
    using pair_ok [of 2] pair_start [of 2] by (simp_all add: pair_def)
  obtain R where R: "ring_run [pair_env, pair_env] (pair_ring 2) R"
    "app_events (trace (l_now (nodes R ! 1))) = concat (map wagon_events (pair_told 2 crossed 1))"
    by (rule pair_tells [OF _ _ crossed_possible]) simp_all
  obtain h where "\<forall>i < 2. \<exists>told wis wgs. to_deliver (l_now (nodes R ! i)) wis wgs \<and>
       told @ wgs = concat (map (visit_batch 2 2 h i) [0..<visits R i - 2 * 2]) \<and>
       app_events (trace (l_now (nodes R ! i))) = app_events (trace (l_now (nodes (pair_ring 2) ! i))) @ concat (map wagon_events told)"
    using member_order [OF c(1) pair_sockets c(2) R(1)] unfolding c(3,4) by blast
  from spec [OF this, of 1] obtain told wis wgs where told: "to_deliver (l_now (nodes R ! 1)) wis wgs"
    "told @ wgs = concat (map (visit_batch 2 2 h 1) [0..<visits R 1 - 4])"
    "app_events (trace (l_now (nodes R ! 1))) = concat (map wagon_events told)"
    by (auto simp: pair_fresh)
  then show ?thesis using R crossed_told(2) by metis
qed

text \<open>C4: in every run of such a circuit there are always as many trains under way as at the start,
  and the message at the head of the queue of a member is the train it expects next: treating
  it succeeds, and sends one train on to the successor.\<close>

theorem trains_go_on:
  assumes "circuit_ok C" "sockets es (length (ads C))" "ring_start C R" "ring_run es R R'"
    and "i < length (ads C)" "inbox R' ! i = p # q"
    and "\<forall>v. womims (mem (l_now (nodes R' ! i))) p = Some v \<longrightarrow>
      length (bytes v) + length (enc_wagon (l_own (nodes R' ! i))) + 144 < 2 ^ 31"
  shows "(\<Sum>j<length (ads C). length (inbox R' ! j) + length (wires R' ! j)) = trains C \<and>
    (\<exists>g' c bs R''. stateMachine (es ! i) p (l_now (nodes R' ! i)) = Inr g' \<and>
      trace g' = trace (l_now (nodes R' ! i)) @ [Wrote c bs] \<and> ring_step es R' R'' \<and> l_now (nodes R'' ! i) = g' \<and>
      inbox R'' = (inbox R')[i := q] \<and> wires R'' = (wires R')[i := wires R' ! i @ [bs]])"
proof -
  obtain h where ok: "ring_ok C (\<lambda>i. app_events (trace (l_now (nodes R ! i)))) h R'"
    by (rule ring_ok_run [OF assms(4,1,2) ring_ok_start [OF assms(1,3)]])
  have i: "i < length (nodes R')" using assms(5) ring_lengths [OF ok] by simp
  obtain v where tr: "train_in (l_now (nodes R' ! i)) p (stamp_at C i (visits R' i)) (members C)
       (carried (length (ads C)) (trains C) h i (visits R' i)) (visits R' i mod trains C)"
    by (rule head_is_train [OF assms(1) ok assms(5,6)])
  obtain g' evs c bs where g': "stateMachine (es ! i) p (l_now (nodes R' ! i)) = Inr g'"
    "trace g' = trace (l_now (nodes R' ! i)) @ evs" "evs = [Wrote c bs]"
    by (rule ring_ok_treat [OF assms(1,2) ok assms(5) refl assms(6) tr assms(7)])
  from ring_step.treat [OF i refl assms(6) tr assms(7) g'(1,2)] show ?thesis
    using trains_conserved [OF assms(1) ok] g' i
    by (intro conjI exI [of _ g'] exI [of _ c] exI [of _ bs]) (assumption | rule exI conjI | simp)+
qed

theorem trains_go_on_witness:
  "\<exists>R g c bs R'. ring_run [pair_env, pair_env] (pair_ring 1) R \<and> ring_step [pair_env, pair_env] R R' \<and>
     inbox R' = [[], []] \<and> trace g = trace (l_now (nodes R ! 0)) @ [Wrote c bs] \<and> l_now (nodes R' ! 0) = g"
proof -
  have c: "circuit_ok (pair 1)" "ring_start (pair 1) (pair_ring 1)" "trains (pair 1) = 1" "length (ads (pair 1)) = 2" "members (pair 1) = 6"
    using pair_ok [of 1] pair_start [of 1] by (simp_all add: pair_def)
  have r: "ready (pair 1) (\<lambda>_. 0) 0" by (simp add: ready_def pair_def)
  obtain R a where R: "ring_step [pair_env, pair_env] (pair_ring 1) R" "ring_ok (pair 1) (\<lambda>_. []) (\<lambda>_ _. []) R"
    "inbox R = (inbox (pair_ring 1))[0 := [a]]" "\<And>j. j < 2 \<Longrightarrow> visits R j = 0 \<and> l_own (nodes R ! j) = pair_own j"
    using read_possible [OF c(1) pair_conf(1) r, where es = "[pair_env, pair_env]"] unfolding c(4) by (metis le_refl one_le_numeral)
  have inb: "inbox R ! 0 = a # []" "inbox R = [[a], []]" using R(3) by (simp_all add: pair_ring_def)
  have "\<exists>v. womims (mem (l_now (nodes R ! 0))) a = Some v \<and> bytes v = train_at (pair 1) (\<lambda>_ _. []) 0 0"
    using ring_okD(2) [OF R(2), of 0, unfolded c(4)] R(4) [of 0] inb by (auto simp: channel_ok_def channel_def)
  then have small: "\<forall>v. womims (mem (l_now (nodes R ! 0))) a = Some v \<longrightarrow>
      length (bytes v) + length (enc_wagon (l_own (nodes R ! 0))) + 144 < 2 ^ 31"
    using R(4) [of 0] by (auto simp: train_at_def length_enc_train carried_def pair_def pair_own_def empty_wagon_def length_enc_wagon)
  have run: "ring_run [pair_env, pair_env] (pair_ring 1) R" using R(1) by (simp add: ring_run_def r_into_rtranclp)
  obtain g c' bs R' where "trace g = trace (l_now (nodes R ! 0)) @ [Wrote c' bs]" "ring_step [pair_env, pair_env] R R'"
    "l_now (nodes R' ! 0) = g" "inbox R' = (inbox R)[0 := []]"
    using trains_go_on [OF c(1) pair_sockets c(2) run _ inb(1) small] unfolding c(4) by (metis zero_less_numeral)
  moreover have "(inbox R)[0 := []] = [[], []]" using inb(2) by simp
  ultimately show ?thesis using run by metis
qed

text \<open>C6: with two trains the order is not total: a wagon is filed under the round its train has
  when it comes, which is one more for the processes behind its sender in the circuit than for
  those it reaches on the same lap, so that two members can tell the same two messages in
  opposite orders. (\<open>header.round\<close> of the wagon, which says the round it belongs to, is written and
  never read.)\<close>

theorem two_trains_disagree:
  "\<exists>C es R R'. circuit_ok C \<and> trains C = 2 \<and> sockets es (length (ads C)) \<and> ring_start C R \<and> ring_run es R R' \<and>
     app_events (trace (l_now (nodes R' ! 0))) = [UtoDeliver 2 [6, 0, 0, 0, 0, 7], UtoDeliver 4 [6, 0, 0, 0, 0, 8]] \<and>
     app_events (trace (l_now (nodes R' ! 1))) = [UtoDeliver 4 [6, 0, 0, 0, 0, 8], UtoDeliver 2 [6, 0, 0, 0, 0, 7]]"
proof -
  obtain R where R: "ring_run [pair_env, pair_env] (pair_ring 2) R"
    "app_events (trace (l_now (nodes R ! 0))) = concat (map wagon_events (pair_told 2 crossed 0))"
    "app_events (trace (l_now (nodes R ! 1))) = concat (map wagon_events (pair_told 2 crossed 1))"
    by (rule pair_tells [OF _ _ crossed_possible]) simp_all
  have "trains (pair 2) = 2" by (simp add: pair_def)
  then show ?thesis
    using R pair_ok [of 2] pair_start [of 2] pair_sockets [of 2] unfolding crossed_told by fastforce
qed

end
