(* ===== verification/Bench.thy ===== *)
theory Bench
  imports Wire Bqueue Complex_Main
begin

text \<open>
  What the two benchmark programs, \<^verbatim>\<open>protocol_tcp/main.c\<close> and \<^verbatim>\<open>protocol_udp/mainUDP.c\<close>,
  have in common: their global variables, the cells their pointers designate, the vectors
  of messages that wait for an acknowledgement or for the other processes. The vectors come
  from \<^verbatim>\<open>vector.h\<close>, which the repository does not have: their operations are a parameter,
  and \<open>vector_laws\<close> is what the programs rely on.
\<close>

section \<open>Vectors\<close>

text \<open>Elements are pointers; \<open>None\<close> is NULL.\<close>

record 'v vector_ops =
  createVector :: "int \<Rightarrow> 'v"
  addElt :: "nat option \<Rightarrow> 'v \<Rightarrow> int \<times> 'v"
  removeFirst :: "'v \<Rightarrow> nat option \<times> 'v"
  elementAt :: "int \<Rightarrow> 'v \<Rightarrow> nat option"
  numberOfElt :: "'v \<Rightarrow> int"

definition vector_laws :: "'v vector_ops \<Rightarrow> ('v \<Rightarrow> nat list) \<Rightarrow> bool" where
  "vector_laws V content \<longleftrightarrow>
     (\<forall>n. content (createVector V n) = []) \<and>
     (\<forall>e v. fst (addElt V (Some e) v) = 1 \<longrightarrow> content (snd (addElt V (Some e) v)) = content v @ [e]) \<and>
     (\<forall>v e es. content v = e # es \<longrightarrow> fst (removeFirst V v) = Some e \<and> content (snd (removeFirst V v)) = es) \<and>
     (\<forall>v i. i < length (content v) \<longrightarrow> elementAt V (int i) v = Some (content v ! i)) \<and>
     (\<forall>v. numberOfElt V v = int (length (content v)))"

text \<open>Lists are such vectors, with all the room they need. What they answer when an empty one is
  asked for an element is arbitrary: no property depends on it.\<close>

definition list_vectors :: "nat list vector_ops" where
  "list_vectors = \<lparr>createVector = (\<lambda>_. []), addElt = (\<lambda>e v. case e of None \<Rightarrow> (1, v) | Some a \<Rightarrow> (1, v @ [a])),
     removeFirst = (\<lambda>v. case v of [] \<Rightarrow> (None, []) | a # v' \<Rightarrow> (Some a, v')),
     elementAt = (\<lambda>i v. if 0 \<le> i \<and> i < int (length v) then Some (v ! nat i) else None), numberOfElt = (\<lambda>v. int (length v))\<rparr>"

lemma list_vectors_laws: "vector_laws list_vectors (\<lambda>v. v)"
  by (auto simp: vector_laws_def list_vectors_def)

lemma list_vectors_room: "\<forall>e v. fst (addElt list_vectors e v) = 1"
  by (simp add: list_vectors_def split: option.split)

section \<open>State\<close>

text \<open>The cells that are allocated: received and built messages, and \<^verbatim>\<open>msg_info\<close>s.\<close>

datatype obj = Buffer "byte list" | MsgInfo (info_message: "nat option") (info_bits: "32 word")

text \<open>\<^verbatim>\<open>delivered_latency\<close>, a floating-point sum, is the list of its summands, each the time now
  and the time in the message.\<close>

record bench_counters =
  messages_delivered :: "64 word"
  messages_bytes_delivered :: "64 word"
  messages_delivered_mesure :: "64 word"
  messages_bytes_delivered_mesure :: "64 word"
  delivered_latency :: "(64 word \<times> 64 word) list"

text \<open>The global variables both programs have. \<open>outgoing\<close> is what has been sent; \<open>answers\<close> says
  what the next calls of send return, those after the last one send everything; \<open>reported\<close>
  lists process and sequence number of the messages delivered, as the traces show them.\<close>

record 'v bench =
  self_id :: "16 word"
  num_nodes :: "32 word"
  conf_bits :: "32 word"
  seq_num :: "32 word"
  ack_num :: "32 word"
  vector_no_ack :: "'v option list"
  vector_ack :: 'v
  highestDelivered :: "32 word"
  deliveryQueue :: "nat trBqueue"
  my_sem :: nat
  mesurement_started :: bool
  bcounters :: bench_counters
  objs :: "nat \<Rightarrow> obj option"
  next_obj :: nat
  outgoing :: "byte list list"
  answers :: "int list"
  reported :: "(16 word \<times> 32 word) list"

definition bench_counters0 :: bench_counters where
  "bench_counters0 = \<lparr>messages_delivered = 0, messages_bytes_delivered = 0, messages_delivered_mesure = 0,
     messages_bytes_delivered_mesure = 0, delivered_latency = []\<rparr>"

definition MAX_NODES :: nat where "MAX_NODES = 5"

section \<open>Cells\<close>

definition alloc_obj :: "obj \<Rightarrow> ('v, 'z) bench_scheme \<Rightarrow> nat \<times> ('v, 'z) bench_scheme" where
  "alloc_obj x s = (next_obj s, s\<lparr>objs := (objs s)(next_obj s \<mapsto> x), next_obj := Suc (next_obj s)\<rparr>)"

definition get_buffer :: "nat option \<Rightarrow> ('v, 'z) bench_scheme \<Rightarrow> byte list result" where
  "get_buffer p s =
     (case p of None \<Rightarrow> Inl MemFault
      | Some a \<Rightarrow> (case objs s a of Some (Buffer b) \<Rightarrow> Inr b | _ \<Rightarrow> Inl MemFault))"

definition get_info :: "nat option \<Rightarrow> ('v, 'z) bench_scheme \<Rightarrow> (nat option \<times> 32 word) result" where
  "get_info p s =
     (case p of None \<Rightarrow> Inl MemFault
      | Some a \<Rightarrow> (case objs s a of Some (MsgInfo m b) \<Rightarrow> Inr (m, b) | _ \<Rightarrow> Inl MemFault))"

definition free_obj :: "nat option \<Rightarrow> ('v, 'z) bench_scheme \<Rightarrow> ('v, 'z) bench_scheme result" where
  "free_obj p s =
     (case p of None \<Rightarrow> Inr s
      | Some a \<Rightarrow> (case objs s a of None \<Rightarrow> Inl MemFault | Some x \<Rightarrow> Inr (s\<lparr>objs := (objs s)(a := None)\<rparr>)))"

text \<open>\<^verbatim>\<open>1 << k\<close> on an \<^verbatim>\<open>int\<close>: a shift by a negative number or by the width is undefined.\<close>

definition shl1 :: "int \<Rightarrow> 32 word result" where
  "shl1 k = (if 0 \<le> k \<and> k < 32 then Inr (push_bit (nat k) 1) else Inl MemFault)"

definition assertE :: "bool \<Rightarrow> unit result" where
  "assertE b = (if b then Inr () else Inl (ExitFailure ''Assertion failed''))"

text \<open>A call of send whose result the program compares with what it asked for.\<close>

definition send_all :: "byte list \<Rightarrow> ('v, 'z) bench_scheme \<Rightarrow> ('v, 'z) bench_scheme result" where
  "send_all bs s =
     (let status = (case answers s of [] \<Rightarrow> int (length bs) | a # as \<Rightarrow> a)
      in bindE (assertE (status = int (length bs))) (\<lambda>_.
           Inr (s\<lparr>outgoing := outgoing s @ [bs], answers := tl (answers s)\<rparr>)))"

section \<open>The vectors of messages\<close>

definition get_vector :: "16 word \<Rightarrow> ('v, 'z) bench_scheme \<Rightarrow> 'v result" where
  "get_vector pid s =
     bindE (nthE (vector_no_ack s) (sint pid)) (\<lambda>o'. case o' of None \<Rightarrow> Inl MemFault | Some v \<Rightarrow> Inr v)"

definition save_msg_in_vector_ack :: "'v vector_ops \<Rightarrow> nat option \<Rightarrow> ('v, 'z) bench_scheme \<Rightarrow> ('v, 'z) bench_scheme result" where
  "save_msg_in_vector_ack V p s =
     (let (i, s1) = alloc_obj (MsgInfo p (conf_bits s)) s;
          (status, v) = addElt V (Some i) (vector_ack s1)
      in bindE (assertE (status = 1)) (\<lambda>_. Inr (s1\<lparr>vector_ack := v\<rparr>)))"

definition move_first :: "'v vector_ops \<Rightarrow> 16 word \<Rightarrow> ('v, 'z) bench_scheme \<Rightarrow> ('v, 'z) bench_scheme result" where
  "move_first V pid s =
     bindE (get_vector pid s) (\<lambda>w.
     let (m, w') = removeFirst V w;
         s0 = s\<lparr>vector_no_ack := (vector_no_ack s)[nat (sint pid) := Some w']\<rparr>;
         (i, s1) = alloc_obj (MsgInfo m (conf_bits s)) s0;
         (status, v) = addElt V (Some i) (vector_ack s1)
     in bindE (assertE (status = 1)) (\<lambda>_. Inr (s1\<lparr>vector_ack := v\<rparr>)))"

definition add_no_ack :: "'v vector_ops \<Rightarrow> 16 word \<Rightarrow> nat option \<Rightarrow> ('v, 'z) bench_scheme \<Rightarrow> ('v, 'z) bench_scheme result" where
  "add_no_ack V pid p s =
     bindE (get_vector pid s) (\<lambda>w.
     let (status, w') = addElt V p w
     in bindE (assertE (status = 1)) (\<lambda>_. Inr (s\<lparr>vector_no_ack := (vector_no_ack s)[nat (sint pid) := Some w']\<rparr>)))"

text \<open>The two loops of \<^verbatim>\<open>update_vector\<close>. The first clears the bit of the sender of a message in the
  entries it knows; it does not change the vector, so it visits the indices below its
  length.\<close>

definition clear_bit :: "'v vector_ops \<Rightarrow> (int \<Rightarrow> bool) \<Rightarrow> 16 word \<Rightarrow> int \<Rightarrow> ('v, 'z) bench_scheme \<Rightarrow> ('v, 'z) bench_scheme result" where
  "clear_bit V known pid i s =
     (if known i
      then bindE (get_info (elementAt V i (vector_ack s)) s) (\<lambda>(m, bits).
           bindE (shl1 (sint pid)) (\<lambda>k.
             Inr (s\<lparr>objs := (objs s)(the (elementAt V i (vector_ack s)) \<mapsto> MsgInfo m (bits AND NOT k))\<rparr>)))
      else Inr s)"

definition clear_bits :: "'v vector_ops \<Rightarrow> (int \<Rightarrow> bool) \<Rightarrow> 16 word \<Rightarrow> ('v, 'z) bench_scheme \<Rightarrow> ('v, 'z) bench_scheme result" where
  "clear_bits V known pid s =
     foldE (clear_bit V known pid) (map int [0..<nat (numberOfElt V (vector_ack s))]) s"

text \<open>The second takes the entries without bits off the front; the number of elements bounds its
  turns.\<close>

fun deliver_ready :: "nat \<Rightarrow> 'v vector_ops \<Rightarrow> ('v, 'z) bench_scheme \<Rightarrow> ('v, 'z) bench_scheme result" where
  "deliver_ready 0 V s =
     (if 0 < numberOfElt V (vector_ack s)
      then bindE (get_info (elementAt V 0 (vector_ack s)) s) (\<lambda>(m, bits). if bits \<noteq> 0 then Inr s else Inl Diverges)
      else Inr s)"
| "deliver_ready (Suc n) V s =
     (if 0 < numberOfElt V (vector_ack s)
      then bindE (get_info (elementAt V 0 (vector_ack s)) s) (\<lambda>(m, bits).
        if bits \<noteq> 0 then Inr s
        else let (e, v) = removeFirst V (vector_ack s)
             in bindE (bqueueEnqueue (deliveryQueue s) e) (\<lambda>q.
                  deliver_ready n V (s\<lparr>vector_ack := v, deliveryQueue := q, highestDelivered := highestDelivered s + 1\<rparr>)))
      else Inr s)"

section \<open>Time\<close>

record timeval =
  tv_sec :: int
  tv_usec :: int

text \<open>Milliseconds, with the arithmetic of rational numbers.\<close>

definition measure_time_difference :: "timeval \<Rightarrow> timeval \<Rightarrow> rat" where
  "measure_time_difference now past =
     (let sec = tv_sec now - tv_sec past;
          usec = (if tv_usec now > tv_usec past then tv_usec now - tv_usec past else tv_usec past - tv_usec now)
      in of_int (1000 * sec) + of_int usec / 1000)"

definition get_mili_seconds :: "timeval \<Rightarrow> rat" where
  "get_mili_seconds mtv = of_int (1000 * tv_sec mtv) + of_int (tv_usec mtv) / 1000"

text \<open>Megabits per second; the number of bytes is an \<^verbatim>\<open>int\<close>, also when it comes from a \<^verbatim>\<open>long\<close>.\<close>

definition calculate_throughput :: "32 word \<Rightarrow> rat \<Rightarrow> rat" where
  "calculate_throughput bytes' elapsed_time = of_int (sint bytes') / (1000 * 1000) / elapsed_time * 1000 * 8"

end
