(* ===== verification/BenchInvariant.thy ===== *)
theory BenchInvariant
  imports Bench "HOL-Library.Multiset"
begin

text \<open>
  A process of the ring benchmark is well-formed when its vectors and its queue hold each
  message and each \<^verbatim>\<open>msg_info\<close> once, all allocated, and its messages are messages. The
  operations keep it so; the only errors they meet end the program in an orderly way, and they
  meet none when the vectors take all they are given and send sends all it is given (\<open>fine\<close>).
\<close>

section \<open>Outcomes\<close>

definition okE :: "bool \<Rightarrow> 'a result \<Rightarrow> ('a \<Rightarrow> bool) \<Rightarrow> bool" where
  "okE fine r P \<longleftrightarrow> (case r of Inr x \<Rightarrow> P x | Inl e \<Rightarrow> \<not> fine \<and> (\<exists>m. e = ExitFailure m))"

lemma okE_Inr [simp]: "okE fine (Inr x) P \<longleftrightarrow> P x"
  by (simp add: okE_def)

lemma okE_bind: "okE fine r P \<Longrightarrow> (\<And>x. P x \<Longrightarrow> okE fine (f x) Q) \<Longrightarrow> okE fine (bindE r f) Q"
  by (cases r) (auto simp: okE_def)

lemma okE_mono: "okE fine r P \<Longrightarrow> (\<And>x. P x \<Longrightarrow> Q x) \<Longrightarrow> okE fine r Q"
  by (cases r) (auto simp: okE_def)

lemma okE_assert: "(fine \<Longrightarrow> b) \<Longrightarrow> (b \<Longrightarrow> okE fine r P) \<Longrightarrow> okE fine (bindE (assertE b) (\<lambda>_. r)) P"
  by (auto simp: assertE_def okE_def)

text \<open>The sender and the number of a message, as the deliveries report them; the process
  numbers are below MAX_NODES.\<close>

definition atag :: "16 word \<times> 32 word \<Rightarrow> nat \<times> 32 word" where
  "atag t = (unat (fst t), snd t)"

lemma unat_id: "i < 5 \<Longrightarrow> unat (of_nat i :: 16 word) = i"
  by (simp add: unsigned_of_nat take_bit_nat_eq_self)

lemma sint_id: "i < 5 \<Longrightarrow> sint (of_nat i :: 16 word) = int i"
  by (simp add: signed_of_nat signed_take_bit_int_eq_self)

lemma id_inject: "i < 5 \<Longrightarrow> j < 5 \<Longrightarrow> (of_nat i :: 16 word) = of_nat j \<longleftrightarrow> i = j"
  using unat_id by metis

section \<open>Well-formed processes\<close>

text \<open>The format of the messages of a program: which buffers are messages, and the sender and the
  number of a message.\<close>

type_synonym fmt = "(byte list \<Rightarrow> bool) \<times> (byte list \<Rightarrow> nat \<times> 32 word)"


definition waiting :: "('v \<Rightarrow> nat list) \<Rightarrow> ('v, 'z) bench_scheme \<Rightarrow> nat \<Rightarrow> nat list" where
  "waiting ct s i = (case vector_no_ack s ! i of None \<Rightarrow> [] | Some v \<Rightarrow> ct v)"

definition infos :: "('v \<Rightarrow> nat list) \<Rightarrow> ('v, 'z) bench_scheme \<Rightarrow> nat list \<Rightarrow> nat list" where
  "infos ct s qs = qs @ ct (vector_ack s)"

definition msg_ptr :: "(nat \<Rightarrow> obj option) \<Rightarrow> nat \<Rightarrow> nat" where
  "msg_ptr m p = (case m p of Some (MsgInfo (Some a) b) \<Rightarrow> a | _ \<Rightarrow> 0)"

definition btag :: "fmt \<Rightarrow> (nat \<Rightarrow> obj option) \<Rightarrow> nat \<Rightarrow> nat \<times> 32 word" where
  "btag F m a = (case m a of Some (Buffer b) \<Rightarrow> snd F b | _ \<Rightarrow> (0, 0))"

definition used :: "nat \<Rightarrow> ('v \<Rightarrow> nat list) \<Rightarrow> ('v, 'z) bench_scheme \<Rightarrow> nat list \<Rightarrow> nat list" where
  "used n ct s qs = concat (map (waiting ct s) [0..<n]) @ infos ct s qs @ map (msg_ptr (objs s)) (infos ct s qs)"

definition is_info :: "fmt \<Rightarrow> (nat \<Rightarrow> obj option) \<Rightarrow> nat \<Rightarrow> bool" where
  "is_info F m p \<longleftrightarrow> (\<exists>a b bs. m p = Some (MsgInfo (Some a) b) \<and> m a = Some (Buffer bs) \<and> fst F bs)"

definition is_msg :: "fmt \<Rightarrow> (nat \<Rightarrow> obj option) \<Rightarrow> nat \<Rightarrow> bool" where
  "is_msg F m p \<longleftrightarrow> (\<exists>bs. m p = Some (Buffer bs) \<and> fst F bs)"

definition well :: "bool \<Rightarrow> nat \<Rightarrow> fmt \<Rightarrow> ('v \<Rightarrow> nat list) \<Rightarrow> ('v, 'z) bench_scheme \<Rightarrow> nat list \<Rightarrow> bool" where
  "well fine n F ct s qs \<longleftrightarrow> 2 \<le> n \<and> n \<le> 5 \<and> num_nodes s = of_nat n \<and> length (vector_no_ack s) = 5 \<and>
     (\<forall>i<n. vector_no_ack s ! i \<noteq> None) \<and> brep (deliveryQueue s) qs 0 \<and>
     (\<forall>p \<in> set (infos ct s qs). is_info F (objs s) p) \<and> (\<forall>i<n. \<forall>p \<in> set (waiting ct s i). is_msg F (objs s) p) \<and>
     distinct (used n ct s qs) \<and> (\<forall>p. next_obj s \<le> p \<longrightarrow> objs s p = None) \<and> (fine \<longrightarrow> answers s = [])"

text \<open>What the process shows of the order: the messages it has delivered or will, and those it
  holds back.\<close>

definition ord :: "fmt \<Rightarrow> ('v \<Rightarrow> nat list) \<Rightarrow> ('v, 'z) bench_scheme \<Rightarrow> nat list \<Rightarrow> (nat \<times> 32 word) list" where
  "ord F ct s qs = map atag (reported s) @ map (\<lambda>p. btag F (objs s) (msg_ptr (objs s) p)) (infos ct s qs)"

definition hb :: "nat \<Rightarrow> fmt \<Rightarrow> ('v \<Rightarrow> nat list) \<Rightarrow> ('v, 'z) bench_scheme \<Rightarrow> nat \<Rightarrow> (nat \<times> 32 word) list" where
  "hb n F ct s i = (if i < n then map (btag F (objs s)) (waiting ct s i) else [])"

text \<open>Cells that differ at most in the bits of a \<^verbatim>\<open>msg_info\<close>.\<close>

fun blank :: "obj \<Rightarrow> obj" where
  "blank (Buffer b) = Buffer b"
| "blank (MsgInfo m b) = MsgInfo m 0"

definition like :: "(nat \<Rightarrow> obj option) \<Rightarrow> (nat \<Rightarrow> obj option) \<Rightarrow> nat \<Rightarrow> bool" where
  "like m m' p \<longleftrightarrow> map_option blank (m p) = map_option blank (m' p)"

lemma blank_eq: "blank x = Buffer b \<longleftrightarrow> x = Buffer b" "blank x = MsgInfo m c \<longleftrightarrow> c = 0 \<and> (\<exists>d. x = MsgInfo m d)"
  by (cases x; auto)+

lemma like_refl [simp]: "like m m p"
  by (simp add: like_def)

lemma like_Buffer: "like m m' p \<Longrightarrow> m p = Some (Buffer b) \<longleftrightarrow> m' p = Some (Buffer b)"
  unfolding like_def by (cases "m p"; cases "m' p") (auto, (metis blank.simps(1) blank_eq(1))+)

lemma like_MsgInfo: "like m m' p \<Longrightarrow> (\<exists>b. m p = Some (MsgInfo a b)) \<longleftrightarrow> (\<exists>b. m' p = Some (MsgInfo a b))"
  unfolding like_def by (cases "m p"; cases "m' p") (auto, (metis blank.simps(2) blank_eq(2))+)

lemma like_views:
  assumes "like m m' p"
  shows "msg_ptr m p = msg_ptr m' p" "btag F m p = btag F m' p" "is_msg F m p = is_msg F m' p"
proof -
  show "msg_ptr m p = msg_ptr m' p" "btag F m p = btag F m' p"
    using assms unfolding like_def msg_ptr_def btag_def
    by (cases "m p"; cases "m' p"; (auto split: obj.splits)?; (metis blank.simps blank_eq obj.distinct obj.inject option.inject)?)+
  show "is_msg F m p = is_msg F m' p" using like_Buffer [OF assms] by (simp add: is_msg_def)
qed

lemma wellD:
  assumes "well fine n F ct s qs"
  shows "2 \<le> n" "n \<le> 5" "num_nodes s = of_nat n" "length (vector_no_ack s) = 5"
    "\<And>i. i < n \<Longrightarrow> \<exists>v. vector_no_ack s ! i = Some v \<and> waiting ct s i = ct v"
    "brep (deliveryQueue s) qs 0" "\<And>p. p \<in> set (infos ct s qs) \<Longrightarrow> is_info F (objs s) p"
    "\<And>i p. i < n \<Longrightarrow> p \<in> set (waiting ct s i) \<Longrightarrow> is_msg F (objs s) p"
    "distinct (used n ct s qs)" "\<And>p. next_obj s \<le> p \<Longrightarrow> objs s p = None" "fine \<Longrightarrow> answers s = []"
  using assms by (auto simp: well_def waiting_def)

lemma in_used:
  assumes "well fine n F ct s qs" "p \<in> set (used n ct s qs)"
  shows "objs s p \<noteq> None" "p < next_obj s"
proof -
  show "objs s p \<noteq> None"
    using assms(2) wellD(7,8) [OF assms(1)]
    by (fastforce simp: used_def is_info_def is_msg_def msg_ptr_def)
  then show "p < next_obj s" using wellD(10) [OF assms(1), of p] by (meson not_le)
qed

lemma used_infos:
  assumes "p \<in> set (infos ct s qs)"
  shows "p \<in> set (used n ct s qs)" "msg_ptr (objs s) p \<in> set (used n ct s qs)"
  using assms by (simp_all add: used_def)

lemma used_waiting: "i < n \<Longrightarrow> p \<in> set (waiting ct s i) \<Longrightarrow> p \<in> set (used n ct s qs)"
  by (auto simp: used_def)

text \<open>What does not touch the cells in use, or only their bits, changes nothing.\<close>

lemma well_frame:
  assumes w: "well fine n F ct s qs"
    and f: "num_nodes s' = num_nodes s" "length (vector_no_ack s') = 5" "brep (deliveryQueue s') qs' 0"
      "\<And>i. i < n \<Longrightarrow> vector_no_ack s' ! i \<noteq> None \<and> waiting ct s' i = waiting ct s i" "infos ct s' qs' = infos ct s qs"
    and l: "\<And>p. p \<in> set (used n ct s qs) \<Longrightarrow> like (objs s) (objs s') p"
    and r: "\<And>p. next_obj s' \<le> p \<Longrightarrow> objs s' p = None" "fine \<Longrightarrow> answers s' = []"
  shows "well fine n F ct s' qs'" "used n ct s' qs' = used n ct s qs" "hb n F ct s' = hb n F ct s"
    "reported s' = reported s \<Longrightarrow> ord F ct s' qs' = ord F ct s qs"
proof -
  have m: "msg_ptr (objs s') p = msg_ptr (objs s) p" "btag F (objs s') (msg_ptr (objs s) p) = btag F (objs s) (msg_ptr (objs s) p)"
    "is_info F (objs s') p" if p: "p \<in> set (infos ct s qs)" for p
  proof -
    note l1 = l [OF used_infos(1) [OF p]] and l2 = l [OF used_infos(2) [OF p]]
    show "msg_ptr (objs s') p = msg_ptr (objs s) p" using like_views(1) [OF l1] by simp
    show "btag F (objs s') (msg_ptr (objs s) p) = btag F (objs s) (msg_ptr (objs s) p)" using like_views(2) [OF l2] by simp
    obtain a b bs where "objs s p = Some (MsgInfo (Some a) b)" "objs s a = Some (Buffer bs)" "fst F bs"
      using wellD(7) [OF w p] by (auto simp: is_info_def)
    moreover have "msg_ptr (objs s) p = a" using calculation(1) by (simp add: msg_ptr_def)
    ultimately have "\<exists>b'. objs s' p = Some (MsgInfo (Some a) b')" "objs s' a = Some (Buffer bs)" "fst F bs"
      using like_MsgInfo [OF l1, of "Some a"] like_Buffer [OF l2, of bs] by auto
    then show "is_info F (objs s') p" by (auto simp: is_info_def)
  qed
  have u: "map (waiting ct s') [0..<n] = map (waiting ct s) [0..<n]" using f(4) by simp
  show U: "used n ct s' qs' = used n ct s qs" unfolding used_def u f(5) using m(1) by simp
  have b: "btag F (objs s') p = btag F (objs s) p" "is_msg F (objs s') p" if "i < n" "p \<in> set (waiting ct s i)" for i p
    using like_views(2,3) [OF l [OF used_waiting [OF that]]] wellD(8) [OF w that] by simp_all
  show "hb n F ct s' = hb n F ct s" using f(4) b(1) by (auto simp: hb_def fun_eq_iff)
  show "ord F ct s' qs' = ord F ct s qs" if "reported s' = reported s"
    using that m by (simp add: ord_def f(5))
  show "well fine n F ct s' qs'"
    unfolding well_def U f(5) using wellD(1-4,9) [OF w] f r m(3) b(2) by auto
qed

definition alike :: "(nat \<Rightarrow> obj option) \<Rightarrow> (nat \<Rightarrow> obj option) \<Rightarrow> bool" where
  "alike m m' \<longleftrightarrow> (\<forall>p. like m m' p)"

lemma alike_refl [simp]: "alike m m"
  by (simp add: alike_def)

lemma alike_trans: "alike m m1 \<Longrightarrow> alike m1 m2 \<Longrightarrow> alike m m2"
  by (simp add: alike_def like_def)

lemma alikeD: "alike m m' \<Longrightarrow> like m m' p"
  by (simp add: alike_def)

text \<open>The cells in use, when a list of waiting messages changes.\<close>

lemma mset_concat_upd:
  assumes "i < n"
  shows "mset (concat (map (f(i := x)) [0..<n])) + mset (f i) = mset (concat (map f [0..<n])) + mset x"
proof -
  have "[0..<n] = [0..<i] @ i # [Suc i..<n]" using assms by (metis le0 upt_add_eq_append upt_conv_Cons le_Suc_ex less_imp_le)
  then show ?thesis by simp
qed

lemma waiting_upd:
  assumes "length (vector_no_ack s) = 5" "i < 5" "vector_no_ack s' = (vector_no_ack s)[i := Some v]"
  shows "waiting ct s' = (waiting ct s)(i := ct v)"
  using assms by (auto simp: waiting_def nth_list_update fun_eq_iff)

lemma alloc_objE:
  assumes "\<And>p. next_obj s \<le> p \<Longrightarrow> objs s p = None"
  obtains s1 where "alloc_obj x s = (next_obj s, s1)" "objs s1 = (objs s)(next_obj s \<mapsto> x)"
    "s1 = s\<lparr>objs := objs s1, next_obj := Suc (next_obj s)\<rparr>" "\<And>p. next_obj s1 \<le> p \<Longrightarrow> objs s1 p = None"
  using assms by (auto simp: alloc_obj_def)

text \<open>A message becomes the last of those of its sender that are held back.\<close>

lemma add_no_ack_ok:
  assumes V: "vector_laws V ct" and w: "well fine n F ct s qs" and roomy: "fine \<Longrightarrow> \<forall>e v. fst (addElt V e v) = 1"
    and p: "p \<notin> set (used n ct s qs)" "is_msg F (objs s) p" and i: "i < n"
  shows "okE fine (add_no_ack V (of_nat i) (Some p) s) (\<lambda>s'. (\<exists>vs. s' = s\<lparr>vector_no_ack := vs\<rparr>) \<and> well fine n F ct s' qs \<and>
     hb n F ct s' = (hb n F ct s)(i := hb n F ct s i @ [btag F (objs s) p]) \<and> ord F ct s' qs = ord F ct s qs)"
proof -
  note W = wellD [OF w]
  have i5: "i < 5" using i W(2) by simp
  obtain v where v: "vector_no_ack s ! i = Some v" "waiting ct s i = ct v" using W(5) [OF i] by blast
  have g: "get_vector (of_nat i) s = Inr v" using i5 v W(4) by (simp add: get_vector_def sint_id)
  obtain st v' where a: "addElt V (Some p) v = (st, v')" by (cases "addElt V (Some p) v")
  have "well fine n F ct s' qs \<and> hb n F ct s' = (hb n F ct s)(i := hb n F ct s i @ [btag F (objs s) p]) \<and> ord F ct s' qs = ord F ct s qs"
    if st: "st = 1" and s': "s' = s\<lparr>vector_no_ack := (vector_no_ack s)[i := Some v']\<rparr>" for s'
  proof -
    have c: "ct v' = ct v @ [p]" using V a st unfolding vector_laws_def by (metis fst_conv snd_conv)
    have wt: "waiting ct s' = (waiting ct s)(i := waiting ct s i @ [p])"
      using waiting_upd [OF W(4) i5, of s' v' ct] c v(2) by (simp add: s')
    have inf: "infos ct s' qs = infos ct s qs" by (simp add: infos_def s')
    have o': "objs s' = objs s" by (simp add: s')
    have "mset (concat (map (waiting ct s') [0..<n])) + mset (waiting ct s i) = mset (concat (map (waiting ct s) [0..<n])) + mset (waiting ct s i @ [p])"
      unfolding wt by (rule mset_concat_upd [OF i])
    then have "mset (concat (map (waiting ct s') [0..<n])) = add_mset p (mset (concat (map (waiting ct s) [0..<n])))" by simp
    then have "mset (used n ct s' qs) = mset (p # used n ct s qs)" by (simp add: used_def inf o')
    then have "distinct (used n ct s' qs)" using W(9) p(1) by (metis distinct.simps(2) mset_eq_imp_distinct_iff)
    moreover have "vector_no_ack s' ! j \<noteq> None" if "j < n" for j using W(5) [OF that] W(4) i5 by (cases "j = i") (auto simp: s')
    moreover have "\<forall>q \<in> set (waiting ct s' j). is_msg F (objs s') q" if "j < n" for j
      using W(8) [OF that] p(2) by (auto simp: wt o' split: if_splits)
    ultimately have "well fine n F ct s' qs"
      unfolding well_def inf o' using W(1-4,6,7,10,11) by (simp add: s')
    moreover have "hb n F ct s' = (hb n F ct s)(i := hb n F ct s i @ [btag F (objs s) p])" by (auto simp: hb_def wt o' i)
    moreover have "ord F ct s' qs = ord F ct s qs" by (simp add: ord_def inf o') (simp add: s')
    ultimately show ?thesis by blast
  qed
  moreover have "fine \<Longrightarrow> st = 1" using roomy a by (metis fst_conv)
  ultimately show ?thesis
    unfolding add_no_ack_def g using a i5 by (auto simp: sint_id intro!: okE_assert)
qed

text \<open>A new entry of \<^verbatim>\<open>vector_ack\<close>, for a message that was not in use.\<close>

lemma new_info:
  assumes w: "well fine n F ct s qs" and p: "p \<notin> set (used n ct s qs)" "is_msg F (objs s) p"
    and s': "objs s' = (objs s)(next_obj s \<mapsto> MsgInfo (Some p) b)" "next_obj s' = Suc (next_obj s)"
      "vector_no_ack s' = vector_no_ack s" "deliveryQueue s' = deliveryQueue s" "num_nodes s' = num_nodes s"
      "answers s' = answers s" "ct (vector_ack s') = ct (vector_ack s) @ [next_obj s]" "reported s' = reported s"
  shows "well fine n F ct s' qs" "ord F ct s' qs = ord F ct s qs @ [btag F (objs s) p]" "hb n F ct s' = hb n F ct s"
proof -
  note W = wellD [OF w]
  let ?a = "next_obj s"
  have fresh: "?a \<notin> set (used n ct s qs)" using in_used [OF w] by blast
  have pa: "p \<noteq> ?a" using p(2) W(10) [of ?a] by (auto simp: is_msg_def)
  have keep: "objs s' q = objs s q" if "q \<in> set (used n ct s qs) \<or> q = p" for q using that fresh pa s'(1) by auto
  have wt: "waiting ct s' = waiting ct s" by (simp add: waiting_def fun_eq_iff s'(3))
  have inf: "infos ct s' qs = infos ct s qs @ [?a]" by (simp add: infos_def s'(7))
  have mp: "msg_ptr (objs s') q = msg_ptr (objs s) q" if "q \<in> set (infos ct s qs)" for q
    using keep used_infos(1) [OF that] by (simp add: msg_ptr_def)
  have mb: "btag F (objs s') (msg_ptr (objs s) q) = btag F (objs s) (msg_ptr (objs s) q)" if "q \<in> set (infos ct s qs)" for q
    using keep [of "msg_ptr (objs s) q"] used_infos(2) [OF that] by (simp add: btag_def)
  have ma: "msg_ptr (objs s') ?a = p" "btag F (objs s') p = btag F (objs s) p" using keep [of p] by (simp_all add: msg_ptr_def s'(1) btag_def)
  have "used n ct s' qs = concat (map (waiting ct s) [0..<n]) @ (infos ct s qs @ [?a]) @ map (msg_ptr (objs s)) (infos ct s qs) @ [p]"
    using mp ma by (simp add: used_def wt inf)
  then have "mset (used n ct s' qs) = mset (?a # p # used n ct s qs)" by (simp add: used_def)
  then have d: "distinct (used n ct s' qs)" using W(9) p(1) fresh pa by (metis distinct.simps(2) mset_eq_imp_distinct_iff set_ConsD)
  have "is_info F (objs s') q" if "q \<in> set (infos ct s' qs)" for q
  proof (cases "q \<in> set (infos ct s qs)")
    case True
    obtain a' b' bs where *: "objs s q = Some (MsgInfo (Some a') b')" "objs s a' = Some (Buffer bs)" "fst F bs"
      using W(7) [OF True] by (auto simp: is_info_def)
    have "a' \<in> set (used n ct s qs)" using used_infos(2) [OF True] *(1) by (simp add: msg_ptr_def)
    then show ?thesis using * keep used_infos(1) [OF True] by (auto simp: is_info_def)
  next
    case False
    then have "q = ?a" using that by (simp add: inf)
    moreover obtain bs where "objs s p = Some (Buffer bs)" "fst F bs" using p(2) by (auto simp: is_msg_def)
    ultimately show ?thesis using keep [of p] by (auto simp: is_info_def s'(1))
  qed
  moreover have "is_msg F (objs s') q" if "i < n" "q \<in> set (waiting ct s i)" for i q
    using W(8) [OF that] keep [of q] used_waiting [OF that] by (simp add: is_msg_def)
  moreover have "vector_no_ack s ! i \<noteq> None" if "i < n" for i using W(5) [OF that] by auto
  ultimately show "well fine n F ct s' qs"
    unfolding well_def wt using W(1-6,10,11) d by (simp add: s')
  show "ord F ct s' qs = ord F ct s qs @ [btag F (objs s) p]"
    using mp mb ma by (simp add: ord_def inf s'(8))
  have "btag F (objs s') q = btag F (objs s) q" if "q \<in> set (waiting ct s i)" "i < n" for i q
    using keep [of q] used_waiting [OF that(2,1)] by (simp add: btag_def)
  then show "hb n F ct s' = hb n F ct s" by (auto simp: hb_def wt fun_eq_iff)
qed

text \<open>What the vectors' operations leave alone.\<close>

definition same :: "('v, 'z) bench_scheme \<Rightarrow> ('v, 'z) bench_scheme \<Rightarrow> bool" where
  "same s s' \<longleftrightarrow> self_id s' = self_id s \<and> num_nodes s' = num_nodes s \<and> seq_num s' = seq_num s \<and> ack_num s' = ack_num s \<and>
     outgoing s' = outgoing s \<and> my_sem s' = my_sem s \<and> reported s' = reported s \<and> bench.more s' = bench.more s"

lemma same_refl [simp]: "same s s"
  by (simp add: same_def)

lemma same_trans: "same s s1 \<Longrightarrow> same s1 s2 \<Longrightarrow> same s s2"
  by (simp add: same_def)

lemma save_ack_ok:
  assumes V: "vector_laws V ct" and w: "well fine n F ct s qs" and roomy: "fine \<Longrightarrow> \<forall>e v. fst (addElt V e v) = 1"
    and p: "p \<notin> set (used n ct s qs)" "is_msg F (objs s) p"
  shows "okE fine (save_msg_in_vector_ack V (Some p) s) (\<lambda>s'. same s s' \<and> well fine n F ct s' qs \<and> hb n F ct s' = hb n F ct s \<and>
     ord F ct s' qs = ord F ct s qs @ [btag F (objs s) p] \<and> objs s' p = objs s p)"
proof -
  note W = wellD [OF w]
  obtain st v' where a: "addElt V (Some (next_obj s)) (vector_ack s) = (st, v')" by fastforce
  have pa: "p \<noteq> next_obj s" using p(2) W(10) [of "next_obj s"] by (auto simp: is_msg_def)
  have "same s s' \<and> well fine n F ct s' qs \<and> hb n F ct s' = hb n F ct s \<and> ord F ct s' qs = ord F ct s qs @ [btag F (objs s) p] \<and> objs s' p = objs s p"
    if st: "st = 1" and s': "s' = s\<lparr>objs := (objs s)(next_obj s \<mapsto> MsgInfo (Some p) (conf_bits s)), next_obj := Suc (next_obj s), vector_ack := v'\<rparr>" for s'
  proof -
    have "ct v' = ct (vector_ack s) @ [next_obj s]" using V a st unfolding vector_laws_def by (metis fst_conv snd_conv)
    then show ?thesis using new_info [OF w p, of s' "conf_bits s"] pa by (simp add: s' same_def)
  qed
  moreover have "fine \<Longrightarrow> st = 1" using roomy a by (metis fst_conv)
  ultimately show ?thesis
    using a by (auto simp: save_msg_in_vector_ack_def alloc_obj_def intro!: okE_assert)
qed

lemma move_first_ok:
  assumes V: "vector_laws V ct" and w: "well fine n F ct s qs" and roomy: "fine \<Longrightarrow> \<forall>e v. fst (addElt V e v) = 1"
    and i: "i < n" and h: "hb n F ct s i = t # ts"
  shows "okE fine (move_first V (of_nat i) s) (\<lambda>s'. same s s' \<and> well fine n F ct s' qs \<and> hb n F ct s' = (hb n F ct s)(i := ts) \<and>
     ord F ct s' qs = ord F ct s qs @ [t] \<and> (\<forall>p. p \<noteq> next_obj s \<longrightarrow> objs s' p = objs s p))"
proof -
  note W = wellD [OF w]
  have i5: "i < 5" using i W(2) by simp
  obtain v where v: "vector_no_ack s ! i = Some v" "waiting ct s i = ct v" using W(5) [OF i] by blast
  have g: "get_vector (of_nat i) s = Inr v" using i5 v W(4) by (simp add: get_vector_def sint_id)
  obtain p ps where ps: "waiting ct s i = p # ps" "t = btag F (objs s) p" "ts = map (btag F (objs s)) ps"
    using h i by (auto simp: hb_def)
  obtain v' where r: "removeFirst V v = (Some p, v')" "ct v' = ps"
    using V ps(1) v(2) unfolding vector_laws_def by (metis prod.collapse)
  let ?s0 = "s\<lparr>vector_no_ack := (vector_no_ack s)[i := Some v']\<rparr>"
  have p: "is_msg F (objs s) p" using W(8) [OF i] ps(1) by simp
  have wt: "waiting ct ?s0 = (waiting ct s)(i := ps)" using waiting_upd [OF W(4) i5, of ?s0 v' ct] r(2) by simp
  have inf: "infos ct ?s0 qs = infos ct s qs" by (simp add: infos_def)
  have "mset (concat (map (waiting ct ?s0) [0..<n])) + mset (waiting ct s i) = mset (concat (map (waiting ct s) [0..<n])) + mset ps"
    unfolding wt by (rule mset_concat_upd [OF i])
  then have "add_mset p (mset (concat (map (waiting ct ?s0) [0..<n]))) = mset (concat (map (waiting ct s) [0..<n]))"
    unfolding ps(1) by simp
  then have "mset (p # used n ct ?s0 qs) = mset (used n ct s qs)" by (simp add: used_def inf)
  then have d: "p \<notin> set (used n ct ?s0 qs)" "distinct (used n ct ?s0 qs)"
    using W(9) by (metis distinct.simps(2) mset_eq_imp_distinct_iff)+
  have "vector_no_ack ?s0 ! j \<noteq> None" if "j < n" for j using W(5) [OF that] W(4) i5 by (cases "j = i") auto
  moreover have "\<forall>q \<in> set (waiting ct ?s0 j). is_msg F (objs s) q" if "j < n" for j
    using W(8) [OF that] ps(1) by (auto simp: wt)
  ultimately have w0: "well fine n F ct ?s0 qs" using W(1-4,6,7,10,11) d(2) by (simp add: well_def inf)
  have h0: "hb n F ct ?s0 = (hb n F ct s)(i := ts)" by (auto simp: hb_def wt ps(3) i)
  have o0: "ord F ct ?s0 qs = ord F ct s qs" by (simp add: ord_def inf)
  obtain st u where a: "addElt V (Some (next_obj s)) (vector_ack s) = (st, u)" by fastforce
  have "same s s' \<and> well fine n F ct s' qs \<and> hb n F ct s' = (hb n F ct s)(i := ts) \<and> ord F ct s' qs = ord F ct s qs @ [t] \<and> (\<forall>p. p \<noteq> next_obj s \<longrightarrow> objs s' p = objs s p)"
    if st: "st = 1" and s': "s' = ?s0\<lparr>objs := (objs s)(next_obj s \<mapsto> MsgInfo (Some p) (conf_bits s)), next_obj := Suc (next_obj s), vector_ack := u\<rparr>" for s'
  proof -
    have "ct u = ct (vector_ack s) @ [next_obj s]" using V a st unfolding vector_laws_def by (metis fst_conv snd_conv)
    then have "well fine n F ct s' qs \<and> hb n F ct s' = hb n F ct ?s0 \<and> ord F ct s' qs = ord F ct ?s0 qs @ [btag F (objs ?s0) p]"
      using new_info [OF w0 d(1), of s' "conf_bits s"] p by (simp add: s')
    then show ?thesis unfolding h0 o0 by (simp add: ps(2) s' same_def)
  qed
  moreover have "fine \<Longrightarrow> st = 1" using roomy a by (metis fst_conv)
  ultimately show ?thesis
    unfolding move_first_def g using a r(1) i5 by (auto simp: sint_id alloc_obj_def Let_def intro!: okE_assert)
qed

section \<open>The two loops of update_vector\<close>

lemma clear_bit_ok:
  assumes V: "vector_laws V ct" and w: "well fine n F ct s qs" and i: "i < n" and k: "k < length (ct (vector_ack s))"
  obtains s' where "clear_bit V known (of_nat i) (int k) s = Inr s'" "same s s'" "well fine n F ct s' qs" "hb n F ct s' = hb n F ct s"
    "ord F ct s' qs = ord F ct s qs" "vector_ack s' = vector_ack s" "used n ct s' qs = used n ct s qs" "next_obj s' = next_obj s" "alike (objs s) (objs s')"
proof -
  note W = wellD [OF w]
  have i5: "i < 5" using i W(2) by simp
  let ?p = "ct (vector_ack s) ! k"
  have e: "elementAt V (int k) (vector_ack s) = Some ?p" using V k by (simp add: vector_laws_def)
  have p: "?p \<in> set (infos ct s qs)" using k by (simp add: infos_def)
  obtain a b where o': "objs s ?p = Some (MsgInfo (Some a) b)" using W(7) [OF p] unfolding is_info_def by blast
  show thesis
  proof (cases "known (int k)")
    case False
    then show ?thesis using w by (intro that [of s]) (simp_all add: clear_bit_def)
  next
    case True
    let ?s' = "s\<lparr>objs := (objs s)(?p \<mapsto> MsgInfo (Some a) (b AND NOT (push_bit i 1)))\<rparr>"
    have l: "alike (objs s) (objs ?s')" using o' by (auto simp: alike_def like_def)
    have r: "p \<noteq> ?p \<and> objs s p = None" if "next_obj s \<le> p" for p using W(10) [OF that] o' by auto
    have "vector_no_ack s ! j \<noteq> None" if "j < n" for j using W(5) [OF that] by auto
    then have f: "well fine n F ct ?s' qs" "used n ct ?s' qs = used n ct s qs" "hb n F ct ?s' = hb n F ct s" "ord F ct ?s' qs = ord F ct s qs"
      using well_frame [OF w, of ?s' qs] W(3,4,6,11) alikeD [OF l] r by (simp_all add: waiting_def infos_def)
    have "clear_bit V known (of_nat i) (int k) s = Inr ?s'"
      using True e o' i5 by (simp add: clear_bit_def get_info_def shl1_def sint_id)
    then show ?thesis by (rule that) (use f l in \<open>simp_all add: same_def\<close>)
  qed
qed

lemma clear_bits_ok:
  assumes V: "vector_laws V ct" and w: "well fine n F ct s qs" and i: "i < n"
  obtains s' where "clear_bits V known (of_nat i) s = Inr s'" "same s s'" "well fine n F ct s' qs" "hb n F ct s' = hb n F ct s"
    "ord F ct s' qs = ord F ct s qs" "vector_ack s' = vector_ack s" "used n ct s' qs = used n ct s qs" "next_obj s' = next_obj s" "alike (objs s) (objs s')"
proof -
  have "\<exists>s'. foldE (clear_bit V known (of_nat i)) (map int ks) s = Inr s' \<and> same s s' \<and> well fine n F ct s' qs \<and> hb n F ct s' = hb n F ct s \<and>
      ord F ct s' qs = ord F ct s qs \<and> vector_ack s' = vector_ack s \<and> used n ct s' qs = used n ct s qs \<and> next_obj s' = next_obj s \<and> alike (objs s) (objs s')"
    if "\<forall>k \<in> set ks. k < length (ct (vector_ack s))" "well fine n F ct s qs" for ks s
    using that
  proof (induction ks arbitrary: s)
    case Nil
    then show ?case by simp
  next
    case (Cons k ks)
    obtain s1 where s1: "clear_bit V known (of_nat i) (int k) s = Inr s1" "same s s1" "well fine n F ct s1 qs" "hb n F ct s1 = hb n F ct s"
      "ord F ct s1 qs = ord F ct s qs" "vector_ack s1 = vector_ack s" "used n ct s1 qs = used n ct s qs" "next_obj s1 = next_obj s" "alike (objs s) (objs s1)"
      by (rule clear_bit_ok [OF V Cons.prems(2) i, of k known]) (use Cons.prems(1) in simp_all)
    from Cons.IH [OF _ s1(3)] obtain s2 where s2: "foldE (clear_bit V known (of_nat i)) (map int ks) s1 = Inr s2" "same s1 s2" "well fine n F ct s2 qs"
      "hb n F ct s2 = hb n F ct s1" "ord F ct s2 qs = ord F ct s1 qs" "vector_ack s2 = vector_ack s1" "used n ct s2 qs = used n ct s1 qs" "next_obj s2 = next_obj s1" "alike (objs s1) (objs s2)"
      using Cons.prems(1) s1(6) by auto
    then show ?case using s1 same_trans [OF s1(2) s2(2)] alike_trans [OF s1(9) s2(9)] by auto
  qed
  from this [of "[0..<length (ct (vector_ack s))]" s] show thesis
    using that w V by (auto simp: clear_bits_def vector_laws_def)
qed

lemma elementAt_0: "vector_laws V ct \<Longrightarrow> ct v = e # es \<Longrightarrow> elementAt V 0 v = Some e"
proof -
  assume "vector_laws V ct" "ct v = e # es"
  then have "elementAt V (int 0) v = Some (ct v ! 0)" unfolding vector_laws_def by (metis length_greater_0_conv list.distinct(1))
  then show ?thesis using \<open>ct v = e # es\<close> by simp
qed

lemma deliver_ready_stop:
  "\<not> 0 < numberOfElt V (vector_ack s) \<Longrightarrow> deliver_ready k V s = Inr s"
  "get_info (elementAt V 0 (vector_ack s)) s = Inr (m, b) \<Longrightarrow> b \<noteq> 0 \<Longrightarrow> deliver_ready k V s = Inr s"
  by (cases k; simp)+

lemma deliver_ready_ok:
  assumes V: "vector_laws V ct"
  shows "well fine n F ct s qs \<Longrightarrow> length (ct (vector_ack s)) \<le> k \<Longrightarrow>
    \<exists>s' qs'. deliver_ready k V s = Inr s' \<and> same s s' \<and> well fine n F ct s' qs' \<and> hb n F ct s' = hb n F ct s \<and> ord F ct s' qs' = ord F ct s qs \<and>
      used n ct s' qs' = used n ct s qs \<and> objs s' = objs s \<and> next_obj s' = next_obj s"
proof (induction k arbitrary: s qs)
  case 0
  then have "ct (vector_ack s) = []" by simp
  then have "deliver_ready 0 V s = Inr s" using V by (intro deliver_ready_stop) (simp add: vector_laws_def)
  then show ?case using 0 by (intro exI [of _ s] exI [of _ qs]) simp
next
  case (Suc k)
  note w = Suc.prems(1) and W = wellD [OF Suc.prems(1)]
  show ?case
  proof (cases "ct (vector_ack s)")
    case Nil
    then have "deliver_ready (Suc k) V s = Inr s" using V by (intro deliver_ready_stop) (simp add: vector_laws_def)
    then show ?thesis using w by (intro exI [of _ s] exI [of _ qs]) simp
  next
    case (Cons e es)
    have num: "numberOfElt V (vector_ack s) = int (length (e # es))" using V Cons by (simp add: vector_laws_def)
    have el: "elementAt V 0 (vector_ack s) = Some e" by (rule elementAt_0 [OF V Cons])
    obtain v where r: "removeFirst V (vector_ack s) = (Some e, v)" "ct v = es"
      using V Cons unfolding vector_laws_def by (metis prod.collapse)
    obtain a b where o': "objs s e = Some (MsgInfo (Some a) b)" using W(7) [of e] Cons by (auto simp: infos_def is_info_def)
    show ?thesis
    proof (cases "b = 0")
      case False
      then have "deliver_ready (Suc k) V s = Inr s" using el o' by (intro deliver_ready_stop(2) [of _ _ "Some a" b]) (simp_all add: get_info_def)
      then show ?thesis using w by (intro exI [of _ s] exI [of _ qs]) simp
    next
      case True
      obtain q where q: "bqueueEnqueue (deliveryQueue s) (Some e) = Inr q" "brep q (qs @ [e]) 0" by (rule brep_enqueue [OF W(6)])
      let ?s1 = "s\<lparr>vector_ack := v, deliveryQueue := q, highestDelivered := highestDelivered s + 1\<rparr>"
      have vn: "vector_no_ack s ! j \<noteq> None" if "j < n" for j using W(5) [OF that] by auto
      have f: "well fine n F ct ?s1 (qs @ [e])" "used n ct ?s1 (qs @ [e]) = used n ct s qs" "hb n F ct ?s1 = hb n F ct s" "ord F ct ?s1 (qs @ [e]) = ord F ct s qs"
        using well_frame [OF w, of ?s1 "qs @ [e]"] W(3,4,10,11) q(2) vn by (simp_all add: waiting_def infos_def Cons r(2))
      from Suc.IH [OF f(1)] Suc.prems(2) Cons obtain s' qs' where s': "deliver_ready k V ?s1 = Inr s'" "same ?s1 s'" "well fine n F ct s' qs'"
        "hb n F ct s' = hb n F ct ?s1" "ord F ct s' qs' = ord F ct ?s1 (qs @ [e])" "used n ct s' qs' = used n ct ?s1 (qs @ [e])" "objs s' = objs s" "next_obj s' = next_obj s"
        by (auto simp: r(2))
      have "deliver_ready (Suc k) V s = Inr s'"
        using num el o' True r q(1) s'(1) by (simp add: get_info_def)
      moreover have "same s s'" using s'(2) by (simp add: same_def)
      ultimately show ?thesis using s' f by auto
    qed
  qed
qed

text \<open>Both loops: some of the entries become messages to deliver.\<close>

lemma update_loops_ok:
  assumes V: "vector_laws V ct" and w: "well fine n F ct s qs" and i: "i < n"
  obtains s' qs' where
    "bindE (clear_bits V known (of_nat i) s) (\<lambda>s1. deliver_ready (nat (numberOfElt V (vector_ack s1))) V s1) = Inr s'" "same s s'"
    "well fine n F ct s' qs'" "hb n F ct s' = hb n F ct s" "ord F ct s' qs' = ord F ct s qs" "used n ct s' qs' = used n ct s qs"
    "\<And>p b. objs s p = Some (Buffer b) \<Longrightarrow> objs s' p = Some (Buffer b)" "next_obj s' = next_obj s"
proof -
  obtain s1 where s1: "clear_bits V known (of_nat i) s = Inr s1" "same s s1" "well fine n F ct s1 qs" "hb n F ct s1 = hb n F ct s"
    "ord F ct s1 qs = ord F ct s qs" "vector_ack s1 = vector_ack s" "used n ct s1 qs = used n ct s qs" "next_obj s1 = next_obj s" "alike (objs s) (objs s1)"
    by (rule clear_bits_ok [OF V w i, of known]) (rule that)
  have "nat (numberOfElt V (vector_ack s1)) = length (ct (vector_ack s1))" using V by (simp add: vector_laws_def)
  then obtain s2 qs2 where s2: "deliver_ready (nat (numberOfElt V (vector_ack s1))) V s1 = Inr s2" "same s1 s2" "well fine n F ct s2 qs2"
    "hb n F ct s2 = hb n F ct s1" "ord F ct s2 qs2 = ord F ct s1 qs" "used n ct s2 qs2 = used n ct s1 qs" "objs s2 = objs s1" "next_obj s2 = next_obj s1"
    using deliver_ready_ok [OF V s1(3)] by (metis le_refl)
  have "objs s2 p = Some (Buffer b)" if "objs s p = Some (Buffer b)" for p b
    unfolding s2(7) using like_Buffer [OF alikeD [OF s1(9)], of p b] that by blast
  moreover have "bindE (clear_bits V known (of_nat i) s) (\<lambda>s1. deliver_ready (nat (numberOfElt V (vector_ack s1))) V s1) = Inr s2"
    using s1(1) s2(1) by simp
  ultimately show thesis
    using s1(4,5,7,8) s2(4,5,6,8) by (intro that [OF _ same_trans [OF s1(2) s2(2)] s2(3)]) simp_all
qed

section \<open>Cells that come and go\<close>

text \<open>What the threads leave alone.\<close>

definition steady :: "('v, 'z) bench_scheme \<Rightarrow> ('v, 'z) bench_scheme \<Rightarrow> bool" where
  "steady s s' \<longleftrightarrow> self_id s' = self_id s \<and> num_nodes s' = num_nodes s \<and> my_sem s' = my_sem s \<and> reported s' = reported s \<and>
     bench.more s' = bench.more s"

lemma steady_refl [simp]: "steady s s"
  by (simp add: steady_def)

lemma steady_trans: "steady s s1 \<Longrightarrow> steady s1 s2 \<Longrightarrow> steady s s2"
  by (simp add: steady_def)

lemma same_steady: "same s s' \<Longrightarrow> steady s s' \<and> outgoing s' = outgoing s \<and> ack_num s' = ack_num s \<and> seq_num s' = seq_num s"
  by (simp add: same_def steady_def)

text \<open>Cells that nothing designates may come and go.\<close>

lemma well_outside:
  assumes w: "well fine n F ct s qs" and f: "num_nodes s' = num_nodes s" "vector_no_ack s' = vector_no_ack s" "vector_ack s' = vector_ack s"
      "deliveryQueue s' = deliveryQueue s" "reported s' = reported s"
    and o': "\<And>p. p \<in> set (used n ct s qs) \<Longrightarrow> objs s' p = objs s p" "\<And>p. next_obj s' \<le> p \<Longrightarrow> objs s' p = None" "fine \<Longrightarrow> answers s' = []"
  shows "well fine n F ct s' qs" "used n ct s' qs = used n ct s qs" "hb n F ct s' = hb n F ct s" "ord F ct s' qs = ord F ct s qs"
proof -
  have vn: "vector_no_ack s ! j \<noteq> None" if "j < n" for j using wellD(5) [OF w that] by auto
  show "well fine n F ct s' qs" "used n ct s' qs = used n ct s qs" "hb n F ct s' = hb n F ct s" "ord F ct s' qs = ord F ct s qs"
    using well_frame [OF w, of s' qs] wellD(4,6) [OF w] f o' vn by (simp_all add: waiting_def infos_def like_def)
qed

lemma well_alloc:
  assumes w: "well fine n F ct s qs" and f: "num_nodes s' = num_nodes s" "vector_no_ack s' = vector_no_ack s" "vector_ack s' = vector_ack s"
      "deliveryQueue s' = deliveryQueue s" "reported s' = reported s" "answers s' = answers s"
      "objs s' = (objs s)(next_obj s \<mapsto> x)" "next_obj s' = Suc (next_obj s)"
  shows "well fine n F ct s' qs" "used n ct s' qs = used n ct s qs" "hb n F ct s' = hb n F ct s" "ord F ct s' qs = ord F ct s qs"
    "next_obj s \<notin> set (used n ct s qs)"
proof -
  show fresh: "next_obj s \<notin> set (used n ct s qs)" using in_used(2) [OF w] by blast
  have "objs s' p = objs s p" if "p \<in> set (used n ct s qs)" for p using that fresh f(7) by auto
  moreover have "objs s' p = None" if "next_obj s' \<le> p" for p using that wellD(10) [OF w, of p] f(7,8) by auto
  ultimately show "well fine n F ct s' qs" "used n ct s' qs = used n ct s qs" "hb n F ct s' = hb n F ct s" "ord F ct s' qs = ord F ct s qs"
    using well_outside [OF w f(1-5)] wellD(11) [OF w] f(6) by auto
qed

lemma well_free:
  assumes w: "well fine n F ct s qs" and a: "a \<notin> set (used n ct s qs)"
  shows "well fine n F ct (s\<lparr>objs := (objs s)(a := None)\<rparr>) qs" "used n ct (s\<lparr>objs := (objs s)(a := None)\<rparr>) qs = used n ct s qs"
    "hb n F ct (s\<lparr>objs := (objs s)(a := None)\<rparr>) = hb n F ct s" "ord F ct (s\<lparr>objs := (objs s)(a := None)\<rparr>) qs = ord F ct s qs"
proof -
  let ?s = "s\<lparr>objs := (objs s)(a := None)\<rparr>"
  have "objs ?s p = objs s p" if "p \<in> set (used n ct s qs)" for p using that a by auto
  moreover have "objs ?s p = None" if "next_obj ?s \<le> p" for p using that wellD(10) [OF w, of p] by auto
  ultimately show "well fine n F ct ?s qs" "used n ct ?s qs = used n ct s qs" "hb n F ct ?s = hb n F ct s" "ord F ct ?s qs = ord F ct s qs"
    using well_outside [OF w, of ?s] wellD(11) [OF w] by simp_all
qed

text \<open>A buffer that is not a message is not in use.\<close>

lemma other_buffer_free:
  assumes w: "well fine n F ct s qs" and b: "objs s p = Some (Buffer b)" "\<not> fst F b"
  shows "p \<notin> set (used n ct s qs)"
proof
  assume "p \<in> set (used n ct s qs)"
  then consider k where "k < n" "p \<in> set (waiting ct s k)" | "p \<in> set (infos ct s qs)" | r where "r \<in> set (infos ct s qs)" "p = msg_ptr (objs s) r"
    by (auto simp: used_def)
  then show False
  proof cases
    case 1
    then have "is_msg F (objs s) p" using wellD(8) [OF w] by blast
    then show False using b by (auto simp: is_msg_def)
  next
    case 2
    show False using wellD(7) [OF w 2] b(1) by (simp add: is_info_def)
  next
    case 3
    obtain a b' bs where "objs s r = Some (MsgInfo (Some a) b')" "objs s a = Some (Buffer bs)" "fst F bs"
      using wellD(7) [OF w 3(1)] unfolding is_info_def by blast
    then show False using b 3(2) by (simp add: msg_ptr_def)
  qed
qed

text \<open>A delivered message and its entry are freed.\<close>

lemma first_info:
  assumes w: "well fine n F ct s (e # qs)"
  obtains a b bs where "objs s e = Some (MsgInfo (Some a) b)" "objs s a = Some (Buffer bs)" "fst F bs" "e \<noteq> a"
proof -
  have "e \<in> set (infos ct s (e # qs))" by (simp add: infos_def)
  then obtain a b bs where "objs s e = Some (MsgInfo (Some a) b)" "objs s a = Some (Buffer bs)" "fst F bs"
    using wellD(7) [OF w] unfolding is_info_def by blast
  then show thesis using that by fastforce
qed

lemma well_delivered:
  assumes w: "well fine n F ct s (e # qs)" and o': "objs s e = Some (MsgInfo (Some a) b)" "objs s a = Some (Buffer bs)"
    and f: "num_nodes s' = num_nodes s" "vector_no_ack s' = vector_no_ack s" "vector_ack s' = vector_ack s" "brep (deliveryQueue s') qs 0"
      "reported s' = reported s @ [t]" "atag t = snd F bs" "answers s' = answers s" "objs s' = (objs s)(a := None, e := None)" "next_obj s' = next_obj s"
  shows "well fine n F ct s' qs" "ord F ct s' qs = ord F ct s (e # qs)" "hb n F ct s' = hb n F ct s"
proof -
  note W = wellD [OF w]
  define rest where "rest = infos ct s qs"
  have inf: "infos ct s (e # qs) = e # rest" by (simp add: infos_def rest_def)
  have me: "msg_ptr (objs s) e = a" using o'(1) by (simp add: msg_ptr_def)
  have "mset (used n ct s (e # qs)) = mset (e # a # concat (map (waiting ct s) [0..<n]) @ rest @ map (msg_ptr (objs s)) rest)"
    by (simp add: used_def inf me)
  then have d: "distinct (e # a # concat (map (waiting ct s) [0..<n]) @ rest @ map (msg_ptr (objs s)) rest)"
    using W(9) by (metis mset_eq_imp_distinct_iff)
  have wt: "waiting ct s' = waiting ct s" by (simp add: waiting_def fun_eq_iff f)
  have inf': "infos ct s' qs = rest" by (simp add: infos_def f rest_def)
  have keep: "objs s' p = objs s p" if "p \<noteq> e" "p \<noteq> a" for p using that by (simp add: f)
  have r: "p \<noteq> e \<and> p \<noteq> a \<and> msg_ptr (objs s) p \<noteq> e \<and> msg_ptr (objs s) p \<noteq> a" if "p \<in> set rest" for p
    using d that by (auto simp: image_iff)
  have ww: "p \<noteq> e \<and> p \<noteq> a" if "i < n" "p \<in> set (waiting ct s i)" for i p using d that by auto
  have mp: "msg_ptr (objs s') p = msg_ptr (objs s) p" "btag F (objs s') (msg_ptr (objs s) p) = btag F (objs s) (msg_ptr (objs s) p)" if "p \<in> set rest" for p
    using keep r [OF that] by (simp_all add: msg_ptr_def btag_def)
  have "used n ct s' qs = concat (map (waiting ct s) [0..<n]) @ rest @ map (msg_ptr (objs s)) rest" using mp(1) by (simp add: used_def wt inf')
  then have "distinct (used n ct s' qs)" using d by simp
  moreover have "is_info F (objs s') p" if p: "p \<in> set rest" for p
  proof -
    obtain a' b' bs' where *: "objs s p = Some (MsgInfo (Some a') b')" "objs s a' = Some (Buffer bs')" "fst F bs'"
      using W(7) [of p] p inf unfolding is_info_def by auto
    moreover have "msg_ptr (objs s) p = a'" using *(1) by (simp add: msg_ptr_def)
    ultimately show ?thesis using keep r [OF p] by (auto simp: is_info_def)
  qed
  moreover have "is_msg F (objs s') p" if "i < n" "p \<in> set (waiting ct s i)" for i p
    using W(8) [OF that] keep ww [OF that] by (simp add: is_msg_def)
  moreover have "vector_no_ack s ! i \<noteq> None" if "i < n" for i using W(5) [OF that] by auto
  ultimately show "well fine n F ct s' qs"
    using W(1-4,10,11) f(4) unfolding well_def wt inf' by (simp add: f)
  show "ord F ct s' qs = ord F ct s (e # qs)"
    using mp by (simp add: ord_def inf inf' f me) (simp add: btag_def o')
  have "btag F (objs s') p = btag F (objs s) p" if "i < n" "p \<in> set (waiting ct s i)" for i p using keep ww [OF that] by (simp add: btag_def)
  then show "hb n F ct s' = hb n F ct s" by (auto simp: hb_def wt fun_eq_iff)
qed

section \<open>The start\<close>

lemma foldE_updE:
  assumes "m \<le> length vs"
  shows "foldE (\<lambda>i vs. updE vs i x) (map int [0..<m]) vs = Inr (replicate m x @ drop m vs)"
  using assms
proof (induction m)
  case (Suc m)
  have "(replicate m x @ drop m vs)[m := x] = replicate (Suc m) x @ drop (Suc m) vs"
    using Suc.prems by (simp add: list_update_append Cons_nth_drop_Suc [symmetric] replicate_append_same)
  then show ?case using Suc by (simp add: foldE_append)
qed simp

lemma new_vectors:
  "n \<le> 5 \<Longrightarrow> foldE (\<lambda>i vs. updE vs i v) (map int [0..<n]) (replicate MAX_NODES None) = Inr (replicate n v @ replicate (5 - n) None)"
  using foldE_updE [of n "replicate MAX_NODES None" v] by (simp add: MAX_NODES_def)

lemma init_words:
  assumes "n \<le> 5" "j < n"
  shows "sint (of_nat n :: 32 word) = int n" "sint (of_nat j :: 16 word) = int j"
    "shl1 (int n) = Inr (push_bit n 1)" "shl1 (int j) = Inr (push_bit j 1)"
  using assms sint_id [of j] by (simp_all add: signed_of_nat signed_take_bit_int_eq_self shl1_def)

lemma well_start:
  assumes V: "vector_laws V ct" and n: "2 \<le> n" "n \<le> 5"
    and s: "num_nodes s = of_nat n" "vector_no_ack s = replicate n (Some (createVector V 5000)) @ replicate (5 - n) None"
      "vector_ack s = createVector V 5000" "deliveryQueue s = newBqueue" "objs s = (\<lambda>_. None)" "answers s = []" "reported s = []"
  shows "well fine n F ct s []" "ord F ct s [] = []" "hb n F ct s = (\<lambda>_. [])"
proof -
  have c: "ct (createVector V 5000) = []" using V by (simp add: vector_laws_def)
  have wt: "waiting ct s i = []" if "i < n" for i using that c by (simp add: waiting_def s nth_append)
  have inf: "infos ct s [] = []" by (simp add: infos_def s c)
  have u: "used n ct s [] = []" using wt by (simp add: used_def inf)
  have "vector_no_ack s ! i \<noteq> None" if "i < n" for i using that by (simp add: s nth_append)
  then show "well fine n F ct s []"
    unfolding well_def inf u using n s wt brep_newBqueue by simp
  show "ord F ct s [] = []" by (simp add: ord_def inf s)
  show "hb n F ct s = (\<lambda>_. [])" using wt by (auto simp: hb_def)
qed

section \<open>Time\<close>

text \<open>The measured difference of two times is theirs exactly when the microseconds of the later
  one are not below those of the earlier one; otherwise the code adds what it had to
  subtract.\<close>

lemma time_difference:
  "measure_time_difference now past = of_int (1000 * (tv_sec now - tv_sec past)) + of_int (tv_usec now - tv_usec past) / 1000 \<longleftrightarrow>
   tv_usec past \<le> tv_usec now"
  by (auto simp: measure_time_difference_def Let_def)

text \<open>A second without microseconds lost; the throughput of \<open>2 ^ 31\<close> bytes is negative.\<close>

lemma time_difference_of_times:
  "tv_usec past \<le> tv_usec now \<Longrightarrow> measure_time_difference now past = get_mili_seconds now - get_mili_seconds past"
  by (auto simp: measure_time_difference_def get_mili_seconds_def Let_def field_simps)

lemma throughput_negative:
  "0 < t \<Longrightarrow> calculate_throughput (scast (2 ^ 31 :: 64 word)) t < 0"
  by (simp add: calculate_throughput_def)

end
