(* ===== verification/RingTcp.thy ===== *)
theory RingTcp
  imports Bench
begin

text \<open>
  The benchmark of broadcasts on a ring, \<^verbatim>\<open>protocol_tcp/main.c\<close>: process 0 is the leader.
  A message goes round the ring from its sender to the sender's predecessor; the leader
  numbers the messages in the order they come to it and sends an acknowledgement of each
  round the ring; the others keep a message in \<^verbatim>\<open>vector_no_ack\<close> until its acknowledgement
  comes, then in \<^verbatim>\<open>vector_ack\<close> until all processes are known to have it. Buffers hold the
  packed structures of \<^verbatim>\<open>protocol_tcp/type.h\<close>: \<^verbatim>\<open>len\<close> at 0, \<^verbatim>\<open>type\<close> at 4, \<^verbatim>\<open>id_process\<close> at 5,
  \<^verbatim>\<open>seq\<close> at 7, \<^verbatim>\<open>ack\<close> or \<^verbatim>\<open>revNum\<close> at 11, \<^verbatim>\<open>startMiliSeconds\<close> at 15, \<^verbatim>\<open>payload\<close> at 23. The
  three threads share their variables without a lock: here are the turns of their loops, in
  \<open>BenchStatements\<close> the statements of a turn, between which the other threads run.
\<close>

type_synonym typId = "16 word"

text \<open>\<open>started\<close> is a local variable of \<^verbatim>\<open>process_msg\<close>, \<open>stopped\<close> that its thread has ended.\<close>

record 'v tcp_node = "'v bench" +
  started :: bool
  stopped :: bool

definition ACK_SIZE :: nat where "ACK_SIZE = 15"

definition sizeof_bcast_header :: nat where "sizeof_bcast_header = 23"

text \<open>\<^verbatim>\<open>offsetof(bcast, startMiliSeconds)\<close>.\<close>

definition len_head_bcast :: "64 word" where "len_head_bcast = 15"

definition id_process :: "nat option \<Rightarrow> ('v, 'z) bench_scheme \<Rightarrow> typId result" where
  "id_process p s = bindE (get_buffer p s) (\<lambda>b. rd_short b 5)"

definition seq_of :: "nat option \<Rightarrow> ('v, 'z) bench_scheme \<Rightarrow> 32 word result" where
  "seq_of p s = bindE (get_buffer p s) (\<lambda>b. rd_int b 7)"

text \<open>\<^verbatim>\<open>ack\<close> of a message, \<^verbatim>\<open>revNum\<close> of an acknowledgement.\<close>

definition ack_of :: "nat option \<Rightarrow> ('v, 'z) bench_scheme \<Rightarrow> 32 word result" where
  "ack_of p s = bindE (get_buffer p s) (\<lambda>b. rd_int b 11)"

section \<open>Start\<close>

definition initialize :: "'v vector_ops \<Rightarrow> typId \<Rightarrow> 32 word \<Rightarrow> 'v tcp_node result" where
  "initialize V self n =
     bindE (shl1 (sint n)) (\<lambda>all.
     bindE (shl1 (sint self)) (\<lambda>mine.
     bindE (foldE (\<lambda>i vs. updE vs i (Some (createVector V 5000))) (map int [0..<nat (sint n)]) (replicate MAX_NODES None)) (\<lambda>vs.
       Inr \<lparr>self_id = self, num_nodes = n, conf_bits = (all - 1) AND NOT mine, seq_num = 0, ack_num = 0,
         vector_no_ack = vs, vector_ack = createVector V 5000, highestDelivered = 0, deliveryQueue = newBqueue,
         my_sem = 0, mesurement_started = False, bcounters = bench_counters0, objs = (\<lambda>_. None), next_obj = 0,
         outgoing = [], answers = [], reported = [], started = False, stopped = False\<rparr>)))"

section \<open>Sending\<close>

text \<open>\<^verbatim>\<open>broadcast_msg\<close>, \<^verbatim>\<open>broadcast_ack\<close>, \<^verbatim>\<open>transfer_msg\<close> and \<^verbatim>\<open>transfer_ack\<close> send the bytes of the
  buffer that its length says.\<close>

definition broadcast_msg :: "nat option \<Rightarrow> ('v, 'z) bench_scheme \<Rightarrow> ('v, 'z) bench_scheme result" where
  "broadcast_msg p s =
     bindE (get_buffer p s) (\<lambda>b. bindE (rd_int b 0) (\<lambda>len.
     bindE (rd b 0 (unat (scast len :: 64 word))) (\<lambda>bs. send_all bs s)))"

definition transfer_msg :: "nat option \<Rightarrow> ('v, 'z) bench_scheme \<Rightarrow> ('v, 'z) bench_scheme result" where
  "transfer_msg = broadcast_msg"

definition broadcast_ack :: "nat option \<Rightarrow> ('v, 'z) bench_scheme \<Rightarrow> ('v, 'z) bench_scheme result" where
  "broadcast_ack = broadcast_msg"

definition transfer_ack :: "nat option \<Rightarrow> ('v, 'z) bench_scheme \<Rightarrow> ('v, 'z) bench_scheme result" where
  "transfer_ack = broadcast_msg"

text \<open>The bytes of the messages.\<close>

definition enc_bcast :: "typId \<Rightarrow> 32 word \<Rightarrow> 32 word \<Rightarrow> 64 word \<Rightarrow> byte list \<Rightarrow> byte list" where
  "enc_bcast pid sq ak now pl =
     to_bytes 4 (c_int (23 + length pl)) @ [98] @ to_bytes 2 pid @ to_bytes 4 sq @ to_bytes 4 ak @ to_bytes 8 now @ pl"

definition enc_ack :: "typId \<Rightarrow> 32 word \<Rightarrow> 32 word \<Rightarrow> byte list" where
  "enc_ack pid sq rv = to_bytes 4 (c_int ACK_SIZE) @ [97] @ to_bytes 2 pid @ to_bytes 4 sq @ to_bytes 4 rv"

definition enc_ok :: "byte \<Rightarrow> byte list" where
  "enc_ok t = to_bytes 4 (c_int 5) @ [t]"

definition start_leader :: "('v, 'z) bench_scheme \<Rightarrow> ('v, 'z) bench_scheme result" where
  "start_leader s = send_all (enc_ok 121) s"

definition stop_leader :: "('v, 'z) bench_scheme \<Rightarrow> ('v, 'z) bench_scheme result" where
  "stop_leader s = send_all (enc_ok 110) s"

text \<open>A size too small for the header is written past its end; a negative one makes \<^verbatim>\<open>malloc\<close>
  return NULL.\<close>

definition prepare_msg :: "typId \<Rightarrow> 32 word \<Rightarrow> 32 word \<Rightarrow> 32 word \<Rightarrow> 64 word \<Rightarrow> ('v, 'z) bench_scheme \<Rightarrow> (nat \<times> ('v, 'z) bench_scheme) result" where
  "prepare_msg pid sequence_number acknowledge_number totalSize now s =
     (if sint totalSize < int sizeof_bcast_header then Inl MemFault
      else Inr (alloc_obj (Buffer (to_bytes 4 totalSize @ [98] @ to_bytes 2 pid @ to_bytes 4 sequence_number @
        to_bytes 4 acknowledge_number @ to_bytes 8 now @ replicate (nat (sint totalSize) - sizeof_bcast_header) 0)) s))"

definition prepare_ack :: "typId \<Rightarrow> 32 word \<Rightarrow> 32 word \<Rightarrow> ('v, 'z) bench_scheme \<Rightarrow> nat \<times> ('v, 'z) bench_scheme" where
  "prepare_ack pid sequence_number recv_number s = alloc_obj (Buffer (enc_ack pid sequence_number recv_number)) s"

section \<open>The vectors\<close>

definition save_msg_in_vector_No_ack :: "'v vector_ops \<Rightarrow> nat option \<Rightarrow> ('v, 'z) bench_scheme \<Rightarrow> ('v, 'z) bench_scheme result" where
  "save_msg_in_vector_No_ack V p s = bindE (id_process p s) (\<lambda>message_id. add_no_ack V message_id p s)"

definition move_msg_in_vector_ack :: "'v vector_ops \<Rightarrow> nat option \<Rightarrow> ('v, 'z) bench_scheme \<Rightarrow> ('v, 'z) bench_scheme result" where
  "move_msg_in_vector_ack V p s = bindE (id_process p s) (\<lambda>message_id. move_first V message_id s)"

text \<open>The sum of \<^verbatim>\<open>int\<close>s wraps here; in C it may not overflow.\<close>

definition update_vector :: "'v vector_ops \<Rightarrow> nat option \<Rightarrow> ('v, 'z) bench_scheme \<Rightarrow> ('v, 'z) bench_scheme result" where
  "update_vector V p s =
     bindE (id_process p s) (\<lambda>pid. bindE (ack_of p s) (\<lambda>ack_tmp.
     bindE (clear_bits V (\<lambda>i. sint (word_of_int i + highestDelivered s) \<le> sint ack_tmp) pid s) (\<lambda>s1.
       deliver_ready (nat (numberOfElt V (vector_ack s1))) V s1)))"

section \<open>Receiving\<close>

definition get_predecessor :: "32 word \<Rightarrow> typId \<Rightarrow> typId" where
  "get_predecessor n p_id = (if p_id = 0 then ucast (n - 1) else p_id - 1)"

definition get_pre_predecessor :: "32 word \<Rightarrow> typId \<Rightarrow> typId" where
  "get_pre_predecessor n p_id =
     (let predecessor = get_predecessor n p_id in if predecessor = 0 then ucast (n - 1) else predecessor - 1)"

text \<open>The leader numbers a message and acknowledges it.\<close>

definition acknowledge :: "nat option \<Rightarrow> ('v, 'z) bench_scheme \<Rightarrow> ('v, 'z) bench_scheme result" where
  "acknowledge p s =
     (let s1 = s\<lparr>ack_num := ack_num s + 1\<rparr>
      in bindE (id_process p s1) (\<lambda>pid. bindE (seq_of p s1) (\<lambda>sq.
         let (a, s2) = prepare_ack pid sq (ack_num s1) s1
         in bindE (broadcast_ack (Some a) s2) (free_obj (Some a)))))"

definition handle_msg :: "'v vector_ops \<Rightarrow> nat option \<Rightarrow> ('v, 'z) bench_scheme \<Rightarrow> ('v, 'z) bench_scheme result" where
  "handle_msg V p s =
     bindE (id_process p s) (\<lambda>pid.
     bindE (if self_id s \<noteq> get_predecessor (num_nodes s) pid then transfer_msg p s else Inr s) (\<lambda>s1.
     bindE (update_vector V p s1) (\<lambda>s2.
     if self_id s = 0
     then bindE (save_msg_in_vector_ack V p s2) (acknowledge p)
     else save_msg_in_vector_No_ack V p s2)))"

definition handle_ack :: "'v vector_ops \<Rightarrow> nat option \<Rightarrow> ('v, 'z) bench_scheme \<Rightarrow> ('v, 'z) bench_scheme result" where
  "handle_ack V p s =
     (if self_id s = 0 then Inr s
      else bindE (move_msg_in_vector_ack V p s) (\<lambda>s1.
           bindE (ack_of p s1) (\<lambda>rv.
           let s2 = s1\<lparr>ack_num := rv\<rparr>
           in if num_nodes s2 = 0 then Inl MemFault
              else if c_mod (sint (self_id s2) + 1) (sint (num_nodes s2)) \<noteq> 0 then transfer_ack p s2 else Inr s2)))"

text \<open>\<^verbatim>\<open>recv\<close> with \<^verbatim>\<open>MSG_WAITALL\<close>, on the bytes that have come and whether the connection has
  ended; the size is then compared.\<close>

definition recv_all :: "nat \<Rightarrow> bool \<Rightarrow> byte list \<Rightarrow> (byte list \<times> byte list) result" where
  "recv_all n ended bs =
     (if n \<le> length bs then Inr (take n bs, drop n bs) else if ended then Inl (ExitFailure ''Assertion failed'') else Inl Blocks)"

text \<open>What \<^verbatim>\<open>process_msg\<close> does with a message of a type: 'y' (121), 'b' (98), 'a' (97), 'n' (110);
  a message of another type is not freed.\<close>

definition treat_type :: "'v vector_ops \<Rightarrow> nat \<Rightarrow> byte \<Rightarrow> 'v tcp_node \<Rightarrow> 'v tcp_node result" where
  "treat_type V m type s =
     (if type = 121 then
        bindE (if started s then Inr s
               else bindE (if self_id s \<noteq> 0 then start_leader s else Inr s) (\<lambda>s2. Inr (s2\<lparr>my_sem := Suc (my_sem s2)\<rparr>)))
          (\<lambda>s3. free_obj (Some m) (s3\<lparr>started := True\<rparr>))
      else if type = 98 then handle_msg V (Some m) s
      else if type = 97 then bindE (handle_ack V (Some m) s) (free_obj (Some m))
      else if type = 110 then
        bindE (if self_id s \<noteq> 0 then stop_leader s else Inr s)
          (\<lambda>s2. bindE (free_obj (Some m) s2) (\<lambda>s3. Inr (s3\<lparr>stopped := True\<rparr>)))
      else Inr s)"

text \<open>A turn of the loop of \<^verbatim>\<open>process_msg\<close>: \<open>len\<close> bytes are allocated, its first 4 are written even
  when there are fewer.\<close>

definition process_msg :: "'v vector_ops \<Rightarrow> bool \<Rightarrow> byte list \<Rightarrow> 'v tcp_node \<Rightarrow> (byte list \<times> 'v tcp_node) result" where
  "process_msg V ended stream s =
     bindE (recv_all 4 ended stream) (\<lambda>(lenb, stream1).
     let len = (of_bytes lenb :: 32 word)
     in if sint len < 0 then Inl (ExitFailure ''Assertion failed'')
        else if sint len < 4 then Inl MemFault
        else bindE (recv_all (nat (sint len) - 4) ended stream1) (\<lambda>(rest, stream2).
          let (m, s1) = alloc_obj (Buffer (lenb @ rest)) s
          in bindE (rd_char (lenb @ rest) 4) (\<lambda>type.
             bindE (treat_type V m type s1) (\<lambda>s4. Inr (stream2, s4)))))"

section \<open>The other threads\<close>

text \<open>A turn of the loop of \<^verbatim>\<open>send_msg\<close>, whose thread has waited for the semaphore.\<close>

definition send_msg :: "'v vector_ops \<Rightarrow> 32 word \<Rightarrow> 64 word \<Rightarrow> ('v, 'z) bench_scheme \<Rightarrow> ('v, 'z) bench_scheme result" where
  "send_msg V total_size now s =
     (let s0 = s\<lparr>seq_num := seq_num s + 1\<rparr>
      in bindE (prepare_msg (self_id s0) (seq_num s0) (ack_num s0) total_size now s0) (\<lambda>(m, s1).
         bindE (broadcast_msg (Some m) s1) (\<lambda>s2.
         if self_id s2 = 0
         then bindE (save_msg_in_vector_ack V (Some m) s2) (\<lambda>s3.
              bindE (update_vector V (Some m) s3) (acknowledge (Some m)))
         else save_msg_in_vector_No_ack V (Some m) s2)))"

text \<open>What the traces report of a message.\<close>

definition tag_of :: "byte list \<Rightarrow> 16 word \<times> 32 word" where
  "tag_of b = (of_bytes (take 2 (drop 5 b)), of_bytes (take 4 (drop 7 b)))"

definition count_delivery :: "byte list \<Rightarrow> 64 word \<Rightarrow> ('v, 'z) bench_scheme \<Rightarrow> ('v, 'z) bench_scheme result" where
  "count_delivery b now s =
     bindE (rd_short b 5) (\<lambda>pid. bindE (rd_int b 0) (\<lambda>len. bindE (rd b 15 8) (\<lambda>start.
     let c = bcounters s; size = scast len - len_head_bcast;
         c1 = (if pid = self_id s
               then c\<lparr>delivered_latency := delivered_latency c @ [(now, of_bytes start)],
                      messages_delivered_mesure := messages_delivered_mesure c + 1,
                      messages_bytes_delivered_mesure := messages_bytes_delivered_mesure c + size\<rparr>
               else c)
     in Inr (s\<lparr>bcounters := c1\<lparr>messages_delivered := messages_delivered c1 + 1,
          messages_bytes_delivered := messages_bytes_delivered c1 + size\<rparr>\<rparr>))))"

text \<open>A turn of the loop of \<^verbatim>\<open>deliver_msg\<close>.\<close>

definition deliver_turn :: "64 word \<Rightarrow> ('v, 'z) bench_scheme \<Rightarrow> ('v, 'z) bench_scheme result" where
  "deliver_turn now s =
     bindE (bqueueDequeue (deliveryQueue s)) (\<lambda>(m, q).
     let s0 = s\<lparr>deliveryQueue := q\<rparr>
     in bindE (get_info m s0) (\<lambda>(message, bits).
        bindE (get_buffer message s0) (\<lambda>b.
        let s1 = s0\<lparr>reported := reported s0 @ [tag_of b]\<rparr>
        in bindE (if mesurement_started s1 then count_delivery b now s1 else Inr s1) (\<lambda>s2.
           bindE (free_obj message s2) (free_obj m)))))"

text \<open>What the main thread of the leader does between its sleeps.\<close>

fun main_turn :: "nat \<Rightarrow> ('v, 'z) bench_scheme \<Rightarrow> ('v, 'z) bench_scheme result" where
  "main_turn 0 s = start_leader s"
| "main_turn (Suc 0) s = Inr (s\<lparr>mesurement_started := True\<rparr>)"
| "main_turn (Suc (Suc 0)) s = Inr (s\<lparr>mesurement_started := False\<rparr>)"
| "main_turn (Suc (Suc (Suc n))) s = stop_leader s"

end
