(* ===== verification/Sequencer.thy ===== *)
theory Sequencer
  imports Prelude "HOL-Library.Sublist"
begin

text \<open>
  Total order by a sequencer on a ring, abstractly. A message is a pair of its sender and
  anything else. Process 0 orders the messages as they come to it. The others hold a message
  back until its acknowledgement comes; the acknowledgement then moves the first message
  they hold of that sender, whatever it is. \<open>link s j\<close> is what is on its way to process \<open>j\<close>.
\<close>

datatype 'q packet = Mess "nat \<times> 'q" | Ackn "nat \<times> 'q"

record 'q seqr =
  ordered :: "nat \<Rightarrow> (nat \<times> 'q) list"
  held_back :: "nat \<Rightarrow> nat \<Rightarrow> (nat \<times> 'q) list"
  link :: "nat \<Rightarrow> 'q packet list"

definition next_on :: "nat \<Rightarrow> nat \<Rightarrow> nat" where
  "next_on n j = Suc j mod n"

definition of_sender :: "nat \<Rightarrow> (nat \<times> 'q) list \<Rightarrow> (nat \<times> 'q) list" where
  "of_sender i ts = filter (\<lambda>t. fst t = i) ts"

fun msgs_of :: "nat \<Rightarrow> 'q packet list \<Rightarrow> (nat \<times> 'q) list" where
  "msgs_of i [] = []"
| "msgs_of i (Mess t # ps) = (if fst t = i then t # msgs_of i ps else msgs_of i ps)"
| "msgs_of i (Ackn t # ps) = msgs_of i ps"

fun acks_of :: "'q packet list \<Rightarrow> (nat \<times> 'q) list" where
  "acks_of [] = []"
| "acks_of (Mess t # ps) = acks_of ps"
| "acks_of (Ackn t # ps) = t # acks_of ps"

lemma msgs_of_append [simp]: "msgs_of i (ps @ qs) = msgs_of i ps @ msgs_of i qs"
  by (induction i ps rule: msgs_of.induct) auto

lemma acks_of_append [simp]: "acks_of (ps @ qs) = acks_of ps @ acks_of qs"
  by (induction ps rule: acks_of.induct) auto

text \<open>The messages of a sender a process has: in the order, then held back.\<close>

definition known :: "'q seqr \<Rightarrow> nat \<Rightarrow> nat \<Rightarrow> (nat \<times> 'q) list" where
  "known s j i = of_sender i (ordered s j) @ held_back s j i"

text \<open>The steps of process \<open>x\<close>: what it takes from its link, what it puts on the next.\<close>

definition moved :: "nat \<Rightarrow> nat \<Rightarrow> 'q packet list \<Rightarrow> 'q packet list \<Rightarrow> (nat \<times> 'q) list \<Rightarrow> (nat \<Rightarrow> (nat \<times> 'q) list) \<Rightarrow> 'q seqr \<Rightarrow> 'q seqr" where
  "moved n x rest out ord hb s =
     \<lparr>ordered = (ordered s)(x := ord), held_back = (held_back s)(x := hb),
      link = (link s)(x := rest, next_on n x := link s (next_on n x) @ out)\<rparr>"

inductive seq_step :: "nat \<Rightarrow> 'q seqr \<Rightarrow> 'q seqr \<Rightarrow> bool" for n where
  lead_recv: "link s 0 = Mess (i, q) # rest \<Longrightarrow>
    seq_step n s (moved n 0 rest ((if i \<noteq> next_on n 0 then [Mess (i, q)] else []) @ [Ackn (i, q)])
      (ordered s 0 @ [(i, q)]) (held_back s 0) s)"
| recv: "x < n \<Longrightarrow> x \<noteq> 0 \<Longrightarrow> link s x = Mess (i, q) # rest \<Longrightarrow>
    seq_step n s (moved n x rest (if i \<noteq> next_on n x then [Mess (i, q)] else [])
      (ordered s x) ((held_back s x)(i := held_back s x i @ [(i, q)])) s)"
| ack: "x < n \<Longrightarrow> x \<noteq> 0 \<Longrightarrow> link s x = Ackn (i, q) # rest \<Longrightarrow> held_back s x i = t # ts \<Longrightarrow>
    seq_step n s (moved n x rest (if next_on n x \<noteq> 0 then [Ackn (i, q)] else [])
      (ordered s x @ [t]) ((held_back s x)(i := ts)) s)"
| lead_send: "seq_step n s (moved n 0 (link s 0) [Mess (0, q), Ackn (0, q)] (ordered s 0 @ [(0, q)]) (held_back s 0) s)"
| send: "x < n \<Longrightarrow> x \<noteq> 0 \<Longrightarrow>
    seq_step n s (moved n x (link s x) [Mess (x, q)] (ordered s x) ((held_back s x)(x := held_back s x x @ [(x, q)])) s)"

section \<open>The invariant\<close>

definition seq_inv :: "nat \<Rightarrow> 'q seqr \<Rightarrow> bool" where
  "seq_inv n s \<longleftrightarrow>
     (\<forall>j<n. \<forall>i<n. next_on n j \<noteq> i \<longrightarrow> known s (next_on n j) i @ msgs_of i (link s (next_on n j)) = known s j i) \<and>
     (\<forall>j<n. next_on n j \<noteq> 0 \<longrightarrow> ordered s (next_on n j) @ acks_of (link s (next_on n j)) = ordered s j) \<and>
     (\<forall>k<n. \<forall>i<n. \<forall>ps rest. k \<noteq> 0 \<longrightarrow> link s k = ps @ rest \<longrightarrow>
        length (of_sender i (ordered s k @ acks_of ps)) \<le> length (known s k i @ msgs_of i ps)) \<and>
     (\<forall>i<n. held_back s 0 i = []) \<and> acks_of (link s 0) = [] \<and>
     (\<forall>k<n. \<forall>t. (Mess t \<in> set (link s k) \<longrightarrow> fst t < n \<and> fst t \<noteq> k) \<and> (Ackn t \<in> set (link s k) \<longrightarrow> fst t < n)) \<and>
     (\<forall>k<n. \<forall>i<n. \<forall>t \<in> set (held_back s k i). fst t = i) \<and>
     (\<forall>k<n. \<forall>t \<in> set (ordered s k). fst t < n)"

lemma next_on_lt: "0 < n \<Longrightarrow> next_on n j < n"
  by (simp add: next_on_def)

lemma next_on_neq: "2 \<le> n \<Longrightarrow> j < n \<Longrightarrow> next_on n j \<noteq> j"
  by (cases "Suc j = n") (auto simp: next_on_def)

lemma next_on_eq_0: "0 < n \<Longrightarrow> j < n \<Longrightarrow> next_on n j = 0 \<longleftrightarrow> Suc j = n"
  by (cases "Suc j = n") (auto simp: next_on_def)

lemma next_on_inj: "j < n \<Longrightarrow> k < n \<Longrightarrow> next_on n j = next_on n k \<longleftrightarrow> j = k"
  by (cases "Suc j = n"; cases "Suc k = n") (auto simp: next_on_def)

text \<open>The chain from the leader, and from a sender.\<close>

lemma ordered_prefix:
  assumes "\<And>j. j < n \<Longrightarrow> next_on n j \<noteq> 0 \<Longrightarrow> ordered s (next_on n j) @ acks_of (link s (next_on n j)) = ordered s j" "k < n"
  shows "prefix (ordered s k) (ordered s 0)"
  using assms(2)
proof (induction k)
  case 0
  then show ?case by simp
next
  case (Suc k)
  have "next_on n k = Suc k" using Suc.prems by (simp add: next_on_def)
  then have "prefix (ordered s (Suc k)) (ordered s k)" using assms(1) [of k] Suc.prems by (metis Suc_lessD nat.discI prefixI)
  then show ?case using Suc by (meson Suc_lessD prefix_order.trans)
qed

lemma known_prefix:
  assumes "\<And>j. j < n \<Longrightarrow> next_on n j \<noteq> i \<Longrightarrow> known s (next_on n j) i @ msgs_of i (link s (next_on n j)) = known s j i"
    and "i < n" "j < n"
  shows "prefix (known s j i) (known s i i)"
proof -
  have "prefix (known s ((i + d) mod n) i) (known s i i)" if "d < n" for d
    using that
  proof (induction d)
    case 0
    then show ?case using assms(2) by simp
  next
    case (Suc d)
    let ?j = "(i + d) mod n"
    have nx: "next_on n ?j = (i + Suc d) mod n" by (simp add: next_on_def mod_Suc_eq)
    have "(i + Suc d) mod n \<noteq> i"
    proof (cases "i + Suc d < n")
      case False
      then have "(i + Suc d) mod n = i + Suc d - n" using assms(2) Suc.prems by (simp add: mod_if)
      then show ?thesis using Suc.prems False by linarith
    qed simp
    then have "prefix (known s ((i + Suc d) mod n) i) (known s ?j i)"
      using assms(1) [of ?j] assms(2) unfolding nx by (metis mod_less_divisor gr_implies_not0 gr0I prefixI)
    then show ?case using Suc by (meson Suc_lessD prefix_order.trans)
  qed
  moreover have "\<exists>d<n. (i + d) mod n = j"
  proof (cases "i \<le> j")
    case True
    then show ?thesis using assms(3) by (intro exI [of _ "j - i"]) simp
  next
    case False
    then show ?thesis using assms(2,3) by (intro exI [of _ "n + j - i"]) (simp add: mod_if)
  qed
  ultimately show ?thesis by blast
qed

lemma seq_invD:
  assumes "seq_inv n s"
  shows "\<And>j i. j < n \<Longrightarrow> i < n \<Longrightarrow> next_on n j \<noteq> i \<Longrightarrow> known s (next_on n j) i @ msgs_of i (link s (next_on n j)) = known s j i"
    and "\<And>j. j < n \<Longrightarrow> next_on n j \<noteq> 0 \<Longrightarrow> ordered s (next_on n j) @ acks_of (link s (next_on n j)) = ordered s j"
    and "\<And>k i ps rest. k < n \<Longrightarrow> i < n \<Longrightarrow> k \<noteq> 0 \<Longrightarrow> link s k = ps @ rest \<Longrightarrow>
        length (of_sender i (ordered s k @ acks_of ps)) \<le> length (known s k i @ msgs_of i ps)"
    and "\<And>i. i < n \<Longrightarrow> held_back s 0 i = []" and "acks_of (link s 0) = []"
    and "\<And>k t. k < n \<Longrightarrow> Mess t \<in> set (link s k) \<Longrightarrow> fst t < n \<and> fst t \<noteq> k"
    and "\<And>k t. k < n \<Longrightarrow> Ackn t \<in> set (link s k) \<Longrightarrow> fst t < n"
    and "\<And>k i t. k < n \<Longrightarrow> i < n \<Longrightarrow> t \<in> set (held_back s k i) \<Longrightarrow> fst t = i"
    and "\<And>k t. k < n \<Longrightarrow> t \<in> set (ordered s k) \<Longrightarrow> fst t < n"
proof -
  note c = assms [unfolded seq_inv_def]
  show "\<And>j i. j < n \<Longrightarrow> i < n \<Longrightarrow> next_on n j \<noteq> i \<Longrightarrow> known s (next_on n j) i @ msgs_of i (link s (next_on n j)) = known s j i"
    using conjunct1 [OF c] by blast
  note c = conjunct2 [OF c]
  show "\<And>j. j < n \<Longrightarrow> next_on n j \<noteq> 0 \<Longrightarrow> ordered s (next_on n j) @ acks_of (link s (next_on n j)) = ordered s j"
    using conjunct1 [OF c] by blast
  note c = conjunct2 [OF c]
  show "\<And>k i ps rest. k < n \<Longrightarrow> i < n \<Longrightarrow> k \<noteq> 0 \<Longrightarrow> link s k = ps @ rest \<Longrightarrow>
        length (of_sender i (ordered s k @ acks_of ps)) \<le> length (known s k i @ msgs_of i ps)"
    using conjunct1 [OF c] by blast
  note c = conjunct2 [OF c]
  show "\<And>i. i < n \<Longrightarrow> held_back s 0 i = []" using conjunct1 [OF c] by blast
  note c = conjunct2 [OF c]
  show "acks_of (link s 0) = []" by (rule conjunct1 [OF c])
  note c = conjunct2 [OF c]
  show "\<And>k t. k < n \<Longrightarrow> Mess t \<in> set (link s k) \<Longrightarrow> fst t < n \<and> fst t \<noteq> k"
    "\<And>k t. k < n \<Longrightarrow> Ackn t \<in> set (link s k) \<Longrightarrow> fst t < n" using conjunct1 [OF c] by blast+
  note c = conjunct2 [OF c]
  show "\<And>k i t. k < n \<Longrightarrow> i < n \<Longrightarrow> t \<in> set (held_back s k i) \<Longrightarrow> fst t = i" using conjunct1 [OF c] by blast
  show "\<And>k t. k < n \<Longrightarrow> t \<in> set (ordered s k) \<Longrightarrow> fst t < n" using conjunct2 [OF c] by blast
qed

lemma of_sender_simps [simp]:
  "of_sender i [] = []" "of_sender i (t # ts) = (if fst t = i then t # of_sender i ts else of_sender i ts)"
  "of_sender i (ts @ us) = of_sender i ts @ of_sender i us"
  by (simp_all add: of_sender_def)

lemma msgs_of_none: "(\<And>t. Mess t \<in> set ps \<Longrightarrow> fst t \<noteq> i) \<Longrightarrow> msgs_of i ps = []"
  by (induction i ps rule: msgs_of.induct) auto

lemma prefix_of_sender: "prefix ts us \<Longrightarrow> prefix (of_sender i ts) (of_sender i us)"
  by (auto simp: prefix_def)

text \<open>What has been ordered anywhere has come to the leader, and been sent.\<close>

lemma ordered_known:
  assumes "\<And>j. j < n \<Longrightarrow> next_on n j \<noteq> i \<Longrightarrow> known s (next_on n j) i @ msgs_of i (link s (next_on n j)) = known s j i"
    and "\<And>j. j < n \<Longrightarrow> next_on n j \<noteq> 0 \<Longrightarrow> ordered s (next_on n j) @ acks_of (link s (next_on n j)) = ordered s j"
    and "held_back s 0 i = []" "k < n" "i < n"
  shows "prefix (of_sender i (ordered s k)) (known s i i)"
proof -
  have "prefix (of_sender i (ordered s k)) (of_sender i (ordered s 0))"
    using ordered_prefix [OF assms(2,4)] by (rule prefix_of_sender) simp_all
  also have "of_sender i (ordered s 0) = known s 0 i" using assms(3) by (simp add: known_def)
  also have "prefix \<dots> (known s i i)" using assms(4,5) by (intro known_prefix [OF assms(1)]) auto
  finally show ?thesis .
qed

text \<open>A step that takes from the link what it has learnt, and passes it on with messages first,
  keeps the invariant.\<close>

lemma moved_inv:
  assumes inv: "seq_inv n s" and n: "2 \<le> n" and x: "x < n" and lk: "link s x = taken @ rest"
    and s': "s' = moved n x rest (ms @ as) ord hb s"
    and m: "acks_of ms = []" "\<And>i. msgs_of i as = []"
    and k1: "\<And>i. i < n \<Longrightarrow> i \<noteq> x \<Longrightarrow> known s' x i = known s x i @ msgs_of i taken"
    and k2: "\<And>i. i < n \<Longrightarrow> i \<noteq> next_on n x \<Longrightarrow> known s' x i = known s x i @ msgs_of i ms"
    and kx: "length (known s x x) \<le> length (known s' x x)"
    and o1: "x \<noteq> 0 \<Longrightarrow> ord = ordered s x @ acks_of taken"
    and o2: "if next_on n x = 0 then acks_of as = [] else ord = ordered s x @ acks_of as"
    and h0: "x = 0 \<Longrightarrow> hb = held_back s 0" and t0: "x = 0 \<Longrightarrow> acks_of rest = []"
    and pk: "\<And>t. Mess t \<in> set (ms @ as) \<Longrightarrow> fst t < n \<and> fst t \<noteq> next_on n x" "\<And>t. Ackn t \<in> set (ms @ as) \<Longrightarrow> fst t < n"
    and hb: "\<And>i t. i < n \<Longrightarrow> t \<in> set (hb i) \<Longrightarrow> fst t = i" and od: "\<And>t. t \<in> set ord \<Longrightarrow> fst t < n"
  shows "seq_inv n s'"
proof -
  let ?y = "next_on n x"
  have y: "?y \<noteq> x" "?y < n" using next_on_neq [OF n x] n by (simp_all add: next_on_lt)
  note I = seq_invD [OF inv]
  have o': "ordered s' x = ord" "held_back s' x = hb" "link s' x = rest" "link s' ?y = link s ?y @ ms @ as"
    "\<And>k. k \<noteq> x \<Longrightarrow> ordered s' k = ordered s k" "\<And>k. k \<noteq> x \<Longrightarrow> held_back s' k = held_back s k"
    "\<And>k. k \<noteq> x \<Longrightarrow> k \<noteq> ?y \<Longrightarrow> link s' k = link s k"
    using y by (simp_all add: s' moved_def)
  have kn: "known s' k i = known s k i" if "k \<noteq> x" for k i using that by (simp add: known_def o')
  have A: "known s' (next_on n j) i @ msgs_of i (link s' (next_on n j)) = known s' j i"
    if j: "j < n" and i: "i < n" and ne: "next_on n j \<noteq> i" for j i
  proof (cases "next_on n j = x")
    case True
    then have "j \<noteq> x" using next_on_neq [OF n j] by auto
    then show ?thesis using I(1) [OF j i ne] True k1 [OF i] ne by (simp add: kn o' lk)
  next
    case False
    show ?thesis
    proof (cases "j = x")
      case True
      then show ?thesis using I(1) [OF j i ne] k2 [OF i] ne y m(2) by (simp add: kn o')
    next
      case j': False
      then have "next_on n j \<noteq> ?y" using next_on_inj [OF j x] by simp
      then show ?thesis using I(1) [OF j i ne] False j' by (simp add: kn o')
    qed
  qed
  have B: "ordered s' (next_on n j) @ acks_of (link s' (next_on n j)) = ordered s' j" if j: "j < n" and ne: "next_on n j \<noteq> 0" for j
  proof (cases "next_on n j = x")
    case True
    then have "j \<noteq> x" using next_on_neq [OF n j] by auto
    then show ?thesis using I(2) [OF j ne] True o1 ne by (simp add: o' lk)
  next
    case False
    show ?thesis
    proof (cases "j = x")
      case True
      then show ?thesis using I(2) [OF j ne] o2 ne y m(1) by (simp add: o')
    next
      case j': False
      then have "next_on n j \<noteq> ?y" using next_on_inj [OF j x] by simp
      then show ?thesis using I(2) [OF j ne] False j' by (simp add: o')
    qed
  qed
  have H: "held_back s' 0 i = []" if "i < n" for i
    using I(4) [OF that] h0 o'(2,6) by (cases "x = 0") simp_all
  have C: "length (of_sender i (ordered s' k @ acks_of ps)) \<le> length (known s' k i @ msgs_of i ps)"
    if k: "k < n" "k \<noteq> 0" and i: "i < n" and l: "link s' k = ps @ more'" for k i ps more'
  proof (cases "k = x")
    case True
    have l': "link s x = (taken @ ps) @ more'" using l lk True by (simp add: o')
    have c: "length (of_sender i (ordered s x @ acks_of (taken @ ps))) \<le> length (known s x i @ msgs_of i (taken @ ps))"
      using I(3) [OF x i _ l'] k True by simp
    show ?thesis
    proof (cases "i = x")
      case False
      then show ?thesis using c k1 [OF i] o1 k True by (simp add: o')
    next
      case ix: True
      have "msgs_of i (taken @ ps) = []" using I(6) [OF x] ix unfolding l' by (intro msgs_of_none) auto
      then show ?thesis using c kx o1 k True ix by (simp add: o')
    qed
  next
    case kx': False
    show ?thesis
    proof (cases "k = ?y")
      case False
      then show ?thesis using I(3) [OF k(1) i k(2)] l kx' by (simp add: o' kn)
    next
      case ky: True
      from l consider us where "ps @ us = link s ?y" | us where "ps = link s ?y @ us" "us @ more' = ms @ as"
        unfolding ky o' by (auto simp: append_eq_append_conv2)
      then show ?thesis
      proof cases
        case 1
        then show ?thesis using I(3) [OF k(1) i k(2), of ps us] ky kx' by (simp add: o' kn)
      next
        case 2
        have ord: "ord = ordered s x @ acks_of as" "ordered s ?y @ acks_of (link s ?y) = ordered s x" using o2 I(2) [OF x] k(2) ky by simp_all
        have us: "acks_of us = [] \<or> msgs_of i us = msgs_of i ms" "prefix (acks_of us) (acks_of as)"
        proof -
          from 2(2) consider vs where "ms = us @ vs" | vs where "us = ms @ vs" "as = vs @ more'"
            by (auto simp: append_eq_append_conv2)
          then show "acks_of us = [] \<or> msgs_of i us = msgs_of i ms" "prefix (acks_of us) (acks_of as)"
            using m by (cases; simp; metis append_is_Nil_conv msgs_of_append)+
        qed
        have len: "length (of_sender i (ordered s x @ acks_of us)) \<le> length (of_sender i ord)"
          using us(2) unfolding ord(1) by (auto simp: prefix_def)
        have kx2: "length (of_sender i ord) \<le> length (known s' x i)" by (simp add: known_def o')
        have kx1: "length (of_sender i (ordered s x)) \<le> length (known s x i)" by (simp add: known_def)
        show ?thesis
        proof (cases "i = ?y")
          case False
          have "known s ?y i @ msgs_of i (link s ?y) = known s x i" by (rule I(1) [OF x i]) (use False in simp)
          then have "length (known s' k i @ msgs_of i ps) = length (known s x i @ msgs_of i us)"
            using ky kx' 2(1) by (metis append.assoc kn msgs_of_append)
          moreover have "length (of_sender i (ordered s x @ acks_of us)) \<le> length (known s x i @ msgs_of i us)"
            using us(1) len kx2 kx1 k2 [OF i False] by auto
          ultimately show ?thesis using ky kx' 2(1) ord(2) by (metis append.assoc acks_of_append o'(5))
        next
          case True
          have "prefix (of_sender i (ordered s' x)) (known s' i i)"
            by (rule ordered_known [OF A B H x i]) (use i in simp_all)
          then have "length (of_sender i ord) \<le> length (known s' i i)" using prefix_length_le by (fastforce simp: o')
          then have "length (of_sender i (ordered s x @ acks_of us)) \<le> length (known s' k i)" using len ky True by simp
          moreover have "ordered s' k @ acks_of ps = ordered s x @ acks_of us" using ky kx' 2(1) ord(2) by (metis append.assoc acks_of_append o'(5))
          ultimately show ?thesis by simp
        qed
      qed
    qed
  qed
  have L0: "acks_of (link s' 0) = []"
    using I(5) t0 o2 m(1) y o'(3,4) o'(7) [of 0] by (cases "x = 0"; cases "?y = 0") auto
  have P: "(Mess t \<in> set (link s' k) \<longrightarrow> fst t < n \<and> fst t \<noteq> k) \<and> (Ackn t \<in> set (link s' k) \<longrightarrow> fst t < n)" if "k < n" for k t
    using I(6,7) [OF that, of t] pk lk by (cases "k = x"; cases "k = ?y") (auto simp: o')
  have Q: "\<forall>t \<in> set (held_back s' k i). fst t = i" if "k < n" "i < n" for k i
    using I(8) [OF that] hb [OF that(2)] by (cases "k = x") (auto simp: o')
  have R: "\<forall>t \<in> set (ordered s' k). fst t < n" if "k < n" for k
    using I(9) [OF that] od by (cases "k = x") (auto simp: o')
  show ?thesis unfolding seq_inv_def using A B C H L0 P Q R by blast
qed

section \<open>Agreement\<close>

text \<open>The first message held back of the sender of an acknowledgement is the acknowledged one.\<close>

lemma ack_hits:
  assumes inv: "seq_inv n s" and k: "k < n" "k \<noteq> 0" and lk: "link s k = Ackn t # rest"
  obtains ts where "held_back s k (fst t) = t # ts"
proof -
  note I = seq_invD [OF inv]
  obtain j where j: "k = Suc j" "j < n" using k by (cases k) auto
  have nx: "next_on n j = k" using j k by (simp add: next_on_def)
  have i: "fst t < n" using I(7) [OF k(1)] lk by simp
  let ?i = "fst t" and ?a = "of_sender (fst t) (ordered s k)"
  have ord: "ordered s j = ordered s k @ t # acks_of rest" using I(2) [OF j(2)] nx k lk by simp
  have "prefix (of_sender ?i (ordered s j)) (known s ?i ?i)"
    by (rule ordered_known [OF I(1) I(2) I(4) [OF i] j(2) i]) (use i in simp_all)
  then have p: "prefix (?a @ [t]) (known s ?i ?i)" unfolding ord by (auto simp: prefix_def)
  have q: "prefix (?a @ held_back s k ?i) (known s ?i ?i)"
    using known_prefix [OF I(1) i k(1)] i by (simp add: known_def)
  have l1: "length (of_sender ?i (ordered s k @ acks_of [Ackn t])) \<le> length (known s k ?i @ msgs_of ?i [Ackn t])"
    by (rule I(3) [OF k(1) i k(2), of _ rest]) (simp add: lk)
  then have l: "length (?a @ [t]) \<le> length (?a @ held_back s k ?i)" by (simp add: known_def)
  have "prefix (?a @ [t]) (?a @ held_back s k ?i)" by (rule prefix_length_prefix [OF p q l])
  then show thesis using that by (auto simp: prefix_def)
qed

lemma seq_step_inv:
  assumes "seq_step n s s'" "seq_inv n s" and n: "2 \<le> n"
  shows "seq_inv n s'"
  using assms(1)
proof cases
  case (lead_recv i q rest)
  note I = seq_invD [OF assms(2)]
  have i: "i < n" "i \<noteq> 0" using I(6) [of 0 "(i, q)"] lead_recv n by auto
  let ?ms = "if i \<noteq> next_on n 0 then [Mess (i, q)] else []"
  show ?thesis
  proof (rule moved_inv [OF assms(2) n, of 0 "[Mess (i, q)]" rest _ ?ms "[Ackn (i, q)]"])
    show "acks_of rest = []" using I(5) lead_recv by simp
    show "fst t = j" if "j < n" "t \<in> set (held_back s 0 j)" for j t using I(8) [of 0 j t] n that by simp
    show "fst t < n" if "t \<in> set (ordered s 0 @ [(i, q)])" for t using I(9) [of 0 t] n that i by auto
    show "known s' 0 j = known s 0 j @ msgs_of j ?ms" if "j < n" "j \<noteq> next_on n 0" for j
      using I(4) [OF that(1)] that lead_recv by (simp add: known_def moved_def)
    show "known s' 0 j = known s 0 j @ msgs_of j [Mess (i, q)]" if "j < n" "j \<noteq> 0" for j
      using I(4) [OF that(1)] lead_recv by (simp add: known_def moved_def)
    show "fst t < n \<and> fst t \<noteq> next_on n 0" if "Mess t \<in> set (?ms @ [Ackn (i, q)])" for t using that i by (auto split: if_splits)
    show "fst t < n" if "Ackn t \<in> set (?ms @ [Ackn (i, q)])" for t using that i by (auto split: if_splits)
    show "length (known s 0 0) \<le> length (known s' 0 0)" using lead_recv by (simp add: known_def moved_def)
    show "if next_on n 0 = 0 then acks_of [Ackn (i, q)] = [] else ordered s 0 @ [(i, q)] = ordered s 0 @ acks_of [Ackn (i, q)]"
      using next_on_neq [OF n, of 0] n by simp
  qed (use n lead_recv in auto)
next
  case (recv x i q rest)
  note I = seq_invD [OF assms(2)]
  have i: "i < n" "i \<noteq> x" using I(6) [of x "(i, q)"] recv by auto
  let ?ms = "if i \<noteq> next_on n x then [Mess (i, q)] else []"
  show ?thesis
  proof (rule moved_inv [OF assms(2) n recv(2), of "[Mess (i, q)]" rest _ ?ms "[]"])
    show "fst t = j" if "j < n" "t \<in> set (((held_back s x)(i := held_back s x i @ [(i, q)])) j)" for j t
      using I(8) [of x j t] recv(2) that by (auto split: if_splits)
    show "fst t < n" if "t \<in> set (ordered s x)" for t using I(9) [OF recv(2) that] .
    show "known s' x j = known s x j @ msgs_of j ?ms" if "j < n" "j \<noteq> next_on n x" for j
      using that recv(1) by (auto simp: known_def moved_def)
    show "known s' x j = known s x j @ msgs_of j [Mess (i, q)]" if "j < n" "j \<noteq> x" for j
      using recv(1) by (auto simp: known_def moved_def)
    show "fst t < n \<and> fst t \<noteq> next_on n x" if "Mess t \<in> set (?ms @ [])" for t using that i by (auto split: if_splits)
    show "fst t < n" if "Ackn t \<in> set (?ms @ [])" for t using that i by (auto split: if_splits)
    show "length (known s x x) \<le> length (known s' x x)" using recv(1) i by (simp add: known_def moved_def)
    show "s' = moved n x rest (?ms @ []) (ordered s x) ((held_back s x)(i := held_back s x i @ [(i, q)])) s" using recv(1) by simp
  qed (use recv in auto)
next
  case (ack x i q rest t ts)
  note I = seq_invD [OF assms(2)]
  have i: "i < n" using I(7) [of x "(i, q)"] ack by auto
  have t: "t = (i, q)" using ack_hits [OF assms(2) ack(2-4)] ack(5) by (metis fst_conv list.inject)
  let ?as = "if next_on n x \<noteq> 0 then [Ackn (i, q)] else []"
  have kn: "known s' x j = known s x j" for j using ack(1,5) t by (simp add: known_def moved_def)
  show ?thesis
  proof (rule moved_inv [OF assms(2) n ack(2), of "[Ackn (i, q)]" rest _ "[]" ?as])
    show "fst u = j" if "j < n" "u \<in> set (((held_back s x)(i := ts)) j)" for j u
      using I(8) [of x j u] ack(2,5) that by (auto split: if_splits)
    show "fst u < n" if "u \<in> set (ordered s x @ [t])" for u using I(9) [OF ack(2), of u] that t i by auto
    show "fst u < n \<and> fst u \<noteq> next_on n x" if "Mess u \<in> set ([] @ ?as)" for u using that by (auto split: if_splits)
    show "fst u < n" if "Ackn u \<in> set ([] @ ?as)" for u using that i by (auto split: if_splits)
    show "s' = moved n x rest ([] @ ?as) (ordered s x @ [t]) ((held_back s x)(i := ts)) s" using ack(1) by simp
  qed (use ack kn t in auto)
next
  case (lead_send q)
  note I = seq_invD [OF assms(2)]
  show ?thesis
  proof (rule moved_inv [OF assms(2) n, of 0 "[]" "link s 0" _ "[Mess (0, q)]" "[Ackn (0, q)]"])
    show "acks_of (link s 0) = []" by (rule I(5))
    show "fst t = j" if "j < n" "t \<in> set (held_back s 0 j)" for j t using I(8) [of 0 j t] n that by simp
    show "fst t < n" if "t \<in> set (ordered s 0 @ [(0, q)])" for t using I(9) [of 0 t] n that by auto
    show "known s' 0 j = known s 0 j @ msgs_of j [Mess (0, q)]" if "j < n" "j \<noteq> next_on n 0" for j
      using I(4) [OF that(1)] lead_send by (simp add: known_def moved_def)
    show "known s' 0 j = known s 0 j @ msgs_of j []" if "j < n" "j \<noteq> 0" for j using lead_send that by (simp add: known_def moved_def)
    show "length (known s 0 0) \<le> length (known s' 0 0)" using lead_send by (simp add: known_def moved_def)
    show "if next_on n 0 = 0 then acks_of [Ackn (0, q)] = [] else ordered s 0 @ [(0, q)] = ordered s 0 @ acks_of [Ackn (0, q)]"
      using next_on_neq [OF n, of 0] n by simp
    show "fst t < n \<and> fst t \<noteq> next_on n 0" if "Mess t \<in> set ([Mess (0, q)] @ [Ackn (0, q)])" for t
      using that next_on_neq [OF n, of 0] n by auto
  qed (use n lead_send in auto)
next
  case (send x q)
  note I = seq_invD [OF assms(2)]
  show ?thesis
  proof (rule moved_inv [OF assms(2) n send(2), of "[]" "link s x" _ "[Mess (x, q)]" "[]"])
    show "fst t = j" if "j < n" "t \<in> set (((held_back s x)(x := held_back s x x @ [(x, q)])) j)" for j t
      using I(8) [of x j t] send(2) that by (auto split: if_splits)
    show "fst t < n" if "t \<in> set (ordered s x)" for t using I(9) [OF send(2) that] .
    show "known s' x j = known s x j @ msgs_of j [Mess (x, q)]" if "j < n" "j \<noteq> next_on n x" for j
      using send(1) by (auto simp: known_def moved_def)
    show "known s' x j = known s x j @ msgs_of j []" if "j < n" "j \<noteq> x" for j using send(1) that by (auto simp: known_def moved_def)
    show "fst t < n \<and> fst t \<noteq> next_on n x" if "Mess t \<in> set ([Mess (x, q)] @ [])" for t
      using that next_on_neq [OF n send(2)] send(2) by auto
    show "length (known s x x) \<le> length (known s' x x)" using send(1) by (simp add: known_def moved_def)
    show "s' = moved n x (link s x) ([Mess (x, q)] @ []) (ordered s x) ((held_back s x)(x := held_back s x x @ [(x, q)])) s" using send(1) by simp
  qed (use send in auto)
qed

lemma seq_inv_start: "0 < n \<Longrightarrow> seq_inv n \<lparr>ordered = (\<lambda>_. []), held_back = (\<lambda>_ _. []), link = (\<lambda>_. [])\<rparr>"
  by (simp add: seq_inv_def known_def)

lemma seq_agree: "seq_inv n s \<Longrightarrow> k < n \<Longrightarrow> prefix (ordered s k) (ordered s 0)"
  using ordered_prefix seq_invD(2) by metis

end
