(* ===== verification/BenchHandlers.thy ===== *)
theory BenchHandlers
  imports BenchInvariant RingTcp Sequencer
begin

text \<open>
  What the threads of a process of the ring benchmark do, in terms of the order and of the
  messages held back: the steps of \<open>Sequencer\<close>.
\<close>

section \<open>Messages\<close>

definition bcast :: "nat \<Rightarrow> byte list \<Rightarrow> bool" where
  "bcast n b \<longleftrightarrow> (\<exists>i q ak now pl. i < n \<and> b = enc_bcast (of_nat i) q ak now pl \<and> length b < 2 ^ 31)"

lemma length_enc_bcast [simp]: "length (enc_bcast pid q ak now pl) = 23 + length pl"
  by (simp add: enc_bcast_def)

lemma length_enc_ack [simp]: "length (enc_ack pid q rv) = 15"
  by (simp add: enc_ack_def)

lemma holds_enc_bcast:
  "holds (enc_bcast pid q ak now pl) 0 (to_bytes 4 (c_int (23 + length pl)))"
  "holds (enc_bcast pid q ak now pl) 4 [98]"
  "holds (enc_bcast pid q ak now pl) 5 (to_bytes 2 pid)"
  "holds (enc_bcast pid q ak now pl) 7 (to_bytes 4 q)"
  "holds (enc_bcast pid q ak now pl) 11 (to_bytes 4 ak)"
  "holds (enc_bcast pid q ak now pl) 15 (to_bytes 8 now)"
proof -
  have "holds (enc_bcast pid q ak now pl) 0 (enc_bcast pid q ak now pl)" by (rule holds_whole)
  then have "holds (enc_bcast pid q ak now pl) 0
    (to_bytes 4 (c_int (23 + length pl)) @ [98] @ to_bytes 2 pid @ to_bytes 4 q @ to_bytes 4 ak @ to_bytes 8 now @ pl)"
    unfolding enc_bcast_def .
  then show "holds (enc_bcast pid q ak now pl) 0 (to_bytes 4 (c_int (23 + length pl)))"
    "holds (enc_bcast pid q ak now pl) 4 [98]" "holds (enc_bcast pid q ak now pl) 5 (to_bytes 2 pid)"
    "holds (enc_bcast pid q ak now pl) 7 (to_bytes 4 q)" "holds (enc_bcast pid q ak now pl) 11 (to_bytes 4 ak)"
    "holds (enc_bcast pid q ak now pl) 15 (to_bytes 8 now)"
    unfolding holds_append by simp_all
qed

lemma holds_enc_ack:
  "holds (enc_ack pid q rv) 0 (to_bytes 4 (c_int 15))" "holds (enc_ack pid q rv) 4 [97]"
  "holds (enc_ack pid q rv) 5 (to_bytes 2 pid)" "holds (enc_ack pid q rv) 7 (to_bytes 4 q)"
  "holds (enc_ack pid q rv) 11 (to_bytes 4 rv)"
proof -
  have "holds (enc_ack pid q rv) 0 (enc_ack pid q rv)" by (rule holds_whole)
  then have "holds (enc_ack pid q rv) 0 (to_bytes 4 (c_int 15) @ [97] @ to_bytes 2 pid @ to_bytes 4 q @ to_bytes 4 rv)"
    unfolding enc_ack_def ACK_SIZE_def .
  then show "holds (enc_ack pid q rv) 0 (to_bytes 4 (c_int 15))" "holds (enc_ack pid q rv) 4 [97]"
    "holds (enc_ack pid q rv) 5 (to_bytes 2 pid)" "holds (enc_ack pid q rv) 7 (to_bytes 4 q)"
    "holds (enc_ack pid q rv) 11 (to_bytes 4 rv)"
    unfolding holds_append by simp_all
qed

lemma holds_tag: "holds b 5 (to_bytes 2 pid) \<Longrightarrow> holds b 7 (to_bytes 4 q) \<Longrightarrow> tag_of b = (pid, q)"
  by (simp add: tag_of_def holds_iff of_to_bytes)

lemma tag_of_bcast [simp]: "tag_of (enc_bcast pid q ak now pl) = (pid, q)"
  by (intro holds_tag holds_enc_bcast)

lemma unat_len: "k < 2 ^ 31 \<Longrightarrow> unat (scast (c_int k) :: 64 word) = k"
  using uint_scast_c_int [of k] by (metis nat_int unat_eq_nat_uint)

definition tcp :: "nat \<Rightarrow> fmt" where
  "tcp n = (bcast n, \<lambda>b. atag (tag_of b))"

lemma tcp_simps [simp]: "fst (tcp n) b = bcast n b" "snd (tcp n) b = atag (tag_of b)"
  by (simp_all add: tcp_def)

text \<open>Sending what a buffer's length says sends the buffer.\<close>

lemma broadcast_whole:
  assumes "get_buffer (Some p) s = Inr b" "holds b 0 (to_bytes 4 (c_int (length b)))" "length b < 2 ^ 31" "fine \<Longrightarrow> answers s = []"
  shows "okE fine (broadcast_msg (Some p) s) (\<lambda>s'. s' = s\<lparr>outgoing := outgoing s @ [b], answers := tl (answers s)\<rparr>)"
proof -
  have "rd b 0 (length b) = Inr b" by (simp add: rd_def)
  then show ?thesis
    using assms by (auto simp: broadcast_msg_def wire unat_len send_all_def Let_def intro!: okE_assert)
qed

lemma update_vector_ok:
  assumes V: "vector_laws V ct" and w: "well fine n (tcp n) ct s qs" and i: "i < n" and b: "objs s p = Some (Buffer (enc_bcast (of_nat i) q ak now pl))"
  obtains s' qs' where "update_vector V (Some p) s = Inr s'" "same s s'" "well fine n (tcp n) ct s' qs'" "hb n (tcp n) ct s' = hb n (tcp n) ct s"
    "ord (tcp n) ct s' qs' = ord (tcp n) ct s qs" "used n ct s' qs' = used n ct s qs" "objs s' p = objs s p" "next_obj s' = next_obj s"
proof -
  let ?known = "\<lambda>i. sint (word_of_int i + highestDelivered s) \<le> sint ak"
  obtain s' qs' where s': "bindE (clear_bits V ?known (of_nat i) s)
      (\<lambda>s1. deliver_ready (nat (numberOfElt V (vector_ack s1))) V s1) = Inr s'" "same s s'" "well fine n (tcp n) ct s' qs'"
    "hb n (tcp n) ct s' = hb n (tcp n) ct s" "ord (tcp n) ct s' qs' = ord (tcp n) ct s qs" "used n ct s' qs' = used n ct s qs"
    "\<And>p b. objs s p = Some (Buffer b) \<Longrightarrow> objs s' p = Some (Buffer b)" "next_obj s' = next_obj s"
    by (rule update_loops_ok [OF V w i, of ?known]) (rule that)
  have "objs s' p = objs s p" unfolding b by (rule s'(7) [OF b])
  moreover have "update_vector V (Some p) s = Inr s'"
    using b s'(1) by (simp add: update_vector_def id_process_def ack_of_def get_buffer_def holds_rd_short [OF holds_enc_bcast(3)] holds_rd_int [OF holds_enc_bcast(5)])
  ultimately show thesis by (intro that [OF _ s'(2-6) _ s'(8)])
qed

lemma get_predecessor_iff:
  assumes "2 \<le> n" "n \<le> 5" "i < n" "j < n"
  shows "of_nat j \<noteq> get_predecessor (of_nat n) (of_nat i) \<longleftrightarrow> next_on n j \<noteq> i"
proof -
  have n: "n = 2 \<or> n = 3 \<or> n = 4 \<or> n = 5" using assms(1,2) by auto
  have i: "i = 0 \<or> i = 1 \<or> i = 2 \<or> i = 3 \<or> i = 4" using assms by auto
  have j: "j = 0 \<or> j = 1 \<or> j = 2 \<or> j = 3 \<or> j = 4" using assms by auto
  show ?thesis
    using n i j assms(3,4) by (elim disjE) (simp_all add: get_predecessor_def next_on_def)
qed

lemma get_buffer_Some: "objs s p = Some (Buffer b) \<Longrightarrow> get_buffer (Some p) s = Inr b"
  by (simp add: get_buffer_def)

lemma send_whole:
  assumes w: "well fine n (tcp n) ct s qs" and b: "objs s p = Some (Buffer b)" "holds b 0 (to_bytes 4 (c_int (length b)))" "length b < 2 ^ 31"
  shows "okE fine (broadcast_msg (Some p) s) (\<lambda>s'. well fine n (tcp n) ct s' qs \<and> used n ct s' qs = used n ct s qs \<and> hb n (tcp n) ct s' = hb n (tcp n) ct s \<and>
     ord (tcp n) ct s' qs = ord (tcp n) ct s qs \<and> steady s s' \<and> outgoing s' = outgoing s @ [b] \<and> ack_num s' = ack_num s \<and> seq_num s' = seq_num s \<and>
     objs s' = objs s \<and> next_obj s' = next_obj s)"
proof (rule okE_mono [OF broadcast_whole [OF get_buffer_Some [OF b(1)] b(2,3), of fine]])
  show "fine \<Longrightarrow> answers s = []" using wellD(11) [OF w] .
  fix s' assume s': "s' = s\<lparr>outgoing := outgoing s @ [b], answers := tl (answers s)\<rparr>"
  have "well fine n (tcp n) ct s' qs \<and> used n ct s' qs = used n ct s qs \<and> hb n (tcp n) ct s' = hb n (tcp n) ct s \<and> ord (tcp n) ct s' qs = ord (tcp n) ct s qs"
    using well_outside [OF w, of s'] wellD(10,11) [OF w] by (simp add: s')
  then show "well fine n (tcp n) ct s' qs \<and> used n ct s' qs = used n ct s qs \<and> hb n (tcp n) ct s' = hb n (tcp n) ct s \<and>
     ord (tcp n) ct s' qs = ord (tcp n) ct s qs \<and> steady s s' \<and> outgoing s' = outgoing s @ [b] \<and> ack_num s' = ack_num s \<and> seq_num s' = seq_num s \<and>
     objs s' = objs s \<and> next_obj s' = next_obj s"
    by (simp add: s' steady_def)
qed

lemma acknowledge_ok:
  assumes w: "well fine n (tcp n) ct s qs" and b: "objs s p = Some (Buffer (enc_bcast pid q ak now pl))"
  shows "okE fine (acknowledge (Some p) s) (\<lambda>s'. well fine n (tcp n) ct s' qs \<and> hb n (tcp n) ct s' = hb n (tcp n) ct s \<and> ord (tcp n) ct s' qs = ord (tcp n) ct s qs \<and>
     steady s s' \<and> outgoing s' = outgoing s @ [enc_ack pid q (ack_num s + 1)] \<and> seq_num s' = seq_num s)"
proof -
  note W = wellD [OF w]
  let ?a = "next_obj s" and ?b = "enc_ack pid q (ack_num s + 1)"
  let ?s2 = "s\<lparr>ack_num := ack_num s + 1, objs := (objs s)(?a \<mapsto> Buffer ?b), next_obj := Suc ?a\<rparr>"
  have f: "well fine n (tcp n) ct ?s2 qs" "used n ct ?s2 qs = used n ct s qs" "hb n (tcp n) ct ?s2 = hb n (tcp n) ct s" "ord (tcp n) ct ?s2 qs = ord (tcp n) ct s qs"
    and fresh: "?a \<notin> set (used n ct s qs)"
    using well_alloc [OF w, of ?s2] by simp_all
  have "okE fine (bindE (broadcast_msg (Some ?a) ?s2) (free_obj (Some ?a))) (\<lambda>s'. well fine n (tcp n) ct s' qs \<and> hb n (tcp n) ct s' = hb n (tcp n) ct s \<and>
    ord (tcp n) ct s' qs = ord (tcp n) ct s qs \<and> steady s s' \<and> outgoing s' = outgoing s @ [?b] \<and> seq_num s' = seq_num s)"
  proof (rule okE_bind [OF send_whole [OF f(1), of ?a ?b]])
    show "holds ?b 0 (to_bytes 4 (c_int (length ?b)))" using holds_enc_ack(1) by simp
    fix s3 assume s3: "well fine n (tcp n) ct s3 qs \<and> used n ct s3 qs = used n ct ?s2 qs \<and> hb n (tcp n) ct s3 = hb n (tcp n) ct ?s2 \<and>
      ord (tcp n) ct s3 qs = ord (tcp n) ct ?s2 qs \<and> steady ?s2 s3 \<and> outgoing s3 = outgoing ?s2 @ [?b] \<and> ack_num s3 = ack_num ?s2 \<and> seq_num s3 = seq_num ?s2 \<and>
      objs s3 = objs ?s2 \<and> next_obj s3 = next_obj ?s2"
    let ?s4 = "s3\<lparr>objs := (objs s3)(?a := None)\<rparr>"
    have "well fine n (tcp n) ct ?s4 qs \<and> hb n (tcp n) ct ?s4 = hb n (tcp n) ct s3 \<and> ord (tcp n) ct ?s4 qs = ord (tcp n) ct s3 qs"
      using well_free [OF conjunct1 [OF s3], of ?a] fresh s3 f(2) by simp
    then show "okE fine (free_obj (Some ?a) s3) (\<lambda>s'. well fine n (tcp n) ct s' qs \<and> hb n (tcp n) ct s' = hb n (tcp n) ct s \<and> ord (tcp n) ct s' qs = ord (tcp n) ct s qs \<and> steady s s' \<and>
      outgoing s' = outgoing s @ [?b] \<and> seq_num s' = seq_num s)"
      using s3 f by (simp add: free_obj_def steady_def)
  qed simp_all
  then show ?thesis
    using b by (simp add: acknowledge_def id_process_def seq_of_def get_buffer_def holds_rd_short [OF holds_enc_bcast(3)]
      holds_rd_int [OF holds_enc_bcast(4)] prepare_ack_def alloc_obj_def broadcast_ack_def Let_def)
qed

lemma btag_bcast: "objs s p = Some (Buffer (enc_bcast (of_nat i) q ak now pl)) \<Longrightarrow> i < 5 \<Longrightarrow> btag (tcp n) (objs s) p = (i, q)"
  by (simp add: btag_def atag_def unat_id)

lemma is_msg_bcast:
  "objs s p = Some (Buffer (enc_bcast (of_nat i) q ak now pl)) \<Longrightarrow> i < n \<Longrightarrow> 23 + length pl < 2 ^ 31 \<Longrightarrow> is_msg (tcp n) (objs s) p"
  by (force simp: is_msg_def bcast_def)

lemma handle_msg_ok:
  assumes V: "vector_laws V ct" and w: "well fine n (tcp n) ct s qs" and roomy: "fine \<Longrightarrow> \<forall>e v. fst (addElt V e v) = 1"
    and i: "i < n" and j: "j < n" "self_id s = of_nat j"
    and p: "p \<notin> set (used n ct s qs)" "objs s p = Some (Buffer (enc_bcast (of_nat i) q ak now pl))" "23 + length pl < 2 ^ 31"
  shows "okE fine (handle_msg V (Some p) s) (\<lambda>s'. (\<exists>qs'. well fine n (tcp n) ct s' qs' \<and>
     ord (tcp n) ct s' qs' = ord (tcp n) ct s qs @ (if j = 0 then [(i, q)] else [])) \<and>
     hb n (tcp n) ct s' = (if j = 0 then hb n (tcp n) ct s else (hb n (tcp n) ct s)(i := hb n (tcp n) ct s i @ [(i, q)])) \<and>
     outgoing s' = outgoing s @ (if next_on n j \<noteq> i then [enc_bcast (of_nat i) q ak now pl] else []) @
       (if j = 0 then [enc_ack (of_nat i) q (ack_num s + 1)] else []) \<and> steady s s' \<and> seq_num s' = seq_num s)"
proof -
  note W = wellD [OF w]
  let ?b = "enc_bcast (of_nat i) q ak now pl"
  have i5: "i < 5" "j < 5" using i j W(2) by auto
  have zero: "self_id s = 0 \<longleftrightarrow> j = 0" using id_inject [of j 0] i5 j(2) by simp
  have fwd: "self_id s \<noteq> get_predecessor (num_nodes s) (of_nat i) \<longleftrightarrow> next_on n j \<noteq> i"
    using get_predecessor_iff [OF W(1,2) i j(1)] j(2) W(3) by simp
  let ?P = "\<lambda>s1. well fine n (tcp n) ct s1 qs \<and> used n ct s1 qs = used n ct s qs \<and> hb n (tcp n) ct s1 = hb n (tcp n) ct s \<and> ord (tcp n) ct s1 qs = ord (tcp n) ct s qs \<and> steady s s1 \<and>
     outgoing s1 = outgoing s @ (if next_on n j \<noteq> i then [?b] else []) \<and> ack_num s1 = ack_num s \<and> seq_num s1 = seq_num s \<and> objs s1 = objs s"
  have "okE fine (transfer_msg (Some p) s) (\<lambda>s1. next_on n j \<noteq> i \<longrightarrow> ?P s1)"
    unfolding transfer_msg_def
    by (rule okE_mono [OF send_whole [OF w p(2)]]) (use p(3) holds_enc_bcast(1) in auto)
  then have send: "okE fine (if self_id s \<noteq> get_predecessor (num_nodes s) (of_nat i) then transfer_msg (Some p) s else Inr s) ?P"
    unfolding fwd using w by (cases "next_on n j = i") simp_all
  have "okE fine (bindE (update_vector V (Some p) s1) (\<lambda>s2.
      if self_id s = 0 then bindE (save_msg_in_vector_ack V (Some p) s2) (acknowledge (Some p)) else save_msg_in_vector_No_ack V (Some p) s2))
     (\<lambda>s'. (\<exists>qs'. well fine n (tcp n) ct s' qs' \<and> ord (tcp n) ct s' qs' = ord (tcp n) ct s qs @ (if j = 0 then [(i, q)] else [])) \<and>
     hb n (tcp n) ct s' = (if j = 0 then hb n (tcp n) ct s else (hb n (tcp n) ct s)(i := hb n (tcp n) ct s i @ [(i, q)])) \<and>
     outgoing s' = outgoing s @ (if next_on n j \<noteq> i then [?b] else []) @
       (if j = 0 then [enc_ack (of_nat i) q (ack_num s + 1)] else []) \<and> steady s s' \<and> seq_num s' = seq_num s)" if s1: "?P s1" for s1
  proof -
    have b1: "objs s1 p = Some (Buffer ?b)" using s1 p(2) by simp
    obtain s2 qs2 where s2: "update_vector V (Some p) s1 = Inr s2" "same s1 s2" "well fine n (tcp n) ct s2 qs2" "hb n (tcp n) ct s2 = hb n (tcp n) ct s1"
      "ord (tcp n) ct s2 qs2 = ord (tcp n) ct s1 qs" "used n ct s2 qs2 = used n ct s1 qs" "objs s2 p = objs s1 p"
      by (rule update_vector_ok [OF V _ i b1, of fine qs]) (use s1 in blast)+
    have b2: "objs s2 p = Some (Buffer ?b)" using s2(7) b1 by simp
    have p2: "p \<notin> set (used n ct s2 qs2)" using p(1) s1 s2(6) by simp
    have m2: "is_msg (tcp n) (objs s2) p" by (rule is_msg_bcast [OF b2 i p(3)])
    have t2: "btag (tcp n) (objs s2) p = (i, q)" by (rule btag_bcast [OF b2 i5(1)])
    note S2 = same_steady [OF s2(2)]
    show ?thesis
    proof (cases "j = 0")
      case True
      have "okE fine (bindE (save_msg_in_vector_ack V (Some p) s2) (acknowledge (Some p))) (\<lambda>s'. well fine n (tcp n) ct s' qs2 \<and>
        ord (tcp n) ct s' qs2 = ord (tcp n) ct s qs @ [(i, q)] \<and> hb n (tcp n) ct s' = hb n (tcp n) ct s \<and>
        outgoing s' = outgoing s1 @ [enc_ack (of_nat i) q (ack_num s + 1)] \<and> steady s s' \<and> seq_num s' = seq_num s)"
      proof (rule okE_bind [OF save_ack_ok [OF V s2(3) roomy p2 m2]])
        fix s3 assume s3: "same s2 s3 \<and> well fine n (tcp n) ct s3 qs2 \<and> hb n (tcp n) ct s3 = hb n (tcp n) ct s2 \<and> ord (tcp n) ct s3 qs2 = ord (tcp n) ct s2 qs2 @ [btag (tcp n) (objs s2) p] \<and> objs s3 p = objs s2 p"
        have b3: "objs s3 p = Some (Buffer ?b)" using s3 b2 by simp
        show "okE fine (acknowledge (Some p) s3) (\<lambda>s'. well fine n (tcp n) ct s' qs2 \<and> ord (tcp n) ct s' qs2 = ord (tcp n) ct s qs @ [(i, q)] \<and> hb n (tcp n) ct s' = hb n (tcp n) ct s \<and>
          outgoing s' = outgoing s1 @ [enc_ack (of_nat i) q (ack_num s + 1)] \<and> steady s s' \<and> seq_num s' = seq_num s)"
          using s1 S2 s2(4,5) s3 same_steady [of s2 s3] t2
          by (intro okE_mono [OF acknowledge_ok [OF conjunct1 [OF conjunct2 [OF s3]] b3]]) (auto simp: steady_def)
      qed
      then have "okE fine (bindE (save_msg_in_vector_ack V (Some p) s2) (acknowledge (Some p)))
     (\<lambda>s'. (\<exists>qs'. well fine n (tcp n) ct s' qs' \<and> ord (tcp n) ct s' qs' = ord (tcp n) ct s qs @ (if j = 0 then [(i, q)] else [])) \<and>
     hb n (tcp n) ct s' = (if j = 0 then hb n (tcp n) ct s else (hb n (tcp n) ct s)(i := hb n (tcp n) ct s i @ [(i, q)])) \<and>
     outgoing s' = outgoing s @ (if next_on n j \<noteq> i then [?b] else []) @
       (if j = 0 then [enc_ack (of_nat i) q (ack_num s + 1)] else []) \<and> steady s s' \<and> seq_num s' = seq_num s)"
        by (rule okE_mono) (use True s1 in auto)
      then show ?thesis using True zero s2(1) by simp
    next
      case False
      have "okE fine (add_no_ack V (of_nat i) (Some p) s2) (\<lambda>s'. (\<exists>qs'. well fine n (tcp n) ct s' qs' \<and> ord (tcp n) ct s' qs' = ord (tcp n) ct s qs @ (if j = 0 then [(i, q)] else [])) \<and>
     hb n (tcp n) ct s' = (if j = 0 then hb n (tcp n) ct s else (hb n (tcp n) ct s)(i := hb n (tcp n) ct s i @ [(i, q)])) \<and>
     outgoing s' = outgoing s @ (if next_on n j \<noteq> i then [?b] else []) @
       (if j = 0 then [enc_ack (of_nat i) q (ack_num s + 1)] else []) \<and> steady s s' \<and> seq_num s' = seq_num s)"
        by (rule okE_mono [OF add_no_ack_ok [OF V s2(3) roomy p2 m2 i]]) (use False s1 S2 s2(4,5) t2 in \<open>auto simp: steady_def\<close>)
      moreover have "save_msg_in_vector_No_ack V (Some p) s2 = add_no_ack V (of_nat i) (Some p) s2"
        using b2 by (simp add: save_msg_in_vector_No_ack_def id_process_def get_buffer_def holds_rd_short [OF holds_enc_bcast(3)])
      ultimately show ?thesis using False zero s2(1) by simp
    qed
  qed
  then have "okE fine (bindE (if self_id s \<noteq> get_predecessor (num_nodes s) (of_nat i) then transfer_msg (Some p) s else Inr s) (\<lambda>s1.
     bindE (update_vector V (Some p) s1) (\<lambda>s2.
      if self_id s = 0 then bindE (save_msg_in_vector_ack V (Some p) s2) (acknowledge (Some p)) else save_msg_in_vector_No_ack V (Some p) s2)))
     (\<lambda>s'. (\<exists>qs'. well fine n (tcp n) ct s' qs' \<and> ord (tcp n) ct s' qs' = ord (tcp n) ct s qs @ (if j = 0 then [(i, q)] else [])) \<and>
     hb n (tcp n) ct s' = (if j = 0 then hb n (tcp n) ct s else (hb n (tcp n) ct s)(i := hb n (tcp n) ct s i @ [(i, q)])) \<and>
     outgoing s' = outgoing s @ (if next_on n j \<noteq> i then [?b] else []) @
       (if j = 0 then [enc_ack (of_nat i) q (ack_num s + 1)] else []) \<and> steady s s' \<and> seq_num s' = seq_num s)"
    by (rule okE_bind [OF send])
  then show ?thesis
    using p(2) by (simp add: handle_msg_def id_process_def get_buffer_def holds_rd_short [OF holds_enc_bcast(3)])
qed

lemma id_of_ack: "objs s p = Some (Buffer (enc_ack pid q rv)) \<Longrightarrow> id_process (Some p) s = Inr pid"
  "objs s p = Some (Buffer (enc_ack pid q rv)) \<Longrightarrow> ack_of (Some p) s = Inr rv"
  by (simp_all add: id_process_def ack_of_def get_buffer_def holds_rd_short [OF holds_enc_ack(3)] holds_rd_int [OF holds_enc_ack(5)])

lemma last_node:
  assumes "2 \<le> n" "n \<le> 5" "j < n"
  shows "c_mod (sint (of_nat j :: 16 word) + 1) (sint (of_nat n :: 32 word)) \<noteq> 0 \<longleftrightarrow> next_on n j \<noteq> 0"
    "(of_nat n :: 32 word) \<noteq> 0"
proof -
  have "sint (of_nat n :: 32 word) = int n" using assms by (simp add: signed_of_nat signed_take_bit_int_eq_self)
  moreover have "(int j + 1) mod int n = int (next_on n j)" by (simp add: next_on_def zmod_int add.commute)
  ultimately show "c_mod (sint (of_nat j :: 16 word) + 1) (sint (of_nat n :: 32 word)) \<noteq> 0 \<longleftrightarrow> next_on n j \<noteq> 0"
    using assms sint_id [of j] by (simp add: c_mod_nonneg)
  show "(of_nat n :: 32 word) \<noteq> 0"
    using \<open>sint (of_nat n :: 32 word) = int n\<close> assms(1) by auto
qed

lemma not_bcast_ack: "\<not> bcast n (enc_ack pid q rv)"
proof
  assume "bcast n (enc_ack pid q rv)"
  then obtain i q' ak now pl where "enc_ack pid q rv = enc_bcast (of_nat i) q' ak now pl" by (auto simp: bcast_def)
  then have "length (enc_ack pid q rv) = length (enc_bcast (of_nat i) q' ak now pl)" by (rule arg_cong)
  then show False by simp
qed

lemma handle_ack_ok:
  assumes V: "vector_laws V ct" and w: "well fine n (tcp n) ct s qs" and roomy: "fine \<Longrightarrow> \<forall>e v. fst (addElt V e v) = 1"
    and i: "i < n" and j: "j < n" "j \<noteq> 0" "self_id s = of_nat j" and h: "hb n (tcp n) ct s i = t # ts"
    and p: "p \<notin> set (used n ct s qs)" "objs s p = Some (Buffer (enc_ack (of_nat i) q rv))"
  shows "okE fine (bindE (handle_ack V (Some p) s) (free_obj (Some p))) (\<lambda>s'. well fine n (tcp n) ct s' qs \<and> ord (tcp n) ct s' qs = ord (tcp n) ct s qs @ [t] \<and>
     hb n (tcp n) ct s' = (hb n (tcp n) ct s)(i := ts) \<and> outgoing s' = outgoing s @ (if next_on n j \<noteq> 0 then [enc_ack (of_nat i) q rv] else []) \<and>
     steady s s' \<and> seq_num s' = seq_num s)"
proof -
  note W = wellD [OF w]
  let ?b = "enc_ack (of_nat i) q rv"
  let ?P = "\<lambda>s'. well fine n (tcp n) ct s' qs \<and> ord (tcp n) ct s' qs = ord (tcp n) ct s qs @ [t] \<and> hb n (tcp n) ct s' = (hb n (tcp n) ct s)(i := ts) \<and>
     outgoing s' = outgoing s @ (if next_on n j \<noteq> 0 then [?b] else []) \<and> steady s s' \<and> seq_num s' = seq_num s \<and>
     objs s' p = Some (Buffer ?b) \<and> p \<notin> set (used n ct s' qs)"
  have zero: "self_id s \<noteq> 0" using id_inject [of j 0] j W(2) by simp
  have pn: "p \<noteq> next_obj s" using W(10) [of "next_obj s"] p(2) by auto
  have "okE fine (bindE (move_first V (of_nat i) s) (\<lambda>s1. bindE (ack_of (Some p) s1) (\<lambda>r. let s2 = s1\<lparr>ack_num := r\<rparr>
           in if num_nodes s2 = 0 then Inl MemFault
              else if c_mod (sint (self_id s2) + 1) (sint (num_nodes s2)) \<noteq> 0 then transfer_ack (Some p) s2 else Inr s2))) ?P"
  proof (rule okE_bind [OF move_first_ok [OF V w roomy i h]])
    fix s1 assume s1: "same s s1 \<and> well fine n (tcp n) ct s1 qs \<and> hb n (tcp n) ct s1 = (hb n (tcp n) ct s)(i := ts) \<and> ord (tcp n) ct s1 qs = ord (tcp n) ct s qs @ [t] \<and>
      (\<forall>p. p \<noteq> next_obj s \<longrightarrow> objs s1 p = objs s p)"
    let ?s2 = "s1\<lparr>ack_num := rv\<rparr>"
    have w1: "well fine n (tcp n) ct s1 qs" and b1: "objs s1 p = Some (Buffer ?b)" using s1 pn p(2) by simp_all
    have f: "well fine n (tcp n) ct ?s2 qs" "used n ct ?s2 qs = used n ct s1 qs" "hb n (tcp n) ct ?s2 = hb n (tcp n) ct s1" "ord (tcp n) ct ?s2 qs = ord (tcp n) ct s1 qs"
      using well_outside [OF w1, of ?s2] wellD(10,11) [OF w1] by simp_all
    have nu: "p \<notin> set (used n ct s1 qs)" by (rule other_buffer_free [OF w1 b1]) (simp add: not_bcast_ack)
    have S1: "steady s s1" "outgoing s1 = outgoing s" "seq_num s1 = seq_num s" "self_id s1 = of_nat j" "num_nodes s1 = of_nat n"
      using conjunct1 [OF s1] j(3) W(3) by (simp_all add: same_def steady_def)
    show "okE fine (bindE (ack_of (Some p) s1) (\<lambda>r. let s2 = s1\<lparr>ack_num := r\<rparr>
           in if num_nodes s2 = 0 then Inl MemFault
              else if c_mod (sint (self_id s2) + 1) (sint (num_nodes s2)) \<noteq> 0 then transfer_ack (Some p) s2 else Inr s2)) ?P"
    proof (cases "next_on n j = 0")
      case True
      then show ?thesis
        using last_node [OF W(1,2) j(1)] id_of_ack(2) [OF b1] S1 s1 f nu b1 by (simp add: Let_def steady_def)
    next
      case False
      have "okE fine (transfer_ack (Some p) ?s2) ?P"
        unfolding transfer_ack_def
        by (rule okE_mono [OF send_whole [OF f(1), of p ?b]]) (use b1 holds_enc_ack(1) S1 s1 f nu False in \<open>auto simp: steady_def\<close>)
      then show ?thesis using False last_node [OF W(1,2) j(1)] id_of_ack(2) [OF b1] S1 by (simp add: Let_def)
    qed
  qed
  then have "okE fine (handle_ack V (Some p) s) ?P"
    using zero id_of_ack(1) [OF p(2)] by (simp add: handle_ack_def move_msg_in_vector_ack_def)
  then show ?thesis
  proof (rule okE_bind)
    fix s1 assume s1: "?P s1"
    then show "okE fine (free_obj (Some p) s1) (\<lambda>s'. well fine n (tcp n) ct s' qs \<and> ord (tcp n) ct s' qs = ord (tcp n) ct s qs @ [t] \<and>
     hb n (tcp n) ct s' = (hb n (tcp n) ct s)(i := ts) \<and> outgoing s' = outgoing s @ (if next_on n j \<noteq> 0 then [?b] else []) \<and> steady s s' \<and> seq_num s' = seq_num s)"
      using well_free [of fine n "tcp n" ct s1 qs p] by (simp add: free_obj_def steady_def)
  qed
qed

end
