(* ===== verification/BenchThreads.thy ===== *)
theory BenchThreads
  imports BenchHandlers
begin

text \<open>
  The turns of the threads of the ring benchmark: sending, receiving one message of the
  stream, delivering, starting and stopping.
\<close>

section \<open>Sending\<close>

lemma prepare_msg_enc:
  assumes "23 \<le> sint size_t"
  shows "prepare_msg pid q ak size_t now s = Inr (alloc_obj (Buffer (enc_bcast pid q ak now (replicate (nat (sint size_t) - 23) 0))) s)"
    "23 + length (replicate (nat (sint size_t) - 23) (0 :: byte)) < 2 ^ 31"
proof -
  have l: "23 + (nat (sint size_t) - 23) = nat (sint size_t)" using assms by linarith
  have "c_int (nat (sint size_t)) = size_t" using assms by (simp add: c_int_def)
  then show "prepare_msg pid q ak size_t now s = Inr (alloc_obj (Buffer (enc_bcast pid q ak now (replicate (nat (sint size_t) - 23) 0))) s)"
    using assms l by (simp add: prepare_msg_def sizeof_bcast_header_def enc_bcast_def)
  have "sint size_t < 2 ^ 31" using sint_lt [of size_t] by simp
  then show "23 + length (replicate (nat (sint size_t) - 23) (0 :: byte)) < 2 ^ 31" using assms by simp
qed

lemma send_msg_ok:
  fixes size_t :: "32 word"
  defines "pl \<equiv> replicate (nat (sint size_t) - 23) 0"
  assumes V: "vector_laws V ct" and w: "well fine n (tcp n) ct s qs" and roomy: "fine \<Longrightarrow> \<forall>e v. fst (addElt V e v) = 1"
    and j: "j < n" "self_id s = of_nat j" and size_t: "23 \<le> sint size_t"
  shows "okE fine (send_msg V size_t now s) (\<lambda>s'. (\<exists>qs'. well fine n (tcp n) ct s' qs' \<and>
     ord (tcp n) ct s' qs' = ord (tcp n) ct s qs @ (if j = 0 then [(j, seq_num s + 1)] else [])) \<and>
     hb n (tcp n) ct s' = (if j = 0 then hb n (tcp n) ct s else (hb n (tcp n) ct s)(j := hb n (tcp n) ct s j @ [(j, seq_num s + 1)])) \<and>
     outgoing s' = outgoing s @ [enc_bcast (of_nat j) (seq_num s + 1) (ack_num s) now pl] @
       (if j = 0 then [enc_ack (of_nat j) (seq_num s + 1) (ack_num s + 1)] else []) \<and> steady s s' \<and> seq_num s' = seq_num s + 1)"
proof -
  note W = wellD [OF w]
  let ?q = "seq_num s + 1" and ?p = "next_obj s"
  let ?b = "enc_bcast (of_nat j) ?q (ack_num s) now pl"
  let ?s0 = "s\<lparr>seq_num := ?q\<rparr>"
  let ?s1 = "s\<lparr>seq_num := ?q, objs := (objs s)(?p \<mapsto> Buffer ?b), next_obj := Suc ?p\<rparr>"
  let ?R = "\<lambda>s'. (\<exists>qs'. well fine n (tcp n) ct s' qs' \<and> ord (tcp n) ct s' qs' = ord (tcp n) ct s qs @ (if j = 0 then [(j, ?q)] else [])) \<and>
     hb n (tcp n) ct s' = (if j = 0 then hb n (tcp n) ct s else (hb n (tcp n) ct s)(j := hb n (tcp n) ct s j @ [(j, ?q)])) \<and>
     outgoing s' = outgoing s @ [?b] @ (if j = 0 then [enc_ack (of_nat j) ?q (ack_num s + 1)] else []) \<and> steady s s' \<and> seq_num s' = ?q"
  have j5: "j < 5" using j W(2) by simp
  have zero: "self_id s = 0 \<longleftrightarrow> j = 0" using id_inject [of j 0] j5 j(2) by simp
  have f: "well fine n (tcp n) ct ?s1 qs" "used n ct ?s1 qs = used n ct s qs" "hb n (tcp n) ct ?s1 = hb n (tcp n) ct s" "ord (tcp n) ct ?s1 qs = ord (tcp n) ct s qs"
    and fresh: "?p \<notin> set (used n ct s qs)"
    using well_alloc [OF w, of ?s1] by simp_all
  have pl: "23 + length pl < 2 ^ 31" unfolding pl_def by (rule prepare_msg_enc(2) [OF size_t])
  have prep: "prepare_msg (of_nat j) ?q (ack_num s) size_t now ?s0 = Inr (?p, ?s1)"
    unfolding pl_def by (subst prepare_msg_enc(1) [OF size_t]) (simp add: alloc_obj_def)
  have "okE fine (bindE (broadcast_msg (Some ?p) ?s1) (\<lambda>s2. if self_id s2 = 0
         then bindE (save_msg_in_vector_ack V (Some ?p) s2) (\<lambda>s3. bindE (update_vector V (Some ?p) s3) (acknowledge (Some ?p)))
         else save_msg_in_vector_No_ack V (Some ?p) s2)) ?R"
  proof (rule okE_bind [OF send_whole [OF f(1), of ?p ?b]])
    show "holds ?b 0 (to_bytes 4 (c_int (length ?b)))" using holds_enc_bcast(1) by simp
    show "length ?b < 2 ^ 31" using pl by simp
    fix s2 assume s2: "well fine n (tcp n) ct s2 qs \<and> used n ct s2 qs = used n ct ?s1 qs \<and> hb n (tcp n) ct s2 = hb n (tcp n) ct ?s1 \<and> ord (tcp n) ct s2 qs = ord (tcp n) ct ?s1 qs \<and>
      steady ?s1 s2 \<and> outgoing s2 = outgoing ?s1 @ [?b] \<and> ack_num s2 = ack_num ?s1 \<and> seq_num s2 = seq_num ?s1 \<and> objs s2 = objs ?s1 \<and> next_obj s2 = next_obj ?s1"
    have w2: "well fine n (tcp n) ct s2 qs" and o2: "objs s2 ?p = Some (Buffer ?b)" and u2: "?p \<notin> set (used n ct s2 qs)"
      and a2: "ack_num s2 = ack_num s" "seq_num s2 = ?q" "outgoing s2 = outgoing s @ [?b]" "steady ?s1 s2" "hb n (tcp n) ct s2 = hb n (tcp n) ct s" "ord (tcp n) ct s2 qs = ord (tcp n) ct s qs"
      using s2 fresh f by simp_all
    have id2: "self_id s2 = 0 \<longleftrightarrow> j = 0" "steady s s2" using a2(4) zero by (simp_all add: steady_def)
    have m2: "is_msg (tcp n) (objs s2) ?p" by (rule is_msg_bcast [OF o2 j(1) pl])
    have t2: "btag (tcp n) (objs s2) ?p = (j, ?q)" by (rule btag_bcast [OF o2 j5])
    show "okE fine (if self_id s2 = 0 then bindE (save_msg_in_vector_ack V (Some ?p) s2) (\<lambda>s3. bindE (update_vector V (Some ?p) s3) (acknowledge (Some ?p)))
         else save_msg_in_vector_No_ack V (Some ?p) s2) ?R"
    proof (cases "j = 0")
      case True
      have "okE fine (bindE (save_msg_in_vector_ack V (Some ?p) s2) (\<lambda>s3. bindE (update_vector V (Some ?p) s3) (acknowledge (Some ?p)))) ?R"
      proof (rule okE_bind [OF save_ack_ok [OF V w2 roomy u2 m2]])
        fix s3 assume s3: "same s2 s3 \<and> well fine n (tcp n) ct s3 qs \<and> hb n (tcp n) ct s3 = hb n (tcp n) ct s2 \<and> ord (tcp n) ct s3 qs = ord (tcp n) ct s2 qs @ [btag (tcp n) (objs s2) ?p] \<and> objs s3 ?p = objs s2 ?p"
        then have w3: "well fine n (tcp n) ct s3 qs" and b3: "objs s3 ?p = Some (Buffer ?b)" and sm3: "same s2 s3" using o2 by simp_all
        obtain s4 qs4 where s4: "update_vector V (Some ?p) s3 = Inr s4" "same s3 s4" "well fine n (tcp n) ct s4 qs4" "hb n (tcp n) ct s4 = hb n (tcp n) ct s3"
          "ord (tcp n) ct s4 qs4 = ord (tcp n) ct s3 qs" "objs s4 ?p = objs s3 ?p"
          by (rule update_vector_ok [OF V w3 j(1) b3])
        have b4: "objs s4 ?p = Some (Buffer ?b)" using s4(6) b3 by simp
        have e4: "hb n (tcp n) ct s4 = hb n (tcp n) ct s" "ord (tcp n) ct s4 qs4 = ord (tcp n) ct s qs @ [(j, ?q)]" using s4(4,5) s3 a2 t2 by simp_all
        have x4: "same s2 s4" by (rule same_trans [OF sm3 s4(2)])
        then have x4: "steady s s4" "outgoing s4 = outgoing s @ [?b]" "ack_num s4 = ack_num s" "seq_num s4 = ?q"
          using a2 id2(2) same_steady [OF x4] by (auto intro: steady_trans)
        have "okE fine (acknowledge (Some ?p) s4) ?R"
          by (rule okE_mono [OF acknowledge_ok [OF s4(3) b4]]) (use e4 x4 True steady_trans in auto)
        then show "okE fine (bindE (update_vector V (Some ?p) s3) (acknowledge (Some ?p))) ?R" using s4(1) by simp
      qed
      then show ?thesis using True id2 by simp
    next
      case False
      have "okE fine (add_no_ack V (of_nat j) (Some ?p) s2) ?R"
        by (rule okE_mono [OF add_no_ack_ok [OF V w2 roomy u2 m2 j(1)]]) (use False a2 id2 t2 in \<open>auto simp: steady_def\<close>)
      moreover have "save_msg_in_vector_No_ack V (Some ?p) s2 = add_no_ack V (of_nat j) (Some ?p) s2"
        using o2 by (simp add: save_msg_in_vector_No_ack_def id_process_def get_buffer_def holds_rd_short [OF holds_enc_bcast(3)])
      ultimately show ?thesis using False id2 by simp
    qed
  qed simp_all
  then show ?thesis using prep j(2) unfolding send_msg_def Let_def by simp
qed

section \<open>Delivering\<close>

lemma count_delivery_ok:
  assumes "bcast n b"
  obtains s' where "count_delivery b now s = Inr s'" "s' = s\<lparr>bcounters := bcounters s'\<rparr>"
proof -
  obtain i q ak t pl where b: "b = enc_bcast (of_nat i) q ak t pl" using assms by (auto simp: bcast_def)
  have "rd b 15 8 = Inr (to_bytes 8 t)" unfolding b by (rule holds_rd [OF holds_enc_bcast(6)]) simp
  then show thesis
    using that by (simp add: count_delivery_def b holds_rd_short [OF holds_enc_bcast(3)] holds_rd_int [OF holds_enc_bcast(1)] Let_def)
qed

lemma bench_deliver_ok:
  assumes w: "well fine n (tcp n) ct s (e # qs)"
  obtains s' where "deliver_turn now s = Inr s'" "well fine n (tcp n) ct s' qs" "ord (tcp n) ct s' qs = ord (tcp n) ct s (e # qs)" "hb n (tcp n) ct s' = hb n (tcp n) ct s"
    "outgoing s' = outgoing s" "seq_num s' = seq_num s" "self_id s' = self_id s" "my_sem s' = my_sem s" "bench.more s' = bench.more s"
    "\<exists>t. reported s' = reported s @ [t]"
proof -
  obtain q where q: "bqueueDequeue (deliveryQueue s) = Inr (Some e, q)" "brep q qs 0" by (rule brep_dequeue_Cons [OF wellD(6) [OF w]])
  obtain a b bs where o': "objs s e = Some (MsgInfo (Some a) b)" "objs s a = Some (Buffer bs)" "bcast n bs" and ea: "e \<noteq> a"
    by (rule first_info [OF w]) simp
  define s0 where "s0 = s\<lparr>deliveryQueue := q, reported := reported s @ [tag_of bs]\<rparr>"
  obtain s2 where s2: "(if mesurement_started s0 then count_delivery bs now s0 else Inr s0) = Inr s2" "s2 = s0\<lparr>bcounters := bcounters s2\<rparr>"
  proof (cases "mesurement_started s0")
    case True
    then show ?thesis by (metis that count_delivery_ok [OF o'(3)])
  qed (use that [of s0] in simp)
  define s' where "s' = s2\<lparr>objs := (objs s)(a := None, e := None)\<rparr>"
  have run: "deliver_turn now s = Inr s'"
  proof -
    have "objs s2 = objs s" by (subst s2(2)) (simp add: s0_def)
    then have "bindE (free_obj (Some a) s2) (free_obj (Some e)) = Inr s'" using o' ea by (simp add: free_obj_def s'_def)
    moreover have "get_info (Some e) (s\<lparr>deliveryQueue := q\<rparr>) = Inr (Some a, b)" "get_buffer (Some a) (s\<lparr>deliveryQueue := q\<rparr>) = Inr bs"
      using o' by (simp_all add: get_info_def get_buffer_def)
    ultimately show ?thesis using q(1) s2(1) unfolding deliver_turn_def s0_def by simp
  qed
  have F: "num_nodes s' = num_nodes s" "vector_no_ack s' = vector_no_ack s" "vector_ack s' = vector_ack s" "brep (deliveryQueue s') qs 0"
    "reported s' = reported s @ [tag_of bs]" "answers s' = answers s" "objs s' = (objs s)(a := None, e := None)" "next_obj s' = next_obj s"
    "outgoing s' = outgoing s" "seq_num s' = seq_num s" "self_id s' = self_id s" "my_sem s' = my_sem s" "bench.more s' = bench.more s"
    unfolding s'_def by (subst s2(2), simp add: s0_def q(2))+
  note D = well_delivered [OF w o'(1,2) F(1-5) _ F(6-8)]
  show thesis by (rule that [OF run D F(9-13)]) (use F(5) in auto)
qed

lemma deliver_turn_waits: "well fine n (tcp n) ct s [] \<Longrightarrow> deliver_turn now s = Inl Blocks"
proof -
  assume w: "well fine n (tcp n) ct s []"
  show ?thesis by (simp add: deliver_turn_def brep_dequeue_blocks [OF wellD(6) [OF w]])
qed

section \<open>Receiving\<close>

text \<open>The messages on a connection, their bytes, and what they are to the order.\<close>

datatype cpacket = CMess nat "32 word" "32 word" "64 word" "byte list" | CAck nat "32 word" "32 word" | COk byte

fun bytes_of :: "cpacket \<Rightarrow> byte list" where
  "bytes_of (CMess i q ak now pl) = enc_bcast (of_nat i) q ak now pl"
| "bytes_of (CAck i q rv) = enc_ack (of_nat i) q rv"
| "bytes_of (COk t) = enc_ok t"

fun abs_of :: "cpacket \<Rightarrow> 32 word packet list" where
  "abs_of (CMess i q ak now pl) = [Mess (i, q)]"
| "abs_of (CAck i q rv) = [Ackn (i, q)]"
| "abs_of (COk t) = []"

fun sendable :: "cpacket \<Rightarrow> bool" where
  "sendable (CMess i q ak now pl) \<longleftrightarrow> 23 + length pl < 2 ^ 31"
| "sendable (CAck i q rv) \<longleftrightarrow> True"
| "sendable (COk t) \<longleftrightarrow> t = 121 \<or> t = 110"

fun type_of :: "cpacket \<Rightarrow> byte" where
  "type_of (CMess i q ak now pl) = 98"
| "type_of (CAck i q rv) = 97"
| "type_of (COk t) = t"

lemma holds_enc_ok: "holds (enc_ok t) 0 (to_bytes 4 (c_int 5))" "holds (enc_ok t) 4 [t]" "length (enc_ok t) = 5"
proof -
  have "holds (enc_ok t) 0 (enc_ok t)" by (rule holds_whole)
  then have "holds (enc_ok t) 0 (to_bytes 4 (c_int 5) @ [t])" unfolding enc_ok_def .
  then show "holds (enc_ok t) 0 (to_bytes 4 (c_int 5))" "holds (enc_ok t) 4 [t]" unfolding holds_append by simp_all
  show "length (enc_ok t) = 5" by (simp add: enc_ok_def)
qed

lemma bytes_of_frame:
  assumes "sendable pk"
  shows "holds (bytes_of pk) 0 (to_bytes 4 (c_int (length (bytes_of pk))))" "holds (bytes_of pk) 4 [type_of pk]"
    "5 \<le> length (bytes_of pk)" "length (bytes_of pk) < 2 ^ 31"
  using assms holds_enc_bcast(1,2) holds_enc_ack(1,2) holds_enc_ok by (cases pk; simp)+

lemma process_msg_frame:
  assumes "sendable pk"
  shows "process_msg V ended (bytes_of pk @ rest) s =
    bindE (treat_type V (next_obj s) (type_of pk) (snd (alloc_obj (Buffer (bytes_of pk)) s))) (\<lambda>s'. Inr (rest, s'))"
proof -
  let ?b = "bytes_of pk"
  note f = bytes_of_frame [OF assms]
  have t: "take 4 ?b = to_bytes 4 (c_int (length ?b))" using f(1) by (simp add: holds_iff)
  then have len: "sint (of_bytes (take 4 ?b) :: 32 word) = int (length ?b)" using f(4) by (simp add: of_to_bytes sint_c_int)
  have r1: "recv_all 4 ended (?b @ rest) = Inr (take 4 ?b, drop 4 ?b @ rest)" using f(3) by (simp add: recv_all_def)
  have r2: "recv_all (length ?b - 4) ended (drop 4 ?b @ rest) = Inr (drop 4 ?b, rest)" by (simp add: recv_all_def)
  have c: "rd_char ?b 4 = Inr (type_of pk)" by (rule holds_rd_char [OF f(2)])
  show ?thesis
    unfolding process_msg_def r1 using len f(3) r2 c by (simp add: alloc_obj_def)
qed

lemma process_msg_waits: "process_msg V False [] s = Inl Blocks"
  by (simp add: process_msg_def recv_all_def)

text \<open>The outcomes: a message, an acknowledgement, a start or a stop.\<close>

lemma treat_mess:
  assumes V: "vector_laws V ct" and w: "well fine n (tcp n) ct s qs" and roomy: "fine \<Longrightarrow> \<forall>e v. fst (addElt V e v) = 1"
    and i: "i < n" and j: "j < n" "self_id s = of_nat j" and pl: "23 + length pl < 2 ^ 31"
  shows "okE fine (process_msg V ended (bytes_of (CMess i q ak now pl) @ rest) s) (\<lambda>(rest', s'). rest' = rest \<and> (\<exists>qs'. well fine n (tcp n) ct s' qs' \<and>
     ord (tcp n) ct s' qs' = ord (tcp n) ct s qs @ (if j = 0 then [(i, q)] else [])) \<and>
     hb n (tcp n) ct s' = (if j = 0 then hb n (tcp n) ct s else (hb n (tcp n) ct s)(i := hb n (tcp n) ct s i @ [(i, q)])) \<and>
     outgoing s' = outgoing s @ map bytes_of ((if next_on n j \<noteq> i then [CMess i q ak now pl] else []) @
       (if j = 0 then [CAck i q (ack_num s + 1)] else [])) \<and> steady s s' \<and> seq_num s' = seq_num s)"
proof -
  let ?b = "bytes_of (CMess i q ak now pl)"
  let ?s1 = "s\<lparr>objs := (objs s)(next_obj s \<mapsto> Buffer ?b), next_obj := Suc (next_obj s)\<rparr>"
  have f: "well fine n (tcp n) ct ?s1 qs" "used n ct ?s1 qs = used n ct s qs" "hb n (tcp n) ct ?s1 = hb n (tcp n) ct s" "ord (tcp n) ct ?s1 qs = ord (tcp n) ct s qs"
    and fresh: "next_obj s \<notin> set (used n ct s qs)"
    using well_alloc [OF w, of ?s1] by simp_all
  have "okE fine (handle_msg V (Some (next_obj s)) ?s1) (\<lambda>s'. (\<exists>qs'. well fine n (tcp n) ct s' qs' \<and>
     ord (tcp n) ct s' qs' = ord (tcp n) ct s qs @ (if j = 0 then [(i, q)] else [])) \<and>
     hb n (tcp n) ct s' = (if j = 0 then hb n (tcp n) ct s else (hb n (tcp n) ct s)(i := hb n (tcp n) ct s i @ [(i, q)])) \<and>
     outgoing s' = outgoing s @ map bytes_of ((if next_on n j \<noteq> i then [CMess i q ak now pl] else []) @
       (if j = 0 then [CAck i q (ack_num s + 1)] else [])) \<and> steady s s' \<and> seq_num s' = seq_num s)"
    by (rule okE_mono [OF handle_msg_ok [OF V f(1) roomy i j(1), of "next_obj s" q ak now pl]])
      (use f fresh j pl in \<open>auto simp: steady_def\<close>)
  then have "okE fine (bindE (handle_msg V (Some (next_obj s)) ?s1) (\<lambda>s'. Inr (rest, s'))) (\<lambda>(rest', s'). rest' = rest \<and> (\<exists>qs'. well fine n (tcp n) ct s' qs' \<and>
     ord (tcp n) ct s' qs' = ord (tcp n) ct s qs @ (if j = 0 then [(i, q)] else [])) \<and>
     hb n (tcp n) ct s' = (if j = 0 then hb n (tcp n) ct s else (hb n (tcp n) ct s)(i := hb n (tcp n) ct s i @ [(i, q)])) \<and>
     outgoing s' = outgoing s @ map bytes_of ((if next_on n j \<noteq> i then [CMess i q ak now pl] else []) @
       (if j = 0 then [CAck i q (ack_num s + 1)] else [])) \<and> steady s s' \<and> seq_num s' = seq_num s)"
    by (rule okE_bind) simp
  then show ?thesis
    using pl by (subst process_msg_frame) (simp_all add: treat_type_def alloc_obj_def)
qed

lemma treat_ack:
  assumes V: "vector_laws V ct" and w: "well fine n (tcp n) ct s qs" and roomy: "fine \<Longrightarrow> \<forall>e v. fst (addElt V e v) = 1"
    and i: "i < n" and j: "j < n" "j \<noteq> 0" "self_id s = of_nat j" and h: "hb n (tcp n) ct s i = t # ts"
  shows "okE fine (process_msg V ended (bytes_of (CAck i q rv) @ rest) s) (\<lambda>(rest', s'). rest' = rest \<and> well fine n (tcp n) ct s' qs \<and>
     ord (tcp n) ct s' qs = ord (tcp n) ct s qs @ [t] \<and> hb n (tcp n) ct s' = (hb n (tcp n) ct s)(i := ts) \<and>
     outgoing s' = outgoing s @ map bytes_of (if next_on n j \<noteq> 0 then [CAck i q rv] else []) \<and> steady s s' \<and> seq_num s' = seq_num s)"
proof -
  let ?b = "bytes_of (CAck i q rv)"
  let ?s1 = "s\<lparr>objs := (objs s)(next_obj s \<mapsto> Buffer ?b), next_obj := Suc (next_obj s)\<rparr>"
  have f: "well fine n (tcp n) ct ?s1 qs" "used n ct ?s1 qs = used n ct s qs" "hb n (tcp n) ct ?s1 = hb n (tcp n) ct s" "ord (tcp n) ct ?s1 qs = ord (tcp n) ct s qs"
    and fresh: "next_obj s \<notin> set (used n ct s qs)"
    using well_alloc [OF w, of ?s1] by simp_all
  have "okE fine (bindE (handle_ack V (Some (next_obj s)) ?s1) (free_obj (Some (next_obj s)))) (\<lambda>s'. well fine n (tcp n) ct s' qs \<and>
     ord (tcp n) ct s' qs = ord (tcp n) ct s qs @ [t] \<and> hb n (tcp n) ct s' = (hb n (tcp n) ct s)(i := ts) \<and>
     outgoing s' = outgoing s @ map bytes_of (if next_on n j \<noteq> 0 then [CAck i q rv] else []) \<and> steady s s' \<and> seq_num s' = seq_num s)"
    by (rule okE_mono [OF handle_ack_ok [OF V f(1) roomy i j(1,2), of t ts "next_obj s" q rv]])
      (use f fresh j h in \<open>auto simp: steady_def\<close>)
  then have "okE fine (bindE (bindE (handle_ack V (Some (next_obj s)) ?s1) (free_obj (Some (next_obj s)))) (\<lambda>s'. Inr (rest, s'))) (\<lambda>(rest', s'). rest' = rest \<and> well fine n (tcp n) ct s' qs \<and>
     ord (tcp n) ct s' qs = ord (tcp n) ct s qs @ [t] \<and> hb n (tcp n) ct s' = (hb n (tcp n) ct s)(i := ts) \<and>
     outgoing s' = outgoing s @ map bytes_of (if next_on n j \<noteq> 0 then [CAck i q rv] else []) \<and> steady s s' \<and> seq_num s' = seq_num s)"
    by (rule okE_bind) simp
  then show ?thesis
    by (subst process_msg_frame) (simp_all add: treat_type_def alloc_obj_def)
qed

text \<open>Sending one of the two signs.\<close>

lemma send_sign:
  assumes w: "well fine n (tcp n) ct s qs"
  shows "okE fine (send_all b s) (\<lambda>s'. s' = s\<lparr>outgoing := outgoing s @ [b], answers := tl (answers s)\<rparr> \<and> well fine n (tcp n) ct s' qs \<and>
    ord (tcp n) ct s' qs = ord (tcp n) ct s qs \<and> hb n (tcp n) ct s' = hb n (tcp n) ct s \<and> used n ct s' qs = used n ct s qs)"
proof -
  let ?s = "s\<lparr>outgoing := outgoing s @ [b], answers := tl (answers s)\<rparr>"
  have "well fine n (tcp n) ct ?s qs \<and> ord (tcp n) ct ?s qs = ord (tcp n) ct s qs \<and> hb n (tcp n) ct ?s = hb n (tcp n) ct s \<and> used n ct ?s qs = used n ct s qs"
    using well_outside [OF w, of ?s] wellD(10,11) [OF w] by simp
  then show ?thesis using wellD(11) [OF w] unfolding send_all_def Let_def by (intro okE_assert) auto
qed

end
