(* ===== verification/BenchRing.thy ===== *)
theory BenchRing
  imports BenchThreads
begin

text \<open>
  The processes of the ring benchmark with the bytes on the connections between them, and the
  refinement of the sequencer of \<open>Sequencer\<close>.
\<close>

record 'v bench_ring =
  nodes_of :: "'v tcp_node list"
  conns :: "byte list list"

text \<open>What a process has sent goes to its successor.\<close>

definition flush_node :: "nat \<Rightarrow> 'v tcp_node \<Rightarrow> byte list \<Rightarrow> 'v bench_ring \<Rightarrow> 'v bench_ring" where
  "flush_node j s rest R =
     (let y = next_on (length (nodes_of R)) j; cs = (conns R)[j := rest]
      in R\<lparr>nodes_of := (nodes_of R)[j := s\<lparr>outgoing := []\<rparr>], conns := cs[y := cs ! y @ concat (outgoing s)]\<rparr>)"

text \<open>Whole turns of the threads, one after the other: \<open>BenchLocked\<close> shows that the turns of a
  process come to this when they exclude each other. The thread that sends has waited for the
  semaphore, which is posted when the first sign comes.\<close>

inductive bench_step :: "'v vector_ops \<Rightarrow> 32 word \<Rightarrow> 'v bench_ring \<Rightarrow> 'v bench_ring \<Rightarrow> bool" for V size_t where
  receive: "j < length (nodes_of R) \<Longrightarrow> \<not> stopped (nodes_of R ! j) \<Longrightarrow>
    process_msg V False (conns R ! j) (nodes_of R ! j) = Inr (rest, s) \<Longrightarrow> bench_step V size_t R (flush_node j s rest R)"
| send: "j < length (nodes_of R) \<Longrightarrow> started (nodes_of R ! j) \<Longrightarrow> send_msg V size_t now (nodes_of R ! j) = Inr s \<Longrightarrow>
    bench_step V size_t R (flush_node j s (conns R ! j) R)"
| deliver: "j < length (nodes_of R) \<Longrightarrow> deliver_turn now (nodes_of R ! j) = Inr s \<Longrightarrow>
    bench_step V size_t R (flush_node j s (conns R ! j) R)"
| lead: "nodes_of R \<noteq> [] \<Longrightarrow> main_turn k (nodes_of R ! 0) = Inr s \<Longrightarrow> bench_step V size_t R (flush_node 0 s (conns R ! 0) R)"

definition bench_run :: "'v vector_ops \<Rightarrow> 32 word \<Rightarrow> 'v bench_ring \<Rightarrow> 'v bench_ring \<Rightarrow> bool" where
  "bench_run V size_t = (bench_step V size_t)\<^sup>*\<^sup>*"

definition bench_start :: "'v vector_ops \<Rightarrow> nat \<Rightarrow> 'v bench_ring \<Rightarrow> bool" where
  "bench_start V n R \<longleftrightarrow> length (nodes_of R) = n \<and> conns R = replicate n [] \<and>
     (\<forall>j<n. initialize V (of_nat j) (of_nat n) = Inr (nodes_of R ! j))"

section \<open>Refinement\<close>

definition shows_node :: "bool \<Rightarrow> nat \<Rightarrow> ('v \<Rightarrow> nat list) \<Rightarrow> nat \<Rightarrow> 'v tcp_node \<Rightarrow> byte list \<Rightarrow> cpacket list \<Rightarrow> 32 word seqr \<Rightarrow> bool" where
  "shows_node fine n ct j s bs ps S \<longleftrightarrow>
     (\<exists>qs. well fine n (tcp n) ct s qs \<and> ordered S j = ord (tcp n) ct s qs) \<and> self_id s = of_nat j \<and> outgoing s = [] \<and>
     held_back S j = hb n (tcp n) ct s \<and> bs = concat (map bytes_of ps) \<and> link S j = concat (map abs_of ps) \<and> list_all sendable ps \<and>
     (\<exists>m. known S j j = map (\<lambda>k. (j, of_nat (Suc k))) [0..<m] \<and> seq_num s = of_nat m)"

definition refines :: "bool \<Rightarrow> nat \<Rightarrow> ('v \<Rightarrow> nat list) \<Rightarrow> 'v bench_ring \<Rightarrow> 32 word seqr \<Rightarrow> bool" where
  "refines fine n ct R S \<longleftrightarrow> 2 \<le> n \<and> n \<le> 5 \<and> length (nodes_of R) = n \<and> length (conns R) = n \<and> seq_inv n S \<and>
     (\<forall>j<n. \<exists>ps. shows_node fine n ct j (nodes_of R ! j) (conns R ! j) ps S)"

text \<open>A turn that shows as a step, from a process to its successor.\<close>

lemma refines_moved:
  assumes r: "refines fine n ct R S" and j: "j < n" and ps: "shows_node fine n ct j (nodes_of R ! j) (conns R ! j) ps S"
    and s: "well fine n (tcp n) ct s qs" "self_id s = of_nat j" "outgoing s = map bytes_of out" "list_all sendable out" "list_all sendable ps'"
    and S': "seq_inv n S'" "S' = moved n j (concat (map abs_of ps')) (concat (map abs_of out)) (ord (tcp n) ct s qs) (hb n (tcp n) ct s) S"
    and num: "\<exists>m. known S' j j = map (\<lambda>k. (j, of_nat (Suc k))) [0..<m] \<and> seq_num s = of_nat m"
  shows "refines fine n ct (flush_node j s (concat (map bytes_of ps')) R) S'"
proof -
  have R: "2 \<le> n" "n \<le> 5" "length (nodes_of R) = n" "length (conns R) = n" using r by (simp_all add: refines_def)
  let ?y = "next_on n j" and ?R = "flush_node j s (concat (map bytes_of ps')) R"
  have y: "?y < n" "?y \<noteq> j" using R(1) j by (simp_all add: next_on_lt next_on_neq)
  have R': "nodes_of ?R = (nodes_of R)[j := s\<lparr>outgoing := []\<rparr>]" "length (conns ?R) = n" "conns ?R ! j = concat (map bytes_of ps')"
    "conns ?R ! ?y = conns R ! ?y @ concat (map bytes_of out)" "\<And>k. k \<noteq> j \<Longrightarrow> k \<noteq> ?y \<Longrightarrow> conns ?R ! k = conns R ! k"
    using R y j s(3) by (simp_all add: flush_node_def Let_def)
  have "\<exists>ps. shows_node fine n ct k (nodes_of ?R ! k) (conns ?R ! k) ps S'" if k: "k < n" for k
  proof (cases "k = j")
    case True
    let ?s = "s\<lparr>outgoing := []\<rparr>"
    have f: "well fine n (tcp n) ct ?s qs" "hb n (tcp n) ct ?s = hb n (tcp n) ct s" "ord (tcp n) ct ?s qs = ord (tcp n) ct s qs"
      using well_outside [OF s(1), of ?s] wellD(10,11) [OF s(1)] by simp_all
    have "shows_node fine n ct j ?s (concat (map bytes_of ps')) ps' S'"
      using f s num y(2) unfolding shows_node_def by (auto simp: S'(2) moved_def)
    then show ?thesis using True R' R k by auto
  next
    case False
    obtain ps0 where p: "shows_node fine n ct k (nodes_of R ! k) (conns R ! k) ps0 S" using r k by (auto simp: refines_def)
    have kn: "known S' k k = known S k k" "ordered S' k = ordered S k" "held_back S' k = held_back S k" using False by (simp_all add: known_def S'(2) moved_def)
    show ?thesis
    proof (cases "k = ?y")
      case True
      then have "shows_node fine n ct k (nodes_of R ! k) (conns R ! k @ concat (map bytes_of out)) (ps0 @ out) S'"
        using p s(4) kn False unfolding shows_node_def by (auto simp: S'(2) moved_def)
      then show ?thesis using True False R' by auto
    next
      case ky: False
      then have "shows_node fine n ct k (nodes_of R ! k) (conns R ! k) ps0 S'"
        using p kn False unfolding shows_node_def by (auto simp: S'(2) moved_def)
      then show ?thesis using False ky R' by auto
    qed
  qed
  then show ?thesis using R R'(1,2) S'(1) by (simp add: refines_def)
qed

lemma known_same:
  assumes "2 \<le> n" "S' = moved n j rest out od hbk S" "od = ordered S j @ o1" "of_sender j o1 @ hbk j = held_back S j j"
  shows "known S' j j = known S j j"
  using assms next_on_neq [of n j] by (simp add: known_def moved_def)

text \<open>A sign or a delivery changes nothing the order shows.\<close>

lemma treat_sign:
  assumes w: "well fine n (tcp n) ct s qs" and t: "t = 121 \<or> t = 110"
  shows "okE fine (process_msg V ended (bytes_of (COk t) @ rest) s) (\<lambda>(rest', s'). rest' = rest \<and> well fine n (tcp n) ct s' qs \<and>
     ord (tcp n) ct s' qs = ord (tcp n) ct s qs \<and> hb n (tcp n) ct s' = hb n (tcp n) ct s \<and> self_id s' = self_id s \<and> seq_num s' = seq_num s \<and>
     (\<exists>out. list_all sendable out \<and> concat (map abs_of out) = [] \<and> outgoing s' = outgoing s @ map bytes_of out))"
    (is "okE fine _ (\<lambda>(rest', s'). rest' = rest \<and> ?P s')")
proof -
  let ?p = "next_obj s"
  let ?s1 = "s\<lparr>objs := (objs s)(?p \<mapsto> Buffer (enc_ok t)), next_obj := Suc ?p\<rparr>"
  have f: "well fine n (tcp n) ct ?s1 qs" "used n ct ?s1 qs = used n ct s qs" "hb n (tcp n) ct ?s1 = hb n (tcp n) ct s" "ord (tcp n) ct ?s1 qs = ord (tcp n) ct s qs"
    and fresh: "?p \<notin> set (used n ct s qs)"
    using well_alloc [OF w, of ?s1] by simp_all
  have fr: "okE fine (free_obj (Some ?p) s2) ?P"
    if a: "well fine n (tcp n) ct s2 qs" "ord (tcp n) ct s2 qs = ord (tcp n) ct s qs" "hb n (tcp n) ct s2 = hb n (tcp n) ct s" "used n ct s2 qs = used n ct s qs"
      "objs s2 = objs ?s1" "self_id s2 = self_id s" "seq_num s2 = seq_num s" "outgoing s2 = outgoing s @ map bytes_of out"
      "list_all sendable out" "concat (map abs_of out) = []" for s2 :: "'a tcp_node" and out
    using well_free [of fine n "tcp n" ct s2 qs ?p] a fresh by (simp add: free_obj_def) blast
  have sg: "okE fine (if self_id ?s1 \<noteq> 0 then send_all (enc_ok t') ?s1 else Inr ?s1) (\<lambda>s2. well fine n (tcp n) ct s2 qs \<and> ord (tcp n) ct s2 qs = ord (tcp n) ct s qs \<and>
     hb n (tcp n) ct s2 = hb n (tcp n) ct s \<and> used n ct s2 qs = used n ct s qs \<and> objs s2 = objs ?s1 \<and> self_id s2 = self_id s \<and> seq_num s2 = seq_num s \<and>
     (\<exists>out. outgoing s2 = outgoing s @ map bytes_of out \<and> list_all sendable out \<and> concat (map abs_of out) = []))"
    if t': "t' = 121 \<or> t' = 110" for t'
  proof (cases "self_id s = 0")
    case True
    then show ?thesis using f by (auto intro!: exI [of _ "[]"])
  next
    case False
    have "okE fine (send_all (enc_ok t') ?s1) (\<lambda>s2. well fine n (tcp n) ct s2 qs \<and> ord (tcp n) ct s2 qs = ord (tcp n) ct s qs \<and>
     hb n (tcp n) ct s2 = hb n (tcp n) ct s \<and> used n ct s2 qs = used n ct s qs \<and> objs s2 = objs ?s1 \<and> self_id s2 = self_id s \<and> seq_num s2 = seq_num s \<and>
     (\<exists>out. outgoing s2 = outgoing s @ map bytes_of out \<and> list_all sendable out \<and> concat (map abs_of out) = []))"
      by (rule okE_mono [OF send_sign [OF f(1)]]) (use f t' in \<open>auto intro!: exI [of _ "[COk t']"]\<close>)
    then show ?thesis using False by simp
  qed
  have upd: "well fine n (tcp n) ct (s2\<lparr>my_sem := k\<rparr>) qs" "ord (tcp n) ct (s2\<lparr>my_sem := k\<rparr>) qs = ord (tcp n) ct s2 qs" "hb n (tcp n) ct (s2\<lparr>my_sem := k\<rparr>) = hb n (tcp n) ct s2"
    "used n ct (s2\<lparr>my_sem := k\<rparr>) qs = used n ct s2 qs" "well fine n (tcp n) ct (s2\<lparr>started := b\<rparr>) qs" "ord (tcp n) ct (s2\<lparr>started := b\<rparr>) qs = ord (tcp n) ct s2 qs"
    "hb n (tcp n) ct (s2\<lparr>started := b\<rparr>) = hb n (tcp n) ct s2" "used n ct (s2\<lparr>started := b\<rparr>) qs = used n ct s2 qs"
    "well fine n (tcp n) ct (s2\<lparr>stopped := b\<rparr>) qs" "ord (tcp n) ct (s2\<lparr>stopped := b\<rparr>) qs = ord (tcp n) ct s2 qs" "hb n (tcp n) ct (s2\<lparr>stopped := b\<rparr>) = hb n (tcp n) ct s2"
    if "well fine n (tcp n) ct s2 qs" for s2 :: "'a tcp_node" and k b
    using well_outside [OF that, of "s2\<lparr>my_sem := k\<rparr>"] well_outside [OF that, of "s2\<lparr>started := b\<rparr>"] well_outside [OF that, of "s2\<lparr>stopped := b\<rparr>"]
      wellD(10,11) [OF that] by simp_all
  have "okE fine (treat_type V ?p t ?s1) ?P"
  proof (cases "t = 121")
    case True
    have "okE fine (if started ?s1 then Inr ?s1 else bindE (if self_id ?s1 \<noteq> 0 then start_leader ?s1 else Inr ?s1) (\<lambda>s2. Inr (s2\<lparr>my_sem := Suc (my_sem s2)\<rparr>)))
      (\<lambda>s2. well fine n (tcp n) ct s2 qs \<and> ord (tcp n) ct s2 qs = ord (tcp n) ct s qs \<and>
     hb n (tcp n) ct s2 = hb n (tcp n) ct s \<and> used n ct s2 qs = used n ct s qs \<and> objs s2 = objs ?s1 \<and> self_id s2 = self_id s \<and> seq_num s2 = seq_num s \<and>
     (\<exists>out. outgoing s2 = outgoing s @ map bytes_of out \<and> list_all sendable out \<and> concat (map abs_of out) = []))"
    proof (cases "started s")
      case True
      then show ?thesis using f by (auto intro!: exI [of _ "[]"])
    next
      case False
      have "okE fine (bindE (if self_id ?s1 \<noteq> 0 then start_leader ?s1 else Inr ?s1) (\<lambda>s2. Inr (s2\<lparr>my_sem := Suc (my_sem s2)\<rparr>))) (\<lambda>s2. well fine n (tcp n) ct s2 qs \<and> ord (tcp n) ct s2 qs = ord (tcp n) ct s qs \<and>
     hb n (tcp n) ct s2 = hb n (tcp n) ct s \<and> used n ct s2 qs = used n ct s qs \<and> objs s2 = objs ?s1 \<and> self_id s2 = self_id s \<and> seq_num s2 = seq_num s \<and>
     (\<exists>out. outgoing s2 = outgoing s @ map bytes_of out \<and> list_all sendable out \<and> concat (map abs_of out) = []))"
        unfolding start_leader_def by (rule okE_bind [OF sg [of 121]]) (use upd in auto)
      then show ?thesis using False by simp
    qed
    then have "okE fine (bindE (if started ?s1 then Inr ?s1 else bindE (if self_id ?s1 \<noteq> 0 then start_leader ?s1 else Inr ?s1) (\<lambda>s2. Inr (s2\<lparr>my_sem := Suc (my_sem s2)\<rparr>)))
      (\<lambda>s3. free_obj (Some ?p) (s3\<lparr>started := True\<rparr>))) ?P"
    proof (rule okE_bind)
      fix s2 :: "'a tcp_node" assume a: "well fine n (tcp n) ct s2 qs \<and> ord (tcp n) ct s2 qs = ord (tcp n) ct s qs \<and>
     hb n (tcp n) ct s2 = hb n (tcp n) ct s \<and> used n ct s2 qs = used n ct s qs \<and> objs s2 = objs ?s1 \<and> self_id s2 = self_id s \<and> seq_num s2 = seq_num s \<and>
     (\<exists>out. outgoing s2 = outgoing s @ map bytes_of out \<and> list_all sendable out \<and> concat (map abs_of out) = [])"
      then obtain out where "outgoing s2 = outgoing s @ map bytes_of out" "list_all sendable out" "concat (map abs_of out) = []" by blast
      then show "okE fine (free_obj (Some ?p) (s2\<lparr>started := True\<rparr>)) ?P"
        using upd(5-8) [OF conjunct1 [OF a], of True] a by (intro fr [of _ out]) simp_all
    qed
    then show ?thesis unfolding treat_type_def if_P [OF True] .
  next
    case False
    then have t: "t = 110" using t by simp
    then have n98: "t \<noteq> 98" and n97: "t \<noteq> 97" by simp_all
    have "okE fine (bindE (if self_id ?s1 \<noteq> 0 then stop_leader ?s1 else Inr ?s1)
          (\<lambda>s2. bindE (free_obj (Some ?p) s2) (\<lambda>s3. Inr (s3\<lparr>stopped := True\<rparr>)))) ?P"
      unfolding stop_leader_def
    proof (rule okE_bind [OF sg [of 110]])
      fix s2 :: "'a tcp_node" assume a: "well fine n (tcp n) ct s2 qs \<and> ord (tcp n) ct s2 qs = ord (tcp n) ct s qs \<and>
     hb n (tcp n) ct s2 = hb n (tcp n) ct s \<and> used n ct s2 qs = used n ct s qs \<and> objs s2 = objs ?s1 \<and> self_id s2 = self_id s \<and> seq_num s2 = seq_num s \<and>
     (\<exists>out. outgoing s2 = outgoing s @ map bytes_of out \<and> list_all sendable out \<and> concat (map abs_of out) = [])"
      then obtain out where "outgoing s2 = outgoing s @ map bytes_of out" "list_all sendable out" "concat (map abs_of out) = []" by blast
      then have "okE fine (free_obj (Some ?p) s2) ?P" using a by (intro fr [of _ out]) simp_all
      then show "okE fine (bindE (free_obj (Some ?p) s2) (\<lambda>s3. Inr (s3\<lparr>stopped := True\<rparr>))) ?P"
        by (rule okE_bind) (use upd(9-11) in simp)
    qed simp
    then show ?thesis unfolding treat_type_def if_not_P [OF False] if_not_P [OF n98] if_not_P [OF n97] if_P [OF t] .
  qed
  then have "okE fine (bindE (treat_type V ?p t ?s1) (\<lambda>s'. Inr (rest, s'))) (\<lambda>(rest', s'). rest' = rest \<and> ?P s')"
    by (rule okE_bind) simp
  then show ?thesis using t by (subst process_msg_frame) (auto simp: alloc_obj_def)
qed

section \<open>Every turn is a step, or shows nothing\<close>

lemma moved_id: "2 \<le> n \<Longrightarrow> j < n \<Longrightarrow> moved n j (link S j) [] (ordered S j) (held_back S j) S = S"
  using next_on_neq [of n j] by (simp add: moved_def fun_upd_idem)

lemma okE_Inr_D: "okE fine r P \<Longrightarrow> r = Inr x \<Longrightarrow> P x"
  by simp

lemma receive_refines:
  assumes V: "vector_laws V ct" and roomy: "fine \<Longrightarrow> \<forall>e v. fst (addElt V e v) = 1"
    and r: "refines fine n ct R S" and j: "j < n" and run: "process_msg V ended (conns R ! j) (nodes_of R ! j) = Inr (rest, s)" "conns R ! j \<noteq> []"
  shows "\<exists>S'. (S' = S \<or> seq_step n S S') \<and> refines fine n ct (flush_node j s rest R) S'"
proof -
  let ?s = "nodes_of R ! j"
  have R: "2 \<le> n" "n \<le> 5" "seq_inv n S" using r by (simp_all add: refines_def)
  obtain ps where sh: "shows_node fine n ct j ?s (conns R ! j) ps S" using r j by (auto simp: refines_def)
  then obtain qs m where w: "well fine n (tcp n) ct ?s qs" "ordered S j = ord (tcp n) ct ?s qs" and me: "self_id ?s = of_nat j" "outgoing ?s = []" "held_back S j = hb n (tcp n) ct ?s"
    and bs: "conns R ! j = concat (map bytes_of ps)" and lk: "link S j = concat (map abs_of ps)" and sd: "list_all sendable ps"
    and num: "known S j j = map (\<lambda>k. (j, of_nat (Suc k))) [0..<m]" "seq_num ?s = of_nat m"
    unfolding shows_node_def by blast
  obtain pk ps' where ps: "ps = pk # ps'" using run(2) bs by (cases ps) auto
  have run': "process_msg V ended (bytes_of pk @ concat (map bytes_of ps')) ?s = Inr (rest, s)" using run(1) bs ps by simp
  have sd': "list_all sendable ps'" "sendable pk" using sd ps by simp_all
  note I = seq_invD [OF R(3)]
  have fin: "\<exists>S'. (S' = S \<or> seq_step n S S') \<and> refines fine n ct (flush_node j s rest R) S'"
    if a: "rest = concat (map bytes_of ps')" "well fine n (tcp n) ct s qs'" "self_id s = of_nat j" "seq_num s = seq_num ?s"
      "outgoing s = map bytes_of out" "list_all sendable out" "ord (tcp n) ct s qs' = ordered S j @ o1" "of_sender j o1 @ hb n (tcp n) ct s j = held_back S j j"
      "S' = moved n j (concat (map abs_of ps')) (concat (map abs_of out)) (ord (tcp n) ct s qs') (hb n (tcp n) ct s) S" "S' = S \<or> seq_step n S S'"
    for qs' out o1 S'
  proof -
    have inv: "seq_inv n S'" using a(10) R(3) seq_step_inv [OF _ R(3,1)] by blast
    have kn: "known S' j j = known S j j" by (rule known_same [OF R(1) a(9,7,8)])
    have "refines fine n ct (flush_node j s (concat (map bytes_of ps')) R) S'"
      by (rule refines_moved [OF r j sh a(2,3,5,6) sd'(1) inv a(9)]) (use kn num a(4) in auto)
    then show ?thesis using a(1,10) by blast
  qed
  show ?thesis
  proof (cases pk)
    case (CMess i q ak now pl)
    have "Mess (i, q) \<in> set (link S j)" using lk ps CMess by simp
    then have i: "i < n" "i \<noteq> j" using I(6) [OF j, of "(i, q)"] by auto
    have pl: "23 + length pl < 2 ^ 31" using sd'(2) CMess by simp
    have "okE fine (process_msg V ended (bytes_of pk @ concat (map bytes_of ps')) ?s) (\<lambda>(rest', s'). rest' = concat (map bytes_of ps') \<and> (\<exists>qs'. well fine n (tcp n) ct s' qs' \<and>
     ord (tcp n) ct s' qs' = ord (tcp n) ct ?s qs @ (if j = 0 then [(i, q)] else [])) \<and>
     hb n (tcp n) ct s' = (if j = 0 then hb n (tcp n) ct ?s else (hb n (tcp n) ct ?s)(i := hb n (tcp n) ct ?s i @ [(i, q)])) \<and>
     outgoing s' = outgoing ?s @ map bytes_of ((if next_on n j \<noteq> i then [CMess i q ak now pl] else []) @
       (if j = 0 then [CAck i q (ack_num ?s + 1)] else [])) \<and> steady ?s s' \<and> seq_num s' = seq_num ?s)"
      unfolding CMess by (rule treat_mess [OF V w(1) roomy i(1) j me(1) pl])
    from okE_Inr_D [OF this run'] obtain qs' where q: "rest = concat (map bytes_of ps')" "well fine n (tcp n) ct s qs'"
      "ord (tcp n) ct s qs' = ord (tcp n) ct ?s qs @ (if j = 0 then [(i, q)] else [])"
      "hb n (tcp n) ct s = (if j = 0 then hb n (tcp n) ct ?s else (hb n (tcp n) ct ?s)(i := hb n (tcp n) ct ?s i @ [(i, q)]))"
      "outgoing s = map bytes_of ((if next_on n j \<noteq> i then [CMess i q ak now pl] else []) @ (if j = 0 then [CAck i q (ack_num ?s + 1)] else []))"
      "steady ?s s" "seq_num s = seq_num ?s"
      using me(2) by auto
    have id': "self_id s = of_nat j" using q(6) me(1) by (simp add: steady_def)
    have lk': "link S j = Mess (i, q) # concat (map abs_of ps')" using lk ps CMess by simp
    show ?thesis
    proof (cases "j = 0")
      case True
      let ?S' = "moved n 0 (concat (map abs_of ps')) ((if i \<noteq> next_on n 0 then [Mess (i, q)] else []) @ [Ackn (i, q)]) (ordered S 0 @ [(i, q)]) (held_back S 0) S"
      have st: "seq_step n S ?S'" using lead_recv lk' True by metis
      have e: "?S' = moved n j (concat (map abs_of ps')) (concat (map abs_of ((if next_on n j \<noteq> i then [CMess i q ak now pl] else []) @ (if j = 0 then [CAck i q (ack_num ?s + 1)] else []))))
        (ord (tcp n) ct s qs') (hb n (tcp n) ct s) S"
        using True q(3,4) w(2) me(3) by auto
      show ?thesis
        by (rule fin [OF q(1,2) id' q(7,5) _ _ _ e disjI2 [OF st]]) (use True q(3,4) w(2) me(3) i pl in auto)
    next
      case False
      let ?S' = "moved n j (concat (map abs_of ps')) (if i \<noteq> next_on n j then [Mess (i, q)] else []) (ordered S j) ((held_back S j)(i := held_back S j i @ [(i, q)])) S"
      have st: "seq_step n S ?S'" by (rule recv [OF j False lk'])
      have e: "?S' = moved n j (concat (map abs_of ps')) (concat (map abs_of ((if next_on n j \<noteq> i then [CMess i q ak now pl] else []) @ (if j = 0 then [CAck i q (ack_num ?s + 1)] else []))))
        (ord (tcp n) ct s qs') (hb n (tcp n) ct s) S"
        using False q(3,4) w(2) me(3) by auto
      show ?thesis
        by (rule fin [OF q(1,2) id' q(7,5) _ _ _ e disjI2 [OF st]]) (use False q(3,4) w(2) me(3) i pl in auto)
    qed
  next
    case (CAck i q rv)
    have lk': "link S j = Ackn (i, q) # concat (map abs_of ps')" using lk ps CAck by simp
    have j0: "j \<noteq> 0" using I(5) lk' by (intro notI) simp
    have i: "i < n" using I(7) [OF j, of "(i, q)"] lk' by simp
    obtain ts where ts: "held_back S j i = (i, q) # ts" by (rule ack_hits [OF R(3) j j0 lk']) simp
    then have h: "hb n (tcp n) ct ?s i = (i, q) # ts" using me(3) by simp
    have "okE fine (process_msg V ended (bytes_of pk @ concat (map bytes_of ps')) ?s) (\<lambda>(rest', s'). rest' = concat (map bytes_of ps') \<and> well fine n (tcp n) ct s' qs \<and>
     ord (tcp n) ct s' qs = ord (tcp n) ct ?s qs @ [(i, q)] \<and> hb n (tcp n) ct s' = (hb n (tcp n) ct ?s)(i := ts) \<and>
     outgoing s' = outgoing ?s @ map bytes_of (if next_on n j \<noteq> 0 then [CAck i q rv] else []) \<and> steady ?s s' \<and> seq_num s' = seq_num ?s)"
      unfolding CAck by (rule treat_ack [OF V w(1) roomy i j j0 me(1) h])
    from okE_Inr_D [OF this run'] have q: "rest = concat (map bytes_of ps')" "well fine n (tcp n) ct s qs" "ord (tcp n) ct s qs = ord (tcp n) ct ?s qs @ [(i, q)]"
      "hb n (tcp n) ct s = (hb n (tcp n) ct ?s)(i := ts)" "outgoing s = map bytes_of (if next_on n j \<noteq> 0 then [CAck i q rv] else [])" "steady ?s s" "seq_num s = seq_num ?s"
      using me(2) by auto
    have id': "self_id s = of_nat j" using q(6) me(1) by (simp add: steady_def)
    let ?S' = "moved n j (concat (map abs_of ps')) (if next_on n j \<noteq> 0 then [Ackn (i, q)] else []) (ordered S j @ [(i, q)]) ((held_back S j)(i := ts)) S"
    have st: "seq_step n S ?S'" by (rule ack [OF j j0 lk' ts])
    have e: "?S' = moved n j (concat (map abs_of ps')) (concat (map abs_of (if next_on n j \<noteq> 0 then [CAck i q rv] else []))) (ord (tcp n) ct s qs) (hb n (tcp n) ct s) S"
      using q(3,4) w(2) me(3) by auto
    show ?thesis
      by (rule fin [OF q(1,2) id' q(7,5) _ _ _ e disjI2 [OF st], of "[(i, q)]"]) (use q(3,4) w(2) me(3) ts in auto)
  next
    case (COk t)
    have t: "t = 121 \<or> t = 110" using sd'(2) COk by simp
    have "okE fine (process_msg V ended (bytes_of pk @ concat (map bytes_of ps')) ?s) (\<lambda>(rest', s'). rest' = concat (map bytes_of ps') \<and> well fine n (tcp n) ct s' qs \<and>
     ord (tcp n) ct s' qs = ord (tcp n) ct ?s qs \<and> hb n (tcp n) ct s' = hb n (tcp n) ct ?s \<and> self_id s' = self_id ?s \<and> seq_num s' = seq_num ?s \<and>
     (\<exists>out. list_all sendable out \<and> concat (map abs_of out) = [] \<and> outgoing s' = outgoing ?s @ map bytes_of out))"
      unfolding COk by (rule treat_sign [OF w(1) t])
    from okE_Inr_D [OF this run'] obtain out where q: "rest = concat (map bytes_of ps')" "well fine n (tcp n) ct s qs" "ord (tcp n) ct s qs = ord (tcp n) ct ?s qs" "hb n (tcp n) ct s = hb n (tcp n) ct ?s"
      "self_id s = self_id ?s" "seq_num s = seq_num ?s" "list_all sendable out" "concat (map abs_of out) = []" "outgoing s = map bytes_of out"
      using me(2) by auto
    have lk': "link S j = concat (map abs_of ps')" using lk ps COk by simp
    have e: "S = moved n j (concat (map abs_of ps')) (concat (map abs_of out)) (ord (tcp n) ct s qs) (hb n (tcp n) ct s) S"
      unfolding q(8) q(3,4) lk' [symmetric] w(2) [symmetric] me(3) [symmetric] by (rule moved_id [OF R(1) j, symmetric])
    show ?thesis
      by (rule fin [OF q(1,2) _ q(6,9,7) _ _ e disjI1 [OF refl], of "[]"]) (use q(3-5) w(2) me in auto)
  qed
qed

lemma bench_receive_ok:
  assumes V: "vector_laws V ct" and roomy: "\<forall>e v. fst (addElt V e v) = 1"
    and r: "refines True n ct R S" and j: "j < n" and ne: "conns R ! j \<noteq> []"
  shows "okE True (process_msg V ended (conns R ! j) (nodes_of R ! j)) (\<lambda>_. True)"
proof -
  let ?s = "nodes_of R ! j"
  have inv: "seq_inv n S" using r by (simp add: refines_def)
  note I = seq_invD [OF inv]
  obtain ps qs where w: "well True n (tcp n) ct ?s qs" "self_id ?s = of_nat j" "held_back S j = hb n (tcp n) ct ?s"
    and bs: "conns R ! j = concat (map bytes_of ps)" and lk: "link S j = concat (map abs_of ps)" and sd: "list_all sendable ps"
    using r j unfolding refines_def shows_node_def by blast
  obtain pk ps' where ps: "ps = pk # ps'" using ne bs by (cases ps) auto
  have b: "conns R ! j = bytes_of pk @ concat (map bytes_of ps')" using bs ps by simp
  show ?thesis
  proof (cases pk)
    case (CMess i q ak now pl)
    have "Mess (i, q) \<in> set (link S j)" using lk ps CMess by simp
    then have i: "i < n" using I(6) [OF j, of "(i, q)"] by auto
    have pl: "23 + length pl < 2 ^ 31" using sd ps CMess by simp
    show ?thesis unfolding b CMess by (rule okE_mono [OF treat_mess [OF V w(1) roomy i j w(2) pl]]) simp
  next
    case (CAck i q rv)
    have lk': "link S j = Ackn (i, q) # concat (map abs_of ps')" using lk ps CAck by simp
    have j0: "j \<noteq> 0" using I(5) lk' by (intro notI) simp
    have i: "i < n" using I(7) [OF j, of "(i, q)"] lk' by simp
    obtain ts where "held_back S j i = (i, q) # ts" by (rule ack_hits [OF inv j j0 lk']) simp
    then have h: "hb n (tcp n) ct ?s i = (i, q) # ts" using w(3) by simp
    show ?thesis unfolding b CAck by (rule okE_mono [OF treat_ack [OF V w(1) roomy i j j0 w(2) h]]) simp
  next
    case (COk t)
    have t: "t = 121 \<or> t = 110" using sd ps COk by simp
    show ?thesis unfolding b COk by (rule okE_mono [OF treat_sign [OF w(1) t]]) simp
  qed
qed

lemma send_refines:
  assumes V: "vector_laws V ct" and roomy: "fine \<Longrightarrow> \<forall>e v. fst (addElt V e v) = 1"
    and r: "refines fine n ct R S" and j: "j < n" and run: "send_msg V size_t now (nodes_of R ! j) = Inr s" and sz: "23 \<le> sint size_t"
  shows "\<exists>S'. seq_step n S S' \<and> refines fine n ct (flush_node j s (conns R ! j) R) S'"
proof -
  let ?s = "nodes_of R ! j" and ?pl = "replicate (nat (sint size_t) - 23) (0 :: byte)"
  have R: "2 \<le> n" "n \<le> 5" "seq_inv n S" using r by (simp_all add: refines_def)
  obtain ps where sh: "shows_node fine n ct j ?s (conns R ! j) ps S" using r j by (auto simp: refines_def)
  then obtain qs m where w: "well fine n (tcp n) ct ?s qs" "ordered S j = ord (tcp n) ct ?s qs" and me: "self_id ?s = of_nat j" "outgoing ?s = []" "held_back S j = hb n (tcp n) ct ?s"
    and bs: "conns R ! j = concat (map bytes_of ps)" and lk: "link S j = concat (map abs_of ps)" and sd: "list_all sendable ps"
    and num: "known S j j = map (\<lambda>k. (j, of_nat (Suc k))) [0..<m]" "seq_num ?s = of_nat m"
    unfolding shows_node_def by blast
  let ?q = "seq_num ?s + 1"
  let ?out = "[CMess j ?q (ack_num ?s) now ?pl] @ (if j = 0 then [CAck j ?q (ack_num ?s + 1)] else [])"
  from okE_Inr_D [OF send_msg_ok [OF V w(1) roomy j me(1) sz, of now] run] obtain qs' where
    q: "well fine n (tcp n) ct s qs'" "ord (tcp n) ct s qs' = ord (tcp n) ct ?s qs @ (if j = 0 then [(j, ?q)] else [])"
      "hb n (tcp n) ct s = (if j = 0 then hb n (tcp n) ct ?s else (hb n (tcp n) ct ?s)(j := hb n (tcp n) ct ?s j @ [(j, ?q)]))"
      "outgoing s = map bytes_of ?out" "steady ?s s" "seq_num s = ?q"
    using me(2) by auto
  have id': "self_id s = of_nat j" using q(5) me(1) by (simp add: steady_def)
  have sdo: "list_all sendable ?out" using prepare_msg_enc(2) [OF sz] by simp
  let ?S' = "moved n j (link S j) (concat (map abs_of ?out)) (ord (tcp n) ct s qs') (hb n (tcp n) ct s) S"
  have st: "seq_step n S ?S'"
  proof (cases "j = 0")
    case True
    then have "?S' = moved n 0 (link S 0) [Mess (0, ?q), Ackn (0, ?q)] (ordered S 0 @ [(0, ?q)]) (held_back S 0) S"
      using q(2,3) w(2) me(3) by auto
    then show ?thesis using lead_send by metis
  next
    case False
    then have "?S' = moved n j (link S j) [Mess (j, ?q)] (ordered S j) ((held_back S j)(j := held_back S j j @ [(j, ?q)])) S"
      using q(2,3) w(2) me(3) by auto
    then show ?thesis using seq_step.send [OF j False] by metis
  qed
  have inv: "seq_inv n ?S'" by (rule seq_step_inv [OF st R(3,1)])
  have "known ?S' j j = known S j j @ [(j, ?q)]"
  proof (cases "j = 0")
    case True
    have "held_back S 0 0 = []" using seq_invD(4) [OF R(3)] R(1) by simp
    then show ?thesis using True q(2,3) w(2) me(3) by (auto simp: known_def moved_def)
  next
    case False
    then show ?thesis using q(2,3) w(2) me(3) by (auto simp: known_def moved_def)
  qed
  then have num': "\<exists>m. known ?S' j j = map (\<lambda>k. (j, of_nat (Suc k))) [0..<m] \<and> seq_num s = of_nat m"
    using num q(6) by (intro exI [of _ "Suc m"]) (simp add: add.commute)
  have "refines fine n ct (flush_node j s (concat (map bytes_of ps)) R) ?S'"
    by (rule refines_moved [OF r j sh q(1) id' q(4) sdo sd inv _ num']) (simp add: lk)
  then show ?thesis using st bs by metis
qed

text \<open>Delivering, and the leader's main thread.\<close>

lemma quiet_refines:
  assumes r: "refines fine n ct R S" and j: "j < n"
    and a: "\<And>qs. well fine n (tcp n) ct (nodes_of R ! j) qs \<Longrightarrow> \<exists>qs' out. well fine n (tcp n) ct s qs' \<and> ord (tcp n) ct s qs' = ord (tcp n) ct (nodes_of R ! j) qs \<and>
      hb n (tcp n) ct s = hb n (tcp n) ct (nodes_of R ! j) \<and> self_id s = self_id (nodes_of R ! j) \<and> seq_num s = seq_num (nodes_of R ! j) \<and>
      outgoing s = outgoing (nodes_of R ! j) @ map bytes_of out \<and> list_all sendable out \<and> concat (map abs_of out) = []"
  shows "refines fine n ct (flush_node j s (conns R ! j) R) S"
proof -
  let ?s = "nodes_of R ! j"
  have R: "2 \<le> n" "n \<le> 5" "seq_inv n S" using r by (simp_all add: refines_def)
  obtain ps where sh: "shows_node fine n ct j ?s (conns R ! j) ps S" using r j by (auto simp: refines_def)
  then obtain qs m where w: "well fine n (tcp n) ct ?s qs" "ordered S j = ord (tcp n) ct ?s qs" and me: "self_id ?s = of_nat j" "outgoing ?s = []" "held_back S j = hb n (tcp n) ct ?s"
    and bs: "conns R ! j = concat (map bytes_of ps)" and lk: "link S j = concat (map abs_of ps)" and sd: "list_all sendable ps"
    and num: "known S j j = map (\<lambda>k. (j, of_nat (Suc k))) [0..<m]" "seq_num ?s = of_nat m"
    unfolding shows_node_def by blast
  from a [OF w(1)] obtain qs' out where q: "well fine n (tcp n) ct s qs'" "ord (tcp n) ct s qs' = ord (tcp n) ct ?s qs" "hb n (tcp n) ct s = hb n (tcp n) ct ?s"
    "self_id s = of_nat j" "seq_num s = seq_num ?s" "outgoing s = map bytes_of out" "list_all sendable out" "concat (map abs_of out) = []"
    using me by auto
  have e: "S = moved n j (concat (map abs_of ps)) (concat (map abs_of out)) (ord (tcp n) ct s qs') (hb n (tcp n) ct s) S"
    unfolding q(8) q(2,3) lk [symmetric] w(2) [symmetric] me(3) [symmetric] by (rule moved_id [OF R(1) j, symmetric])
  have "refines fine n ct (flush_node j s (concat (map bytes_of ps)) R) S"
    by (rule refines_moved [OF r j sh q(1,4,6,7) sd R(3) e]) (use num q(5) in auto)
  then show ?thesis using bs by simp
qed

lemma deliver_refines:
  assumes r: "refines fine n ct R S" and j: "j < n" and run: "deliver_turn now (nodes_of R ! j) = Inr s"
  shows "refines fine n ct (flush_node j s (conns R ! j) R) S"
proof (rule quiet_refines [OF r j])
  fix qs assume w: "well fine n (tcp n) ct (nodes_of R ! j) qs"
  then obtain e qs' where qs: "qs = e # qs'" using run deliver_turn_waits by (cases qs) fastforce+
  obtain s' where s': "deliver_turn now (nodes_of R ! j) = Inr s'" "well fine n (tcp n) ct s' qs'" "ord (tcp n) ct s' qs' = ord (tcp n) ct (nodes_of R ! j) qs"
    "hb n (tcp n) ct s' = hb n (tcp n) ct (nodes_of R ! j)" "outgoing s' = outgoing (nodes_of R ! j)" "seq_num s' = seq_num (nodes_of R ! j)" "self_id s' = self_id (nodes_of R ! j)"
    using w unfolding qs by (rule bench_deliver_ok)
  have "s' = s" using run s'(1) by simp
  then show "\<exists>qs' out. well fine n (tcp n) ct s qs' \<and> ord (tcp n) ct s qs' = ord (tcp n) ct (nodes_of R ! j) qs \<and>
      hb n (tcp n) ct s = hb n (tcp n) ct (nodes_of R ! j) \<and> self_id s = self_id (nodes_of R ! j) \<and> seq_num s = seq_num (nodes_of R ! j) \<and>
      outgoing s = outgoing (nodes_of R ! j) @ map bytes_of out \<and> list_all sendable out \<and> concat (map abs_of out) = []"
    using s' by (intro exI [of _ qs'] exI [of _ "[]"]) simp
qed

lemma main_refines:
  assumes r: "refines fine n ct R S" and run: "main_turn k (nodes_of R ! 0) = Inr s"
  shows "refines fine n ct (flush_node 0 s (conns R ! 0) R) S"
proof (rule quiet_refines [OF r])
  let ?s = "nodes_of R ! 0"
  show "0 < n" using r by (simp add: refines_def)
  fix qs assume w: "well fine n (tcp n) ct ?s qs"
  have sg: "\<exists>qs' out. well fine n (tcp n) ct s qs' \<and> ord (tcp n) ct s qs' = ord (tcp n) ct ?s qs \<and> hb n (tcp n) ct s = hb n (tcp n) ct ?s \<and> self_id s = self_id ?s \<and>
     seq_num s = seq_num ?s \<and> outgoing s = outgoing ?s @ map bytes_of out \<and> list_all sendable out \<and> concat (map abs_of out) = []"
    if "send_all (enc_ok t) ?s = Inr s" "t = 121 \<or> t = 110" for t
    using okE_Inr_D [OF send_sign [OF w] that(1)] that(2) by (intro exI [of _ qs] exI [of _ "[COk t]"]) auto
  have ms: "\<exists>qs' out. well fine n (tcp n) ct s qs' \<and> ord (tcp n) ct s qs' = ord (tcp n) ct ?s qs \<and> hb n (tcp n) ct s = hb n (tcp n) ct ?s \<and> self_id s = self_id ?s \<and>
     seq_num s = seq_num ?s \<and> outgoing s = outgoing ?s @ map bytes_of out \<and> list_all sendable out \<and> concat (map abs_of out) = []"
    if "s = ?s\<lparr>mesurement_started := b\<rparr>" for b
    using well_outside [OF w, of s] wellD(10,11) [OF w] that by (intro exI [of _ qs] exI [of _ "[]"]) simp
  show "\<exists>qs' out. well fine n (tcp n) ct s qs' \<and> ord (tcp n) ct s qs' = ord (tcp n) ct ?s qs \<and> hb n (tcp n) ct s = hb n (tcp n) ct ?s \<and> self_id s = self_id ?s \<and>
     seq_num s = seq_num ?s \<and> outgoing s = outgoing ?s @ map bytes_of out \<and> list_all sendable out \<and> concat (map abs_of out) = []"
  proof -
    from run consider "send_all (enc_ok 121) ?s = Inr s" | "send_all (enc_ok 110) ?s = Inr s" | b where "s = ?s\<lparr>mesurement_started := b\<rparr>"
      by (cases "(k, ?s)" rule: main_turn.cases) (auto simp: start_leader_def stop_leader_def)
    then show ?thesis using sg ms by cases blast+
  qed
qed

lemma step_refines:
  assumes V: "vector_laws V ct" and roomy: "fine \<Longrightarrow> \<forall>e v. fst (addElt V e v) = 1" and st: "bench_step V size_t R R'" and r: "refines fine n ct R S" and sz: "23 \<le> sint size_t"
  shows "\<exists>S'. (S' = S \<or> seq_step n S S') \<and> refines fine n ct R' S'"
proof -
  have n: "length (nodes_of R) = n" "2 \<le> n" using r by (simp_all add: refines_def)
  from st show ?thesis
  proof cases
    case (receive j rest s)
    have "conns R ! j \<noteq> []" using receive(4) process_msg_waits [of V "nodes_of R ! j"] by (intro notI) simp
    then show ?thesis using receive_refines [OF V roomy r _ receive(4)] receive(1,2) n by simp
  next
    case (send j now s)
    then show ?thesis using send_refines [OF V roomy r _ send(4) sz] n by auto
  next
    case (deliver j now s)
    then show ?thesis using deliver_refines [OF r _ deliver(3)] n by auto
  next
    case (lead k s)
    then show ?thesis using main_refines [OF r lead(3)] by auto
  qed
qed

section \<open>The start\<close>

lemma initialize_ok:
  assumes V: "vector_laws V ct" and n: "2 \<le> n" "n \<le> 5" and j: "j < n"
  obtains s where "initialize V (of_nat j) (of_nat n) = Inr s" "well fine n (tcp n) ct s []" "ord (tcp n) ct s [] = []" "hb n (tcp n) ct s = (\<lambda>_. [])"
    "self_id s = of_nat j" "outgoing s = []" "seq_num s = 0" "reported s = []"
proof -
  let ?v = "Some (createVector V 5000)"
  note W = init_words [OF n(2) j] and vs = new_vectors [OF n(2), of ?v]
  obtain s where s: "initialize V (of_nat j) (of_nat n) = Inr s" "self_id s = of_nat j" "num_nodes s = of_nat n"
    "vector_no_ack s = replicate n ?v @ replicate (5 - n) None" "vector_ack s = createVector V 5000" "deliveryQueue s = newBqueue"
    "objs s = (\<lambda>_. None)" "answers s = []" "reported s = []" "outgoing s = []" "seq_num s = 0"
    using vs W by (simp add: initialize_def)
  show thesis by (rule that [OF s(1) well_start [OF V n s(3-9)] s(2,10,11,9)])
qed

lemma start_refines:
  assumes V: "vector_laws V ct" and n: "2 \<le> n" "n \<le> 5" and R: "bench_start V n R"
  shows "refines fine n ct R \<lparr>ordered = (\<lambda>_. []), held_back = (\<lambda>_ _. []), link = (\<lambda>_. [])\<rparr>" (is "refines _ _ _ _ ?S")
proof -
  have "\<exists>ps. shows_node fine n ct j (nodes_of R ! j) (conns R ! j) ps ?S" if j: "j < n" for j
  proof -
    obtain s where s: "initialize V (of_nat j) (of_nat n) = Inr s" "well fine n (tcp n) ct s []" "ord (tcp n) ct s [] = []" "hb n (tcp n) ct s = (\<lambda>_. [])"
      "self_id s = of_nat j" "outgoing s = []" "seq_num s = 0" "reported s = []" by (rule initialize_ok [OF V n j])
    have "nodes_of R ! j = s" using R j s(1) by (simp add: bench_start_def)
    moreover have "conns R ! j = []" using R j by (simp add: bench_start_def)
    ultimately show ?thesis using s by (intro exI [of _ "[]"]) (auto simp: shows_node_def known_def intro: exI [of _ 0] exI [of _ "[]"])
  qed
  then show ?thesis using R n seq_inv_start [of n] by (simp add: refines_def bench_start_def)
qed

lemma bench_run_refines:
  assumes "bench_run V size_t R R'" "vector_laws V ct" "fine \<Longrightarrow> \<forall>e v. fst (addElt V e v) = 1" "23 \<le> sint size_t" "refines fine n ct R S"
  shows "\<exists>S'. (seq_step n)\<^sup>*\<^sup>* S S' \<and> refines fine n ct R' S'"
  using assms(1) unfolding bench_run_def
proof (induction rule: rtranclp_induct)
  case base
  then show ?case using assms(5) by blast
next
  case (step R1 R2)
  then obtain S1 where "(seq_step n)\<^sup>*\<^sup>* S S1" "refines fine n ct R1 S1" by blast
  with step_refines [OF assms(2,3) step(2) _ assms(4)] show ?case by (metis rtranclp.simps)
qed

end
