(* ===== verification/BenchStatements.thy ===== *)
theory BenchStatements
  imports BenchRing
begin

text \<open>
  The ring benchmark statement by statement. The receiving and the sending thread of a process
  work on the same vectors, the same \<^verbatim>\<open>ack_num\<close> and the same socket and take no lock, so that
  between two statements of a turn of one of them the other can run. Here a process has the
  statements its two threads have still to execute of the turn they are in. A run with the
  flag \<open>lk\<close> is one of the program with a mutex around the turns of its threads, without the
  flag one of the program as it is, of which the statements are atomic.
\<close>

section \<open>The statements\<close>

text \<open>Each is a call, or an assignment, of \<^verbatim>\<open>process_msg\<close> with \<^verbatim>\<open>handle_msg\<close> and \<^verbatim>\<open>handle_ack\<close>, or
  of \<^verbatim>\<open>send_msg\<close>; the argument is the message. \<open>Send_ack\<close> builds an acknowledgement, sends and
  frees it.\<close>

datatype stmt = Broadcast nat | Transfer nat | Update nat | Save_ack nat | Save_no_ack nat | Number | Send_ack nat |
  Move nat | Take_number nat | Forward_ack nat | Free_msg nat | Pass_sign byte | Post | Stop

fun exec :: "'v vector_ops \<Rightarrow> stmt \<Rightarrow> 'v tcp_node \<Rightarrow> 'v tcp_node result" where
  "exec V (Broadcast m) s = broadcast_msg (Some m) s"
| "exec V (Transfer m) s =
     bindE (id_process (Some m) s) (\<lambda>pid. if self_id s \<noteq> get_predecessor (num_nodes s) pid then transfer_msg (Some m) s else Inr s)"
| "exec V (Update m) s = update_vector V (Some m) s"
| "exec V (Save_ack m) s = save_msg_in_vector_ack V (Some m) s"
| "exec V (Save_no_ack m) s = save_msg_in_vector_No_ack V (Some m) s"
| "exec V Number s = Inr (s\<lparr>ack_num := ack_num s + 1\<rparr>)"
| "exec V (Send_ack m) s =
     bindE (id_process (Some m) s) (\<lambda>pid. bindE (seq_of (Some m) s) (\<lambda>sq.
     let (a, s1) = prepare_ack pid sq (ack_num s) s in bindE (broadcast_ack (Some a) s1) (free_obj (Some a))))"
| "exec V (Move m) s = move_msg_in_vector_ack V (Some m) s"
| "exec V (Take_number m) s = bindE (ack_of (Some m) s) (\<lambda>rv. Inr (s\<lparr>ack_num := rv\<rparr>))"
| "exec V (Forward_ack m) s =
     (if num_nodes s = 0 then Inl MemFault
      else if c_mod (sint (self_id s) + 1) (sint (num_nodes s)) \<noteq> 0 then transfer_ack (Some m) s else Inr s)"
| "exec V (Free_msg m) s = free_obj (Some m) s"
| "exec V (Pass_sign t) s = (if self_id s \<noteq> 0 then send_all (enc_ok t) s else Inr s)"
| "exec V Post s = Inr (s\<lparr>my_sem := Suc (my_sem s), started := True\<rparr>)"
| "exec V Stop s = Inr (s\<lparr>stopped := True\<rparr>)"

definition execs :: "'v vector_ops \<Rightarrow> stmt list \<Rightarrow> 'v tcp_node \<Rightarrow> 'v tcp_node result" where
  "execs V = foldE (exec V)"

lemma execs_simps [simp]: "execs V [] s = Inr s" "execs V (c # cs) s = bindE (exec V c s) (execs V cs)"
  by (simp_all add: execs_def)

lemma execs_append: "execs V (cs @ ds) s = bindE (execs V cs s) (execs V ds)"
  unfolding execs_def by (rule foldE_append)

text \<open>What is to be done with a message received, of which the type has been read.\<close>

definition treat_stmts :: "nat \<Rightarrow> byte \<Rightarrow> 'v tcp_node \<Rightarrow> stmt list" where
  "treat_stmts m type s =
     (if type = 121 then (if started s then [] else [Pass_sign 121, Post]) @ [Free_msg m]
      else if type = 98 then [Transfer m, Update m] @ (if self_id s = 0 then [Save_ack m, Number, Send_ack m] else [Save_no_ack m])
      else if type = 97 then (if self_id s = 0 then [] else [Move m, Take_number m, Forward_ack m]) @ [Free_msg m]
      else if type = 110 then [Pass_sign 110, Free_msg m, Stop]
      else [])"

text \<open>The begin of a turn of \<^verbatim>\<open>process_msg\<close>: a message is received.\<close>

definition take_msg :: "bool \<Rightarrow> byte list \<Rightarrow> 'v tcp_node \<Rightarrow> (byte list \<times> nat \<times> byte \<times> 'v tcp_node) result" where
  "take_msg ended stream s =
     bindE (recv_all 4 ended stream) (\<lambda>(lenb, stream1).
     let len = (of_bytes lenb :: 32 word)
     in if sint len < 0 then Inl (ExitFailure ''Assertion failed'')
        else if sint len < 4 then Inl MemFault
        else bindE (recv_all (nat (sint len) - 4) ended stream1) (\<lambda>(rest, stream2).
          let (m, s1) = alloc_obj (Buffer (lenb @ rest)) s
          in bindE (rd_char (lenb @ rest) 4) (\<lambda>type. Inr (stream2, m, type, s1))))"

text \<open>The begin of a turn of \<^verbatim>\<open>send_msg\<close>: a message is built; then it is sent and saved.\<close>

definition make_msg :: "32 word \<Rightarrow> 64 word \<Rightarrow> 'v tcp_node \<Rightarrow> (nat \<times> 'v tcp_node) result" where
  "make_msg total_size now s =
     (let s0 = s\<lparr>seq_num := seq_num s + 1\<rparr> in prepare_msg (self_id s0) (seq_num s0) (ack_num s0) total_size now s0)"

definition send_stmts :: "nat \<Rightarrow> 'v tcp_node \<Rightarrow> stmt list" where
  "send_stmts m s = Broadcast m # (if self_id s = 0 then [Save_ack m, Update m, Number, Send_ack m] else [Save_no_ack m])"

section \<open>A turn is the sequence of its statements\<close>

lemma bindE_unit [simp]: "bindE r Inr = r"
  by (cases r) simp_all

lemma execs_funs: "execs V [] = Inr" "execs V (c # cs) = (\<lambda>s. bindE (exec V c s) (execs V cs))"
  by (simp_all add: fun_eq_iff)

lemma acknowledge_stmts: "acknowledge (Some m) s = execs V [Number, Send_ack m] s"
  by (simp add: acknowledge_def Let_def execs_funs)

lemma acknowledge_fun: "acknowledge (Some m) = (\<lambda>s. execs V [Number, Send_ack m] s)"
  by (rule ext) (rule acknowledge_stmts)

lemma handle_msg_stmts:
  "handle_msg V (Some m) s =
     execs V ([Transfer m, Update m] @ (if self_id s = 0 then [Save_ack m, Number, Send_ack m] else [Save_no_ack m])) s"
  by (simp add: handle_msg_def acknowledge_fun [of m V] bindE_assoc execs_funs)

lemma handle_ack_stmts:
  "handle_ack V (Some m) s = execs V (if self_id s = 0 then [] else [Move m, Take_number m, Forward_ack m]) s"
  by (simp add: handle_ack_def bindE_assoc Let_def execs_funs)

lemma treat_type_stmts: "treat_type V m type s = execs V (treat_stmts m type s) s"
proof -
  have st: "s\<lparr>started := True\<rparr> = s" if "started s" using that by simp
  consider "type = 121" | "type = 98" | "type = 97" | "type = 110" | "type \<notin> {121, 98, 97, 110}" by blast
  then show ?thesis
    by cases (auto simp: treat_type_def treat_stmts_def handle_msg_stmts handle_ack_stmts execs_append st
      start_leader_def stop_leader_def bindE_assoc execs_funs)
qed

lemma process_msg_stmts:
  "process_msg V ended stream s =
     bindE (take_msg ended stream s) (\<lambda>(rest, m, type, s1). bindE (execs V (treat_stmts m type s1) s1) (\<lambda>s2. Inr (rest, s2)))"
proof (cases "recv_all 4 ended stream")
  case (Inr x)
  show ?thesis
  proof (cases "recv_all (nat (sint (of_bytes (fst x) :: 32 word)) - 4) ended (snd x)")
    case (Inr y)
    then show ?thesis
      using \<open>recv_all 4 ended stream = Inr x\<close>
      by (cases "rd_char (fst x @ fst y) 4") (auto simp: process_msg_def take_msg_def treat_type_stmts Let_def split_def)
  qed (use Inr in \<open>auto simp: process_msg_def take_msg_def Let_def split_def\<close>)
qed (simp add: process_msg_def take_msg_def)

lemma broadcast_self: "broadcast_msg p s = Inr s' \<Longrightarrow> self_id s' = self_id s"
  by (auto simp: broadcast_msg_def send_all_def bindE_eq_Inr Let_def)

lemma make_msg_self: "make_msg size_t now s = Inr (m, s1) \<Longrightarrow> self_id s1 = self_id s"
  by (auto simp: make_msg_def prepare_msg_def alloc_obj_def Let_def split: if_splits)

lemma send_msg_stmts:
  "send_msg V size_t now s = bindE (make_msg size_t now s) (\<lambda>(m, s1). execs V (send_stmts m s1) s1)"
proof -
  have "bindE (broadcast_msg (Some m) s1) (\<lambda>s2. if self_id s2 = 0 then bindE (save_msg_in_vector_ack V (Some m) s2) (\<lambda>s3. bindE (update_vector V (Some m) s3) (acknowledge (Some m)))
         else save_msg_in_vector_No_ack V (Some m) s2) = execs V (send_stmts m s1) s1" for m s1
    by (cases "broadcast_msg (Some m) s1") (simp_all add: send_stmts_def acknowledge_fun [of m V] execs_funs bindE_assoc broadcast_self)
  then show ?thesis by (simp add: send_msg_def make_msg_def Let_def split_def)
qed

section \<open>Runs\<close>

record 'v bench_threads =
  ring :: "'v bench_ring"
  receiving :: "nat \<Rightarrow> stmt list"
  sending :: "nat \<Rightarrow> stmt list"

definition idle :: "'v bench_threads \<Rightarrow> nat \<Rightarrow> bool" where
  "idle T j \<longleftrightarrow> receiving T j = [] \<and> sending T j = []"

text \<open>What can happen: a thread of process \<open>j\<close> begins a turn or executes its next statement, the
  delivering thread takes a message, the main thread of the leader makes a call.\<close>

datatype move = Take nat | Make nat "64 word" | Receiver nat | Sender nat | Deliver nat "64 word" | Lead nat

fun move_step :: "bool \<Rightarrow> 'v vector_ops \<Rightarrow> 32 word \<Rightarrow> move \<Rightarrow> 'v bench_threads \<Rightarrow> 'v bench_threads result" where
  "move_step lk V size_t (Take j) T =
     (let R = ring T; s = nodes_of R ! j
      in if j < length (nodes_of R) \<and> \<not> stopped s \<and> receiving T j = [] \<and> (lk \<longrightarrow> idle T j)
         then bindE (take_msg False (conns R ! j) s) (\<lambda>(rest, m, type, s1).
           Inr (T\<lparr>ring := flush_node j s1 rest R, receiving := (receiving T)(j := treat_stmts m type s1)\<rparr>))
         else Inl Blocks)"
| "move_step lk V size_t (Make j now) T =
     (let R = ring T; s = nodes_of R ! j
      in if j < length (nodes_of R) \<and> started s \<and> sending T j = [] \<and> (lk \<longrightarrow> idle T j)
         then bindE (make_msg size_t now s) (\<lambda>(m, s1).
           Inr (T\<lparr>ring := flush_node j s1 (conns R ! j) R, sending := (sending T)(j := send_stmts m s1)\<rparr>))
         else Inl Blocks)"
| "move_step lk V size_t (Receiver j) T =
     (let R = ring T
      in case receiving T j of [] \<Rightarrow> Inl Blocks
         | c # cs \<Rightarrow> if j < length (nodes_of R) then bindE (exec V c (nodes_of R ! j)) (\<lambda>s.
             Inr (T\<lparr>ring := flush_node j s (conns R ! j) R, receiving := (receiving T)(j := cs)\<rparr>)) else Inl Blocks)"
| "move_step lk V size_t (Sender j) T =
     (let R = ring T
      in case sending T j of [] \<Rightarrow> Inl Blocks
         | c # cs \<Rightarrow> if j < length (nodes_of R) then bindE (exec V c (nodes_of R ! j)) (\<lambda>s.
             Inr (T\<lparr>ring := flush_node j s (conns R ! j) R, sending := (sending T)(j := cs)\<rparr>)) else Inl Blocks)"
| "move_step lk V size_t (Deliver j now) T =
     (let R = ring T
      in if j < length (nodes_of R) \<and> (lk \<longrightarrow> idle T j)
         then bindE (deliver_turn now (nodes_of R ! j)) (\<lambda>s. Inr (T\<lparr>ring := flush_node j s (conns R ! j) R\<rparr>)) else Inl Blocks)"
| "move_step lk V size_t (Lead k) T =
     (let R = ring T
      in if nodes_of R \<noteq> [] \<and> (lk \<longrightarrow> idle T 0)
         then bindE (main_turn k (nodes_of R ! 0)) (\<lambda>s. Inr (T\<lparr>ring := flush_node 0 s (conns R ! 0) R\<rparr>)) else Inl Blocks)"

definition moves_run :: "bool \<Rightarrow> 'v vector_ops \<Rightarrow> 32 word \<Rightarrow> move list \<Rightarrow> 'v bench_threads \<Rightarrow> 'v bench_threads result" where
  "moves_run lk V size_t = foldE (move_step lk V size_t)"

definition threads_start :: "'v vector_ops \<Rightarrow> nat \<Rightarrow> 'v bench_threads \<Rightarrow> bool" where
  "threads_start V n T \<longleftrightarrow> bench_start V n (ring T) \<and> (\<forall>j. idle T j)"

lemma moves_run_simps [simp]: "moves_run lk V size_t [] T = Inr T"
  "moves_run lk V size_t (a # as) T = bindE (move_step lk V size_t a T) (moves_run lk V size_t as)"
  by (simp_all add: moves_run_def)

lemma moves_run_snoc: "moves_run lk V size_t (as @ [a]) T = bindE (moves_run lk V size_t as T) (move_step lk V size_t a)"
  by (simp add: moves_run_def foldE_append)

end
