(* ===== verification/BenchRoom.thy ===== *)
theory BenchRoom
  imports BenchStatements
begin

text \<open>
  A vector may refuse an element, and then the program is aborted by an assertion. To say what
  holds of all runs, also of those in which some process will be aborted, the vectors are
  extended by a list of the elements that they would refuse: a process that has not been
  aborted does the same with the extended vectors, which refuse nothing.
\<close>

section \<open>Vectors with room\<close>

definition with_room :: "'v vector_ops \<Rightarrow> ('v \<Rightarrow> nat list) \<Rightarrow> ('v \<times> nat list) vector_ops" where
  "with_room V ct = \<lparr>createVector = (\<lambda>k. (createVector V k, [])),
     addElt = (\<lambda>e (v, x). if x = [] \<and> fst (addElt V e v) = 1 then (1, (snd (addElt V e v), []))
       else (1, (v, x @ (case e of None \<Rightarrow> [] | Some a \<Rightarrow> [a])))),
     removeFirst = (\<lambda>(v, x). if ct v = [] \<and> x \<noteq> [] then (Some (hd x), (v, tl x)) else (fst (removeFirst V v), (snd (removeFirst V v), x))),
     elementAt = (\<lambda>i (v, x). if x \<noteq> [] \<and> int (length (ct v)) \<le> i then Some (x ! (nat i - length (ct v))) else elementAt V i v),
     numberOfElt = (\<lambda>(v, x). numberOfElt V v + int (length x))\<rparr>"

definition room_content :: "('v \<Rightarrow> nat list) \<Rightarrow> 'v \<times> nat list \<Rightarrow> nat list" where
  "room_content ct = (\<lambda>(v, x). ct v @ x)"

lemma with_room_laws:
  assumes "vector_laws V ct"
  shows "vector_laws (with_room V ct) (room_content ct)" "\<forall>e v. fst (addElt (with_room V ct) e v) = 1"
proof -
  show "\<forall>e v. fst (addElt (with_room V ct) e v) = 1" by (auto simp: with_room_def)
  have "fst (removeFirst (with_room V ct) (v, x)) = Some e \<and> room_content ct (snd (removeFirst (with_room V ct) (v, x))) = es"
    if "room_content ct (v, x) = e # es" for v x e es
    using assms that by (cases "ct v"; cases x) (auto simp: with_room_def room_content_def vector_laws_def)
  moreover have "elementAt (with_room V ct) (int i) (v, x) = Some (room_content ct (v, x) ! i)"
    if "i < length (room_content ct (v, x))" for v x i
    using assms that by (auto simp: with_room_def room_content_def vector_laws_def nth_append)
  ultimately show "vector_laws (with_room V ct) (room_content ct)"
    using assms by (auto simp: vector_laws_def) (auto simp: with_room_def room_content_def)
qed

lemma with_room_simps [simp]:
  "createVector (with_room V ct) k = (createVector V k, [])"
  "removeFirst (with_room V ct) (v, []) = (fst (removeFirst V v), (snd (removeFirst V v), []))"
  "elementAt (with_room V ct) i (v, []) = elementAt V i v" "numberOfElt (with_room V ct) (v, []) = numberOfElt V v"
  "fst (addElt V e v) = 1 \<Longrightarrow> addElt (with_room V ct) e (v, []) = (1, (snd (addElt V e v), []))"
  by (simp_all add: with_room_def)

text \<open>A process with such vectors.\<close>

definition emb :: "'v tcp_node \<Rightarrow> ('v \<times> nat list) tcp_node" where
  "emb s = \<lparr>self_id = self_id s, num_nodes = num_nodes s, conf_bits = conf_bits s, seq_num = seq_num s, ack_num = ack_num s,
     vector_no_ack = map (map_option (\<lambda>v. (v, []))) (vector_no_ack s), vector_ack = (vector_ack s, []), highestDelivered = highestDelivered s,
     deliveryQueue = deliveryQueue s, my_sem = my_sem s, mesurement_started = mesurement_started s, bcounters = bcounters s, objs = objs s,
     next_obj = next_obj s, outgoing = outgoing s, answers = answers s, reported = reported s, started = started s, stopped = stopped s\<rparr>"

lemma emb_fields [simp]:
  "self_id (emb s) = self_id s" "num_nodes (emb s) = num_nodes s" "conf_bits (emb s) = conf_bits s" "seq_num (emb s) = seq_num s"
  "ack_num (emb s) = ack_num s" "vector_no_ack (emb s) = map (map_option (\<lambda>v. (v, []))) (vector_no_ack s)" "vector_ack (emb s) = (vector_ack s, [])"
  "highestDelivered (emb s) = highestDelivered s" "deliveryQueue (emb s) = deliveryQueue s" "my_sem (emb s) = my_sem s"
  "mesurement_started (emb s) = mesurement_started s" "bcounters (emb s) = bcounters s" "objs (emb s) = objs s" "next_obj (emb s) = next_obj s"
  "outgoing (emb s) = outgoing s" "answers (emb s) = answers s" "reported (emb s) = reported s" "started (emb s) = started s" "stopped (emb s) = stopped s"
  by (simp_all add: emb_def)

lemma emb_updates [simp]:
  "emb (s\<lparr>seq_num := w\<rparr>) = (emb s)\<lparr>seq_num := w\<rparr>" "emb (s\<lparr>ack_num := w\<rparr>) = (emb s)\<lparr>ack_num := w\<rparr>"
  "emb (s\<lparr>vector_no_ack := vs\<rparr>) = (emb s)\<lparr>vector_no_ack := map (map_option (\<lambda>v. (v, []))) vs\<rparr>"
  "emb (s\<lparr>vector_ack := v\<rparr>) = (emb s)\<lparr>vector_ack := (v, [])\<rparr>" "emb (s\<lparr>highestDelivered := w\<rparr>) = (emb s)\<lparr>highestDelivered := w\<rparr>"
  "emb (s\<lparr>deliveryQueue := q\<rparr>) = (emb s)\<lparr>deliveryQueue := q\<rparr>" "emb (s\<lparr>my_sem := k\<rparr>) = (emb s)\<lparr>my_sem := k\<rparr>"
  "emb (s\<lparr>mesurement_started := b\<rparr>) = (emb s)\<lparr>mesurement_started := b\<rparr>" "emb (s\<lparr>bcounters := c\<rparr>) = (emb s)\<lparr>bcounters := c\<rparr>"
  "emb (s\<lparr>objs := h\<rparr>) = (emb s)\<lparr>objs := h\<rparr>" "emb (s\<lparr>next_obj := k\<rparr>) = (emb s)\<lparr>next_obj := k\<rparr>" "emb (s\<lparr>outgoing := os\<rparr>) = (emb s)\<lparr>outgoing := os\<rparr>"
  "emb (s\<lparr>answers := a\<rparr>) = (emb s)\<lparr>answers := a\<rparr>" "emb (s\<lparr>reported := r\<rparr>) = (emb s)\<lparr>reported := r\<rparr>" "emb (s\<lparr>started := b\<rparr>) = (emb s)\<lparr>started := b\<rparr>"
  "emb (s\<lparr>stopped := b\<rparr>) = (emb s)\<lparr>stopped := b\<rparr>"
  by (simp_all add: emb_def)

section \<open>The statements with them\<close>

text \<open>The same outcome but, with \<open>ab\<close>, when the process is aborted.\<close>

definition lifts :: "bool \<Rightarrow> ('a \<Rightarrow> 'b) \<Rightarrow> 'a result \<Rightarrow> 'b result \<Rightarrow> bool" where
  "lifts ab g r r' \<longleftrightarrow> (case r of Inr x \<Rightarrow> r' = Inr (g x) | Inl e \<Rightarrow> ab \<and> e = ExitFailure ''Assertion failed'' \<or> r' = Inl e)"

lemma lifts_simps [simp]: "lifts ab g (Inr x) r' \<longleftrightarrow> r' = Inr (g x)" "lifts ab g (Inl e) (Inl e)"
  "lifts True g (Inl (ExitFailure ''Assertion failed'')) r'"
  by (simp_all add: lifts_def)

lemma lifts_bind: "lifts ab g r r' \<Longrightarrow> (\<And>x. lifts ab h (f x) (f' (g x))) \<Longrightarrow> lifts ab h (bindE r f) (bindE r' f')"
  by (cases r) (auto simp: lifts_def)

lemma lifts_read: "r' = r \<Longrightarrow> (\<And>x. lifts ab h (f x) (f' x)) \<Longrightarrow> lifts ab h (bindE r f) (bindE r' f')"
  by (cases r) (auto simp: lifts_def)

lemma lifts_if: "lifts ab g a a' \<Longrightarrow> lifts ab g b b' \<Longrightarrow> lifts ab g (if c then a else b) (if c then a' else b')"
  by simp

lemma lifts_ab: "lifts False g r r' \<Longrightarrow> lifts ab g r r'"
  by (auto simp: lifts_def split: sum.splits)

lemma emb_reads [simp]:
  "get_buffer p (emb s) = get_buffer p s" "get_info p (emb s) = get_info p s" "id_process p (emb s) = id_process p s"
  "seq_of p (emb s) = seq_of p s" "ack_of p (emb s) = ack_of p s"
proof -
  show b: "get_buffer p (emb s) = get_buffer p s" "get_info p (emb s) = get_info p s"
    by (simp_all add: get_buffer_def get_info_def split: option.split)
  then show "id_process p (emb s) = id_process p s" "seq_of p (emb s) = seq_of p s" "ack_of p (emb s) = ack_of p s"
    by (simp_all add: id_process_def seq_of_def ack_of_def)
qed

lemma lifts_free: "lifts ab emb (free_obj p s) (free_obj p (emb s))"
  by (auto simp: free_obj_def split: option.split)

lemma lifts_send_all: "lifts ab emb (send_all bs s) (send_all bs (emb s))"
  by (auto simp: send_all_def assertE_def Let_def)

lemma lifts_broadcast: "lifts ab emb (broadcast_msg p s) (broadcast_msg p (emb s))"
  unfolding broadcast_msg_def by (intro lifts_read lifts_send_all) simp_all

lemma lifts_add:
  "lifts True g r r' \<Longrightarrow> lifts True g (bindE (assertE (fst (addElt V e v) = 1)) (\<lambda>_. r)) (if fst (addElt V e v) = 1 then r' else r'')"
  by (auto simp: assertE_def)

lemma lifts_save_ack: "lifts True emb (save_msg_in_vector_ack V p s) (save_msg_in_vector_ack (with_room V ct) p (emb s))"
  by (cases "fst (addElt V (Some (next_obj s)) (vector_ack s)) = 1")
    (auto simp: save_msg_in_vector_ack_def alloc_obj_def assertE_def split_def Let_def)

lemma get_vector_emb: "get_vector pid (emb s) = bindE (get_vector pid s) (\<lambda>v. Inr (v, []))"
  by (auto simp: get_vector_def nthE_def split: option.split)

lemma lifts_add_no_ack: "lifts True emb (add_no_ack V pid p s) (add_no_ack (with_room V ct) pid p (emb s))"
proof (cases "get_vector pid s")
  case (Inr v)
  then show ?thesis
    by (cases "fst (addElt V p v) = 1") (auto simp: add_no_ack_def get_vector_emb assertE_def split_def Let_def map_update)
qed (simp add: add_no_ack_def get_vector_emb)

lemma lifts_move_first: "lifts True emb (move_first V pid s) (move_first (with_room V ct) pid (emb s))"
proof (cases "get_vector pid s")
  case (Inr v)
  then show ?thesis
    by (cases "fst (addElt V (Some (next_obj s)) (vector_ack s)) = 1")
      (auto simp: move_first_def get_vector_emb alloc_obj_def assertE_def split_def Let_def map_update)
qed (simp add: move_first_def get_vector_emb)

lemma lifts_clear_bit: "lifts ab emb (clear_bit V kn pid i s) (clear_bit (with_room V ct) kn pid i (emb s))"
  unfolding clear_bit_def by (intro lifts_if lifts_read) (auto intro!: lifts_read split: prod.split)

lemma lifts_fold:
  "(\<And>i s. lifts ab emb (f i s) (f' i (emb s))) \<Longrightarrow> lifts ab emb (foldE f is s) (foldE f' is (emb s))"
  by (induction "is" arbitrary: s) (auto intro: lifts_bind)

lemma lifts_deliver_ready: "lifts ab emb (deliver_ready k V s) (deliver_ready k (with_room V ct) (emb s))"
proof (induction k arbitrary: s)
  case (Suc k)
  have IH: "lifts ab emb (deliver_ready k V s1) (deliver_ready k (with_room V ct) t1)" if "t1 = emb s1" for s1 t1
    using Suc.IH that by simp
  show ?case
    by (auto simp: split_def Let_def intro!: lifts_read lifts_if IH)
qed (auto intro!: lifts_read split: prod.split)

lemma lifts_update: "lifts ab emb (update_vector V p s) (update_vector (with_room V ct) p (emb s))"
  unfolding update_vector_def
proof (intro lifts_read)
  fix pid ak
  have "lifts ab emb (clear_bits V k pid s) (clear_bits (with_room V ct) k pid (emb s))" for k
    unfolding clear_bits_def by (simp, rule lifts_fold) (rule lifts_clear_bit)
  then show "lifts ab emb (bindE (clear_bits V (\<lambda>i. sint (word_of_int i + highestDelivered s) \<le> sint ak) pid s)
      (\<lambda>s1. deliver_ready (nat (numberOfElt V (vector_ack s1))) V s1))
    (bindE (clear_bits (with_room V ct) (\<lambda>i. sint (word_of_int i + highestDelivered (emb s)) \<le> sint ak) pid (emb s))
      (\<lambda>s1. deliver_ready (nat (numberOfElt (with_room V ct) (vector_ack s1))) (with_room V ct) s1))"
    by (simp, rule lifts_bind) (use lifts_deliver_ready in auto)
qed simp_all

lemma lifts_send_ack: "lifts ab emb (exec V (Send_ack m) s) (exec W (Send_ack m) (emb s))"
proof -
  have a: "lifts ab emb (bindE (broadcast_msg (Some a) s1) (free_obj (Some a))) (bindE (broadcast_msg (Some a) t1) (free_obj (Some a)))"
    if "t1 = emb s1" for a s1 t1
    unfolding that by (rule lifts_bind [OF lifts_broadcast]) (rule lifts_free)
  show ?thesis
    by (auto simp: prepare_ack_def alloc_obj_def broadcast_ack_def Let_def intro!: lifts_read a)
qed

text \<open>The statements that put something into a vector.\<close>

fun adds :: "stmt \<Rightarrow> bool" where
  "adds (Save_ack m) \<longleftrightarrow> True"
| "adds (Save_no_ack m) \<longleftrightarrow> True"
| "adds (Move m) \<longleftrightarrow> True"
| "adds c \<longleftrightarrow> False"

lemma lifts_exec: "lifts (adds c) emb (exec V c s) (exec (with_room V ct) c (emb s))"
proof (cases c)
  case (Transfer m)
  show ?thesis unfolding Transfer
    by (auto simp: transfer_msg_def intro!: lifts_read lifts_broadcast)
next
  case (Save_no_ack m)
  show ?thesis unfolding Save_no_ack
    by (simp add: save_msg_in_vector_No_ack_def) (intro lifts_read lifts_add_no_ack; simp)
next
  case (Move m)
  show ?thesis unfolding Move
    by (simp add: move_msg_in_vector_ack_def) (intro lifts_read lifts_move_first; simp)
next
  case (Take_number m)
  show ?thesis unfolding Take_number by simp (intro lifts_read; simp)
next
  case (Forward_ack m)
  show ?thesis unfolding Forward_ack by (simp add: transfer_ack_def lifts_broadcast)
next
  case (Pass_sign t)
  show ?thesis unfolding Pass_sign by (simp add: lifts_send_all)
qed (use lifts_broadcast lifts_update lifts_save_ack lifts_send_ack [of False V _ s "with_room V ct"] lifts_free in auto)

section \<open>The runs with them\<close>

lemma emb_stmts [simp]: "treat_stmts m type (emb s) = treat_stmts m type s" "send_stmts m (emb s) = send_stmts m s"
  by (simp_all add: treat_stmts_def send_stmts_def)

lemma lifts_take: "lifts ab (\<lambda>(rest, m, type, s1). (rest, m, type, emb s1)) (take_msg ended bs s) (take_msg ended bs (emb s))"
  unfolding take_msg_def by (auto simp: alloc_obj_def Let_def split_def intro!: lifts_read lifts_if)

lemma lifts_make: "lifts ab (\<lambda>(m, s1). (m, emb s1)) (make_msg size_t now s) (make_msg size_t now (emb s))"
  by (simp add: make_msg_def prepare_msg_def alloc_obj_def Let_def)

lemma lifts_deliver: "lifts ab emb (deliver_turn now s) (deliver_turn now (emb s))"
proof -
  have e: "(emb s)\<lparr>deliveryQueue := q\<rparr> = emb (s\<lparr>deliveryQueue := q\<rparr>)" for q by simp
  have r: "(emb s1)\<lparr>reported := x\<rparr> = emb (s1\<lparr>reported := x\<rparr>)" for s1 :: "'a tcp_node" and x by simp
  have c: "lifts ab emb (if mesurement_started s1 then count_delivery b now s1 else Inr s1)
     (if mesurement_started s1 then count_delivery b now (emb s1) else Inr (emb s1))" for s1 :: "'a tcp_node" and b
    by (auto simp: count_delivery_def Let_def intro!: lifts_read)
  have f: "lifts ab emb (bindE (free_obj p s1) (free_obj q)) (bindE (free_obj p (emb s1)) (free_obj q))" for s1 :: "'a tcp_node" and p q
    by (rule lifts_bind [OF lifts_free]) (rule lifts_free)
  show ?thesis
    unfolding deliver_turn_def Let_def split_def emb_fields e emb_reads r
    by (intro lifts_read refl lifts_bind [OF c] f)
qed

lemma lifts_main: "lifts ab emb (main_turn k s) (main_turn k (emb s))"
  by (cases "(k, s)" rule: main_turn.cases) (auto simp: start_leader_def stop_leader_def lifts_send_all)

definition emb_ring :: "'v bench_ring \<Rightarrow> ('v \<times> nat list) bench_ring" where
  "emb_ring R = \<lparr>nodes_of = map emb (nodes_of R), conns = conns R\<rparr>"

definition emb_threads :: "'v bench_threads \<Rightarrow> ('v \<times> nat list) bench_threads" where
  "emb_threads T = \<lparr>ring = emb_ring (ring T), receiving = receiving T, sending = sending T\<rparr>"

lemma emb_ring_simps [simp]: "conns (emb_ring R) = conns R" "length (nodes_of (emb_ring R)) = length (nodes_of R)"
  "j < length (nodes_of R) \<Longrightarrow> nodes_of (emb_ring R) ! j = emb (nodes_of R ! j)" "nodes_of (emb_ring R) = [] \<longleftrightarrow> nodes_of R = []"
  "ring (emb_threads T) = emb_ring (ring T)" "receiving (emb_threads T) = receiving T" "sending (emb_threads T) = sending T"
  "idle (emb_threads T) j \<longleftrightarrow> idle T j"
  by (simp_all add: emb_ring_def emb_threads_def idle_def)

lemma emb_threads_updates [simp]:
  "emb_threads (T\<lparr>ring := R\<rparr>) = (emb_threads T)\<lparr>ring := emb_ring R\<rparr>" "emb_threads (T\<lparr>receiving := r\<rparr>) = (emb_threads T)\<lparr>receiving := r\<rparr>"
  "emb_threads (T\<lparr>sending := r\<rparr>) = (emb_threads T)\<lparr>sending := r\<rparr>"
  by (simp_all add: emb_threads_def)

lemma emb_flush: "flush_node j (emb s) bs (emb_ring R) = emb_ring (flush_node j s bs R)"
  by (simp add: flush_node_def emb_ring_def Let_def map_update)

lemma lifts_move: "lifts True emb_threads (move_step lk V size_t a T) (move_step lk (with_room V ct) size_t a (emb_threads T))"
proof -
  let ?R = "ring T"
  have ab: "lifts True emb (exec V c s) (exec (with_room V ct) c (emb s))" for c and s :: "'a tcp_node"
    using lifts_exec [of c V s ct] lifts_ab [of emb "exec V c s" "exec (with_room V ct) c (emb s)" True] by (cases "adds c") simp_all
  show ?thesis
  proof (cases a)
    case (Take j)
    then show ?thesis
      by (auto simp: Let_def emb_flush intro!: lifts_bind [OF lifts_take])
  next
    case (Make j now)
    then show ?thesis
      by (auto simp: Let_def emb_flush intro!: lifts_bind [OF lifts_make])
  next
    case (Receiver j)
    then show ?thesis
      by (cases "receiving T j") (auto simp: Let_def emb_flush intro!: lifts_bind [OF ab])
  next
    case (Sender j)
    then show ?thesis
      by (cases "sending T j") (auto simp: Let_def emb_flush intro!: lifts_bind [OF ab])
  next
    case (Deliver j now)
    then show ?thesis
      by (auto simp: Let_def emb_flush intro!: lifts_bind [OF lifts_deliver])
  next
    case (Lead k)
    then show ?thesis
      by (auto simp: Let_def emb_flush intro!: lifts_bind [OF lifts_main])
  qed
qed

lemma room_run:
  "moves_run lk V size_t as T = Inr T' \<Longrightarrow> moves_run lk (with_room V ct) size_t as (emb_threads T) = Inr (emb_threads T')"
proof (induction as arbitrary: T)
  case (Cons a as)
  then obtain T1 where T1: "move_step lk V size_t a T = Inr T1" "moves_run lk V size_t as T1 = Inr T'" by (auto simp: bindE_eq_Inr)
  have "move_step lk (with_room V ct) size_t a (emb_threads T) = Inr (emb_threads T1)"
    using lifts_move [of lk V size_t a T ct] T1(1) by simp
  then show ?case using Cons.IH [OF T1(2)] by simp
qed simp

lemma lifts_initialize: "lifts ab emb (initialize V i n) (initialize (with_room V ct) i n)"
proof -
  let ?g = "map (map_option (\<lambda>v. (v, [])))"
  have u: "lifts ab ?g (updE vs i (Some v)) (updE (?g vs) i (Some (v, [])))" for i v and vs :: "'a option list"
    by (auto simp: updE_def map_update)
  have f: "lifts ab ?g (foldE (\<lambda>i vs. updE vs i (Some v)) is vs) (foldE (\<lambda>i vs. updE vs i (Some (v, []))) is (?g vs))" for "is" v and vs :: "'a option list"
    by (induction "is" arbitrary: vs) (simp, auto intro!: lifts_bind [OF u])
  have f0: "lifts ab ?g (foldE (\<lambda>i vs. updE vs i (Some (createVector V 5000))) is (replicate MAX_NODES None))
      (foldE (\<lambda>i vs. updE vs i (Some (createVector (with_room V ct) 5000))) is (replicate MAX_NODES None))" for "is"
    using f [of "createVector V 5000" "is" "replicate MAX_NODES None"] by simp
  show ?thesis
    unfolding initialize_def by (intro lifts_read lifts_bind [OF f0] refl) (simp add: emb_def)
qed

lemma room_start:
  assumes "threads_start V n T"
  shows "threads_start (with_room V ct) n (emb_threads T)"
proof -
  have "initialize (with_room V ct) (of_nat j) (of_nat n) = Inr (emb (nodes_of (ring T) ! j))" if "j < n" for j
    using lifts_initialize [of False V "of_nat j" "of_nat n" ct] assms that by (simp add: threads_start_def bench_start_def)
  then show ?thesis using assms by (simp add: threads_start_def bench_start_def)
qed

end
