(* ===== verification/BenchLocked.thy ===== *)
theory BenchLocked
  imports BenchRoom
begin

text \<open>
  The ring benchmark with a mutex around the turns of the threads of a process: the statements
  of a turn, between which other processes run, come to what the whole turn does at the time
  it begins. A state of the threads is related to the ring in which the turns under way have
  been ended; every move is a turn of this ring, or leaves it as it is.
\<close>

section \<open>Statements and what has been sent\<close>

definition fr :: "byte list list \<Rightarrow> (16 word \<times> 32 word) list \<Rightarrow> 'v tcp_node \<Rightarrow> 'v tcp_node" where
  "fr x y s = s\<lparr>outgoing := x, reported := y\<rparr>"

text \<open>A statement neither reads what has been sent and reported, nor reports.\<close>

definition framed :: "('v tcp_node \<Rightarrow> 'v tcp_node result) \<Rightarrow> bool" where
  "framed f \<longleftrightarrow> (\<forall>s t. f s = Inr t \<longrightarrow> (\<exists>bs. \<forall>x y. f (fr x y s) = Inr (fr (x @ bs) y t)))"

lemma fr_fields [simp]:
  "self_id (fr x y s) = self_id s" "num_nodes (fr x y s) = num_nodes s" "conf_bits (fr x y s) = conf_bits s" "seq_num (fr x y s) = seq_num s"
  "ack_num (fr x y s) = ack_num s" "vector_no_ack (fr x y s) = vector_no_ack s" "vector_ack (fr x y s) = vector_ack s"
  "highestDelivered (fr x y s) = highestDelivered s" "deliveryQueue (fr x y s) = deliveryQueue s" "my_sem (fr x y s) = my_sem s"
  "mesurement_started (fr x y s) = mesurement_started s" "bcounters (fr x y s) = bcounters s" "objs (fr x y s) = objs s" "next_obj (fr x y s) = next_obj s"
  "outgoing (fr x y s) = x" "answers (fr x y s) = answers s" "reported (fr x y s) = y" "started (fr x y s) = started s" "stopped (fr x y s) = stopped s"
  by (simp_all add: fr_def)

lemma fr_updates [simp]:
  "fr x y (s\<lparr>seq_num := w\<rparr>) = (fr x y s)\<lparr>seq_num := w\<rparr>" "fr x y (s\<lparr>ack_num := w\<rparr>) = (fr x y s)\<lparr>ack_num := w\<rparr>"
  "fr x y (s\<lparr>vector_no_ack := vs\<rparr>) = (fr x y s)\<lparr>vector_no_ack := vs\<rparr>" "fr x y (s\<lparr>vector_ack := v\<rparr>) = (fr x y s)\<lparr>vector_ack := v\<rparr>"
  "fr x y (s\<lparr>highestDelivered := w\<rparr>) = (fr x y s)\<lparr>highestDelivered := w\<rparr>" "fr x y (s\<lparr>deliveryQueue := q\<rparr>) = (fr x y s)\<lparr>deliveryQueue := q\<rparr>"
  "fr x y (s\<lparr>my_sem := k\<rparr>) = (fr x y s)\<lparr>my_sem := k\<rparr>" "fr x y (s\<lparr>objs := h\<rparr>) = (fr x y s)\<lparr>objs := h\<rparr>"
  "fr x y (s\<lparr>next_obj := k\<rparr>) = (fr x y s)\<lparr>next_obj := k\<rparr>" "fr x y (s\<lparr>answers := a\<rparr>) = (fr x y s)\<lparr>answers := a\<rparr>"
  "fr x y (s\<lparr>started := b\<rparr>) = (fr x y s)\<lparr>started := b\<rparr>" "fr x y (s\<lparr>stopped := b\<rparr>) = (fr x y s)\<lparr>stopped := b\<rparr>"
  "fr x y (s\<lparr>outgoing := z\<rparr>) = fr x y s"
  by (simp_all add: fr_def)

lemma framed_Inr: "framed Inr"
  by (auto simp: framed_def intro: exI [of _ "[]"])

lemma framed_Inl: "framed (\<lambda>s. Inl e)"
  by (simp add: framed_def)

lemma framed_bind: "framed f \<Longrightarrow> framed g \<Longrightarrow> framed (\<lambda>s. bindE (f s) g)"
  unfolding framed_def by (auto simp: bindE_eq_Inr) (metis append_assoc)

lemma framed_dep: "(\<And>x y s. h (fr x y s) = h s) \<Longrightarrow> (\<And>v. framed (f v)) \<Longrightarrow> framed (\<lambda>s. f (h s) s)"
  unfolding framed_def by auto

lemma framed_read: "(\<And>x y s. h (fr x y s) = h s) \<Longrightarrow> (\<And>v. framed (f v)) \<Longrightarrow> framed (\<lambda>s. bindE (h s) (\<lambda>v. f v s))"
  by (rule framed_dep [of h "\<lambda>r s. bindE r (\<lambda>v. f v s)"]) (auto simp: framed_def bindE_eq_Inr)

lemma framed_if: "framed f \<Longrightarrow> framed g \<Longrightarrow> framed (\<lambda>s. if c then f s else g s)"
  by (cases c) simp_all

lemma framed_upd: "(\<And>x y s. u (fr x y s) = fr x y (u s)) \<Longrightarrow> framed f \<Longrightarrow> framed (\<lambda>s. f (u s))"
  unfolding framed_def by auto

lemma fr_reads [simp]:
  "get_buffer p (fr x y s) = get_buffer p s" "get_info p (fr x y s) = get_info p s" "id_process p (fr x y s) = id_process p s"
  "seq_of p (fr x y s) = seq_of p s" "ack_of p (fr x y s) = ack_of p s" "get_vector pid (fr x y s) = get_vector pid s"
proof -
  show "get_buffer p (fr x y s) = get_buffer p s" "get_info p (fr x y s) = get_info p s"
    by (simp_all add: get_buffer_def get_info_def split: option.split)
  then show "id_process p (fr x y s) = id_process p s" "seq_of p (fr x y s) = seq_of p s" "ack_of p (fr x y s) = ack_of p s"
    "get_vector pid (fr x y s) = get_vector pid s"
    by (simp_all add: id_process_def seq_of_def ack_of_def get_vector_def)
qed

lemma framed_free: "framed (free_obj p)"
proof -
  have "free_obj p s = Inr t \<Longrightarrow> free_obj p (fr x y s) = Inr (fr (x @ []) y t)" for s t :: "'a tcp_node" and x y
    by (auto simp: free_obj_def split: option.splits)
  then show ?thesis unfolding framed_def by blast
qed

lemma framed_send_all: "framed (send_all bs)"
proof -
  have "send_all bs s = Inr t \<Longrightarrow> send_all bs (fr x y s) = Inr (fr (x @ [bs]) y t)" for s t :: "'a tcp_node" and x y
    by (auto simp: send_all_def assertE_def Let_def fr_def split: if_splits)
  then show ?thesis unfolding framed_def by blast
qed

lemma framed_broadcast: "framed (broadcast_msg p)"
proof -
  have "framed (\<lambda>s :: 'a tcp_node. bindE (get_buffer p s) (\<lambda>b. bindE (bindE (rd_int b 0) (\<lambda>len. rd b 0 (unat (scast len :: 64 word)))) (\<lambda>bs. send_all bs s)))"
    by (intro framed_read framed_send_all) simp_all
  then show ?thesis by (simp add: broadcast_msg_def [abs_def] bindE_assoc)
qed

text \<open>Where nothing is sent the result is the same state with another frame.\<close>

lemma framedI: "(\<And>s t x y. f s = Inr t \<Longrightarrow> f (fr x y s) = Inr (fr x y t)) \<Longrightarrow> framed f"
  unfolding framed_def by (metis append_Nil2)

lemma framed_save_ack: "framed (save_msg_in_vector_ack V p)"
  by (rule framedI) (auto simp: save_msg_in_vector_ack_def alloc_obj_def assertE_def split_def Let_def split: if_splits)

lemma framed_add_no_ack: "framed (add_no_ack V pid p)"
  by (rule framedI) (auto simp: add_no_ack_def assertE_def split_def Let_def bindE_eq_Inr split: if_splits)

lemma framed_move_first: "framed (move_first V pid)"
  by (rule framedI) (auto simp: move_first_def alloc_obj_def assertE_def split_def Let_def bindE_eq_Inr split: if_splits)

lemma framed_fold: "(\<And>i. framed (f i)) \<Longrightarrow> framed (foldE f is)"
proof (induction "is")
  case (Cons i "is")
  show ?case unfolding foldE_Cons_fun by (rule framed_bind) (use Cons in auto)
qed (simp add: framed_Inr)

lemma framed_clear_bit: "framed (clear_bit V kn pid i)"
  by (rule framedI) (auto simp: clear_bit_def bindE_eq_Inr split: if_splits)

lemma framed_deliver_ready: "framed (deliver_ready k V)"
proof (rule framedI)
  show "deliver_ready k V s = Inr t \<Longrightarrow> deliver_ready k V (fr x y s) = Inr (fr x y t)" for s t :: "'a tcp_node" and x y
  proof (induction k arbitrary: s)
    case 0
    then show ?case by (auto simp: bindE_eq_Inr split: if_splits prod.splits)
  next
    case (Suc k)
    show ?case
    proof (cases "0 < numberOfElt V (vector_ack s)")
      case True
      then obtain m bits where i: "get_info (elementAt V 0 (vector_ack s)) s = Inr (m, bits)" using Suc.prems by (auto simp: bindE_eq_Inr)
      show ?thesis
      proof (cases "bits = 0")
        case b: True
        then obtain q where q: "bqueueEnqueue (deliveryQueue s) (fst (removeFirst V (vector_ack s))) = Inr q"
          "deliver_ready k V (s\<lparr>vector_ack := snd (removeFirst V (vector_ack s)), deliveryQueue := q, highestDelivered := highestDelivered s + 1\<rparr>) = Inr t"
          using Suc.prems True i by (auto simp: bindE_eq_Inr split_def Let_def)
        then show ?thesis using Suc.IH [OF q(2)] True i b by (simp add: split_def Let_def)
      qed (use Suc.prems True i in simp)
    qed (use Suc.prems in simp)
  qed
qed

lemma framed_update: "framed (update_vector V p)"
proof -
  have c: "framed (\<lambda>s :: 'a tcp_node. clear_bits V kn pid s)" for kn pid
    unfolding clear_bits_def by (rule framed_dep [of "\<lambda>s. map int [0..<nat (numberOfElt V (vector_ack s))]"]) (simp_all add: framed_fold framed_clear_bit)
  have d: "framed (\<lambda>s1 :: 'a tcp_node. deliver_ready (nat (numberOfElt V (vector_ack s1))) V s1)"
    by (rule framed_dep [of "\<lambda>s1. nat (numberOfElt V (vector_ack s1))"]) (simp_all add: framed_deliver_ready)
  have "framed (\<lambda>s :: 'a tcp_node. bindE (clear_bits V (\<lambda>i. sint (word_of_int i + highestDelivered s) \<le> sint ak) pid s)
      (\<lambda>s1. deliver_ready (nat (numberOfElt V (vector_ack s1))) V s1))" for pid ak
    by (rule framed_dep [of highestDelivered]) (simp_all add: framed_bind c d)
  then have "framed (\<lambda>s :: 'a tcp_node. bindE (id_process p s) (\<lambda>pid. bindE (ack_of p s) (\<lambda>ak.
      bindE (clear_bits V (\<lambda>i. sint (word_of_int i + highestDelivered s) \<le> sint ak) pid s)
      (\<lambda>s1. deliver_ready (nat (numberOfElt V (vector_ack s1))) V s1))))"
    by (intro framed_read [of "id_process p"] framed_read [of "ack_of p"]) simp_all
  then show ?thesis unfolding update_vector_def [abs_def] .
qed

text \<open>A condition on the state, then a call or nothing.\<close>

lemma framed_when:
  "(\<And>x y s. c (fr x y s) = c s) \<Longrightarrow> framed f \<Longrightarrow> framed (\<lambda>s. if c s then f s else Inr s)"
  by (rule framed_dep [of c "\<lambda>b s. if b then f s else Inr s"]) (auto intro: framed_if framed_Inr)

lemma framed_send_ack: "framed (exec V (Send_ack m))"
proof -
  have b: "framed (\<lambda>s :: 'a tcp_node. bindE (broadcast_msg (Some a) s) (free_obj (Some a)))" for a
    by (rule framed_bind [OF framed_broadcast framed_free])
  have u: "framed (\<lambda>s :: 'a tcp_node. bindE (broadcast_msg (Some a) (s\<lparr>objs := (objs s)(a \<mapsto> bs), next_obj := k\<rparr>)) (free_obj (Some a)))" for a bs k
    by (rule framed_upd [OF _ b]) simp
  have d: "framed (\<lambda>s :: 'a tcp_node. bindE (broadcast_msg (Some (next_obj s))
      (s\<lparr>objs := (objs s)(next_obj s \<mapsto> Buffer (enc_ack pid sq (ack_num s))), next_obj := Suc (next_obj s)\<rparr>)) (free_obj (Some (next_obj s))))" for pid sq
    using framed_dep [of "\<lambda>s. (next_obj s, ack_num s)" "\<lambda>(a, r) s. bindE (broadcast_msg (Some a)
      (s\<lparr>objs := (objs s)(a \<mapsto> Buffer (enc_ack pid sq r)), next_obj := Suc a\<rparr>)) (free_obj (Some a))"] u by (auto simp: split_def)
  have "exec V (Send_ack m) = (\<lambda>s. bindE (id_process (Some m) s) (\<lambda>pid. bindE (seq_of (Some m) s) (\<lambda>sq. bindE (broadcast_msg (Some (next_obj s))
      (s\<lparr>objs := (objs s)(next_obj s \<mapsto> Buffer (enc_ack pid sq (ack_num s))), next_obj := Suc (next_obj s)\<rparr>)) (free_obj (Some (next_obj s))))))"
    by (rule ext) (simp add: prepare_ack_def alloc_obj_def broadcast_ack_def)
  then show ?thesis by (simp add: framed_read d)
qed

lemma framed_transfer: "framed (exec V (Transfer m))"
proof -
  have "framed (\<lambda>s :: 'a tcp_node. if self_id s \<noteq> get_predecessor (num_nodes s) pid then transfer_msg (Some m) s else Inr s)" for pid
    unfolding transfer_msg_def
    by (rule framed_when) (simp_all add: framed_broadcast)
  then have "framed (\<lambda>s :: 'a tcp_node. bindE (id_process (Some m) s) (\<lambda>pid. if self_id s \<noteq> get_predecessor (num_nodes s) pid then transfer_msg (Some m) s else Inr s))"
    by (intro framed_read) simp_all
  moreover have "exec V (Transfer m) = (\<lambda>s. bindE (id_process (Some m) s) (\<lambda>pid. if self_id s \<noteq> get_predecessor (num_nodes s) pid then transfer_msg (Some m) s else Inr s))"
    by (rule ext) simp
  ultimately show ?thesis by simp
qed

lemma framed_exec: "framed (exec V c)"
proof (cases c)
  case (Transfer m)
  then show ?thesis using framed_transfer by simp
next
  case (Send_ack m)
  then show ?thesis using framed_send_ack by simp
next
  case (Save_no_ack m)
  have "exec V c = (\<lambda>s. bindE (id_process (Some m) s) (\<lambda>pid. add_no_ack V pid (Some m) s))"
    by (rule ext) (simp add: Save_no_ack save_msg_in_vector_No_ack_def)
  then show ?thesis by (simp add: framed_read framed_add_no_ack)
next
  case (Move m)
  have "exec V c = (\<lambda>s. bindE (id_process (Some m) s) (\<lambda>pid. move_first V pid s))"
    by (rule ext) (simp add: Move move_msg_in_vector_ack_def)
  then show ?thesis by (simp add: framed_read framed_move_first)
next
  case (Forward_ack m)
  have "framed (\<lambda>s :: 'a tcp_node. if c_mod (sint (self_id s) + 1) (sint (num_nodes s)) \<noteq> 0 then transfer_ack (Some m) s else Inr s)"
    unfolding transfer_ack_def by (rule framed_when) (simp_all add: framed_broadcast)
  then have "framed (\<lambda>s :: 'a tcp_node. if num_nodes s = 0 then Inl MemFault
      else if c_mod (sint (self_id s) + 1) (sint (num_nodes s)) \<noteq> 0 then transfer_ack (Some m) s else Inr s)"
    unfolding framed_def by auto
  moreover have "exec V c = (\<lambda>s. if num_nodes s = 0 then Inl MemFault
      else if c_mod (sint (self_id s) + 1) (sint (num_nodes s)) \<noteq> 0 then transfer_ack (Some m) s else Inr s)"
    by (rule ext) (simp add: Forward_ack)
  ultimately show ?thesis by simp
next
  case (Pass_sign t)
  have "exec V c = (\<lambda>s. if self_id s \<noteq> 0 then send_all (enc_ok t) s else Inr s)"
    by (rule ext) (simp add: Pass_sign)
  then show ?thesis using framed_when [of "\<lambda>s. self_id s \<noteq> 0" "send_all (enc_ok t)"] framed_send_all by auto
next
  case (Broadcast m)
  have "exec V c = broadcast_msg (Some m)" by (rule ext) (simp add: Broadcast)
  then show ?thesis by (simp add: framed_broadcast)
next
  case (Update m)
  have "exec V c = update_vector V (Some m)" by (rule ext) (simp add: Update)
  then show ?thesis by (simp add: framed_update)
next
  case (Save_ack m)
  have "exec V c = save_msg_in_vector_ack V (Some m)" by (rule ext) (simp add: Save_ack)
  then show ?thesis by (simp add: framed_save_ack)
next
  case (Free_msg m)
  have "exec V c = free_obj (Some m)" by (rule ext) (simp add: Free_msg)
  then show ?thesis by (simp add: framed_free)
next
  case (Take_number m)
  show ?thesis unfolding Take_number by (rule framedI) (auto simp: bindE_eq_Inr)
next
  case Number
  show ?thesis unfolding Number by (rule framedI) auto
next
  case Post
  show ?thesis unfolding Post by (rule framedI) auto
next
  case Stop
  show ?thesis unfolding Stop by (rule framedI) auto
qed

lemma framed_execs: "framed (execs V cs)"
  unfolding execs_def by (rule framed_fold) (rule framed_exec)

lemma fr_self: "fr (outgoing s) (reported s) s = s"
  by (simp add: fr_def)

lemma fr_out: "s\<lparr>outgoing := x\<rparr> = fr x (reported s) s"
  by (simp add: fr_def)

lemma execs_frame:
  assumes "execs V cs s = Inr t"
  obtains bs where "outgoing t = outgoing s @ bs" "reported t = reported s" "\<And>x. execs V cs (s\<lparr>outgoing := x\<rparr>) = Inr (t\<lparr>outgoing := x @ bs\<rparr>)"
proof -
  obtain bs where bs: "\<And>x y. execs V cs (fr x y s) = Inr (fr (x @ bs) y t)"
    using framed_execs [of V cs] assms unfolding framed_def by blast
  have "Inr t = execs V cs (fr (outgoing s) (reported s) s)" by (simp add: fr_self assms)
  then have "t = fr (outgoing s @ bs) (reported s) t" unfolding bs by simp
  then have t: "outgoing t = outgoing s @ bs" "reported t = reported s" by (metis fr_fields(15,17))+
  show thesis by (rule that [OF t]) (use bs [of _ "reported s"] t(2) in \<open>simp add: fr_out\<close>)
qed

section \<open>Whole turns\<close>

lemma turns_total_order:
  assumes "vector_laws V ct" "2 \<le> n" "n \<le> 5" "23 \<le> sint size_t" "bench_start V n R" "bench_run V size_t R R'"
  shows "\<exists>order. (\<forall>j<n. prefix (map atag (reported (nodes_of R' ! j))) order) \<and> (\<forall>t \<in> set order. fst t < n) \<and>
    (\<forall>i<n. \<exists>m. filter (\<lambda>t. fst t = i) order = map (\<lambda>k. (i, of_nat (Suc k))) [0..<m])"
proof -
  have "\<exists>S. (seq_step n)\<^sup>*\<^sup>* \<lparr>ordered = (\<lambda>_. []), held_back = (\<lambda>_ _. []), link = (\<lambda>_. [])\<rparr> S \<and> refines False n ct R' S"
    by (rule bench_run_refines [OF assms(6,1) _ assms(4) start_refines [OF assms(1-3,5)]]) simp
  then obtain S where r: "refines False n ct R' S" by blast
  then have inv: "seq_inv n S" by (simp add: refines_def)
  have sh: "\<exists>ps. shows_node False n ct j (nodes_of R' ! j) (conns R' ! j) ps S" if "j < n" for j using r that by (simp add: refines_def)
  note I = seq_invD [OF inv]
  have "prefix (map atag (reported (nodes_of R' ! j))) (ordered S 0)" if j: "j < n" for j
  proof -
    from sh [OF j] obtain qs where "ordered S j = ord (tcp n) ct (nodes_of R' ! j) qs" by (auto simp: shows_node_def)
    then have "prefix (map atag (reported (nodes_of R' ! j))) (ordered S j)" by (simp add: ord_def)
    then show ?thesis using seq_agree [OF inv j] prefix_order.trans by blast
  qed
  moreover have "\<exists>m. filter (\<lambda>t. fst t = i) (ordered S 0) = map (\<lambda>k. (i, of_nat (Suc k))) [0..<m]" if i: "i < n" for i
  proof -
    from sh [OF i] obtain m where m: "known S i i = map (\<lambda>k. (i, of_nat (Suc k))) [0..<m]" by (auto simp: shows_node_def)
    have "prefix (of_sender i (ordered S 0)) (known S i i)"
      by (rule ordered_known [OF I(1) I(2) I(4)]) (use i assms(2) in auto)
    then obtain k where "of_sender i (ordered S 0) = take k (map (\<lambda>k. (i, of_nat (Suc k))) [0..<m])"
      unfolding m by (metis append_eq_conv_conj prefix_def)
    then have "of_sender i (ordered S 0) = map (\<lambda>k. (i, of_nat (Suc k))) [0..<min k m]"
      by (cases "k \<le> m") (simp_all add: take_map)
    then show ?thesis unfolding of_sender_def by blast
  qed
  moreover have "\<forall>t \<in> set (ordered S 0). fst t < n" using I(9) [of 0] assms(2) by auto
  ultimately show ?thesis by blast
qed

lemma turns_no_fault:
  assumes "vector_laws V ct" "\<forall>e v. fst (addElt V e v) = 1" "2 \<le> n" "n \<le> 5" "23 \<le> sint size_t" "bench_start V n R"
    "bench_run V size_t R R'" "j < n"
  shows "(conns R' ! j = [] \<or> (\<exists>rest s. process_msg V False (conns R' ! j) (nodes_of R' ! j) = Inr (rest, s))) \<and>
    (\<exists>s. send_msg V size_t now (nodes_of R' ! j) = Inr s) \<and>
    (deliver_turn now (nodes_of R' ! j) = Inl Blocks \<or> (\<exists>s. deliver_turn now (nodes_of R' ! j) = Inr s))"
proof -
  have "\<exists>S. (seq_step n)\<^sup>*\<^sup>* \<lparr>ordered = (\<lambda>_. []), held_back = (\<lambda>_ _. []), link = (\<lambda>_. [])\<rparr> S \<and> refines True n ct R' S"
    by (rule bench_run_refines [OF assms(7,1) assms(2,5) start_refines [OF assms(1,3,4,6)]])
  then obtain S where r: "refines True n ct R' S" by blast
  obtain qs where w: "well True n (tcp n) ct (nodes_of R' ! j) qs" "self_id (nodes_of R' ! j) = of_nat j"
    using r assms(8) by (auto simp: refines_def shows_node_def)
  have "okE True (send_msg V size_t now (nodes_of R' ! j)) (\<lambda>_. True)"
    by (rule okE_mono [OF send_msg_ok [OF assms(1) w(1) assms(2,8) w(2) assms(5), of now]]) simp
  moreover have "deliver_turn now (nodes_of R' ! j) = Inl Blocks \<or> (\<exists>s. deliver_turn now (nodes_of R' ! j) = Inr s)"
  proof (cases qs)
    case Nil
    then show ?thesis using w(1) deliver_turn_waits by blast
  next
    case (Cons e es)
    obtain s where "deliver_turn now (nodes_of R' ! j) = Inr s" using w(1) unfolding Cons by (rule bench_deliver_ok)
    then show ?thesis by blast
  qed
  moreover have "\<exists>rest s. process_msg V False (conns R' ! j) (nodes_of R' ! j) = Inr (rest, s)" if "conns R' ! j \<noteq> []"
    using bench_receive_ok [OF assms(1,2) r assms(8) that, of False] by (auto simp: okE_def split: sum.splits)
  ultimately show ?thesis by (auto simp: okE_def split: sum.splits)
qed

section \<open>The turns under way\<close>

text \<open>\<open>R\<close> is the ring in which the turns under way in \<open>T\<close> have been ended.\<close>

definition ends :: "'v vector_ops \<Rightarrow> nat \<Rightarrow> 'v bench_threads \<Rightarrow> 'v bench_ring \<Rightarrow> bool" where
  "ends V n T R \<longleftrightarrow> length (nodes_of (ring T)) = n \<and> length (conns (ring T)) = n \<and> length (nodes_of R) = n \<and> length (conns R) = n \<and>
     (\<forall>j<n. (receiving T j = [] \<or> sending T j = []) \<and> outgoing (nodes_of (ring T) ! j) = [] \<and>
       (\<exists>s. execs V (receiving T j @ sending T j) (nodes_of (ring T) ! j) = Inr s \<and> nodes_of R ! j = s\<lparr>outgoing := []\<rparr> \<and>
         conns R ! next_on n j = conns (ring T) ! next_on n j @ concat (outgoing s)))"

lemma endsD:
  assumes "ends V n T R"
  shows "length (nodes_of (ring T)) = n" "length (conns (ring T)) = n" "length (nodes_of R) = n" "length (conns R) = n"
    "\<And>j. j < n \<Longrightarrow> outgoing (nodes_of (ring T) ! j) = []" "\<And>j. j < n \<Longrightarrow> receiving T j = [] \<or> sending T j = []"
    "\<And>j. j < n \<Longrightarrow> \<exists>s. execs V (receiving T j @ sending T j) (nodes_of (ring T) ! j) = Inr s \<and> nodes_of R ! j = s\<lparr>outgoing := []\<rparr> \<and>
         conns R ! next_on n j = conns (ring T) ! next_on n j @ concat (outgoing s)"
  using assms unfolding ends_def by blast+

lemma next_on_onto:
  assumes "j < n"
  obtains k where "k < n" "next_on n k = j"
proof (cases j)
  case 0
  then show ?thesis using that [of "n - 1"] assms by (simp add: next_on_def)
next
  case (Suc i)
  then show ?thesis using that [of i] assms by (simp add: next_on_def)
qed

lemma ends_conns:
  assumes "ends V n T R" "j < n"
  obtains x where "conns R ! j = conns (ring T) ! j @ x"
proof -
  obtain k where k: "k < n" "next_on n k = j" by (rule next_on_onto [OF assms(2)])
  then show thesis using that endsD(7) [OF assms(1) k(1)] by blast
qed

lemma ends_idle:
  assumes "ends V n T R" "j < n" "idle T j"
  shows "nodes_of R ! j = nodes_of (ring T) ! j" "conns R ! next_on n j = conns (ring T) ! next_on n j"
  using endsD(5,7) [OF assms(1,2)] assms(3) by (auto simp: idle_def)

lemma flush_simps:
  assumes "length (nodes_of R) = n" "length (conns R) = n" "2 \<le> n" "j < n"
  shows "length (nodes_of (flush_node j s bs R)) = n" "length (conns (flush_node j s bs R)) = n"
    "nodes_of (flush_node j s bs R) ! j = s\<lparr>outgoing := []\<rparr>" "\<And>k. k \<noteq> j \<Longrightarrow> nodes_of (flush_node j s bs R) ! k = nodes_of R ! k"
    "conns (flush_node j s bs R) ! j = bs" "conns (flush_node j s bs R) ! next_on n j = conns R ! next_on n j @ concat (outgoing s)"
    "\<And>k. k \<noteq> j \<Longrightarrow> k \<noteq> next_on n j \<Longrightarrow> conns (flush_node j s bs R) ! k = conns R ! k"
  using assms next_on_lt [of n j] next_on_neq [of n j] by (simp_all add: flush_node_def Let_def)

lemma ends_moved:
  assumes e: "ends V n T R" and n: "2 \<le> n" and j: "j < n"
    and T1: "ring T1 = flush_node j s1 rest (ring T)" "\<And>k. k \<noteq> j \<Longrightarrow> receiving T1 k = receiving T k \<and> sending T1 k = sending T k"
      "receiving T1 j = [] \<or> sending T1 j = []" "execs V (receiving T1 j @ sending T1 j) s1 = Inr s2"
    and R1: "length (nodes_of R1) = n" "length (conns R1) = n" "nodes_of R1 ! j = s2\<lparr>outgoing := []\<rparr>" "\<And>k. k < n \<Longrightarrow> k \<noteq> j \<Longrightarrow> nodes_of R1 ! k = nodes_of R ! k"
      "conns R1 ! next_on n j = conns (ring T) ! next_on n j @ concat (outgoing s2)" "\<And>k. k < n \<Longrightarrow> k \<noteq> j \<Longrightarrow> k \<noteq> next_on n j \<Longrightarrow> conns R1 ! k = conns R ! k"
      "conns (ring T) ! j = pre @ rest" "conns R ! j = pre @ conns R1 ! j"
  shows "ends V n T1 R1"
proof -
  note E = endsD [OF e]
  note F = flush_simps [OF E(1,2) n j, where s = s1 and bs = rest, folded T1(1)]
  have "(receiving T1 k = [] \<or> sending T1 k = []) \<and> outgoing (nodes_of (ring T1) ! k) = [] \<and>
       (\<exists>s. execs V (receiving T1 k @ sending T1 k) (nodes_of (ring T1) ! k) = Inr s \<and> nodes_of R1 ! k = s\<lparr>outgoing := []\<rparr> \<and>
         conns R1 ! next_on n k = conns (ring T1) ! next_on n k @ concat (outgoing s))" if k: "k < n" for k
  proof (cases "k = j")
    case True
    obtain bs where bs: "outgoing s2 = outgoing s1 @ bs" "\<And>x. execs V (receiving T1 j @ sending T1 j) (s1\<lparr>outgoing := x\<rparr>) = Inr (s2\<lparr>outgoing := x @ bs\<rparr>)"
      using execs_frame [OF T1(4)] by metis
    then show ?thesis using True T1(3) R1(3,5) F(3,6) bs(2) [of "[]"] by simp
  next
    case False
    obtain s where s: "execs V (receiving T k @ sending T k) (nodes_of (ring T) ! k) = Inr s" "nodes_of R ! k = s\<lparr>outgoing := []\<rparr>"
      "conns R ! next_on n k = conns (ring T) ! next_on n k @ concat (outgoing s)" using E(7) [OF k] by blast
    have nk: "next_on n k < n" "next_on n k \<noteq> next_on n j" using next_on_inj [OF k j] False next_on_lt [of n k] n by simp_all
    have "conns R1 ! next_on n k = conns (ring T1) ! next_on n k @ concat (outgoing s)"
    proof (cases "next_on n k = j")
      case True
      then show ?thesis using s(3) R1(7,8) F(5) by simp
    next
      case nj: False
      then show ?thesis using s(3) R1(6) [OF nk(1)] nk(2) F(7) [OF nj nk(2)] by simp
    qed
    then show ?thesis using s T1(2) [OF False] F(4) [OF False] R1(4) [OF k False] E(5,6) [OF k] by simp
  qed
  then show ?thesis unfolding ends_def using F(1,2) R1(1,2) by blast
qed

section \<open>Every move is a turn, or ends nothing more\<close>

lemma recv_all_more: "recv_all k False bs = Inr (a, b) \<Longrightarrow> bs = a @ b \<and> length a = k \<and> recv_all k False (bs @ x) = Inr (a, b @ x)"
  by (auto simp: recv_all_def split: if_splits)

lemma take_msg_split:
  assumes "take_msg False bs s = Inr (rest, m, type, s1)"
  obtains pre where "bs = pre @ rest" "pre \<noteq> []" "outgoing s1 = outgoing s" "\<And>x. take_msg False (bs @ x) s = Inr (rest @ x, m, type, s1)"
proof -
  obtain lenb st where a: "recv_all 4 False bs = Inr (lenb, st)" "\<not> sint (of_bytes lenb :: 32 word) < 0" "\<not> sint (of_bytes lenb :: 32 word) < 4"
    using assms by (auto simp: take_msg_def bindE_eq_Inr Let_def split: if_splits)
  obtain body where b: "recv_all (nat (sint (of_bytes lenb :: 32 word)) - 4) False st = Inr (body, rest)"
    using assms a by (auto simp: take_msg_def bindE_eq_Inr Let_def alloc_obj_def)
  have g: "bs = lenb @ st" "length lenb = 4" "st = body @ rest" using recv_all_more [OF a(1)] recv_all_more [OF b] by auto
  have f: "bs = lenb @ body @ rest" "length lenb = 4" "\<And>x. recv_all 4 False (lenb @ body @ rest @ x) = Inr (lenb, body @ rest @ x)"
    "\<And>x. recv_all (nat (sint (of_bytes lenb :: 32 word)) - 4) False (body @ rest @ x) = Inr (body, rest @ x)"
    using recv_all_more [OF a(1)] recv_all_more [OF b] g by auto
  show thesis
    by (rule that [of "lenb @ body"]) (use assms a b f in \<open>auto simp: take_msg_def bindE_eq_Inr Let_def alloc_obj_def\<close>)
qed

lemma take_msg_part:
  assumes "take_msg False (bs @ x) s = Inr y"
  shows "take_msg False bs s = Inl Blocks \<or> (\<exists>z. take_msg False bs s = Inr z)"
proof (cases "recv_all 4 False bs")
  case (Inl e)
  then show ?thesis by (auto simp: take_msg_def recv_all_def split: if_splits)
next
  case (Inr r)
  obtain lenb st where r: "r = (lenb, st)" by (cases r)
  show ?thesis
  proof (cases "recv_all (nat (sint (of_bytes lenb :: 32 word)) - 4) False st")
    case (Inl e)
    then have "e = Blocks" by (auto simp: recv_all_def split: if_splits)
    then show ?thesis using assms Inr r Inl recv_all_more [of 4 bs lenb st x] by (auto simp: take_msg_def Let_def split: if_splits)
  next
    case i: (Inr r')
    obtain body rest where r': "r' = (body, rest)" by (cases r')
    show ?thesis
      using assms Inr r i r' recv_all_more [of 4 bs lenb st x] recv_all_more [OF i [unfolded r'], of x]
      by (auto simp: take_msg_def Let_def alloc_obj_def bindE_eq_Inr split: if_splits)
  qed
qed

lemma make_msg_outgoing: "make_msg size_t now s = Inr (m, s1) \<Longrightarrow> outgoing s1 = outgoing s"
  by (auto simp: make_msg_def prepare_msg_def alloc_obj_def Let_def split: if_splits)

text \<open>A turn begins: the ring makes all of it. \<open>cs\<close> are its statements.\<close>

lemma turn_begins:
  assumes e: "ends V n T R" and n: "2 \<le> n" and j: "j < n" and i: "idle T j"
    and T1: "ring T1 = flush_node j s1 rest (ring T)" "\<And>k. k \<noteq> j \<Longrightarrow> receiving T1 k = receiving T k \<and> sending T1 k = sending T k"
      "receiving T1 j = [] \<or> sending T1 j = []" "execs V (receiving T1 j @ sending T1 j) s1 = Inr s2"
    and bs: "conns (ring T) ! j = pre @ rest" "conns R ! j = pre @ rest'"
  shows "ends V n T1 (flush_node j s2 rest' R)"
proof -
  note E = endsD [OF e] and F = flush_simps [OF endsD(3,4) [OF e] n j]
  show ?thesis
    by (rule ends_moved [OF e n j T1]) (use F E ends_idle [OF e j i] bs in \<open>simp_all\<close>)
qed

text \<open>A turn goes on: the ring has it already.\<close>

lemma turn_goes_on:
  assumes e: "ends V n T R" and n: "2 \<le> n" and j: "j < n" and c: "receiving T j @ sending T j = c # cs"
    and x: "exec V c (nodes_of (ring T) ! j) = Inr s1"
    and T1: "ring T1 = flush_node j s1 (conns (ring T) ! j) (ring T)" "\<And>k. k \<noteq> j \<Longrightarrow> receiving T1 k = receiving T k \<and> sending T1 k = sending T k"
      "receiving T1 j = [] \<or> sending T1 j = []" "receiving T1 j @ sending T1 j = cs"
  shows "ends V n T1 R"
proof -
  note E = endsD [OF e]
  obtain s where s: "execs V (c # cs) (nodes_of (ring T) ! j) = Inr s" "nodes_of R ! j = s\<lparr>outgoing := []\<rparr>"
    "conns R ! next_on n j = conns (ring T) ! next_on n j @ concat (outgoing s)" using E(7) [OF j] c by auto
  have a: "execs V (receiving T1 j @ sending T1 j) s1 = Inr s" using s(1) x T1(4) by simp
  show ?thesis
    by (rule ends_moved [OF e n j T1(1-3) a, where pre = "[]"]) (use E s in simp_all)
qed

lemma locked_move:
  assumes V: "vector_laws V ct" and room: "\<forall>e v. fst (addElt V e v) = 1" and n: "2 \<le> n" "n \<le> 5" and sz: "23 \<le> sint size_t"
    and R0: "bench_start V n R0" "bench_run V size_t R0 R" and e: "ends V n T R" and mv: "move_step True V size_t a T = Inr T1"
  shows "\<exists>R1. bench_run V size_t R0 R1 \<and> ends V n T1 R1"
proof -
  note E = endsD [OF e]
  have step: "bench_run V size_t R0 R1" if "bench_step V size_t R R1" for R1
    using R0(2) that unfolding bench_run_def by (rule rtranclp.rtrancl_into_rtrancl)
  note ok = turns_no_fault [OF V room n sz R0]
  have same: "nodes_of R ! j = nodes_of (ring T) ! j" if "j < n" "idle T j" for j using ends_idle(1) [OF e that] .
  show ?thesis
  proof (cases a)
    case (Take j)
    then obtain rest m type s1 where t: "take_msg False (conns (ring T) ! j) (nodes_of (ring T) ! j) = Inr (rest, m, type, s1)"
      and j: "j < n" "\<not> stopped (nodes_of (ring T) ! j)" "idle T j"
      and T1: "T1 = T\<lparr>ring := flush_node j s1 rest (ring T), receiving := (receiving T)(j := treat_stmts m type s1)\<rparr>"
      using mv E(1) by (auto simp: Let_def bindE_eq_Inr split: if_splits)
    obtain x where x: "conns R ! j = conns (ring T) ! j @ x" by (rule ends_conns [OF e j(1)])
    obtain pre where pre: "conns (ring T) ! j = pre @ rest" "pre \<noteq> []" "take_msg False (conns R ! j) (nodes_of R ! j) = Inr (rest @ x, m, type, s1)"
      using take_msg_split [OF t] x same [OF j(1,3)] by metis
    obtain s2 where s2: "execs V (treat_stmts m type s1) s1 = Inr s2"
      using ok [OF j(1)] x pre by (auto simp: process_msg_stmts bindE_eq_Inr)
    then have "process_msg V False (conns R ! j) (nodes_of R ! j) = Inr (rest @ x, s2)" by (simp add: process_msg_stmts pre(3))
    then have st: "bench_step V size_t R (flush_node j s2 (rest @ x) R)"
      by (intro bench_step.receive) (use j E(3) same [OF j(1,3)] in auto)
    have "ends V n T1 (flush_node j s2 (rest @ x) R)"
      by (rule turn_begins [OF e n(1) j(1,3)]) (use T1 s2 j(3) pre(1) x in \<open>auto simp: idle_def\<close>)
    then show ?thesis using step [OF st] by blast
  next
    case (Make j now)
    then obtain m s1 where t: "make_msg size_t now (nodes_of (ring T) ! j) = Inr (m, s1)"
      and j: "j < n" "started (nodes_of (ring T) ! j)" "idle T j"
      and T1: "T1 = T\<lparr>ring := flush_node j s1 (conns (ring T) ! j) (ring T), sending := (sending T)(j := send_stmts m s1)\<rparr>"
      using mv E(1) by (auto simp: Let_def bindE_eq_Inr split: if_splits)
    obtain s2 where s2: "execs V (send_stmts m s1) s1 = Inr s2" "send_msg V size_t now (nodes_of R ! j) = Inr s2"
      using ok [OF j(1), of now] t same [OF j(1,3)] by (auto simp: send_msg_stmts)
    then have st: "bench_step V size_t R (flush_node j s2 (conns R ! j) R)"
      by (intro bench_step.send) (use j E(3) same [OF j(1,3)] in auto)
    obtain x where x: "conns R ! j = conns (ring T) ! j @ x" by (rule ends_conns [OF e j(1)])
    have "ends V n T1 (flush_node j s2 (conns R ! j) R)"
      by (rule turn_begins [OF e n(1) j(1,3), where pre = "[]"]) (use T1 s2 j(3) in \<open>auto simp: idle_def\<close>)
    then show ?thesis using step [OF st] by blast
  next
    case (Receiver j)
    then obtain c cs s1 where c: "receiving T j = c # cs" "j < n" "exec V c (nodes_of (ring T) ! j) = Inr s1"
      and T1: "T1 = T\<lparr>ring := flush_node j s1 (conns (ring T) ! j) (ring T), receiving := (receiving T)(j := cs)\<rparr>"
      using mv E(1) by (auto simp: Let_def bindE_eq_Inr split: list.splits if_splits)
    have "sending T j = []" using E(6) [OF c(2)] c(1) by simp
    then have "ends V n T1 R"
      by (intro turn_goes_on [OF e n(1) c(2) _ c(3)]) (use T1 c(1) in auto)
    then show ?thesis using R0(2) by blast
  next
    case (Sender j)
    then obtain c cs s1 where c: "sending T j = c # cs" "j < n" "exec V c (nodes_of (ring T) ! j) = Inr s1"
      and T1: "T1 = T\<lparr>ring := flush_node j s1 (conns (ring T) ! j) (ring T), sending := (sending T)(j := cs)\<rparr>"
      using mv E(1) by (auto simp: Let_def bindE_eq_Inr split: list.splits if_splits)
    have "receiving T j = []" using E(6) [OF c(2)] c(1) by simp
    then have "ends V n T1 R"
      by (intro turn_goes_on [OF e n(1) c(2) _ c(3)]) (use T1 c(1) in auto)
    then show ?thesis using R0(2) by blast
  next
    case (Deliver j now)
    then obtain s1 where t: "deliver_turn now (nodes_of (ring T) ! j) = Inr s1" and j: "j < n" "idle T j"
      and T1: "T1 = T\<lparr>ring := flush_node j s1 (conns (ring T) ! j) (ring T)\<rparr>"
      using mv E(1) by (auto simp: Let_def bindE_eq_Inr split: if_splits)
    have st: "bench_step V size_t R (flush_node j s1 (conns R ! j) R)"
      by (rule bench_step.deliver) (use j E(3) t same [OF j] in auto)
    have "ends V n T1 (flush_node j s1 (conns R ! j) R)"
      by (rule turn_begins [OF e n(1) j, where pre = "[]"]) (use T1 j(2) in \<open>auto simp: idle_def\<close>)
    then show ?thesis using step [OF st] by blast
  next
    case (Lead k)
    then obtain s1 where t: "main_turn k (nodes_of (ring T) ! 0) = Inr s1" and j: "idle T 0"
      and T1: "T1 = T\<lparr>ring := flush_node 0 s1 (conns (ring T) ! 0) (ring T)\<rparr>"
      using mv E(1) by (auto simp: Let_def bindE_eq_Inr split: if_splits)
    have n0: "0 < n" using n(1) by simp
    have st: "bench_step V size_t R (flush_node 0 s1 (conns R ! 0) R)"
      by (rule bench_step.lead) (use n0 E(3) t same [OF n0 j] in auto)
    have "ends V n T1 (flush_node 0 s1 (conns R ! 0) R)"
      by (rule turn_begins [OF e n(1) n0 j, where pre = "[]"]) (use T1 j in \<open>auto simp: idle_def\<close>)
    then show ?thesis using step [OF st] by blast
  qed
qed

section \<open>The runs\<close>

lemma ends_start:
  assumes "vector_laws V ct" "2 \<le> n" "n \<le> 5" "threads_start V n T"
  shows "ends V n T (ring T)"
proof -
  have b: "bench_start V n (ring T)" "\<And>j. idle T j" using assms(4) by (simp_all add: threads_start_def)
  have "outgoing (nodes_of (ring T) ! j) = []" if j: "j < n" for j
  proof -
    obtain s where "initialize V (of_nat j) (of_nat n) = Inr s" "outgoing s = []" by (rule initialize_ok [OF assms(1-3) j])
    then show ?thesis using b(1) j by (simp add: bench_start_def)
  qed
  then show ?thesis using b by (simp add: ends_def bench_start_def idle_def)
qed

lemma locked_run:
  assumes "vector_laws V ct" "\<forall>e v. fst (addElt V e v) = 1" "2 \<le> n" "n \<le> 5" "23 \<le> sint size_t" "threads_start V n T"
    and "moves_run True V size_t as T = Inr T'"
  shows "\<exists>R. bench_run V size_t (ring T) R \<and> ends V n T' R"
  using assms(7)
proof (induction as arbitrary: T' rule: rev_induct)
  case Nil
  then show ?case using ends_start [OF assms(1,3,4,6)] by (auto simp: bench_run_def)
next
  case (snoc a as)
  then obtain T1 where T1: "moves_run True V size_t as T = Inr T1" "move_step True V size_t a T1 = Inr T'" by (auto simp: moves_run_snoc bindE_eq_Inr)
  obtain R where R: "bench_run V size_t (ring T) R" "ends V n T1 R" using snoc.IH [OF T1(1)] by blast
  have "bench_start V n (ring T)" using assms(6) by (simp add: threads_start_def)
  then show ?case by (rule locked_move [OF assms(1-5) _ R T1(2)])
qed

text \<open>Any vectors: the run with room, and a ring that has the turns under way.\<close>

lemma locked_run_room:
  assumes V: "vector_laws V ct" and n: "2 \<le> n" "n \<le> 5" and sz: "23 \<le> sint size_t" and st: "threads_start V n T" and run: "moves_run True V size_t as T = Inr T'"
  obtains R0 R where "bench_start (with_room V ct) n R0" "bench_run (with_room V ct) size_t R0 R" "ends (with_room V ct) n (emb_threads T') R"
    "length (nodes_of (ring T')) = n"
proof -
  note L = with_room_laws [OF V]
  note S = room_start [OF st, of ct]
  obtain R where R: "bench_run (with_room V ct) size_t (ring (emb_threads T)) R" "ends (with_room V ct) n (emb_threads T') R"
    using locked_run [OF L n sz S room_run [OF run]] by blast
  have "length (nodes_of (ring T')) = n" using endsD(1) [OF R(2)] by simp
  moreover have "bench_start (with_room V ct) n (ring (emb_threads T))" using S by (simp add: threads_start_def)
  ultimately show thesis using that R by blast
qed

lemma ends_next:
  assumes "ends V n T R" "j < n" "receiving T j = c # cs \<or> sending T j = c # cs"
  obtains s where "exec V c (nodes_of (ring T) ! j) = Inr s"
proof -
  have "\<exists>ds. receiving T j @ sending T j = c # ds" using endsD(6) [OF assms(1,2)] assms(3) by auto
  then show thesis using endsD(7) [OF assms(1,2)] that by (auto simp: bindE_eq_Inr)
qed

lemma ends_reported:
  assumes "ends V n T R" "j < n"
  shows "reported (nodes_of R ! j) = reported (nodes_of (ring T) ! j)"
proof -
  obtain s where s: "execs V (receiving T j @ sending T j) (nodes_of (ring T) ! j) = Inr s" "nodes_of R ! j = s\<lparr>outgoing := []\<rparr>"
    using endsD(7) [OF assms] by blast
  obtain bs where "reported s = reported (nodes_of (ring T) ! j)" by (rule execs_frame [OF s(1)])
  then show ?thesis using s(2) by simp
qed

end
