(* ===== verification/BenchProperties.thy ===== *)
theory BenchProperties
  imports BenchLocked
begin

text \<open>
  The properties of the ring benchmark: what holds when the turns of the threads of a process
  exclude each other, and what happens because they do not. Lists as vectors and two processes
  are for the instances.
\<close>

section \<open>Runs that can be computed\<close>

datatype turn = Receives nat | Sends nat | Delivers nat | Leads nat

fun turn_step :: "'v vector_ops \<Rightarrow> 32 word \<Rightarrow> turn \<Rightarrow> 'v bench_ring \<Rightarrow> 'v bench_ring result" where
  "turn_step V size_t (Receives j) R =
     (if j < length (nodes_of R) \<and> \<not> stopped (nodes_of R ! j)
      then bindE (process_msg V False (conns R ! j) (nodes_of R ! j)) (\<lambda>(rest, s). Inr (flush_node j s rest R)) else Inl Blocks)"
| "turn_step V size_t (Sends j) R =
     (if j < length (nodes_of R) \<and> started (nodes_of R ! j)
      then bindE (send_msg V size_t 0 (nodes_of R ! j)) (\<lambda>s. Inr (flush_node j s (conns R ! j) R)) else Inl Blocks)"
| "turn_step V size_t (Delivers j) R =
     (if j < length (nodes_of R)
      then bindE (deliver_turn 0 (nodes_of R ! j)) (\<lambda>s. Inr (flush_node j s (conns R ! j) R)) else Inl Blocks)"
| "turn_step V size_t (Leads k) R =
     (if nodes_of R \<noteq> [] then bindE (main_turn k (nodes_of R ! 0)) (\<lambda>s. Inr (flush_node 0 s (conns R ! 0) R)) else Inl Blocks)"

lemma turn_step_run: "turn_step V size_t a R = Inr R' \<Longrightarrow> bench_step V size_t R R'"
  by (cases a) (auto simp: bindE_eq_Inr intro: bench_step.intros split: if_splits)

lemma turns_run: "foldE (turn_step V size_t) as R = Inr R' \<Longrightarrow> bench_run V size_t R R'"
proof (induction as arbitrary: R)
  case Nil
  then show ?case by (simp add: bench_run_def)
next
  case (Cons a as)
  then obtain R1 where R1: "turn_step V size_t a R = Inr R1" "foldE (turn_step V size_t) as R1 = Inr R'" by (auto simp: bindE_eq_Inr)
  have "bench_step V size_t R R1" by (rule turn_step_run [OF R1(1)])
  then show ?case using Cons.IH [OF R1(2)] unfolding bench_run_def by (rule converse_rtranclp_into_rtranclp)
qed

definition two_nodes :: "nat list bench_ring result" where
  "two_nodes = bindE (initialize list_vectors 0 2) (\<lambda>a. bindE (initialize list_vectors 1 2) (\<lambda>b. Inr \<lparr>nodes_of = [a, b], conns = [[], []]\<rparr>))"

lemma two_nodes_start:
  obtains R where "two_nodes = Inr R" "bench_start list_vectors 2 R"
proof -
  obtain a where a: "initialize list_vectors (of_nat 0) (of_nat 2) = Inr a"
    by (rule initialize_ok [OF list_vectors_laws, of 2 0]) simp_all
  obtain b where b: "initialize list_vectors (of_nat 1) (of_nat 2) = Inr b"
    by (rule initialize_ok [OF list_vectors_laws, of 2 1]) simp_all
  have "initialize list_vectors (of_nat j) (of_nat 2) = Inr ([a, b] ! j)" if "j < 2" for j
  proof -
    from that have "j = 0 \<or> j = 1" by auto
    then show ?thesis using a b by auto
  qed
  moreover have "[[], []] = replicate 2 ([] :: byte list)" by (simp add: numeral_2_eq_2)
  ultimately have "bench_start list_vectors 2 \<lparr>nodes_of = [a, b], conns = [[], []]\<rparr>"
    by (simp add: bench_start_def)
  moreover have "two_nodes = Inr \<lparr>nodes_of = [a, b], conns = [[], []]\<rparr>" using a b by (simp add: two_nodes_def)
  ultimately show thesis using that by blast
qed

definition after_turns :: "turn list \<Rightarrow> nat list bench_ring result" where
  "after_turns as = bindE two_nodes (foldE (turn_step list_vectors 25) as)"

lemma after_turns_run:
  assumes "case after_turns as of Inl e \<Rightarrow> False | Inr R \<Rightarrow> P R"
  obtains R R' where "bench_start list_vectors 2 R" "bench_run list_vectors 25 R R'" "P R'"
proof -
  obtain R where R: "two_nodes = Inr R" "bench_start list_vectors 2 R" by (rule two_nodes_start)
  from assms obtain R' where R': "after_turns as = Inr R'" "P R'" by (auto split: sum.splits)
  have "foldE (turn_step list_vectors 25) as R = Inr R'" using R'(1) unfolding after_turns_def R(1) by simp
  from turns_run [OF this] show thesis by (rule that [OF R(2) _ R'(2)])
qed

text \<open>The leader sends a message; it gets one the other process has sent before the first sign of
  it came.\<close>

definition early_turns :: "turn list" where
  "early_turns = [Leads 0, Receives 1, Receives 0, Sends 1, Sends 0, Receives 0, Delivers 0]"

lemma early_turns_state:
  "case after_turns early_turns of Inl e \<Rightarrow> False
   | Inr R \<Rightarrow> map reported (nodes_of R) = [[(0, 1)], []] \<and> vector_no_ack (nodes_of R ! 1) ! 0 = Some [] \<and> vector_ack (nodes_of R ! 1) = []"
  by code_simp

lemma first_sign_state: "case after_turns [Leads 0] of Inl e \<Rightarrow> False | Inr R \<Rightarrow> conns R ! 1 \<noteq> []"
  by code_simp

text \<open>Runs of statements.\<close>

definition two_threads :: "nat list bench_threads result" where
  "two_threads = bindE two_nodes (\<lambda>R. Inr \<lparr>ring = R, receiving = (\<lambda>_. []), sending = (\<lambda>_. [])\<rparr>)"

definition after_moves :: "bool \<Rightarrow> move list \<Rightarrow> nat list bench_threads result" where
  "after_moves lk as = bindE two_threads (moves_run lk list_vectors 25 as)"

lemma after_moves_run:
  assumes "case after_moves lk as of Inl e \<Rightarrow> False | Inr T \<Rightarrow> P T"
  obtains T T' where "threads_start list_vectors 2 T" "moves_run lk list_vectors 25 as T = Inr T'" "P T'"
proof -
  obtain R where R: "two_nodes = Inr R" "bench_start list_vectors 2 R" by (rule two_nodes_start)
  let ?T = "\<lparr>ring = R, receiving = (\<lambda>_. []), sending = (\<lambda>_. [])\<rparr>"
  have "threads_start list_vectors 2 ?T" using R(2) by (simp add: threads_start_def idle_def)
  moreover have "after_moves lk as = moves_run lk list_vectors 25 as ?T" by (simp add: after_moves_def two_threads_def R(1))
  ultimately show thesis using assms that by (auto split: sum.splits)
qed

text \<open>The first sign goes round, and both processes may send.\<close>

definition first_sign :: "move list" where
  "first_sign = Lead 0 # Take 1 # replicate 3 (Receiver 1) @ Take 0 # replicate 3 (Receiver 0)"

definition locked_moves :: "move list" where
  "locked_moves = first_sign @ [Make 1 0, Sender 1, Sender 1] @ Make 0 0 # replicate 5 (Sender 0) @ Take 0 # replicate 5 (Receiver 0) @ [Deliver 0 0]"

lemma locked_moves_state: "case after_moves True locked_moves of Inl e \<Rightarrow> False | Inr T \<Rightarrow> map reported (nodes_of (ring T)) = [[(0, 1)], []]"
  by code_simp



text \<open>The leader has put its message into the vector and sent it when a message of the other process
  comes, which it acknowledges first.\<close>

definition order_race :: "move list" where
  "order_race = first_sign @ [Make 1 0, Sender 1, Sender 1, Make 0 0, Sender 0, Sender 0, Sender 0] @ Take 0 # replicate 5 (Receiver 0) @
     [Sender 0, Sender 0] @ Take 1 # replicate 3 (Receiver 1) @ Take 1 # replicate 4 (Receiver 1) @ Take 1 # replicate 4 (Receiver 1) @
     [Make 1 0, Sender 1, Sender 1, Make 0 0, Sender 0, Take 0, Receiver 0, Receiver 0, Take 1, Receiver 1, Receiver 1, Deliver 0 0, Deliver 1 0]"

lemma order_race_state: "case after_moves False order_race of Inl e \<Rightarrow> False | Inr T \<Rightarrow> map reported (nodes_of (ring T)) = [[(0, 1)], [(1, 1)]]"
  by code_simp

text \<open>The acknowledgement of a message comes back to its sender before it has saved the message.\<close>

definition empty_race :: "move list" where
  "empty_race = first_sign @ [Make 1 0, Sender 1] @ Take 0 # replicate 5 (Receiver 0) @ [Take 1]"

lemma empty_race_state:
  "case after_moves False empty_race of Inl e \<Rightarrow> False | Inr T \<Rightarrow> receiving T 1 = [Move 2, Take_number 2, Forward_ack 2, Free_msg 2] \<and>
     get_buffer (Some 2) (nodes_of (ring T) ! 1) = Inr (enc_ack 1 1 1) \<and> vector_no_ack (nodes_of (ring T) ! 1) ! 1 = Some []"
  by code_simp

section \<open>The properties\<close>

text \<open>C14: when in every process the turns of the threads exclude each other (no thread of it begins a
  turn while another is within one, as with a mutex; between the statements of a turn the other
  processes go on), the processes of the ring benchmark deliver messages in one order, each a
  beginning of it, and in that order the messages of a process have the numbers 1, 2, 3, ...:
  none is lost, doubled or out of place. Vectors may refuse elements, which aborts the process.
  Without the exclusion, which the program does not have, C19 applies.\<close>

theorem bench_total_order:
  assumes "vector_laws V ct" "2 \<le> n" "n \<le> 5" "23 \<le> sint size_t" "threads_start V n T" "moves_run True V size_t as T = Inr T'"
  shows "\<exists>order. (\<forall>j<n. prefix (map atag (reported (nodes_of (ring T') ! j))) order) \<and> (\<forall>t \<in> set order. fst t < n) \<and>
    (\<forall>i<n. \<exists>m. filter (\<lambda>t. fst t = i) order = map (\<lambda>k. (i, of_nat (Suc k))) [0..<m])"
proof -
  obtain R0 R where R: "bench_start (with_room V ct) n R0" "bench_run (with_room V ct) size_t R0 R" "ends (with_room V ct) n (emb_threads T') R"
    "length (nodes_of (ring T')) = n" by (rule locked_run_room [OF assms])
  have "reported (nodes_of R ! j) = reported (nodes_of (ring T') ! j)" if "j < n" for j
    using ends_reported [OF R(3) that] R(4) that by simp
  then show ?thesis using turns_total_order [OF with_room_laws(1) [OF assms(1)] assms(2-4) R(1,2)] by simp
qed

theorem bench_total_order_witness:
  "\<exists>T T' (order :: (nat \<times> 32 word) list). threads_start list_vectors 2 T \<and> moves_run True list_vectors 25 locked_moves T = Inr T' \<and>
     reported (nodes_of (ring T') ! 0) = [(0, 1)] \<and> prefix [(0, 1)] order \<and> (\<exists>m. filter (\<lambda>t. fst t = 0) order = map (\<lambda>k. (0, of_nat (Suc k))) [0..<m])"
proof -
  obtain T T' where T: "threads_start list_vectors 2 T" "moves_run True list_vectors 25 locked_moves T = Inr T'"
    "map reported (nodes_of (ring T')) = [[(0, 1)], []]" by (rule after_moves_run [OF locked_moves_state])
  then have rep: "reported (nodes_of (ring T') ! 0) = [(0, 1)]" by (cases "nodes_of (ring T')") auto
  have "\<exists>order. (\<forall>j<2. prefix (map atag (reported (nodes_of (ring T') ! j))) order) \<and> (\<forall>t \<in> set order. fst t < 2) \<and>
    (\<forall>i<2. \<exists>m. filter (\<lambda>t. fst t = i) order = map (\<lambda>k. (i, of_nat (Suc k))) [0..<m])"
    by (rule bench_total_order [OF list_vectors_laws _ _ _ T(1,2)]) simp_all
  then obtain order :: "(nat \<times> 32 word) list" where o': "\<forall>j<2. prefix (map atag (reported (nodes_of (ring T') ! j))) order"
    "\<forall>i<2. \<exists>m. filter (\<lambda>t. fst t = i) order = map (\<lambda>k. (i, of_nat (Suc k))) [0..<m]" by blast
  have "prefix [(0, 1)] order" using spec [OF o'(1), of 0] by (simp add: rep atag_def)
  moreover have "\<exists>m. filter (\<lambda>t. fst t = 0) order = map (\<lambda>k. (0, of_nat (Suc k))) [0..<m]" using o'(2) by simp
  ultimately show ?thesis using T(1,2) rep by (intro exI [of _ T] exI [of _ T'] exI [of _ order]) simp
qed



text \<open>C18: a message can be delivered before all processes have it: \<^verbatim>\<open>update_vector\<close> takes a message
  with \<open>ack = k\<close> for an acknowledgement of entry \<open>k\<close>, which its sender has not seen (it compares
  with \<open>\<le>\<close>). Here the leader delivers its own message while the other process has not
  received it.\<close>

theorem bench_delivers_early:
  "\<exists>R R'. bench_start list_vectors 2 R \<and> bench_run list_vectors 25 R R' \<and> map reported (nodes_of R') = [[(0, 1)], []] \<and>
     vector_no_ack (nodes_of R' ! 1) ! 0 = Some [] \<and> vector_ack (nodes_of R' ! 1) = []"
proof -
  obtain R R' where R: "bench_start list_vectors 2 R" "bench_run list_vectors 25 R R'"
    "map reported (nodes_of R') = [[(0, 1)], []] \<and> vector_no_ack (nodes_of R' ! 1) ! 0 = Some [] \<and> vector_ack (nodes_of R' ! 1) = []"
    by (rule after_turns_run [OF early_turns_state])
  then show ?thesis by (intro exI [of _ R] exI [of _ R']) simp
qed

text \<open>C19: the threads of the program do not exclude each other, and then neither C14 nor C16 holds:
  in one run the leader, of which the two threads save two messages in one order and acknowledge
  them in the other, delivers a message first that is not the first another process delivers; in
  another run the acknowledgement of a message is to be treated by its sender before its sending
  thread has saved the message, so that it will take an element out of an empty vector.\<close>

theorem bench_races:
  "\<exists>T as T' bs T''. threads_start list_vectors 2 T \<and>
     moves_run False list_vectors 25 as T = Inr T' \<and> map reported (nodes_of (ring T')) = [[(0, 1)], [(1, 1)]] \<and>
     moves_run False list_vectors 25 bs T = Inr T'' \<and> receiving T'' 1 = [Move 2, Take_number 2, Forward_ack 2, Free_msg 2] \<and>
     get_buffer (Some 2) (nodes_of (ring T'') ! 1) = Inr (enc_ack 1 1 1) \<and> vector_no_ack (nodes_of (ring T'') ! 1) ! 1 = Some []"
proof -
  obtain R where R: "two_nodes = Inr R" "bench_start list_vectors 2 R" by (rule two_nodes_start)
  let ?T = "\<lparr>ring = R, receiving = (\<lambda>_. []), sending = (\<lambda>_. [])\<rparr>"
  have s: "threads_start list_vectors 2 ?T" using R(2) by (simp add: threads_start_def idle_def)
  have r: "after_moves False as = moves_run False list_vectors 25 as ?T" for as
    by (simp add: after_moves_def two_threads_def R(1))
  obtain T' where T': "moves_run False list_vectors 25 order_race ?T = Inr T'" "map reported (nodes_of (ring T')) = [[(0, 1)], [(1, 1)]]"
    using order_race_state unfolding r by (auto split: sum.splits)
  obtain T'' where T'': "moves_run False list_vectors 25 empty_race ?T = Inr T''" "receiving T'' 1 = [Move 2, Take_number 2, Forward_ack 2, Free_msg 2]"
     "get_buffer (Some 2) (nodes_of (ring T'') ! 1) = Inr (enc_ack 1 1 1)" "vector_no_ack (nodes_of (ring T'') ! 1) ! 1 = Some []"
    using empty_race_state unfolding r by (auto split: sum.splits)
  show ?thesis
    by (rule exI [of _ ?T], rule exI [of _ order_race], rule exI [of _ T'], rule exI [of _ empty_race], rule exI [of _ T''])
      (use s T' T'' in simp)
qed

end
