(* ===== verification/McastUdp.thy ===== *)
theory McastUdp
  imports Bench
begin

text \<open>
  The benchmark of broadcasts by multicast, \<^verbatim>\<open>protocol_udp/mainUDP.c\<close>. Every datagram goes to
  all processes, the sender included. Process 0, the leader, numbers the messages in the
  order they come to it and multicasts an acknowledgement of each. A datagram is a character
  (\<^verbatim>\<open>type\<close>) and what follows it: in a message \<^verbatim>\<open>id_process\<close> at 1, \<^verbatim>\<open>seq\<close> at 3, \<^verbatim>\<open>ack\<close> at 7,
  \<^verbatim>\<open>startMiliSeconds\<close> at 11, \<^verbatim>\<open>payload\<close> at 19; in an acknowledgement \<^verbatim>\<open>revNum\<close> at 7. Names end in
  \<open>_mc\<close> where \<open>RingTcp\<close> has a function of the same name.
\<close>

record 'v mcast_node = "'v bench" +
  prep_bits :: "32 word"
  test_started :: bool
  stopped_mc :: bool

definition ack_size :: nat where "ack_size = 11"

definition sizeof_mcast_header :: nat where "sizeof_mcast_header = 19"

text \<open>\<^verbatim>\<open>offsetof(mcast, startMiliSeconds)\<close>.\<close>

definition len_head_mcast :: "64 word" where "len_head_mcast = 11"

definition id_process_mc :: "nat option \<Rightarrow> ('v, 'z) bench_scheme \<Rightarrow> 16 word result" where
  "id_process_mc p s = bindE (get_buffer p s) (\<lambda>b. rd_short b 1)"

definition seq_mc :: "nat option \<Rightarrow> ('v, 'z) bench_scheme \<Rightarrow> 32 word result" where
  "seq_mc p s = bindE (get_buffer p s) (\<lambda>b. rd_int b 3)"

definition ack_mc :: "nat option \<Rightarrow> ('v, 'z) bench_scheme \<Rightarrow> 32 word result" where
  "ack_mc p s = bindE (get_buffer p s) (\<lambda>b. rd_int b 7)"

section \<open>Start\<close>

definition initialize_mc :: "'v vector_ops \<Rightarrow> 16 word \<Rightarrow> 32 word \<Rightarrow> 'v mcast_node result" where
  "initialize_mc V self n =
     bindE (shl1 (sint n)) (\<lambda>all.
     bindE (shl1 (sint self)) (\<lambda>mine.
     bindE (foldE (\<lambda>i vs. updE vs i (Some (createVector V 5000))) (map int [0..<nat (sint n)]) (replicate MAX_NODES None)) (\<lambda>vs.
       Inr \<lparr>self_id = self, num_nodes = n, conf_bits = all - 1, seq_num = 0, ack_num = 0,
         vector_no_ack = vs, vector_ack = createVector V 5000, highestDelivered = 0, deliveryQueue = newBqueue,
         my_sem = 0, mesurement_started = False, bcounters = bench_counters0, objs = (\<lambda>_. None), next_obj = 0,
         outgoing = [], answers = [], reported = [],
         prep_bits = (all - 1) AND NOT mine, test_started = False, stopped_mc = False\<rparr>)))"

section \<open>Sending\<close>

text \<open>A call of sendto; the program ends when it does not send all.\<close>

definition sendto_all :: "string \<Rightarrow> byte list \<Rightarrow> ('v, 'z) bench_scheme \<Rightarrow> ('v, 'z) bench_scheme result" where
  "sendto_all msg bs s =
     (let status = (case answers s of [] \<Rightarrow> int (length bs) | a # as \<Rightarrow> a)
      in if status = int (length bs)
         then Inr (s\<lparr>outgoing := outgoing s @ [bs], answers := tl (answers s)\<rparr>)
         else Inl (ExitFailure msg))"

definition enc_mcast :: "16 word \<Rightarrow> 32 word \<Rightarrow> 32 word \<Rightarrow> 64 word \<Rightarrow> byte list \<Rightarrow> byte list" where
  "enc_mcast pid sq ak now pl = [109] @ to_bytes 2 pid @ to_bytes 4 sq @ to_bytes 4 ak @ to_bytes 8 now @ pl"

definition enc_ack_mc :: "16 word \<Rightarrow> 32 word \<Rightarrow> 32 word \<Rightarrow> byte list" where
  "enc_ack_mc pid sq rv = [97] @ to_bytes 2 pid @ to_bytes 4 sq @ to_bytes 4 rv"

definition prepare_msg_mc :: "32 word \<Rightarrow> 16 word \<Rightarrow> 32 word \<Rightarrow> 32 word \<Rightarrow> 64 word \<Rightarrow> ('v, 'z) bench_scheme \<Rightarrow> (nat \<times> ('v, 'z) bench_scheme) result" where
  "prepare_msg_mc size_t pid sequence_number acknowledge_number now s =
     (if sint size_t < int sizeof_mcast_header then Inl MemFault
      else Inr (alloc_obj (Buffer (enc_mcast pid sequence_number acknowledge_number now
        (replicate (nat (sint size_t) - sizeof_mcast_header) 57))) s))"

text \<open>\<^verbatim>\<open>multicast_msg\<close> sends \<^verbatim>\<open>total_size\<close> bytes.\<close>

definition multicast_msg :: "32 word \<Rightarrow> nat option \<Rightarrow> ('v, 'z) bench_scheme \<Rightarrow> ('v, 'z) bench_scheme result" where
  "multicast_msg size_t p s =
     bindE (get_buffer p s) (\<lambda>b. bindE (rd b 0 (unat (scast size_t :: 64 word))) (\<lambda>bs. sendto_all ''sendto() multicast msg'' bs s))"

definition prepare_ack_mc :: "16 word \<Rightarrow> 32 word \<Rightarrow> 32 word \<Rightarrow> ('v, 'z) bench_scheme \<Rightarrow> nat \<times> ('v, 'z) bench_scheme" where
  "prepare_ack_mc pid sequence_number recv_number s = alloc_obj (Buffer (enc_ack_mc pid sequence_number recv_number)) s"

definition multicast_ack :: "nat option \<Rightarrow> ('v, 'z) bench_scheme \<Rightarrow> ('v, 'z) bench_scheme result" where
  "multicast_ack p s =
     bindE (get_buffer p s) (\<lambda>b. bindE (rd b 0 ack_size) (\<lambda>bs. sendto_all ''sendto() multicast ack'' bs s))"

section \<open>The vectors\<close>

definition save_msg_in_vector_No_ack_mc :: "'v vector_ops \<Rightarrow> nat option \<Rightarrow> ('v, 'z) bench_scheme \<Rightarrow> ('v, 'z) bench_scheme result" where
  "save_msg_in_vector_No_ack_mc V p s = bindE (id_process_mc p s) (\<lambda>message_id. add_no_ack V message_id p s)"

definition move_msg_in_vector_ack_mc :: "'v vector_ops \<Rightarrow> nat option \<Rightarrow> ('v, 'z) bench_scheme \<Rightarrow> ('v, 'z) bench_scheme result" where
  "move_msg_in_vector_ack_mc V p s = bindE (id_process_mc p s) (\<lambda>message_id. move_first V message_id s)"

definition update_vector_mc :: "'v vector_ops \<Rightarrow> nat option \<Rightarrow> ('v, 'z) bench_scheme \<Rightarrow> ('v, 'z) bench_scheme result" where
  "update_vector_mc V p s =
     bindE (id_process_mc p s) (\<lambda>pid. bindE (ack_mc p s) (\<lambda>ack_tmp.
     bindE (clear_bits V (\<lambda>i. sint (word_of_int i + highestDelivered s) \<le> sint ack_tmp) pid s) (\<lambda>s1.
       deliver_ready (nat (numberOfElt V (vector_ack s1))) V s1)))"

text \<open>For the leader: an entry is known to the sender when its number is below the acknowledged
  one.\<close>

definition update_vector_1 :: "'v vector_ops \<Rightarrow> nat option \<Rightarrow> ('v, 'z) bench_scheme \<Rightarrow> ('v, 'z) bench_scheme result" where
  "update_vector_1 V p s =
     bindE (id_process_mc p s) (\<lambda>pid. bindE (ack_mc p s) (\<lambda>ack_tmp.
     bindE (clear_bits V (\<lambda>i. sint (word_of_int i + highestDelivered s) < sint ack_tmp) pid s) (\<lambda>s1.
       deliver_ready (nat (numberOfElt V (vector_ack s1))) V s1)))"

section \<open>Receiving\<close>

definition acknowledge_mc :: "nat option \<Rightarrow> ('v, 'z) bench_scheme \<Rightarrow> ('v, 'z) bench_scheme result" where
  "acknowledge_mc p s =
     (let s1 = s\<lparr>ack_num := ack_num s + 1\<rparr>
      in bindE (id_process_mc p s1) (\<lambda>pid. bindE (seq_mc p s1) (\<lambda>sq.
         let (a, s2) = prepare_ack_mc pid sq (ack_num s1) s1
         in bindE (multicast_ack (Some a) s2) (free_obj (Some a)))))"

definition handle_msg_mc :: "'v vector_ops \<Rightarrow> nat option \<Rightarrow> ('v, 'z) bench_scheme \<Rightarrow> ('v, 'z) bench_scheme result" where
  "handle_msg_mc V p s =
     (if self_id s = 0
      then bindE (bindE (id_process_mc p s) (\<lambda>pid.
             if pid \<noteq> self_id s then bindE (update_vector_1 V p s) (save_msg_in_vector_ack V p)
             else bindE (save_msg_in_vector_ack V p s) (update_vector_mc V p)))
           (acknowledge_mc p)
      else bindE (save_msg_in_vector_No_ack_mc V p s) (update_vector_mc V p))"

definition handle_ack_mc :: "'v vector_ops \<Rightarrow> nat option \<Rightarrow> ('v, 'z) bench_scheme \<Rightarrow> ('v, 'z) bench_scheme result" where
  "handle_ack_mc V p s =
     (if self_id s = 0 then Inr s
      else bindE (move_msg_in_vector_ack_mc V p s) (\<lambda>s1. bindE (ack_mc p s1) (\<lambda>rv. Inr (s1\<lparr>ack_num := rv\<rparr>))))"

definition update_prepare_bits :: "int \<Rightarrow> 'v mcast_node \<Rightarrow> 'v mcast_node result" where
  "update_prepare_bits k s = bindE (shl1 k) (\<lambda>m. Inr (s\<lparr>prep_bits := prep_bits s AND NOT m\<rparr>))"

text \<open>What \<^verbatim>\<open>process_msg\<close> does with a datagram of a type: 'm' (109), 'a' (97), 'y' (121), 'z' (122),
  'n' (110), 'c' (99).\<close>

definition treat_datagram :: "'v vector_ops \<Rightarrow> nat \<Rightarrow> byte list \<Rightarrow> 'v mcast_node \<Rightarrow> 'v mcast_node result" where
  "treat_datagram V m b s =
     bindE (rd_char b 0) (\<lambda>type.
     if type = 109 then handle_msg_mc V (Some m) s
     else if type = 97 then bindE (handle_ack_mc V (Some m) s) (free_obj (Some m))
     else if type = 121 then
       bindE (if self_id s \<noteq> 0 then sendto_all ''sendto() sent z message'' [122, ucast (48 + self_id s)] s
              else if prep_bits s = 0
              then bindE (sendto_all ''sendto() sent incorrect c message'' [99] s) (\<lambda>s1. Inr (s1\<lparr>test_started := True\<rparr>))
              else Inr s)
         (free_obj (Some m))
     else if type = 122 then
       bindE (if self_id s = 0 then bindE (rd_char b 1) (\<lambda>c. update_prepare_bits (sint c - 48) s) else Inr s) (free_obj (Some m))
     else if type = 110 then bindE (free_obj (Some m) s) (\<lambda>s1. Inr (s1\<lparr>stopped_mc := True\<rparr>))
     else if type = 99 then free_obj (Some m) (s\<lparr>my_sem := Suc (my_sem s)\<rparr>)
     else free_obj (Some m) s)"

text \<open>A turn of the loop of \<^verbatim>\<open>process_msg\<close> on what \<^verbatim>\<open>recvfrom\<close> answers: an error, or a datagram, cut
  at the size of the buffer. The bytes of the buffer after it are not initialised; a buffer
  here ends with what was received.\<close>

definition process_msg_mc :: "'v vector_ops \<Rightarrow> 32 word \<Rightarrow> byte list option \<Rightarrow> 'v mcast_node \<Rightarrow> 'v mcast_node result" where
  "process_msg_mc V size_t dg s =
     (case dg of None \<Rightarrow> Inl (ExitFailure ''recvfrom() failed'')
      | Some d \<Rightarrow>
          if sint size_t < 0 then Inl (ExitFailure ''recvfrom() failed'')
          else let b = take (nat (sint size_t)) d; (m, s1) = alloc_obj (Buffer b) s
               in treat_datagram V m b s1)"

section \<open>The other threads\<close>

definition send_msg_mc :: "32 word \<Rightarrow> 64 word \<Rightarrow> ('v, 'z) bench_scheme \<Rightarrow> ('v, 'z) bench_scheme result" where
  "send_msg_mc size_t now s =
     (let s0 = s\<lparr>seq_num := seq_num s + 1\<rparr>
      in bindE (prepare_msg_mc size_t (self_id s0) (seq_num s0) (ack_num s0) now s0) (\<lambda>(m, s1).
         bindE (multicast_msg size_t (Some m) s1) (free_obj (Some m))))"

definition tag_of_mc :: "byte list \<Rightarrow> 16 word \<times> 32 word" where
  "tag_of_mc b = (of_bytes (take 2 (drop 1 b)), of_bytes (take 4 (drop 3 b)))"

definition count_delivery_mc :: "32 word \<Rightarrow> byte list \<Rightarrow> 64 word \<Rightarrow> ('v, 'z) bench_scheme \<Rightarrow> ('v, 'z) bench_scheme result" where
  "count_delivery_mc size_t b now s =
     bindE (rd_short b 1) (\<lambda>pid. bindE (rd b 11 8) (\<lambda>start.
     let c = bcounters s; size = scast size_t - len_head_mcast;
         c1 = (if pid = self_id s
               then c\<lparr>delivered_latency := delivered_latency c @ [(now, of_bytes start)],
                      messages_delivered_mesure := messages_delivered_mesure c + 1,
                      messages_bytes_delivered_mesure := messages_bytes_delivered_mesure c + size\<rparr>
               else c)
     in Inr (s\<lparr>bcounters := c1\<lparr>messages_delivered := messages_delivered c1 + 1,
          messages_bytes_delivered := messages_bytes_delivered c1 + size\<rparr>\<rparr>)))"

definition deliver_turn_mc :: "32 word \<Rightarrow> 64 word \<Rightarrow> ('v, 'z) bench_scheme \<Rightarrow> ('v, 'z) bench_scheme result" where
  "deliver_turn_mc size_t now s =
     bindE (bqueueDequeue (deliveryQueue s)) (\<lambda>(m, q).
     let s0 = s\<lparr>deliveryQueue := q\<rparr>
     in bindE (get_info m s0) (\<lambda>(message, bits).
        bindE (get_buffer message s0) (\<lambda>b.
        let s1 = s0\<lparr>reported := reported s0 @ [tag_of_mc b]\<rparr>
        in bindE (if mesurement_started s1 then count_delivery_mc size_t b now s1 else Inr s1) (\<lambda>s2.
           bindE (free_obj message s2) (free_obj m)))))"

text \<open>A turn of the loop of \<^verbatim>\<open>start_leader\<close>: whether it is over, or sends once more; the sign to
  stop; the main thread of the leader between its sleeps.\<close>

definition start_leader_turn :: "'v mcast_node \<Rightarrow> (bool \<times> 'v mcast_node) result" where
  "start_leader_turn s =
     (if test_started s then Inr (True, s)
      else bindE (sendto_all ''sendto() start leader'' [121] s) (\<lambda>s1. Inr (False, s1)))"

definition stop_leader_mc :: "('v, 'z) bench_scheme \<Rightarrow> ('v, 'z) bench_scheme result" where
  "stop_leader_mc s = sendto_all ''sendto() sent incorrect stop message'' [110] s"

fun main_turn_mc :: "nat \<Rightarrow> ('v, 'z) bench_scheme \<Rightarrow> ('v, 'z) bench_scheme result" where
  "main_turn_mc 0 s = Inr (s\<lparr>mesurement_started := True\<rparr>)"
| "main_turn_mc (Suc 0) s = Inr (s\<lparr>mesurement_started := False\<rparr>)"
| "main_turn_mc (Suc (Suc n)) s = stop_leader_mc s"

end
