(* ===== verification/McastHandlers.thy ===== *)
theory McastHandlers
  imports BenchInvariant McastUdp
begin

text \<open>
  What the threads of a process of the multicast benchmark do, in terms of the order it has
  built and of the messages it holds back, when the vectors take what they are given and
  sendto sends what it is given.
\<close>

section \<open>Messages\<close>

definition mcast :: "nat \<Rightarrow> byte list \<Rightarrow> bool" where
  "mcast n b \<longleftrightarrow> (\<exists>i q ak now pl. i < n \<and> b = enc_mcast (of_nat i) q ak now pl)"

definition udp :: "nat \<Rightarrow> fmt" where
  "udp n = (mcast n, \<lambda>b. atag (tag_of_mc b))"

lemma udp_simps [simp]: "fst (udp n) b = mcast n b" "snd (udp n) b = atag (tag_of_mc b)"
  by (simp_all add: udp_def)

lemma length_enc_mc [simp]: "length (enc_mcast pid q ak now pl) = 19 + length pl" "length (enc_ack_mc pid q rv) = 11"
  by (simp_all add: enc_mcast_def enc_ack_mc_def)

lemma holds_enc_mcast:
  "holds (enc_mcast pid q ak now pl) 0 [109]" "holds (enc_mcast pid q ak now pl) 1 (to_bytes 2 pid)"
  "holds (enc_mcast pid q ak now pl) 3 (to_bytes 4 q)" "holds (enc_mcast pid q ak now pl) 7 (to_bytes 4 ak)"
  "holds (enc_mcast pid q ak now pl) 11 (to_bytes 8 now)"
proof -
  have "holds (enc_mcast pid q ak now pl) 0 ([109] @ to_bytes 2 pid @ to_bytes 4 q @ to_bytes 4 ak @ to_bytes 8 now @ pl)"
    unfolding enc_mcast_def by (rule holds_whole)
  then show "holds (enc_mcast pid q ak now pl) 0 [109]" "holds (enc_mcast pid q ak now pl) 1 (to_bytes 2 pid)"
    "holds (enc_mcast pid q ak now pl) 3 (to_bytes 4 q)" "holds (enc_mcast pid q ak now pl) 7 (to_bytes 4 ak)"
    "holds (enc_mcast pid q ak now pl) 11 (to_bytes 8 now)"
    unfolding holds_append by simp_all
qed

lemma holds_enc_ack_mc:
  "holds (enc_ack_mc pid q rv) 0 [97]" "holds (enc_ack_mc pid q rv) 1 (to_bytes 2 pid)"
  "holds (enc_ack_mc pid q rv) 3 (to_bytes 4 q)" "holds (enc_ack_mc pid q rv) 7 (to_bytes 4 rv)"
proof -
  have "holds (enc_ack_mc pid q rv) 0 ([97] @ to_bytes 2 pid @ to_bytes 4 q @ to_bytes 4 rv)"
    unfolding enc_ack_mc_def by (rule holds_whole)
  then show "holds (enc_ack_mc pid q rv) 0 [97]" "holds (enc_ack_mc pid q rv) 1 (to_bytes 2 pid)"
    "holds (enc_ack_mc pid q rv) 3 (to_bytes 4 q)" "holds (enc_ack_mc pid q rv) 7 (to_bytes 4 rv)"
    unfolding holds_append by simp_all
qed

lemma tag_of_mcast [simp]: "tag_of_mc (enc_mcast pid q ak now pl) = (pid, q)"
  using holds_enc_mcast(2,3) [of pid q ak now pl] by (simp add: tag_of_mc_def holds_iff of_to_bytes)

lemma not_mcast_ack: "\<not> mcast n (enc_ack_mc pid q rv)"
proof
  assume "mcast n (enc_ack_mc pid q rv)"
  then obtain i q' ak now pl where "enc_ack_mc pid q rv = enc_mcast (of_nat i) q' ak now pl" by (auto simp: mcast_def)
  then have "hd (enc_ack_mc pid q rv) = hd (enc_mcast (of_nat i) q' ak now pl)" by (rule arg_cong)
  then show False by (simp add: enc_ack_mc_def enc_mcast_def)
qed

lemma mcast_fields:
  assumes "objs s p = Some (Buffer (enc_mcast pid q ak now pl))"
  shows "id_process_mc (Some p) s = Inr pid" "seq_mc (Some p) s = Inr q" "ack_mc (Some p) s = Inr ak"
  using assms
  by (simp_all add: id_process_mc_def seq_mc_def ack_mc_def get_buffer_def holds_rd_short [OF holds_enc_mcast(2)]
      holds_rd_int [OF holds_enc_mcast(3)] holds_rd_int [OF holds_enc_mcast(4)])

lemma ack_fields:
  assumes "objs s p = Some (Buffer (enc_ack_mc pid q rv))"
  shows "id_process_mc (Some p) s = Inr pid" "ack_mc (Some p) s = Inr rv"
  using assms
  by (simp_all add: id_process_mc_def ack_mc_def get_buffer_def holds_rd_short [OF holds_enc_ack_mc(2)] holds_rd_int [OF holds_enc_ack_mc(4)])

section \<open>The order and the messages held back\<close>

text \<open>\<open>keeps s qs os h\<close>: the process is well-formed with \<open>qs\<close> in its queue, its order is \<open>os\<close>, the
  messages it holds back are \<open>h\<close>.\<close>

definition keeps :: "nat \<Rightarrow> ('v \<Rightarrow> nat list) \<Rightarrow> ('v, 'z) bench_scheme \<Rightarrow> nat list \<Rightarrow> (nat \<times> 32 word) list \<Rightarrow> (nat \<Rightarrow> (nat \<times> 32 word) list) \<Rightarrow> bool" where
  "keeps n ct s qs os h \<longleftrightarrow> well True n (udp n) ct s qs \<and> ord (udp n) ct s qs = os \<and> hb n (udp n) ct s = h"

lemma okE_True: "okE True r P \<longleftrightarrow> (\<exists>x. r = Inr x \<and> P x)"
  by (simp add: okE_def split: sum.split)

lemma mc_keepsD:
  assumes "keeps n ct s qs os h"
  shows "well True n (udp n) ct s qs" "ord (udp n) ct s qs = os" "hb n (udp n) ct s = h" "n \<le> 5" "answers s = []"
    "\<And>p. next_obj s \<le> p \<Longrightarrow> objs s p = None" "next_obj s \<notin> set (used n ct s qs)"
  using assms wellD(2,10,11) [of True n "udp n" ct s qs] in_used(2) [of True n "udp n" ct s qs "next_obj s"]
  by (auto simp: keeps_def)

lemma keeps_outside:
  assumes "keeps n ct s qs os h" "num_nodes s' = num_nodes s" "vector_no_ack s' = vector_no_ack s" "vector_ack s' = vector_ack s"
    "deliveryQueue s' = deliveryQueue s" "reported s' = reported s" "answers s' = []" "objs s' = objs s" "next_obj s' = next_obj s"
  shows "keeps n ct s' qs os h" "used n ct s' qs = used n ct s qs"
proof -
  note K = mc_keepsD [OF assms(1)]
  have "well True n (udp n) ct s' qs \<and> used n ct s' qs = used n ct s qs \<and> hb n (udp n) ct s' = hb n (udp n) ct s \<and> ord (udp n) ct s' qs = ord (udp n) ct s qs"
    using well_outside [OF K(1) assms(2-6)] K(6) assms(7-9) by simp
  then show "keeps n ct s' qs os h" "used n ct s' qs = used n ct s qs" using K(2,3) by (simp_all add: keeps_def)
qed

lemma keeps_alloc:
  assumes "keeps n ct s qs os h" "objs s' = (objs s)(next_obj s \<mapsto> x)" "next_obj s' = Suc (next_obj s)"
    "num_nodes s' = num_nodes s" "vector_no_ack s' = vector_no_ack s" "vector_ack s' = vector_ack s"
    "deliveryQueue s' = deliveryQueue s" "reported s' = reported s" "answers s' = answers s"
  shows "keeps n ct s' qs os h" "next_obj s \<notin> set (used n ct s' qs)"
proof -
  note K = mc_keepsD [OF assms(1)]
  note A = well_alloc [OF K(1) assms(4-9,2,3)]
  show "keeps n ct s' qs os h" using A(1,3,4) K(2,3) by (simp add: keeps_def)
  show "next_obj s \<notin> set (used n ct s' qs)" using A(2,5) by simp
qed

lemma keeps_free:
  assumes "keeps n ct s qs os h" "p \<notin> set (used n ct s qs)" "objs s p = Some x"
  shows "free_obj (Some p) s = Inr (s\<lparr>objs := (objs s)(p := None)\<rparr>)" "keeps n ct (s\<lparr>objs := (objs s)(p := None)\<rparr>) qs os h"
proof -
  show "free_obj (Some p) s = Inr (s\<lparr>objs := (objs s)(p := None)\<rparr>)" using assms(3) by (simp add: free_obj_def)
  show "keeps n ct (s\<lparr>objs := (objs s)(p := None)\<rparr>) qs os h"
    using well_free [OF mc_keepsD(1) [OF assms(1)] assms(2)] mc_keepsD(2,3) [OF assms(1)] by (simp add: keeps_def)
qed

lemma sendto_ok:
  "answers s = [] \<Longrightarrow> sendto_all msg b s = Inr (s\<lparr>outgoing := outgoing s @ [b]\<rparr>)"
  by (cases s) (simp add: sendto_all_def)

lemma keeps_send: "keeps n ct s qs os h \<Longrightarrow> keeps n ct (s\<lparr>outgoing := outgoing s @ [b]\<rparr>) qs os h"
  by (rule keeps_outside(1)) (simp_all add: mc_keepsD(5))

lemma multicast_ack_ok:
  assumes "keeps n ct s qs os h" "objs s p = Some (Buffer (enc_ack_mc pid q rv))"
  shows "multicast_ack (Some p) s = Inr (s\<lparr>outgoing := outgoing s @ [enc_ack_mc pid q rv]\<rparr>)"
proof -
  have "rd (enc_ack_mc pid q rv) 0 ack_size = Inr (enc_ack_mc pid q rv)" by (simp add: rd_def ack_size_def)
  then show ?thesis using assms(2) sendto_ok [OF mc_keepsD(5) [OF assms(1)]] by (simp add: multicast_ack_def get_buffer_def)
qed

lemma update_vectors_ok:
  assumes V: "vector_laws V ct" and w: "keeps n ct s qs os h" and i: "i < n"
    and b: "objs s p = Some (Buffer (enc_mcast (of_nat i) q ak now pl))" and f: "f = update_vector_mc V \<or> f = update_vector_1 V"
  obtains s' qs' where "f (Some p) s = Inr s'" "same s s'" "keeps n ct s' qs' os h" "used n ct s' qs' = used n ct s qs"
    "objs s' p = objs s p"
proof -
  note K = mc_keepsD [OF w]
  define known where "known = (if f = update_vector_mc V then \<lambda>i. sint (word_of_int i + highestDelivered s) \<le> sint ak
    else (\<lambda>i. sint (word_of_int i + highestDelivered s) < sint ak))"
  obtain s' qs' where s': "bindE (clear_bits V known (of_nat i) s)
      (\<lambda>s1. deliver_ready (nat (numberOfElt V (vector_ack s1))) V s1) = Inr s'" "same s s'" "well True n (udp n) ct s' qs'"
    "hb n (udp n) ct s' = hb n (udp n) ct s" "ord (udp n) ct s' qs' = ord (udp n) ct s qs" "used n ct s' qs' = used n ct s qs"
    "\<And>p b. objs s p = Some (Buffer b) \<Longrightarrow> objs s' p = Some (Buffer b)" "next_obj s' = next_obj s"
    by (rule update_loops_ok [OF V K(1) i, of known]) (rule that)
  have "f (Some p) s = Inr s'"
  proof (cases "f = update_vector_mc V")
    case True
    then show ?thesis using s'(1) mcast_fields [OF b] by (simp add: update_vector_mc_def known_def)
  next
    case False
    then show ?thesis using f s'(1) mcast_fields [OF b] by (simp add: update_vector_1_def known_def)
  qed
  moreover have "keeps n ct s' qs' os h" using s'(3-5) K(2,3) by (simp add: keeps_def)
  moreover have "objs s' p = objs s p" unfolding b by (rule s'(7) [OF b])
  ultimately show thesis by (intro that [OF _ s'(2) _ s'(6)])
qed

section \<open>Handling a message or an acknowledgement\<close>

text \<open>\<open>quiet s s'\<close>: what the handlers leave alone.\<close>

definition quiet :: "('v, 'z) bench_scheme \<Rightarrow> ('v, 'z) bench_scheme \<Rightarrow> bool" where
  "quiet s s' \<longleftrightarrow> steady s s' \<and> outgoing s' = outgoing s \<and> ack_num s' = ack_num s"

lemma same_quiet: "same s s' \<Longrightarrow> quiet s s'"
  by (simp add: same_def quiet_def steady_def)

lemma quiet_trans: "quiet s s1 \<Longrightarrow> quiet s1 s2 \<Longrightarrow> quiet s s2"
  by (simp add: quiet_def steady_def)

lemma mcast_in_use:
  assumes "objs s p = Some (Buffer (enc_mcast (of_nat i) q ak now pl))" "i < n"
  shows "is_msg (udp n) (objs s) p" "n \<le> 5 \<Longrightarrow> btag (udp n) (objs s) p = (i, q)"
  using assms unfolding is_msg_def udp_simps mcast_def by (blast, simp add: btag_def atag_def unat_id)

lemma acknowledge_mc_ok:
  assumes w: "keeps n ct s qs os h" and b: "objs s p = Some (Buffer (enc_mcast pid q ak now pl))"
  obtains s' where "acknowledge_mc (Some p) s = Inr s'" "keeps n ct s' qs os h" "steady s s'"
    "outgoing s' = outgoing s @ [enc_ack_mc pid q (ack_num s + 1)]" "ack_num s' = ack_num s + 1"
proof -
  let ?a = "next_obj s" and ?b = "enc_ack_mc pid q (ack_num s + 1)"
  let ?s2 = "s\<lparr>ack_num := ack_num s + 1, objs := (objs s)(?a \<mapsto> Buffer ?b), next_obj := Suc ?a\<rparr>"
  let ?s3 = "?s2\<lparr>outgoing := outgoing s @ [?b]\<rparr>"
  have a: "keeps n ct ?s2 qs os h" "?a \<notin> set (used n ct ?s2 qs)" using keeps_alloc [OF w, of ?s2] by simp_all
  have m: "multicast_ack (Some ?a) ?s2 = Inr ?s3" using multicast_ack_ok [OF a(1), of ?a] by simp
  have k: "keeps n ct ?s3 qs os h" "?a \<notin> set (used n ct ?s3 qs)"
    using keeps_outside [OF a(1), of ?s3] a(2) mc_keepsD(5) [OF w] by simp_all
  note F = keeps_free [OF k, of "Buffer ?b"]
  have "acknowledge_mc (Some p) s = Inr (?s3\<lparr>objs := (objs ?s3)(?a := None)\<rparr>)"
    using mcast_fields [of "s\<lparr>ack_num := ack_num s + 1\<rparr>" p] b m F(1)
    by (simp add: acknowledge_mc_def prepare_ack_mc_def alloc_obj_def Let_def)
  then show thesis by (rule that) (use F(2) in \<open>simp_all add: steady_def\<close>)
qed

lemma handle_msg_leader:
  assumes V: "vector_laws V ct" and room: "\<forall>e v. fst (addElt V e v) = 1" and w: "keeps n ct s qs os h" and i: "i < n"
    and lead: "self_id s = 0" and p: "p \<notin> set (used n ct s qs)" "objs s p = Some (Buffer (enc_mcast (of_nat i) q ak now pl))"
  obtains s' qs' where "handle_msg_mc V (Some p) s = Inr s'" "keeps n ct s' qs' (os @ [(i, q)]) h" "steady s s'"
    "outgoing s' = outgoing s @ [enc_ack_mc (of_nat i) q (ack_num s + 1)]" "ack_num s' = ack_num s + 1"
proof -
  let ?b = "enc_mcast (of_nat i) q ak now pl"
  have save: "\<exists>s'. save_msg_in_vector_ack V (Some p) s = Inr s' \<and> quiet s s' \<and> keeps n ct s' qs (os @ [(i, q)]) h \<and> objs s' p = Some (Buffer ?b)"
    if s: "keeps n ct s qs os h" "p \<notin> set (used n ct s qs)" "objs s p = Some (Buffer ?b)" for s :: "('a, 'c) bench_scheme" and qs os
  proof -
    note K = mc_keepsD [OF s(1)] and m = mcast_in_use [OF s(3) i]
    from save_ack_ok [OF V K(1) room s(2) m(1)] K(2,3) m(2) [OF K(4)] s(3) show ?thesis
      unfolding okE_True keeps_def by (auto dest: same_quiet)
  qed
  have upd: "\<exists>s' qs'. f (Some p) s = Inr s' \<and> quiet s s' \<and> keeps n ct s' qs' os h \<and> used n ct s' qs' = used n ct s qs \<and> objs s' p = Some (Buffer ?b)"
    if "keeps n ct s qs os h" "objs s p = Some (Buffer ?b)" "f = update_vector_mc V \<or> f = update_vector_1 V" for s :: "('a, 'c) bench_scheme" and qs os f
    using update_vectors_ok [OF V that(1) i that(2,3)] same_quiet that(2) by metis
  have "\<exists>s' qs'. bindE (id_process_mc (Some p) s) (\<lambda>pid.
             if pid \<noteq> self_id s then bindE (update_vector_1 V (Some p) s) (save_msg_in_vector_ack V (Some p))
             else bindE (save_msg_in_vector_ack V (Some p) s) (update_vector_mc V (Some p))) = Inr s' \<and>
           quiet s s' \<and> keeps n ct s' qs' (os @ [(i, q)]) h \<and> objs s' p = Some (Buffer ?b)"
  proof (cases "(of_nat i :: 16 word) = self_id s")
    case False
    obtain s1 qs1 where s1: "update_vector_1 V (Some p) s = Inr s1" "quiet s s1" "keeps n ct s1 qs1 os h" "used n ct s1 qs1 = used n ct s qs"
      "objs s1 p = Some (Buffer ?b)" using upd [OF w p(2)] by blast
    obtain s2 where s2: "save_msg_in_vector_ack V (Some p) s1 = Inr s2" "quiet s1 s2" "keeps n ct s2 qs1 (os @ [(i, q)]) h" "objs s2 p = Some (Buffer ?b)"
      using save [OF s1(3) _ s1(5)] s1(4) p(1) by auto
    show ?thesis
      by (rule exI [of _ s2], rule exI [of _ qs1]) (use False s1 s2 mcast_fields(1) [OF p(2)] quiet_trans [OF s1(2) s2(2)] in simp)
  next
    case True
    obtain s1 where s1: "save_msg_in_vector_ack V (Some p) s = Inr s1" "quiet s s1" "keeps n ct s1 qs (os @ [(i, q)]) h" "objs s1 p = Some (Buffer ?b)"
      using save [OF w p] by blast
    obtain s2 qs2 where s2: "update_vector_mc V (Some p) s1 = Inr s2" "quiet s1 s2" "keeps n ct s2 qs2 (os @ [(i, q)]) h" "objs s2 p = Some (Buffer ?b)"
      using upd [OF s1(3,4)] by blast
    show ?thesis
      by (rule exI [of _ s2], rule exI [of _ qs2]) (use True s1 s2 mcast_fields(1) [OF p(2)] quiet_trans [OF s1(2) s2(2)] in simp)
  qed
  then obtain s1 qs1 where s1: "bindE (id_process_mc (Some p) s) (\<lambda>pid.
             if pid \<noteq> self_id s then bindE (update_vector_1 V (Some p) s) (save_msg_in_vector_ack V (Some p))
             else bindE (save_msg_in_vector_ack V (Some p) s) (update_vector_mc V (Some p))) = Inr s1"
    "quiet s s1" "keeps n ct s1 qs1 (os @ [(i, q)]) h" "objs s1 p = Some (Buffer ?b)" by blast
  obtain s2 where s2: "acknowledge_mc (Some p) s1 = Inr s2" "keeps n ct s2 qs1 (os @ [(i, q)]) h" "steady s1 s2"
    "outgoing s2 = outgoing s1 @ [enc_ack_mc (of_nat i) q (ack_num s1 + 1)]" "ack_num s2 = ack_num s1 + 1"
    by (rule acknowledge_mc_ok [OF s1(3,4)])
  have "handle_msg_mc V (Some p) s = Inr s2" using lead s1(1) s2(1) by (simp add: handle_msg_mc_def)
  then show thesis by (rule that [OF _ s2(2)]) (use s1(2) s2 in \<open>simp_all add: quiet_def steady_def\<close>)
qed

lemma handle_msg_other:
  assumes V: "vector_laws V ct" and room: "\<forall>e v. fst (addElt V e v) = 1" and w: "keeps n ct s qs os h" and i: "i < n"
    and other: "self_id s \<noteq> 0" and p: "p \<notin> set (used n ct s qs)" "objs s p = Some (Buffer (enc_mcast (of_nat i) q ak now pl))"
  obtains s' qs' where "handle_msg_mc V (Some p) s = Inr s'" "keeps n ct s' qs' os (h(i := h i @ [(i, q)]))" "quiet s s'"
proof -
  note K = mc_keepsD [OF w] and m = mcast_in_use [OF p(2) i]
  obtain s1 vs where s1: "add_no_ack V (of_nat i) (Some p) s = Inr s1" "s1 = s\<lparr>vector_no_ack := vs\<rparr>" "well True n (udp n) ct s1 qs"
    "hb n (udp n) ct s1 = h(i := h i @ [(i, q)])" "ord (udp n) ct s1 qs = os"
    using add_no_ack_ok [OF V K(1) room p(1) m(1) i] K(2,3) m(2) [OF K(4)] unfolding okE_True by auto
  have k1: "keeps n ct s1 qs os (h(i := h i @ [(i, q)]))" using s1(3-5) by (simp add: keeps_def)
  have "quiet s s1" "objs s1 p = objs s p" by (simp_all add: s1(2) quiet_def steady_def)
  then obtain s2 qs2 where s2: "update_vector_mc V (Some p) s1 = Inr s2" "quiet s1 s2" "keeps n ct s2 qs2 os (h(i := h i @ [(i, q)]))"
    using update_vectors_ok [OF V k1 i, of p q ak now pl "update_vector_mc V"] p(2) same_quiet by metis
  have "handle_msg_mc V (Some p) s = Inr s2"
    using other s1(1) s2(1) mcast_fields(1) [OF p(2)] by (simp add: handle_msg_mc_def save_msg_in_vector_No_ack_mc_def)
  then show thesis by (rule that [OF _ s2(3) quiet_trans [OF \<open>quiet s s1\<close> s2(2)]])
qed

text \<open>An acknowledgement orders the first message of its sender that is held back.\<close>

lemma handle_ack_other:
  assumes V: "vector_laws V ct" and room: "\<forall>e v. fst (addElt V e v) = 1" and w: "keeps n ct s qs os h" and i: "i < n"
    and other: "self_id s \<noteq> 0" and hold: "h i = t # ts" and p: "objs s p = Some (Buffer (enc_ack_mc (of_nat i) q rv))"
  obtains s' where "handle_ack_mc V (Some p) s = Inr s'" "keeps n ct s' qs (os @ [t]) (h(i := ts))" "steady s s'" "outgoing s' = outgoing s"
    "p \<notin> set (used n ct s' qs)" "objs s' p = objs s p"
proof -
  note K = mc_keepsD [OF w]
  have pn: "p \<noteq> next_obj s" using K(6) [of "next_obj s"] p by auto
  have "hb n (udp n) ct s i = t # ts" using hold K(3) by simp
  from move_first_ok [OF V K(1) room i this] K(2,3) pn
  obtain s1 where s1: "move_first V (of_nat i) s = Inr s1" "same s s1" "keeps n ct s1 qs (os @ [t]) (h(i := ts))" "objs s1 p = objs s p"
    unfolding okE_True keeps_def by auto
  have b1: "objs s1 p = Some (Buffer (enc_ack_mc (of_nat i) q rv))" using s1(4) p by simp
  let ?s2 = "s1\<lparr>ack_num := rv\<rparr>"
  have k2: "keeps n ct ?s2 qs (os @ [t]) (h(i := ts))" using keeps_outside(1) [OF s1(3), of ?s2] mc_keepsD(5) [OF s1(3)] by simp
  have "p \<notin> set (used n ct ?s2 qs)"
    by (rule other_buffer_free [OF mc_keepsD(1) [OF k2], of p "enc_ack_mc (of_nat i) q rv"]) (use b1 in \<open>simp_all add: not_mcast_ack\<close>)
  moreover have "handle_ack_mc V (Some p) s = Inr ?s2"
    using other s1(1) ack_fields(1) [OF p] ack_fields(2) [OF b1] by (simp add: handle_ack_mc_def move_msg_in_vector_ack_mc_def)
  ultimately show thesis using that k2 s1(2,4) by (simp add: same_def steady_def)
qed

end
