(* ===== verification/McastThreads.thy ===== *)
theory McastThreads
  imports McastHandlers
begin

text \<open>
  The turns of the threads of the multicast benchmark, the datagrams they exchange, and the
  runs of a process: any interleaving of its threads' turns.
\<close>

section \<open>Datagrams and runs\<close>

text \<open>A message, an acknowledgement, a sign of one character, the answer of a process that is
  ready.\<close>

datatype dgram = DMess nat "32 word" "32 word" "64 word" "byte list" | DAck nat "32 word" "32 word" | DSign byte | DReady nat

fun dgram_bytes :: "dgram \<Rightarrow> byte list" where
  "dgram_bytes (DMess i q ak now pl) = enc_mcast (of_nat i) q ak now pl"
| "dgram_bytes (DAck i q rv) = enc_ack_mc (of_nat i) q rv"
| "dgram_bytes (DSign t) = [t]"
| "dgram_bytes (DReady i) = [122, ucast (48 + of_nat i :: 16 word)]"

text \<open>A datagram that fits the receiving buffer; of the signs the one to stop ends the thread, a
  run is what comes before it.\<close>

fun fits :: "nat \<Rightarrow> 32 word \<Rightarrow> dgram \<Rightarrow> bool" where
  "fits n size_t (DMess i q ak now pl) \<longleftrightarrow> i < n \<and> 19 + int (length pl) \<le> sint size_t"
| "fits n size_t (DAck i q rv) \<longleftrightarrow> i < n"
| "fits n size_t (DSign t) \<longleftrightarrow> t = 121 \<or> t = 99"
| "fits n size_t (DReady i) \<longleftrightarrow> i < n"

datatype mc_turn = Arrives dgram | Broadcasts "64 word" | Hands_over "64 word" | Starts | Leads_mc nat

text \<open>A deliverer that finds nothing waits.\<close>

fun mc_step :: "'v vector_ops \<Rightarrow> 32 word \<Rightarrow> mc_turn \<Rightarrow> 'v mcast_node \<Rightarrow> 'v mcast_node result" where
  "mc_step V size_t (Arrives d) s = process_msg_mc V size_t (Some (dgram_bytes d)) s"
| "mc_step V size_t (Broadcasts now) s = send_msg_mc size_t now s"
| "mc_step V size_t (Hands_over now) s = (case deliver_turn_mc size_t now s of Inl Blocks \<Rightarrow> Inr s | r \<Rightarrow> r)"
| "mc_step V size_t Starts s = bindE (start_leader_turn s) (\<lambda>(over, s'). Inr s')"
| "mc_step V size_t (Leads_mc k) s = main_turn_mc k s"

definition mc_run :: "'v vector_ops \<Rightarrow> 32 word \<Rightarrow> mc_turn list \<Rightarrow> 'v mcast_node \<Rightarrow> 'v mcast_node result" where
  "mc_run V size_t ts s = foldE (mc_step V size_t) ts s"

fun datagrams :: "mc_turn list \<Rightarrow> dgram list" where
  "datagrams [] = []"
| "datagrams (Arrives d # ts) = d # datagrams ts"
| "datagrams (t # ts) = datagrams ts"

text \<open>The messages among datagrams, the acknowledged ones, and the acknowledgements of an order.\<close>

definition messages_in :: "dgram list \<Rightarrow> (nat \<times> 32 word) list" where
  "messages_in ds = concat (map (\<lambda>d. case d of DMess i q ak now pl \<Rightarrow> [(i, q)] | _ \<Rightarrow> []) ds)"

definition acked_in :: "dgram list \<Rightarrow> (nat \<times> 32 word) list" where
  "acked_in ds = concat (map (\<lambda>d. case d of DAck i q rv \<Rightarrow> [(i, q)] | _ \<Rightarrow> []) ds)"

definition acks_in :: "dgram list \<Rightarrow> byte list list" where
  "acks_in ds = concat (map (\<lambda>d. case d of DAck i q rv \<Rightarrow> [dgram_bytes d] | _ \<Rightarrow> []) ds)"

definition acks_sent :: "('v, 'z) bench_scheme \<Rightarrow> byte list list" where
  "acks_sent s = filter (\<lambda>b. hd b = 97) (outgoing s)"

definition numbered :: "(nat \<times> 32 word) list \<Rightarrow> byte list list" where
  "numbered os = map (\<lambda>k. enc_ack_mc (of_nat (fst (os ! k))) (snd (os ! k)) (of_nat (Suc k))) [0..<length os]"

text \<open>The datagrams come in order: each acknowledgement after its message, those of the messages of a
  sender as its messages came.\<close>

fun follows :: "(nat \<Rightarrow> (nat \<times> 32 word) list) \<Rightarrow> dgram list \<Rightarrow> bool" where
  "follows h [] \<longleftrightarrow> True"
| "follows h (DMess i q ak now pl # ds) \<longleftrightarrow> follows (h(i := h i @ [(i, q)])) ds"
| "follows h (DAck i q rv # ds) \<longleftrightarrow> (case h i of [] \<Rightarrow> False | t # ts \<Rightarrow> t = (i, q) \<and> follows (h(i := ts)) ds)"
| "follows h (d # ds) \<longleftrightarrow> follows h ds"

lemma numbered_snoc: "numbered (os @ [(i, q)]) = numbered os @ [enc_ack_mc (of_nat i) q (of_nat (Suc (length os)))]"
  by (auto simp: numbered_def nth_append)

lemma messages_in_simps [simp]:
  "messages_in [] = []" "messages_in (d # ds) = (case d of DMess i q ak now pl \<Rightarrow> [(i, q)] | _ \<Rightarrow> []) @ messages_in ds"
  by (simp_all add: messages_in_def)

lemma messages_in_snoc: "messages_in (ds @ [d]) = messages_in ds @ (case d of DMess i q ak now pl \<Rightarrow> [(i, q)] | _ \<Rightarrow> [])"
  by (simp add: messages_in_def)

lemma acked_in_simps [simp]:
  "acked_in [] = []" "acked_in (d # ds) = (case d of DAck i q rv \<Rightarrow> [(i, q)] | _ \<Rightarrow> []) @ acked_in ds"
  by (simp_all add: acked_in_def)

lemma acks_in_simps [simp]:
  "acks_in [] = []" "acks_in (d # ds) = (case d of DAck i q rv \<Rightarrow> [dgram_bytes d] | _ \<Rightarrow> []) @ acks_in ds"
  by (simp_all add: acks_in_def)

section \<open>The start of a process\<close>

lemma initialize_mc_ok:
  assumes V: "vector_laws V ct" and n: "2 \<le> n" "n \<le> 5" and j: "j < n"
  obtains s where "initialize_mc V (of_nat j) (of_nat n) = Inr s" "keeps n ct s [] [] (\<lambda>_. [])" "self_id s = of_nat j"
    "outgoing s = []" "ack_num s = 0" "prep_bits s = (push_bit n 1 - 1) AND NOT (push_bit j 1)" "\<not> test_started s" "\<not> stopped_mc s"
proof -
  let ?v = "Some (createVector V 5000)"
  note W = init_words [OF n(2) j] and vs = new_vectors [OF n(2), of ?v]
  obtain s where s: "initialize_mc V (of_nat j) (of_nat n) = Inr s" "self_id s = of_nat j" "num_nodes s = of_nat n"
    "vector_no_ack s = replicate n ?v @ replicate (5 - n) None" "vector_ack s = createVector V 5000" "deliveryQueue s = newBqueue"
    "objs s = (\<lambda>_. None)" "answers s = []" "reported s = []" "outgoing s = []" "ack_num s = 0"
    "prep_bits s = (push_bit n 1 - 1) AND NOT (push_bit j 1)" "\<not> test_started s" "\<not> stopped_mc s"
    using vs W by (simp add: initialize_mc_def)
  have "keeps n ct s [] [] (\<lambda>_. [])" using well_start [OF V n s(3-9)] by (simp add: keeps_def)
  then show thesis using that s by blast
qed

section \<open>Sending and delivering\<close>

lemma prepare_msg_mc_enc:
  assumes "19 \<le> sint size_t"
  defines "pl \<equiv> replicate (nat (sint size_t) - 19) 57"
  shows "prepare_msg_mc size_t pid q ak now s = Inr (alloc_obj (Buffer (enc_mcast pid q ak now pl)) s)"
    "unat (scast size_t :: 64 word) = length (enc_mcast pid q ak now pl)"
proof -
  show "prepare_msg_mc size_t pid q ak now s = Inr (alloc_obj (Buffer (enc_mcast pid q ak now pl)) s)"
    using assms(1) by (simp add: prepare_msg_mc_def sizeof_mcast_header_def pl_def)
  have "c_int (nat (sint size_t)) = size_t" "sint size_t < 2 ^ 31" using assms(1) sint_lt [of size_t] by (simp_all add: c_int_def)
  then have "uint (scast size_t :: 64 word) = sint size_t" using uint_scast_c_int [of "nat (sint size_t)"] assms(1) by simp
  then have "unat (scast size_t :: 64 word) = nat (sint size_t)" by (simp add: unat_eq_nat_uint)
  then show "unat (scast size_t :: 64 word) = length (enc_mcast pid q ak now pl)" using assms(1) by (simp add: pl_def)
qed

lemma send_msg_mc_ok:
  assumes w: "keeps n ct s qs os h" and size_t: "19 \<le> sint size_t"
  defines "pl \<equiv> replicate (nat (sint size_t) - 19) 57"
  obtains s' where "send_msg_mc size_t now s = Inr s'" "keeps n ct s' qs os h" "steady s s'" "ack_num s' = ack_num s"
    "outgoing s' = outgoing s @ [enc_mcast (self_id s) (seq_num s + 1) (ack_num s) now pl]"
proof -
  let ?p = "next_obj s" and ?b = "enc_mcast (self_id s) (seq_num s + 1) (ack_num s) now pl"
  let ?s1 = "s\<lparr>seq_num := seq_num s + 1, objs := (objs s)(?p \<mapsto> Buffer ?b), next_obj := Suc ?p\<rparr>"
  let ?s2 = "?s1\<lparr>outgoing := outgoing s @ [?b]\<rparr>"
  have a: "keeps n ct ?s1 qs os h" "?p \<notin> set (used n ct ?s1 qs)" using keeps_alloc [OF w, of ?s1] by simp_all
  note pr = prepare_msg_mc_enc [OF size_t, folded pl_def]
  have "rd ?b 0 (unat (scast size_t :: 64 word)) = Inr ?b" unfolding pr(2) [of "self_id s" "seq_num s + 1" "ack_num s" now] by (simp add: rd_def)
  then have m: "multicast_msg size_t (Some ?p) ?s1 = Inr ?s2"
    using sendto_ok [of ?s1] mc_keepsD(5) [OF w] by (simp add: multicast_msg_def get_buffer_def)
  have k: "keeps n ct ?s2 qs os h" "?p \<notin> set (used n ct ?s2 qs)" using keeps_outside [OF a(1), of ?s2] a(2) mc_keepsD(5) [OF w] by simp_all
  note F = keeps_free [OF k, of "Buffer ?b"]
  have "send_msg_mc size_t now s = Inr (?s2\<lparr>objs := (objs ?s2)(?p := None)\<rparr>)"
    using m F(1) by (simp add: send_msg_mc_def pr(1) alloc_obj_def Let_def)
  then show thesis by (rule that) (use F(2) in \<open>simp_all add: steady_def\<close>)
qed

lemma count_delivery_mc_ok:
  assumes "mcast n b"
  obtains s' where "count_delivery_mc size_t b now s = Inr s'" "s' = s\<lparr>bcounters := bcounters s'\<rparr>"
proof -
  obtain i q ak t pl where b: "b = enc_mcast (of_nat i) q ak t pl" using assms by (auto simp: mcast_def)
  have "rd b 11 8 = Inr (to_bytes 8 t)" unfolding b by (rule holds_rd [OF holds_enc_mcast(5)]) simp
  then show thesis using that by (simp add: count_delivery_mc_def b holds_rd_short [OF holds_enc_mcast(2)] Let_def)
qed

lemma hand_over_ok:
  assumes w: "keeps n ct s qs os h"
  obtains s' qs' where "mc_step V size_t (Hands_over now) s = Inr s'" "keeps n ct s' qs' os h" "outgoing s' = outgoing s"
    "self_id s' = self_id s" "ack_num s' = ack_num s" "bench.more s' = bench.more s"
proof (cases qs)
  case Nil
  have "deliver_turn_mc size_t now s = Inl Blocks"
    using brep_dequeue_blocks [of "deliveryQueue s"] wellD(6) [OF mc_keepsD(1) [OF w]] Nil by (simp add: deliver_turn_mc_def)
  then show thesis using that [of s qs] w by simp
next
  case (Cons e es)
  note K = mc_keepsD [OF w [unfolded Cons]]
  obtain q where q: "bqueueDequeue (deliveryQueue s) = Inr (Some e, q)" "brep q es 0" by (rule brep_dequeue_Cons [OF wellD(6) [OF K(1)]])
  obtain a b bs where o': "objs s e = Some (MsgInfo (Some a) b)" "objs s a = Some (Buffer bs)" "mcast n bs" and ea: "e \<noteq> a"
    by (rule first_info [OF K(1)]) simp
  define s0 where "s0 = s\<lparr>deliveryQueue := q, reported := reported s @ [tag_of_mc bs]\<rparr>"
  obtain s2 where s2: "(if mesurement_started s0 then count_delivery_mc size_t bs now s0 else Inr s0) = Inr s2" "s2 = s0\<lparr>bcounters := bcounters s2\<rparr>"
  proof (cases "mesurement_started s0")
    case True
    then show ?thesis by (metis that count_delivery_mc_ok [OF o'(3)])
  qed (use that [of s0] in simp)
  define s' where "s' = s2\<lparr>objs := (objs s)(a := None, e := None)\<rparr>"
  have "objs s2 = objs s" by (subst s2(2)) (simp add: s0_def)
  then have "bindE (free_obj (Some a) s2) (free_obj (Some e)) = Inr s'" using o' ea by (simp add: free_obj_def s'_def)
  moreover have "get_info (Some e) (s\<lparr>deliveryQueue := q\<rparr>) = Inr (Some a, b)" "get_buffer (Some a) (s\<lparr>deliveryQueue := q\<rparr>) = Inr bs"
    using o' by (simp_all add: get_info_def get_buffer_def)
  ultimately have run: "deliver_turn_mc size_t now s = Inr s'" using q(1) s2(1) unfolding deliver_turn_mc_def s0_def by simp
  have F: "num_nodes s' = num_nodes s" "vector_no_ack s' = vector_no_ack s" "vector_ack s' = vector_ack s" "brep (deliveryQueue s') es 0"
    "reported s' = reported s @ [tag_of_mc bs]" "answers s' = answers s" "objs s' = (objs s)(a := None, e := None)" "next_obj s' = next_obj s"
    "outgoing s' = outgoing s" "self_id s' = self_id s" "ack_num s' = ack_num s" "bench.more s' = bench.more s"
    unfolding s'_def by (subst s2(2), simp add: s0_def q(2))+
  note D = well_delivered [OF K(1) o'(1,2) F(1-5) _ F(6-8)]
  have k: "keeps n ct s' es os h" using D K(2,3) by (simp add: keeps_def)
  show thesis by (rule that [OF _ k F(9-12)]) (simp add: run)
qed

end
