(* ===== verification/McastRuns.thy ===== *)
theory McastRuns
  imports McastThreads
begin

text \<open>
  The runs of a process of the multicast benchmark: what the leader has numbered, what it has
  heard of the others, and what another process has put in order.
\<close>

section \<open>A datagram comes\<close>

definition received :: "dgram \<Rightarrow> 'v mcast_node \<Rightarrow> 'v mcast_node" where
  "received d s = s\<lparr>objs := (objs s)(next_obj s \<mapsto> Buffer (dgram_bytes d)), next_obj := Suc (next_obj s)\<rparr>"

lemma received_simps [simp]:
  "self_id (received d s) = self_id s" "ack_num (received d s) = ack_num s" "outgoing (received d s) = outgoing s"
  "reported (received d s) = reported s" "bench.more (received d s) = bench.more s" "prep_bits (received d s) = prep_bits s"
  "test_started (received d s) = test_started s" "stopped_mc (received d s) = stopped_mc s" "answers (received d s) = answers s"
  "objs (received d s) (next_obj s) = Some (Buffer (dgram_bytes d))"
  by (simp_all add: received_def)

lemma process_msg_mc_fits:
  assumes "fits n size_t d" "19 \<le> sint size_t"
  shows "process_msg_mc V size_t (Some (dgram_bytes d)) s = treat_datagram V (next_obj s) (dgram_bytes d) (received d s)"
proof -
  have "length (dgram_bytes d) \<le> nat (sint size_t)" using assms by (cases d) auto
  then show ?thesis using assms(2) by (simp add: process_msg_mc_def alloc_obj_def received_def Let_def)
qed

fun first_char :: "dgram \<Rightarrow> byte" where
  "first_char (DMess i q ak now pl) = 109"
| "first_char (DAck i q rv) = 97"
| "first_char (DSign t) = t"
| "first_char (DReady i) = 122"

lemma rd_first: "rd_char (dgram_bytes d) 0 = Inr (first_char d)"
  by (cases d) (simp_all add: enc_mcast_def enc_ack_mc_def rd_char_def rd_def)

lemma rd_ready: "rd_char (dgram_bytes (DReady i)) 1 = Inr (ucast (48 + of_nat i :: 16 word))"
  by (simp add: rd_char_def rd_def)

lemma ready_digit: "i < 5 \<Longrightarrow> sint (ucast (48 + of_nat i :: 16 word) :: byte) - 48 = int i"
proof -
  assume "i < 5"
  then have "i = 0 \<or> i = 1 \<or> i = 2 \<or> i = 3 \<or> i = 4" by auto
  then show ?thesis by (elim disjE) simp_all
qed

lemma received_keeps:
  assumes "keeps n ct s qs os h"
  shows "keeps n ct (received d s) qs os h" "next_obj s \<notin> set (used n ct (received d s) qs)"
  using keeps_alloc [OF assms, of "received d s" "Buffer (dgram_bytes d)"] by (simp_all add: received_def)

lemma steady_more: "steady s s' \<Longrightarrow> prep_bits s' = prep_bits s \<and> test_started s' = test_started s \<and> stopped_mc s' = stopped_mc s"
  by (cases s; cases s') (simp add: steady_def)

text \<open>Changes outside the vectors, then the buffer is freed.\<close>

lemma free_received:
  assumes w: "keeps n ct s qs os h"
    and f: "num_nodes s' = num_nodes s" "vector_no_ack s' = vector_no_ack s" "vector_ack s' = vector_ack s"
      "deliveryQueue s' = deliveryQueue s" "reported s' = reported s" "answers s' = answers s"
      "objs s' = objs (received d s)" "next_obj s' = next_obj (received d s)"
  shows "free_obj (Some (next_obj s)) s' = Inr (s'\<lparr>objs := (objs s')(next_obj s := None)\<rparr>)"
    "keeps n ct (s'\<lparr>objs := (objs s')(next_obj s := None)\<rparr>) qs os h"
proof -
  note R = received_keeps [OF w, of d]
  have k: "keeps n ct s' qs os h" "used n ct s' qs = used n ct (received d s) qs"
    using keeps_outside [OF R(1), of s'] f mc_keepsD(5) [OF w] by (simp_all add: received_def)
  have o': "objs s' (next_obj s) = Some (Buffer (dgram_bytes d))" by (simp add: f(7))
  have n: "next_obj s \<notin> set (used n ct s' qs)" unfolding k(2) by (rule R(2))
  show "free_obj (Some (next_obj s)) s' = Inr (s'\<lparr>objs := (objs s')(next_obj s := None)\<rparr>)"
    "keeps n ct (s'\<lparr>objs := (objs s')(next_obj s := None)\<rparr>) qs os h"
    using keeps_free [OF k(1) n o'] by simp_all
qed

section \<open>The leader\<close>

text \<open>All others have answered, then the sign to answer has come back to the leader.\<close>

definition all_answered :: "nat \<Rightarrow> dgram list \<Rightarrow> bool" where
  "all_answered n ds \<longleftrightarrow> (\<exists>ds1 ds2. ds = ds1 @ DSign 121 # ds2 \<and> (\<forall>j \<in> {1..<n}. DReady j \<in> set ds1))"

lemma all_answered_snoc:
  "all_answered n (ds @ [d]) \<longleftrightarrow> all_answered n ds \<or> d = DSign 121 \<and> (\<forall>j \<in> {1..<n}. DReady j \<in> set ds)"
proof
  assume "all_answered n (ds @ [d])"
  then obtain ds1 ds2 where a: "ds @ [d] = ds1 @ DSign 121 # ds2" "\<forall>j \<in> {1..<n}. DReady j \<in> set ds1" by (auto simp: all_answered_def)
  show "all_answered n ds \<or> d = DSign 121 \<and> (\<forall>j \<in> {1..<n}. DReady j \<in> set ds)"
  proof (cases ds2 rule: rev_cases)
    case Nil
    then show ?thesis using a by auto
  next
    case (snoc ds3 d')
    then have "ds = ds1 @ DSign 121 # ds3" using a(1) by simp
    then show ?thesis using a(2) by (auto simp: all_answered_def)
  qed
next
  assume "all_answered n ds \<or> d = DSign 121 \<and> (\<forall>j \<in> {1..<n}. DReady j \<in> set ds)"
  then show "all_answered n (ds @ [d])" unfolding all_answered_def by force
qed

definition leads :: "nat \<Rightarrow> ('v \<Rightarrow> nat list) \<Rightarrow> 'v mcast_node \<Rightarrow> dgram list \<Rightarrow> bool" where
  "leads n ct s ds \<longleftrightarrow> (\<exists>qs. keeps n ct s qs (messages_in ds) (\<lambda>_. [])) \<and> self_id s = 0 \<and> \<not> stopped_mc s \<and>
     ack_num s = of_nat (length (messages_in ds)) \<and> acks_sent s = numbered (messages_in ds) \<and>
     (\<forall>k. bit (prep_bits s) k \<longleftrightarrow> 1 \<le> k \<and> k < n \<and> DReady k \<notin> set ds) \<and>
     (test_started s \<longleftrightarrow> all_answered n ds) \<and> ([99] \<in> set (outgoing s) \<longleftrightarrow> test_started s)"

lemma leadsI:
  assumes "keeps n ct s qs (messages_in ds) (\<lambda>_. [])" "self_id s = 0" "\<not> stopped_mc s"
     "ack_num s = of_nat (length (messages_in ds))" "acks_sent s = numbered (messages_in ds)"
     "\<And>k. bit (prep_bits s) k \<longleftrightarrow> 1 \<le> k \<and> k < n \<and> DReady k \<notin> set ds"
     "test_started s \<longleftrightarrow> all_answered n ds" "[99] \<in> set (outgoing s) \<longleftrightarrow> test_started s"
  shows "leads n ct s ds"
  unfolding leads_def using assms by blast

lemma leadsD:
  assumes "leads n ct s ds"
  shows "\<exists>qs. keeps n ct s qs (messages_in ds) (\<lambda>_. [])" "self_id s = 0" "\<not> stopped_mc s"
     "ack_num s = of_nat (length (messages_in ds))" "acks_sent s = numbered (messages_in ds)"
     "\<And>k. bit (prep_bits s) k \<longleftrightarrow> 1 \<le> k \<and> k < n \<and> DReady k \<notin> set ds"
     "test_started s \<longleftrightarrow> all_answered n ds" "[99] \<in> set (outgoing s) \<longleftrightarrow> test_started s"
  using assms unfolding leads_def by simp_all

lemma no_bits: "(\<forall>k. \<not> bit (w :: 32 word) k) \<longleftrightarrow> w = 0"
  by (auto intro: bit_word_eqI)

lemma hd_mcast [simp]: "hd (enc_mcast pid q ak now pl) = 109" "enc_mcast pid q ak now pl \<noteq> [99]"
  "hd (enc_ack_mc pid q rv) = 97" "enc_ack_mc pid q rv \<noteq> [99]"
  "[99] \<noteq> enc_mcast pid q ak now pl" "[99] \<noteq> enc_ack_mc pid q rv"
  by (simp_all add: enc_mcast_def enc_ack_mc_def)

lemma leads_arrives:
  assumes V: "vector_laws V ct" and room: "\<forall>e v. fst (addElt V e v) = 1" and sz: "19 \<le> sint size_t"
    and L: "leads n ct s ds" and d: "fits n size_t d"
  shows "\<exists>s'. process_msg_mc V size_t (Some (dgram_bytes d)) s = Inr s' \<and> leads n ct s' (ds @ [d])"
proof -
  note L' = leadsD [OF L]
  obtain qs where w: "keeps n ct s qs (messages_in ds) (\<lambda>_. [])" using L'(1) by blast
  note R = received_keeps [OF w, of d] and P = process_msg_mc_fits [OF d sz, of V s]
  have n5: "n \<le> 5" by (rule mc_keepsD(4) [OF w])
  show ?thesis
  proof (cases d)
    case (DMess i q ak now pl)
    have i: "i < n" using d DMess by simp
    obtain s' qs' where s': "handle_msg_mc V (Some (next_obj s)) (received d s) = Inr s'" "keeps n ct s' qs' (messages_in ds @ [(i, q)]) (\<lambda>_. [])"
      "steady (received d s) s'" "outgoing s' = outgoing s @ [enc_ack_mc (of_nat i) q (ack_num s + 1)]" "ack_num s' = ack_num s + 1"
      using handle_msg_leader [OF V room R(1) i, of "next_obj s" q ak now pl] R(2) L'(2) by (auto simp: DMess)
    have st: "self_id s' = 0" "prep_bits s' = prep_bits s" "test_started s' = test_started s" "stopped_mc s' = stopped_mc s"
      using s'(3) steady_more [OF s'(3)] L'(2) by (simp_all add: steady_def)
    have "leads n ct s' (ds @ [d])"
      by (rule leadsI) (use s' st L' in \<open>simp_all add: DMess messages_in_snoc acks_sent_def numbered_snoc all_answered_snoc add.commute\<close>)
    moreover have "process_msg_mc V size_t (Some (dgram_bytes d)) s = Inr s'" unfolding P using s'(1) rd_first [of d] by (simp add: treat_datagram_def DMess)
    ultimately show ?thesis by blast
  next
    case (DAck i q rv)
    note F = free_received [OF w, of "received d s" d]
    let ?s' = "(received d s)\<lparr>objs := (objs (received d s))(next_obj s := None)\<rparr>"
    have k: "free_obj (Some (next_obj s)) (received d s) = Inr ?s'" "keeps n ct ?s' qs (messages_in ds) (\<lambda>_. [])"
      using F by (simp_all add: received_def)
    have "leads n ct ?s' (ds @ [d])"
      by (rule leadsI [of _ _ _ qs]) (use k(2) L' in \<open>simp_all add: DAck messages_in_snoc acks_sent_def all_answered_snoc\<close>)
    moreover have "process_msg_mc V size_t (Some (dgram_bytes d)) s = Inr ?s'"
      unfolding P using k(1) rd_first [of d] L'(2) by (simp add: treat_datagram_def DAck handle_ack_mc_def)
    ultimately show ?thesis by blast
  next
    case (DSign t)
    consider "t = 99" | "t = 121" "prep_bits s = 0" | "t = 121" "prep_bits s \<noteq> 0" using d DSign by auto
    then show ?thesis
    proof cases
      case 1
      let ?s1 = "(received d s)\<lparr>my_sem := Suc (my_sem s)\<rparr>"
      let ?s' = "?s1\<lparr>objs := (objs ?s1)(next_obj s := None)\<rparr>"
      have k: "free_obj (Some (next_obj s)) ?s1 = Inr ?s'" "keeps n ct ?s' qs (messages_in ds) (\<lambda>_. [])"
        using free_received [OF w, of ?s1 d] by (simp_all add: received_def)
      have "leads n ct ?s' (ds @ [d])"
        by (rule leadsI [of _ _ _ qs]) (use k(2) L' 1 in \<open>simp_all add: DSign messages_in_snoc acks_sent_def all_answered_snoc\<close>)
      moreover have "process_msg_mc V size_t (Some (dgram_bytes d)) s = Inr ?s'"
        unfolding P using k(1) rd_first [of d] 1 by (simp add: treat_datagram_def DSign received_def)
      ultimately show ?thesis by blast
    next
      case 2
      let ?s1 = "(received d s)\<lparr>outgoing := outgoing s @ [[99]], test_started := True\<rparr>"
      let ?s' = "?s1\<lparr>objs := (objs ?s1)(next_obj s := None)\<rparr>"
      have k: "free_obj (Some (next_obj s)) ?s1 = Inr ?s'" "keeps n ct ?s' qs (messages_in ds) (\<lambda>_. [])"
        using free_received [OF w, of ?s1 d] by (simp_all add: received_def)
      have "\<forall>k. \<not> bit (prep_bits s) k" using 2(2) by simp
      then have "\<forall>j \<in> {1..<n}. DReady j \<in> set ds" using L'(6) by auto
      then have "leads n ct ?s' (ds @ [d])"
        by (intro leadsI [of _ _ _ qs]) (use k(2) L' 2 in \<open>simp_all add: DSign messages_in_snoc acks_sent_def all_answered_snoc\<close>)
      moreover have "process_msg_mc V size_t (Some (dgram_bytes d)) s = Inr ?s'"
        unfolding P using k(1) rd_first [of d] 2 L'(2) mc_keepsD(5) [OF w] sendto_ok [of "received d s"] by (simp add: treat_datagram_def DSign)
      ultimately show ?thesis by blast
    next
      case 3
      let ?s' = "(received d s)\<lparr>objs := (objs (received d s))(next_obj s := None)\<rparr>"
      have k: "free_obj (Some (next_obj s)) (received d s) = Inr ?s'" "keeps n ct ?s' qs (messages_in ds) (\<lambda>_. [])"
        using free_received [OF w, of "received d s" d] by (simp_all add: received_def)
      have "\<exists>k. bit (prep_bits s) k" using 3(2) no_bits by blast
      then have "\<not> (\<forall>j \<in> {1..<n}. DReady j \<in> set ds)" using L'(6) by auto
      then have a: "all_answered n (ds @ [d]) = all_answered n ds" unfolding all_answered_snoc by blast
      have "leads n ct ?s' (ds @ [d])"
        by (rule leadsI [of _ _ _ qs]) (use k(2) L' a in \<open>simp_all add: DSign messages_in_snoc acks_sent_def\<close>)
      moreover have "process_msg_mc V size_t (Some (dgram_bytes d)) s = Inr ?s'"
        unfolding P using k(1) rd_first [of d] 3 L'(2) by (simp add: treat_datagram_def DSign)
      ultimately show ?thesis by blast
    qed
  next
    case (DReady i)
    have i: "i < n" "i < 5" using d DReady n5 by auto
    let ?s1 = "(received d s)\<lparr>prep_bits := prep_bits s AND NOT (push_bit i 1)\<rparr>"
    let ?s' = "?s1\<lparr>objs := (objs ?s1)(next_obj s := None)\<rparr>"
    have k: "free_obj (Some (next_obj s)) ?s1 = Inr ?s'" "keeps n ct ?s' qs (messages_in ds) (\<lambda>_. [])"
      using free_received [OF w, of ?s1 d] by (simp_all add: received_def)
    have b: "bit (prep_bits s AND NOT (push_bit i 1)) k \<longleftrightarrow> 1 \<le> k \<and> k < n \<and> DReady k \<notin> set (ds @ [d])" for k
      using L'(6) [of k] n5 by (auto simp: DReady bit_simps)
    have "leads n ct ?s' (ds @ [d])"
      by (rule leadsI [of _ _ _ qs]) (use k(2) L' b in \<open>simp_all add: DReady messages_in_snoc acks_sent_def all_answered_snoc\<close>)
    moreover have "process_msg_mc V size_t (Some (dgram_bytes d)) s = Inr ?s'"
      unfolding P using k(1) rd_first [of d] rd_ready [of i] L'(2) ready_digit [OF i(2)] i
      by (simp add: treat_datagram_def DReady update_prepare_bits_def shl1_def)
    ultimately show ?thesis by blast
  qed
qed

text \<open>The other turns number nothing.\<close>

lemma leads_quiet:
  assumes "leads n ct s ds" "\<exists>qs'. keeps n ct s' qs' (messages_in ds) (\<lambda>_. [])" "self_id s' = self_id s" "ack_num s' = ack_num s"
    "bench.more s' = bench.more s" "outgoing s' = outgoing s @ x" "\<forall>b \<in> set x. hd b \<noteq> 97 \<and> b \<noteq> [99]"
  shows "leads n ct s' ds"
proof -
  have "prep_bits s' = prep_bits s" "test_started s' = test_started s" "stopped_mc s' = stopped_mc s"
    using assms(5) by (cases s; cases s'; simp)+
  moreover have "acks_sent s' = acks_sent s" "[99] \<in> set (outgoing s') \<longleftrightarrow> [99] \<in> set (outgoing s)"
    using assms(6,7) by (auto simp: acks_sent_def filter_empty_conv)
  ultimately show ?thesis using assms(1-4) unfolding leads_def by simp
qed

definition quiet_turn :: "mc_turn \<Rightarrow> bool" where
  "quiet_turn t \<longleftrightarrow> (\<forall>d. t \<noteq> Arrives d)"

lemma quiet_turn_ok:
  assumes w: "keeps n ct s qs os h" and sz: "19 \<le> sint size_t" and t: "quiet_turn t"
  obtains s' qs' x where "mc_step V size_t t s = Inr s'" "keeps n ct s' qs' os h" "self_id s' = self_id s" "ack_num s' = ack_num s"
    "bench.more s' = bench.more s" "outgoing s' = outgoing s @ x" "\<forall>b \<in> set x. hd b \<noteq> 97 \<and> b \<noteq> [99]"
proof (cases t)
  case (Arrives d)
  then show ?thesis using t by (simp add: quiet_turn_def)
next
  case (Broadcasts now)
  obtain s' where s': "send_msg_mc size_t now s = Inr s'" "keeps n ct s' qs os h" "steady s s'" "ack_num s' = ack_num s"
    "outgoing s' = outgoing s @ [enc_mcast (self_id s) (seq_num s + 1) (ack_num s) now (replicate (nat (sint size_t) - 19) 57)]"
    by (rule send_msg_mc_ok [OF w sz, of now])
  show ?thesis by (rule that [OF _ s'(2) _ s'(4) _ s'(5)]) (use s'(1,3) in \<open>simp_all add: Broadcasts steady_def\<close>)
next
  case (Hands_over now)
  obtain s' qs' where s': "mc_step V size_t (Hands_over now) s = Inr s'" "keeps n ct s' qs' os h" "outgoing s' = outgoing s"
    "self_id s' = self_id s" "ack_num s' = ack_num s" "bench.more s' = bench.more s"
    by (rule hand_over_ok [OF w])
  show ?thesis by (rule that [OF _ s'(2,4-6), of "[]"]) (use s'(1,3) in \<open>simp_all add: Hands_over del: mc_step.simps\<close>)
next
  case Starts
  show ?thesis
  proof (cases "test_started s")
    case True
    then show ?thesis using that [of s qs "[]"] w by (simp add: Starts start_leader_turn_def)
  next
    case False
    then show ?thesis
      using that [of "s\<lparr>outgoing := outgoing s @ [[121]]\<rparr>" qs "[[121]]"] keeps_send [OF w] sendto_ok [OF mc_keepsD(5) [OF w]]
      by (simp add: Starts start_leader_turn_def)
  qed
next
  case (Leads_mc k)
  consider "k = 0" | "k = Suc 0" | j where "k = Suc (Suc j)" by (metis not0_implies_Suc)
  then show ?thesis
  proof cases
    case 1
    then show ?thesis
      using that [of "s\<lparr>mesurement_started := True\<rparr>" qs "[]"] keeps_outside(1) [OF w, of "s\<lparr>mesurement_started := True\<rparr>"] mc_keepsD(5) [OF w]
      by (simp add: Leads_mc)
  next
    case 2
    then show ?thesis
      using that [of "s\<lparr>mesurement_started := False\<rparr>" qs "[]"] keeps_outside(1) [OF w, of "s\<lparr>mesurement_started := False\<rparr>"] mc_keepsD(5) [OF w]
      by (simp add: Leads_mc)
  next
    case 3
    then show ?thesis
      using that [of "s\<lparr>outgoing := outgoing s @ [[110]]\<rparr>" qs "[[110]]"] keeps_send [OF w] sendto_ok [OF mc_keepsD(5) [OF w]]
      by (simp add: Leads_mc stop_leader_mc_def)
  qed
qed

lemma datagrams_quiet: "quiet_turn t \<Longrightarrow> datagrams (t # ts) = datagrams ts"
  by (cases t) (simp_all add: quiet_turn_def)

lemma leads_run:
  assumes V: "vector_laws V ct" and room: "\<forall>e v. fst (addElt V e v) = 1" and sz: "19 \<le> sint size_t"
  shows "leads n ct s ds \<Longrightarrow> \<forall>d \<in> set (datagrams ts). fits n size_t d \<Longrightarrow>
    \<exists>s'. mc_run V size_t ts s = Inr s' \<and> leads n ct s' (ds @ datagrams ts)"
proof (induction ts arbitrary: s ds)
  case Nil
  then show ?case by (simp add: mc_run_def)
next
  case (Cons t ts)
  show ?case
  proof (cases "quiet_turn t")
    case True
    obtain qs where w: "keeps n ct s qs (messages_in ds) (\<lambda>_. [])" using leadsD(1) [OF Cons.prems(1)] by blast
    obtain s1 where s1: "mc_step V size_t t s = Inr s1" "leads n ct s1 ds"
      by (rule quiet_turn_ok [OF w sz True, of V]) (use leads_quiet [OF Cons.prems(1)] in blast)
    show ?thesis using Cons.IH [OF s1(2)] Cons.prems(2) s1(1) by (simp add: mc_run_def datagrams_quiet [OF True])
  next
    case False
    then obtain d where d: "t = Arrives d" by (auto simp: quiet_turn_def)
    obtain s1 where s1: "mc_step V size_t t s = Inr s1" "leads n ct s1 (ds @ [d])"
      using leads_arrives [OF V room sz Cons.prems(1), of d] Cons.prems(2) by (auto simp: d)
    show ?thesis using Cons.IH [OF s1(2)] Cons.prems(2) s1(1) by (simp add: mc_run_def d)
  qed
qed

lemma leads_start:
  assumes "vector_laws V ct" "2 \<le> n" "n \<le> 5"
  obtains s where "initialize_mc V 0 (of_nat n) = Inr s" "leads n ct s []"
proof -
  have z: "0 < n" using assms(2) by simp
  obtain s where s: "initialize_mc V (of_nat 0) (of_nat n) = Inr s" "keeps n ct s [] [] (\<lambda>_. [])" "self_id s = of_nat 0" "outgoing s = []" "ack_num s = 0"
    "prep_bits s = (push_bit n 1 - 1) AND NOT (push_bit 0 1)" "\<not> test_started s" "\<not> stopped_mc s"
    by (rule initialize_mc_ok [OF assms z])
  have m: "bit ((push_bit n 1 - 1) :: 32 word) k \<longleftrightarrow> k < n" for k
  proof -
    have "(push_bit n 1 - 1 :: 32 word) = mask n" by (simp add: mask_eq_exp_minus_1 push_bit_of_1)
    then show ?thesis using assms(3) by (auto simp: bit_simps)
  qed
  have b: "bit (prep_bits s) k \<longleftrightarrow> 1 \<le> k \<and> k < n" for k
  proof (cases "k < n")
    case True
    then show ?thesis using assms(3) unfolding s(6) bit_and_iff m by (auto simp: bit_not_iff bit_1_iff)
  next
    case False
    then show ?thesis unfolding s(6) bit_and_iff m by simp
  qed
  have "leads n ct s []"
    by (rule leadsI [of _ _ _ "[]"]) (use s b in \<open>simp_all add: acks_sent_def numbered_def all_answered_def\<close>)
  then show thesis using that s(1) by simp
qed

section \<open>Another process\<close>

lemma other_arrives:
  assumes V: "vector_laws V ct" and room: "\<forall>e v. fst (addElt V e v) = 1" and sz: "19 \<le> sint size_t"
    and w: "keeps n ct s qs os h" and other: "self_id s \<noteq> 0" and d: "fits n size_t d" and f: "follows h (d # ds)"
  shows "\<exists>s' qs' h'. process_msg_mc V size_t (Some (dgram_bytes d)) s = Inr s' \<and> self_id s' = self_id s \<and>
    keeps n ct s' qs' (os @ acked_in [d]) h' \<and> follows h' ds"
proof -
  note R = received_keeps [OF w, of d] and P = process_msg_mc_fits [OF d sz, of V s]
  note Fr = free_received [OF w, of _ d]
  show ?thesis
  proof (cases d)
    case (DMess i q ak now pl)
    have i: "i < n" using d DMess by simp
    have b: "objs (received d s) (next_obj s) = Some (Buffer (enc_mcast (of_nat i) q ak now pl))" by (simp add: DMess)
    have o1: "self_id (received d s) \<noteq> 0" using other by simp
    obtain s' qs' where s': "handle_msg_mc V (Some (next_obj s)) (received d s) = Inr s'" "keeps n ct s' qs' os (h(i := h i @ [(i, q)]))"
      "quiet (received d s) s'"
      by (rule handle_msg_other [OF V room R(1) i o1 R(2) b])
    have "process_msg_mc V size_t (Some (dgram_bytes d)) s = Inr s'" unfolding P using s'(1) rd_first [of d] by (simp add: treat_datagram_def DMess)
    moreover have "self_id s' = self_id s" using s'(3) by (simp add: quiet_def steady_def)
    moreover have "follows (h(i := h i @ [(i, q)])) ds" "acked_in [d] = []" using f by (simp_all add: DMess)
    ultimately show ?thesis using s'(2) by (intro exI [of _ s'] exI [of _ qs'] exI [of _ "h(i := h i @ [(i, q)])"]) simp
  next
    case (DAck i q rv)
    have i: "i < n" using d DAck by simp
    obtain ts where h: "h i = (i, q) # ts" "follows (h(i := ts)) ds" using f by (auto simp: DAck split: list.splits)
    have b: "objs (received d s) (next_obj s) = Some (Buffer (enc_ack_mc (of_nat i) q rv))" by (simp add: DAck)
    have o1: "self_id (received d s) \<noteq> 0" using other by simp
    obtain s1 where s1: "handle_ack_mc V (Some (next_obj s)) (received d s) = Inr s1" "keeps n ct s1 qs (os @ [(i, q)]) (h(i := ts))"
      "steady (received d s) s1" "next_obj s \<notin> set (used n ct s1 qs)" "objs s1 (next_obj s) = objs (received d s) (next_obj s)"
      by (rule handle_ack_other [OF V room R(1) i o1 h(1) b])
    have b1: "objs s1 (next_obj s) = Some (Buffer (dgram_bytes d))" using s1(5) by simp
    note F = keeps_free [OF s1(2,4) b1]
    have "process_msg_mc V size_t (Some (dgram_bytes d)) s = Inr (s1\<lparr>objs := (objs s1)(next_obj s := None)\<rparr>)"
      unfolding P using s1(1) F(1) rd_first [of d] by (simp add: treat_datagram_def DAck)
    moreover have "self_id (s1\<lparr>objs := (objs s1)(next_obj s := None)\<rparr>) = self_id s" using s1(3) by (simp add: steady_def)
    moreover have "acked_in [d] = [(i, q)]" by (simp add: DAck)
    ultimately show ?thesis
      using F(2) h(2) by (intro exI [of _ "s1\<lparr>objs := (objs s1)(next_obj s := None)\<rparr>"] exI [of _ qs] exI [of _ "h(i := ts)"]) simp
  next
    case (DSign t)
    show ?thesis
    proof (cases "t = 99")
      case True
      let ?s1 = "(received d s)\<lparr>my_sem := Suc (my_sem s)\<rparr>"
      let ?s' = "?s1\<lparr>objs := (objs ?s1)(next_obj s := None)\<rparr>"
      have k: "free_obj (Some (next_obj s)) ?s1 = Inr ?s'" "keeps n ct ?s' qs os h" using Fr [of ?s1] by (simp_all add: received_def)
      have "process_msg_mc V size_t (Some (dgram_bytes d)) s = Inr ?s'"
        unfolding P using k(1) rd_first [of d] True by (simp add: treat_datagram_def DSign received_def)
      then show ?thesis using k(2) f by (intro exI [of _ ?s'] exI [of _ qs] exI [of _ h]) (simp add: DSign)
    next
      case False
      let ?s1 = "(received d s)\<lparr>outgoing := outgoing s @ [[122, ucast (48 + self_id s)]]\<rparr>"
      let ?s' = "?s1\<lparr>objs := (objs ?s1)(next_obj s := None)\<rparr>"
      have k: "free_obj (Some (next_obj s)) ?s1 = Inr ?s'" "keeps n ct ?s' qs os h" using Fr [of ?s1] by (simp_all add: received_def)
      have "process_msg_mc V size_t (Some (dgram_bytes d)) s = Inr ?s'"
        unfolding P using k(1) rd_first [of d] False d other mc_keepsD(5) [OF w] sendto_ok [of "received d s"] by (simp add: treat_datagram_def DSign)
      then show ?thesis using k(2) f by (intro exI [of _ ?s'] exI [of _ qs] exI [of _ h]) (simp add: DSign)
    qed
  next
    case (DReady i)
    let ?s' = "(received d s)\<lparr>objs := (objs (received d s))(next_obj s := None)\<rparr>"
    have k: "free_obj (Some (next_obj s)) (received d s) = Inr ?s'" "keeps n ct ?s' qs os h" using Fr [of "received d s"] by (simp_all add: received_def)
    have "process_msg_mc V size_t (Some (dgram_bytes d)) s = Inr ?s'"
      unfolding P using k(1) rd_first [of d] other by (simp add: treat_datagram_def DReady)
    then show ?thesis using k(2) f by (intro exI [of _ ?s'] exI [of _ qs] exI [of _ h]) (simp add: DReady)
  qed
qed

lemma other_run:
  assumes V: "vector_laws V ct" and room: "\<forall>e v. fst (addElt V e v) = 1" and sz: "19 \<le> sint size_t"
  shows "keeps n ct s qs os h \<Longrightarrow> self_id s \<noteq> 0 \<Longrightarrow> \<forall>d \<in> set (datagrams ts). fits n size_t d \<Longrightarrow> follows h (datagrams ts) \<Longrightarrow>
    \<exists>s' qs' h'. mc_run V size_t ts s = Inr s' \<and> keeps n ct s' qs' (os @ acked_in (datagrams ts)) h'"
proof (induction ts arbitrary: s qs os h)
  case Nil
  then show ?case by (auto simp: mc_run_def)
next
  case (Cons t ts)
  show ?case
  proof (cases "quiet_turn t")
    case True
    obtain s1 qs1 x where s1: "mc_step V size_t t s = Inr s1" "keeps n ct s1 qs1 os h" "self_id s1 = self_id s"
      by (rule quiet_turn_ok [OF Cons.prems(1) sz True, of V])
    show ?thesis using Cons.IH [OF s1(2)] Cons.prems(2-4) s1(1,3) by (simp add: mc_run_def datagrams_quiet [OF True])
  next
    case False
    then obtain d where d: "t = Arrives d" by (auto simp: quiet_turn_def)
    obtain s1 qs1 h1 where s1: "mc_step V size_t t s = Inr s1" "self_id s1 = self_id s" "keeps n ct s1 qs1 (os @ acked_in [d]) h1" "follows h1 (datagrams ts)"
      using other_arrives [OF V room sz Cons.prems(1,2), of d "datagrams ts"] Cons.prems(3,4) by (auto simp: d)
    obtain s' qs' h' where s': "mc_run V size_t ts s1 = Inr s'" "keeps n ct s' qs' ((os @ acked_in [d]) @ acked_in (datagrams ts)) h'"
      using Cons.IH [OF s1(3)] Cons.prems(2,3) s1(2,4) by (auto simp: d)
    have "(os @ acked_in [d]) @ acked_in (datagrams ts) = os @ acked_in (datagrams (t # ts))" by (simp add: d)
    then show ?thesis using s' s1(1) by (auto simp: mc_run_def d)
  qed
qed

end
