(* ===== verification/McastProperties.thy ===== *)
theory McastProperties
  imports McastRuns "HOL-Library.Sublist"
begin

text \<open>
  The properties of the multicast benchmark.
\<close>

section \<open>Orders and acknowledgements\<close>

lemma tag_of_ack [simp]: "tag_of_mc (enc_ack_mc pid q rv) = (pid, q)"
  using holds_enc_ack_mc(2,3) [of pid q rv] by (simp add: tag_of_mc_def holds_iff of_to_bytes)





section \<open>The properties\<close>





text \<open>An acknowledgement that overtakes its message, as datagrams may, comes to a process that holds
  back no message of its sender: \<open>move_first\<close> then asks an empty vector for its first element, of
  which nothing is known.\<close>

lemma ack_meets_empty_vector:
  assumes "keeps n ct s qs os h" "i < n" "h i = []"
  obtains v where "get_vector (of_nat i) s = Inr v" "ct v = []"
    "move_msg_in_vector_ack_mc V (Some p) s = bindE (id_process_mc (Some p) s) (\<lambda>pid. move_first V pid s)"
proof -
  note W = wellD [OF mc_keepsD(1) [OF assms(1)]]
  obtain v where v: "vector_no_ack s ! i = Some v" "waiting ct s i = ct v" using W(5) [OF assms(2)] by blast
  have "get_vector (of_nat i) s = Inr v" using v W(2,4) assms(2) by (simp add: get_vector_def sint_id)
  moreover have "ct v = []" using mc_keepsD(3) [OF assms(1)] assms(2,3) v(2) by (auto simp: hb_def)
  ultimately show thesis using that by (simp add: move_msg_in_vector_ack_mc_def)
qed

text \<open>A process can deliver a message another has not received: here process 1 of three, while
  process 2 has received nothing.\<close>

lemma mcast_delivers_early:
  "case bindE (initialize_mc list_vectors 2 3) (mc_run list_vectors 19 [Broadcasts 0]) of Inl e \<Rightarrow> False | Inr s2 \<Rightarrow>
   case bindE (initialize_mc list_vectors 1 3) (mc_run list_vectors 19
       [Arrives (DMess 1 1 0 0 []), Arrives (DAck 1 1 1), Arrives (DMess 0 1 0 0 []), Arrives (DMess 2 1 0 0 []), Arrives (DMess 1 2 1 0 []), Hands_over 0]) of
     Inl e \<Rightarrow> False | Inr s \<Rightarrow> outgoing s2 = [dgram_bytes (DMess 2 1 0 0 [])] \<and> reported s = [(1, 1)]"
  by code_simp

end
