(* ===== verification/CString.thy ===== *)
theory CString
  imports Prelude
begin

text \<open>
  What the readers of configuration files use of the C library: strings, here without their
  terminating character, \<^verbatim>\<open>atoi\<close>, \<^verbatim>\<open>strtok\<close>, and a file as the characters that are
  still to be read.
\<close>

section \<open>Numbers\<close>

definition c_code :: "char \<Rightarrow> int" where
  "c_code c = int (of_char c)"

definition c_isspace :: "char \<Rightarrow> bool" where
  "c_isspace c \<longleftrightarrow> c_code c = 32 \<or> (9 \<le> c_code c \<and> c_code c \<le> 13)"

definition c_isdigit :: "char \<Rightarrow> bool" where
  "c_isdigit c \<longleftrightarrow> 48 \<le> c_code c \<and> c_code c \<le> 57"

fun digits_value :: "int \<Rightarrow> string \<Rightarrow> int" where
  "digits_value a [] = a"
| "digits_value a (c # cs) = (if c_isdigit c then digits_value (10 * a + (c_code c - 48)) cs else a)"

text \<open>\<^verbatim>\<open>atoi\<close> of NULL or of a number that is no \<^verbatim>\<open>int\<close> is undefined.\<close>

definition signed_value :: "string \<Rightarrow> int" where
  "signed_value s =
     (case s of [] \<Rightarrow> 0
      | c # cs \<Rightarrow> if c = CHR ''-'' then - digits_value 0 cs else if c = CHR ''+'' then digits_value 0 cs else digits_value 0 s)"

definition atoi :: "string option \<Rightarrow> int result" where
  "atoi s =
     (case s of None \<Rightarrow> Inl MemFault
      | Some cs \<Rightarrow> let v = signed_value (dropWhile c_isspace cs)
                   in if - (2 ^ 31) \<le> v \<and> v < 2 ^ 31 then Inr v else Inl MemFault)"

section \<open>Tokens\<close>

text \<open>The next token and what is left for the next call, which is nothing after a NULL.\<close>

definition strtok :: "string \<Rightarrow> string \<Rightarrow> string option \<times> string" where
  "strtok delims s =
     (let t = dropWhile (\<lambda>c. c \<in> set delims) s
      in if t = [] then (None, [])
         else (Some (takeWhile (\<lambda>c. c \<notin> set delims) t), tl (dropWhile (\<lambda>c. c \<notin> set delims) t)))"

lemma strtok_token:
  assumes "u \<noteq> []" "\<forall>c \<in> set u. c \<notin> set ds" "v = [] \<or> hd v \<in> set ds"
  shows "strtok ds (u @ v) = (Some u, tl v)"
proof -
  obtain c u' where u: "u = c # u'" using assms(1) by (cases u) auto
  have "takeWhile (\<lambda>c. c \<notin> set ds) v = [] \<and> dropWhile (\<lambda>c. c \<notin> set ds) v = v" using assms(3) by (cases v) auto
  then have "takeWhile (\<lambda>c. c \<notin> set ds) (u @ v) = u" "dropWhile (\<lambda>c. c \<notin> set ds) (u @ v) = v"
    using assms(2) by (simp_all add: takeWhile_append2 dropWhile_append2)
  moreover have "dropWhile (\<lambda>c. c \<in> set ds) (u @ v) = u @ v" using assms(2) by (simp add: u)
  ultimately show ?thesis using assms(1) by (simp add: strtok_def)
qed

section \<open>Files\<close>

definition NEWLINE :: char where "NEWLINE = CHR 0x0A"

definition NUL :: char where "NUL = CHR 0x00"

text \<open>\<^verbatim>\<open>fgetc\<close> assigned to a \<^verbatim>\<open>char\<close>: EOF becomes the character 0xFF, and that character reads
  as EOF; \<^verbatim>\<open>ungetc\<close> of EOF does nothing.\<close>

definition EOF_char :: char where "EOF_char = CHR 0xFF"

definition fgetc :: "string \<Rightarrow> char \<times> string" where
  "fgetc s = (case s of [] \<Rightarrow> (EOF_char, []) | c # cs \<Rightarrow> (c, cs))"

definition ungetc :: "char \<Rightarrow> string \<Rightarrow> string" where
  "ungetc c s = (if c = EOF_char then s else c # s)"

text \<open>\<^verbatim>\<open>fgets\<close>: at most \<open>k - 1\<close> characters, up to the end of the line; NULL at the end of the file.\<close>

fun take_line :: "nat \<Rightarrow> string \<Rightarrow> string \<times> string" where
  "take_line 0 s = ([], s)"
| "take_line (Suc k) [] = ([], [])"
| "take_line (Suc k) (c # cs) =
     (if c = NEWLINE then ([c], cs) else case take_line k cs of (l, r) \<Rightarrow> (c # l, r))"

definition fgets :: "nat \<Rightarrow> string \<Rightarrow> (string \<times> string) option" where
  "fgets k s = (if s = [] then None else Some (take_line (k - 1) s))"

definition c_str :: "string \<Rightarrow> string" where
  "c_str s = takeWhile (\<lambda>c. c \<noteq> NUL) s"

lemma take_line_length: "length (snd (take_line k s)) \<le> length s"
  by (induction k s rule: take_line.induct) (auto split: prod.splits)

lemma fgets_shorter: "fgets k s = Some (l, r) \<Longrightarrow> 2 \<le> k \<Longrightarrow> length r < length s"
proof -
  assume f: "fgets k s = Some (l, r)" and k: "2 \<le> k"
  obtain j where j: "k - 1 = Suc j" using k by (cases "k - 1") auto
  obtain c cs where s: "s = c # cs" using f by (cases s) (auto simp: fgets_def)
  have "length (snd (take_line (Suc j) (c # cs))) \<le> length cs"
    using take_line_length [of j cs] by (auto split: prod.splits)
  moreover have "snd (take_line (Suc j) (c # cs)) = r" using f by (simp add: fgets_def s j [unfolded One_nat_def])
  ultimately show ?thesis by (simp add: s)
qed

lemma fgets_line:
  assumes "\<forall>c \<in> set u. c \<noteq> NEWLINE" "length u + 2 \<le> k"
  shows "fgets k (u @ NEWLINE # v) = Some (u @ [NEWLINE], v)"
proof -
  have "take_line j (u @ NEWLINE # v) = (u @ [NEWLINE], v)" if "length u < j" for j
    using assms(1) that
  proof (induction u arbitrary: j)
    case Nil
    then show ?case by (cases j) auto
  next
    case (Cons c u)
    then show ?case by (cases j) auto
  qed
  then show ?thesis using assms(2) by (simp add: fgets_def)
qed

lemma fgets_last:
  assumes "\<forall>c \<in> set u. c \<noteq> NEWLINE" "length u + 1 \<le> k" "u \<noteq> []"
  shows "fgets k u = Some (u, [])"
proof -
  have "take_line j u = (u, [])" if "length u \<le> j" for j
    using assms(1) that
  proof (induction u arbitrary: j)
    case Nil
    then show ?case by (cases j) auto
  next
    case (Cons c u)
    then show ?case by (cases j) auto
  qed
  then show ?thesis using assms(2,3) by (simp add: fgets_def)
qed

lemma fgetc_ungetc: "fgetc s = (c, r) \<Longrightarrow> EOF_char \<notin> set s \<Longrightarrow> ungetc c r = s"
  by (auto simp: fgetc_def ungetc_def split: list.splits)

text \<open>Digits of a number below 16.\<close>

definition digits :: "nat \<Rightarrow> string" where
  "digits r = (if r < 10 then [char_of (48 + r)] else [CHR ''1'', char_of (38 + r)])"

lemma digits_ok:
  assumes "r < 16"
  shows "atoi (Some (digits r)) = Inr (int r)" "digits r \<noteq> []" "\<forall>c \<in> set (digits r). c_isdigit c"
proof -
  have "list_all (\<lambda>r. atoi (Some (digits r)) = Inr (int r) \<and> list_all c_isdigit (digits r)) [0..<16]" by code_simp
  then have "atoi (Some (digits r)) = Inr (int r) \<and> list_all c_isdigit (digits r)" using assms by (simp add: list_all_iff)
  then show "atoi (Some (digits r)) = Inr (int r)" "\<forall>c \<in> set (digits r). c_isdigit c" by (simp_all add: list_all_iff)
  show "digits r \<noteq> []" by (simp add: digits_def)
qed

end
