(* ===== verification/AddrFile.thy ===== *)
theory AddrFile
  imports AddrTable CString
begin

text \<open>
  The reader of the file of addresses, \<^verbatim>\<open>addrGenerator\<close> of \<^verbatim>\<open>src/management_addr.c\<close>: each line
  RANK:HOSTNAME:PORT, an empty one or a comment. The file is the list of its characters;
  \<open>hostname\<close> is what \<^verbatim>\<open>gethostname\<close> answers (\<open>None\<close>: an error). For a \<^verbatim>\<open>localhost\<close> the code
  points to an array of a block it then leaves: \<open>after_block\<close> says what reading it then gives,
  of which C says nothing. Of the texts of errors the first line is kept.
\<close>

section \<open>The code\<close>

definition MAX_LEN_LINE_IN_FILE :: nat where "MAX_LEN_LINE_IN_FILE = 1024"

definition MAX_LEN_IP :: nat where "MAX_LEN_IP = 64"

definition MAX_LEN_CHAN :: nat where "MAX_LEN_CHAN = 64"

text \<open>Spaces at the beginning of a line.\<close>

definition skip_spaces :: "string \<Rightarrow> string" where
  "skip_spaces s = (let (blank, r) = fgetc (dropWhile (\<lambda>c. c = CHR '' '') s) in ungetc blank r)"

text \<open>The tests of a line, in the order of the code; none of them finding an error, the three
  parts of the line.\<close>

definition check_line :: "char \<Rightarrow> char \<Rightarrow> int \<Rightarrow> string option \<Rightarrow> string option \<Rightarrow> bool list \<Rightarrow> (string \<times> string) result" where
  "check_line lastLineChar blank rank ipOnly addrFull alreadyExist =
     (if lastLineChar \<noteq> NEWLINE \<and> blank \<noteq> EOF_char then Inl (ExitFailure ''LINE too long (should be at most 1024 char)'')
      else if rank < 0 \<or> 16 \<le> rank then Inl (ExitFailure ''RANK error : should be between 0 and 15'')
      else if ipOnly = None \<or> addrFull = None then Inl (ExitFailure ''RANK:HOSTNAME:PORT Syntax error'')
      else if MAX_LEN_IP \<le> stringLength ipOnly then Inl (ExitFailure ''HOSTNAME too long'')
      else if MAX_LEN_CHAN \<le> stringLength addrFull then Inl (ExitFailure ''PORT too long'')
      else bindE (nthE alreadyExist rank) (\<lambda>e.
        if e then Inl (ExitFailure ''RANK already exists in a previous line'') else Inr (the ipOnly, the addrFull)))"

definition resolve_host :: "string option \<Rightarrow> (string \<Rightarrow> string result) \<Rightarrow> string \<Rightarrow> string result" where
  "resolve_host hostname after_block h =
     (if h = ''localhost''
      then (case hostname of None \<Rightarrow> Inl (ExitFailure ''Error getting hostname'') | Some n \<Rightarrow> after_block n) else Inr h)"

definition check_unique :: "ADDR list \<Rightarrow> int \<Rightarrow> string \<Rightarrow> string \<Rightarrow> unit result" where
  "check_unique array len h p =
     foldE (\<lambda>i u. bindE (nthE array i) (\<lambda>a. if ip a = h \<and> chan a = p
       then Inl (ExitFailure ''This participant already exists in a previous line'') else Inr u)) (map int [0..<nat len]) ()"

text \<open>\<^verbatim>\<open>strcpy\<close> into the two fields of an element, of 64 characters each.\<close>

definition set_participant :: "ADDR list \<Rightarrow> int \<Rightarrow> string \<Rightarrow> string \<Rightarrow> ADDR list result" where
  "set_participant array rank h p =
     (if MAX_LEN_IP \<le> length h \<or> MAX_LEN_CHAN \<le> length p then Inl MemFault
      else bindE (nthE array rank) (\<lambda>a. updE array rank (a\<lparr>ip := h, chan := p\<rparr>)))"

text \<open>A line, with what is left of the file behind it. An empty string has no last character.\<close>

definition addr_line :: "string option \<Rightarrow> (string \<Rightarrow> string result) \<Rightarrow> int \<Rightarrow> string \<Rightarrow> string \<Rightarrow> ADDR list \<times> bool list \<Rightarrow> (string \<times> ADDR list \<times> bool list) result" where
  "addr_line hostname after_block len line0 rest st =
     (let line = c_str line0; (array, alreadyExist) = st
      in bindE (nthE line (int (length line) - 1)) (\<lambda>lastLineChar.
         if hd line \<noteq> CHR ''#'' \<and> hd line \<noteq> NEWLINE
         then let (rankStr, r1) = strtok '':'' line
              in bindE (atoi rankStr) (\<lambda>rank.
                 let (ipOnly, r2) = strtok '':'' r1; (addrFull, r3) = strtok ('':'' @ [NEWLINE] @ '' #'') r2; (blank, rest1) = fgetc rest
                 in bindE (check_line lastLineChar blank rank ipOnly addrFull alreadyExist) (\<lambda>(h0, p).
                    bindE (updE alreadyExist rank True) (\<lambda>alreadyExist'.
                    bindE (resolve_host hostname after_block h0) (\<lambda>h.
                    bindE (check_unique array len h p) (\<lambda>_.
                    bindE (set_participant array rank h p) (\<lambda>array'. Inr (ungetc blank rest1, array', alreadyExist')))))))
         else Inr (rest, array, alreadyExist)))"

lemma ungetc_length: "length (ungetc (fst (fgetc s)) (snd (fgetc s))) \<le> length s"
  by (auto simp: fgetc_def ungetc_def split: list.splits)

lemma skip_spaces_length: "length (skip_spaces s) \<le> length s"
  using ungetc_length [of "dropWhile (\<lambda>c. c = CHR '' '') s"] length_dropWhile_le [of "\<lambda>c. c = CHR '' ''" s]
  by (simp add: skip_spaces_def case_prod_unfold Let_def)

lemma addr_line_length: "addr_line H D len line rest st = Inr (rest', st') \<Longrightarrow> length rest' \<le> length rest"
  using ungetc_length [of rest]
  by (auto simp: addr_line_def Let_def bindE_eq_Inr case_prod_unfold split: if_splits)

lemma addr_turn_shorter:
  assumes "fgets MAX_LEN_LINE_IN_FILE s = Some (line, rest)" "addr_line H D len line rest st = Inr (rest', st')"
  shows "length (skip_spaces rest') < length s"
  using fgets_shorter [OF assms(1)] addr_line_length [OF assms(2)] skip_spaces_length [of rest']
  by (simp add: MAX_LEN_LINE_IN_FILE_def)

text \<open>The loop over the lines: each turn reads at least a character.\<close>

function addr_lines :: "string option \<Rightarrow> (string \<Rightarrow> string result) \<Rightarrow> int \<Rightarrow> string \<Rightarrow> ADDR list \<times> bool list \<Rightarrow> (ADDR list \<times> bool list) result" where
  "addr_lines H D len s st =
     (case fgets MAX_LEN_LINE_IN_FILE s of None \<Rightarrow> Inr st
      | Some (line, rest) \<Rightarrow> bindE (addr_line H D len line rest st) (\<lambda>(rest', st'). addr_lines H D len (skip_spaces rest') st'))"
  by pat_completeness auto

termination
  by (relation "measure (\<lambda>(H, D, len, s, st). length s)") (auto intro: addr_turn_shorter)

declare addr_lines.simps [simp del]

text \<open>\<open>file\<close> is \<open>None\<close> when the file cannot be opened. At the end the cells of the 16 ranks that
  are not taken are made empty.\<close>

definition addrGenerator :: "string option \<Rightarrow> (string \<Rightarrow> string result) \<Rightarrow> string option \<Rightarrow> int \<Rightarrow> ADDR list result" where
  "addrGenerator hostname after_block file len =
     (case file of None \<Rightarrow> Inl (ExitFailure ''Error opening file'')
      | Some s \<Rightarrow>
          bindE (addr_lines hostname after_block len (skip_spaces s) (initAddrList len, replicate (nat len) False)) (\<lambda>(array, alreadyExist).
            foldE (\<lambda>i array. bindE (nthE alreadyExist i) (\<lambda>e. if e then Inr array else set_participant array i '''' ''''))
              (map int [0..<nat NP]) array))"

section \<open>Files that are well written\<close>

text \<open>A line: spaces, then rank, hostname and port, and what may follow; or spaces and a comment or
  nothing.\<close>

datatype addr_item = Entry nat nat string string string | Remark nat string

fun item_body :: "addr_item \<Rightarrow> string" where
  "item_body (Entry k r h p t) = digits r @ CHR '':'' # h @ CHR '':'' # p @ t"
| "item_body (Remark k t) = t"

fun item_spaces :: "addr_item \<Rightarrow> nat" where
  "item_spaces (Entry k r h p t) = k"
| "item_spaces (Remark k t) = k"

definition item_text :: "addr_item \<Rightarrow> string" where
  "item_text i = replicate (item_spaces i) CHR '' '' @ item_body i @ [NEWLINE]"

definition plain :: "string \<Rightarrow> bool" where
  "plain s \<longleftrightarrow> NEWLINE \<notin> set s \<and> NUL \<notin> set s \<and> EOF_char \<notin> set s"

fun item_ok :: "addr_item \<Rightarrow> bool" where
  "item_ok (Entry k r h p t) \<longleftrightarrow> r < 16 \<and> h \<noteq> [] \<and> CHR '':'' \<notin> set h \<and> length h < 64 \<and> h \<noteq> ''localhost'' \<and>
     p \<noteq> [] \<and> CHR '':'' \<notin> set p \<and> CHR '' '' \<notin> set p \<and> CHR ''#'' \<notin> set p \<and> length p < 64 \<and>
     (t = [] \<or> hd t \<in> {CHR '':'', CHR '' '', CHR ''#''}) \<and> plain h \<and> plain p \<and> plain t \<and> length (item_body (Entry k r h p t)) \<le> 1022"
| "item_ok (Remark k t) \<longleftrightarrow> (t = [] \<or> hd t = CHR ''#'') \<and> plain t \<and> length t \<le> 1022"

fun entries :: "addr_item list \<Rightarrow> (nat \<times> string \<times> string) list" where
  "entries [] = []"
| "entries (Entry k r h p t # is) = (r, h, p) # entries is"
| "entries (Remark k t # is) = entries is"

lemma digit_char: "c_isdigit c \<Longrightarrow> c \<noteq> CHR '':'' \<and> c \<noteq> CHR '' '' \<and> c \<noteq> CHR ''#'' \<and> c \<noteq> NEWLINE \<and> c \<noteq> NUL \<and> c \<noteq> EOF_char"
  by (auto simp: c_isdigit_def c_code_def of_char_def NEWLINE_def NUL_def EOF_char_def)

lemma plain_append [simp]: "plain (u @ v) \<longleftrightarrow> plain u \<and> plain v" "plain [] \<longleftrightarrow> True"
  "plain (c # v) \<longleftrightarrow> c \<noteq> NEWLINE \<and> c \<noteq> NUL \<and> c \<noteq> EOF_char \<and> plain v"
  by (auto simp: plain_def)

lemma plain_digits: "r < 16 \<Longrightarrow> plain (digits r)"
  using digits_ok(3) [of r] digit_char by (fastforce simp: plain_def)

lemma plain_body: "item_ok i \<Longrightarrow> plain (item_body i)"
  by (cases i) (auto simp: plain_digits, auto simp: NEWLINE_def NUL_def EOF_char_def)

lemma skip_spaces_Cons: "c \<noteq> CHR '' '' \<Longrightarrow> c \<noteq> EOF_char \<Longrightarrow> skip_spaces (replicate k CHR '' '' @ c # s) = c # s"
proof -
  assume "c \<noteq> CHR '' ''" "c \<noteq> EOF_char"
  moreover have "dropWhile (\<lambda>c. c = CHR '' '') (replicate k CHR '' '' @ c # s) = c # s" using \<open>c \<noteq> CHR '' ''\<close> by (induction k) auto
  ultimately show ?thesis by (simp add: skip_spaces_def fgetc_def ungetc_def)
qed

lemma skip_item:
  assumes "item_ok i"
  shows "skip_spaces (item_text i @ s) = item_body i @ NEWLINE # s"
proof (cases "item_body i")
  case Nil
  then show ?thesis using skip_spaces_Cons [of NEWLINE "item_spaces i" s] by (simp add: item_text_def NEWLINE_def EOF_char_def)
next
  case (Cons c cs)
  have "c \<noteq> EOF_char" using plain_body [OF assms] by (simp add: Cons)
  moreover have "c \<noteq> CHR '' ''"
  proof (cases i)
    case (Entry k r h p t)
    then have "c \<in> set (digits r)" using Cons digits_ok(2) [of r] assms by (cases "digits r") auto
    then show ?thesis using digits_ok(3) [of r] digit_char assms Entry by auto
  next
    case (Remark k t)
    then show ?thesis using Cons assms by auto
  qed
  ultimately show ?thesis using skip_spaces_Cons [of c "item_spaces i" "cs @ NEWLINE # s"] by (simp add: item_text_def Cons)
qed

lemma fgets_item:
  assumes "item_ok i"
  shows "fgets MAX_LEN_LINE_IN_FILE (item_body i @ NEWLINE # s) = Some (item_body i @ [NEWLINE], s)"
proof (rule fgets_line)
  show "\<forall>c \<in> set (item_body i). c \<noteq> NEWLINE" using plain_body [OF assms] by (auto simp: plain_def)
  show "length (item_body i) + 2 \<le> MAX_LEN_LINE_IN_FILE" using assms by (cases i) (simp_all add: MAX_LEN_LINE_IN_FILE_def)
qed

lemma c_str_item:
  assumes "item_ok i"
  shows "c_str (item_body i @ [NEWLINE]) = item_body i @ [NEWLINE]"
proof -
  have "\<forall>c \<in> set (item_body i @ [NEWLINE]). c \<noteq> NUL" using plain_body [OF assms] by (auto simp: plain_def NEWLINE_def NUL_def)
  then show ?thesis by (simp add: c_str_def takeWhile_eq_all_conv)
qed

lemma last_char: "nthE (u @ [c]) (int (length (u @ [c])) - 1) = Inr c"
  by (simp add: nthE_def nth_append)

text \<open>The tokens of a line.\<close>

lemma entry_tokens:
  assumes "item_ok (Entry k r h p t)"
  shows "strtok '':'' (item_body (Entry k r h p t) @ [NEWLINE]) = (Some (digits r), h @ CHR '':'' # p @ t @ [NEWLINE])"
    "strtok '':'' (h @ CHR '':'' # p @ t @ [NEWLINE]) = (Some h, p @ t @ [NEWLINE])"
    "fst (strtok ('':'' @ [NEWLINE] @ '' #'') (p @ t @ [NEWLINE])) = Some p"
proof -
  have r: "r < 16" and h: "h \<noteq> []" "CHR '':'' \<notin> set h" and p: "p \<noteq> []" "CHR '':'' \<notin> set p" "CHR '' '' \<notin> set p" "CHR ''#'' \<notin> set p" "plain p"
    and t: "t = [] \<or> hd t \<in> {CHR '':'', CHR '' '', CHR ''#''}" using assms by simp_all
  have "\<forall>c \<in> set (digits r). c \<notin> set '':''" using digits_ok(3) [OF r] digit_char by auto
  then show "strtok '':'' (item_body (Entry k r h p t) @ [NEWLINE]) = (Some (digits r), h @ CHR '':'' # p @ t @ [NEWLINE])"
    using strtok_token [of "digits r" "'':''" "CHR '':'' # h @ CHR '':'' # p @ t @ [NEWLINE]"] digits_ok(2) [OF r] by simp
  show "strtok '':'' (h @ CHR '':'' # p @ t @ [NEWLINE]) = (Some h, p @ t @ [NEWLINE])"
    using strtok_token [of h "'':''" "CHR '':'' # p @ t @ [NEWLINE]"] h by auto
  have "hd (t @ [NEWLINE]) \<in> set ('':'' @ [NEWLINE] @ '' #'')" using t by (cases t) auto
  moreover have "\<forall>c \<in> set p. c \<notin> set ('':'' @ [NEWLINE] @ '' #'')" using p by (auto simp: plain_def)
  ultimately show "fst (strtok ('':'' @ [NEWLINE] @ '' #'') (p @ t @ [NEWLINE])) = Some p"
    using strtok_token [of p "'':'' @ [NEWLINE] @ '' #''" "t @ [NEWLINE]"] p(1) by simp
qed

section \<open>What a well-written file gives\<close>

fun set_item :: "addr_item \<Rightarrow> ADDR list \<times> bool list \<Rightarrow> ADDR list \<times> bool list" where
  "set_item (Entry k r h p t) (A, B) = (A[r := (A ! r)\<lparr>ip := h, chan := p\<rparr>], B[r := True])"
| "set_item (Remark k t) st = st"

definition taken :: "ADDR list \<Rightarrow> string \<times> string \<Rightarrow> bool" where
  "taken A hp \<longleftrightarrow> (\<exists>i<16. (ip (A ! i), chan (A ! i)) = hp)"

lemma check_unique_16:
  assumes "length A = 17"
  shows "check_unique A 16 h p = (if taken A (h, p) then Inl (ExitFailure ''This participant already exists in a previous line'') else Inr ())"
proof -
  let ?f = "\<lambda>i u. bindE (nthE A i) (\<lambda>a. if ip a = h \<and> chan a = p
       then Inl (ExitFailure ''This participant already exists in a previous line'') else Inr u)"
  have "foldE ?f (map int is) () =
    (if \<exists>i \<in> set is. ip (A ! i) = h \<and> chan (A ! i) = p then Inl (ExitFailure ''This participant already exists in a previous line'') else Inr ())"
    if "\<forall>i \<in> set is. i < 16" for "is"
    using that assms by (induction "is") auto
  from this [of "[0..<16]"] show ?thesis by (auto simp: check_unique_def taken_def)
qed

lemma addr_line_entry:
  assumes ok: "item_ok (Entry k r h p t)" and AB: "length A = 17" "length B = 16" and s: "EOF_char \<notin> set s"
  shows "addr_line H D 16 (item_body (Entry k r h p t) @ [NEWLINE]) s (A, B) =
    (if B ! r then Inl (ExitFailure ''RANK already exists in a previous line'')
     else if taken A (h, p) then Inl (ExitFailure ''This participant already exists in a previous line'')
     else Inr (s, set_item (Entry k r h p t) (A, B)))"
proof -
  let ?body = "item_body (Entry k r h p t)"
  note tk = entry_tokens [OF ok]
  obtain p3 where p3: "strtok ('':'' @ [NEWLINE] @ '' #'') (p @ t @ [NEWLINE]) = (Some p, p3)" using tk(3) by (metis prod.collapse)
  obtain c rest where c: "fgetc s = (c, rest)" by fastforce
  have u: "ungetc c rest = s" by (rule fgetc_ungetc [OF c s])
  have r: "r < 16" and l: "length h < 64" "length p < 64" "h \<noteq> ''localhost''" using ok by simp_all
  have d: "digits r \<noteq> []" "\<forall>c \<in> set (digits r). c_isdigit c" using digits_ok [OF r] by auto
  have "hd (?body @ [NEWLINE]) = hd (digits r)" using d(1) by simp
  then have hd: "hd (?body @ [NEWLINE]) \<noteq> CHR ''#''" "hd (?body @ [NEWLINE]) \<noteq> NEWLINE"
    using d digit_char [of "hd (digits r)"] by auto
  have chk: "check_line NEWLINE c (int r) (Some h) (Some p) B =
     (if B ! r then Inl (ExitFailure ''RANK already exists in a previous line'') else Inr (h, p))"
    using r l AB(2) by (simp add: check_line_def stringLength_def MAX_LEN_IP_def MAX_LEN_CHAN_def)
  have sp: "set_participant A (int r) h p = Inr (A[r := (A ! r)\<lparr>ip := h, chan := p\<rparr>])"
    using r l AB(1) by (simp add: set_participant_def MAX_LEN_IP_def MAX_LEN_CHAN_def)
  show ?thesis
    unfolding addr_line_def c_str_item [OF ok] Let_def prod.case last_char
    using hd tk(1,2) p3 c u chk sp digits_ok(1) [OF r] r AB(2) l(3) check_unique_16 [OF AB(1), of h p]
    by (simp add: resolve_host_def)
qed

lemma addr_line_remark:
  assumes "item_ok (Remark k t)"
  shows "addr_line H D len (item_body (Remark k t) @ [NEWLINE]) s st = Inr (s, st)"
proof -
  have "hd (t @ [NEWLINE]) = CHR ''#'' \<or> hd (t @ [NEWLINE]) = NEWLINE" using assms by (cases t) auto
  then show ?thesis
    using last_char [of t NEWLINE] c_str_item [OF assms] by (cases st) (auto simp: addr_line_def Let_def)
qed

definition file_text :: "addr_item list \<Rightarrow> string" where
  "file_text its = concat (map item_text its)"

lemma no_EOF_item: "item_ok i \<Longrightarrow> EOF_char \<notin> set (item_text i)"
  using plain_body [of i] by (auto simp: item_text_def plain_def) (auto simp: NEWLINE_def EOF_char_def)

lemma no_EOF_file: "\<forall>i \<in> set its. item_ok i \<Longrightarrow> EOF_char \<notin> set (file_text its)"
  using no_EOF_item by (auto simp: file_text_def)

text \<open>What the lines of a file leave.\<close>

definition fresh :: "ADDR list \<times> bool list \<Rightarrow> (nat \<times> string \<times> string) list \<Rightarrow> bool" where
  "fresh st es \<longleftrightarrow> length (fst st) = 17 \<and> length (snd st) = 16 \<and> distinct (map fst es) \<and> distinct (map snd es) \<and>
     (\<forall>e \<in> set es. fst e < 16 \<and> \<not> snd st ! fst e \<and> \<not> taken (fst st) (snd e))"

lemma addr_lines_item:
  assumes "item_ok i" "EOF_char \<notin> set s"
  shows "addr_lines H D len (skip_spaces (item_text i @ s)) st =
    bindE (addr_line H D len (item_body i @ [NEWLINE]) s st) (\<lambda>(rest, st'). addr_lines H D len (skip_spaces rest) st')"
  unfolding skip_item [OF assms(1)] by (subst addr_lines.simps) (simp add: fgets_item [OF assms(1)])

lemma fresh_set_item:
  assumes "fresh (A, B) ((r, h, p) # es)"
  shows "fresh (set_item (Entry k r h p t) (A, B)) es"
proof -
  have "fst e \<noteq> r \<and> snd e \<noteq> (h, p)" if "e \<in> set es" for e
    using assms that unfolding fresh_def by (cases e) (force simp: image_iff)
  then have f: "length A = 17" "length B = 16" "r < 16" "\<forall>e \<in> set es. fst e < 16 \<and> \<not> B ! fst e \<and> \<not> taken A (snd e) \<and> fst e \<noteq> r \<and> snd e \<noteq> (h, p)"
    "distinct (map fst es)" "distinct (map snd es)"
    using assms by (simp_all add: fresh_def)
  have "\<not> taken (A[r := (A ! r)\<lparr>ip := h, chan := p\<rparr>]) (snd e)" if "e \<in> set es" for e
    using f(1,3,4) that by (auto simp: taken_def nth_list_update split: if_splits)
  then show ?thesis using f by (auto simp: fresh_def)
qed

lemma addr_lines_file:
  assumes "\<forall>i \<in> set its. item_ok i" "fresh st (entries its)" "EOF_char \<notin> set s"
  shows "addr_lines H D 16 (skip_spaces (file_text its @ s)) st = addr_lines H D 16 (skip_spaces s) (fold set_item its st)"
  using assms
proof (induction its arbitrary: st)
  case Nil
  then show ?case by (simp add: file_text_def)
next
  case (Cons i its)
  have ne: "EOF_char \<notin> set (file_text its @ s)" using no_EOF_file [of its] Cons.prems(1,3) by simp
  have i: "item_ok i" and its: "\<forall>i \<in> set its. item_ok i" using Cons.prems(1) by simp_all
  obtain A B where st: "st = (A, B)" by fastforce
  have "addr_line H D 16 (item_body i @ [NEWLINE]) (file_text its @ s) st = Inr (file_text its @ s, set_item i st) \<and> fresh (set_item i st) (entries its)"
  proof (cases i)
    case (Entry k r h p t)
    have f: "fresh (A, B) ((r, h, p) # entries its)" using Cons.prems(2) by (simp add: st Entry)
    then have "length A = 17" "length B = 16" "\<not> B ! r" "\<not> taken A (h, p)" by (auto simp: fresh_def)
    then show ?thesis using addr_line_entry [OF i [unfolded Entry] _ _ ne, of A B H D] fresh_set_item [OF f] by (simp add: st Entry)
  next
    case (Remark k t)
    then show ?thesis using addr_line_remark [of k t] i Cons.prems(2) by simp
  qed
  then show ?case
    using addr_lines_item [OF i ne, of H D 16 st] Cons.IH [OF its _ Cons.prems(3)] by (simp add: file_text_def)
qed

definition empty_cell :: ADDR where
  "empty_cell = \<lparr>ip = '''', chan = '''', tcomm0 = None, tcomm1 = None, isPred0 = False, isPred1 = False\<rparr>"

lemma initAddrList_NP: "initAddrList 16 = replicate 17 empty_cell"
  by (simp add: initAddrList_def empty_cell_def)

text \<open>The state after the lines, cell by cell.\<close>

definition cell :: "(string \<times> string) option \<Rightarrow> ADDR" where
  "cell e = (case e of None \<Rightarrow> empty_cell | Some (h, p) \<Rightarrow> empty_cell\<lparr>ip := h, chan := p\<rparr>)"

lemma fold_set_item:
  assumes "distinct (map fst (entries its))" "\<forall>e \<in> set (entries its). fst e < 16" "length A = 17" "length B = 16"
  shows "length (fst (fold set_item its (A, B))) = 17 \<and> length (snd (fold set_item its (A, B))) = 16 \<and>
    (\<forall>r<16. fst (fold set_item its (A, B)) ! r = (case map_of (entries its) r of None \<Rightarrow> A ! r | Some (h, p) \<Rightarrow> (A ! r)\<lparr>ip := h, chan := p\<rparr>) \<and>
      snd (fold set_item its (A, B)) ! r = (B ! r \<or> map_of (entries its) r \<noteq> None))"
  using assms
proof (induction its arbitrary: A B)
  case Nil
  then show ?case by simp
next
  case (Cons i its)
  show ?case
  proof (cases i)
    case (Remark k t)
    then show ?thesis using Cons by simp
  next
    case (Entry k r h p t)
    let ?A = "A[r := (A ! r)\<lparr>ip := h, chan := p\<rparr>]" and ?B = "B[r := True]"
    have r: "r < 16" "r \<notin> fst ` set (entries its)" using Cons.prems(1,2) by (auto simp: Entry)
    then have n: "map_of (entries its) r = None" by (simp add: map_of_eq_None_iff)
    have IH: "length (fst (fold set_item its (?A, ?B))) = 17 \<and> length (snd (fold set_item its (?A, ?B))) = 16 \<and>
      (\<forall>r<16. fst (fold set_item its (?A, ?B)) ! r = (case map_of (entries its) r of None \<Rightarrow> ?A ! r | Some (h, p) \<Rightarrow> (?A ! r)\<lparr>ip := h, chan := p\<rparr>) \<and>
      snd (fold set_item its (?A, ?B)) ! r = (?B ! r \<or> map_of (entries its) r \<noteq> None))"
      by (rule Cons.IH) (use Cons.prems in \<open>simp_all add: Entry\<close>)
    have "fold set_item (i # its) (A, B) = fold set_item its (?A, ?B)" by (simp add: Entry)
    then show ?thesis using IH r n Cons.prems(3,4) by (auto simp: Entry nth_list_update split: option.splits)
  qed
qed

section \<open>The table of a file\<close>

text \<open>The lines make distinct participants of distinct ranks.\<close>

definition file_ok :: "addr_item list \<Rightarrow> bool" where
  "file_ok its \<longleftrightarrow> (\<forall>i \<in> set its. item_ok i) \<and> distinct (map fst (entries its)) \<and> distinct (map snd (entries its))"

lemma entries_ok:
  assumes "\<forall>i \<in> set its. item_ok i" "(r, h, p) \<in> set (entries its)"
  shows "r < 16" "h \<noteq> []" "p \<noteq> []"
  using assms by (induction its rule: entries.induct) auto

lemma fresh_start:
  assumes "file_ok its"
  shows "fresh (initAddrList 16, replicate 16 False) (entries its)"
proof -
  have "\<not> taken (replicate 17 empty_cell) (h, p)" if "(r, h, p) \<in> set (entries its)" for r h p
    using entries_ok [of its r h p] assms that by (auto simp: taken_def empty_cell_def file_ok_def)
  then show ?thesis using assms entries_ok(1) [of its] unfolding fresh_def initAddrList_NP by (auto simp: file_ok_def)
qed

lemma after_file:
  assumes "file_ok its"
  obtains A B where "fold set_item its (initAddrList 16, replicate 16 False) = (A, B)" "length A = 17" "length B = 16"
    "\<And>r. r < 16 \<Longrightarrow> A ! r = cell (map_of (entries its) r)" "\<And>r. r < 16 \<Longrightarrow> B ! r \<longleftrightarrow> map_of (entries its) r \<noteq> None"
proof -
  obtain A B where ab: "fold set_item its (initAddrList 16, replicate 16 False) = (A, B)" by fastforce
  have "\<forall>e \<in> set (entries its). fst e < 16" using assms entries_ok(1) [of its] by (auto simp: file_ok_def)
  then have f: "length A = 17 \<and> length B = 16 \<and>
    (\<forall>r<16. A ! r = (case map_of (entries its) r of None \<Rightarrow> replicate 17 empty_cell ! r | Some (h, p) \<Rightarrow> (replicate 17 empty_cell ! r)\<lparr>ip := h, chan := p\<rparr>) \<and>
      B ! r = (replicate 16 False ! r \<or> map_of (entries its) r \<noteq> None))"
    using fold_set_item [of its "replicate 17 empty_cell" "replicate 16 False"] ab assms
    by (simp add: file_ok_def initAddrList_NP)
  show thesis
    by (rule that [OF ab]) (use f in \<open>simp_all add: cell_def split: option.split\<close>)
qed

lemma clear_free_cells:
  assumes "length A = 17" "length B = 16" "\<forall>r<16. \<not> B ! r \<longrightarrow> ip (A ! r) = [] \<and> chan (A ! r) = []"
  shows "foldE (\<lambda>i array. bindE (nthE B i) (\<lambda>e. if e then Inr array else set_participant array i [] [])) (map int [0..<nat NP]) A = Inr A"
proof -
  have "foldE (\<lambda>i array. bindE (nthE B i) (\<lambda>e. if e then Inr array else set_participant array i [] [])) (map int rs) A = Inr A"
    if "\<forall>r \<in> set rs. r < 16" for rs
    using that
  proof (induction rs)
    case (Cons r rs)
    have "(A ! r)\<lparr>ip := [], chan := []\<rparr> = A ! r" if "\<not> B ! r" using assms(3) Cons.prems that by simp
    then have "set_participant A (int r) [] [] = Inr A" if "\<not> B ! r"
      using that assms(1) Cons.prems by (simp add: set_participant_def MAX_LEN_IP_def MAX_LEN_CHAN_def list_update_same_conv)
    then show ?case using Cons assms(2) by simp
  qed simp
  then show ?thesis by (simp add: NP_def)
qed

end
