(* ===== verification/BenchConfig.thy ===== *)
theory BenchConfig
  imports CString Bench
begin

text \<open>
  The command lines of the two benchmarks and the configuration file of the ring benchmark
  (\<^verbatim>\<open>validate_input_parameters\<close>, \<^verbatim>\<open>parse_config_file\<close>, \<^verbatim>\<open>get_ip_port\<close>, \<^verbatim>\<open>get_substr\<close> of
  \<^verbatim>\<open>protocol_tcp/main.c\<close>, and their namesakes in \<^verbatim>\<open>protocol_udp/mainUDP.c\<close>). Memory from malloc
  has no value until it is written: \<open>None\<close>.
\<close>

section \<open>The command line\<close>

record bench_params =
  param_id :: "16 word"
  param_num_nodes :: "32 word"
  param_time_out :: "32 word"
  param_preparation :: "32 word"
  param_warmingUp :: "32 word"
  param_mesure :: "32 word"
  param_stop :: "32 word"
  param_total_size :: "32 word"

definition atoi_word :: "string \<Rightarrow> 32 word result" where
  "atoi_word s = bindE (atoi (Some s)) (\<lambda>v. Inr (word_of_int v))"

text \<open>\<open>argv\<close> with the name of the program; both programs read the same eight numbers.\<close>

definition validate_input_parameters :: "string list \<Rightarrow> bench_params result" where
  "validate_input_parameters argv =
     (if length argv \<noteq> 9 then Inl (ExitFailure ''Incompatible call to this function. Try Again.!'')
      else bindE (atoi (Some (argv ! 1))) (\<lambda>a. bindE (atoi_word (argv ! 2)) (\<lambda>b. bindE (atoi_word (argv ! 3)) (\<lambda>c.
        bindE (atoi_word (argv ! 4)) (\<lambda>d. bindE (atoi_word (argv ! 5)) (\<lambda>e. bindE (atoi_word (argv ! 6)) (\<lambda>f.
        bindE (atoi_word (argv ! 7)) (\<lambda>g. bindE (atoi_word (argv ! 8)) (\<lambda>h.
          Inr \<lparr>param_id = word_of_int a, param_num_nodes = b, param_time_out = c, param_preparation = d, param_warmingUp = e,
            param_mesure = f, param_stop = g, param_total_size = h\<rparr>)))))))))"

definition validate_input_parameters_mc :: "string list \<Rightarrow> bench_params result" where
  "validate_input_parameters_mc = validate_input_parameters"

section \<open>The configuration\<close>

record node_info =
  node_id :: "16 word option"
  node_IP :: "char option list"
  node_port :: "32 word option"

record config_info =
  config_id :: "16 word"
  config_nodes :: "node_info list"
  config_num_nodes :: "32 word"

definition STRING_SIZE :: nat where "STRING_SIZE = 1024"

definition no_node :: node_info where
  "no_node = \<lparr>node_id = None, node_IP = replicate 16 None, node_port = None\<rparr>"

text \<open>The characters from \<open>i\<close> up to a space or \<open>end_index\<close>, and where they end.\<close>

fun get_substr_loop :: "nat \<Rightarrow> int \<Rightarrow> string \<Rightarrow> string \<Rightarrow> (int \<times> string) result" where
  "get_substr_loop 0 i source result = Inr (i, result)"
| "get_substr_loop (Suc n) i source result =
     bindE (nthE source i) (\<lambda>c. if c = CHR '' '' then Inr (i, result) else get_substr_loop n (i + 1) source (result @ [c]))"

definition get_substr :: "int \<Rightarrow> int \<Rightarrow> string \<Rightarrow> (int \<times> string) result" where
  "get_substr start_index end_index source = get_substr_loop (nat (end_index - start_index)) start_index source []"

text \<open>\<^verbatim>\<open>memcpy\<close> of the characters of a word, without its terminator, into the 16 bytes of \<^verbatim>\<open>IP\<close>.\<close>

definition copy_ip :: "string \<Rightarrow> node_info \<Rightarrow> node_info result" where
  "copy_ip w nd =
     (if length (node_IP nd) < length w then Inl MemFault
      else Inr (nd\<lparr>node_IP := map Some w @ drop (length w) (node_IP nd)\<rparr>))"

definition config_line :: "string \<Rightarrow> node_info list \<times> nat \<Rightarrow> (node_info list \<times> nat) result" where
  "config_line line0 st =
     (let line = c_str line0; (nodes, node_counter) = st; e = int (length line) - 1
      in if line \<noteq> [] \<and> hd line = CHR ''#'' then Inr st
         else bindE (get_substr 0 e line) (\<lambda>(last1, w1).
              bindE (atoi (Some w1)) (\<lambda>pid.
              bindE (nthE nodes (int node_counter)) (\<lambda>nd.
              bindE (get_substr (last1 + 1) e line) (\<lambda>(last2, w2).
              bindE (copy_ip w2 (nd\<lparr>node_id := Some (word_of_int pid)\<rparr>)) (\<lambda>nd'.
              bindE (get_substr (last2 + 1) e line) (\<lambda>(last3, w3).
              bindE (atoi_word w3) (\<lambda>port.
              bindE (updE nodes (int node_counter) (nd'\<lparr>node_port := Some port\<rparr>)) (\<lambda>nodes'.
                Inr (nodes', Suc node_counter))))))))))"

text \<open>The loop ends when \<^verbatim>\<open>fgets\<close> has met the end of the file.\<close>

function config_lines :: "string \<Rightarrow> node_info list \<times> nat \<Rightarrow> (node_info list \<times> nat) result" where
  "config_lines s st =
     (case fgets STRING_SIZE s of None \<Rightarrow> Inr st | Some (line, rest) \<Rightarrow> bindE (config_line line st) (config_lines rest))"
  by pat_completeness auto

termination
  by (relation "measure (\<lambda>(s, st). length s)") (auto dest!: fgets_shorter simp: STRING_SIZE_def)

declare config_lines.simps [simp del]

definition get_ip_port :: "string option \<Rightarrow> config_info \<Rightarrow> config_info result" where
  "get_ip_port file config =
     (case file of None \<Rightarrow> Inl (ExitFailure ''Assertion failed'')
      | Some s \<Rightarrow> bindE (config_lines s (config_nodes config, 0)) (\<lambda>(nodes, k). Inr (config\<lparr>config_nodes := nodes\<rparr>)))"

text \<open>\<^verbatim>\<open>parse_config_file\<close> up to the creation of the ring; the one of the multicast benchmark reads no
  file.\<close>

definition parse_config_file :: "16 word \<Rightarrow> string option \<Rightarrow> 32 word \<Rightarrow> config_info result" where
  "parse_config_file pid file n =
     get_ip_port file \<lparr>config_id = pid, config_nodes = replicate MAX_NODES no_node, config_num_nodes = n\<rparr>"

definition parse_config_file_mc :: "16 word \<Rightarrow> 32 word \<Rightarrow> config_info" where
  "parse_config_file_mc pid n = \<lparr>config_id = pid, config_nodes = [], config_num_nodes = n\<rparr>"

text \<open>The address a process connects to: the node after it, the first one after the last. The
  address is read as a string, up to a terminator.\<close>

definition id_succ :: "config_info \<Rightarrow> 16 word" where
  "id_succ config = (if sint (config_id config) \<noteq> sint (config_num_nodes config - 1) then config_id config + 1 else 0)"

fun read_string :: "char option list \<Rightarrow> string result" where
  "read_string [] = Inl MemFault"
| "read_string (None # cs) = Inl MemFault"
| "read_string (Some c # cs) = (if c = NUL then Inr [] else bindE (read_string cs) (\<lambda>s. Inr (c # s)))"

definition successor_address :: "config_info \<Rightarrow> (string \<times> 32 word option) result" where
  "successor_address config =
     bindE (nthE (config_nodes config) (sint (id_succ config))) (\<lambda>nd. bindE (read_string (node_IP nd)) (\<lambda>s. Inr (s, node_port nd)))"

section \<open>What the file gives\<close>

lemma get_substr_loop_word:
  assumes "\<forall>c \<in> set w. c \<noteq> CHR '' ''" "length w \<le> n" "length w < n \<Longrightarrow> v \<noteq> [] \<and> hd v = CHR '' ''"
  shows "get_substr_loop n (int (length u)) (u @ w @ v) acc = Inr (int (length u + length w), acc @ w)"
  using assms
proof (induction w arbitrary: n u acc)
  case Nil
  show ?case
  proof (cases n)
    case (Suc m)
    then have "nthE (u @ v) (int (length u)) = Inr CHR '' ''" using Nil(3) by (cases v) simp_all
    then show ?thesis using Suc by simp
  qed simp
next
  case (Cons c w)
  then obtain m where m: "n = Suc m" by (cases n) auto
  have "get_substr_loop m (int (length (u @ [c]))) ((u @ [c]) @ w @ v) (acc @ [c]) = Inr (int (length (u @ [c]) + length w), (acc @ [c]) @ w)"
    by (rule Cons.IH) (use Cons.prems m in auto)
  moreover have "nthE (u @ c # w @ v) (int (length u)) = Inr c" by simp
  ultimately show ?case using Cons.prems(1) by (simp add: m add.commute)
qed

text \<open>Words of a line: one that a space ends, and one that goes up to the last character of the
  line.\<close>

lemma get_substr_space:
  assumes "\<forall>c \<in> set w. c \<noteq> CHR '' ''"
  shows "get_substr (int (length u)) (int (length (u @ w @ CHR '' '' # v @ [c])) - 1) (u @ w @ CHR '' '' # v @ [c]) = Inr (int (length u + length w), w)"
  unfolding get_substr_def using get_substr_loop_word [of w _ "CHR '' '' # v @ [c]" u "[]"] assms by simp

lemma get_substr_end:
  assumes "\<forall>c \<in> set w. c \<noteq> CHR '' ''"
  shows "get_substr (int (length u)) (int (length (u @ w @ [c])) - 1) (u @ w @ [c]) = Inr (int (length u + length w), w)"
  unfolding get_substr_def using get_substr_loop_word [of w "length w" "[c]" u "[]"] assms by simp

text \<open>A line: a rank, an address, a port, and the last character, whatever it is.\<close>

lemma config_line_reads:
  assumes "\<forall>c \<in> set a. c \<noteq> CHR '' ''" "\<forall>c \<in> set b. c \<noteq> CHR '' ''" "\<forall>c \<in> set d. c \<noteq> CHR '' ''" "a \<noteq> []" "hd a \<noteq> CHR ''#''"
    and "NUL \<notin> set (a @ b @ d @ [c])" "atoi (Some a) = Inr i" "atoi (Some d) = Inr p" "k < length nodes" "length b \<le> length (node_IP (nodes ! k))"
  shows "config_line (a @ CHR '' '' # b @ CHR '' '' # d @ [c]) (nodes, k) =
    Inr (nodes[k := (nodes ! k)\<lparr>node_id := Some (word_of_int i), node_IP := map Some b @ drop (length b) (node_IP (nodes ! k)), node_port := Some (word_of_int p)\<rparr>], Suc k)"
proof -
  let ?l = "a @ CHR '' '' # b @ CHR '' '' # d @ [c]"
  have l: "c_str ?l = ?l" using assms(6) unfolding c_str_def by (intro takeWhile_eq_all_conv [THEN iffD2]) (auto simp: NUL_def)
  have g1: "get_substr 0 (int (length ?l) - 1) ?l = Inr (int (length a), a)"
    using get_substr_space [OF assms(1), of "[]" "b @ CHR '' '' # d" c] by simp
  have g2: "get_substr (int (length a) + 1) (int (length ?l) - 1) ?l = Inr (int (length a) + 1 + int (length b), b)"
    using get_substr_space [OF assms(2), of "a @ '' ''" d c] by (simp add: add.commute)
  have g3: "get_substr (int (length a) + 1 + int (length b) + 1) (int (length ?l) - 1) ?l = Inr (int (length a) + 1 + int (length b) + 1 + int (length d), d)"
    using get_substr_end [OF assms(3), of "a @ CHR '' '' # b @ '' ''" c] by (simp add: algebra_simps)
  have "hd ?l \<noteq> CHR ''#''" using assms(4,5) by simp
  then show ?thesis
    unfolding config_line_def l Let_def prod.case
    using g1 g2 g3 assms(7-10) by (simp add: copy_ip_def atoi_word_def)
qed

text \<open>No address of the file is ever terminated, so none can be read as the string it is used as.\<close>

definition unterminated :: "node_info \<Rightarrow> bool" where
  "unterminated nd \<longleftrightarrow> Some NUL \<notin> set (node_IP nd)"

lemma read_unterminated: "Some NUL \<notin> set cs \<Longrightarrow> read_string cs = Inl MemFault"
  by (induction cs rule: read_string.induct) auto

lemma substr_no_NUL:
  "get_substr_loop n i s acc = Inr (j, w) \<Longrightarrow> NUL \<notin> set s \<Longrightarrow> NUL \<notin> set acc \<Longrightarrow> NUL \<notin> set w"
proof (induction n arbitrary: i acc)
  case (Suc n)
  then obtain c where c: "nthE s i = Inr c" by (cases "nthE s i") auto
  then have "c \<in> set s" by (auto simp: nthE_eq_Inr)
  then have "c \<noteq> NUL" using Suc.prems(2) by blast
  then show ?case using Suc.prems Suc.IH [of "i + 1" "acc @ [c]"] c by (auto split: if_splits)
qed simp

lemma config_line_unterminated:
  assumes "config_line line (nodes, k) = Inr (nodes', k')" "\<forall>nd \<in> set nodes. unterminated nd"
  shows "\<forall>nd \<in> set nodes'. unterminated nd"
proof (cases "c_str line \<noteq> [] \<and> hd (c_str line) = CHR ''#''")
  case True
  then show ?thesis using assms by (auto simp: config_line_def Let_def)
next
  case False
  let ?l = "c_str line" and ?e = "int (length (c_str line)) - 1"
  obtain last1 w1 pid nd last2 w2 nd' last3 w3 port where s: "get_substr 0 ?e ?l = Inr (last1, w1)" "nthE nodes (int k) = Inr nd"
    "get_substr (last1 + 1) ?e ?l = Inr (last2, w2)" "copy_ip w2 (nd\<lparr>node_id := Some (word_of_int pid)\<rparr>) = Inr nd'"
    "updE nodes (int k) (nd'\<lparr>node_port := Some port\<rparr>) = Inr nodes'"
    using assms(1) False by (auto simp: config_line_def Let_def bindE_eq_Inr split: prod.splits)
  have "NUL \<notin> set ?l" by (auto simp: c_str_def dest: set_takeWhileD)
  then have w: "NUL \<notin> set w2" using substr_no_NUL [OF s(3) [unfolded get_substr_def]] by simp
  have "unterminated nd" using s(2) assms(2) by (auto split: if_splits)
  then have "unterminated (nd'\<lparr>node_port := Some port\<rparr>)"
    using s(4) w by (auto simp: copy_ip_def unterminated_def split: if_splits dest: in_set_dropD)
  then show ?thesis using s(5) assms(2) by (auto split: if_splits dest!: set_update_subset_insert [THEN subsetD])
qed

lemma config_lines_unterminated:
  "config_lines s (nodes, k) = Inr (nodes', k') \<Longrightarrow> \<forall>nd \<in> set nodes. unterminated nd \<Longrightarrow> \<forall>nd \<in> set nodes'. unterminated nd"
proof (induction "length s" arbitrary: s nodes k rule: less_induct)
  case less
  show ?case
  proof (cases "fgets STRING_SIZE s")
    case None
    then show ?thesis using less.prems by (subst (asm) config_lines.simps) auto
  next
    case (Some lr)
    obtain line rest where lr: "lr = (line, rest)" by fastforce
    obtain nodes1 k1 where st1: "config_line line (nodes, k) = Inr (nodes1, k1)" "config_lines rest (nodes1, k1) = Inr (nodes', k')"
      using less.prems(1) by (subst (asm) config_lines.simps) (auto simp: Some lr bindE_eq_Inr)
    have "length rest < length s" using fgets_shorter [of STRING_SIZE s line rest] Some lr by (simp add: STRING_SIZE_def)
    then show ?thesis using less.hyps [OF _ st1(2)] config_line_unterminated [OF st1(1)] less.prems(2) by blast
  qed
qed

lemma successor_unreadable:
  assumes "parse_config_file pid file n = Inr config"
  shows "successor_address config = Inl MemFault"
proof -
  obtain s nodes k where s: "config_lines s (replicate MAX_NODES no_node, 0) = Inr (nodes, k)" "config_nodes config = nodes"
    using assms by (auto simp: parse_config_file_def get_ip_port_def bindE_eq_Inr split: option.splits)
  have "\<forall>nd \<in> set (replicate MAX_NODES no_node). unterminated nd" by (simp add: unterminated_def no_node_def)
  then have u: "\<forall>nd \<in> set nodes. unterminated nd" by (rule config_lines_unterminated [OF s(1)])
  show ?thesis
  proof (cases "nthE nodes (sint (id_succ config))")
    case (Inl e)
    then show ?thesis using s(2) by (auto simp: successor_address_def nthE_def split: if_splits)
  next
    case (Inr nd)
    then have "nd \<in> set nodes" by (auto simp: nthE_eq_Inr)
    then show ?thesis using u read_unterminated [of "node_IP nd"] Inr s(2) by (simp add: successor_address_def unterminated_def)
  qed
qed

end
