(* ===== verification/BenchSockets.thy ===== *)
theory BenchSockets
  imports BenchConfig
begin

text \<open>
  The sockets of the benchmarks: the ring of TCP connections (\<^verbatim>\<open>create_ring\<close> and what it calls in
  \<^verbatim>\<open>protocol_tcp/main.c\<close>) and the multicast socket (\<^verbatim>\<open>create_multicast_socket\<close> of
  \<^verbatim>\<open>protocol_udp/mainUDP.c\<close>). The system's answers are a script; the calls are recorded, with
  the arguments that matter.
\<close>

datatype sys_call =
    Socket_stream | Socket_dgram | Reuse_addr int | No_delay int | Bind int string "32 word option" | Listen int | Accept int
  | Connect int string "32 word option" | Close int | Sleep nat | Multicast_ttl int | Multicast_loop int | Join int

record sys_state =
  sys_script :: "int list"
  sys_calls :: "sys_call list"

definition sys :: "sys_call \<Rightarrow> sys_state \<Rightarrow> (int \<times> sys_state) result" where
  "sys c s =
     (case sys_script s of [] \<Rightarrow> Inl Blocks
      | a # as \<Rightarrow> Inr (a, s\<lparr>sys_script := as, sys_calls := sys_calls s @ [c]\<rparr>))"

definition setTCP_NODELAY :: "int \<Rightarrow> sys_state \<Rightarrow> sys_state result" where
  "setTCP_NODELAY fd s = bindE (sys (No_delay fd) s) (\<lambda>(r, s1). bindE (assertE (0 \<le> r)) (\<lambda>_. Inr s1))"

section \<open>The ring\<close>

text \<open>The loop accepts until a connection has come; each turn takes an answer.\<close>

fun ring_accept_loop :: "nat \<Rightarrow> int \<Rightarrow> int \<Rightarrow> sys_state \<Rightarrow> (int \<times> sys_state) result" where
  "ring_accept_loop 0 sid self_sid s = (if self_sid < 0 then Inl Blocks else Inr (self_sid, s))"
| "ring_accept_loop (Suc n) sid self_sid s =
     (if self_sid < 0
      then bindE (sys (Accept sid) s) (\<lambda>(a, s1). bindE (setTCP_NODELAY a s1) (ring_accept_loop n sid a))
      else Inr (self_sid, s))"

definition create_tcp_server_socket_for_predecessor :: "config_info \<Rightarrow> sys_state \<Rightarrow> (int \<times> sys_state) result" where
  "create_tcp_server_socket_for_predecessor config s =
     bindE (sys Socket_stream s) (\<lambda>(sid, s1). bindE (sys (Reuse_addr sid) s1) (\<lambda>(r, s2).
     bindE (nthE (config_nodes config) (sint (config_id config))) (\<lambda>nd. bindE (read_string (node_IP nd)) (\<lambda>addr.
     bindE (sys (Bind sid addr (node_port nd)) s2) (\<lambda>(e, s3). bindE (assertE (0 \<le> e)) (\<lambda>_.
     bindE (sys (Listen sid) s3) (\<lambda>(e, s4). bindE (assertE (0 \<le> e)) (\<lambda>_.
     bindE (sys (Accept sid) s4) (\<lambda>(self_sid, s5). bindE (sys (Reuse_addr self_sid) s5) (\<lambda>(r, s6).
       ring_accept_loop (length (sys_script s6)) sid self_sid s6))))))))))"

fun ring_connect_loop :: "nat \<Rightarrow> string \<Rightarrow> 32 word option \<Rightarrow> int \<Rightarrow> sys_state \<Rightarrow> (int \<times> sys_state) result" where
  "ring_connect_loop 0 addr port sid s = Inl Blocks"
| "ring_connect_loop (Suc n) addr port sid s =
     bindE (sys (Connect sid addr port) s) (\<lambda>(e, s1).
       if 0 \<le> e then Inr (sid, s1)
       else bindE (sys (Close sid) s1) (\<lambda>(r, s2). bindE (sys (Sleep 1) s2) (\<lambda>(r, s3).
            bindE (sys Socket_stream s3) (\<lambda>(sid', s4). ring_connect_loop n addr port sid' s4))))"

definition create_tcp_client_socket :: "string \<Rightarrow> 32 word option \<Rightarrow> sys_state \<Rightarrow> (int \<times> sys_state) result" where
  "create_tcp_client_socket addr port s =
     bindE (sys Socket_stream s) (\<lambda>(sid, s1). bindE (sys (Reuse_addr sid) s1) (\<lambda>(r, s2).
     bindE (ring_connect_loop (length (sys_script s2)) addr port sid s2) (\<lambda>(sid', s3).
     bindE (setTCP_NODELAY sid' s3) (\<lambda>s4. Inr (sid', s4)))))"

definition create_tcp_client_socket_for_successor :: "config_info \<Rightarrow> sys_state \<Rightarrow> (int \<times> sys_state) result" where
  "create_tcp_client_socket_for_successor config s =
     bindE (successor_address config) (\<lambda>(addr, port). create_tcp_client_socket addr port s)"

text \<open>\<^verbatim>\<open>self_sid\<close> and \<^verbatim>\<open>successor_sid\<close>; process 0 connects first, the others accept first.\<close>

definition create_ring :: "config_info \<Rightarrow> sys_state \<Rightarrow> (int \<times> int \<times> sys_state) result" where
  "create_ring config s =
     (if config_id config \<noteq> 0
      then bindE (create_tcp_server_socket_for_predecessor config s) (\<lambda>(a, s1).
           bindE (create_tcp_client_socket_for_successor config s1) (\<lambda>(b, s2). Inr (a, b, s2)))
      else bindE (create_tcp_client_socket_for_successor config s) (\<lambda>(b, s1).
           bindE (create_tcp_server_socket_for_predecessor config s1) (\<lambda>(a, s2). Inr (a, b, s2))))"

section \<open>Multicast\<close>

definition exit_below_0 :: "string \<Rightarrow> int \<times> sys_state \<Rightarrow> sys_state result" where
  "exit_below_0 msg x = (if fst x < 0 then Inl (ExitFailure msg) else Inr (snd x))"

definition create_multicast_socket :: "int \<Rightarrow> string \<Rightarrow> sys_state \<Rightarrow> (int \<times> sys_state) result" where
  "create_multicast_socket mc_port mc_addr_str s =
     (if mc_port < 1024 \<or> 65535 < mc_port then Inl (ExitFailure ''Invalid port number argument'')
      else bindE (sys Socket_dgram s) (\<lambda>(sid, s1). bindE (exit_below_0 ''socket() failed'' (sid, s1)) (\<lambda>s1.
           bindE (bindE (sys (Multicast_ttl sid) s1) (exit_below_0 ''setsockopt() failed'')) (\<lambda>s2.
           bindE (bindE (sys (Multicast_loop sid) s2) (exit_below_0 ''setting IP_MULTICAST_LOOP:'')) (\<lambda>s3.
           bindE (bindE (sys (Reuse_addr sid) s3) (exit_below_0 ''setsockopt() failed'')) (\<lambda>s4.
           bindE (bindE (sys (Bind sid mc_addr_str (Some (word_of_int mc_port))) s4) (exit_below_0 ''bind() failed'')) (\<lambda>s5.
           bindE (bindE (sys (Join sid) s5) (exit_below_0 ''setsockopt() failed'')) (\<lambda>s6. Inr (sid, s6)))))))))"

section \<open>What they do\<close>

lemma sys_eq_Inr: "sys c s = Inr (a, s') \<longleftrightarrow> (\<exists>as. sys_script s = a # as \<and> s' = s\<lparr>sys_script := as, sys_calls := sys_calls s @ [c]\<rparr>)"
  by (auto simp: sys_def split: list.splits)

lemma setTCP_NODELAY_calls: "setTCP_NODELAY fd s = Inr s' \<Longrightarrow> sys_calls s' = sys_calls s @ [No_delay fd]"
  by (auto simp: setTCP_NODELAY_def bindE_eq_Inr sys_eq_Inr)

text \<open>The answers are enough turns for the loops: each turn takes one.\<close>

lemma ring_accept_enough:
  "length (sys_script s) \<le> n \<Longrightarrow> length (sys_script s) \<le> m \<Longrightarrow> ring_accept_loop n sid a s = ring_accept_loop m sid a s"
proof (induction n arbitrary: m a s)
  case 0
  then show ?case by (cases m) (auto simp: sys_def)
next
  case (Suc n)
  show ?case
  proof (cases "sys_script s")
    case Nil
    then show ?thesis by (cases m) (auto simp: sys_def)
  next
    case (Cons x xs)
    then obtain k where m: "m = Suc k" using Suc.prems(2) by (cases m) auto
    let ?s1 = "s\<lparr>sys_script := xs, sys_calls := sys_calls s @ [Accept sid]\<rparr>"
    have "ring_accept_loop n sid x s2 = ring_accept_loop k sid x s2" if "setTCP_NODELAY x ?s1 = Inr s2" for s2
    proof (rule Suc.IH)
      have "length (sys_script s2) \<le> length xs"
        using that by (auto simp: setTCP_NODELAY_def bindE_eq_Inr sys_eq_Inr)
      then show "length (sys_script s2) \<le> n" "length (sys_script s2) \<le> k" using Suc.prems Cons m by simp_all
    qed
    then have "bindE (setTCP_NODELAY x ?s1) (ring_accept_loop n sid x) = bindE (setTCP_NODELAY x ?s1) (ring_accept_loop k sid x)"
      by (cases "setTCP_NODELAY x ?s1") simp_all
    then show ?thesis by (simp add: m Cons sys_def)
  qed
qed

text \<open>The connection to the successor does not delay packets; the one from the predecessor does,
  when the first call of accept has succeeded.\<close>

lemma successor_no_delay:
  "create_tcp_client_socket addr port s = Inr (sid, s') \<Longrightarrow> No_delay sid \<in> set (sys_calls s')"
  by (auto simp: create_tcp_client_socket_def bindE_eq_Inr dest!: setTCP_NODELAY_calls)

lemma predecessor_delays:
  assumes "create_tcp_server_socket_for_predecessor config s = Inr (a, s')" "sys_script s = [sid, r, e1, e2, fd, r'] @ rest" "0 \<le> fd"
  shows "a = fd \<and> (\<exists>cs. sys_calls s' = sys_calls s @ cs \<and> No_delay fd \<notin> set cs)"
proof -
  have l: "ring_accept_loop n x fd t = Inr (fd, t)" for n x t using assms(3) by (cases n) auto
  show ?thesis using assms(1,2) by (auto simp: create_tcp_server_socket_for_predecessor_def bindE_eq_Inr sys_def l)
qed

text \<open>The multicast socket has all its options when it is given out.\<close>

lemma multicast_socket_set:
  "create_multicast_socket port addr s = Inr (sid, s') \<Longrightarrow> 0 \<le> sid \<and> 1024 \<le> port \<and> port \<le> 65535 \<and>
    sys_calls s' = sys_calls s @ [Socket_dgram, Multicast_ttl sid, Multicast_loop sid, Reuse_addr sid, Bind sid addr (Some (word_of_int port)), Join sid]"
  by (auto simp: create_multicast_socket_def bindE_eq_Inr sys_eq_Inr exit_below_0_def split: if_splits)

end
