(* ===== verification/ConfigProperties.thy ===== *)
theory ConfigProperties
  imports AddrFile BenchSockets
begin

text \<open>
  The properties of the readers of configuration files.
\<close>

section \<open>The file of addresses\<close>

text \<open>C29: from a well-written file of addresses, with spaces, comments and empty lines, addrGenerator
  makes the table that has each participant at its rank and nothing at the other ranks, and
  addrID finds each participant again.\<close>

theorem address_file_read:
  assumes "file_ok its"
  shows "\<exists>T. addrGenerator H D (Some (file_text its)) NP = Inr T \<and> length T = 17 \<and>
    (\<forall>r<16. T ! r = cell (map_of (entries its) r)) \<and> (\<forall>(r, h, p) \<in> set (entries its). addrID h p T = Inr (int r))"
proof -
  obtain A B where ab: "fold set_item its (initAddrList 16, replicate 16 False) = (A, B)" "length A = 17" "length B = 16"
    "\<And>r. r < 16 \<Longrightarrow> A ! r = cell (map_of (entries its) r)" "\<And>r. r < 16 \<Longrightarrow> B ! r \<longleftrightarrow> map_of (entries its) r \<noteq> None"
    by (rule after_file [OF assms]) (rule that)
  have ok: "\<forall>i \<in> set its. item_ok i" using assms by (simp add: file_ok_def)
  have s: "skip_spaces [] = []" by (simp add: skip_spaces_def fgetc_def ungetc_def)
  have "addr_lines H D 16 (skip_spaces (file_text its @ [])) (initAddrList 16, replicate 16 False) = addr_lines H D 16 (skip_spaces []) (A, B)"
    unfolding ab(1) [symmetric] by (rule addr_lines_file [OF ok fresh_start [OF assms]]) simp
  then have "addr_lines H D 16 (skip_spaces (file_text its)) (initAddrList 16, replicate 16 False) = addr_lines H D 16 [] (A, B)"
    by (simp add: s)
  moreover have "addr_lines H D 16 [] (A, B) = Inr (A, B)" by (subst addr_lines.simps) (simp add: fgets_def)
  moreover have "foldE (\<lambda>i array. bindE (nthE B i) (\<lambda>e. if e then Inr array else set_participant array i [] [])) (map int [0..<nat NP]) A = Inr A"
  proof (rule clear_free_cells [OF ab(2,3)], intro allI impI)
    fix r :: nat assume r: "r < 16" "\<not> B ! r"
    then have "map_of (entries its) r = None" using ab(5) [of r] by blast
    then show "ip (A ! r) = [] \<and> chan (A ! r) = []" using ab(4) [OF r(1)] by (simp add: cell_def empty_cell_def)
  qed
  ultimately have gen: "addrGenerator H D (Some (file_text its)) NP = Inr A"
    by (simp add: addrGenerator_def NP_def)
  have "addrID h p A = Inr (int r)" if e: "(r, h, p) \<in> set (entries its)" for r h p
  proof -
    have m: "map_of (entries its) r = Some (h, p)" using e assms by (simp add: file_ok_def)
    have r: "r < 16" "h \<noteq> []" using entries_ok [OF ok e] by simp_all
    have only: "(0 \<le> j \<and> j < 16 \<and> ip (A ! j) = h \<and> chan (A ! j) = p) \<longleftrightarrow> j = r" for j
    proof
      assume j: "0 \<le> j \<and> j < 16 \<and> ip (A ! j) = h \<and> chan (A ! j) = p"
      then obtain h' p' where "map_of (entries its) j = Some (h', p')" "h' = h" "p' = p"
        using ab(4) [of j] r(2) by (cases "map_of (entries its) j") (auto simp: cell_def empty_cell_def)
      then have "(j, h, p) \<in> set (entries its)" by (simp add: map_of_SomeD)
      moreover have "inj_on snd (set (entries its))" using assms by (simp add: file_ok_def distinct_map)
      ultimately show "j = r" using inj_onD [of snd "set (entries its)" "(j, h, p)" "(r, h, p)"] e by simp
    next
      assume "j = r"
      then show "0 \<le> j \<and> j < 16 \<and> ip (A ! j) = h \<and> chan (A ! j) = p" using ab(4) [of r] r m by (simp add: cell_def)
    qed
    moreover have "(LEAST j. j = r) = r" by (rule Least_equality) auto
    ultimately show ?thesis
      using addrID_loop_spec [of 0 16 A h p] ab(2) by (simp add: addrID_def NP_def)
  qed
  then show ?thesis using gen ab(2,4) by blast
qed

definition sample_file :: "addr_item list" where
  "sample_file = [Remark 1 ''# participants'', Entry 2 3 ''host'' ''80'' '' # first'', Remark 0 [], Entry 0 12 ''host'' ''81'' []]"

lemma sample_file_ok: "file_ok sample_file"
  by code_simp

theorem address_file_read_witness:
  "\<exists>T. addrGenerator None (\<lambda>h. Inl MemFault) (Some (file_text sample_file)) NP = Inr T \<and> ip (T ! 3) = ''host'' \<and> chan (T ! 12) = ''81'' \<and>
    addrID ''host'' ''81'' T = Inr 12"
proof -
  have m: "map_of (entries sample_file) 3 = Some (''host'', ''80'')" "map_of (entries sample_file) 12 = Some (''host'', ''81'')"
    "(12, ''host'', ''81'') \<in> set (entries sample_file)" by (simp_all add: sample_file_def)
  obtain T where T: "addrGenerator None (\<lambda>h. Inl MemFault) (Some (file_text sample_file)) NP = Inr T"
    "\<forall>r<16. T ! r = cell (map_of (entries sample_file) r)" "\<forall>(r, h, p) \<in> set (entries sample_file). addrID h p T = Inr (int r)"
    using address_file_read [OF sample_file_ok, of None "\<lambda>h. Inl MemFault"] by blast
  have "T ! 3 = cell (Some (''host'', ''80''))" "T ! 12 = cell (Some (''host'', ''81''))"
    using spec [OF T(2), of 3] spec [OF T(2), of 12] m by simp_all
  then show ?thesis using T(1,3) m(3) by (intro exI [of _ T]) (auto simp: cell_def)
qed

text \<open>C30: after a well-written file, a line with a rank that is taken, or with a hostname and a port
  that are taken together, ends the process, whatever follows it.\<close>

theorem address_file_duplicates:
  assumes "file_ok its" "item_ok (Entry k r h p t)" "EOF_char \<notin> set s"
  shows "(r \<in> fst ` set (entries its) \<longrightarrow> addrGenerator H D (Some (file_text its @ item_text (Entry k r h p t) @ s)) NP =
      Inl (ExitFailure ''RANK already exists in a previous line'')) \<and>
    (r \<notin> fst ` set (entries its) \<and> (h, p) \<in> snd ` set (entries its) \<longrightarrow>
      addrGenerator H D (Some (file_text its @ item_text (Entry k r h p t) @ s)) NP =
        Inl (ExitFailure ''This participant already exists in a previous line''))"
proof -
  obtain A B where ab: "fold set_item its (initAddrList 16, replicate 16 False) = (A, B)" "length A = 17" "length B = 16"
    "\<And>r. r < 16 \<Longrightarrow> A ! r = cell (map_of (entries its) r)" "\<And>r. r < 16 \<Longrightarrow> B ! r \<longleftrightarrow> map_of (entries its) r \<noteq> None"
    by (rule after_file [OF assms(1)]) (rule that)
  have ok: "\<forall>i \<in> set its. item_ok i" using assms(1) by (simp add: file_ok_def)
  have ne: "EOF_char \<notin> set (item_text (Entry k r h p t) @ s)" using no_EOF_item [OF assms(2)] assms(3) by simp
  have r: "r < 16" using assms(2) by simp
  have "addr_lines H D 16 (skip_spaces (file_text its @ item_text (Entry k r h p t) @ s)) (initAddrList 16, replicate 16 False) =
    bindE (addr_line H D 16 (item_body (Entry k r h p t) @ [NEWLINE]) s (A, B)) (\<lambda>(rest, st'). addr_lines H D 16 (skip_spaces rest) st')"
    unfolding addr_lines_file [OF ok fresh_start [OF assms(1)] ne] ab(1) by (rule addr_lines_item [OF assms(2,3)])
  moreover have "B ! r \<longleftrightarrow> r \<in> fst ` set (entries its)" using ab(5) [OF r] by (simp add: map_of_eq_None_iff)
  moreover have "taken A (h, p)" if "(h, p) \<in> snd ` set (entries its)"
  proof -
    from that obtain i where i: "(i, h, p) \<in> set (entries its)" by auto
    then have "map_of (entries its) i = Some (h, p)" "i < 16" using assms(1) entries_ok(1) [OF ok i] by (simp_all add: file_ok_def)
    then show ?thesis using ab(4) [of i] by (auto simp: taken_def cell_def)
  qed
  ultimately show ?thesis
    using addr_line_entry [OF assms(2) ab(2,3) assms(3), of H D] by (auto simp: addrGenerator_def NP_def)
qed

theorem address_file_duplicates_witness:
  "addrGenerator None (\<lambda>h. Inl MemFault) (Some (file_text sample_file @ item_text (Entry 0 3 ''other'' ''1'' []))) NP =
    Inl (ExitFailure ''RANK already exists in a previous line'') \<and>
   addrGenerator None (\<lambda>h. Inl MemFault) (Some (file_text sample_file @ item_text (Entry 0 4 ''host'' ''80'' []))) NP =
    Inl (ExitFailure ''This participant already exists in a previous line'')"
proof -
  have i: "item_ok (Entry 0 3 ''other'' ''1'' [])" "item_ok (Entry 0 4 ''host'' ''80'' [])" by code_simp+
  have m: "3 \<in> fst ` set (entries sample_file)" "4 \<notin> fst ` set (entries sample_file)" "(''host'', ''80'') \<in> snd ` set (entries sample_file)"
    by (simp_all add: sample_file_def)
  show ?thesis
    using address_file_duplicates [OF sample_file_ok i(1), of "[]" None "\<lambda>h. Inl MemFault"] m
      address_file_duplicates [OF sample_file_ok i(2), of "[]" None "\<lambda>h. Inl MemFault"] by simp
qed

text \<open>A line of colons only has no rank: \<^verbatim>\<open>atoi\<close> reads NULL.\<close>

lemma address_file_colons: "addrGenerator H D (Some '':::'') NP = Inl MemFault"
proof -
  have s: "skip_spaces '':::'' = '':::''" by (simp add: skip_spaces_def fgetc_def ungetc_def EOF_char_def)
  have f: "fgets MAX_LEN_LINE_IN_FILE '':::'' = Some ('':::'', [])" by (rule fgets_last) (simp_all add: NEWLINE_def MAX_LEN_LINE_IN_FILE_def)
  have "addr_line H D 16 '':::'' [] st = Inl MemFault" for st
    by (cases st) (simp add: addr_line_def c_str_def NUL_def NEWLINE_def nthE_def strtok_def atoi_def)
  then have "addr_lines H D 16 '':::'' st = Inl MemFault" for st by (subst addr_lines.simps) (simp add: f)
  then show ?thesis by (simp add: addrGenerator_def NP_def s)
qed

text \<open>When the last line of the configuration of the ring ends with the file, its port loses its last
  digit.\<close>

lemma config_last_line:
  "bindE (parse_config_file 0 (Some ''0 10.0.0.1 4242'') 2) (\<lambda>c. Inr (node_port (config_nodes c ! 0))) = Inr (Some 424)"
  by code_simp

end
