(* ===== verification/Signals.thy ===== *)
theory Signals
  imports Comm
begin

text \<open>
  The module of signals, \<^verbatim>\<open>src/signalMgt.c\<close>, and the initialisation of the communication module
  that calls it: a signal handler for the signal that interrupts a system call, and a thread
  that waits for the signal of the timer and then aborts the connection under way. What the
  calls of pthreads and of the system return is an argument; the code takes only negative
  results of pthreads for errors.
\<close>

datatype signal = SIGALRM | SIGNAL_FOR_ABORT | OTHER_SIGNAL nat

text \<open>The two static variables \<^verbatim>\<open>done\<close>, the mask, the signals the threads block, the installed
  handler, the threads, the number of the thread of signals.\<close>

record signal_mgt =
  comm_done :: bool
  sig_done :: bool
  sig_mask :: "signal list"
  blocked_signals :: "signal list"
  abort_handler :: bool
  mgt_threads :: nat
  signalMgtThreadTid :: int

definition signal_mgt0 :: signal_mgt where
  "signal_mgt0 = \<lparr>comm_done = False, sig_done = False, sig_mask = [], blocked_signals = [], abort_handler = False,
     mgt_threads = 0, signalMgtThreadTid = 0\<rparr>"

definition signalMgtFunction :: "signal \<Rightarrow> unit result" where
  "signalMgtFunction num = (if num \<noteq> SIGNAL_FOR_ABORT then Inl (ExitFailure ''received unexpected signal'') else Inr ())"

definition signalMgtInitialize :: "int \<Rightarrow> int \<Rightarrow> int \<Rightarrow> signal_mgt \<Rightarrow> signal_mgt result" where
  "signalMgtInitialize rc_sigmask rc_sigaction rc_create s =
     (if sig_done s then Inr s
      else let s1 = s\<lparr>sig_mask := [SIGALRM]\<rparr>
           in if rc_sigmask < 0 then Inl (ExitFailure ''pthread_sigmask'')
              else let s2 = (if rc_sigmask = 0 then s1\<lparr>blocked_signals := remdups (sig_mask s1 @ blocked_signals s1)\<rparr> else s1)
                   in if rc_sigaction \<noteq> 0 then Inl (ExitFailure ''sigaction'')
                      else let s3 = s2\<lparr>abort_handler := True\<rparr>
                           in if rc_create < 0 then Inl (ExitFailure ''pthread_create'')
                              else Inr ((if rc_create = 0 then s3\<lparr>mgt_threads := Suc (mgt_threads s3)\<rparr> else s3)\<lparr>sig_done := True\<rparr>))"

definition commInitialize :: "int \<Rightarrow> int \<Rightarrow> int \<Rightarrow> signal_mgt \<Rightarrow> signal_mgt result" where
  "commInitialize rc_sigmask rc_sigaction rc_create s =
     (if comm_done s then Inr s
      else bindE (signalMgtInitialize rc_sigmask rc_sigaction rc_create s) (\<lambda>s1. Inr (s1\<lparr>comm_done := True\<rparr>)))"

text \<open>The start of the thread of signals, and a turn of its loop on what \<^verbatim>\<open>sigwaitinfo\<close> answers: it
  waits again when a signal interrupts it.\<close>

datatype sigwait = Sig_interrupted | Sig_failed | Sig_got signal

definition signalMgtThread_start :: "int \<Rightarrow> int \<Rightarrow> signal_mgt \<Rightarrow> signal_mgt result" where
  "signalMgtThread_start rc_detach tid s =
     (if rc_detach < 0 then Inl (ExitFailure ''pthread_detach'') else Inr (s\<lparr>signalMgtThreadTid := tid\<rparr>))"

definition signalMgtThread_turn :: "sigwait \<Rightarrow> trComm option \<Rightarrow> trComm option result" where
  "signalMgtThread_turn w commDoingConnect =
     (case w of Sig_interrupted \<Rightarrow> Inr commDoingConnect
      | Sig_failed \<Rightarrow> Inl (ExitFailure ''sigwaitinfo'')
      | Sig_got sg \<Rightarrow> if sg = SIGALRM then Inr (commAbortWhenIT commDoingConnect) else Inl (ExitFailure ''Signal received''))"

section \<open>What they do\<close>

text \<open>However often the module is initialised, one thread is created.\<close>

lemma signalMgtInitialize_twice:
  "signalMgtInitialize a b c s = Inr s' \<Longrightarrow> signalMgtInitialize a' b' c' s' = Inr s'"
  by (auto simp: signalMgtInitialize_def Let_def split: if_splits)

definition ready_for_signals :: "signal_mgt \<Rightarrow> bool" where
  "ready_for_signals s \<longleftrightarrow> (sig_done s \<longrightarrow> abort_handler s \<and> sig_mask s = [SIGALRM]) \<and> (comm_done s \<longrightarrow> sig_done s) \<and>
     mgt_threads s \<le> 1 \<and> (\<not> sig_done s \<longrightarrow> mgt_threads s = 0)"

lemma ready_start: "ready_for_signals signal_mgt0"
  by (simp add: ready_for_signals_def signal_mgt0_def)

lemma ready_signalMgtInitialize:
  "ready_for_signals s \<Longrightarrow> signalMgtInitialize a b c s = Inr s' \<Longrightarrow> ready_for_signals s' \<and> sig_done s'"
  by (auto simp: signalMgtInitialize_def ready_for_signals_def Let_def split: if_splits)

lemma commInitialize_once:
  assumes "ready_for_signals s" "foldE (\<lambda>(a, b, c). commInitialize a b c) rcs s = Inr s'" "rcs \<noteq> []"
  shows "ready_for_signals s' \<and> abort_handler s' \<and> mgt_threads s' \<le> 1"
proof -
  have step: "ready_for_signals s1 \<and> comm_done s1" if r: "ready_for_signals s" and i: "commInitialize a b c s = Inr s1" for a b c s s1
  proof (cases "comm_done s")
    case True
    then show ?thesis using r i by (simp add: commInitialize_def)
  next
    case False
    then obtain s0 where s0: "signalMgtInitialize a b c s = Inr s0" "s1 = s0\<lparr>comm_done := True\<rparr>"
      using i by (auto simp: commInitialize_def bindE_eq_Inr)
    show ?thesis using ready_signalMgtInitialize [OF r s0(1)] by (simp add: s0(2) ready_for_signals_def)
  qed
  have "ready_for_signals s' \<and> comm_done s'" if "ready_for_signals s" "foldE (\<lambda>(a, b, c). commInitialize a b c) rcs s = Inr s'" "rcs \<noteq> []" for rcs s
    using that
  proof (induction rcs arbitrary: s)
    case (Cons x rcs)
    obtain a b c where x: "x = (a, b, c)" by (cases x)
    obtain s1 where s1: "commInitialize a b c s = Inr s1" "foldE (\<lambda>(a, b, c). commInitialize a b c) rcs s1 = Inr s'"
      using Cons.prems(2) by (auto simp: x bindE_eq_Inr)
    show ?case
      using Cons.IH [OF _ s1(2)] step [OF Cons.prems(1) s1(1)] s1(2) by (cases "rcs = []") auto
  qed simp
  from this [OF assms] show ?thesis by (simp add: ready_for_signals_def)
qed

text \<open>An error of \<^verbatim>\<open>pthread_create\<close>, which is positive, leaves the module without its thread for
  good.\<close>

lemma no_signal_thread:
  "0 < c \<Longrightarrow> \<exists>s'. signalMgtInitialize 0 0 c signal_mgt0 = Inr s' \<and> mgt_threads s' = 0 \<and> signalMgtInitialize 0 0 0 s' = Inr s'"
  by (simp add: signalMgtInitialize_def signal_mgt0_def)

text \<open>The thread aborts the connection under way exactly when the timer rings.\<close>

lemma signal_thread_aborts:
  assumes "foldE signalMgtThread_turn ws (Some c) = Inr c'"
  shows "c' = Some (c\<lparr>aborted := (aborted c \<or> Sig_got SIGALRM \<in> set ws)\<rparr>)"
  using assms
proof (induction ws arbitrary: c)
  case (Cons w ws)
  consider "w = Sig_interrupted" | "w = Sig_got SIGALRM"
    using Cons.prems by (cases w) (auto simp: signalMgtThread_turn_def split: if_splits)
  then show ?case
  proof cases
    case 1
    then show ?thesis using Cons.IH [of c] Cons.prems by (simp add: signalMgtThread_turn_def [of Sig_interrupted])
  next
    case 2
    then show ?thesis using Cons.IH [of "c\<lparr>aborted := True\<rparr>"] Cons.prems
      by (simp add: signalMgtThread_turn_def [of "Sig_got SIGALRM"] commAbortWhenIT_def)
  qed
qed simp

end
