(* ===== verification/Spec2Isabelle.thy ===== *)
theory Spec2Isabelle
  imports DataProperties NetworkProperties AutomatonProperties RingProperties BenchProperties McastProperties ConfigProperties Signals
begin

text \<open>
  A verification library of protocolPFE: a C middleware (\<^verbatim>\<open>src/src\<close>, \<^verbatim>\<open>src/include\<close>) that
  broadcasts messages in a circuit of processes by trains that go round it, and two programs
  that measure simpler protocols, a ring with a sequencer over TCP (\<^verbatim>\<open>protocol_tcp\<close>) and
  multicast with a sequencer over UDP (\<^verbatim>\<open>protocol_udp\<close>).

  How it models C. An operation that can fail returns \<open>fault + 'a\<close>: a read or write of memory
  it may not (\<open>MemFault\<close>, also for what C leaves undefined), the end of the process
  (\<open>ExitFailure\<close>), a wait (\<open>Blocks\<close>), a loop that does not end (\<open>Diverges\<close>). Integers that wrap
  or are sent are words of their width, buffers are lists of bytes with the fields of packed
  structures at their offsets, allocated cells are in maps from addresses, global variables in
  records that the operations pass along. System calls answer by scripts, which are arguments.
  A step of a thread that holds a mutex for its length is one step. A loop with an \<open>nat\<close> first
  is bounded by it and answers \<open>Diverges\<close> when it runs out: \<open>lose_pred\<close> has 17 turns, one more
  than the ranks there are; \<open>searchSucc_loop\<close> 16, the ranks; the lists, iterators and
  \<open>deliver_ready\<close> the number of elements or bytes; lemmas show that these are enough. \<open>addrPrec\<close>
  may not end and is a \<open>partial_function\<close>; \<open>addr_lines\<close> and \<open>config_lines\<close> end with the file.

  \<open>Prelude\<close> has the faults, the collections of hints and the lemmas all theories share.

  The middleware, from the bottom:
  \<^item> \<open>Address\<close>, \<open>AddrTable\<close> (\<^verbatim>\<open>address.c\<close>, \<^verbatim>\<open>management_addr.c\<close>): addresses as bits, the
    predecessor on the ring, the table of participants and connections; \<open>AddrFile\<close> with
    \<open>CString\<close>: the reader \<^verbatim>\<open>addrGenerator\<close> of the file of addresses, over the functions of the
    C library it uses. \<open>ConfigProperties\<close>: it reads back what is written, and refuses doubles;
  \<^item> \<open>LinkedList\<close>, \<open>Bqueue\<close> (\<^verbatim>\<open>list.c\<close>, \<^verbatim>\<open>bqueue.c\<close>): cells, the queue, each with its contract as
    a locale, \<open>fifo_store\<close> and \<open>blocking_fifo\<close>, interpreted on the code's operations;
  \<^item> \<open>Wire\<close> (\<^verbatim>\<open>msg.c\<close>, \<^verbatim>\<open>wagon.c\<close>): messages, wagons, trains, their iterators; \<open>Encoding\<close>: the
    encodings are prefix codes;
  \<^item> \<open>Comm\<close> (\<^verbatim>\<open>comm.c\<close>): reads, writes, connects that retry and can be aborted; \<open>Signals\<close>
    (\<^verbatim>\<open>signalMgt.c\<close>): the handler and the thread of signals, set up once;
  \<^item> \<open>AdvStruct\<close> (\<^verbatim>\<open>advanced_struct.c\<close>): buffers with reference counts, wagons that grow, the
    window of recent trains. \<open>DataProperties\<close> has the properties of all these;
  \<^item> \<open>Globals\<close>: the global variables, and a trace of what a process does to the outside;
  \<^item> \<open>AppMessage\<close> (\<^verbatim>\<open>applicationMessage.c\<close>, \<^verbatim>\<open>signalArrival.c\<close>): \<^verbatim>\<open>newmsg\<close> with its flow control,
    broadcasts, announcements, the delivering thread; \<open>IoMsg\<close> (\<^verbatim>\<open>iomsg.c\<close>, \<^verbatim>\<open>connect.c\<close>):
    sending, receiving, connections and their threads. \<open>NetworkProperties\<close>;
  \<^item> \<open>TrainHandling\<close>, \<open>Automaton\<close> (\<^verbatim>\<open>stateMachine.c\<close>, \<^verbatim>\<open>interface.c\<close>): what a process does with a
    train, the automaton in its six states, the start of a process;
  \<^item> \<open>TrainInvariant\<close>, \<open>AutomatonInvariant\<close>, \<open>StartInvariant\<close>: every reference to a buffer is
    counted (\<open>consistent\<close>), for every handler and from the start; \<open>AutomatonSteps\<close>: the
    automaton refines a step relation on the variables that decide it; \<open>LostPred\<close>: the loop
    after the loss of the predecessor is a search over a list. \<open>AutomatonProperties\<close>;
  \<^item> \<open>DelayLine\<close>, \<open>Life\<close>: the runs of a member of a circuit, any interleaving of trains and the
    operations of its other threads, as a delay line of two rounds of wagons; the properties
    are in this theory;
  \<^item> \<open>RingOrder\<close>, \<open>Ring\<close>, \<open>RingInvariant\<close>, \<open>RingRun\<close>, \<open>RingSchedule\<close>: a whole circuit that nobody
    joins or leaves, with the bytes between its members; its channels contain exactly the
    trains under way. \<open>RingProperties\<close>: total order with one train, its failure with two;
    \<open>Samples\<close> and \<open>PairSample\<close> are the concrete processes and circuits of the instances.

  The benchmarks. Their \<^verbatim>\<open>vector.h\<close> is not in the repository: its operations are the
  parameter \<open>vector_ops\<close>, with what the programs rely on as \<open>vector_laws\<close>; lists satisfy it.
  \<^item> \<open>Bench\<close>: the state and the operations both have; \<open>BenchConfig\<close>: arguments and the
    configuration file; \<open>BenchSockets\<close>: the sockets, over what the system answers; \<open>RingTcp\<close>, \<open>McastUdp\<close>: the functions of each;
  \<^item> \<open>BenchInvariant\<close>: well-formed processes, for any format of messages, and what each
    operation on vectors does to the order (\<open>ord\<close>) and to the messages held back (\<open>hb\<close>);
  \<^item> \<open>Sequencer\<close>: total order by a sequencer on a ring, abstractly; \<open>BenchHandlers\<close>,
    \<open>BenchThreads\<close>, \<open>BenchRing\<close>: the processes of \<open>RingTcp\<close> with the bytes on their connections
    refine it, when the turns of their threads follow one another;
  \<^item> \<open>BenchStatements\<close>: the threads of the ring benchmark statement by statement, with and
    without a mutex around the turns; \<open>BenchRoom\<close>: vectors that refuse elements do what vectors
    with room do until the process is aborted; \<open>BenchLocked\<close>: with the mutex, the interleaved
    statements of all processes come to whole turns. \<open>BenchProperties\<close>: order and absence of
    faults with the mutex, and the runs that break both without it, as the program is;
  \<^item> \<open>McastHandlers\<close>, \<open>McastThreads\<close>, \<open>McastRuns\<close>: the runs of a process on datagrams that may be
    lost, doubled or late. \<open>McastProperties\<close>.
  In the multicast benchmark a turn of a thread is one step: only \<^verbatim>\<open>process_msg\<close> changes the
  vectors there. In its runs the vectors take what they are given and sendto sends what it is
  given.

  Not modelled: the printing of errors and results; the sleeps of the benchmarks' main threads;
  sums of floating-point numbers, of which the summands are kept; the code that only
  \<^verbatim>\<open>INSERTION_TEST\<close> compiles, which measures times; the scheduling of threads within a step, which
  in the statements of the ring benchmark is a call, also of \<^verbatim>\<open>update_vector\<close>.
\<close>

text \<open>
  C7: a train that comes to a member of the circuit, when it is the one expected and newer
  than the last one sent of its id, is passed on: the bytes written to the successor are the
  train with its clock advanced, the round it gets here, the circuit brought up to date, the
  wagons of the train that are neither the process's own, nor of a process out of the
  circuit, nor of the successor, and the wagon of the process; the wagons of the others and
  its own become unstable in the round of the train, those of two rounds ago are queued for
  delivery, the buffer of the message is given up once, and every buffer still has exactly
  the references that designate it.
\<close>

theorem train_passed_on:
  assumes "automatonState g = SEVERAL"
    and "consistent g D U (add_mset p lk) cap wg" "train_in g p st circuit ws t"
    and "7 \<le> wagonMaxLen g" "depart_room g t wg" "length (enc_wagon wg) + 144 < 2 ^ 31"
    and "\<forall>m \<in> set (aw_msgs wg). readable m" "trains_named g"
    and "addrIsMember (myAddress g) circuit"
    and "isRecentTrain (ntr g) st (lts g) (word_of_int (lis g)) = Inr True"
    and "succ g \<noteq> 0" "getTComm (addrToRank (succ g)) False (globalAddrArray g) = Inr (Some c)"
    and "contiguous (goes_on g t circuit) ws"
    and "takes_write e g c (length (train_out g t st circuit ws wg))" "length (train_out g t st circuit ws wg) < 2 ^ 31"
  shows "\<exists>g' wi cap'. stateMachine e p g = Inr g' \<and>
    consistent g' (D @ U t (delivered_round (round_of st (lts g ! t)))) (unstable_after g U p t st circuit ws wi wg)
      lk cap' (wagon_after g t circuit wg) \<and>
    trace g' = trace g @ [Wrote c (train_out g t st circuit ws wg)] \<and> lis g' = int t \<and> trains_named g' \<and>
    lts_circuit (lts g' ! t) = new_circuit g t circuit \<and> automatonState g' = SEVERAL"
proof -
  obtain v where "womims (mem g) p = Some v" "holds (bytes v) 0 (enc_train st circuit ws)"
    using assms(3) by (auto simp: train_in_def)
  then have "msg_at p g msg_type = Inr TRAIN"
    by (simp add: msg_at_def get_womim_def holds_enc_train(2))
  then have "stateMachine e p g = several_train e p g"
    using assms(1) by (simp add: stateMachine_def on_several_def)
  moreover obtain g' wi cap' where "several_train e p g = Inr g'"
    "consistent g' (D @ U t (delivered_round (round_of st (lts g ! t)))) (unstable_after g U p t st circuit ws wi wg)
       lk cap' (wagon_after g t circuit wg)"
    "trace g' = trace g @ [Wrote c (train_out g t st circuit ws wg)]" "lis g' = int t" "trains_named g'"
    "lts_circuit (lts g' ! t) = new_circuit g t circuit" "automatonState g' = automatonState g"
    by (rule several_train_recent [OF assms(2-)])
  ultimately show ?thesis using assms(1) by auto
qed

theorem train_passed_on_witness:
  "\<exists>g' wi cap'. stateMachine sample_env 1 sample_globals = Inr g' \<and>
    consistent g' [] (unstable_after sample_globals no_held 1 0 sample_stamp 7 [sample_wagon] wi sample_own)
      {#} cap' (wagon_after sample_globals 0 7 sample_own) \<and>
    trace g' = [Wrote 0 (train_out sample_globals 0 sample_stamp 7 [sample_wagon] sample_own)] \<and> lis g' = 0 \<and> trains_named g' \<and>
    lts_circuit (lts g' ! 0) = 7 \<and> automatonState g' = SEVERAL"
proof -
  have h: "automatonState sample_globals = SEVERAL" "7 \<le> wagonMaxLen sample_globals" "succ sample_globals \<noteq> 0"
    "length (enc_wagon sample_own) + 144 < 2 ^ 31" "trace sample_globals = []"
    "length (train_out sample_globals 0 sample_stamp 7 [sample_wagon] sample_own) < 2 ^ 31"
    "addrIsMember (myAddress sample_globals) 7" "\<forall>m \<in> set (aw_msgs sample_own). readable m"
    using length_sample_own length_sample_out
    by (simp_all add: sample_globals_def globals0_def addrIsMember_def sample_own_def readable_def AM_defs)
  have w: "takes_write sample_env sample_globals 0 (length (train_out sample_globals 0 sample_stamp 7 [sample_wagon] sample_own))"
    by (rule sample_write) (simp add: length_sample_out)
  show ?thesis
    using train_passed_on [OF h(1) sample_consistent sample_train_in h(2) sample_room h(4) h(8) sample_named h(7)
        sample_recent h(3) sample_succ sample_contiguous w h(6)]
    by (simp add: no_held_def h(5) sample_circuit)
qed

text \<open>C1: whatever a member of a circuit does with others, from a start where nothing is
  unstable: the application is told the wagons that were waiting at the start and then those
  of the trains that came, each train's in its order, in the order of the trains and up to
  the last two rounds of the trains, which wait; nothing is told twice, lost, or told out of
  order, whatever the messages, the allocations, the flow control and the turns of the
  delivering thread in between.\<close>

theorem delivery_in_order:
  assumes "life_run e s s'" "life_start s W0"
  shows "\<exists>told wis wgs. to_deliver (l_now s') wis wgs \<and>
    told @ wgs = W0 @ concat (take (length (l_batches s') - 2 * nat (ntr (l_now s'))) (l_batches s')) \<and>
    app_events (trace (l_now s')) = app_events (trace (l_now s)) @ concat (map wagon_events told)"
proof -
  obtain D U cap told where *: "consistent (l_now s') D U (l_msgs s') cap (l_own s')"
    "told @ map snd D = W0 @ concat (take (length (l_batches s')) (through s'))"
    "app_events (trace (l_now s')) = app_events (trace (l_now s)) @ concat (map wagon_events told)"
    using life_ok_run [OF assms(1) life_ok_start [OF assms(2)]] by (auto simp: life_ok_def)
  show ?thesis
    by (intro exI [of _ told] exI [of _ "map fst D"] exI [of _ "map snd D"])
      (use * consistent_to_deliver [OF *(1)] in \<open>simp add: through_take\<close>)
qed

definition sample_life :: life where
  "sample_life = \<lparr>l_now = sample_globals, l_msgs = {#1#}, l_own = sample_own, l_batches = []\<rparr>"

lemma sample_life_start: "life_start sample_life []"
proof -
  have r: "rounds_ok sample_globals"
    by (simp add: rounds_ok_def sample_globals_def globals0_def init_train_def)
  have "automatonState sample_globals = SEVERAL" "7 \<le> wagonMaxLen sample_globals" "wagonMaxLen sample_globals < 2 ^ 31"
    by (simp_all add: sample_globals_def)
  moreover have "\<forall>m \<in> set (aw_msgs sample_own). readable m"
    by (simp add: sample_own_def readable_def AM_defs)
  ultimately show ?thesis
    using sample_consistent sample_named r by (auto simp: life_start_def sample_life_def)
qed

lemma sample_in_step: "in_step sample_stamp (lts sample_globals ! 0)"
  by (simp add: in_step_def sample_stamp_def sample_globals_def init_train_def)

lemma sample_visit:
  obtains g' where "life_run sample_env sample_life \<lparr>l_now = g', l_msgs = {#}, l_own = wagon_after sample_globals 0 7 sample_own,
      l_batches = [batch sample_globals 0 sample_stamp 7 [sample_wagon] sample_own]\<rparr>"
    "ntr g' = ntr sample_globals"
proof -
  have w: "takes_write sample_env sample_globals 0 (length (train_out sample_globals 0 sample_stamp 7 [sample_wagon] sample_own))"
    by (rule sample_write) (simp add: length_sample_out)
  have h: "7 \<le> wagonMaxLen sample_globals" "\<forall>m \<in> set (aw_msgs sample_own). readable m" "addrIsMember (myAddress sample_globals) 7"
    "succ sample_globals \<noteq> 0" "length (enc_wagon sample_own) + 144 < 2 ^ 31"
    "length (train_out sample_globals 0 sample_stamp 7 [sample_wagon] sample_own) < 2 ^ 31" "automatonState sample_globals = SEVERAL"
    using length_sample_own length_sample_out
    by (simp_all add: sample_globals_def globals0_def addrIsMember_def sample_own_def readable_def AM_defs)
  have sm: "msg_at 1 sample_globals msg_type = Inr TRAIN" by (rule sample_msg)
  obtain g' where g': "several_train sample_env 1 sample_globals = Inr g'" "ntr g' = ntr sample_globals"
    by (rule several_train_recent [OF sample_consistent sample_train_in h(1) sample_room h(5,2) sample_named h(3)
        sample_recent h(4) sample_succ sample_contiguous w h(6)]) (rule that)
  have sm': "stateMachine sample_env 1 sample_globals = several_train sample_env 1 sample_globals"
    unfolding stateMachine_def on_several_def sm h(7) by simp
  have "life_step sample_env sample_life \<lparr>l_now = g', l_msgs = {#}, l_own = wagon_after (l_now sample_life) 0 7 (l_own sample_life),
      l_batches = l_batches sample_life @ [batch (l_now sample_life) 0 sample_stamp 7 [sample_wagon] (l_own sample_life)]\<rparr>"
  proof (rule life_step.visit)
    show "stateMachine sample_env 1 (l_now sample_life) = Inr g'" using sm' g'(1) by (simp add: sample_life_def)
  qed (use h sample_train_in sample_recent sample_room sample_in_step in \<open>simp_all add: sample_life_def\<close>)
  then show thesis using g'(2) by (intro that [of g']) (simp_all add: life_run_def sample_life_def r_into_rtranclp)
qed

theorem delivery_in_order_witness:
  "\<exists>g'. life_run sample_env sample_life \<lparr>l_now = g', l_msgs = {#}, l_own = wagon_after sample_globals 0 7 sample_own,
      l_batches = [batch sample_globals 0 sample_stamp 7 [sample_wagon] sample_own]\<rparr> \<and>
    to_deliver g' [] [] \<and> app_events (trace g') = []"
proof -
  obtain g' where g': "life_run sample_env sample_life \<lparr>l_now = g', l_msgs = {#}, l_own = wagon_after sample_globals 0 7 sample_own,
      l_batches = [batch sample_globals 0 sample_stamp 7 [sample_wagon] sample_own]\<rparr>" "ntr g' = ntr sample_globals"
    by (rule sample_visit)
  have n: "ntr sample_globals = 1" "trace sample_globals = []" by (simp_all add: sample_globals_def globals0_def)
  obtain told wis wgs where *: "to_deliver g' wis wgs" "told @ wgs = []" "app_events (trace g') = concat (map wagon_events told)"
    using delivery_in_order [OF g'(1) sample_life_start] by (auto simp: g'(2) n sample_life_def)
  have "to_deliver g' [] []" using * by (auto simp: to_deliver_def)
  then show ?thesis using g'(1) * by (intro exI [of _ g']) simp
qed

text \<open>C8: in every such run every buffer has exactly as many references as its counter says, a
  buffer is freed exactly when nothing designates it, the trains keep the id of their row, and
  the messages not treated yet are designated once each: no buffer is used after it is
  freed, none leaks, whatever the interleaving of the steps.\<close>

theorem buffers_exact:
  assumes "life_run e s s'" "life_start s W0"
  shows "trains_named (l_now s') \<and> (\<exists>D U cap a. consistent (l_now s') D U (l_msgs s') cap (l_own s') \<and>
    counts (mem (l_now s')) (add_mset a (wrefs D + U_refs U + lts_refs (lts (l_now s')) + l_msgs s')) \<and>
    a \<notin># wrefs D + U_refs U + lts_refs (lts (l_now s')) + l_msgs s')"
proof -
  obtain D U cap where *: "consistent (l_now s') D U (l_msgs s') cap (l_own s')" "trains_named (l_now s')"
    using life_ok_run [OF assms(1) life_ok_start [OF assms(2)]] by (auto simp: life_ok_def)
  then have "building (l_now s') (all_refs (l_now s') D U + l_msgs s') cap (l_own s')" by (simp add: consistent_def)
  then show ?thesis using * unfolding building_def all_refs_def by blast
qed

theorem buffers_exact_witness:
  "\<exists>g' D U cap a. life_run sample_env sample_life \<lparr>l_now = g', l_msgs = {#}, l_own = wagon_after sample_globals 0 7 sample_own,
      l_batches = [batch sample_globals 0 sample_stamp 7 [sample_wagon] sample_own]\<rparr> \<and>
    consistent g' D U {#} cap (wagon_after sample_globals 0 7 sample_own) \<and>
    counts (mem g') (add_mset a (wrefs D + U_refs U + lts_refs (lts g')))"
proof -
  obtain g' where g': "life_run sample_env sample_life \<lparr>l_now = g', l_msgs = {#}, l_own = wagon_after sample_globals 0 7 sample_own,
      l_batches = [batch sample_globals 0 sample_stamp 7 [sample_wagon] sample_own]\<rparr>"
    by (rule sample_visit)
  then show ?thesis using buffers_exact [OF g' sample_life_start] by auto
qed

text \<open>C3: a member that loses its predecessor, and that none of the members before it answers, is
  alone: it has no neighbour but itself, and everything it held is handed over in order,
  the wagons of all trains that came, then its own wagon with the departures of those that
  did not answer, in the circuit that is left.\<close>

theorem alone_delivers_all:
  assumes "life_run e s s'" "life_start s W0" "l_msgs s' = add_mset p lk"
    and "msg_at p (l_now s') msg_type = Inr DISCONNECT_PRED"
    and "is_address (prec (l_now s'))" "is_address (myAddress (l_now s'))"
    and "circuit = lts_circuit (lts (l_now s') ! nat (lis (l_now s')))" "addrIsMember (myAddress (l_now s')) circuit"
    and "lost = tried circuit (prec (l_now s')) (myAddress (l_now s'))"
    and "\<forall>a \<in> set lost. no_answer e (globalAddrArray (l_now s')) a"
    and "gone = snd (after_losses lost (cameProc (l_now s'), goneProc (l_now s')))"
    and "int (length (enc_wagon (l_own s'))) + 144 \<le> wagonMaxLen (l_now s')"
  shows "\<exists>g' told wis wgs. stateMachine e p (l_now s') = Inr g' \<and> automatonState g' = ALONE_INSERT_WAIT \<and>
    prec g' = myAddress (l_now s') \<and> succ g' = myAddress (l_now s') \<and> to_deliver g' wis wgs \<and>
    told @ wgs = W0 @ concat (l_batches s') @ [add_announcements AM_DEPARTURE (circuit AND NOT gone) (members_of gone) (l_own s')] \<and>
    app_events (trace g') = app_events (trace (l_now s)) @ concat (map wagon_events told)"
proof -
  let ?g = "l_now s'" and ?n = "length (l_batches s')"
  obtain D U cap told where ok: "consistent ?g D U (add_mset p lk) cap (l_own s')" "line ?g U (drop ?n (through s'))"
    "told @ map snd D = W0 @ concat (take ?n (through s'))"
    "app_events (trace ?g) = app_events (trace (l_now s)) @ concat (map wagon_events told)"
    "7 \<le> wagonMaxLen ?g" "wagonMaxLen ?g < 2 ^ 31" "\<forall>m \<in> set (aw_msgs (l_own s')). readable m" "automatonState ?g = SEVERAL"
    using life_ok_run [OF assms(1) life_ok_start [OF assms(2)]] assms(3) by (auto simp: life_ok_def)
  have "0 \<le> lis ?g" "lis ?g < ntr ?g" "ntr ?g \<le> 16" "length (lts ?g) = 16"
    using ok(1,2) by (simp_all add: line_def rounds_ok_def consistent_def tables_def)
  then have l: "0 \<le> lis ?g" "nat (lis ?g) < length (lts ?g)" by simp_all
  obtain n where tp: "try_preds e (myAddress ?g) lost ?g = Inr (False, ?g\<lparr>prec := (if lost = [] then prec ?g else myAddress ?g),
     cameProc := fst (after_losses lost (cameProc ?g, goneProc ?g)), goneProc := gone, connects_done := n\<rparr>)"
    using try_preds_nobody [OF assms(10), of "myAddress ?g"] assms(11) by auto
  then obtain g1 where g1: "lose_pred 17 e ?g = Inr (False, g1)" "goneProc g1 = gone"
    using lose_pred_tried [OF l assms(5,6), of e] assms(7,8,9) by simp
  obtain g' D' U' cap' where a: "stateMachine e p ?g = Inr g'"
    "consistent g' D' U' lk cap' (empty_wagon (myAddress ?g))"
    "map snd D' = map snd D @ concat (drop ?n (through s')) @
       [add_announcements AM_DEPARTURE (lts_circuit (lts ?g ! nat (lis ?g)) AND NOT (goneProc g1)) (members_of (goneProc g1)) (l_own s')]"
    "app_events (trace g') = app_events (trace ?g)" "prec g' = myAddress ?g" "succ g' = myAddress ?g" "automatonState g' = ALONE_INSERT_WAIT"
    by (rule alone_again [OF ok(1,2,5,6,7) assms(12) ok(8) assms(4) g1(1)])
  have th: "concat (take ?n (through s')) @ concat (drop ?n (through s')) = concat (l_batches s')"
    by (simp only: concat_append [symmetric] append_take_drop_id) (simp add: through_def)
  have "told @ map snd D' = (told @ map snd D) @ concat (drop ?n (through s')) @
       [add_announcements AM_DEPARTURE (circuit AND NOT gone) (members_of gone) (l_own s')]"
    using a(3) g1(2) assms(7) by simp
  also have "\<dots> = W0 @ (concat (take ?n (through s')) @ concat (drop ?n (through s'))) @
       [add_announcements AM_DEPARTURE (circuit AND NOT gone) (members_of gone) (l_own s')]"
    by (simp add: ok(3))
  finally have "told @ map snd D' = W0 @ concat (l_batches s') @
       [add_announcements AM_DEPARTURE (circuit AND NOT gone) (members_of gone) (l_own s')]"
    by (simp only: th)
  moreover have "to_deliver g' (map fst D') (map snd D')" by (rule consistent_to_deliver [OF a(2)])
  ultimately show ?thesis using a ok(4) by (intro exI conjI) (assumption | simp)+
qed

definition lonely_heap :: heap where
  "lonely_heap = \<lparr>womims = [0 \<mapsto> \<lparr>counter = 1, bytes = enc_wagon sample_own @ replicate 147 0\<rparr>,
     1 \<mapsto> \<lparr>counter = 1, bytes = ctrl_bytes DISCONNECT_PRED 1\<rparr>], next_id = 2\<rparr>"

definition lonely_globals :: globals where
  "lonely_globals = sample_globals\<lparr>wagonMaxLen := 160, lts := (lts sample_globals)[0 := (init_train 0)\<lparr>lts_circuit := 3\<rparr>],
     mem := lonely_heap\<rparr>"

definition lonely_life :: life where
  "lonely_life = \<lparr>l_now = lonely_globals, l_msgs = {#1#}, l_own = sample_own, l_batches = []\<rparr>"

lemma lonely_consistent: "consistent lonely_globals [] no_held {#1#} 160 sample_own"
proof -
  have u: "\<forall>l \<in> set (lts lonely_globals). unused l"
    using sample_unused set_update_subset_insert [of "lts sample_globals" 0 "(init_train 0)\<lparr>lts_circuit := 3\<rparr>"]
    by (auto simp: lonely_globals_def unused_def init_train_def no_wiw_def)
  have "counts lonely_heap {#0, 1#}" by (auto simp: counts_def lonely_heap_def)
  then have "building lonely_globals {#1#} 160 sample_own"
    by (intro buildingI [of _ 0 "\<lparr>counter = 1, bytes = enc_wagon sample_own @ replicate 147 0\<rparr>"])
      (simp_all add: lonely_globals_def sample_globals_def wagon_in_def lonely_heap_def length_sample_own holds_append_buf holds_whole add_mset_commute)
  moreover have "all_refs lonely_globals [] no_held = {#}"
    using lts_refs_unused [OF u] by (simp add: all_refs_def)
  moreover have "tables lonely_globals no_held"
    using sample_tables by (simp add: tables_def lonely_globals_def)
  moreover have "wagonsToDeliver lonely_globals = Some newBqueue" "wagonMaxLen lonely_globals = 160"
    by (simp_all add: lonely_globals_def sample_globals_def)
  ultimately show ?thesis
    using u brep_newBqueue unused_ok unfolding consistent_def by (simp add: no_held_def)
qed

lemma lonely_start: "life_start lonely_life []"
proof -
  have "automatonState lonely_globals = SEVERAL" "7 \<le> wagonMaxLen lonely_globals" "wagonMaxLen lonely_globals < 2 ^ 31"
    by (simp_all add: lonely_globals_def sample_globals_def)
  moreover have "trains_named lonely_globals" "rounds_ok lonely_globals"
    by (simp_all add: trains_named_def rounds_ok_def lonely_globals_def sample_globals_def globals0_def init_train_def)
  moreover have "\<forall>m \<in> set (aw_msgs sample_own). readable m"
    by (simp add: sample_own_def readable_def AM_defs)
  ultimately show ?thesis
    using lonely_consistent by (auto simp: life_start_def lonely_life_def)
qed

theorem alone_delivers_all_witness:
  "\<exists>g' told wis wgs. stateMachine sample_env 1 lonely_globals = Inr g' \<and> automatonState g' = ALONE_INSERT_WAIT \<and>
    prec g' = 2 \<and> succ g' = 2 \<and> to_deliver g' wis wgs \<and>
    told @ wgs = [add_announcements AM_DEPARTURE 2 [1] sample_own] \<and> app_events (trace g') = concat (map wagon_events told)"
proof -
  have run: "life_run sample_env lonely_life lonely_life" by (simp add: life_run_def)
  have g: "prec lonely_globals = 1" "myAddress lonely_globals = 2" "lts_circuit (lts lonely_globals ! nat (lis lonely_globals)) = 3"
    "cameProc lonely_globals = 0" "goneProc lonely_globals = 0" "wagonMaxLen lonely_globals = 160" "trace lonely_globals = []"
    by (simp_all add: lonely_globals_def sample_globals_def globals0_def)
  have a: "is_address 1" "is_address 2" "addrToRank 1 = 0"
    using is_address_rankToAddr [of 0] is_address_rankToAddr [of 1] addrToRank_rankToAddr [of 0] by (simp_all add: rankToAddr_def)
  have t: "tried 3 1 2 = [1]" "members_of 1 = [1]" by code_simp+
  have m: "msg_at 1 lonely_globals msg_type = Inr DISCONNECT_PRED"
    using ctrl_bytes_read [of DISCONNECT_PRED 1 "[]"]
    by (simp add: msg_at_def get_womim_def lonely_globals_def lonely_heap_def)
  have n: "no_answer sample_env (globalAddrArray lonely_globals) 1"
    using a(3) by (simp add: no_answer_def lonely_globals_def sample_globals_def sample_array_def initAddrList_def NP_def)
  have l: "snd (after_losses [1] (0, 0)) = 1" by (simp add: after_losses_def addrAppendGone_def addrIsMember_def)
  have "(3 AND NOT 1 :: addressSet) = 2" by simp
  then show ?thesis
    using alone_delivers_all [OF run lonely_start, of 1 "{#}", OF _ _ _ _ refl _ refl _ refl] a m n
    by (simp add: lonely_life_def g t l length_sample_own addrIsMember_def)
qed

end
